(* ===== verification/Prelude.thy ===== *)
theory Prelude
  imports Main "HOL-Library.Word" "HOL-Library.Multiset"
begin

text \<open>
  Shared vocabulary of the development: the machine integer types of the scheduler's code, the
  theorem collections the component theories extend, and the generic facts on words, ring indices
  and folds that more than one component uses.
\<close>

unbundle bit_operations_syntax

section \<open>Types\<close>

text \<open>
  \<open>unsigned\<close> is 32 bits and \<open>size_t\<close>, \<open>uint64_t\<close>, \<open>uintptr_t\<close> are 64 bits on the two
  supported architectures (x86-64 and AArch64).  Arithmetic on both wraps around.
\<close>

type_synonym u32 = "32 word"
type_synonym u64 = "64 word"

text \<open>Theorem collections: facts that unfold an operation, and facts on ring positions.\<close>

named_theorems op_defs \<open>definitions of the code's operations\<close>
named_theorems ring_simps \<open>positions in a ring buffer\<close>

section \<open>Powers of two\<close>

lemma nat_and_pred_zero:
  "0 < n \<Longrightarrow> n AND (n - 1) = (0::nat) \<Longrightarrow> \<exists>k. n = 2 ^ k"
proof (induction n rule: less_induct)
  case (less n)
  show ?case
  proof (cases "even n")
    case True
    then obtain m where m: "n = 2 * m" by blast
    with less.prems have pos: "0 < m" by simp
    have half: "(2 * m - 1) div 2 = m - 1" using pos by simp
    have "m AND (m - 1) = 0"
      using less.prems m half by (simp add: and_nat_unfold [of "2 * m"])
    with less.IH [of m] pos m obtain k where "m = 2 ^ k" by auto
    with m have "n = 2 ^ Suc k" by simp
    then show ?thesis ..
  next
    case False
    then obtain m where m: "n = 2 * m + 1" by (elim oddE)
    have "(1 + 2 * m) AND (2 * m) = 2 * m"
      by (rule bit_eqI) (simp only: bit_and_iff even_bit_succ_iff [of "2 * m"] dvd_triv_left; blast)
    with less.prems m have "m = 0" by simp
    with m have "n = 2 ^ 0" by simp
    then show ?thesis ..
  qed
qed

section \<open>Words below a power of two\<close>

lemma unat_and_mask: "unat (x AND mask n) = unat x mod 2 ^ n"
  by (metis take_bit_eq_mask take_bit_eq_mod unsigned_take_bit_eq)

lemma mod_pow_le: "j \<le> k \<Longrightarrow> (a mod 2 ^ k) mod 2 ^ j = a mod (2::nat) ^ j"
  by (simp add: mod_mod_cancel le_imp_power_dvd)

lemma unat_add_mod_pow:
  fixes x y :: "'a::len word"
  shows "n \<le> LENGTH('a) \<Longrightarrow> unat (x + y) mod 2 ^ n = (unat x + unat y) mod 2 ^ n"
  by (simp add: unat_word_ariths mod_pow_le)

lemma unat_pred_mod_pow:
  fixes x :: "'a::len word"
  assumes "n \<le> LENGTH('a)"
  shows "unat (x - 1) mod 2 ^ n = (unat x + (2 ^ n - 1)) mod 2 ^ n"
proof -
  have "(unat (x - 1) + 1) mod 2 ^ n = unat x mod 2 ^ n"
    using unat_add_mod_pow [OF assms, of "x - 1" 1] by simp
  then have "(unat (x - 1) + 1 + (2 ^ n - 1)) mod 2 ^ n = (unat x + (2 ^ n - 1)) mod 2 ^ n"
    by (metis mod_add_cong)
  then show ?thesis by simp
qed

lemma and_or_not_mask:
  fixes a b m :: "'a::len word"
  shows "((a AND m) OR (b AND NOT m)) AND m = a AND m"
  by (rule bit_word_eqI) (auto simp: bit_simps)

section \<open>Signed differences\<close>

lemma sint_pred_nonneg:
  fixes d :: u32
  assumes "0 \<le> sint d"
  shows "sint (d - 1) = sint d - 1"
proof -
  have "signed_take_bit 31 (sint d - 1) = sint d - 1"
    using assms sint_lt [of d] by (intro signed_take_bit_int_eq_self) auto
  then show ?thesis by (simp add: sint_word_diff)
qed

lemma sint_diff_pred:
  fixes m b :: u32
  assumes "0 \<le> sint (m - b)"
  shows "sint (m - 1 - b) = sint (m - b) - 1"
proof -
  have "m - 1 - b = m - b - 1" by simp
  then show ?thesis by (simp only: sint_pred_nonneg [OF assms])
qed

lemma sint_small:
  fixes w :: u32
  assumes "unat w < 2147483648"
  shows "sint w = int (unat w)"
proof -
  have u: "uint w = int (unat w)" by (rule uint_nat)
  have "- 2147483648 \<le> uint w" "uint w < 2147483648" using assms unfolding u by linarith+
  then have "signed_take_bit 31 (uint w) = uint w"
    by (intro signed_take_bit_int_eq_self) simp_all
  then show ?thesis by (simp only: u [symmetric]) (simp add: sint_uint)
qed

lemma sint_diff_small:
  fixes a b :: u32
  assumes "unat a < 1073741824" "unat b < 1073741824"
  shows "sint (a - b) = int (unat a) - int (unat b)"
proof -
  have s: "sint a = int (unat a)" "sint b = int (unat b)"
    using assms by (intro sint_small; simp)+
  have "- 2147483648 \<le> int (unat a) - int (unat b)" "int (unat a) - int (unat b) < 2147483648"
    using assms by linarith+
  then have "signed_take_bit 31 (int (unat a) - int (unat b)) = int (unat a) - int (unat b)"
    by (intro signed_take_bit_int_eq_self) simp_all
  then show ?thesis using s by (simp only: sint_word_diff) simp
qed

text \<open>A word whose integer value is known modulo \<open>2 ^ 32\<close> and lies in range.\<close>

lemma unat_eqI:
  fixes w :: u32
  assumes "uint w = z mod 2 ^ 32" "z = int n" "n < 2 ^ 32"
  shows "unat w = n"
proof -
  have "z mod 2 ^ 32 = int n" using assms(2,3) by simp
  with assms(1) have "int (unat w) = int n" by (simp only: uint_nat)
  then show ?thesis by (simp only: of_nat_eq_iff)
qed

section \<open>Small numbers as words\<close>

lemma of_nat_u64_inj:
  assumes "a < 2 ^ 64" "b < 2 ^ 64"
  shows "(of_nat a :: u64) = of_nat b \<longleftrightarrow> a = b"
proof
  assume "(of_nat a :: u64) = of_nat b"
  then have "unat (of_nat a :: u64) = unat (of_nat b :: u64)" by simp
  then show "a = b" using assms by (simp only: unat_of_nat) simp
qed simp

lemma u32_of_nat: "n < 2 ^ 32 \<Longrightarrow> unat (of_nat n :: u32) = n"
  by (simp add: unat_of_nat)

lemma word_div_of_nat: "(a div b :: 'a::len word) = of_nat (unat a div unat b)"
  using arg_cong [OF unat_div [of a b], of "of_nat :: nat \<Rightarrow> 'a word"] by simp

section \<open>64-bit arithmetic without wrap-around\<close>

lemma u64_bound: "unat (w :: u64) < 2 ^ 64"
proof -
  have "unat w < 2 ^ LENGTH(64)" by (rule unsigned_less)
  then show ?thesis by simp
qed

lemma u64_add:
  fixes a b :: u64
  assumes "unat a + unat b < 2 ^ 64"
  shows "unat (a + b) = unat a + unat b"
  using assms by (simp add: unat_word_ariths)

lemma u64_Suc: "unat (a :: u64) < unat (b :: u64) \<Longrightarrow> unat (a + 1) = Suc (unat a)"
  using u64_bound [of b] by (simp add: unat_word_ariths)

lemma u64_add_bool:
  fixes a b :: u64
  assumes "unat a + (unat b + of_bool c) < 2 ^ 64"
  shows "unat (a + b + of_bool c) = unat a + (unat b + of_bool c)"
proof -
  have "unat (a + b) = unat a + unat b" using assms by (intro u64_add) simp
  then show ?thesis using assms by (cases c) (simp_all add: u64_add)
qed

lemma u64_sub: "(b :: u64) \<le> a \<Longrightarrow> unat (a - b) = unat a - unat b"
  by (rule unat_sub)

lemma u64_min: "unat (min a b :: u64) = min (unat a) (unat b)"
  by (simp add: min_def word_le_nat_alt)

lemma u64_of_bool: "unat (of_bool b :: u64) = of_bool b"
  by simp

lemma u64_eq: "a = (b :: u64) \<longleftrightarrow> unat a = unat b"
  by (rule word_unat_eq_iff)

text \<open>The indices of a loop from \<open>a\<close> to \<open>b\<close>, in order.\<close>

definition indices :: "u64 \<Rightarrow> u64 \<Rightarrow> u64 list" where
  "indices a b = map of_nat [unat a..<unat b]"

lemma indices_Nil: "b \<le> a \<Longrightarrow> indices a b = []"
  by (simp add: indices_def word_le_nat_alt)

lemma indices_Cons: "a < b \<Longrightarrow> indices a b = a # indices (a + 1) b"
  using u64_Suc [of a b] by (simp add: indices_def word_less_nat_alt upt_conv_Cons)

lemma indices_append:
  assumes "a \<le> b" "b \<le> c"
  shows "indices a b @ indices b c = indices a c"
proof -
  have le: "unat a \<le> unat b" "unat b \<le> unat c" using assms by (simp_all add: word_le_nat_alt)
  have "[unat a..<unat c] = [unat a..<unat b] @ [unat b..<unat c]"
    using upt_add_eq_append [OF le(1), of "unat c - unat b"] le(2) by simp
  then show ?thesis by (simp add: indices_def)
qed

lemma length_indices [simp]: "length (indices a b) = unat b - unat a"
  by (simp add: indices_def)

lemma distinct_indices [simp]: "distinct (indices a b)"
proof -
  have "inj_on (of_nat :: nat \<Rightarrow> u64) {unat a..<unat b}"
    using u64_bound [of b] by (intro inj_onI) (simp add: of_nat_u64_inj)
  then show ?thesis by (simp add: indices_def distinct_map)
qed

lemma set_indices [simp]: "i \<in> set (indices a b) \<longleftrightarrow> a \<le> i \<and> i < b"
proof
  assume "i \<in> set (indices a b)"
  then obtain n where n: "i = of_nat n" "unat a \<le> n" "n < unat b" by (auto simp: indices_def)
  moreover have "unat (of_nat n :: u64) = n" using n(3) u64_bound [of b] by (simp add: unat_of_nat)
  ultimately show "a \<le> i \<and> i < b" by (simp add: word_le_nat_alt word_less_nat_alt)
next
  assume "a \<le> i \<and> i < b"
  then have "unat i \<in> {unat a..<unat b}" by (simp add: word_le_nat_alt word_less_nat_alt)
  moreover have "i = of_nat (unat i)" by simp
  ultimately show "i \<in> set (indices a b)" unfolding indices_def by (metis image_eqI set_map set_upt)
qed

section \<open>Ring indices\<close>

lemma ring_inj [ring_simps]:
  assumes "i < k" "j < k"
  shows "(b + i) mod k = (b + j) mod k \<longleftrightarrow> i = (j::nat)"
proof
  assume eq: "(b + i) mod k = (b + j) mod k"
  show "i = j"
  proof (cases "i \<le> j")
    case True
    with eq have "k dvd j - i" using mod_eq_dvd_iff_nat [of "b + i" "b + j" k] by simp
    with assms True show ?thesis by (auto dest: dvd_imp_le)
  next
    case False
    with eq have "k dvd i - j" using mod_eq_dvd_iff_nat [of "b + j" "b + i" k] by simp
    with assms False show ?thesis by (auto dest: dvd_imp_le)
  qed
qed simp

lemma all_less_4: "(\<forall>j<4::nat. P j) \<longleftrightarrow> P 0 \<and> P 1 \<and> P 2 \<and> P 3"
  by (auto simp: numeral_eq_Suc All_less_Suc)

section \<open>Multiset balances\<close>

lemma distinct_submset:
  assumes "mset xs \<subseteq># mset ys" "distinct ys"
  shows "distinct xs"
proof -
  obtain C where "mset ys = mset xs + C" using assms(1) by (auto simp: subset_mset.le_iff_add)
  moreover obtain zs where "C = mset zs" using ex_mset by metis
  ultimately have "mset ys = mset (xs @ zs)" by simp
  then have "distinct (xs @ zs)" using assms(2) mset_eq_imp_distinct_iff by blast
  then show ?thesis by simp
qed

lemma unat_pred_less: "w \<noteq> 0 \<Longrightarrow> unat (w - 1 :: 'a::len word) < unat w"
  using unat_minus_one by (metis diff_less less_numeral_extra(1) unat_gt_0)

text \<open>Two steps of an account "what came in and what was there is what went out and what is left".\<close>

lemma balance_chain:
  fixes a :: "'a multiset"
  assumes "a + x = b + z" "a' + z = b' + y"
  shows "(a + a') + x = (b + b') + y"
proof -
  have "(a + a') + x = a' + (a + x)" by (simp add: ac_simps)
  also have "\<dots> = b + (a' + z)" by (simp add: assms(1) ac_simps)
  also have "\<dots> = (b + b') + y" by (simp add: assms(2) ac_simps)
  finally show ?thesis .
qed

end
