(* ===== verification/Partitioner.thy ===== *)
theory Partitioner
  imports Prelude
begin

text \<open>
  One task of the timespan partitioner (src/include/timespan\_partitioner.h): the object
  \<open>EigenPartitioner::Task\<close> with its iterations still to run, the distribution of work over the
  threads (\<open>DistributeWork\<close>) and the body \<open>operator()\<close> as a sequence of steps.  A step runs one
  iteration, creates one task or moves to the next phase; what the task learns from outside (whether
  the stack is half full, what the clock says) is an argument of the step.  Parallel\_For runs many
  of these tasks at once.
\<close>

section \<open>Data\<close>

record Range =
  From :: u64
  To :: u64

definition Range_Size :: "Range \<Rightarrow> u64" where
  "Range_Size r = To r - From r"

record SplitData =
  Threads :: Range
  GrainSize :: u64
  Depth :: u64

definition K_SPLIT :: u64 where
  "K_SPLIT = 2"

datatype Sharing = ENABLED | DISABLED

datatype Balancing = STATIC | TIMESPAN

text \<open>
  The node of a task is its address in the store of Task\_Nodes.  The scheduler reference and the
  loop body \<open>Func_\<close> are the same for all tasks of a loop; running the body at an index is the
  action \<open>Run\<close> below.
\<close>

record Task =
  SharingPolicy :: Sharing
  BalancingPolicy :: Balancing
  CurrentNode :: nat
  Current :: u64
  End :: u64
  Split :: SplitData

datatype par_error = DivisionByZero | AssertionFailed | UseAfterFree

datatype arch = X86_64 | AArch64

definition INIT_TIME :: "arch \<Rightarrow> int \<Rightarrow> u64" where
  "INIT_TIME a threads =
     (case a of
        X86_64 \<Rightarrow> if threads = 48 then 16500 else 205000
      | AArch64 \<Rightarrow> 1800)"

definition IsDivisible :: "bool \<Rightarrow> Task \<Rightarrow> bool" where
  "IsDivisible half_full t \<longleftrightarrow> Current t + GrainSize (Split t) < End t \<and> \<not> half_full"

section \<open>Distribution over threads\<close>

text \<open>The local variables of the loop of \<open>DistributeWork\<close>.\<close>

record dist =
  otherData :: Range
  otherThreads :: Range
  parts :: u64
  threadStep :: u64
  threadsMod :: u64
  dataStep :: u64
  dataMod :: u64
  part :: u64

definition distribute_begin :: "bool \<Rightarrow> Task \<Rightarrow> par_error + Task \<times> dist option" where
  "distribute_begin half_full t =
     (let n = Range_Size (Threads (Split t))
      in if n \<noteq> 1 \<and> IsDivisible half_full t then
           if n = 0 then Inl DivisionByZero
           else
             let data = \<lparr>From = Current t + (End t - Current t + n - 1) div n, To = End t\<rparr>
             in if From data < To data then
                  let t = t\<lparr>End := From data\<rparr>;
                      threads = \<lparr>From = From (Threads (Split t)) + 1, To = To (Threads (Split t))\<rparr>;
                      p = min (min K_SPLIT (Range_Size threads)) (Range_Size data)
                  in if p = 0 then Inl DivisionByZero
                     else Inr (t, Some \<lparr>otherData = data, otherThreads = threads, parts = p,
                                 threadStep = Range_Size threads div p,
                                 threadsMod = Range_Size threads mod p,
                                 dataStep = Range_Size data div p,
                                 dataMod = Range_Size data mod p, part = 0\<rparr>)
                else Inr (t, None)
         else Inr (t, None))"

text \<open>
  One round of the loop: the task for part \<open>i\<close> and the thread it is meant for.  Its node is filled
  in when the node is created; here the field names the parent.
\<close>

definition distribute_step :: "Task \<Rightarrow> dist \<Rightarrow> par_error + Task \<times> u64 \<times> dist" where
  "distribute_step t d =
     (let i = part d;
          threads = otherThreads d; data = otherData d;
          threadSplit = min (To threads)
            (From threads + threadStep d + of_bool (parts d - 1 - i < threadsMod d));
          dataSplit = min (To data)
            (From data + dataStep d
              + of_bool ((if threadsMod d = 0 then i else parts d - 1 - i) < dataMod d))
      in if From data < dataSplit \<and> From threads < threadSplit then
           Inr (\<lparr>SharingPolicy = SharingPolicy t, BalancingPolicy = BalancingPolicy t,
                  CurrentNode = CurrentNode t, Current = From data, End = dataSplit,
                  Split = \<lparr>Threads = \<lparr>From = From threads, To = threadSplit\<rparr>,
                           GrainSize = GrainSize (Split t), Depth = 0\<rparr>\<rparr>,
                From threads,
                d\<lparr>otherThreads := threads\<lparr>From := threadSplit\<rparr>,
                  otherData := data\<lparr>From := dataSplit\<rparr>, part := i + 1\<rparr>)
         else Inl AssertionFailed)"

definition distribute_end_ok :: "dist \<Rightarrow> bool" where
  "distribute_end_ok d \<longleftrightarrow>
     From (otherData d) = To (otherData d) \<and>
     (From (otherThreads d) = To (otherThreads d) \<or>
      parts d < K_SPLIT \<and> From (otherThreads d) + (K_SPLIT - parts d) = To (otherThreads d))"

lemma distribute_step_frame:
  assumes "distribute_step t d = Inr (child, thread, d')"
  shows "parts d' = parts d" "part d' = part d + 1"
    "threadStep d' = threadStep d" "threadsMod d' = threadsMod d"
    "dataStep d' = dataStep d" "dataMod d' = dataMod d"
proof -
  have "\<exists>ts ds. d' = d\<lparr>otherThreads := ts, otherData := ds, part := part d + 1\<rparr>"
    using assms unfolding distribute_step_def Let_def
    by (simp only: sum.inject sum.distinct prod.inject split: if_split_asm) ((elim conjE)?, intro exI, erule sym)+
  then show "parts d' = parts d" "part d' = part d + 1"
    "threadStep d' = threadStep d" "threadsMod d' = threadsMod d"
    "dataStep d' = dataStep d" "dataMod d' = dataMod d"
    by (elim exE, simp)+
qed

function distribute_loop :: "Task \<Rightarrow> dist \<Rightarrow> par_error + (Task \<times> u64) list" where
  "distribute_loop t d =
     (if part d \<noteq> parts d then
        case distribute_step t d of
          Inl e \<Rightarrow> Inl e
        | Inr (child, thread, d') \<Rightarrow>
            (case distribute_loop t d' of Inl e \<Rightarrow> Inl e | Inr cs \<Rightarrow> Inr ((child, thread) # cs))
      else if distribute_end_ok d then Inr [] else Inl AssertionFailed)"
  by pat_completeness auto

termination
proof (relation "measure (\<lambda>(t, d). unat (parts d - part d))")
  fix t d r p child q thread d'
  assume *: "part d \<noteq> parts d" "distribute_step t d = Inr p" "(child, q) = p" "(thread, d') = q"
  then have "parts d' = parts d" "part d' = part d + 1"
    using distribute_step_frame by blast+
  then show "((t, d'), t, d) \<in> measure (\<lambda>(t, d). unat (parts d - part d))"
    using unat_pred_less [of "parts d - part d"] *(1) by (simp add: diff_diff_eq [symmetric] del: diff_diff_eq)
qed simp

declare distribute_loop.simps [simp del]

text \<open>The whole of \<open>DistributeWork\<close>: the created tasks, in order, with their threads.\<close>

definition DistributeWork :: "bool \<Rightarrow> Task \<Rightarrow> par_error + Task \<times> (Task \<times> u64) list" where
  "DistributeWork half_full t =
     (case distribute_begin half_full t of
        Inl e \<Rightarrow> Inl e
      | Inr (t, None) \<Rightarrow> Inr (t, [])
      | Inr (t, Some d) \<Rightarrow>
          (case distribute_loop t d of Inl e \<Rightarrow> Inl e | Inr cs \<Rightarrow> Inr (t, cs)))"

section \<open>The task body\<close>

text \<open>Where \<open>operator()\<close> is: the payload of \<open>Executing\<close> is the time the loop started.\<close>

datatype pc = Distribute | Distributing dist | Timespan | Executing u64 | Balance | Drain

datatype action =
    Silent
  | Run u64                       \<comment> \<open>\<open>Func_(i)\<close>\<close>
  | NewTask "u64 option" Task     \<comment> \<open>\<open>run_on_thread\<close> with its thread, or \<open>run\<close>\<close>
  | Finish                        \<comment> \<open>\<open>CurrentNode_.Reset()\<close> and return\<close>

definition Execute :: "Task \<Rightarrow> action \<times> Task" where
  "Execute t = (Run (Current t), t\<lparr>Current := Current t + 1\<rparr>)"

definition balance_task :: "Task \<Rightarrow> Task \<times> Task" where
  "balance_task t =
     (let mid = Current t + (End t - Current t) div 2
      in (\<lparr>SharingPolicy = DISABLED, BalancingPolicy = STATIC, CurrentNode = CurrentNode t,
           Current = mid, End = End t,
           Split = \<lparr>Threads = \<lparr>From = 0, To = 0\<rparr>, GrainSize = GrainSize (Split t),
                    Depth = Depth (Split t) + 1\<rparr>\<rparr>,
          t\<lparr>End := mid\<rparr>))"

fun task_step :: "u64 \<Rightarrow> bool \<Rightarrow> u64 \<Rightarrow> Task \<Rightarrow> pc \<Rightarrow> par_error + action \<times> Task \<times> pc" where
  "task_step init half_full now t Distribute =
     (if SharingPolicy t = ENABLED then
        (case distribute_begin half_full t of
           Inl e \<Rightarrow> Inl e
         | Inr (t, None) \<Rightarrow> Inr (Silent, t, Timespan)
         | Inr (t, Some d) \<Rightarrow> Inr (Silent, t, Distributing d))
      else Inr (Silent, t, Timespan))"
| "task_step init half_full now t (Distributing d) =
     (if part d \<noteq> parts d then
        (case distribute_step t d of
           Inl e \<Rightarrow> Inl e
         | Inr (child, thread, d) \<Rightarrow> Inr (NewTask (Some thread) child, t, Distributing d))
      else if distribute_end_ok d then Inr (Silent, t, Timespan) else Inl AssertionFailed)"
| "task_step init half_full now t Timespan =
     (if BalancingPolicy t = TIMESPAN
      then Inr (Silent, t\<lparr>Split := (Split t)\<lparr>GrainSize := 1\<rparr>\<rparr>, Executing now)
      else Inr (Silent, t, Balance))"
| "task_step init half_full now t (Executing start) =
     (if Current t < End t then
        (case Execute t of
           (a, t) \<Rightarrow>
             if now - start > init then Inr (a, t, Balance)
             else Inr (a, t\<lparr>Split := (Split t)\<lparr>GrainSize := GrainSize (Split t) + 1\<rparr>\<rparr>, Executing start))
      else Inr (Silent, t, Balance))"
| "task_step init half_full now t Balance =
     (if Current t \<noteq> End t \<and> IsDivisible half_full t then
        (case balance_task t of (child, t) \<Rightarrow> Inr (NewTask None child, t, Balance))
      else Inr (Silent, t, Drain))"
| "task_step init half_full now t Drain =
     (if Current t \<noteq> End t then
        (case Execute t of (a, t) \<Rightarrow> Inr (a, t, Drain))
      else Inr (Finish, t, Drain))"

section \<open>How the work is split\<close>

text \<open>The sizes of the shares \<open>i, \<dots>, p - 1\<close> add up.\<close>

lemma sum_first: "(\<Sum>j<p. s + of_bool (j < m)) = p * s + min p (m::nat)"
  by (induction p) (auto simp: min_def)

lemma sum_last: "(\<Sum>j<p. s + of_bool (p - 1 - j < m)) = p * s + min p (m::nat)"
proof -
  have "(\<Sum>j<p. s + of_bool (p - 1 - j < m)) = (\<Sum>j<p. s + of_bool (j < m))"
    using sum.nat_diff_reindex [of "\<lambda>j. s + of_bool (j < m)" p] by simp
  then show ?thesis by (simp only: sum_first)
qed

definition thread_share :: "dist \<Rightarrow> nat \<Rightarrow> nat" where
  "thread_share d j = unat (threadStep d) + of_bool (unat (parts d) - 1 - j < unat (threadsMod d))"

definition data_share :: "dist \<Rightarrow> nat \<Rightarrow> nat" where
  "data_share d j = unat (dataStep d)
     + of_bool ((if threadsMod d = 0 then j else unat (parts d) - 1 - j) < unat (dataMod d))"

definition dist_inv :: "dist \<Rightarrow> bool" where
  "dist_inv d \<longleftrightarrow>
     unat (part d) \<le> unat (parts d) \<and> 0 < unat (threadStep d) \<and> 0 < unat (dataStep d) \<and>
     unat (To (otherThreads d)) =
       unat (From (otherThreads d)) + (\<Sum>j = unat (part d)..<unat (parts d). thread_share d j) \<and>
     unat (To (otherData d)) =
       unat (From (otherData d)) + (\<Sum>j = unat (part d)..<unat (parts d). data_share d j)"

lemma shares_total:
  assumes "0 < p" and d: "parts d = p" "threadStep d = T div p" "threadsMod d = T mod p"
    "dataStep d = D div p" "dataMod d = D mod p"
  shows "(\<Sum>j = 0..<unat p. thread_share d j) = unat T" "(\<Sum>j = 0..<unat p. data_share d j) = unat D"
proof -
  have p: "0 < unat p" using assms(1) by (simp add: word_less_nat_alt)
  then have m: "min (unat p) (unat w mod unat p) = unat w mod unat p" for w :: u64
    by (simp add: min_def) (meson mod_less_divisor not_less_iff_gr_or_eq order.strict_trans1)
  have split: "unat p * (unat w div unat p) + unat w mod unat p = unat w" for w :: u64 by simp
  have "(\<Sum>j = 0..<unat p. thread_share d j)
      = (\<Sum>j<unat p. unat T div unat p + of_bool (unat p - 1 - j < unat T mod unat p))"
    by (simp add: thread_share_def d unat_div unat_mod atLeast0LessThan)
  then show "(\<Sum>j = 0..<unat p. thread_share d j) = unat T"
    by (simp only: sum_last m split)
  have "(\<Sum>j = 0..<unat p. data_share d j)
      = (\<Sum>j<unat p. unat D div unat p
           + of_bool ((if threadsMod d = 0 then j else unat p - 1 - j) < unat D mod unat p))"
    unfolding data_share_def d by (simp add: unat_div unat_mod atLeast0LessThan)
  then show "(\<Sum>j = 0..<unat p. data_share d j) = unat D"
    by (cases "threadsMod d = 0") (simp_all only: sum_last sum_first m split simp_thms if_True if_False)
qed

lemma dist_step:
  assumes inv: "dist_inv d" and more: "part d \<noteq> parts d"
  obtains child d' where "distribute_step t d = Inr (child, From (otherThreads d), d')" "dist_inv d'"
    "From (otherData d') = End child" "To (otherData d') = To (otherData d)"
    "From (otherThreads d') = To (Threads (Split child))" "To (otherThreads d') = To (otherThreads d)"
    "From (Threads (Split child)) = From (otherThreads d)" "Current child = From (otherData d)"
    "unat (End child) = unat (Current child) + data_share d (unat (part d))"
    "unat (To (Threads (Split child))) = unat (From (otherThreads d)) + thread_share d (unat (part d))"
    "From (otherData d) < End child" "End child \<le> To (otherData d)"
    "SharingPolicy child = SharingPolicy t" "BalancingPolicy child = BalancingPolicy t"
    "GrainSize (Split child) = GrainSize (Split t)" "CurrentNode child = CurrentNode t"
proof -
  let ?i = "unat (part d)" and ?p = "unat (parts d)"
  from inv more have lt: "?i < ?p" by (auto simp: dist_inv_def u64_eq)
  have split: "(\<Sum>j = ?i..<?p. f j) = f ?i + (\<Sum>j = Suc ?i..<?p. f j)" for f :: "nat \<Rightarrow> nat"
    using lt by (rule sum.atLeast_Suc_lessThan)
  have i1: "unat (part d + 1) = Suc ?i" using lt by (rule u64_Suc)
  have last: "unat (parts d - 1 - part d) = ?p - 1 - ?i"
  proof -
    have "1 \<le> parts d" "part d \<le> parts d - 1" using lt by (auto simp: word_le_nat_alt unat_sub)
    then show ?thesis by (simp add: unat_sub)
  qed
  define threadSplit where "threadSplit =
    From (otherThreads d) + threadStep d + of_bool (parts d - 1 - part d < threadsMod d)"
  define dataSplit where "dataSplit = From (otherData d) + dataStep d
    + of_bool ((if threadsMod d = 0 then part d else parts d - 1 - part d) < dataMod d)"
  have To: "unat (From (otherThreads d)) + thread_share d ?i \<le> unat (To (otherThreads d))"
    "unat (From (otherData d)) + data_share d ?i \<le> unat (To (otherData d))"
    using inv split by (simp_all add: dist_inv_def)
  have b: "(parts d - 1 - part d < threadsMod d) = (?p - 1 - ?i < unat (threadsMod d))"
    "((if threadsMod d = 0 then part d else parts d - 1 - part d) < dataMod d)
      = ((if threadsMod d = 0 then ?i else ?p - 1 - ?i) < unat (dataMod d))"
    using last by (auto simp: word_less_nat_alt)
  have t: "unat threadSplit = unat (From (otherThreads d)) + thread_share d ?i"
    unfolding threadSplit_def b thread_share_def
    by (intro u64_add_bool le_less_trans [OF To(1) [unfolded thread_share_def] u64_bound])
  have s: "unat dataSplit = unat (From (otherData d)) + data_share d ?i"
    unfolding dataSplit_def b data_share_def
    by (intro u64_add_bool le_less_trans [OF To(2) [unfolded data_share_def] u64_bound])
  have le: "threadSplit \<le> To (otherThreads d)" "dataSplit \<le> To (otherData d)"
    using To by (simp_all add: word_le_nat_alt t s)
  have gt: "From (otherThreads d) < threadSplit" "From (otherData d) < dataSplit"
    using inv by (simp_all add: word_less_nat_alt t s dist_inv_def thread_share_def data_share_def)
  define child where "child = \<lparr>SharingPolicy = SharingPolicy t, BalancingPolicy = BalancingPolicy t,
    CurrentNode = CurrentNode t, Current = From (otherData d), End = dataSplit,
    Split = \<lparr>Threads = \<lparr>From = From (otherThreads d), To = threadSplit\<rparr>,
             GrainSize = GrainSize (Split t), Depth = 0\<rparr>\<rparr>"
  define d' where "d' = d\<lparr>otherThreads := (otherThreads d)\<lparr>From := threadSplit\<rparr>,
    otherData := (otherData d)\<lparr>From := dataSplit\<rparr>, part := part d + 1\<rparr>"
  have step: "distribute_step t d = Inr (child, From (otherThreads d), d')"
    using gt le unfolding distribute_step_def Let_def threadSplit_def [symmetric] dataSplit_def [symmetric]
    by (simp add: min_absorb2 child_def d'_def)
  have "thread_share d' = thread_share d" "data_share d' = data_share d"
    by (simp_all add: fun_eq_iff thread_share_def data_share_def d'_def)
  then have "dist_inv d'"
    using inv lt split by (simp add: dist_inv_def d'_def i1 t s)
  then show ?thesis
    using that [OF step] gt le t s by (simp add: child_def d'_def)
qed

text \<open>
  A task that may be distributed: at least one thread, an iteration range, and no wrap-around in the
  sums \<open>DistributeWork\<close> computes.
\<close>

definition may_distribute :: "Task \<Rightarrow> bool" where
  "may_distribute t \<longleftrightarrow>
     From (Threads (Split t)) < To (Threads (Split t)) \<and> Current t \<le> End t \<and>
     unat (End t) + unat (To (Threads (Split t))) < 2 ^ 64 \<and>
     unat (Current t) + unat (GrainSize (Split t)) < 2 ^ 64"

lemma IsDivisible_nat:
  assumes "unat (Current t) + unat (GrainSize (Split t)) < 2 ^ 64"
  shows "IsDivisible half_full t \<longleftrightarrow>
    unat (Current t) + unat (GrainSize (Split t)) < unat (End t) \<and> \<not> half_full"
  using u64_add [OF assms] by (simp add: IsDivisible_def word_less_nat_alt)

lemma dist_begin:
  assumes ok: "may_distribute t" and div: "IsDivisible half_full t"
    and n: "Range_Size (Threads (Split t)) \<noteq> 1"
  defines "r \<equiv> unat (End t) - unat (Current t)" and "k \<equiv> unat (Range_Size (Threads (Split t)))"
  assumes share: "(r + k - 1) div k < r"
  obtains d where "distribute_begin half_full t = Inr (t\<lparr>End := From (otherData d)\<rparr>, Some d)" "dist_inv d"
    "part d = 0" "parts d \<noteq> 0" "unat (parts d) \<le> 2" "To (otherData d) = End t"
    "From (otherThreads d) = From (Threads (Split t)) + 1" "To (otherThreads d) = To (Threads (Split t))"
    "unat (From (otherData d)) = unat (Current t) + (r + k - 1) div k"
    "Current t < From (otherData d)" "From (otherData d) < End t"
    "unat (parts d) = min (min 2 (k - 1)) (r - (r + k - 1) div k)"
    "unat (threadStep d) = (k - 1) div unat (parts d)" "unat (threadsMod d) = (k - 1) mod unat (parts d)"
    "unat (dataStep d) = (r - (r + k - 1) div k) div unat (parts d)"
    "unat (dataMod d) = (r - (r + k - 1) div k) mod unat (parts d)"
proof -
  let ?T = "Threads (Split t)" and ?n = "Range_Size (Threads (Split t))"
  have k: "k = unat (To ?T) - unat (From ?T)" "1 < k"
  proof -
    show k: "k = unat (To ?T) - unat (From ?T)"
      using ok by (simp add: k_def Range_Size_def may_distribute_def u64_sub less_imp_le)
    then have "0 < k" using ok by (simp add: may_distribute_def word_less_nat_alt)
    moreover have "k \<noteq> 1" using n by (simp add: k_def u64_eq)
    ultimately show "1 < k" by simp
  qed
  have r: "unat (End t - Current t) = r"
    using ok by (simp add: r_def may_distribute_def u64_sub)
  have e: "unat (End t) = unat (Current t) + r" using ok by (simp add: r_def may_distribute_def word_le_nat_alt)
  have bound: "unat (End t) + unat (To ?T) < 2 ^ 64" using ok by (simp add: may_distribute_def)
  define q where "q = (r + k - 1) div k"
  have r0: "0 < r" using share by simp
  then have "k \<le> r + k - 1" by simp
  from div_le_mono [OF this, of k] k(2) have q0: "0 < q" by (simp add: q_def)
  define data where "data = \<lparr>From = Current t + (End t - Current t + ?n - 1) div ?n, To = End t\<rparr>"
  have "unat (End t - Current t + ?n) = r + k"
    using bound e k by (subst u64_add) (simp_all add: r k_def [symmetric])
  then have "unat (End t - Current t + ?n - 1) = r + k - 1"
    using r0 by (subst unat_sub) (simp_all add: word_le_nat_alt)
  then have "unat ((End t - Current t + ?n - 1) div ?n) = q"
    by (simp add: unat_div q_def k_def)
  then have from_nat: "unat (From data) = unat (Current t) + q"
    using share u64_bound [of "End t"] e unfolding q_def [symmetric] by (simp add: data_def u64_add)
  have lt: "From data < To data"
    using from_nat share e by (simp add: word_less_nat_alt data_def q_def)
  define threads where "threads = \<lparr>From = From ?T + 1, To = To ?T\<rparr>"
  have "unat (From ?T) < unat (To ?T)" using k by simp
  then have "unat (From threads) = Suc (unat (From ?T))" by (simp add: threads_def u64_Suc)
  then have tsize: "unat (Range_Size threads) = k - 1"
    using k by (simp add: Range_Size_def threads_def u64_sub word_le_nat_alt)
  have dsize: "unat (Range_Size data) = r - q"
    using lt from_nat e by (simp add: Range_Size_def u64_sub word_le_nat_alt word_less_nat_alt data_def)
  define p where "p = min (min K_SPLIT (Range_Size threads)) (Range_Size data)"
  have p: "unat p = min (min 2 (k - 1)) (r - q)"
    by (simp add: p_def u64_min tsize dsize K_SPLIT_def)
  then have p0: "p \<noteq> 0" "0 < p" using k(2) share by (auto simp: u64_eq word_less_nat_alt q_def)
  define d where "d = \<lparr>otherData = data, otherThreads = threads, parts = p,
    threadStep = Range_Size threads div p, threadsMod = Range_Size threads mod p,
    dataStep = Range_Size data div p, dataMod = Range_Size data mod p, part = 0\<rparr>"
  have n0: "?n \<noteq> 0" using k(2) by (auto simp: k_def)
  have "distribute_begin half_full t = Inr (t\<lparr>End := From data\<rparr>, Some d)"
    using n div n0 lt p0 unfolding distribute_begin_def Let_def data_def [symmetric]
    by (simp add: threads_def [symmetric] p_def [symmetric] d_def)
  moreover have "dist_inv d"
  proof -
    have "1 \<le> (k - 1) div unat p" "1 \<le> (r - q) div unat p"
      using p p0 by (simp_all add: div_greater_zero_iff Suc_le_eq) (simp_all add: word_less_nat_alt)
    moreover have "unat (To threads) = unat (From threads) + (k - 1)"
      using \<open>unat (From threads) = Suc (unat (From ?T))\<close> k by (simp add: threads_def)
    moreover have "unat (To data) = unat (From data) + (r - q)"
      using from_nat e share by (simp add: data_def q_def)
    ultimately show ?thesis
      using shares_total [of p d "Range_Size threads" "Range_Size data"] p0
      by (simp add: dist_inv_def d_def unat_div tsize dsize)
  qed
  moreover have f: "part d = 0" "parts d = p" "otherData d = data" "otherThreads d = threads"
    "threadStep d = Range_Size threads div p" "threadsMod d = Range_Size threads mod p"
    "dataStep d = Range_Size data div p" "dataMod d = Range_Size data mod p"
    "To data = End t" "From threads = From ?T + 1" "To threads = To ?T"
    by (simp_all add: d_def data_def threads_def)
  moreover have "Current t < From data" using from_nat q0 by (simp add: word_less_nat_alt)
  moreover have "unat p \<le> 2" by (simp add: p)
  ultimately show ?thesis
    using lt p0 p from_nat unfolding q_def [symmetric]
    by (intro that [of d]) (simp_all only: f unat_div unat_mod tsize dsize q_def [symmetric] simp_thms)
qed

lemma share_less:
  assumes "1 < r" "1 < (k::nat)"
  shows "(r + k - 1) div k < r"
proof -
  obtain a b where "r = Suc (Suc a)" "k = Suc (Suc b)"
    using assms by (metis One_nat_def gr0_conv_Suc Suc_lessE)
  then have "r + k - 1 < r * k" by simp
  then show ?thesis using assms(2) by (simp add: less_mult_imp_div_less)
qed

lemma share_divisible:
  assumes ok: "may_distribute t" "GrainSize (Split t) \<noteq> 0"
    and div: "IsDivisible half_full t" and n: "Range_Size (Threads (Split t)) \<noteq> 1"
  shows "(unat (End t) - unat (Current t) + unat (Range_Size (Threads (Split t))) - 1)
    div unat (Range_Size (Threads (Split t))) < unat (End t) - unat (Current t)"
proof (rule share_less)
  have "unat (GrainSize (Split t)) \<noteq> 0" using ok(2) by (simp add: u64_eq)
  moreover have "unat (Current t) + unat (GrainSize (Split t)) < unat (End t)"
    using div ok(1) IsDivisible_nat [of t half_full] unfolding may_distribute_def by blast
  ultimately show "1 < unat (End t) - unat (Current t)" by linarith
  have "unat (Range_Size (Threads (Split t))) \<noteq> 1" using n by (simp add: u64_eq)
  moreover have "0 < unat (Range_Size (Threads (Split t)))"
    using ok(1) by (simp add: may_distribute_def Range_Size_def u64_sub less_imp_le word_less_nat_alt)
  ultimately show "1 < unat (Range_Size (Threads (Split t)))" by simp
qed

text \<open>
  The tasks created by the loop take consecutive, non-empty shares of the data from \<open>df\<close> to \<open>dt\<close>
  and of the threads from \<open>tf\<close> to \<open>tt\<close>; each is meant for the first thread of its share.
\<close>

fun consecutive :: "(Task \<times> u64) list \<Rightarrow> u64 \<Rightarrow> u64 \<Rightarrow> u64 \<Rightarrow> u64 \<Rightarrow> bool" where
  "consecutive [] df dt tf tt \<longleftrightarrow> df = dt \<and> tf = tt"
| "consecutive ((c, th) # cs) df dt tf tt \<longleftrightarrow>
     Current c = df \<and> df < End c \<and> End c \<le> dt \<and>
     th = tf \<and> From (Threads (Split c)) = tf \<and> tf < To (Threads (Split c)) \<and>
     consecutive cs (End c) dt (To (Threads (Split c))) tt"

lemma dist_loop:
  assumes "dist_inv d"
  shows "\<exists>cs. distribute_loop t d = Inr cs \<and> length cs = unat (parts d) - unat (part d)
    \<and> consecutive cs (From (otherData d)) (To (otherData d)) (From (otherThreads d)) (To (otherThreads d))
    \<and> (\<forall>i < length cs. unat (End (fst (cs ! i))) - unat (Current (fst (cs ! i))) = data_share d (unat (part d) + i)
         \<and> unat (To (Threads (Split (fst (cs ! i))))) - unat (From (Threads (Split (fst (cs ! i)))))
             = thread_share d (unat (part d) + i)
         \<and> GrainSize (Split (fst (cs ! i))) = GrainSize (Split t))"
  using assms
proof (induction "unat (parts d) - unat (part d)" arbitrary: d)
  case 0
  then have "part d = parts d" by (simp add: dist_inv_def u64_eq)
  moreover from this have "distribute_end_ok d"
    using 0 by (simp add: dist_inv_def distribute_end_ok_def u64_eq)
  ultimately show ?case using 0 by (subst distribute_loop.simps) (simp add: distribute_end_ok_def dist_inv_def u64_eq)
next
  case (Suc n)
  then have more: "part d \<noteq> parts d" by (auto simp: u64_eq)
  obtain child d' where step: "distribute_step t d = Inr (child, From (otherThreads d), d')"
    and inv: "dist_inv d'"
    and links: "From (otherData d') = End child" "To (otherData d') = To (otherData d)"
    "From (otherThreads d') = To (Threads (Split child))" "To (otherThreads d') = To (otherThreads d)"
    "From (Threads (Split child)) = From (otherThreads d)" "Current child = From (otherData d)"
    and sizes: "unat (End child) = unat (Current child) + data_share d (unat (part d))"
    "unat (To (Threads (Split child))) = unat (From (otherThreads d)) + thread_share d (unat (part d))"
    and lt: "From (otherData d) < End child" "End child \<le> To (otherData d)"
    and grain: "GrainSize (Split child) = GrainSize (Split t)"
    by (rule dist_step [OF Suc.prems more, of t]) blast
  note frame = distribute_step_frame [OF step]
  have shares: "thread_share d' = thread_share d" "data_share d' = data_share d"
    by (simp_all add: fun_eq_iff thread_share_def data_share_def frame)
  have "unat (part d) < unat (parts d)" using Suc.hyps(2) by simp
  then have p: "unat (part d') = Suc (unat (part d))" by (simp add: frame u64_Suc)
  then have "n = unat (parts d') - unat (part d')" using Suc.hyps(2) by (simp add: frame)
  from Suc.hyps(1) [OF this inv, unfolded links shares p this [symmetric]]
  obtain cs where cs: "distribute_loop t d' = Inr cs"
    "length cs = n"
    "consecutive cs (End child) (To (otherData d)) (To (Threads (Split child))) (To (otherThreads d))"
    "\<forall>i < length cs. unat (End (fst (cs ! i))) - unat (Current (fst (cs ! i))) = data_share d (Suc (unat (part d) + i))
         \<and> unat (To (Threads (Split (fst (cs ! i))))) - unat (From (Threads (Split (fst (cs ! i)))))
             = thread_share d (Suc (unat (part d) + i))
         \<and> GrainSize (Split (fst (cs ! i))) = GrainSize (Split t)"
    using \<open>n = unat (parts d') - unat (part d')\<close> by (auto simp: p)
  have "0 < thread_share d (unat (part d))" using Suc.prems by (simp add: dist_inv_def thread_share_def)
  then have tlt: "From (otherThreads d) < To (Threads (Split child))"
    by (simp add: word_less_nat_alt sizes)
  have "distribute_loop t d = Inr ((child, From (otherThreads d)) # cs)"
    using more by (subst distribute_loop.simps) (simp add: step cs)
  then show ?case
    using cs lt tlt links sizes grain Suc.hyps(2)
    by (intro exI [of _ "(child, From (otherThreads d)) # cs"])
      (auto simp: nth_Cons split: nat.split)
qed

text \<open>
  C4: For a task with at least one thread, a range that is not reversed, a grain size other than 0 and no
  wrap-around in the sums it computes (\<open>may_distribute\<close>), \<open>DistributeWork\<close> fails no assertion and divides by nothing that is zero; when it creates
  tasks, it keeps at least one iteration, creates at most two tasks, and the kept share followed by
  the shares of the created tasks is the whole iteration range in order, none of them empty, while
  the threads other than the first are divided into consecutive non-empty groups, one per task.
\<close>

theorem DistributeWork_partitions:
  assumes "may_distribute t" "GrainSize (Split t) \<noteq> 0"
  shows "DistributeWork half_full t = Inr (t, []) \<or>
    (\<exists>m cs. DistributeWork half_full t = Inr (t\<lparr>End := m\<rparr>, cs) \<and> Current t < m \<and> m < End t
       \<and> length cs \<le> 2 \<and> consecutive cs m (End t) (From (Threads (Split t)) + 1) (To (Threads (Split t))))"
proof (cases "Range_Size (Threads (Split t)) \<noteq> 1 \<and> IsDivisible half_full t")
  case False
  then show ?thesis by (auto simp: DistributeWork_def distribute_begin_def Let_def)
next
  case True
  obtain d where start: "distribute_begin half_full t = Inr (t\<lparr>End := From (otherData d)\<rparr>, Some d)"
    and d: "dist_inv d" "part d = 0" "unat (parts d) \<le> 2" "To (otherData d) = End t"
    "From (otherThreads d) = From (Threads (Split t)) + 1" "To (otherThreads d) = To (Threads (Split t))"
    "Current t < From (otherData d)" "From (otherData d) < End t"
    using dist_begin [OF assms(1) True [THEN conjunct2] True [THEN conjunct1] share_divisible [OF assms True [THEN conjunct2] True [THEN conjunct1]]]
    by metis
  from dist_loop [OF d(1), of "t\<lparr>End := From (otherData d)\<rparr>"] obtain cs where
    "distribute_loop (t\<lparr>End := From (otherData d)\<rparr>) d = Inr cs" "length cs = unat (parts d)"
    "consecutive cs (From (otherData d)) (End t) (From (Threads (Split t)) + 1) (To (Threads (Split t)))"
    unfolding d(2,4,5,6) by auto
  with start d show ?thesis by (auto simp: DistributeWork_def)
qed

definition sample_task :: Task where
  "sample_task = \<lparr>SharingPolicy = ENABLED, BalancingPolicy = STATIC, CurrentNode = 0, Current = 10, End = 20,
     Split = \<lparr>Threads = \<lparr>From = 0, To = 4\<rparr>, GrainSize = 1, Depth = 0\<rparr>\<rparr>"

lemma sample_task: "may_distribute sample_task" "GrainSize (Split sample_task) \<noteq> 0"
  by (simp_all add: sample_task_def may_distribute_def)

theorem DistributeWork_partitions_witness:
  "DistributeWork False sample_task = Inr (sample_task, []) \<or>
    (\<exists>m cs. DistributeWork False sample_task = Inr (sample_task\<lparr>End := m\<rparr>, cs)
       \<and> Current sample_task < m \<and> m < End sample_task \<and> length cs \<le> 2
       \<and> consecutive cs m (End sample_task) (From (Threads (Split sample_task)) + 1)
           (To (Threads (Split sample_task))))"
  using sample_task by (rule DistributeWork_partitions)

section \<open>As many iterations as threads\<close>

text \<open>
  Where the iterations go when every created task distributes its own range first, the stack never
  half full: pairs of a thread and an index, the creating task's own share first.
\<close>

fun spread :: "nat \<Rightarrow> Task \<Rightarrow> u64 \<Rightarrow> (u64 \<times> u64) list" where
  "spread 0 t thread = []"
| "spread (Suc fuel) t thread =
     (case DistributeWork False t of
        Inl e \<Rightarrow> []
      | Inr (t, cs) \<Rightarrow>
          map (Pair thread) (indices (Current t) (End t)) @ concat (map (\<lambda>(c, th). spread fuel c th) cs))"

definition diagonal :: "u64 \<Rightarrow> u64 \<Rightarrow> nat \<Rightarrow> (u64 \<times> u64) list" where
  "diagonal th i n = map (\<lambda>j. (th + of_nat j, i + of_nat j)) [0..<n]"

lemma diagonal_add: "diagonal th i (m + n) = diagonal th i m @ diagonal (th + of_nat m) (i + of_nat m) n"
proof -
  have "[m..<m + n] = map (\<lambda>j. j + m) [0..<n]" by (simp add: map_add_upt add.commute)
  then show ?thesis
    unfolding diagonal_def upt_add_eq_append [of 0 m n, OF le0] map_append
    by (simp add: o_def add.assoc add.commute add.left_commute)
qed

definition one_each :: "Task \<Rightarrow> bool" where
  "one_each t \<longleftrightarrow> may_distribute t \<and> GrainSize (Split t) = 1
     \<and> unat (End t) - unat (Current t) = unat (To (Threads (Split t))) - unat (From (Threads (Split t)))"

lemma word_eq_add: "unat b = unat a + n \<Longrightarrow> b = a + (of_nat n :: u64)"
proof -
  assume "unat b = unat a + n"
  then have "(of_nat (unat b) :: u64) = of_nat (unat a + n)" by (rule arg_cong)
  then show ?thesis by simp
qed

lemma spread_children:
  assumes "consecutive cs df dt tf tt"
    and "\<forall>(c, th) \<in> set cs. f c th = diagonal th (Current c) (unat (End c) - unat (Current c))"
    and "\<forall>(c, th) \<in> set cs. unat (End c) - unat (Current c)
           = unat (To (Threads (Split c))) - unat (From (Threads (Split c)))"
  shows "concat (map (\<lambda>(c, th). f c th) cs) = diagonal tf df (unat dt - unat df) \<and> df \<le> dt"
  using assms
proof (induction cs arbitrary: df tf)
  case Nil
  then show ?case by (simp add: diagonal_def)
next
  case (Cons a cs)
  obtain c th where a: "a = (c, th)" by fastforce
  let ?n = "unat (End c) - unat (Current c)"
  have c: "Current c = df" "df < End c" "th = tf" "From (Threads (Split c)) = tf" "tf < To (Threads (Split c))"
    and rest: "consecutive cs (End c) dt (To (Threads (Split c))) tt"
    using Cons.prems(1) by (simp_all add: a)
  have IH: "concat (map (\<lambda>(c, th). f c th) cs)
      = diagonal (To (Threads (Split c))) (End c) (unat dt - unat (End c)) \<and> End c \<le> dt"
    using Cons.prems(2,3) by (intro Cons.IH [OF rest]) auto
  have "?n = unat (To (Threads (Split c))) - unat tf" using Cons.prems(3) c by (auto simp: a)
  then have "unat (To (Threads (Split c))) = unat tf + ?n" "unat (End c) = unat df + ?n"
    using c by (auto simp: word_less_nat_alt)
  from this [THEN word_eq_add] have "To (Threads (Split c)) = tf + of_nat ?n" "End c = df + of_nat ?n" .
  moreover have "unat dt - unat df = ?n + (unat dt - unat (End c))" "df \<le> dt"
    using IH c by (auto simp: word_le_nat_alt word_less_nat_alt)
  moreover have "f c th = diagonal tf df ?n" using Cons.prems(2) c by (auto simp: a)
  ultimately show ?case using IH by (simp add: a diagonal_add)
qed

lemma twice_pred_div: "2 \<le> r \<Longrightarrow> (r + r - 1) div r = (1::nat)"
  by (rule div_nat_eqI) auto

lemma diagonal_one: "diagonal th i 1 = [(th, i)]"
  by (simp add: diagonal_def)

lemma one_each_children:
  assumes t: "one_each t" and n: "Range_Size (Threads (Split t)) \<noteq> 1"
  shows "\<exists>m cs. DistributeWork False t = Inr (t\<lparr>End := m\<rparr>, cs) \<and> unat m = Suc (unat (Current t))
     \<and> consecutive cs m (End t) (From (Threads (Split t)) + 1) (To (Threads (Split t)))
     \<and> (\<forall>(c, th) \<in> set cs. GrainSize (Split c) = 1 \<and> unat (End c) - unat (Current c)
           = unat (To (Threads (Split c))) - unat (From (Threads (Split c))))"
proof -
  let ?k = "unat (Range_Size (Threads (Split t)))" and ?r = "unat (End t) - unat (Current t)"
  have ok: "may_distribute t" "GrainSize (Split t) \<noteq> 0" "GrainSize (Split t) = 1"
    using t by (simp_all add: one_each_def)
  have k: "?k = ?r"
    using t by (simp add: one_each_def may_distribute_def Range_Size_def u64_sub less_imp_le)
  moreover have "?k \<noteq> 1" using n by (simp add: u64_eq)
  moreover have "0 < ?k"
    using ok(1) by (simp add: may_distribute_def Range_Size_def u64_sub less_imp_le word_less_nat_alt)
  ultimately have k2: "2 \<le> ?r" by linarith
  have "unat (Current t) + unat (GrainSize (Split t)) < unat (End t)"
    using k2 by (simp add: ok(3))
  then have div: "IsDivisible False t"
    using IsDivisible_nat [of t False] ok(1) unfolding may_distribute_def by blast
  have q: "(?r + ?r - 1) div ?r = 1"
    using k2 by (rule twice_pred_div)
  obtain d where start: "distribute_begin False t = Inr (t\<lparr>End := From (otherData d)\<rparr>, Some d)"
    and d: "dist_inv d" "part d = 0" "To (otherData d) = End t"
    "From (otherThreads d) = From (Threads (Split t)) + 1" "To (otherThreads d) = To (Threads (Split t))"
    "unat (From (otherData d)) = unat (Current t) + 1"
    and e: "unat (threadStep d) = (?r - 1) div unat (parts d)" "unat (threadsMod d) = (?r - 1) mod unat (parts d)"
    "unat (dataStep d) = (?r - 1) div unat (parts d)" "unat (dataMod d) = (?r - 1) mod unat (parts d)"
    using dist_begin [OF ok(1) div n share_divisible [OF ok(1,2) div n]] unfolding k q by metis
  have "data_share d i = thread_share d i" for i
    using e by (simp add: data_share_def thread_share_def u64_eq)
  then have shares: "data_share d = thread_share d" by (rule ext)
  from dist_loop [OF d(1), of "t\<lparr>End := From (otherData d)\<rparr>"] obtain cs where
    cs: "distribute_loop (t\<lparr>End := From (otherData d)\<rparr>) d = Inr cs"
    "consecutive cs (From (otherData d)) (End t) (From (Threads (Split t)) + 1) (To (Threads (Split t)))"
    "\<forall>i < length cs. unat (End (fst (cs ! i))) - unat (Current (fst (cs ! i)))
       = unat (To (Threads (Split (fst (cs ! i))))) - unat (From (Threads (Split (fst (cs ! i)))))
       \<and> GrainSize (Split (fst (cs ! i))) = 1"
    unfolding d(2-5) shares by (auto simp: ok(3))
  then have "\<forall>(c, th) \<in> set cs. GrainSize (Split c) = 1 \<and> unat (End c) - unat (Current c)
           = unat (To (Threads (Split c))) - unat (From (Threads (Split c)))"
    by (fastforce simp: in_set_conv_nth)
  with start cs(1,2) d(6) show ?thesis by (auto simp: DistributeWork_def)
qed

lemma consecutive_bounds:
  assumes "consecutive cs df dt tf tt" "(c, th) \<in> set cs"
  shows "df \<le> Current c" "End c \<le> dt" "Current c < End c" "From (Threads (Split c)) = th"
    "tf \<le> th" "To (Threads (Split c)) \<le> tt" "th < To (Threads (Split c))"
proof -
  have le: "df' \<le> dt' \<and> tf' \<le> tt'" if "consecutive cs' df' dt' tf' tt'" for cs' df' dt' tf' tt'
    using that by (induction cs' arbitrary: df' tf') fastforce+
  have "df \<le> Current c \<and> End c \<le> dt \<and> Current c < End c \<and> From (Threads (Split c)) = th
    \<and> tf \<le> th \<and> To (Threads (Split c)) \<le> tt \<and> th < To (Threads (Split c))"
    using assms
  proof (induction cs arbitrary: df tf)
    case (Cons a cs)
    then show ?case using le by (cases a) (fastforce dest: less_imp_le)
  qed simp
  then show "df \<le> Current c" "End c \<le> dt" "Current c < End c" "From (Threads (Split c)) = th"
    "tf \<le> th" "To (Threads (Split c)) \<le> tt" "th < To (Threads (Split c))" by blast+
qed

text \<open>
  When a loop has as many iterations as there are threads and grain size 1, the distribution
  sends exactly one iteration to every thread: the i-th thread gets the i-th iteration (what the
  test \<open>InitialDistribution\<close> observes).
\<close>

lemma initial_distribution:
  assumes "one_each t" "unat (End t) - unat (Current t) \<le> fuel"
  shows "spread fuel t (From (Threads (Split t)))
    = diagonal (From (Threads (Split t))) (Current t) (unat (End t) - unat (Current t))"
  using assms
proof (induction fuel arbitrary: t)
  case 0
  then show ?case by (simp add: diagonal_def)
next
  case (Suc fuel)
  let ?r = "unat (End t) - unat (Current t)"
  have ok: "may_distribute t" using Suc.prems(1) by (simp add: one_each_def)
  show ?case
  proof (cases "Range_Size (Threads (Split t)) = 1")
    case True
    then have one: "?r = 1"
      using Suc.prems(1) u64_sub [of "From (Threads (Split t))" "To (Threads (Split t))"]
      by (simp add: one_each_def may_distribute_def Range_Size_def less_imp_le)
    then have "Current t < End t" by (simp add: word_less_nat_alt)
    moreover have "End t = Current t + 1" using one word_eq_add [of "End t" "Current t" 1] by simp
    ultimately have "Current t < End t" "End t \<le> Current t + 1" by simp_all
    with one True show ?thesis
      by (simp add: DistributeWork_def distribute_begin_def Let_def indices_Cons indices_Nil diagonal_def)
  next
    case False
    from one_each_children [OF Suc.prems(1) False] obtain m cs where
      work: "DistributeWork False t = Inr (t\<lparr>End := m\<rparr>, cs)" and m: "unat m = Suc (unat (Current t))"
      and chain: "consecutive cs m (End t) (From (Threads (Split t)) + 1) (To (Threads (Split t)))"
      and even: "\<forall>(c, th) \<in> set cs. GrainSize (Split c) = 1 \<and> unat (End c) - unat (Current c)
           = unat (To (Threads (Split c))) - unat (From (Threads (Split c)))" by blast
    have sub: "spread fuel c th = diagonal th (Current c) (unat (End c) - unat (Current c))"
      if "(c, th) \<in> set cs" for c th
    proof -
      note B = consecutive_bounds [OF chain that]
      have n: "unat m \<le> unat (Current c)" "unat (End c) \<le> unat (End t)" "unat (Current c) < unat (End c)"
        "unat (To (Threads (Split c))) \<le> unat (To (Threads (Split t)))"
        using B by (simp_all add: word_le_nat_alt word_less_nat_alt)
      have g: "GrainSize (Split c) = 1" using even that by auto
      have "may_distribute c"
        using ok B n m g by (simp add: may_distribute_def less_imp_le)
      moreover have "unat (End c) - unat (Current c) \<le> fuel" using n m Suc.prems(2) by linarith
      ultimately show ?thesis
        using Suc.IH [of c] even that B(4) by (auto simp: one_each_def)
    qed
    have "concat (map (\<lambda>(c, th). spread fuel c th) cs)
        = diagonal (From (Threads (Split t)) + 1) m (unat (End t) - unat m) \<and> m \<le> End t"
      using sub even by (intro spread_children [OF chain]) auto
    moreover have "m = Current t + 1" using m word_eq_add [of m "Current t" 1] by simp
    moreover from this have "indices (Current t) m = [Current t]"
      using m by (simp add: indices_Cons indices_Nil word_less_nat_alt)
    moreover from calculation have "unat m \<le> unat (End t)" by (simp only: word_le_nat_alt)
    then have "?r = Suc (unat (End t) - unat m)" using m by linarith
    ultimately show ?thesis
      using diagonal_add [of "From (Threads (Split t))" "Current t" 1 "unat (End t) - unat m"]
      by (simp add: work diagonal_one [unfolded One_nat_def])
  qed
qed

definition even_task :: Task where
  "even_task = \<lparr>SharingPolicy = ENABLED, BalancingPolicy = STATIC, CurrentNode = 0, Current = 0, End = 4,
     Split = \<lparr>Threads = \<lparr>From = 0, To = 4\<rparr>, GrainSize = 1, Depth = 0\<rparr>\<rparr>"

lemma initial_distribution_example:
  "spread 4 even_task 0 = [(0, 0), (1, 1), (2, 2), (3, 3)]"
proof -
  have "[0..<4] = [0, 1, 2, 3::nat]" by (simp add: upt_rec numeral_eq_Suc)
  then have "diagonal 0 0 4 = [(0, 0), (1, 1), (2, 2), (3, 3)]" by (simp add: diagonal_def)
  then show ?thesis
    using initial_distribution [of even_task 4]
    by (simp add: even_task_def one_each_def may_distribute_def)
qed

end
