(* ===== verification/Task_Nodes.thy ===== *)
theory Task_Nodes
  imports Partitioner
begin

text \<open>
  The nodes that count a loop's unfinished tasks: \<open>TaskNode\<close> of src/include/timespan\_partitioner.h
  on the reference counter of src/include/intrusive\_ptr.h.  The store is a list of nodes, an address
  is a position, and a deleted node stays in the list as dead, so that using it is an error of the
  model.  The thread-local \<open>TaskStack\<close>, which tells a nested loop from an outer one, is here too.
\<close>

section \<open>Nodes\<close>

record node =
  m_cnt :: u64
  Parent :: "nat option"
  ChildWaitingSteal :: u64
  alive :: bool

type_synonym store = "node list"

definition live :: "store \<Rightarrow> nat \<Rightarrow> bool" where
  "live ns n \<longleftrightarrow> n < length ns \<and> alive (ns ! n)"

definition IntrusivePtrAddRef :: "nat \<Rightarrow> store \<Rightarrow> par_error + store" where
  "IntrusivePtrAddRef n ns =
     (if live ns n then Inr (ns[n := (ns ! n)\<lparr>m_cnt := m_cnt (ns ! n) + 1\<rparr>]) else Inl UseAfterFree)"

definition IntrusivePtrLoadRef :: "nat \<Rightarrow> store \<Rightarrow> par_error + u64" where
  "IntrusivePtrLoadRef n ns = (if live ns n then Inr (m_cnt (ns ! n)) else Inl UseAfterFree)"

text \<open>
  The release that takes the counter from 1 to 0 deletes the node; its destructor then releases the
  parent, which is returned as a release still to do.
\<close>

definition IntrusivePtrRelease :: "nat \<Rightarrow> store \<Rightarrow> par_error + nat option \<times> store" where
  "IntrusivePtrRelease n ns =
     (if live ns n then
        let old = m_cnt (ns ! n); nd = (ns ! n)\<lparr>m_cnt := old - 1\<rparr>
        in if old = 1 then Inr (Parent nd, ns[n := nd\<lparr>alive := False\<rparr>])
           else Inr (None, ns[n := nd])
      else Inl UseAfterFree)"

definition TaskNode :: "nat option \<Rightarrow> node" where
  "TaskNode parent = \<lparr>m_cnt = 0, Parent = parent, ChildWaitingSteal = 0, alive = True\<rparr>"

text \<open>
  \<open>IntrusivePtr nodePtr{new TaskNode{CurrentNode_}}\<close>: copying the pointer to the parent counts one
  more reference to it, the new pointer is the one reference to the node.
\<close>

definition new_child :: "nat \<Rightarrow> store \<Rightarrow> par_error + nat \<times> store" where
  "new_child parent ns =
     (case IntrusivePtrAddRef parent ns of
        Inl e \<Rightarrow> Inl e
      | Inr ns \<Rightarrow>
          let n = length ns
          in (case IntrusivePtrAddRef n (ns @ [TaskNode (Some parent)]) of
                Inl e \<Rightarrow> Inl e
              | Inr ns \<Rightarrow> Inr (n, ns)))"

text \<open>The counter of children waiting to be stolen, which nothing in the partitioner reads yet.\<close>

definition SpawnChild :: "nat \<Rightarrow> u64 \<Rightarrow> store \<Rightarrow> par_error + store" where
  "SpawnChild n cnt ns =
     (if live ns n then Inr (ns[n := (ns ! n)\<lparr>ChildWaitingSteal := ChildWaitingSteal (ns ! n) + cnt\<rparr>])
      else Inl UseAfterFree)"

definition OnStolen :: "nat \<Rightarrow> store \<Rightarrow> par_error + store" where
  "OnStolen n ns =
     (if live ns n then
        (case Parent (ns ! n) of
           None \<Rightarrow> Inl UseAfterFree
         | Some p \<Rightarrow> SpawnChild p (- 1) ns)
      else Inl UseAfterFree)"

definition AllStolen :: "nat \<Rightarrow> store \<Rightarrow> par_error + bool" where
  "AllStolen n ns = (if live ns n then Inr (ChildWaitingSteal (ns ! n) = 0) else Inl UseAfterFree)"

lemma steal_counter_balanced:
  assumes "live ns n" "Parent (ns ! n) = Some p" "live ns p" "n \<noteq> p" "SpawnChild p 1 ns = Inr ns1"
    "OnStolen n ns1 = Inr ns2"
  shows "AllStolen p ns2 = AllStolen p ns"
  using assms by (auto simp: SpawnChild_def OnStolen_def AllStolen_def live_def split: if_splits)

section \<open>The thread's stack of running tasks\<close>

text \<open>
  Each running task puts a \<open>TaskStack\<close> frame on its own stack and links it into the thread's list;
  \<open>prev\<close> maps the address of a frame (\<open>0\<close> is the thread-local anchor) to its link.
\<close>

type_synonym frames = "nat \<Rightarrow> nat option"

definition Add :: "nat \<Rightarrow> frames \<Rightarrow> frames" where
  "Add ts prev = (let prev = prev(ts := prev 0) in prev(0 := Some ts))"

definition Pop :: "frames \<Rightarrow> frames option" where
  "Pop prev = (case prev 0 of None \<Rightarrow> None | Some p \<Rightarrow> Some (prev(0 := prev p)))"

definition IsEmpty :: "frames \<Rightarrow> bool" where
  "IsEmpty prev \<longleftrightarrow> prev 0 = None"

text \<open>The frames linked from the anchor, the youngest first.\<close>

fun linked :: "frames \<Rightarrow> nat option \<Rightarrow> nat list \<Rightarrow> bool" where
  "linked prev a [] \<longleftrightarrow> a = None"
| "linked prev a (f # fs) \<longleftrightarrow> a = Some f \<and> f \<noteq> 0 \<and> linked prev (prev f) fs"

lemma linked_upd: "x \<notin> set fs \<Longrightarrow> linked (prev(x := y)) a fs = linked prev a fs"
  by (induction fs arbitrary: a) auto

lemma linked_anchor: "linked prev a fs \<Longrightarrow> 0 \<notin> set fs"
  by (induction fs arbitrary: a) auto

lemma Add_linked:
  assumes "linked prev (prev 0) fs" "ts \<notin> set fs" "ts \<noteq> 0"
  shows "linked (Add ts prev) (Add ts prev 0) (ts # fs)"
  using assms linked_anchor [OF assms(1)] by (simp add: Add_def Let_def linked_upd)

lemma Pop_linked:
  assumes "linked prev (prev 0) (ts # fs)"
  shows "\<exists>prev'. Pop prev = Some prev' \<and> linked prev' (prev' 0) fs"
  using assms linked_anchor [OF assms] by (auto simp: Pop_def linked_upd)

section \<open>Properties of the stack\<close>

text \<open>
  A thread's task bodies nest: each adds its frame, may run other tasks that do the same, and pops.
\<close>

datatype nesting = Body nat "nesting list"

fun run_bodies :: "nesting list \<Rightarrow> frames \<Rightarrow> frames option" where
  "run_bodies [] prev = Some prev"
| "run_bodies (Body ts inner # rest) prev =
     (case run_bodies inner (Add ts prev) of
        None \<Rightarrow> None
      | Some prev \<Rightarrow> (case Pop prev of None \<Rightarrow> None | Some prev \<Rightarrow> run_bodies rest prev))"

fun fresh_frames :: "nat list \<Rightarrow> nesting list \<Rightarrow> bool" where
  "fresh_frames fs [] \<longleftrightarrow> True"
| "fresh_frames fs (Body ts inner # rest) \<longleftrightarrow>
     ts \<noteq> 0 \<and> ts \<notin> set fs \<and> fresh_frames (ts # fs) inner \<and> fresh_frames fs rest"

text \<open>
  However task bodies nest on a thread, as long as two frames that are on the stack at once have
  different addresses, no pop finds the stack empty, and after the bodies the stack links exactly
  the frames it linked before; so a loop started outside any task sees an empty stack and one
  started inside a task does not.
\<close>

lemma task_stack_balanced:
  assumes "linked prev (prev 0) fs" "fresh_frames fs bodies"
  shows "\<exists>prev'. run_bodies bodies prev = Some prev' \<and> linked prev' (prev' 0) fs
    \<and> (IsEmpty prev' \<longleftrightarrow> fs = [])"
proof -
  have "\<exists>prev'. run_bodies bodies prev = Some prev' \<and> linked prev' (prev' 0) fs"
    using assms
  proof (induction bodies prev arbitrary: fs rule: run_bodies.induct)
    case (1 prev)
    then show ?case by simp
  next
    case (2 ts inner rest prev)
    have "linked (Add ts prev) (Add ts prev 0) (ts # fs)"
      using 2(3,4) by (intro Add_linked) auto
    then obtain p1 where p1: "run_bodies inner (Add ts prev) = Some p1" "linked p1 (p1 0) (ts # fs)"
      using 2(1) 2(4) by fastforce
    then obtain p2 where p2: "Pop p1 = Some p2" "linked p2 (p2 0) fs" using Pop_linked by blast
    with 2(2) [OF p1(1) p2(1) p2(2)] 2(4) show ?case by (simp add: p1 p2)
  qed
  moreover have "(prev' 0 = None) = (fs = [])" if "linked prev' (prev' 0) fs" for prev'
    using that by (cases fs) auto
  ultimately show ?thesis by (auto simp: IsEmpty_def)
qed

lemma task_stack_balanced_example:
  "\<exists>prev'. run_bodies [Body 5 [Body 7 [], Body 6 []], Body 5 []] (\<lambda>_. None) = Some prev'
    \<and> linked prev' (prev' 0) [] \<and> (IsEmpty prev' \<longleftrightarrow> [] = ([] :: nat list))"
  by (rule task_stack_balanced) simp_all

end
