(* ===== verification/Parallel_For.thy ===== *)
theory Parallel_For
  imports Task_Nodes
begin

text \<open>
  \<open>EigenPartitioner::ParallelFor\<close> (src/include/timespan\_partitioner.h) as a whole: the tasks of one
  loop, running at once and interleaved in any way, the store of their nodes and the releases under
  way.  The state machine allows every task created so far to take its next step at any time, so it
  covers every order in which a thread pool that runs each task once can run them (Thread\_Pool shows
  that the pool neither loses nor repeats a task).  The loop's caller returns when the counter of the
  root node is 1.
\<close>

section \<open>State\<close>

record par_state =
  nodes :: store
  tasks :: "(Task \<times> pc) list"
  releasing :: "nat list"        \<comment> \<open>releases of a node that a thread is about to make\<close>
  executed :: "u64 list"              \<comment> \<open>the indices the loop body was run at, in order\<close>

datatype mode = EIGEN_STEALING | EIGEN_SHARING | EIGEN_STEALING_GRAINSIZE | EIGEN_SHARING_STEALING

fun ParForTraits :: "mode \<Rightarrow> Balancing \<times> Sharing" where
  "ParForTraits EIGEN_STEALING = (STATIC, DISABLED)"
| "ParForTraits EIGEN_SHARING = (STATIC, ENABLED)"
| "ParForTraits EIGEN_STEALING_GRAINSIZE = (TIMESPAN, DISABLED)"
| "ParForTraits EIGEN_SHARING_STEALING = (TIMESPAN, ENABLED)"

text \<open>
  The call up to the start of the first task: the root node with the caller's reference and the
  task's; a loop inside a task does not distribute.
\<close>

definition ParallelFor_start :: "mode \<Rightarrow> bool \<Rightarrow> u64 \<Rightarrow> u64 \<Rightarrow> u64 \<Rightarrow> u64 \<Rightarrow> par_state" where
  "ParallelFor_start m stack_empty threads from to grainsize =
     (let root = (TaskNode None)\<lparr>m_cnt := 2\<rparr>;
          (balancing, sharing) = ParForTraits m
      in \<lparr>nodes = [root],
          tasks = [(\<lparr>SharingPolicy = (if stack_empty then sharing else DISABLED),
                     BalancingPolicy = balancing, CurrentNode = 0, Current = from, End = to,
                     Split = \<lparr>Threads = \<lparr>From = 0, To = threads\<rparr>,
                              GrainSize = max grainsize 1, Depth = 0\<rparr>\<rparr>, Distribute)],
          releasing = [], executed = []\<rparr>)"

section \<open>Steps\<close>

definition remove_at :: "nat \<Rightarrow> 'a list \<Rightarrow> 'a list" where
  "remove_at k xs = take k xs @ drop (Suc k) xs"

text \<open>What a step of task \<open>k\<close> does to the state.\<close>

fun perform :: "nat \<Rightarrow> action \<Rightarrow> Task \<times> pc \<Rightarrow> par_state \<Rightarrow> par_error + par_state" where
  "perform k Silent tp s = Inr (s\<lparr>tasks := (tasks s)[k := tp]\<rparr>)"
| "perform k (Run i) tp s = Inr (s\<lparr>tasks := (tasks s)[k := tp], executed := executed s @ [i]\<rparr>)"
| "perform k (NewTask thread child) tp s =
     (case new_child (CurrentNode child) (nodes s) of
        Inl e \<Rightarrow> Inl e
      | Inr (n, ns) \<Rightarrow>
          Inr (s\<lparr>nodes := ns, tasks := (tasks s)[k := tp] @ [(child\<lparr>CurrentNode := n\<rparr>, Distribute)]\<rparr>))"
| "perform k Finish tp s =
     Inr (s\<lparr>tasks := remove_at k (tasks s), releasing := CurrentNode (fst tp) # releasing s\<rparr>)"

text \<open>A choice of the scheduler: a task with what it learns from outside, or a release.\<close>

datatype choice = StepTask nat bool u64 | StepRelease nat

fun enabled :: "par_state \<Rightarrow> choice \<Rightarrow> bool" where
  "enabled s (StepTask k half_full now) \<longleftrightarrow> k < length (tasks s)"
| "enabled s (StepRelease k) \<longleftrightarrow> k < length (releasing s)"

fun pf_step :: "u64 \<Rightarrow> par_state \<Rightarrow> choice \<Rightarrow> par_error + par_state" where
  "pf_step init s (StepTask k half_full now) =
     (case tasks s ! k of
        (t, p) \<Rightarrow>
          (case task_step init half_full now t p of
             Inl e \<Rightarrow> Inl e
           | Inr (a, tp) \<Rightarrow> perform k a tp s))"
| "pf_step init s (StepRelease k) =
     (case IntrusivePtrRelease (releasing s ! k) (nodes s) of
        Inl e \<Rightarrow> Inl e
      | Inr (next_one, ns) \<Rightarrow>
          Inr (s\<lparr>nodes := ns,
                 releasing := (case next_one of None \<Rightarrow> [] | Some p \<Rightarrow> [p]) @ remove_at k (releasing s)\<rparr>))"

text \<open>The states a loop reaches, with the number of steps taken.\<close>

inductive pf_reach :: "u64 \<Rightarrow> par_state \<Rightarrow> nat \<Rightarrow> par_state \<Rightarrow> bool" for init s0 where
  pf_start: "pf_reach init s0 0 s0"
| pf_next: "pf_reach init s0 n s \<Longrightarrow> enabled s c \<Longrightarrow> pf_step init s c = Inr s' \<Longrightarrow> pf_reach init s0 (Suc n) s'"

text \<open>The condition on which \<open>ParallelFor\<close> stops helping and returns.\<close>

definition returns :: "par_state \<Rightarrow> bool" where
  "returns s \<longleftrightarrow> IntrusivePtrLoadRef 0 (nodes s) = Inr 1"

section \<open>What a task still has to do\<close>

definition pending :: "Task \<Rightarrow> pc \<Rightarrow> u64 list" where
  "pending t p = indices (Current t) (End t)
     @ (case p of Distributing d \<Rightarrow> indices (From (otherData d)) (To (otherData d)) | _ \<Rightarrow> [])"

definition distributes :: "Task \<Rightarrow> pc \<Rightarrow> bool" where
  "distributes t p \<longleftrightarrow> SharingPolicy t = ENABLED \<and> (p = Distribute \<or> (\<exists>d. p = Distributing d))"

definition task_ok :: "u64 \<Rightarrow> u64 \<Rightarrow> Task \<Rightarrow> pc \<Rightarrow> bool" where
  "task_ok to thr t p \<longleftrightarrow>
     Current t \<le> End t \<and> End t \<le> to \<and> GrainSize (Split t) \<noteq> 0 \<and>
     unat to + unat (GrainSize (Split t)) < 2 ^ 64 \<and>
     (SharingPolicy t = ENABLED \<longrightarrow> From (Threads (Split t)) < To (Threads (Split t))
        \<and> To (Threads (Split t)) \<le> thr) \<and>
     (\<forall>d. p = Distributing d \<longrightarrow> dist_inv d \<and> To (otherData d) \<le> to \<and> To (otherThreads d) \<le> thr) \<and>
     (\<forall>start. p = Executing start \<longrightarrow> GrainSize (Split t) \<le> Current t + 1)"

text \<open>
  A bound on the steps a task and all it will create can still take.  Each iteration pays for the
  node of the task it might end up alone in.
\<close>

fun phase :: "pc \<Rightarrow> nat" where
  "phase Distribute = 7"
| "phase (Distributing d) = 6"
| "phase Timespan = 5"
| "phase (Executing start) = 4"
| "phase Balance = 3"
| "phase Drain = 2"

definition weight :: "Task \<Rightarrow> pc \<Rightarrow> nat" where
  "weight t p = (10 * (unat (End t) - unat (Current t)) - 9) + phase p
     + (case p of Distributing d \<Rightarrow> 10 * (unat (To (otherData d)) - unat (From (otherData d))) | _ \<Rightarrow> 0)"

text \<open>The bounds on a loop that keep its 64-bit sums from wrapping around.\<close>

definition loop_ok :: "u64 \<Rightarrow> u64 \<Rightarrow> u64 \<Rightarrow> u64 \<Rightarrow> bool" where
  "loop_ok threads from to grainsize \<longleftrightarrow>
     from \<le> to \<and> unat to < 2 ^ 60 \<and> unat to + unat (max grainsize 1) < 2 ^ 64 \<and>
     0 < threads \<and> unat threads < 2 ^ 31"

section \<open>One task\<close>

text \<open>What a step of a task promises, by the action it takes.\<close>

definition step_good :: "u64 \<Rightarrow> u64 \<Rightarrow> Task \<Rightarrow> pc \<Rightarrow> action \<Rightarrow> Task \<Rightarrow> pc \<Rightarrow> bool" where
  "step_good to thr t p a t' p' \<longleftrightarrow>
     CurrentNode t' = CurrentNode t \<and> task_ok to thr t' p' \<and>
     (case a of
        Silent \<Rightarrow> mset (pending t' p') = mset (pending t p) \<and> weight t' p' < weight t p
      | Run i \<Rightarrow> add_mset i (mset (pending t' p')) = mset (pending t p) \<and> weight t' p' < weight t p
      | NewTask thread c \<Rightarrow>
          CurrentNode c = CurrentNode t \<and> task_ok to thr c Distribute \<and>
          mset (pending t' p') + mset (pending c Distribute) = mset (pending t p) \<and>
          weight t' p' + weight c Distribute + 1 < weight t p
      | Finish \<Rightarrow> pending t p = [] \<and> 2 \<le> weight t p)"

lemma task_ok_may_distribute:
  assumes "task_ok to thr t p" "SharingPolicy t = ENABLED" "unat to < 2 ^ 60" "unat thr < 2 ^ 31"
  shows "may_distribute t"
proof -
  have "unat (End t) \<le> unat to" "unat (Current t) \<le> unat (End t)"
    "unat (To (Threads (Split t))) \<le> unat thr"
    "unat to + unat (GrainSize (Split t)) < 2 ^ 64"
    using assms(1,2) by (simp_all add: task_ok_def word_le_nat_alt)
  then show ?thesis using assms by (simp add: may_distribute_def task_ok_def)
qed

lemma dist_inv_le: "dist_inv d \<Longrightarrow> From (otherThreads d) \<le> To (otherThreads d)"
  "dist_inv d \<Longrightarrow> From (otherData d) \<le> To (otherData d)"
  by (simp_all add: dist_inv_def word_le_nat_alt)

lemma dist_inv_done:
  "dist_inv d \<Longrightarrow> part d = parts d \<Longrightarrow> From (otherData d) = To (otherData d) \<and> distribute_end_ok d"
  by (simp add: dist_inv_def distribute_end_ok_def u64_eq)

lemma step_Distribute:
  assumes ok: "task_ok to thr t Distribute" and to: "unat to < 2 ^ 60" and thr: "unat thr < 2 ^ 31"
  shows "\<exists>a t' p'. task_step init hf now t Distribute = Inr (a, t', p')
    \<and> step_good to thr t Distribute a t' p'"
proof (cases "SharingPolicy t = ENABLED \<and> Range_Size (Threads (Split t)) \<noteq> 1 \<and> IsDivisible hf t")
  case False
  then have "task_step init hf now t Distribute = Inr (Silent, t, Timespan)"
    by (cases "SharingPolicy t") (auto simp: distribute_begin_def Let_def)
  then show ?thesis
    using ok by (simp add: step_good_def task_ok_def pending_def weight_def)
next
  case True
  have may: "may_distribute t" using task_ok_may_distribute [OF ok _ to thr] True by blast
  have grain: "GrainSize (Split t) \<noteq> 0" using ok by (simp add: task_ok_def)
  obtain d where start: "distribute_begin hf t = Inr (t\<lparr>End := From (otherData d)\<rparr>, Some d)"
    and d: "dist_inv d" "To (otherData d) = End t" "To (otherThreads d) = To (Threads (Split t))"
    "Current t < From (otherData d)" "From (otherData d) < End t"
    using dist_begin [OF may _ _ share_divisible [OF may grain]] True by metis
  let ?t = "t\<lparr>End := From (otherData d)\<rparr>"
  have "task_step init hf now t Distribute = Inr (Silent, ?t, Distributing d)"
    using True start by simp
  moreover have "task_ok to thr ?t (Distributing d)"
    using ok d True by (auto simp: task_ok_def)
  moreover have "pending ?t (Distributing d) = pending t Distribute"
    using d by (simp add: pending_def indices_append less_imp_le)
  moreover have "weight ?t (Distributing d) < weight t Distribute"
    using d by (simp add: weight_def word_less_nat_alt)
  ultimately show ?thesis by (auto simp: step_good_def)
qed

lemma step_Distributing:
  assumes ok: "task_ok to thr t (Distributing d)"
  shows "\<exists>a t' p'. task_step init hf now t (Distributing d) = Inr (a, t', p')
    \<and> step_good to thr t (Distributing d) a t' p'"
proof (cases "part d = parts d")
  case True
  with ok dist_inv_done [of d] have "task_step init hf now t (Distributing d) = Inr (Silent, t, Timespan)"
    "From (otherData d) = To (otherData d)"
    by (simp_all add: task_ok_def)
  then show ?thesis
    using ok by (simp add: step_good_def task_ok_def pending_def weight_def indices_Nil)
next
  case False
  have inv: "dist_inv d" using ok by (simp add: task_ok_def)
  obtain child d' where step: "distribute_step t d = Inr (child, From (otherThreads d), d')" "dist_inv d'"
    "From (otherData d') = End child" "To (otherData d') = To (otherData d)"
    "From (otherThreads d') = To (Threads (Split child))" "To (otherThreads d') = To (otherThreads d)"
    "From (Threads (Split child)) = From (otherThreads d)" "Current child = From (otherData d)"
    and share: "unat (To (Threads (Split child))) = unat (From (otherThreads d)) + thread_share d (unat (part d))"
    and lt: "From (otherData d) < End child" "End child \<le> To (otherData d)"
    and pol': "SharingPolicy child = SharingPolicy t" "BalancingPolicy child = BalancingPolicy t"
    "GrainSize (Split child) = GrainSize (Split t)" "CurrentNode child = CurrentNode t"
    by (rule dist_step [OF inv False, of t]) blast
  have "0 < thread_share d (unat (part d))" using inv by (simp add: dist_inv_def thread_share_def)
  then have "From (Threads (Split child)) < To (Threads (Split child))"
    using share step(7) by (simp add: word_less_nat_alt)
  moreover have "To (Threads (Split child)) \<le> thr"
    using dist_inv_le(1) [OF step(2)] step(5,6) ok by (auto simp: task_ok_def)
  moreover have "End child \<le> to" using lt(2) ok by (auto simp: task_ok_def)
  ultimately have "task_ok to thr child Distribute"
    using ok lt(1) step(8) pol' by (simp add: task_ok_def less_imp_le)
  moreover have "task_ok to thr t (Distributing d')"
    using ok step by (simp add: task_ok_def)
  moreover have "indices (From (otherData d)) (To (otherData d))
      = pending child Distribute @ indices (End child) (To (otherData d))"
    using lt step(8) by (simp add: pending_def indices_append less_imp_le)
  then have "mset (pending t (Distributing d'))
      + mset (pending child Distribute) = mset (pending t (Distributing d))"
    using step(3,4) by (simp add: pending_def ac_simps)
  moreover have "weight t (Distributing d') + weight child Distribute + 1 < weight t (Distributing d)"
  proof -
    define a where "a = unat (From (otherData d))"
    define b where "b = unat (End child)"
    define c where "c = unat (To (otherData d))"
    have "a < b" "b \<le> c" using lt by (simp_all add: a_def b_def c_def word_less_nat_alt word_le_nat_alt)
    then have "10 * (c - b) + (10 * (b - a) - 9) + 7 + 1 < 10 * (c - a)" by linarith
    then show ?thesis using step(3,4,8) by (simp add: weight_def a_def b_def c_def)
  qed
  moreover have "task_step init hf now t (Distributing d)
      = Inr (NewTask (Some (From (otherThreads d))) child, t, Distributing d')"
    using False step(1) by simp
  ultimately show ?thesis using pol'(4) by (simp add: step_good_def)
qed

lemma task_ok_Execute:
  assumes "task_ok to thr t p" "Current t < End t" "\<forall>d. p' \<noteq> Distributing d" "\<forall>start. p' \<noteq> Executing start"
  shows "task_ok to thr (snd (Execute t)) p'"
proof -
  have "Current t + 1 \<le> End t" using assms(2) u64_Suc [of "Current t" "End t"]
    by (simp add: word_le_nat_alt word_less_nat_alt)
  then show ?thesis using assms by (auto simp: Execute_def task_ok_def)
qed

lemma Execute_weight:
  assumes "Current t < End t"
  shows "10 * (unat (End t) - unat (Current t + 1)) - 9 < 10 * (unat (End t) - unat (Current t)) - 9"
proof -
  have "unat (Current t + 1) = Suc (unat (Current t))" "unat (Current t) < unat (End t)"
    using assms by (simp_all add: word_less_nat_alt u64_Suc)
  then show ?thesis by linarith
qed

lemma Current_less: "task_ok to thr t p \<Longrightarrow> Current t \<noteq> End t \<Longrightarrow> Current t < End t"
  by (simp add: task_ok_def order.strict_iff_order)

lemma step_Timespan:
  assumes "task_ok to thr t Timespan" "unat to < 2 ^ 60"
  shows "\<exists>a t' p'. task_step init hf now t Timespan = Inr (a, t', p') \<and> step_good to thr t Timespan a t' p'"
  using assms by (auto simp: step_good_def task_ok_def pending_def weight_def word_le_nat_alt u64_add)

lemma step_Executing:
  assumes ok: "task_ok to thr t (Executing start)" and to: "unat to < 2 ^ 60"
  shows "\<exists>a t' p'. task_step init hf now t (Executing start) = Inr (a, t', p')
    \<and> step_good to thr t (Executing start) a t' p'"
proof (cases "Current t < End t")
  case False
  then show ?thesis using ok by (simp add: step_good_def task_ok_def pending_def weight_def)
next
  case True
  note w = Execute_weight [OF True] and i = indices_Cons [OF True]
  show ?thesis
  proof (cases "now - start > init")
    case True
    then show ?thesis
      using ok \<open>Current t < End t\<close> task_ok_Execute [OF ok \<open>Current t < End t\<close>, of Balance] w i
      by (simp add: Execute_def step_good_def pending_def weight_def)
  next
    case False
    let ?t = "t\<lparr>Current := Current t + 1, Split := (Split t)\<lparr>GrainSize := GrainSize (Split t) + 1\<rparr>\<rparr>"
    have le: "unat (Current t + 1) \<le> unat (End t)" "unat (End t) \<le> unat to"
      using True ok by (simp_all add: word_less_nat_alt u64_Suc task_ok_def word_le_nat_alt)
    have c: "unat (Current t + 1) = unat (Current t) + 1" "unat (Current t + 1 + 1) = unat (Current t) + 2"
      using le to by (simp_all add: u64_Suc [OF True [unfolded word_less_nat_alt]] u64_add)
    have g: "unat (GrainSize (Split t)) \<le> unat (Current t) + 1"
      using ok c by (simp add: task_ok_def word_le_nat_alt)
    then have "unat (GrainSize (Split t)) + unat (1 :: u64) < 2 ^ 64" using le to c by simp
    from u64_add [OF this] have g1: "unat (GrainSize (Split t) + 1) = unat (GrainSize (Split t)) + 1"
      by simp
    have "task_ok to thr ?t (Executing start)"
      using ok le g g1 c to by (simp add: task_ok_def word_le_nat_alt u64_eq)
    then show ?thesis
      using \<open>Current t < End t\<close> False w i
      by (simp add: Execute_def step_good_def pending_def weight_def)
  qed
qed

lemma step_Balance:
  assumes ok: "task_ok to thr t Balance"
  shows "\<exists>a t' p'. task_step init hf now t Balance = Inr (a, t', p') \<and> step_good to thr t Balance a t' p'"
proof (cases "Current t \<noteq> End t \<and> IsDivisible hf t")
  case False
  then show ?thesis using ok by (auto simp: step_good_def task_ok_def pending_def weight_def)
next
  case True
  obtain child t' where b: "balance_task t = (child, t')" by fastforce
  define c e m where "c = unat (Current t)" and "e = unat (End t)" and "m = unat (End t')"
  have ce: "c \<le> e" "unat (End t - Current t) = e - c"
    using ok by (simp_all add: task_ok_def c_def e_def u64_sub word_le_nat_alt)
  have "unat (Current t) + unat (GrainSize (Split t)) < 2 ^ 64"
    using ok by (simp add: task_ok_def word_le_nat_alt)
  with True have "c + unat (GrainSize (Split t)) < e"
    using IsDivisible_nat [of t hf] by (simp add: c_def e_def)
  moreover have "unat (GrainSize (Split t)) \<noteq> 0" using ok by (simp add: task_ok_def u64_eq)
  ultimately have r: "2 \<le> e - c" by linarith
  have "unat ((End t - Current t) div 2) = (e - c) div 2" by (simp add: unat_div ce)
  moreover from this have "unat (Current t + (End t - Current t) div 2) = c + (e - c) div 2"
    using u64_bound [of "End t"] ce(1) unfolding c_def [symmetric] e_def [symmetric]
    by (subst u64_add) (simp_all add: c_def [symmetric])
  ultimately have m: "m = c + (e - c) div 2"
    using b by (auto simp: balance_task_def Let_def m_def)
  then have lt: "c < m" "m < e" using r by (simp_all add: less_le_trans)
  have t': "t' = t\<lparr>End := End t'\<rparr>" "Current child = End t'" "End child = End t"
    "SharingPolicy child = DISABLED" "GrainSize (Split child) = GrainSize (Split t)"
    "CurrentNode child = CurrentNode t"
    using b by (auto simp: balance_task_def Let_def)
  have w: "Current t < End t'" "End t' < End t"
    using lt by (simp_all add: word_less_nat_alt c_def e_def m_def)
  have "task_ok to thr t' Balance"
    using ok w by (subst t'(1)) (auto simp: task_ok_def)
  moreover have "task_ok to thr child Distribute"
    using ok w t' by (auto simp: task_ok_def)
  moreover have "pending t' Balance @ pending child Distribute = pending t Balance"
    using w t'(2,3) by (subst t'(1)) (simp add: pending_def indices_append less_imp_le)
  then have "mset (pending t' Balance) + mset (pending child Distribute) = mset (pending t Balance)"
    by (simp only: mset_append [symmetric])
  moreover have "weight t' Balance + weight child Distribute + 1 < weight t Balance"
  proof -
    have "weight t' Balance = (10 * (m - c) - 9) + 3"
      by (subst t'(1)) (simp add: weight_def m_def c_def)
    moreover have "weight child Distribute = (10 * (e - m) - 9) + 7"
      using t'(2,3) by (simp add: weight_def m_def e_def)
    moreover have "weight t Balance = (10 * (e - c) - 9) + 3"
      by (simp add: weight_def e_def c_def)
    ultimately show ?thesis using lt by linarith
  qed
  moreover have "CurrentNode t' = CurrentNode t" by (subst t'(1)) simp
  moreover have "task_step init hf now t Balance = Inr (NewTask None child, t', Balance)"
    using True b by simp
  ultimately show ?thesis using t'(6) by (simp add: step_good_def)
qed

lemma step_Drain:
  assumes ok: "task_ok to thr t Drain"
  shows "\<exists>a t' p'. task_step init hf now t Drain = Inr (a, t', p') \<and> step_good to thr t Drain a t' p'"
proof (cases "Current t = End t")
  case True
  then show ?thesis using ok by (simp add: step_good_def pending_def weight_def indices_Nil)
next
  case False
  have lt: "Current t < End t" using ok False by (rule Current_less)
  show ?thesis
    using False task_ok_Execute [OF ok lt, of Drain] Execute_weight [OF lt] indices_Cons [OF lt]
    by (simp add: Execute_def step_good_def pending_def weight_def)
qed

lemma task_step_good:
  assumes "task_ok to thr t p" "unat to < 2 ^ 60" "unat thr < 2 ^ 31"
  obtains a t' p' where "task_step init hf now t p = Inr (a, t', p')" "step_good to thr t p a t' p'"
  using assms step_Distribute step_Distributing step_Timespan step_Executing step_Balance step_Drain
  by (cases p) metis+

section \<open>All tasks\<close>

text \<open>
  Who holds a node: the caller (the root), the tasks that run under it, the releases under way and
  its live children.
\<close>

definition children :: "store \<Rightarrow> nat \<Rightarrow> nat" where
  "children ns n = length (filter (\<lambda>nd. alive nd \<and> Parent nd = Some n) ns)"

definition holders :: "par_state \<Rightarrow> nat \<Rightarrow> nat" where
  "holders s n = of_bool (n = 0) + count_list (map (\<lambda>tp. CurrentNode (fst tp)) (tasks s)) n
     + count_list (releasing s) n + children (nodes s) n"

definition store_ok :: "par_state \<Rightarrow> bool" where
  "store_ok s \<longleftrightarrow>
     (\<forall>n. live (nodes s) n \<longleftrightarrow> 0 < holders s n) \<and>
     (\<forall>n. live (nodes s) n \<longrightarrow> m_cnt (nodes s ! n) = of_nat (holders s n)) \<and>
     (\<forall>n < length (nodes s). case Parent (nodes s ! n) of None \<Rightarrow> n = 0 | Some p \<Rightarrow> p < n)"

definition work :: "par_state \<Rightarrow> u64 multiset" where
  "work s = mset (executed s) + mset (concat (map (\<lambda>(t, p). pending t p) (tasks s)))"

definition total_weight :: "par_state \<Rightarrow> nat" where
  "total_weight s = sum_list (map (\<lambda>(t, p). weight t p) (tasks s)) + length (releasing s)
     + length (filter alive (nodes s))"

definition pf_inv :: "u64 \<Rightarrow> u64 \<Rightarrow> u64 multiset \<Rightarrow> par_state \<Rightarrow> bool" where
  "pf_inv to thr all s \<longleftrightarrow>
     store_ok s \<and> (\<forall>(t, p) \<in> set (tasks s). task_ok to thr t p) \<and> work s = all"

lemma split_at:
  assumes "k < length xs"
  obtains A B where "xs = A @ xs ! k # B" "length A = k" "xs[k := y] = A @ y # B" "remove_at k xs = A @ B"
proof
  show "xs = take k xs @ xs ! k # drop (Suc k) xs" using assms by (rule id_take_nth_drop)
  show "length (take k xs) = k" using assms by simp
  show "xs[k := y] = take k xs @ y # drop (Suc k) xs" using assms by (rule upd_conv_take_nth_drop)
  show "remove_at k xs = take k xs @ drop (Suc k) xs" by (simp add: remove_at_def)
qed

lemma holders_bound:
  assumes "\<forall>(t, p) \<in> set (tasks s). task_ok to thr t p"
  shows "holders s n \<le> 1 + total_weight s"
proof -
  have a: "count_list (map (\<lambda>tp. CurrentNode (fst tp)) ts) n \<le> sum_list (map (\<lambda>(t, p). weight t p) ts)" for ts
  proof (induction ts)
    case (Cons tp ts)
    have "1 \<le> weight (fst tp) (snd tp)" by (cases "snd tp") (simp_all add: weight_def)
    with Cons show ?case by (auto simp: case_prod_beta)
  qed simp
  have b: "count_list rs n \<le> length rs" for rs :: "nat list" by (induction rs) auto
  have c: "children ns n \<le> length (filter alive ns)" for ns
    by (induction ns) (auto simp: children_def)
  have "(of_bool (n = 0) :: nat) \<le> 1" by simp
  with a [of "tasks s"] b [of "releasing s"] c [of "nodes s"] show ?thesis
    unfolding holders_def total_weight_def by linarith
qed

lemma children_update:
  assumes "k < length ns"
  shows "children (ns[k := nd]) n + of_bool (alive (ns ! k) \<and> Parent (ns ! k) = Some n)
    = children ns n + of_bool (alive nd \<and> Parent nd = Some n)"
proof -
  obtain A B where "ns = A @ ns ! k # B" and upd: "ns[k := nd] = A @ nd # B" using split_at [OF assms] by metis
  then have "children ns n = children (A @ ns ! k # B) n" by simp
  then show ?thesis unfolding upd by (simp add: children_def)
qed

lemma alive_update:
  assumes "k < length ns"
  shows "length (filter alive (ns[k := nd])) + of_bool (alive (ns ! k)) = length (filter alive ns) + of_bool (alive nd)"
proof -
  obtain A B where "ns = A @ ns ! k # B" and upd: "ns[k := nd] = A @ nd # B" using split_at [OF assms] by metis
  then have "filter alive ns = filter alive (A @ ns ! k # B)" by simp
  then show ?thesis unfolding upd by simp
qed

lemma cnt_update: "(nd :: node)\<lparr>m_cnt := c\<rparr> = \<lparr>m_cnt = c, Parent = Parent nd, ChildWaitingSteal = ChildWaitingSteal nd, alive = alive nd\<rparr>"
  by (cases nd) simp

text \<open>Creating a node under a live parent.\<close>

lemma new_child_ok:
  assumes "live ns p"
  obtains ns' where "new_child p ns = Inr (length ns, ns')" "length ns' = Suc (length ns)"
    "\<And>n. n < length ns \<Longrightarrow> alive (ns' ! n) = alive (ns ! n) \<and> Parent (ns' ! n) = Parent (ns ! n)
       \<and> m_cnt (ns' ! n) = m_cnt (ns ! n) + of_bool (n = p)"
    "alive (ns' ! length ns)" "Parent (ns' ! length ns) = Some p" "m_cnt (ns' ! length ns) = 1"
    "\<And>n. children ns' n = children ns n + of_bool (n = p)"
    "length (filter alive ns') = Suc (length (filter alive ns))"
proof -
  have p: "p < length ns" "alive (ns ! p)" using assms by (simp_all add: live_def)
  define up where "up = ns[p := (ns ! p)\<lparr>m_cnt := m_cnt (ns ! p) + 1\<rparr>]"
  define ns' where "ns' = up @ [(TaskNode (Some p))\<lparr>m_cnt := 1\<rparr>]"
  have "new_child p ns = Inr (length ns, ns')"
    using p by (simp add: new_child_def IntrusivePtrAddRef_def live_def up_def ns'_def Let_def
        TaskNode_def nth_append list_update_append)
  moreover have "children up n = children ns n" for n
    using children_update [OF p(1), of "(ns ! p)\<lparr>m_cnt := m_cnt (ns ! p) + 1\<rparr>" n] by (simp add: up_def)
  then have "children ns' n = children ns n + of_bool (n = p)" for n
    by (auto simp: ns'_def children_def TaskNode_def)
  moreover have "length (filter alive up) = length (filter alive ns)"
    using alive_update [OF p(1), of "(ns ! p)\<lparr>m_cnt := m_cnt (ns ! p) + 1\<rparr>"] by (simp add: up_def)
  ultimately show ?thesis
    using p by (intro that [of ns']) (auto simp: ns'_def up_def nth_append nth_list_update TaskNode_def)
qed

lemma store_okD:
  assumes "store_ok s"
  shows "live (nodes s) n \<longleftrightarrow> 0 < holders s n" "live (nodes s) n \<Longrightarrow> m_cnt (nodes s ! n) = of_nat (holders s n)"
    "n < length (nodes s) \<Longrightarrow> Parent (nodes s ! n) = None \<Longrightarrow> n = 0"
    "n < length (nodes s) \<Longrightarrow> Parent (nodes s ! n) = Some p \<Longrightarrow> p < n"
  using assms by (auto simp: store_ok_def split: option.splits)

text \<open>The state after a step of task \<open>k\<close> that creates no task: only the counts can change.\<close>

lemma store_ok_same:
  assumes "store_ok s" "nodes s' = nodes s" "\<And>n. holders s' n = holders s n"
  shows "store_ok s'"
  using assms by (simp add: store_ok_def)

lemma store_ok_new:
  assumes ok: "store_ok s" and new: "new_child p (nodes s) = Inr (c, ns')" and p: "live (nodes s) p"
    and s': "nodes s' = ns'" "\<And>n. holders s' n = holders s n + of_bool (n = p) + of_bool (n = c)"
  shows "store_ok s'"
proof -
  obtain c: "c = length (nodes s)" and len: "length ns' = Suc c"
    and old: "\<And>n. n < c \<Longrightarrow> alive (ns' ! n) = alive (nodes s ! n) \<and> Parent (ns' ! n) = Parent (nodes s ! n)
       \<and> m_cnt (ns' ! n) = m_cnt (nodes s ! n) + of_bool (n = p)"
    and node: "alive (ns' ! c)" "Parent (ns' ! c) = Some p" "m_cnt (ns' ! c) = 1"
    using new_child_ok [OF p] new by (metis Inr_inject Pair_inject)
  have pc: "p < c" using p by (simp add: live_def c)
  have c0: "holders s c = 0" using store_okD(1) [OF ok, of c] by (simp add: live_def c)
  have lv: "live ns' n \<longleftrightarrow> live (nodes s) n \<or> n = c" for n
    using len node(1) old by (auto simp: live_def c less_Suc_eq)
  note D = store_okD [OF ok]
  show ?thesis unfolding store_ok_def s'
  proof (intro conjI allI impI)
    show "live ns' n \<longleftrightarrow> 0 < holders s n + of_bool (n = p) + of_bool (n = c)" for n
      using D(1) [of n] p by (auto simp: lv)
    show "m_cnt (ns' ! n) = of_nat (holders s n + of_bool (n = p) + of_bool (n = c))" if "live ns' n" for n
    proof (cases "n = c")
      case True
      with node(3) c0 pc show ?thesis by simp
    next
      case False
      with that have "live (nodes s) n" by (simp add: lv)
      with D(2) [of n] old [of n] False show ?thesis by (simp add: live_def c)
    qed
    show "case Parent (ns' ! n) of None \<Rightarrow> n = 0 | Some q \<Rightarrow> q < n" if "n < length ns'" for n
      using that old [of n] node(2) pc len D(3,4) [of n]
      by (cases "n = c") (auto simp: c split: option.split)
  qed
qed

lemma tasks_perform:
  assumes k: "k < length (tasks s)" and x: "tasks s ! k = (t, p)" and node: "CurrentNode t' = CurrentNode t"
  shows "count_list (map (\<lambda>tp. CurrentNode (fst tp)) ((tasks s)[k := (t', p')])) n
      = count_list (map (\<lambda>tp. CurrentNode (fst tp)) (tasks s)) n"
    "count_list (map (\<lambda>tp. CurrentNode (fst tp)) (remove_at k (tasks s))) n + of_bool (CurrentNode t = n)
      = count_list (map (\<lambda>tp. CurrentNode (fst tp)) (tasks s)) n"
    "mset (concat (map (\<lambda>(t, p). pending t p) ((tasks s)[k := (t', p')]))) + mset (pending t p)
      = mset (concat (map (\<lambda>(t, p). pending t p) (tasks s))) + mset (pending t' p')"
    "mset (concat (map (\<lambda>(t, p). pending t p) (remove_at k (tasks s)))) + mset (pending t p)
      = mset (concat (map (\<lambda>(t, p). pending t p) (tasks s)))"
    "sum_list (map (\<lambda>(t, p). weight t p) ((tasks s)[k := (t', p')])) + weight t p
      = sum_list (map (\<lambda>(t, p). weight t p) (tasks s)) + weight t' p'"
    "sum_list (map (\<lambda>(t, p). weight t p) (remove_at k (tasks s))) + weight t p
      = sum_list (map (\<lambda>(t, p). weight t p) (tasks s))"
    "(t, p) \<in> set (tasks s)" "set (remove_at k (tasks s)) \<subseteq> set (tasks s)"
    "set ((tasks s)[k := (t', p')]) \<subseteq> insert (t', p') (set (tasks s))"
proof -
  obtain A B where ts: "tasks s = A @ (t, p) # B" and upd: "(tasks s)[k := (t', p')] = A @ (t', p') # B"
    and rem: "remove_at k (tasks s) = A @ B"
    using split_at [OF k] x by metis
  show "count_list (map (\<lambda>tp. CurrentNode (fst tp)) ((tasks s)[k := (t', p')])) n
      = count_list (map (\<lambda>tp. CurrentNode (fst tp)) (tasks s)) n"
    "count_list (map (\<lambda>tp. CurrentNode (fst tp)) (remove_at k (tasks s))) n + of_bool (CurrentNode t = n)
      = count_list (map (\<lambda>tp. CurrentNode (fst tp)) (tasks s)) n"
    "mset (concat (map (\<lambda>(t, p). pending t p) ((tasks s)[k := (t', p')]))) + mset (pending t p)
      = mset (concat (map (\<lambda>(t, p). pending t p) (tasks s))) + mset (pending t' p')"
    "mset (concat (map (\<lambda>(t, p). pending t p) (remove_at k (tasks s)))) + mset (pending t p)
      = mset (concat (map (\<lambda>(t, p). pending t p) (tasks s)))"
    "sum_list (map (\<lambda>(t, p). weight t p) ((tasks s)[k := (t', p')])) + weight t p
      = sum_list (map (\<lambda>(t, p). weight t p) (tasks s)) + weight t' p'"
    "sum_list (map (\<lambda>(t, p). weight t p) (remove_at k (tasks s))) + weight t p
      = sum_list (map (\<lambda>(t, p). weight t p) (tasks s))"
    "(t, p) \<in> set (tasks s)" "set (remove_at k (tasks s)) \<subseteq> set (tasks s)"
    "set ((tasks s)[k := (t', p')]) \<subseteq> insert (t', p') (set (tasks s))"
    unfolding upd rem unfolding ts by (auto simp: node)
qed

lemma perform_ok:
  assumes inv: "pf_inv to thr all s" and k: "k < length (tasks s)" and x: "tasks s ! k = (t, p)"
    and good: "step_good to thr t p a t' p'"
  shows "\<exists>s'. perform k a (t', p') s = Inr s' \<and> pf_inv to thr all s' \<and> total_weight s' < total_weight s"
proof -
  have store: "store_ok s" and oks: "\<forall>(t, p) \<in> set (tasks s). task_ok to thr t p" and all: "work s = all"
    using inv by (simp_all add: pf_inv_def)
  have node: "CurrentNode t' = CurrentNode t" and ok': "task_ok to thr t' p'"
    using good by (simp_all add: step_good_def)
  note T = tasks_perform(1) [OF k x node, where p' = p'] tasks_perform(2) [OF k x node] tasks_perform(3) [OF k x node, where p' = p']
    tasks_perform(4) [OF k x node] tasks_perform(5) [OF k x node, where p' = p'] tasks_perform(6) [OF k x node]
    tasks_perform(7) [OF k x node] tasks_perform(8) [OF k x node] tasks_perform(9) [OF k x node, where p' = p']
  have tasks': "\<forall>(t, p) \<in> set ((tasks s)[k := (t', p')]). task_ok to thr t p"
    using oks ok' T(9) by blast
  show ?thesis
  proof (cases a)
    case Silent
    let ?s = "s\<lparr>tasks := (tasks s)[k := (t', p')]\<rparr>"
    have "store_ok ?s" using T(1) by (intro store_ok_same [OF store]) (simp_all add: holders_def)
    moreover have "work ?s = work s" "total_weight ?s < total_weight s"
      using good T(3,5) by (simp_all add: Silent step_good_def work_def total_weight_def)
    ultimately show ?thesis using tasks' all by (simp add: Silent pf_inv_def)
  next
    case (Run i)
    let ?s = "s\<lparr>tasks := (tasks s)[k := (t', p')], executed := executed s @ [i]\<rparr>"
    have "store_ok ?s" using T(1) by (intro store_ok_same [OF store]) (simp_all add: holders_def)
    moreover have "total_weight ?s < total_weight s"
      using good T(5) by (simp add: Run step_good_def total_weight_def)
    moreover have pend: "mset (pending t p) = add_mset i (mset (pending t' p'))"
      using good by (simp add: Run step_good_def)
    have "work ?s = work s"
      using T(3) unfolding pend by (simp add: work_def)
    ultimately show ?thesis using tasks' all by (simp add: Run pf_inv_def)
  next
    case (NewTask th c)
    have c: "CurrentNode c = CurrentNode t" "task_ok to thr c Distribute"
      and pend: "mset (pending t' p') + mset (pending c Distribute) = mset (pending t p)"
      and w: "weight t' p' + weight c Distribute + 1 < weight t p"
      using good by (simp_all add: NewTask step_good_def)
    have "0 < holders s (CurrentNode t)"
      using T(2) [of "CurrentNode t"] by (simp add: holders_def)
    then have lv: "live (nodes s) (CurrentNode t)" using store_okD(1) [OF store] by simp
    obtain ns' where new: "new_child (CurrentNode t) (nodes s) = Inr (length (nodes s), ns')"
      and ch: "\<And>n. children ns' n = children (nodes s) n + of_bool (n = CurrentNode t)"
      and al: "length (filter alive ns') = Suc (length (filter alive (nodes s)))"
      using new_child_ok [OF lv] by metis
    let ?c = "c\<lparr>CurrentNode := length (nodes s)\<rparr>"
    let ?s = "s\<lparr>nodes := ns', tasks := (tasks s)[k := (t', p')] @ [(?c, Distribute)]\<rparr>"
    have "store_ok ?s"
      using T(1) ch by (intro store_ok_new [OF store new lv]) (auto simp: holders_def)
    moreover have same: "task_ok to thr ?c Distribute" "pending ?c Distribute = pending c Distribute"
      "weight ?c Distribute = weight c Distribute"
      using c(2) by (simp_all add: task_ok_def pending_def weight_def)
    moreover have "total_weight ?s < total_weight s"
      using w T(5) al same by (simp add: total_weight_def)
    moreover have "work ?s = work s"
      using T(3) same unfolding pend [symmetric] by (simp add: work_def)
    ultimately show ?thesis using tasks' all new c(1) by (simp add: NewTask pf_inv_def)
  next
    case Finish
    let ?s = "s\<lparr>tasks := remove_at k (tasks s), releasing := CurrentNode t' # releasing s\<rparr>"
    have w: "pending t p = []" "2 \<le> weight t p" using good by (simp_all add: Finish step_good_def)
    have "holders ?s n = holders s n" for n
      using T(2) [of n] by (cases "CurrentNode t = n") (simp_all add: holders_def node)
    then have "store_ok ?s" by (intro store_ok_same [OF store]) simp_all
    moreover have "work ?s = work s" "total_weight ?s < total_weight s"
      using w T(4,6) by (simp_all add: work_def total_weight_def)
    ultimately show ?thesis using oks T(8) all by (auto simp: Finish pf_inv_def)
  qed
qed

lemma release_ok:
  assumes inv: "pf_inv to thr all s" and k: "k < length (releasing s)" and w: "total_weight s < 2 ^ 64 - 1"
  shows "\<exists>s'. pf_step init s (StepRelease k) = Inr s' \<and> pf_inv to thr all s' \<and> total_weight s' < total_weight s"
proof -
  have store: "store_ok s" and oks: "\<forall>(t, p) \<in> set (tasks s). task_ok to thr t p" and all: "work s = all"
    using inv by (simp_all add: pf_inv_def)
  note D = store_okD [OF store]
  let ?n = "releasing s ! k"
  obtain A B where rs: "releasing s = A @ ?n # B" and rem: "remove_at k (releasing s) = A @ B"
    using split_at [OF k] by metis
  have cnt: "count_list (A @ B) m + of_bool (?n = m) = count_list (releasing s) m" for m
    by (subst rs) simp
  have len: "Suc (length (A @ B)) = length (releasing s)" using arg_cong [OF rs, of length] by simp
  have "0 < holders s ?n" using cnt [of ?n] by (simp add: holders_def)
  then have lv: "live (nodes s) ?n" using D(1) by simp
  then have n: "?n < length (nodes s)" "alive (nodes s ! ?n)" by (simp_all add: live_def)
  have old: "m_cnt (nodes s ! ?n) = 1 \<longleftrightarrow> holders s ?n = 1"
    using D(2) [OF lv] holders_bound [OF oks, of ?n] w of_nat_u64_inj [of "holders s ?n" 1] by simp
  define nd where "nd = (nodes s ! ?n)\<lparr>m_cnt := m_cnt (nodes s ! ?n) - 1\<rparr>"
  have nd: "alive nd" "Parent nd = Parent (nodes s ! ?n)" "m_cnt nd = m_cnt (nodes s ! ?n) - 1"
    using n by (simp_all add: nd_def)
  show ?thesis
  proof (cases "holders s ?n = 1")
    case True
    have "?n \<noteq> 0"
    proof
      assume "?n = 0"
      with True cnt [of 0] show False by (simp add: holders_def)
    qed
    with D(3) [of ?n] n(1) obtain p where p: "Parent (nodes s ! ?n) = Some p"
      by (cases "Parent (nodes s ! ?n)") auto
    define ns' where "ns' = (nodes s)[?n := nd\<lparr>alive := False\<rparr>]"
    let ?s = "s\<lparr>nodes := ns', releasing := p # A @ B\<rparr>"
    have step: "pf_step init s (StepRelease k) = Inr ?s"
      using lv True old p by (simp add: IntrusivePtrRelease_def Let_def nd_def ns'_def rem)
    have ch: "children ns' m + of_bool (p = m) = children (nodes s) m" for m
      using children_update [OF n(1), of "nd\<lparr>alive := False\<rparr>" m] n(2) p by (simp add: ns'_def)
    have h: "holders ?s m + of_bool (?n = m) = holders s m" for m
      using cnt [of m] ch [of m] by (cases "p = m") (simp_all add: holders_def)
    have lv': "live ns' m \<longleftrightarrow> live (nodes s) m \<and> m \<noteq> ?n" for m
      using n by (auto simp: live_def ns'_def nth_list_update)
    have "store_ok ?s"
      unfolding store_ok_def
    proof (intro conjI allI impI)
      fix m
      show "live (nodes ?s) m \<longleftrightarrow> 0 < holders ?s m"
        using h [of m] D(1) [of m] True lv' [of m] by (cases "m = ?n") auto
      show "m_cnt (nodes ?s ! m) = of_nat (holders ?s m)" if "live (nodes ?s) m"
        using that h [of m] D(2) [of m] lv' [of m] by (auto simp: ns'_def)
      show "case Parent (nodes ?s ! m) of None \<Rightarrow> m = 0 | Some p \<Rightarrow> p < m" if "m < length (nodes ?s)"
        using that D(3,4) [of m] nd(2)
        by (cases "m = ?n") (auto simp: ns'_def split: option.split)
    qed
    moreover have "total_weight ?s < total_weight s"
      using alive_update [OF n(1), of "nd\<lparr>alive := False\<rparr>"] n(2) len
      by (simp add: total_weight_def ns'_def)
    ultimately show ?thesis using step oks all by (simp add: pf_inv_def work_def)
  next
    case False
    define ns' where "ns' = (nodes s)[?n := nd]"
    let ?s = "s\<lparr>nodes := ns', releasing := A @ B\<rparr>"
    have step: "pf_step init s (StepRelease k) = Inr ?s"
      using lv False old by (simp add: IntrusivePtrRelease_def Let_def nd_def ns'_def rem)
    have "children ns' m = children (nodes s) m" for m
      using children_update [OF n(1), of nd m] n(2) nd by (simp add: ns'_def)
    then have h: "holders ?s m + of_bool (?n = m) = holders s m" for m
      using cnt [of m] by (simp add: holders_def)
    have lv': "live ns' m \<longleftrightarrow> live (nodes s) m" for m
      using n nd(1) by (auto simp: live_def ns'_def nth_list_update)
    have "store_ok ?s"
      unfolding store_ok_def
    proof (intro conjI allI impI)
      fix m
      show "live (nodes ?s) m \<longleftrightarrow> 0 < holders ?s m"
        using h [of m] D(1) [of m] False lv' [of m] \<open>0 < holders s ?n\<close> by (cases "m = ?n") auto
      show "m_cnt (nodes ?s ! m) = of_nat (holders ?s m)" if lvm: "live (nodes ?s) m"
      proof (cases "m = ?n")
        case True
        have "holders s ?n = Suc (holders ?s ?n)" using h [of ?n] by simp
        then show ?thesis using D(2) [OF lv] True n(1) nd(3) by (simp add: ns'_def)
      next
        case False
        then show ?thesis using lvm h [of m] D(2) [of m] lv' [of m] by (simp add: ns'_def)
      qed
      show "case Parent (nodes ?s ! m) of None \<Rightarrow> m = 0 | Some p \<Rightarrow> p < m" if "m < length (nodes ?s)"
        using that D(3,4) [of m] nd(2)
        by (cases "m = ?n") (auto simp: ns'_def split: option.split)
    qed
    moreover have "total_weight ?s < total_weight s"
      using alive_update [OF n(1), of nd] n(2) nd(1) len by (simp add: total_weight_def ns'_def)
    ultimately show ?thesis using step oks all by (simp add: pf_inv_def work_def)
  qed
qed

section \<open>A whole loop\<close>

lemma start_inv:
  assumes "loop_ok threads from to grainsize"
  shows "pf_inv to threads (mset (indices from to)) (ParallelFor_start m stack_empty threads from to grainsize)"
proof -
  let ?s = "ParallelFor_start m stack_empty threads from to grainsize"
  obtain b sh where pol: "ParForTraits m = (b, sh)" by fastforce
  have "max grainsize 1 \<noteq> 0" by (auto simp: max_def)
  then have "\<forall>(t, p) \<in> set (tasks ?s). task_ok to threads t p"
    using assms by (simp add: ParallelFor_start_def Let_def pol task_ok_def loop_ok_def)
  moreover have "holders ?s n = (if n = 0 then 2 else 0)" for n
    by (simp add: ParallelFor_start_def Let_def pol holders_def children_def TaskNode_def)
  then have "store_ok ?s"
    by (simp add: store_ok_def) (simp add: ParallelFor_start_def Let_def pol live_def TaskNode_def)
  moreover have "work ?s = mset (indices from to)"
    by (simp add: ParallelFor_start_def Let_def pol work_def pending_def)
  ultimately show ?thesis by (simp add: pf_inv_def)
qed

lemma start_weight:
  "total_weight (ParallelFor_start m stack_empty threads from to grainsize) \<le> 10 * (unat to - unat from) + 8"
  by (cases "ParForTraits m")
    (simp add: ParallelFor_start_def Let_def total_weight_def weight_def TaskNode_def)

lemma pf_step_ok:
  assumes inv: "pf_inv to thr all s" and c: "enabled s c"
    and bounds: "unat to < 2 ^ 60" "unat thr < 2 ^ 31" "total_weight s < 2 ^ 64 - 1"
  shows "\<exists>s'. pf_step init s c = Inr s' \<and> pf_inv to thr all s' \<and> total_weight s' < total_weight s"
proof (cases c)
  case (StepTask k hf now)
  with c have k: "k < length (tasks s)" by simp
  obtain t p where x: "tasks s ! k = (t, p)" by fastforce
  have "(t, p) \<in> set (tasks s)" using k x by (metis nth_mem)
  then have "task_ok to thr t p" using inv by (auto simp: pf_inv_def)
  then obtain a t' p' where "task_step init hf now t p = Inr (a, t', p')" "step_good to thr t p a t' p'"
    using task_step_good [OF _ bounds(1,2)] by metis
  with perform_ok [OF inv k x] show ?thesis by (simp add: StepTask x)
next
  case (StepRelease k)
  with c release_ok [OF inv _ bounds(3), of k] show ?thesis by simp
qed

lemma weight_bound:
  assumes "w + n \<le> 10 * (unat to - b) + 8" "unat (to :: u64) < 2 ^ 60"
  shows "w < (2::nat) ^ 64 - 1"
proof -
  have "unat to - b \<le> unat to" by simp
  then have "w \<le> 10 * 1152921504606846976 + 8" using assms by simp
  then show ?thesis by simp
qed

lemma reach_inv:
  assumes ok: "loop_ok threads from to grainsize"
    and reach: "pf_reach init (ParallelFor_start m stack_empty threads from to grainsize) n s"
  shows "pf_inv to threads (mset (indices from to)) s
    \<and> total_weight s + n \<le> 10 * (unat to - unat from) + 8"
  using reach
proof induction
  case pf_start
  show ?case using start_inv [OF ok] start_weight by simp
next
  case (pf_next n s c s')
  have b: "unat to < 2 ^ 60" "unat threads < 2 ^ 31" using ok by (simp_all add: loop_ok_def)
  have "total_weight s < 2 ^ 64 - 1"
    using weight_bound [OF _ b(1)] pf_next.IH by blast
  from pf_step_ok [OF pf_next.IH [THEN conjunct1] pf_next.hyps(2) b this, of init] pf_next.hyps(3)
  have "pf_inv to threads (mset (indices from to)) s'" "total_weight s' < total_weight s" by auto
  with pf_next.IH show ?case by simp
qed

lemma reach_step_ok:
  assumes ok: "loop_ok threads from to grainsize"
    and reach: "pf_reach init (ParallelFor_start m stack_empty threads from to grainsize) n s"
    and c: "enabled s c"
  shows "\<exists>s'. pf_step init s c = Inr s'"
proof -
  have b: "unat to < 2 ^ 60" "unat threads < 2 ^ 31" using ok by (simp_all add: loop_ok_def)
  have "total_weight s < 2 ^ 64 - 1"
    using weight_bound [OF _ b(1)] reach_inv [OF ok reach] by blast
  from pf_step_ok [OF _ c b this] reach_inv [OF ok reach] show ?thesis by blast
qed

lemma children_pos: "0 < children ns n \<longleftrightarrow> (\<exists>m. live ns m \<and> Parent (ns ! m) = Some n)"
  by (auto simp: children_def live_def filter_empty_conv in_set_conv_nth) (metis nth_mem)

lemma returns_holders:
  assumes "store_ok s" "holders s 0 < 2 ^ 64"
  shows "returns s \<longleftrightarrow> holders s 0 = 1"
proof -
  note D = store_okD [OF assms(1), of 0]
  have l: "live (nodes s) 0" using D(1) by (simp add: holders_def)
  have "m_cnt (nodes s ! 0) = 1 \<longleftrightarrow> holders s 0 = 1"
    using D(2) [OF l] assms(2) of_nat_u64_inj [of "holders s 0" 1] by simp
  with l show ?thesis by (simp add: returns_def IntrusivePtrLoadRef_def)
qed

lemma only_root:
  assumes "store_ok s" "children (nodes s) 0 = 0"
  shows "live (nodes s) n \<longleftrightarrow> n = 0"
proof
  note D = store_okD [OF assms(1)]
  show "n = 0" if "live (nodes s) n"
    using that
  proof (induction n rule: less_induct)
    case (less n)
    show ?case
    proof (rule ccontr)
      assume "n \<noteq> 0"
      with less.prems D(3) obtain p where p: "Parent (nodes s ! n) = Some p" "p < n"
        using D(4) [of n] by (cases "Parent (nodes s ! n)") (auto simp: live_def)
      have ch: "0 < children (nodes s) p" using less.prems p children_pos by blast
      then have "live (nodes s) p" using D(1) by (simp add: holders_def)
      with less.IH p have "p = 0" by blast
      with ch assms(2) show False by simp
    qed
  qed
  show "live (nodes s) n" if "n = 0" using D(1) that by (simp add: holders_def)
qed

lemma idle_returns:
  assumes ok: "store_ok s" and idle: "tasks s = []" "releasing s = []"
  shows "holders s 0 = 1"
proof -
  note D = store_okD [OF ok]
  have h: "holders s n = of_bool (n = 0) + children (nodes s) n" for n by (simp add: holders_def idle)
  have "\<not> live (nodes s) (length (nodes s) - k)" if "k < length (nodes s)" for k
    using that
  proof (induction k rule: less_induct)
    case (less k)
    let ?n = "length (nodes s) - k"
    show ?case
    proof
      assume "live (nodes s) ?n"
      moreover have "?n \<noteq> 0" using less.prems by simp
      ultimately have "0 < children (nodes s) ?n" using D(1) [of ?n] h [of ?n] by simp
      then obtain m where m: "live (nodes s) m" "Parent (nodes s ! m) = Some ?n" using children_pos by blast
      then have "?n < m" "m < length (nodes s)" using D(4) [of m ?n] by (simp_all add: live_def)
      then have "length (nodes s) - m < k" "length (nodes s) - (length (nodes s) - m) = m"
        using less.prems by linarith+
      with less.IH [of "length (nodes s) - m"] less.prems m(1) show False by simp
    qed
  qed
  then have "\<not> live (nodes s) m" if "0 < m" for m
    using that by (metis diff_diff_cancel diff_less less_imp_le_nat live_def zero_less_iff_neq_zero
        length_greater_0_conv less_trans)
  then have "children (nodes s) 0 = 0"
    using children_pos [of "nodes s" 0] D(4) by (metis gr0I live_def not_less_zero)
  then show ?thesis by (simp add: h)
qed

lemma reach_progress:
  assumes "loop_ok threads from to grainsize"
    and "pf_reach init (ParallelFor_start m stack_empty threads from to grainsize) n s"
  shows "n \<le> 10 * (unat to - unat from) + 8 \<and> (returns s \<or> (\<exists>c. enabled s c))"
proof
  note R = reach_inv [OF assms]
  show "n \<le> 10 * (unat to - unat from) + 8" using R by simp
  have store: "store_ok s" using R by (simp add: pf_inv_def)
  show "returns s \<or> (\<exists>c. enabled s c)"
  proof (cases "tasks s = [] \<and> releasing s = []")
    case True
    then have "holders s 0 = 1" using idle_returns [OF store] by blast
    then show ?thesis using returns_holders [OF store] by simp
  next
    case False
    then have "enabled s (StepTask 0 False 0) \<or> enabled s (StepRelease 0)" by auto
    then show ?thesis by blast
  qed
qed

lemma return_state:
  assumes "loop_ok threads from to grainsize"
    and "pf_reach init (ParallelFor_start m stack_empty threads from to grainsize) n s"
    and "returns s"
  shows "mset (executed s) = mset (indices from to) \<and> tasks s = [] \<and> releasing s = []
    \<and> (\<forall>a. live (nodes s) a \<longleftrightarrow> a = 0)"
proof -
  note R = reach_inv [OF assms(1,2)]
  have store: "store_ok s" and oks: "\<forall>(t, p) \<in> set (tasks s). task_ok to threads t p"
    and all: "work s = mset (indices from to)"
    using R by (simp_all add: pf_inv_def)
  have "total_weight s < 2 ^ 64 - 1"
    using weight_bound [OF R [THEN conjunct2]] assms(1) by (simp add: loop_ok_def)
  then have "holders s 0 < 2 ^ 64" using holders_bound [OF oks, of 0] by simp
  then have one: "holders s 0 = 1" using returns_holders [OF store] assms(3) by blast
  then have "children (nodes s) 0 = 0" by (simp add: holders_def)
  note root = only_root [OF store this]
  have held: "n = 0" if "0 < holders s n" for n
    using that store_okD(1) [OF store] root by blast
  have "tasks s = []"
  proof (cases "tasks s")
    case (Cons tp ts)
    then have "holders s (CurrentNode (fst tp)) > 0" by (simp add: holders_def)
    with held have "CurrentNode (fst tp) = 0" by blast
    with Cons one show ?thesis by (simp add: holders_def)
  qed
  moreover have "releasing s = []"
  proof (cases "releasing s")
    case (Cons r rs)
    then have "holders s r > 0" by (simp add: holders_def)
    with held have "r = 0" by blast
    with Cons one show ?thesis by (simp add: holders_def)
  qed
  moreover from all have "mset (executed s) = mset (indices from to)"
    using \<open>tasks s = []\<close> by (simp add: work_def)
  ultimately show ?thesis using root by blast
qed

text \<open>
  C1: For a loop within the bounds of \<open>loop_ok\<close> (at least one thread and fewer than \<open>2 ^ 31\<close>, \<open>from \<le> to\<close>,
  \<open>to < 2 ^ 60\<close>, and \<open>to\<close> plus the grain size below \<open>2 ^ 64\<close>): when \<open>ParallelFor\<close> returns (the counter of its
  root node is 1), in whatever order its tasks and the releases of their nodes were interleaved, whatever the
  stack depth and the clock said and whichever of the four modes is compiled in, the loop body has been run at
  every index from \<open>from\<close> to \<open>to - 1\<close> exactly once and at no other, no task of the loop is left, and every
  node but the caller's own has been deleted.
\<close>

theorem ParallelFor_exactly_once:
  assumes "loop_ok threads from to grainsize"
    and "pf_reach init (ParallelFor_start m stack_empty threads from to grainsize) n s"
    and "returns s"
  shows "mset (executed s) = mset (indices from to) \<and> tasks s = [] \<and> releasing s = []
    \<and> (\<forall>a. live (nodes s) a \<longleftrightarrow> a = 0)"
  using assms by (rule return_state)

text \<open>
  C3: No step of a loop within the bounds of \<open>loop_ok\<close> (at least one thread, a range that is not reversed, \<open>to < 2 ^ 60\<close>,
  and \<open>to\<close> plus the grain size below \<open>2 ^ 64\<close>) fails: no assertion of \<open>DistributeWork\<close> is violated, nothing is divided by
  zero, no deleted node is used; and at every moment the indices run so far are some of the indices
  from \<open>from\<close> to \<open>to - 1\<close>, none of them twice.
\<close>

theorem ParallelFor_safe:
  assumes "loop_ok threads from to grainsize"
    and "pf_reach init (ParallelFor_start m stack_empty threads from to grainsize) n s"
    and "enabled s c"
  shows "(\<exists>s'. pf_step init s c = Inr s') \<and> distinct (executed s) \<and> set (executed s) \<subseteq> {i. from \<le> i \<and> i < to}"
proof -
  have sub: "mset (executed s) \<subseteq># mset (indices from to)"
    using reach_inv [OF assms(1,2)] unfolding pf_inv_def work_def by (metis mset_subset_eq_add_left)
  then have "set (executed s) \<subseteq> set (indices from to)" by (metis set_mset_mono set_mset_mset)
  moreover have "distinct (executed s)"
    using sub distinct_indices by (rule distinct_submset)
  ultimately show ?thesis using reach_step_ok [OF assms] by auto
qed

text \<open>
  C2: \<open>ParallelFor\<close> returns if the loop is within the bounds of \<open>loop_ok\<close> (at least one thread, \<open>from \<le> to\<close>,
  \<open>to < 2 ^ 60\<close>, and \<open>to\<close> plus the grain size below \<open>2 ^ 64\<close>, so not for grain sizes near \<open>2 ^ 64\<close>): a loop of N iterations takes at most 10 N + 8 steps, whatever is chosen,
  and as long as it cannot return some task or release can take a step.
\<close>

theorem ParallelFor_terminates:
  assumes "loop_ok threads from to grainsize"
    and "pf_reach init (ParallelFor_start m stack_empty threads from to grainsize) n s"
  shows "n \<le> 10 * (unat to - unat from) + 8 \<and> (returns s \<or> (\<exists>c. enabled s c))"
  using assms by (rule reach_progress)

section \<open>An example\<close>

fun pf_run :: "u64 \<Rightarrow> par_state \<Rightarrow> choice list \<Rightarrow> par_state option" where
  "pf_run init s [] = Some s"
| "pf_run init s (c # cs) =
     (if enabled s c then (case pf_step init s c of Inl e \<Rightarrow> None | Inr s \<Rightarrow> pf_run init s cs) else None)"

lemma pf_run_reach:
  "pf_reach init s0 n s \<Longrightarrow> pf_run init s cs = Some s' \<Longrightarrow> pf_reach init s0 (n + length cs) s'"
proof (induction cs arbitrary: n s)
  case (Cons c cs)
  then have c: "enabled s c" by (auto split: if_splits)
  with Cons.prems(2) obtain s1 where s1: "pf_step init s c = Inr s1" "pf_run init s1 cs = Some s'"
    by (auto split: sum.splits)
  from Cons.IH [OF pf_next [OF Cons.prems(1) c s1(1)] s1(2)] show ?case by simp
qed simp

text \<open>Two iterations on two threads, distributed and then run by the second thread first.\<close>

definition two_choices :: "choice list" where
  "two_choices = replicate 3 (StepTask 0 False 0) @ replicate 4 (StepTask 1 False 0)
     @ replicate 4 (StepTask 0 False 0) @ [StepTask 0 False 0, StepRelease 1, StepRelease 0, StepRelease 0]"

definition two_final :: par_state where
  "two_final = \<lparr>nodes = [(TaskNode None)\<lparr>m_cnt := 1\<rparr>, (TaskNode (Some 0))\<lparr>m_cnt := 0, alive := False\<rparr>],
     tasks = [], releasing = [], executed = [1, 0]\<rparr>"

lemma two_run:
  "pf_run 205000 (ParallelFor_start EIGEN_SHARING True 2 0 2 1) two_choices = Some two_final"
  by code_simp

lemma two_ok: "loop_ok 2 0 2 1"
  by (simp add: loop_ok_def)

lemma two_reach:
  "pf_reach 205000 (ParallelFor_start EIGEN_SHARING True 2 0 2 1) (0 + length two_choices) two_final"
  using pf_start two_run by (rule pf_run_reach)

lemma two_returns: "returns two_final"
  by (simp add: returns_def two_final_def IntrusivePtrLoadRef_def live_def TaskNode_def)

lemma two_indices: "indices 0 2 = [0, 1]"
  by (simp add: indices_Cons indices_Nil)

theorem ParallelFor_exactly_once_witness:
  "mset (executed two_final) = {#0, 1#}"
  using ParallelFor_exactly_once [OF two_ok two_reach two_returns] by (simp add: two_indices)

lemma two_started: "enabled (ParallelFor_start EIGEN_SHARING True 2 0 2 1) (StepTask 0 False 0)"
  by (simp add: ParallelFor_start_def Let_def)

theorem ParallelFor_safe_witness:
  "\<exists>s'. pf_step 205000 (ParallelFor_start EIGEN_SHARING True 2 0 2 1) (StepTask 0 False 0) = Inr s'"
  using ParallelFor_safe [OF two_ok pf_start two_started] by blast

theorem ParallelFor_terminates_witness:
  "length two_choices \<le> 28 \<and> (returns two_final \<or> (\<exists>c. enabled two_final c))"
  using ParallelFor_terminates [OF two_ok two_reach] by simp

section \<open>Outside the bounds\<close>

text \<open>
  What the bound on the grain size excludes.  With the largest grain size the sum in \<open>IsDivisible\<close>
  wraps around to \<open>Current_ - 1\<close>, so that a range of one iteration counts as divisible; its second
  half is the range itself.
\<close>

definition stuck_task :: "Task \<Rightarrow> pc \<Rightarrow> bool" where
  "stuck_task t p \<longleftrightarrow>
     SharingPolicy t = DISABLED \<and> BalancingPolicy t = STATIC \<and> Current t = 1 \<and> (End t = 1 \<or> End t = 2) \<and>
     GrainSize (Split t) = - 1 \<and>
     (p = Distribute \<or> p = Timespan \<or> p = Balance \<or> p = Drain \<and> End t = 1)"

definition stuck :: "par_state \<Rightarrow> bool" where
  "stuck s \<longleftrightarrow> executed s = [] \<and> (\<forall>(t, p) \<in> set (tasks s). stuck_task t p)
     \<and> (\<exists>(t, p) \<in> set (tasks s). End t = 2)"

fun deep_stack :: "choice \<Rightarrow> bool" where
  "deep_stack (StepTask k half_full now) \<longleftrightarrow> half_full"
| "deep_stack (StepRelease k) \<longleftrightarrow> False"

lemma stuck_step:
  assumes "stuck s" "enabled s c" "\<not> deep_stack c" "pf_step init s c = Inr s'"
  shows "stuck s'"
proof (cases c)
  case (StepRelease k)
  with assms(4) obtain ns rs where "s' = s\<lparr>nodes := ns, releasing := rs\<rparr>"
    by (auto split: sum.splits)
  with assms(1) show ?thesis by (simp add: stuck_def)
next
  case (StepTask k hf now)
  with assms have k: "k < length (tasks s)" and hf: "\<not> hf" by auto
  obtain t p where x: "tasks s ! k = (t, p)" by fastforce
  have mem: "(t, p) \<in> set (tasks s)" using k x by (metis nth_mem)
  then have t: "stuck_task t p" using assms(1) by (auto simp: stuck_def)
  obtain a t' p' where a: "task_step init hf now t p = Inr (a, t', p')" "perform k a (t', p') s = Inr s'"
    using assms(4) StepTask x by (auto split: sum.splits)
  obtain A B where ts: "tasks s = A @ (t, p) # B" and upd: "(tasks s)[k := (t', p')] = A @ (t', p') # B"
    and rem: "remove_at k (tasks s) = A @ B"
    using split_at [OF k] x by metis
  from t consider "p = Distribute \<or> p = Timespan" | "p = Balance" "End t = 1" | "p = Balance" "End t = 2"
    | "p = Drain" "End t = 1"
    by (auto simp: stuck_task_def)
  then show ?thesis
  proof cases
    case 1
    then have "a = Silent" "t' = t" "stuck_task t' p'"
      using a(1) t by (auto simp: stuck_task_def)
    then show ?thesis using assms(1) a(2) upd ts by (auto simp: stuck_def)
  next
    case 2
    then have "a = Silent" "t' = t" "stuck_task t' p'"
      using a(1) t by (auto simp: stuck_task_def)
    then show ?thesis using assms(1) a(2) upd ts by (auto simp: stuck_def)
  next
    case 3
    then have "IsDivisible hf t" using t hf by (simp add: stuck_task_def IsDivisible_def)
    with 3 have act: "a = NewTask None (fst (balance_task t))" "t' = snd (balance_task t)" "p' = Balance"
      using a(1) t by (auto simp: stuck_task_def split: prod.splits)
    have "stuck_task t' p'" "stuck_task (fst (balance_task t)) Distribute" "End (fst (balance_task t)) = 2"
      using t 3 act by (auto simp: stuck_task_def balance_task_def Let_def)
    moreover obtain n ns where "s' = s\<lparr>nodes := ns, tasks := (tasks s)[k := (t', p')]
        @ [((fst (balance_task t))\<lparr>CurrentNode := n\<rparr>, Distribute)]\<rparr>"
      using a(2) act(1) by (auto split: sum.splits)
    ultimately show ?thesis using assms(1) upd ts by (auto simp: stuck_def stuck_task_def)
  next
    case 4
    then have "a = Finish" "t' = t" using a(1) t by (auto simp: stuck_task_def)
    then show ?thesis using assms(1) a(2) rem ts 4 by (auto simp: stuck_def)
  qed
qed

text \<open>
  C11: With the largest grain size, the one-iteration loop from 1 to 2 in the mode without sharing is
  never run as long as the stacks stay less than half full: after any number of steps the body has
  not been called, and some task still has the iteration to do.
\<close>

theorem huge_grainsize_never_runs:
  assumes "pf_run init (ParallelFor_start EIGEN_STEALING True threads 1 2 (- 1)) cs = Some s"
    and "\<forall>c \<in> set cs. \<not> deep_stack c"
  shows "executed s = [] \<and> (\<exists>(t, p) \<in> set (tasks s). Current t = 1 \<and> End t = 2)"
proof -
  have "stuck s" if "pf_run init s0 cs = Some s" "stuck s0" for s0
    using that assms(2)
  proof (induction cs arbitrary: s0)
    case (Cons c cs)
    then have c: "enabled s0 c" by (auto split: if_splits)
    with Cons.prems(1) obtain s1 where s1: "pf_step init s0 c = Inr s1" "pf_run init s1 cs = Some s"
      by (auto split: sum.splits)
    then have "stuck s1" using stuck_step [OF Cons.prems(2) c] Cons.prems(3) by simp
    with Cons.IH s1(2) Cons.prems(3) show ?case by simp
  qed simp
  moreover have "max (- 1) 1 = (- 1 :: u64)" by code_simp
  then have "stuck (ParallelFor_start EIGEN_STEALING True threads 1 2 (- 1))"
    by (simp add: stuck_def stuck_task_def ParallelFor_start_def Let_def)
  ultimately have "stuck s" using assms(1) by blast
  then show ?thesis by (fastforce simp: stuck_def stuck_task_def)
qed

definition stuck_choices :: "choice list" where
  "stuck_choices = replicate 3 (StepTask 0 False 0) @ replicate 3 (StepTask 1 False 0)"

theorem huge_grainsize_never_runs_witness:
  "\<exists>s. pf_run 0 (ParallelFor_start EIGEN_STEALING True 4 1 2 (- 1)) stuck_choices = Some s
    \<and> executed s = [] \<and> length (tasks s) = 3"
proof -
  have "case pf_run 0 (ParallelFor_start EIGEN_STEALING True 4 1 2 (- 1)) stuck_choices of
      None \<Rightarrow> False | Some s \<Rightarrow> length (tasks s) = 3"
    by code_simp
  then obtain s where s: "pf_run 0 (ParallelFor_start EIGEN_STEALING True 4 1 2 (- 1)) stuck_choices = Some s"
    "length (tasks s) = 3" by (auto split: option.splits)
  have "\<forall>c \<in> set stuck_choices. \<not> deep_stack c" by (auto simp: stuck_choices_def)
  with s huge_grainsize_never_runs [OF s(1)] show ?thesis by blast
qed

text \<open>
  The range must not be reversed: called from 5 to 3, the loop that runs no iteration in the
  serial mode runs the body at 5 and goes on to 6, since the last phase of a task stops only where
  \<open>Current_\<close> meets \<open>End_\<close>.
\<close>

lemma reversed_range_runs:
  "map_option executed (pf_run 0 (ParallelFor_start EIGEN_SHARING True 4 5 3 1) (replicate 5 (StepTask 0 False 0)))
    = Some [5, 6]"
  by code_simp

end
