(* ===== verification/Loop_Contract.thy ===== *)
theory Loop_Contract
  imports Parallel_For
begin

text \<open>
  What the numeric kernels rely on in \<open>ParallelFor\<close> (src/include/parallel\_for.h): whatever order the
  indices are run in, the order is one of the indices \<open>from, \<dots>, to - 1\<close> without repetition, and
  there is one.  The locale \<open>parallel_loop\<close> states this and proves that bodies which commute compute
  what the serial loop computes.  It is interpreted on the serial loop of the \<open>SERIAL\<close> mode and on
  the partitioner of the \<open>EIGEN\<close> modes.
\<close>

section \<open>The contract\<close>

definition commuting :: "(u64 \<Rightarrow> 's \<Rightarrow> 's) \<Rightarrow> u64 \<Rightarrow> u64 \<Rightarrow> bool" where
  "commuting body from to \<longleftrightarrow>
     (\<forall>i j s. from \<le> i \<and> i < to \<and> from \<le> j \<and> j < to \<longrightarrow> body i (body j s) = body j (body i s))"

locale parallel_loop =
  fixes ok :: "u64 \<Rightarrow> u64 \<Rightarrow> bool"
    and order :: "u64 \<Rightarrow> u64 \<Rightarrow> u64 list \<Rightarrow> bool"
  assumes order_perm: "ok from to \<Longrightarrow> order from to xs \<Longrightarrow> mset xs = mset (indices from to)"
    and order_exists: "ok from to \<Longrightarrow> \<exists>xs. order from to xs"
begin

lemma order_set: "ok from to \<Longrightarrow> order from to xs \<Longrightarrow> i \<in> set xs \<longleftrightarrow> from \<le> i \<and> i < to"
  using mset_eq_setD [OF order_perm] by (simp only: set_indices)

lemma order_distinct: "ok from to \<Longrightarrow> order from to xs \<Longrightarrow> distinct xs"
  using mset_eq_imp_distinct_iff [OF order_perm] distinct_indices by blast

lemma commuting_serial:
  assumes "ok from to" "order from to xs" "commuting body from to"
  shows "fold body xs s = fold body (indices from to) s"
proof -
  have "body x \<circ> body y = body y \<circ> body x" if "x \<in> set xs" "y \<in> set xs" for x y
  proof (rule ext)
    fix s
    show "(body x \<circ> body y) s = (body y \<circ> body x) s"
      using that assms(3) unfolding order_set [OF assms(1,2)] commuting_def by simp
  qed
  then have "fold body xs = fold body (indices from to)"
    by (rule fold_multiset_equiv [OF _ order_perm [OF assms(1,2)]])
  then show ?thesis by simp
qed

end

section \<open>The serial loop\<close>

function serial_loop :: "u64 \<Rightarrow> u64 \<Rightarrow> u64 list" where
  "serial_loop i to = (if i < to then i # serial_loop (i + 1) to else [])"
  by pat_completeness auto
termination
proof (relation "measure (\<lambda>(i, to). unat to - unat i)")
  fix i to :: u64
  assume "i < to"
  then show "((i + 1, to), i, to) \<in> measure (\<lambda>(i, to). unat to - unat i)"
    by (simp add: word_less_nat_alt u64_Suc)
qed simp

declare serial_loop.simps [simp del]

lemma serial_loop_indices: "serial_loop from to = indices from to"
proof (induction "from" to rule: serial_loop.induct)
  case (1 i to)
  then show ?case by (subst serial_loop.simps) (simp add: indices_Cons indices_Nil not_less)
qed

interpretation serial: parallel_loop "\<lambda>_ _. True" "\<lambda>from to xs. xs = serial_loop from to"
  by unfold_locales (simp_all add: serial_loop_indices)

section \<open>The partitioner\<close>

text \<open>An order the partitioner can run the indices in: the log of a run that ends by returning.\<close>

definition eigen_order :: "u64 \<Rightarrow> mode \<Rightarrow> bool \<Rightarrow> u64 \<Rightarrow> u64 \<Rightarrow> u64 \<Rightarrow> u64 \<Rightarrow> u64 list \<Rightarrow> bool" where
  "eigen_order init m stack_empty threads grainsize from to xs \<longleftrightarrow>
     (\<exists>n s. pf_reach init (ParallelFor_start m stack_empty threads from to grainsize) n s
        \<and> returns s \<and> xs = executed s)"

lemma eigen_returns:
  assumes ok: "loop_ok threads from to grainsize"
    and reach: "pf_reach init (ParallelFor_start m stack_empty threads from to grainsize) n s"
  shows "\<exists>n s. pf_reach init (ParallelFor_start m stack_empty threads from to grainsize) n s \<and> returns s"
  using reach
proof (induction "10 * (unat to - unat from) + 8 - n" arbitrary: n s rule: less_induct)
  case less
  note T = reach_progress [OF ok less.prems]
  show ?case
  proof (cases "returns s")
    case False
    with T obtain c where c: "enabled s c" by blast
    with reach_step_ok [OF ok less.prems] obtain s' where "pf_step init s c = Inr s'" by blast
    from pf_next [OF less.prems c this] have next_one: "pf_reach init (ParallelFor_start m stack_empty threads from to grainsize) (Suc n) s'" .
    have "Suc n \<le> 10 * (unat to - unat from) + 8" using reach_progress [OF ok next_one] by blast
    then have "10 * (unat to - unat from) + 8 - Suc n < 10 * (unat to - unat from) + 8 - n" by linarith
    then show ?thesis by (rule less.hyps [OF _ next_one])
  qed (use less.prems in blast)
qed

interpretation eigen: parallel_loop "\<lambda>from to. loop_ok threads from to grainsize"
    "eigen_order init m stack_empty threads grainsize"
  for init m stack_empty threads grainsize
proof unfold_locales
  fix "from" to :: u64 and xs
  assume ok: "loop_ok threads from to grainsize"
  show "mset xs = mset (indices from to)" if "eigen_order init m stack_empty threads grainsize from to xs"
    using that return_state [OF ok] by (auto simp: eigen_order_def)
  show "\<exists>xs. eigen_order init m stack_empty threads grainsize from to xs"
    using eigen_returns [OF ok pf_start] by (auto simp: eigen_order_def)
qed

text \<open>A run of two iterations on two threads that starts with the second one.\<close>

lemma two_order: "eigen_order 205000 EIGEN_SHARING True 2 1 0 2 [1, 0]"
proof -
  have "[1, 0] = executed two_final" by (simp add: two_final_def)
  then show ?thesis using two_reach two_returns unfolding eigen_order_def by blast
qed

text \<open>
  For loop bodies that commute with each other, \<open>ParallelFor\<close> in every \<open>EIGEN\<close> mode computes what
  the \<open>SERIAL\<close> loop computes, and it can be run to its end.
\<close>

lemma ParallelFor_is_serial:
  assumes "loop_ok threads from to grainsize" "commuting body from to"
  shows "(\<exists>xs. eigen_order init m stack_empty threads grainsize from to xs)
    \<and> (\<forall>xs. eigen_order init m stack_empty threads grainsize from to xs
         \<longrightarrow> fold body xs s = fold body (serial_loop from to) s)"
  using eigen.order_exists [OF assms(1)] eigen.commuting_serial [OF assms(1) _ assms(2)]
  by (simp add: serial_loop_indices)

lemma ParallelFor_is_serial_example:
  "eigen_order 205000 EIGEN_SHARING True 2 1 0 2 [1, 0]
    \<and> fold (\<lambda>i (s :: u64). s + i) [1, 0] 5 = fold (\<lambda>i s. s + i) (serial_loop 0 2) 5"
proof
  show order: "eigen_order 205000 EIGEN_SHARING True 2 1 0 2 [1, 0]" by (rule two_order)
  have "commuting (\<lambda>i (s :: u64). s + i) 0 2" by (simp add: commuting_def)
  note same = ParallelFor_is_serial [OF two_ok this, of 205000 EIGEN_SHARING True 5]
  show "fold (\<lambda>i (s :: u64). s + i) [1, 0] 5 = fold (\<lambda>i s. s + i) (serial_loop 0 2) 5"
    by (rule same [THEN conjunct2, rule_format, OF order])
qed

end
