(* ===== verification/Deque_Spec.thy ===== *)
theory Deque_Spec
  imports Prelude
begin

text \<open>
  What the thread pool relies on in its per-thread queues: a bounded double-ended queue of work
  items.  The abstract queue is a list, front first; a pop from an empty queue returns the
  default-constructed item \<open>0\<close> (the null task pointer), a push into a full one returns false.  The
  locale \<open>work_deque\<close> states the contract an implementation has to meet and derives what its
  clients use: every history of operations gives the results the abstract queue gives, and no item
  is lost or duplicated.
\<close>

datatype 'w deque_op = PushF 'w | PopF | PushB 'w | PopB

datatype 'w deque_res = Pushed bool | Popped 'w

section \<open>The abstract queue\<close>

fun deque_step :: "nat \<Rightarrow> 'w::zero list \<Rightarrow> 'w deque_op \<Rightarrow> 'w deque_res \<times> 'w list" where
  "deque_step cap xs (PushF x) =
     (if length xs < cap then (Pushed True, x # xs) else (Pushed False, xs))"
| "deque_step cap xs PopF =
     (case xs of [] \<Rightarrow> (Popped 0, []) | y # ys \<Rightarrow> (Popped y, ys))"
| "deque_step cap xs (PushB x) =
     (if length xs < cap then (Pushed True, xs @ [x]) else (Pushed False, xs))"
| "deque_step cap xs PopB =
     (if xs = [] then (Popped 0, []) else (Popped (last xs), butlast xs))"

text \<open>A history: operations in the order they took effect, with their results.\<close>

fun run_ops :: "('q \<Rightarrow> 'o \<Rightarrow> 'r \<times> 'q) \<Rightarrow> 'q \<Rightarrow> 'o list \<Rightarrow> 'r list \<times> 'q" where
  "run_ops f q [] = ([], q)"
| "run_ops f q (op # ops) =
     (case f q op of (r, q1) \<Rightarrow> case run_ops f q1 ops of (rs, q2) \<Rightarrow> (r # rs, q2))"

fun accepted :: "'w deque_op list \<Rightarrow> 'w deque_res list \<Rightarrow> 'w list" where
  "accepted (PushF x # ops) (Pushed True # rs) = x # accepted ops rs"
| "accepted (PushB x # ops) (Pushed True # rs) = x # accepted ops rs"
| "accepted (_ # ops) (_ # rs) = accepted ops rs"
| "accepted _ _ = []"

fun removed :: "'w::zero deque_res list \<Rightarrow> 'w list" where
  "removed [] = []"
| "removed (Popped x # rs) = (if x = 0 then removed rs else x # removed rs)"
| "removed (_ # rs) = removed rs"

fun proper_op :: "'w::zero deque_op \<Rightarrow> bool" where
  "proper_op (PushF x) \<longleftrightarrow> x \<noteq> 0"
| "proper_op (PushB x) \<longleftrightarrow> x \<noteq> 0"
| "proper_op _ \<longleftrightarrow> True"

lemma deque_step_conserves:
  assumes "deque_step cap xs op = (r, ys)" "0 \<notin> set xs" "proper_op op"
  shows "mset (accepted [op] [r]) + mset xs = mset (removed [r]) + mset ys" "0 \<notin> set ys"
proof -
  have last: "mset xs = add_mset (last xs) (mset (butlast xs))" if "xs \<noteq> []"
    using that by (metis append_butlast_last_id mset.simps(2) mset_append union_mset_add_mset_right
        add.right_neutral mset.simps(1))
  have nz: "last xs \<noteq> 0" if "xs \<noteq> []" using that assms(2) last_in_set by metis
  show "mset (accepted [op] [r]) + mset xs = mset (removed [r]) + mset ys"
    using assms nz by (cases op) (auto split: if_splits list.splits simp: last)
  show "0 \<notin> set ys"
    using assms by (cases op) (auto split: if_splits list.splits dest: in_set_butlastD)
qed

lemma accepted_Cons:
  "accepted (op # ops) (r # rs) = accepted [op] [r] @ accepted ops rs"
  by (cases "(op # ops, r # rs)" rule: accepted.cases) auto

lemma removed_Cons: "removed (r # rs) = removed [r] @ removed rs"
  by (cases r) auto

lemma run_ops_conserves:
  assumes "run_ops (deque_step cap) xs ops = (rs, ys)" "0 \<notin> set xs" "\<forall>op \<in> set ops. proper_op op"
  shows "mset (accepted ops rs) + mset xs = mset (removed rs) + mset ys"
  using assms
proof (induction ops arbitrary: xs rs)
  case Nil
  then show ?case by simp
next
  case (Cons op ops)
  obtain r zs where step: "deque_step cap xs op = (r, zs)" by fastforce
  obtain rs' where rest: "run_ops (deque_step cap) zs ops = (rs', ys)" and rs: "rs = r # rs'"
    using Cons.prems(1) step by (auto split: prod.splits)
  note one = deque_step_conserves [OF step Cons.prems(2)]
  have "mset (accepted ops rs') + mset zs = mset (removed rs') + mset ys"
    using Cons.prems(3) one(2) by (intro Cons.IH [OF rest]) auto
  with one(1) Cons.prems(3)
  have "mset (accepted [op] [r]) + mset (accepted ops rs') + mset xs
      = mset (removed [r]) + mset (removed rs') + mset ys"
    by (intro balance_chain) auto
  then show ?case by (simp only: rs accepted_Cons [of op ops r rs'] removed_Cons [of r rs'] mset_append)
qed

section \<open>The contract\<close>

definition ops_step ::
  "('w \<Rightarrow> 'q \<Rightarrow> bool \<times> 'q) \<Rightarrow> ('q \<Rightarrow> 'w \<times> 'q) \<Rightarrow> ('w \<Rightarrow> 'q \<Rightarrow> bool \<times> 'q) \<Rightarrow> ('q \<Rightarrow> 'w \<times> 'q)
     \<Rightarrow> 'q \<Rightarrow> 'w deque_op \<Rightarrow> 'w deque_res \<times> 'q" where
  "ops_step pushf popf pushb popb q op =
     (case op of
        PushF x \<Rightarrow> (case pushf x q of (b, q) \<Rightarrow> (Pushed b, q))
      | PopF \<Rightarrow> (case popf q of (x, q) \<Rightarrow> (Popped x, q))
      | PushB x \<Rightarrow> (case pushb x q of (b, q) \<Rightarrow> (Pushed b, q))
      | PopB \<Rightarrow> (case popb q of (x, q) \<Rightarrow> (Popped x, q)))"

locale work_deque =
  fixes inv :: "'q \<Rightarrow> bool"
    and items :: "'q \<Rightarrow> 'w::zero list"
    and cap :: nat
    and push_front :: "'w \<Rightarrow> 'q \<Rightarrow> bool \<times> 'q"
    and pop_front :: "'q \<Rightarrow> 'w \<times> 'q"
    and push_back :: "'w \<Rightarrow> 'q \<Rightarrow> bool \<times> 'q"
    and pop_back :: "'q \<Rightarrow> 'w \<times> 'q"
  assumes bounded: "inv q \<Longrightarrow> length (items q) \<le> cap"
    and push_front_inv: "inv q \<Longrightarrow> push_front x q = (ok, q') \<Longrightarrow> inv q'"
    and push_front_items: "inv q \<Longrightarrow> push_front x q = (ok, q') \<Longrightarrow>
      (Pushed ok, items q') = deque_step cap (items q) (PushF x)"
    and pop_front_inv: "inv q \<Longrightarrow> pop_front q = (y, q') \<Longrightarrow> inv q'"
    and pop_front_items: "inv q \<Longrightarrow> pop_front q = (y, q') \<Longrightarrow>
      (Popped y, items q') = deque_step cap (items q) PopF"
    and push_back_inv: "inv q \<Longrightarrow> push_back x q = (ok, q') \<Longrightarrow> inv q'"
    and push_back_items: "inv q \<Longrightarrow> push_back x q = (ok, q') \<Longrightarrow>
      (Pushed ok, items q') = deque_step cap (items q) (PushB x)"
    and pop_back_inv: "inv q \<Longrightarrow> pop_back q = (y, q') \<Longrightarrow> inv q'"
    and pop_back_items: "inv q \<Longrightarrow> pop_back q = (y, q') \<Longrightarrow>
      (Popped y, items q') = deque_step cap (items q) PopB"
begin

abbreviation step :: "'q \<Rightarrow> 'w deque_op \<Rightarrow> 'w deque_res \<times> 'q" where
  "step \<equiv> ops_step push_front pop_front push_back pop_back"

lemma step_simulates:
  assumes "inv q" "step q op = (r, q')"
  shows "deque_step cap (items q) op = (r, items q')" "inv q'"
proof -
  have "deque_step cap (items q) op = (r, items q') \<and> inv q'"
  proof (cases op)
    case (PushF x)
    with assms(2) obtain ok where "push_front x q = (ok, q')" "r = Pushed ok"
      by (auto simp: ops_step_def split: prod.splits)
    with PushF push_front_items push_front_inv assms(1) show ?thesis by metis
  next
    case PopF
    with assms(2) obtain y where "pop_front q = (y, q')" "r = Popped y"
      by (auto simp: ops_step_def split: prod.splits)
    with PopF pop_front_items pop_front_inv assms(1) show ?thesis by metis
  next
    case (PushB x)
    with assms(2) obtain ok where "push_back x q = (ok, q')" "r = Pushed ok"
      by (auto simp: ops_step_def split: prod.splits)
    with PushB push_back_items push_back_inv assms(1) show ?thesis by metis
  next
    case PopB
    with assms(2) obtain y where "pop_back q = (y, q')" "r = Popped y"
      by (auto simp: ops_step_def split: prod.splits)
    with PopB pop_back_items pop_back_inv assms(1) show ?thesis by metis
  qed
  then show "deque_step cap (items q) op = (r, items q')" "inv q'" by blast+
qed

lemma history_simulates:
  assumes "inv q" "run_ops step q ops = (rs, q')"
  shows "run_ops (deque_step cap) (items q) ops = (rs, items q') \<and> inv q'"
  using assms
proof (induction ops arbitrary: q rs)
  case Nil
  then show ?case by simp
next
  case (Cons op ops)
  obtain r q1 where one: "step q op = (r, q1)" by fastforce
  obtain rs' where rest: "run_ops step q1 ops = (rs', q')" and rs: "rs = r # rs'"
    using Cons.prems(2) one by (auto split: prod.splits)
  note sim = step_simulates [OF Cons.prems(1) one]
  from Cons.IH [OF sim(2) rest] show ?case by (simp add: sim(1) rs)
qed

lemma history_conserves:
  assumes "inv q" "run_ops step q ops = (rs, q')" "0 \<notin> set (items q)"
    and "\<forall>op \<in> set ops. proper_op op"
  shows "mset (accepted ops rs) + mset (items q) = mset (removed rs) + mset (items q')"
  using history_simulates [OF assms(1,2)] run_ops_conserves assms(3,4) by blast

end

end
