(* ===== verification/Run_Queue.thy ===== *)
theory Run_Queue
  imports Deque_Spec
begin

text \<open>
  The work-stealing deque of every worker thread, \<open>RunQueue<Work, kSize>\<close> of
  src/include/eigen/run_queue.h, run by one thread at a time (Run\_Queue\_Conc holds the concurrent
  algorithm).  \<open>Work\<close> is any type with a default-constructed value, written \<open>0\<close>: the pool
  instantiates it with \<open>TaskPtr\<close>, whose default is the null pointer.  The template parameter
  \<open>kSize\<close> is an argument of every operation.
\<close>

section \<open>State\<close>

datatype elem_state = kEmpty | kBusy | kReady

record 'w elem =
  el_state :: elem_state
  el_w :: 'w

record 'w run_queue =
  rq_front :: u32
  rq_back :: u32
  rq_array :: "'w elem list"

definition kMask :: "u32 \<Rightarrow> u32" where
  "kMask kSize = kSize - 1"

definition kMask2 :: "u32 \<Rightarrow> u32" where
  "kMask2 kSize = push_bit 1 kSize - 1"

text \<open>The constructor; \<open>None\<close> where one of its assertions fails.\<close>

definition RunQueue :: "u32 \<Rightarrow> 'w::zero run_queue option" where
  "RunQueue kSize =
     (if kSize AND (kSize - 1) = 0 \<and> kSize > 2 \<and> kSize \<le> push_bit 10 64
      then Some \<lparr>rq_front = 0, rq_back = 0,
                 rq_array = replicate (unat kSize) \<lparr>el_state = kEmpty, el_w = 0\<rparr>\<rparr>
      else None)"

section \<open>Operations\<close>

definition store_state :: "nat \<Rightarrow> elem_state \<Rightarrow> 'w run_queue \<Rightarrow> 'w run_queue" where
  "store_state i s q = q\<lparr>rq_array := (rq_array q)[i := (rq_array q ! i)\<lparr>el_state := s\<rparr>]\<rparr>"

definition store_work :: "nat \<Rightarrow> 'w \<Rightarrow> 'w run_queue \<Rightarrow> 'w run_queue" where
  "store_work i x q = q\<lparr>rq_array := (rq_array q)[i := (rq_array q ! i)\<lparr>el_w := x\<rparr>]\<rparr>"

definition compare_exchange_state ::
  "nat \<Rightarrow> elem_state \<Rightarrow> elem_state \<Rightarrow> 'w run_queue \<Rightarrow> bool \<times> 'w run_queue" where
  "compare_exchange_state i expected desired q =
     (if el_state (rq_array q ! i) = expected then (True, store_state i desired q) else (False, q))"

definition PushFront :: "u32 \<Rightarrow> 'w \<Rightarrow> 'w run_queue \<Rightarrow> bool \<times> 'w run_queue" where
  "PushFront kSize x q =
     (let front = rq_front q;
          e = unat (front AND kMask kSize);
          s = el_state (rq_array q ! e)
      in if s \<noteq> kEmpty then (False, q)
         else case compare_exchange_state e s kBusy q of
           (False, q) \<Rightarrow> (False, q)
         | (True, q) \<Rightarrow>
             (let q = q\<lparr>rq_front := front + 1 + push_bit 1 kSize\<rparr>;
                  q = store_work e x q;
                  q = store_state e kReady q
              in (True, q)))"

definition PopFront :: "u32 \<Rightarrow> 'w::zero run_queue \<Rightarrow> 'w \<times> 'w run_queue" where
  "PopFront kSize q =
     (let front = rq_front q;
          e = unat ((front - 1) AND kMask kSize);
          s = el_state (rq_array q ! e)
      in if s \<noteq> kReady then (0, q)
         else case compare_exchange_state e s kBusy q of
           (False, q) \<Rightarrow> (0, q)
         | (True, q) \<Rightarrow>
             (let x = el_w (rq_array q ! e);
                  q = store_state e kEmpty q;
                  front = ((front - 1) AND kMask2 kSize) OR (front AND NOT (kMask2 kSize));
                  q = q\<lparr>rq_front := front\<rparr>
              in (x, q)))"

definition PushBack :: "u32 \<Rightarrow> 'w \<Rightarrow> 'w run_queue \<Rightarrow> bool \<times> 'w run_queue" where
  "PushBack kSize x q =
     (let back = rq_back q;
          e = unat ((back - 1) AND kMask kSize);
          s = el_state (rq_array q ! e)
      in if s \<noteq> kEmpty then (False, q)
         else case compare_exchange_state e s kBusy q of
           (False, q) \<Rightarrow> (False, q)
         | (True, q) \<Rightarrow>
             (let back = ((back - 1) AND kMask2 kSize) OR (back AND NOT (kMask2 kSize));
                  q = q\<lparr>rq_back := back\<rparr>;
                  q = store_work e x q;
                  q = store_state e kReady q
              in (True, q)))"

text \<open>
  \<open>CalculateSize\<close> computes in \<open>int\<close>: the comparisons are signed, and \<open>size += 2 * kSize\<close> is
  unsigned arithmetic converted back.
\<close>

definition CalculateSize :: "u32 \<Rightarrow> u32 \<Rightarrow> u32 \<Rightarrow> u32" where
  "CalculateSize kSize front back =
     (let size = (front AND kMask2 kSize) - (back AND kMask2 kSize);
          size = (if sint size < 0 then size + 2 * kSize else size);
          size = (if sint size > sint kSize then kSize else size)
      in size)"

text \<open>
  \<open>SizeOrNotEmpty\<close> re-reads both counters until it sees the same \<open>front\<close> twice.  Its loop is
  modelled over the list of values the two loads of each iteration return (\<open>back\<close>, then
  \<open>front1\<close>); the result is \<open>None\<close> while no iteration has seen a stable \<open>front\<close>.
\<close>

fun SizeOrNotEmpty_loop :: "bool \<Rightarrow> u32 \<Rightarrow> u32 \<Rightarrow> (u32 \<times> u32) list \<Rightarrow> u32 option" where
  "SizeOrNotEmpty_loop need kSize front [] = None"
| "SizeOrNotEmpty_loop need kSize front ((back, front1) # loads) =
     (if front \<noteq> front1 then SizeOrNotEmpty_loop need kSize front1 loads
      else if need then Some (CalculateSize kSize front back)
      else Some ((front XOR back) AND kMask2 kSize))"

text \<open>With no other thread running, the first iteration sees a stable \<open>front\<close>.\<close>

definition SizeOrNotEmpty :: "bool \<Rightarrow> u32 \<Rightarrow> 'w run_queue \<Rightarrow> u32" where
  "SizeOrNotEmpty need kSize q =
     the (SizeOrNotEmpty_loop need kSize (rq_front q) [(rq_back q, rq_front q)])"

definition Size :: "u32 \<Rightarrow> 'w run_queue \<Rightarrow> u32" where
  "Size kSize q = SizeOrNotEmpty True kSize q"

definition Empty :: "u32 \<Rightarrow> 'w run_queue \<Rightarrow> bool" where
  "Empty kSize q \<longleftrightarrow> SizeOrNotEmpty False kSize q = 0"

definition PopBack :: "u32 \<Rightarrow> 'w::zero run_queue \<Rightarrow> 'w \<times> 'w run_queue" where
  "PopBack kSize q =
     (if Empty kSize q then (0, q)
      else
        let back = rq_back q;
            e = unat (back AND kMask kSize);
            s = el_state (rq_array q ! e)
        in if s \<noteq> kReady then (0, q)
           else case compare_exchange_state e s kBusy q of
             (False, q) \<Rightarrow> (0, q)
           | (True, q) \<Rightarrow>
               (let x = el_w (rq_array q ! e);
                    q = store_state e kEmpty q;
                    q = q\<lparr>rq_back := back + 1 + push_bit 1 kSize\<rparr>
                in (x, q)))"

text \<open>
  The loop of \<open>PopBackHalf\<close> walks from the middle of the queue down to \<open>back\<close>; its guard
  compares the distance as a signed integer.  The outcome \<open>None\<close> is a failure of the assertion
  on the elements below the first one taken.
\<close>

function PopBackHalf_loop ::
  "u32 \<Rightarrow> u32 \<Rightarrow> u32 \<Rightarrow> u32 \<Rightarrow> u32 \<Rightarrow> 'w list \<Rightarrow> 'w run_queue
     \<Rightarrow> (u32 \<times> u32 \<times> 'w list \<times> 'w run_queue) option" where
  "PopBackHalf_loop kSize back mid n start result q =
     (if sint (mid - back) \<ge> 0 then
        (let e = unat (mid AND kMask kSize);
             s = el_state (rq_array q ! e)
         in if n = 0 then
              (if s \<noteq> kReady then PopBackHalf_loop kSize back (mid - 1) n start result q
               else case compare_exchange_state e s kBusy q of
                 (False, q) \<Rightarrow> PopBackHalf_loop kSize back (mid - 1) n start result q
               | (True, q) \<Rightarrow>
                   PopBackHalf_loop kSize back (mid - 1) (n + 1) mid
                     (result @ [el_w (rq_array q ! e)]) (store_state e kEmpty q))
            else if s \<noteq> kReady then None
            else PopBackHalf_loop kSize back (mid - 1) (n + 1) start
                   (result @ [el_w (rq_array q ! e)]) (store_state e kEmpty q))
      else Some (n, start, result, q))"
  by pat_completeness auto
termination
proof (relation "measure (\<lambda>(kSize, back, mid, n, start, result, q). nat (sint (mid - back) + 1))")
qed (auto simp: sint_diff_pred)

declare PopBackHalf_loop.simps [simp del]

definition PopBackHalf ::
  "u32 \<Rightarrow> 'w list \<Rightarrow> 'w run_queue \<Rightarrow> (u32 \<times> 'w list \<times> 'w run_queue) option" where
  "PopBackHalf kSize result q =
     (if Empty kSize q then Some (0, result, q)
      else
        let back = rq_back q;
            size = Size kSize q;
            mid = (if size > 1 then back + (size - 1) div 2 else back)
        in case PopBackHalf_loop kSize back mid 0 0 result q of
             None \<Rightarrow> None
           | Some (n, start, result, q) \<Rightarrow>
               Some (n, result,
                 if n \<noteq> 0 then q\<lparr>rq_back := start + 1 + push_bit 1 kSize\<rparr> else q))"

partial_function (option) Flush :: "u32 \<Rightarrow> 'w::zero run_queue \<Rightarrow> 'w run_queue option" where
  "Flush kSize q =
     (if \<not> Empty kSize q then Flush kSize (snd (PopFront kSize q)) else Some q)"

text \<open>The destructor only asserts that the queue is empty.\<close>

definition RunQueue_destructor_ok :: "u32 \<Rightarrow> 'w run_queue \<Rightarrow> bool" where
  "RunQueue_destructor_ok kSize q \<longleftrightarrow> Size kSize q = 0"

section \<open>The template parameter\<close>

definition valid_kSize :: "u32 \<Rightarrow> bool" where
  "valid_kSize kSize \<longleftrightarrow> kSize AND (kSize - 1) = 0 \<and> kSize > 2 \<and> kSize \<le> push_bit 10 64"

lemma valid_kSizeE:
  assumes "valid_kSize kSize"
  obtains k where "kSize = 2 ^ k" "unat kSize = 2 ^ k" "2 \<le> k" "k \<le> 16"
proof -
  from assms have gt: "2 < unat kSize" and le: "unat kSize \<le> 2 ^ 16"
    by (auto simp: valid_kSize_def word_less_nat_alt word_le_nat_alt)
  have "unat (kSize AND (kSize - 1)) = unat kSize AND (unat kSize - 1)"
    using gt by (simp add: unsigned_and_eq unat_sub word_le_nat_alt)
  with assms have "unat kSize AND (unat kSize - 1) = 0" by (simp add: valid_kSize_def)
  with gt obtain k where k: "unat kSize = 2 ^ k" using nat_and_pred_zero [of "unat kSize"] by auto
  have "k \<le> 16" using le k power_le_imp_le_exp [of "2::nat" k 16] by simp
  moreover have "2 \<le> k"
  proof (rule ccontr)
    assume "\<not> 2 \<le> k"
    then have "k = 0 \<or> k = 1" by arith
    with k gt show False by auto
  qed
  moreover have "kSize = 2 ^ k"
    using arg_cong [OF k, of "of_nat :: nat \<Rightarrow> u32"] by simp
  ultimately show thesis using k that by blast
qed

section \<open>Positions\<close>

text \<open>
  The low \<open>log kSize + 1\<close> bits of a counter are the position; the bits above count
  modifications and take no part in the index computations.
\<close>

definition rq_pos :: "u32 \<Rightarrow> u32 \<Rightarrow> nat" where
  "rq_pos kSize x = unat (x AND kMask2 kSize)"

definition rq_len :: "u32 \<Rightarrow> 'w run_queue \<Rightarrow> nat" where
  "rq_len kSize q =
     (rq_pos kSize (rq_front q) + 2 * unat kSize - rq_pos kSize (rq_back q)) mod (2 * unat kSize)"

lemma kMask2_mask: "k \<le> 16 \<Longrightarrow> kMask2 (2 ^ k) = mask (Suc k)"
  by (simp add: kMask2_def mask_eq_decr_exp push_bit_eq_mult)

lemma kMask_mask: "kMask (2 ^ k) = mask k"
  by (simp add: kMask_def mask_eq_decr_exp)

lemma rq_pos_pow: "k \<le> 16 \<Longrightarrow> rq_pos (2 ^ k) x = unat x mod 2 ^ Suc k"
  by (simp only: rq_pos_def kMask2_mask unat_and_mask)

lemma rq_pos_less [ring_simps]:
  assumes "valid_kSize kSize"
  shows "rq_pos kSize x < 2 * unat kSize"
  using assms by (elim valid_kSizeE) (simp add: rq_pos_pow)

lemma rq_idx [ring_simps]:
  assumes "valid_kSize kSize"
  shows "unat (x AND kMask kSize) = rq_pos kSize x mod unat kSize"
  using assms
  by (elim valid_kSizeE) (simp only: rq_pos_pow kMask_mask unat_and_mask mod_pow_le le_SucI order_refl)

lemma rq_idx_pred [ring_simps]:
  assumes "valid_kSize kSize"
  shows "unat ((x - 1) AND kMask kSize) = (rq_pos kSize x + (unat kSize - 1)) mod unat kSize"
proof -
  from assms obtain k where k: "kSize = 2 ^ k" "unat kSize = 2 ^ k" "k \<le> 16"
    by (elim valid_kSizeE)
  have "unat ((x - 1) AND kMask kSize) = (unat x + (2 ^ k - 1)) mod 2 ^ k"
    using k by (simp add: kMask_mask unat_and_mask unat_pred_mod_pow)
  also have "\<dots> = (unat x mod 2 ^ Suc k + (2 ^ k - 1)) mod 2 ^ k"
    by (metis mod_add_left_eq mod_pow_le le_SucI order_refl)
  finally show ?thesis using k by (simp only: rq_pos_pow)
qed

lemma rq_pos_push [ring_simps]:
  assumes "valid_kSize kSize"
  shows "rq_pos kSize (x + 1 + push_bit 1 kSize) = (rq_pos kSize x + 1) mod (2 * unat kSize)"
proof -
  from assms obtain k where k: "kSize = 2 ^ k" "unat kSize = 2 ^ k" "k \<le> 16"
    by (elim valid_kSizeE)
  have "push_bit 1 kSize = (of_nat (2 ^ Suc k) :: u32)" using k by (simp add: push_bit_eq_mult)
  then have shift: "unat (push_bit 1 kSize) mod 2 ^ Suc k = 0"
    using k mod_pow_le [of "Suc k" "LENGTH(32)" "2 ^ Suc k"] by (simp only: unat_of_nat) simp
  have "unat (x + 1 + push_bit 1 kSize) mod 2 ^ Suc k
      = (unat (x + 1) + unat (push_bit 1 kSize)) mod 2 ^ Suc k"
    using k by (intro unat_add_mod_pow) simp
  also have "\<dots> = (unat (x + 1) + unat (push_bit 1 kSize) mod 2 ^ Suc k) mod 2 ^ Suc k"
    by (rule mod_add_right_eq [symmetric])
  also have "\<dots> = unat (x + 1) mod 2 ^ Suc k" by (simp only: shift add_0_right)
  also have "\<dots> = (unat x + 1) mod 2 ^ Suc k"
    using k unat_add_mod_pow [of "Suc k" x 1] by simp
  also have "\<dots> = (unat x mod 2 ^ Suc k + 1) mod 2 ^ Suc k" by (rule mod_add_left_eq [symmetric])
  finally show ?thesis using k by (simp only: rq_pos_pow power_Suc)
qed

lemma rq_pos_pop [ring_simps]:
  assumes "valid_kSize kSize"
  shows "rq_pos kSize (((x - 1) AND kMask2 kSize) OR (x AND NOT (kMask2 kSize)))
    = (rq_pos kSize x + (2 * unat kSize - 1)) mod (2 * unat kSize)"
proof -
  from assms obtain k where k: "kSize = 2 ^ k" "unat kSize = 2 ^ k" "k \<le> 16"
    by (elim valid_kSizeE)
  have "unat ((x - 1) AND kMask2 kSize) = (unat x + (2 ^ Suc k - 1)) mod 2 ^ Suc k"
    using k by (simp only: kMask2_mask unat_and_mask) (rule unat_pred_mod_pow, simp)
  also have "\<dots> = (unat x mod 2 ^ Suc k + (2 ^ Suc k - 1)) mod 2 ^ Suc k"
    by (rule mod_add_left_eq [symmetric])
  finally show ?thesis
    using k by (simp only: rq_pos_def and_or_not_mask) (simp only: kMask2_mask unat_and_mask power_Suc)
qed

lemma rq_lenI:
  assumes "valid_kSize kSize" "n < 2 * unat kSize"
    and "rq_pos kSize (rq_front q) = (rq_pos kSize (rq_back q) + n) mod (2 * unat kSize)"
  shows "rq_len kSize q = n"
proof -
  let ?K = "2 * unat kSize" and ?b = "rq_pos kSize (rq_back q)"
  have b: "?b < ?K" by (rule rq_pos_less [OF assms(1)])
  have "rq_len kSize q = ((?b + n) mod ?K + (?K - ?b)) mod ?K"
    using assms(3) b by (simp add: rq_len_def)
  also have "\<dots> = (?b + n + (?K - ?b)) mod ?K" by (rule mod_add_left_eq)
  also have "\<dots> = n" using b assms(2) by simp
  finally show ?thesis .
qed

lemma rq_front_pos:
  assumes "valid_kSize kSize"
  shows "rq_pos kSize (rq_front q) = (rq_pos kSize (rq_back q) + rq_len kSize q) mod (2 * unat kSize)"
proof -
  let ?K = "2 * unat kSize" and ?b = "rq_pos kSize (rq_back q)" and ?f = "rq_pos kSize (rq_front q)"
  have less: "?b < ?K" "?f < ?K" by (rule rq_pos_less [OF assms])+
  have "(?b + rq_len kSize q) mod ?K = (?b + (?f + ?K - ?b)) mod ?K"
    unfolding rq_len_def by (rule mod_add_right_eq)
  also have "\<dots> = ?f" using less by simp
  finally show ?thesis by simp
qed

lemma rq_len_less: "valid_kSize kSize \<Longrightarrow> rq_len kSize q < 2 * unat kSize"
  using rq_pos_less [of kSize 0] by (simp add: rq_len_def)

lemma mod_double: "(a mod (2 * k)) mod k = a mod (k::nat)"
  by (simp add: mod_mod_cancel)

lemma rq_front_idx:
  assumes "valid_kSize kSize"
  shows "rq_pos kSize (rq_front q) mod unat kSize
    = (rq_pos kSize (rq_back q) + rq_len kSize q) mod unat kSize"
  by (subst rq_front_pos [OF assms]) (rule mod_double)

section \<open>The occupied region\<close>

text \<open>
  The occupied elements are logically continuous: \<open>n\<close> ready ones from position \<open>b\<close> upwards,
  every other one empty.
\<close>

definition ring_ok :: "nat \<Rightarrow> 'w elem list \<Rightarrow> nat \<Rightarrow> nat \<Rightarrow> bool" where
  "ring_ok K a b n \<longleftrightarrow> length a = K \<and> n \<le> K \<and>
     (\<forall>j<K. el_state (a ! ((b + j) mod K)) = (if j < n then kReady else kEmpty))"

definition ring_items :: "nat \<Rightarrow> 'w elem list \<Rightarrow> nat \<Rightarrow> nat \<Rightarrow> 'w list" where
  "ring_items K a b n = map (\<lambda>j. el_w (a ! ((b + j) mod K))) [0..<n]"

lemma ring_cong:
  assumes "b mod K = b' mod K"
  shows "ring_ok K a b n = ring_ok K a b' n" "ring_items K a b n = ring_items K a b' n"
proof -
  have "(b + j) mod K = (b' + j) mod K" for j using assms by (metis mod_add_left_eq)
  then show "ring_ok K a b n = ring_ok K a b' n" "ring_items K a b n = ring_items K a b' n"
    by (simp_all add: ring_ok_def ring_items_def)
qed

lemma ring_shift:
  assumes "0 < K"
  shows "(b + (K - 1) + Suc j) mod K = (b + j) mod (K::nat)"
proof -
  have "b + (K - 1) + Suc j = b + j + K" using assms by simp
  then show ?thesis by (simp only: mod_add_self2)
qed

lemma ring_push_front:
  assumes "ring_ok K a b n" "n < K"
  shows "ring_ok K (a[(b + n) mod K := \<lparr>el_state = kReady, el_w = x\<rparr>]) b (Suc n)"
    and "ring_items K (a[(b + n) mod K := \<lparr>el_state = kReady, el_w = x\<rparr>]) b (Suc n)
      = ring_items K a b n @ [x]"
  using assms by (auto simp: ring_ok_def ring_items_def nth_list_update ring_simps)

lemma ring_pop_front:
  assumes "ring_ok K a b (Suc n)"
  shows "ring_ok K (a[(b + n) mod K := \<lparr>el_state = kEmpty, el_w = x\<rparr>]) b n"
    and "ring_items K (a[(b + n) mod K := \<lparr>el_state = kEmpty, el_w = x\<rparr>]) b n = ring_items K a b n"
  using assms by (auto simp: ring_ok_def ring_items_def nth_list_update ring_simps)

lemma ring_items_Suc:
  "ring_items K a b (Suc n) = ring_items K a b n @ [el_w (a ! ((b + n) mod K))]"
  by (simp add: ring_items_def)

lemma ring_items_Cons:
  "ring_items K a b (Suc n) = el_w (a ! (b mod K)) # ring_items K a (Suc b) n"
  by (simp add: ring_items_def map_upt_Suc del: upt_Suc)

lemma length_ring_items [simp]: "length (ring_items K a b n) = n"
  by (simp add: ring_items_def)

lemma ring_pop_back:
  assumes ok: "ring_ok K a b (Suc n)"
  shows "ring_ok K (a[b mod K := \<lparr>el_state = kEmpty, el_w = x\<rparr>]) (Suc b) n" (is "ring_ok K ?a _ _")
    and "ring_items K (a[b mod K := \<lparr>el_state = kEmpty, el_w = x\<rparr>]) (Suc b) n
      = ring_items K a (Suc b) n"
proof -
  have K: "Suc n \<le> K" "length a = K"
    and st: "\<And>j. j < K \<Longrightarrow> el_state (a ! ((b + j) mod K)) = (if j < Suc n then kReady else kEmpty)"
    using ok by (auto simp: ring_ok_def)
  have other: "?a ! ((b + j) mod K) = a ! ((b + j) mod K)" if "0 < j" "j < K" for j
    using ring_inj [of 0 K j b] that K by (auto simp: nth_list_update)
  have "el_state (?a ! ((Suc b + j) mod K)) = (if j < n then kReady else kEmpty)" if "j < K" for j
  proof (cases "Suc j < K")
    case True
    then show ?thesis using other [of "Suc j"] st [of "Suc j"] by simp
  next
    case False
    with that have "Suc j = K" by simp
    then have "(Suc b + j) mod K = b mod K" by (metis add_Suc_shift mod_add_self2)
    then show ?thesis using K \<open>Suc j = K\<close> by simp
  qed
  then show "ring_ok K ?a (Suc b) n" using K by (simp add: ring_ok_def)
  show "ring_items K ?a (Suc b) n = ring_items K a (Suc b) n"
    using other [of "Suc _"] K by (simp add: ring_items_def)
qed

lemma ring_push_back:
  assumes ok: "ring_ok K a b n" and n: "n < K"
  shows "ring_ok K (a[(b + (K - 1)) mod K := \<lparr>el_state = kReady, el_w = x\<rparr>]) (b + (K - 1)) (Suc n)"
      (is "ring_ok K ?a ?b _")
    and "ring_items K (a[(b + (K - 1)) mod K := \<lparr>el_state = kReady, el_w = x\<rparr>]) (b + (K - 1)) (Suc n)
      = x # ring_items K a b n"
proof -
  have K: "length a = K" "0 < K"
    and st: "\<And>j. j < K \<Longrightarrow> el_state (a ! ((b + j) mod K)) = (if j < n then kReady else kEmpty)"
    using ok n by (auto simp: ring_ok_def)
  have other: "?a ! ((?b + Suc j) mod K) = a ! ((b + j) mod K)" if "Suc j < K" for j
  proof -
    have "?b mod K \<noteq> (b + j) mod K" using ring_inj [of "K - 1" K j b] that by simp
    then show ?thesis by (simp only: ring_shift [OF K(2)] nth_list_update_neq not_False_eq_True)
  qed
  have here: "?a ! (?b mod K) = \<lparr>el_state = kReady, el_w = x\<rparr>" using K by simp
  have "el_state (?a ! ((?b + j) mod K)) = (if j < Suc n then kReady else kEmpty)" if "j < K" for j
    using that here other [of "j - 1"] st [of "j - 1"] by (cases j) auto
  then show "ring_ok K ?a ?b (Suc n)" using K n by (simp add: ring_ok_def)
  have "ring_items K ?a (Suc ?b) n = ring_items K a b n"
    using other n by (simp add: ring_items_def)
  then show "ring_items K ?a ?b (Suc n) = x # ring_items K a b n"
    using here by (simp add: ring_items_Cons)
qed

section \<open>Invariant and contents\<close>

definition rq_inv :: "u32 \<Rightarrow> 'w run_queue \<Rightarrow> bool" where
  "rq_inv kSize q \<longleftrightarrow> valid_kSize kSize \<and>
     ring_ok (unat kSize) (rq_array q) (rq_pos kSize (rq_back q)) (rq_len kSize q)"

text \<open>The contents, from the front of the queue to its back.\<close>

definition rq_items :: "u32 \<Rightarrow> 'w run_queue \<Rightarrow> 'w list" where
  "rq_items kSize q =
     rev (ring_items (unat kSize) (rq_array q) (rq_pos kSize (rq_back q)) (rq_len kSize q))"

lemma rq_invD:
  assumes "rq_inv kSize q"
  shows "valid_kSize kSize" "0 < unat kSize" "length (rq_array q) = unat kSize"
    "rq_len kSize q \<le> unat kSize"
    "ring_ok (unat kSize) (rq_array q) (rq_pos kSize (rq_back q)) (rq_len kSize q)"
    "\<And>j. j < unat kSize \<Longrightarrow>
       el_state (rq_array q ! ((rq_pos kSize (rq_back q) + j) mod unat kSize))
         = (if j < rq_len kSize q then kReady else kEmpty)"
  using assms rq_pos_less [of kSize 0] by (auto simp: rq_inv_def ring_ok_def)

lemma length_rq_items [simp]: "length (rq_items kSize q) = rq_len kSize q"
  by (simp add: rq_items_def)

lemma elem_update:
  "(r :: 'w elem)\<lparr>el_w := x\<rparr> = \<lparr>el_state = el_state r, el_w = x\<rparr>"
  "(r :: 'w elem)\<lparr>el_state := s\<rparr> = \<lparr>el_state = s, el_w = el_w r\<rparr>"
  by (cases r; simp)+

lemma rq_write:
  assumes "e < length (rq_array q)"
  shows "rq_array (store_work e x q) = (rq_array q)[e := \<lparr>el_state = el_state (rq_array q ! e), el_w = x\<rparr>]"
    "rq_array (store_state e s q) = (rq_array q)[e := \<lparr>el_state = s, el_w = el_w (rq_array q ! e)\<rparr>]"
  using assms by (auto simp: store_state_def store_work_def elem_update)

lemma store_frame [simp]:
  "rq_front (store_state e s q) = rq_front q" "rq_back (store_state e s q) = rq_back q"
  "rq_front (store_work e x q) = rq_front q" "rq_back (store_work e x q) = rq_back q"
  "length (rq_array (store_state e s q)) = length (rq_array q)"
  "length (rq_array (store_work e x q)) = length (rq_array q)"
  by (simp_all add: store_state_def store_work_def)

lemma store_overwrite [simp]:
  "rq_array (store_state e s (store_work e x (store_state e s' q)))
    = rq_array (store_state e s (store_work e x q))"
  "rq_array (store_state e s (store_state e s' q)) = rq_array (store_state e s q)"
proof -
  have "rq_array (store_state e s (store_work e x (store_state e s' q)))
      = rq_array (store_state e s (store_work e x q)) \<and>
    rq_array (store_state e s (store_state e s' q)) = rq_array (store_state e s q)"
  proof (cases "e < length (rq_array q)")
    case True
    then show ?thesis by (simp add: rq_write)
  next
    case False
    then show ?thesis by (simp add: store_state_def store_work_def list_update_beyond)
  qed
  then show "rq_array (store_state e s (store_work e x (store_state e s' q)))
      = rq_array (store_state e s (store_work e x q))"
    "rq_array (store_state e s (store_state e s' q)) = rq_array (store_state e s q)" by blast+
qed

lemma store_state_twice [simp]: "store_state e s (store_state e s' q) = store_state e s q"
  by (cases "e < length (rq_array q)") (simp_all add: store_state_def elem_update list_update_beyond)

lemma el_w_store_state [simp]: "el_w (rq_array (store_state e s q) ! i) = el_w (rq_array q ! i)"
  by (cases "e < length (rq_array q)")
    (auto simp: store_state_def nth_list_update list_update_beyond)

text \<open>
  To establish the invariant for a changed queue: its region, and the two counters' positions.
\<close>

lemma rq_invI:
  assumes "valid_kSize kSize" "ring_ok (unat kSize) (rq_array q) b n"
    and "rq_pos kSize (rq_back q) mod unat kSize = b mod unat kSize"
    and "rq_pos kSize (rq_front q) = (rq_pos kSize (rq_back q) + n) mod (2 * unat kSize)"
  shows "rq_inv kSize q" "rq_items kSize q = rev (ring_items (unat kSize) (rq_array q) b n)"
    "rq_len kSize q = n"
proof -
  have "n < 2 * unat kSize"
    using assms(2) rq_pos_less [OF assms(1), of 0] by (simp add: ring_ok_def)
  then show len: "rq_len kSize q = n" using assms by (intro rq_lenI)
  note cong = ring_cong [OF assms(3)]
  show "rq_inv kSize q" "rq_items kSize q = rev (ring_items (unat kSize) (rq_array q) b n)"
    using assms(1,2) by (simp_all add: rq_inv_def rq_items_def len cong)
qed

section \<open>Each operation implements the abstract queue\<close>

lemma rev_snoc_cases:
  "deque_step K (rev ys) (PushF x) = (if length ys < K then (Pushed True, rev (ys @ [x])) else (Pushed False, rev ys))"
  "deque_step K (rev ys) (PushB x) = (if length ys < K then (Pushed True, rev (x # ys)) else (Pushed False, rev ys))"
  "deque_step K (rev (ys @ [x])) PopF = (Popped x, rev ys)"
  "deque_step K (rev (x # ys)) PopB = (Popped x, rev ys)"
  "deque_step K [] PopF = (Popped 0, [])" "deque_step K [] PopB = (Popped 0, [])"
  by simp_all

lemma PushFront_full:
  "rq_inv kSize q \<Longrightarrow> rq_len kSize q = unat kSize \<Longrightarrow> PushFront kSize x q = (False, q)"
  using rq_invD(6) [of kSize q 0] rq_invD(1,2) [of kSize q]
  by (auto simp: PushFront_def Let_def rq_idx rq_front_idx)

lemma PushFront_room:
  assumes inv: "rq_inv kSize q" and room: "rq_len kSize q < unat kSize"
    and push: "PushFront kSize x q = (ok, q')"
  shows "ok" "rq_inv kSize q'" "rq_items kSize q' = x # rq_items kSize q"
proof -
  let ?K = "unat kSize" and ?b = "rq_pos kSize (rq_back q)" and ?n = "rq_len kSize q"
  note D = rq_invD [OF inv]
  have e: "unat (rq_front q AND kMask kSize) = (?b + ?n) mod ?K"
    using D(1) by (simp add: rq_idx rq_front_idx)
  have st: "el_state (rq_array q ! ((?b + ?n) mod ?K)) = kEmpty" using D(6) [OF room] by simp
  have q': "ok" "rq_front q' = rq_front q + 1 + push_bit 1 kSize" "rq_back q' = rq_back q"
    "rq_array q' = (rq_array q)[(?b + ?n) mod ?K := \<lparr>el_state = kReady, el_w = x\<rparr>]"
    using push st D(2,3)
    by (auto simp: PushFront_def Let_def e compare_exchange_state_def rq_write)
  have "rq_pos kSize (rq_front q') = (rq_pos kSize (rq_front q) + 1) mod (2 * ?K)"
    using D(1) by (simp only: q' rq_pos_push)
  also have "\<dots> = (?b + ?n + 1) mod (2 * ?K)"
    by (simp only: rq_front_pos [OF D(1)] mod_add_left_eq)
  finally have front: "rq_pos kSize (rq_front q') = (rq_pos kSize (rq_back q') + Suc ?n) mod (2 * ?K)"
    by (simp add: q')
  note R = ring_push_front [OF D(5) room, of x, folded q'(4)]
  have "rq_pos kSize (rq_back q') mod ?K = ?b mod ?K" by (simp add: q')
  note I = rq_invI [OF D(1) R(1) this front]
  show "ok" by (rule q'(1))
  show "rq_inv kSize q'" by (rule I(1))
  show "rq_items kSize q' = x # rq_items kSize q" by (simp add: I(2) R(2)) (simp add: rq_items_def)
qed

lemma PopFront_empty:
  assumes inv: "rq_inv kSize q" and "rq_len kSize q = 0"
  shows "PopFront kSize q = (0, q)"
proof -
  note D = rq_invD [OF inv]
  let ?K = "unat kSize"
  have "unat ((rq_front q - 1) AND kMask kSize) = (rq_pos kSize (rq_front q) mod ?K + (?K - 1)) mod ?K"
    using D(1) by (simp only: rq_idx_pred mod_add_left_eq)
  also have "\<dots> = (rq_pos kSize (rq_back q) + (?K - 1)) mod ?K"
    using D(1) assms(2) by (simp add: rq_front_idx mod_add_left_eq)
  finally show ?thesis using D(6) [of "?K - 1"] D(2) assms(2) by (simp add: PopFront_def Let_def)
qed

lemma PopFront_some:
  assumes inv: "rq_inv kSize q" and n: "rq_len kSize q = Suc n"
    and pop: "PopFront kSize q = (y, q')"
  shows "rq_inv kSize q'" "rq_items kSize q = y # rq_items kSize q'"
proof -
  let ?K = "unat kSize" and ?b = "rq_pos kSize (rq_back q)"
  note D = rq_invD [OF inv]
  let ?e = "(?b + n) mod ?K"
  have "unat ((rq_front q - 1) AND kMask kSize) = (rq_pos kSize (rq_front q) mod ?K + (?K - 1)) mod ?K"
    using D(1) by (simp only: rq_idx_pred mod_add_left_eq)
  also have "\<dots> = (?b + Suc n + (?K - 1)) mod ?K"
    by (simp only: rq_front_idx [OF D(1)] n mod_add_left_eq)
  also have "\<dots> = ?e" using ring_shift [of ?K ?b n] D(2) by (simp add: ac_simps)
  finally have e: "unat ((rq_front q - 1) AND kMask kSize) = ?e" .
  have st: "el_state (rq_array q ! ?e) = kReady" using D(4) D(6) [of n] n by simp
  have q': "y = el_w (rq_array q ! ?e)" "rq_back q' = rq_back q"
    "rq_front q' = ((rq_front q - 1) AND kMask2 kSize) OR (rq_front q AND NOT (kMask2 kSize))"
    "rq_array q' = (rq_array q)[?e := \<lparr>el_state = kEmpty, el_w = y\<rparr>]"
    using pop st D(2,3)
    by (auto simp: PopFront_def Let_def e compare_exchange_state_def rq_write)
  have "rq_pos kSize (rq_front q') = (rq_pos kSize (rq_front q) + (2 * ?K - 1)) mod (2 * ?K)"
    using D(1) by (simp only: q' rq_pos_pop)
  also have "\<dots> = (?b + Suc n + (2 * ?K - 1)) mod (2 * ?K)"
    by (simp only: rq_front_pos [OF D(1)] n mod_add_left_eq)
  also have "\<dots> = (?b + n) mod (2 * ?K)"
    using ring_shift [of "2 * ?K" ?b n] D(2) by (simp add: ac_simps)
  finally have front: "rq_pos kSize (rq_front q') = (rq_pos kSize (rq_back q') + n) mod (2 * ?K)"
    by (simp add: q')
  note R = ring_pop_front [OF D(5) [unfolded n], of y, folded q'(4)]
  have "rq_pos kSize (rq_back q') mod ?K = ?b mod ?K" by (simp add: q')
  note I = rq_invI [OF D(1) R(1) this front]
  show "rq_inv kSize q'" by (rule I(1))
  show "rq_items kSize q = y # rq_items kSize q'"
    by (simp add: I(2) R(2)) (simp add: rq_items_def n ring_items_Suc q')
qed

lemma valid_kSize_less: "valid_kSize kSize \<Longrightarrow> unat kSize \<le> 2 ^ 16"
  by (simp add: valid_kSize_def word_le_nat_alt)

lemma CalculateSize_eq:
  assumes v: "valid_kSize kSize"
  shows "unat (CalculateSize kSize f b)
    = min (unat kSize) ((rq_pos kSize f + 2 * unat kSize - rq_pos kSize b) mod (2 * unat kSize))"
proof -
  let ?K = "unat kSize" and ?f = "rq_pos kSize f" and ?b = "rq_pos kSize b"
  let ?d = "(f AND kMask2 kSize) - (b AND kMask2 kSize)"
  let ?m = "(?f + 2 * ?K - ?b) mod (2 * ?K)"
  note less = rq_pos_less [OF v, of f] rq_pos_less [OF v, of b]
  have K: "?K \<le> 2 ^ 16" by (rule valid_kSize_less [OF v])
  have d: "sint ?d = int ?f - int ?b"
    using less K by (simp add: sint_diff_small rq_pos_def [symmetric])
  have pos: "uint (f AND kMask2 kSize) = int ?f" "uint (b AND kMask2 kSize) = int ?b"
    by (simp_all only: rq_pos_def uint_nat)
  have k2: "uint (2 * kSize) = int (2 * ?K)"
    using K by (simp only: uint_nat unat_word_ariths) simp
  let ?s = "if sint ?d < 0 then ?d + 2 * kSize else ?d"
  have s: "unat ?s = ?m"
  proof (cases "?f < ?b")
    case True
    have "unat (?d + 2 * kSize) = ?f + 2 * ?K - ?b"
    proof (rule unat_eqI)
      show "uint (?d + 2 * kSize) = (int ?f - int ?b + int (2 * ?K)) mod 2 ^ 32"
        by (simp only: uint_word_ariths pos k2 [unfolded uint_word_ariths])
          (simp add: mod_simps)
    qed (use True less K in auto)
    with True d less show ?thesis by simp
  next
    case False
    have "unat ?d = ?f - ?b"
    proof (rule unat_eqI)
      show "uint ?d = (int ?f - int ?b) mod 2 ^ 32"
        by (simp only: uint_word_ariths pos) simp
    qed (use False less K in auto)
    moreover have "?f + 2 * ?K - ?b = ?f - ?b + 2 * ?K" using False by simp
    then have "?m = ?f - ?b" using less by (simp only: mod_add_self2) simp
    ultimately show ?thesis using False d by simp
  qed
  have "?m < 2 * ?K" using less by simp
  then have m: "sint ?s = int ?m" using s K by (subst sint_small) auto
  have "sint kSize = int ?K" using K by (intro sint_small) simp
  then have "sint kSize < sint ?s \<longleftrightarrow> ?K < ?m" by (simp only: m of_nat_less_iff)
  moreover have "CalculateSize kSize f b = (if sint kSize < sint ?s then kSize else ?s)"
    by (simp only: CalculateSize_def Let_def)
  ultimately show ?thesis using s by (simp only: min_def) (simp only: if_distrib [of unat] split: if_split; linarith)
qed

lemma Size_inv: "rq_inv kSize q \<Longrightarrow> unat (Size kSize q) = rq_len kSize q"
  using rq_invD(1,4) [of kSize q]
  by (simp add: Size_def SizeOrNotEmpty_def CalculateSize_eq rq_len_def [symmetric])

lemma xor_mask_zero:
  assumes v: "valid_kSize kSize"
  shows "(f XOR b) AND kMask2 kSize = 0 \<longleftrightarrow> rq_pos kSize f = rq_pos kSize b"
proof -
  have "(f XOR b) AND kMask2 kSize = 0 \<longleftrightarrow> f AND kMask2 kSize = b AND kMask2 kSize"
    by (auto simp: bit_eq_iff bit_simps)
  then show ?thesis by (simp add: rq_pos_def word_unat_eq_iff)
qed

text \<open>The two estimates of \<open>SizeOrNotEmpty\<close> agree on emptiness, whatever the two counters hold.\<close>

lemma size_estimates_agree:
  assumes "valid_kSize kSize"
  shows "CalculateSize kSize f b = 0 \<longleftrightarrow> (f XOR b) AND kMask2 kSize = 0"
proof -
  let ?K = "unat kSize"
  note less = rq_pos_less [OF assms, of f] rq_pos_less [OF assms, of b]
  have "CalculateSize kSize f b = 0 \<longleftrightarrow>
      (rq_pos kSize f + 2 * ?K - rq_pos kSize b) mod (2 * ?K) = 0"
    using CalculateSize_eq [OF assms, of f b] less by (auto simp: word_unat_eq_iff)
  also have "\<dots> \<longleftrightarrow> rq_pos kSize f = rq_pos kSize b"
    using less by (auto simp: mod_if split: if_splits)
  finally show ?thesis by (simp add: xor_mask_zero [OF assms])
qed

lemma Empty_inv: "rq_inv kSize q \<Longrightarrow> Empty kSize q \<longleftrightarrow> rq_len kSize q = 0"
proof -
  assume inv: "rq_inv kSize q"
  have "Empty kSize q \<longleftrightarrow> Size kSize q = 0"
    using size_estimates_agree [OF rq_invD(1) [OF inv]]
    by (simp add: Empty_def SizeOrNotEmpty_def Size_def)
  with Size_inv [OF inv] show ?thesis by (simp add: word_unat_eq_iff)
qed

lemma PushBack_full:
  assumes inv: "rq_inv kSize q" and n: "rq_len kSize q = unat kSize"
  shows "PushBack kSize x q = (False, q)"
  using rq_invD(6) [OF inv, of "unat kSize - 1"] rq_invD(1,2) [OF inv] n
  by (auto simp: PushBack_def Let_def rq_idx_pred)

lemma PushBack_room:
  assumes inv: "rq_inv kSize q" and room: "rq_len kSize q < unat kSize"
    and push: "PushBack kSize x q = (ok, q')"
  shows "ok" "rq_inv kSize q'" "rq_items kSize q' = rq_items kSize q @ [x]"
proof -
  let ?K = "unat kSize" and ?b = "rq_pos kSize (rq_back q)" and ?n = "rq_len kSize q"
  note D = rq_invD [OF inv]
  let ?e = "(?b + (?K - 1)) mod ?K"
  have st: "el_state (rq_array q ! ?e) = kEmpty" using D(6) [of "?K - 1"] room by simp
  have q': "ok" "rq_front q' = rq_front q"
    "rq_back q' = ((rq_back q - 1) AND kMask2 kSize) OR (rq_back q AND NOT (kMask2 kSize))"
    "rq_array q' = (rq_array q)[?e := \<lparr>el_state = kReady, el_w = x\<rparr>]"
    using push st D(2,3)
    by (auto simp: PushBack_def Let_def rq_idx_pred [OF D(1)] compare_exchange_state_def rq_write)
  have pos: "rq_pos kSize (rq_back q') = (?b + (2 * ?K - 1)) mod (2 * ?K)"
    using D(1) by (simp only: q' rq_pos_pop)
  have "(rq_pos kSize (rq_back q') + Suc ?n) mod (2 * ?K) = (?b + (2 * ?K - 1) + Suc ?n) mod (2 * ?K)"
    by (simp only: pos mod_add_left_eq)
  also have "\<dots> = rq_pos kSize (rq_front q')"
    using ring_shift [of "2 * ?K" ?b ?n] D(2) by (simp add: q' rq_front_pos [OF D(1)])
  finally have front: "rq_pos kSize (rq_front q') = (rq_pos kSize (rq_back q') + Suc ?n) mod (2 * ?K)"
    by simp
  have "?b + (2 * ?K - 1) = ?b + (?K - 1) + ?K" using D(2) by simp
  then have idx: "rq_pos kSize (rq_back q') mod ?K = (?b + (?K - 1)) mod ?K"
    by (simp only: pos mod_double mod_add_self2)
  note R = ring_push_back [OF D(5) room, of x, folded q'(4)]
  note I = rq_invI [OF D(1) R(1) idx front]
  show "ok" by (rule q'(1))
  show "rq_inv kSize q'" by (rule I(1))
  show "rq_items kSize q' = rq_items kSize q @ [x]" by (simp only: I(2) R(2)) (simp add: rq_items_def)
qed

lemma PopBack_empty:
  "rq_inv kSize q \<Longrightarrow> rq_len kSize q = 0 \<Longrightarrow> PopBack kSize q = (0, q)"
  by (simp add: PopBack_def Empty_inv)

lemma PopBack_some:
  assumes inv: "rq_inv kSize q" and n: "rq_len kSize q = Suc n"
    and pop: "PopBack kSize q = (y, q')"
  shows "rq_inv kSize q'" "rq_items kSize q = rq_items kSize q' @ [y]"
proof -
  let ?K = "unat kSize" and ?b = "rq_pos kSize (rq_back q)"
  note D = rq_invD [OF inv]
  have ne: "\<not> Empty kSize q" using n by (simp add: Empty_inv [OF inv])
  have st: "el_state (rq_array q ! (?b mod ?K)) = kReady" using D(2) D(6) [of 0] n by simp
  have q': "y = el_w (rq_array q ! (?b mod ?K))" "rq_front q' = rq_front q"
    "rq_back q' = rq_back q + 1 + push_bit 1 kSize"
    "rq_array q' = (rq_array q)[?b mod ?K := \<lparr>el_state = kEmpty, el_w = y\<rparr>]"
    using pop st D(2,3) ne
    by (auto simp: PopBack_def Let_def rq_idx [OF D(1)] compare_exchange_state_def rq_write)
  have pos: "rq_pos kSize (rq_back q') = (?b + 1) mod (2 * ?K)"
    using D(1) by (simp only: q' rq_pos_push)
  have "rq_pos kSize (rq_front q') = (?b + 1 + n) mod (2 * ?K)"
    using rq_front_pos [OF D(1), of q] by (simp add: q' n)
  then have front: "rq_pos kSize (rq_front q') = (rq_pos kSize (rq_back q') + n) mod (2 * ?K)"
    by (simp only: pos mod_add_left_eq)
  have idx: "rq_pos kSize (rq_back q') mod ?K = Suc ?b mod ?K" by (simp add: pos mod_double)
  note R = ring_pop_back [OF D(5) [unfolded n], of y, folded q'(4)]
  note I = rq_invI [OF D(1) R(1) idx front]
  show "rq_inv kSize q'" by (rule I(1))
  show "rq_items kSize q = rq_items kSize q' @ [y]"
    by (simp add: I(2) R(2)) (simp add: rq_items_def n ring_items_Cons q')
qed

section \<open>The run queue meets the contract of the pool's queues\<close>

lemma PushFront_spec:
  assumes "rq_inv kSize q" "PushFront kSize x q = (ok, q')"
  shows "rq_inv kSize q' \<and>
    (Pushed ok, rq_items kSize q') = deque_step (unat kSize) (rq_items kSize q) (PushF x)"
  using assms rq_invD(4) [OF assms(1)] PushFront_full [OF assms(1), of x]
    PushFront_room [OF assms(1) _ assms(2)]
  by (cases "rq_len kSize q < unat kSize") auto

lemma PushBack_spec:
  assumes "rq_inv kSize q" "PushBack kSize x q = (ok, q')"
  shows "rq_inv kSize q' \<and>
    (Pushed ok, rq_items kSize q') = deque_step (unat kSize) (rq_items kSize q) (PushB x)"
  using assms rq_invD(4) [OF assms(1)] PushBack_full [OF assms(1), of x]
    PushBack_room [OF assms(1) _ assms(2)]
  by (cases "rq_len kSize q < unat kSize") auto

lemma rq_items_empty: "rq_len kSize q = 0 \<longleftrightarrow> rq_items kSize q = []"
  by (metis length_0_conv length_rq_items)

lemma PopFront_spec:
  assumes "rq_inv kSize q" "PopFront kSize q = (y, q')"
  shows "rq_inv kSize q' \<and>
    (Popped y, rq_items kSize q') = deque_step (unat kSize) (rq_items kSize q) PopF"
proof (cases "rq_len kSize q")
  case 0
  with assms PopFront_empty [OF assms(1) 0] show ?thesis by (simp add: rq_items_empty)
next
  case (Suc n)
  from PopFront_some [OF assms(1) Suc assms(2)] show ?thesis by simp
qed

lemma PopBack_spec:
  assumes "rq_inv kSize q" "PopBack kSize q = (y, q')"
  shows "rq_inv kSize q' \<and>
    (Popped y, rq_items kSize q') = deque_step (unat kSize) (rq_items kSize q) PopB"
proof (cases "rq_len kSize q")
  case 0
  with assms PopBack_empty [OF assms(1) 0] show ?thesis by (simp add: rq_items_empty)
next
  case (Suc n)
  from PopBack_some [OF assms(1) Suc assms(2)] show ?thesis by simp
qed

interpretation rq: work_deque "rq_inv kSize" "rq_items kSize" "unat kSize"
  "PushFront kSize" "PopFront kSize" "PushBack kSize" "PopBack kSize" for kSize
proof (unfold_locales, goal_cases)
  case (1 q)
  then show ?case by (simp add: rq_invD(4))
qed (blast dest: PushFront_spec PopFront_spec PushBack_spec PopBack_spec)+

lemma RunQueue_inv:
  assumes "RunQueue kSize = Some q"
  shows "rq_inv kSize q" "rq_items kSize q = []"
proof -
  have v: "valid_kSize kSize" and q: "q = \<lparr>rq_front = 0, rq_back = 0,
      rq_array = replicate (unat kSize) \<lparr>el_state = kEmpty, el_w = 0\<rparr>\<rparr>"
    using assms by (auto simp: RunQueue_def valid_kSize_def split: if_splits)
  have pos: "rq_pos kSize 0 = 0" by (simp add: rq_pos_def)
  have ok: "ring_ok (unat kSize) (rq_array q) 0 0"
    using rq_pos_less [OF v, of 0] by (simp add: ring_ok_def q)
  note I = rq_invI [OF v ok]
  show "rq_inv kSize q" by (rule I(1)) (simp_all add: q pos)
  show "rq_items kSize q = []" by (subst I(2)) (simp_all add: q pos ring_items_def)
qed

section \<open>Flushing and halving\<close>

lemma Flush_empties:
  assumes "rq_inv kSize q"
  shows "\<exists>q'. Flush kSize q = Some q' \<and> rq_inv kSize q' \<and> rq_items kSize q' = []"
  using assms
proof (induction "rq_len kSize q" arbitrary: q)
  case 0
  then have "Flush kSize q = Some q" by (subst Flush.simps) (simp add: Empty_inv)
  with 0 show ?case by (simp add: rq_items_empty)
next
  case (Suc n)
  obtain y q1 where pop: "PopFront kSize q = (y, q1)" by fastforce
  note P = PopFront_some [OF Suc.prems Suc.hyps(2) [symmetric] pop]
  have "n = rq_len kSize q1"
    using Suc.hyps(2) arg_cong [OF P(2), of length] by simp
  from Suc.hyps(1) [OF this P(1)] obtain q' where
    q': "Flush kSize q1 = Some q'" "rq_inv kSize q'" "rq_items kSize q' = []" by blast
  have "Flush kSize q = Flush kSize q1"
    using Suc.hyps(2) Suc.prems by (subst Flush.simps) (simp add: Empty_inv pop)
  with q' show ?case by auto
qed

lemma rq_pos_add [ring_simps]:
  assumes "valid_kSize kSize"
  shows "rq_pos kSize (x + of_nat c) = (rq_pos kSize x + c) mod (2 * unat kSize)"
proof -
  from assms obtain k where k: "kSize = 2 ^ k" "unat kSize = 2 ^ k" "k \<le> 16"
    by (elim valid_kSizeE)
  have "unat (of_nat c :: u32) mod 2 ^ Suc k = c mod 2 ^ Suc k"
    using k mod_pow_le [of "Suc k" "LENGTH(32)" c] by (simp only: unat_of_nat) simp
  moreover have "unat (x + of_nat c) mod 2 ^ Suc k = (unat x + unat (of_nat c :: u32)) mod 2 ^ Suc k"
    using k by (intro unat_add_mod_pow) simp
  ultimately have "unat (x + of_nat c) mod 2 ^ Suc k = (unat x mod 2 ^ Suc k + c) mod 2 ^ Suc k"
    by (metis mod_add_left_eq mod_add_right_eq)
  then show ?thesis using k by (simp only: rq_pos_pow power_Suc)
qed

text \<open>What the loop leaves behind: the lowest \<open>c + 1\<close> elements of the region are empty.\<close>

definition drained :: "nat \<Rightarrow> nat \<Rightarrow> nat \<Rightarrow> 'w elem list \<Rightarrow> 'w elem list \<Rightarrow> bool" where
  "drained K b c a a' \<longleftrightarrow> length a' = length a \<and>
     (\<forall>j<K. a' ! ((b + j) mod K) =
        (if j \<le> c then (a ! ((b + j) mod K))\<lparr>el_state := kEmpty\<rparr> else a ! ((b + j) mod K)))"

lemma PopBackHalf_loop_done:
  "PopBackHalf_loop kSize bk (bk - 1) n start result q = Some (n, start, result, q)"
  by (subst PopBackHalf_loop.simps) simp

lemma PopBackHalf_loop_take:
  assumes "sint (mid - bk) \<ge> 0" "unat (mid AND kMask kSize) = e"
    and "el_state (rq_array q ! e) = kReady"
  shows "PopBackHalf_loop kSize bk mid n start result q =
    PopBackHalf_loop kSize bk (mid - 1) (n + 1) (if n = 0 then mid else start)
      (result @ [el_w (rq_array q ! e)]) (store_state e kEmpty q)"
  using assms by (subst PopBackHalf_loop.simps) (simp add: Let_def compare_exchange_state_def)

lemma PopBackHalf_loop_ready:
  assumes inv: "valid_kSize kSize" "length (rq_array q) = unat kSize" "rq_back q = bk"
    and ready: "\<forall>j\<le>c. el_state (rq_array q ! ((rq_pos kSize bk + j) mod unat kSize)) = kReady"
    and room: "m + Suc c \<le> unat kSize"
  shows "\<exists>q'. PopBackHalf_loop kSize bk (bk + of_nat c) (of_nat m) start result q =
      Some (of_nat (m + Suc c), if m = 0 then bk + of_nat c else start,
            result @ map (\<lambda>j. el_w (rq_array q ! ((rq_pos kSize bk + j) mod unat kSize))) (rev [0..<Suc c]), q')
    \<and> drained (unat kSize) (rq_pos kSize bk) c (rq_array q) (rq_array q')
    \<and> rq_front q' = rq_front q \<and> rq_back q' = bk"
  using assms
proof (induction c arbitrary: m start result q)
  case (0 m start result q)
  let ?K = "unat kSize" and ?b = "rq_pos kSize bk"
  have K: "?K \<le> 65536" "0 < ?K" using valid_kSize_less 0 by auto
  have m: "of_nat m = (0::u32) \<longleftrightarrow> m = 0" using 0 K by (simp add: word_of_nat_eq_0_iff dvd_imp_le) (auto dest: dvd_imp_le)
  let ?q = "store_state (?b mod ?K) kEmpty q"
  have "PopBackHalf_loop kSize bk (bk + of_nat 0) (of_nat m) start result q =
      PopBackHalf_loop kSize bk (bk - 1) (of_nat m + 1) (if m = 0 then bk else start)
        (result @ [el_w (rq_array q ! (?b mod ?K))]) ?q"
    using 0 m by (subst PopBackHalf_loop_take [where e = "?b mod ?K"]) (simp_all add: rq_idx)
  moreover have "drained ?K ?b 0 (rq_array q) (rq_array ?q)"
    using 0 K ring_inj [of 0 ?K _ ?b] by (auto simp: drained_def store_state_def nth_list_update)
  ultimately show ?case using 0 by (auto simp: PopBackHalf_loop_done)
next
  case (Suc c m start result q)
  let ?K = "unat kSize" and ?b = "rq_pos kSize bk"
  have K: "?K \<le> 65536" "0 < ?K" using valid_kSize_less Suc.prems by auto
  have m: "of_nat m = (0::u32) \<longleftrightarrow> m = 0" using Suc.prems K by (simp add: word_of_nat_eq_0_iff) (auto dest: dvd_imp_le)
  let ?e = "(?b + Suc c) mod ?K"
  let ?q = "store_state ?e kEmpty q"
  have e: "unat ((bk + of_nat (Suc c)) AND kMask kSize) = ?e"
    using Suc.prems(1) by (simp only: rq_idx rq_pos_add mod_double)
  have "unat (of_nat (Suc c) :: u32) = Suc c" using Suc.prems(5) K by (simp only: unat_of_nat) simp
  then have guard: "sint (bk + of_nat (Suc c) - bk) = int (Suc c)"
    using Suc.prems(5) K sint_small [of "of_nat (Suc c) :: u32"] by simp
  have other: "rq_array ?q ! ((?b + j) mod ?K) = rq_array q ! ((?b + j) mod ?K)" if "j \<le> c" for j
    using ring_inj [of "Suc c" ?K j ?b] that Suc.prems by (simp add: store_state_def)
  have "\<exists>q'. PopBackHalf_loop kSize bk (bk + of_nat c) (of_nat (Suc m))
      (if m = 0 then bk + of_nat (Suc c) else start) (result @ [el_w (rq_array q ! ?e)]) ?q =
      Some (of_nat (Suc m + Suc c), if Suc m = 0 then bk + of_nat c else if m = 0 then bk + of_nat (Suc c) else start,
            (result @ [el_w (rq_array q ! ?e)]) @
              map (\<lambda>j. el_w (rq_array ?q ! ((?b + j) mod ?K))) (rev [0..<Suc c]), q')
    \<and> drained ?K ?b c (rq_array ?q) (rq_array q') \<and> rq_front q' = rq_front ?q \<and> rq_back q' = bk"
    by (rule Suc.IH) (use Suc.prems other in auto)
  then obtain q' where IH: "PopBackHalf_loop kSize bk (bk + of_nat c) (of_nat (Suc m))
      (if m = 0 then bk + of_nat (Suc c) else start) (result @ [el_w (rq_array q ! ?e)]) ?q =
      Some (of_nat (Suc m + Suc c), if m = 0 then bk + of_nat (Suc c) else start,
            (result @ [el_w (rq_array q ! ?e)]) @
              map (\<lambda>j. el_w (rq_array ?q ! ((?b + j) mod ?K))) (rev [0..<Suc c]), q')"
    and q': "drained ?K ?b c (rq_array ?q) (rq_array q')" "rq_front q' = rq_front q" "rq_back q' = bk"
    by auto
  have step: "PopBackHalf_loop kSize bk (bk + of_nat (Suc c)) (of_nat m) start result q =
      PopBackHalf_loop kSize bk (bk + of_nat c) (of_nat (Suc m))
        (if m = 0 then bk + of_nat (Suc c) else start) (result @ [el_w (rq_array q ! ?e)]) ?q"
    using Suc.prems(4) [rule_format, of "Suc c"] m guard e
    by (subst PopBackHalf_loop_take [where e = ?e]) (simp_all add: add.commute)
  have "drained ?K ?b (Suc c) (rq_array q) (rq_array q')"
    using q'(1) Suc.prems(2,5) ring_inj [of "Suc c" ?K _ ?b]
    by (auto simp: drained_def store_state_def nth_list_update le_Suc_eq)
  moreover have "map (\<lambda>j. el_w (rq_array ?q ! ((?b + j) mod ?K))) (rev [0..<Suc c])
      = map (\<lambda>j. el_w (rq_array q ! ((?b + j) mod ?K))) (rev [0..<Suc c])"
    using other by (intro map_cong) auto
  ultimately show ?case using step IH q' by auto
qed

lemma drained_ring:
  assumes ok: "ring_ok K a b n" and c: "c < n" and dr: "drained K b c a a'"
  shows "ring_ok K a' (b + Suc c) (n - Suc c)"
    and "ring_items K a' (b + Suc c) (n - Suc c) = drop (Suc c) (ring_items K a b n)"
proof -
  have K: "length a = K" "n \<le> K"
    and st: "\<And>j. j < K \<Longrightarrow> el_state (a ! ((b + j) mod K)) = (if j < n then kReady else kEmpty)"
    using ok by (auto simp: ring_ok_def)
  have el: "a' ! ((b + j) mod K) = (if j \<le> c then (a ! ((b + j) mod K))\<lparr>el_state := kEmpty\<rparr>
      else a ! ((b + j) mod K))" if "j < K" for j
    using dr that by (auto simp: drained_def)
  have "el_state (a' ! ((b + Suc c + j) mod K)) = (if j < n - Suc c then kReady else kEmpty)"
    if "j < K" for j
  proof (cases "Suc c + j < K")
    case True
    then show ?thesis using el [OF True] st [OF True] by (auto simp: add.assoc)
  next
    case False
    define i where "i = Suc c + j - K"
    have i: "i < K" "i \<le> c" "b + Suc c + j = b + i + K" using False that c K by (auto simp: i_def)
    have "(b + Suc c + j) mod K = (b + i) mod K" by (simp only: i(3) mod_add_self2)
    then show ?thesis using el [OF i(1)] i False K c by simp
  qed
  then show "ring_ok K a' (b + Suc c) (n - Suc c)" using K dr by (simp add: ring_ok_def drained_def)
  have "el_w (a' ! ((b + Suc c + j) mod K)) = el_w (a ! ((b + (Suc c + j)) mod K))"
    if "j < n - Suc c" for j
    using el [of "Suc c + j"] that K by (auto simp: add.assoc)
  then show "ring_items K a' (b + Suc c) (n - Suc c) = drop (Suc c) (ring_items K a b n)"
    by (intro nth_equalityI) (auto simp: ring_items_def)
qed

lemma PopBackHalf_empty:
  "rq_inv kSize q \<Longrightarrow> rq_items kSize q = [] \<Longrightarrow> PopBackHalf kSize result q = Some (0, result, q)"
  by (simp add: PopBackHalf_def Empty_inv rq_items_empty)

lemma PopBackHalf_some:
  assumes inv: "rq_inv kSize q" and ne: "rq_items kSize q \<noteq> []"
  defines "h \<equiv> (length (rq_items kSize q) + 1) div 2"
  defines "r \<equiv> length (rq_items kSize q) - h"
  shows "\<exists>q'. PopBackHalf kSize result q = Some (of_nat h, result @ drop r (rq_items kSize q), q')
    \<and> rq_inv kSize q' \<and> rq_items kSize q' = take r (rq_items kSize q)"
proof -
  let ?K = "unat kSize" and ?bk = "rq_back q" and ?n = "rq_len kSize q"
  let ?b = "rq_pos kSize ?bk"
  note D = rq_invD [OF inv]
  have n: "0 < ?n" "?n \<le> 65536" using ne D(4) valid_kSize_less [OF D(1)] rq_items_empty by auto
  define c where "c = (?n - 1) div 2"
  have c: "h = Suc c" "c < ?n" "r = ?n - Suc c" using n(1) by (auto simp: h_def r_def c_def)
  have ne': "\<not> Empty kSize q" using n(1) by (simp add: Empty_inv [OF inv])
  have mid: "(if 1 < Size kSize q then ?bk + (Size kSize q - 1) div 2 else ?bk) = ?bk + of_nat c"
  proof (cases "1 < Size kSize q")
    case True
    then have gt: "1 < ?n" using Size_inv [OF inv] by (simp add: word_less_nat_alt)
    have "unat ((Size kSize q - 1) div 2) = c"
      using gt Size_inv [OF inv] True by (simp add: unat_div unat_sub word_le_nat_alt c_def)
    with True show ?thesis by (metis of_nat_unat unsigned_ucast_eq ucast_id)
  next
    case False
    then have "?n = 1" using Size_inv [OF inv] n by (simp add: word_less_nat_alt)
    with False show ?thesis by (simp add: c_def)
  qed
  have "\<exists>q'. PopBackHalf_loop kSize ?bk (?bk + of_nat c) (of_nat 0) 0 result q =
      Some (of_nat (0 + Suc c), if (0::nat) = 0 then ?bk + of_nat c else 0,
            result @ map (\<lambda>j. el_w (rq_array q ! ((?b + j) mod ?K))) (rev [0..<Suc c]), q')
    \<and> drained ?K ?b c (rq_array q) (rq_array q') \<and> rq_front q' = rq_front q \<and> rq_back q' = ?bk"
    using D c n by (intro PopBackHalf_loop_ready) auto
  then obtain q1 where loop: "PopBackHalf_loop kSize ?bk (?bk + of_nat c) 0 0 result q =
      Some (of_nat (Suc c), ?bk + of_nat c,
            result @ map (\<lambda>j. el_w (rq_array q ! ((?b + j) mod ?K))) (rev [0..<Suc c]), q1)"
    and q1: "drained ?K ?b c (rq_array q) (rq_array q1)" "rq_front q1 = rq_front q"
    by auto
  have nz: "of_nat (Suc c) \<noteq> (0::u32)"
    using c n by (simp only: word_of_nat_eq_0_iff) (auto dest: dvd_imp_le)
  let ?q = "q1\<lparr>rq_back := ?bk + of_nat c + 1 + push_bit 1 kSize\<rparr>"
  have popped: "PopBackHalf kSize result q = Some (of_nat (Suc c),
      result @ map (\<lambda>j. el_w (rq_array q ! ((?b + j) mod ?K))) (rev [0..<Suc c]), ?q)"
    using ne' mid loop nz by (simp add: PopBackHalf_def Let_def)
  have "rq_back ?q = ?bk + of_nat c + 1 + push_bit 1 kSize" by simp
  then have "rq_pos kSize (rq_back ?q) = ((?b + c) mod (2 * ?K) + 1) mod (2 * ?K)"
    by (simp only: rq_pos_push [OF D(1)] rq_pos_add [OF D(1)])
  then have pos: "rq_pos kSize (rq_back ?q) = (?b + Suc c) mod (2 * ?K)" by (simp add: mod_Suc_eq)
  note R = drained_ring [OF D(5) c(2) q1(1)]
  have "rq_pos kSize (rq_front ?q) = (?b + Suc c + (?n - Suc c)) mod (2 * ?K)"
    using rq_front_pos [OF D(1), of q] c q1(2) by simp
  then have front: "rq_pos kSize (rq_front ?q) = (rq_pos kSize (rq_back ?q) + (?n - Suc c)) mod (2 * ?K)"
    by (simp only: pos mod_add_left_eq)
  have ok: "ring_ok ?K (rq_array ?q) (?b + Suc c) (?n - Suc c)" using R(1) by simp
  have idx: "rq_pos kSize (rq_back ?q) mod ?K = (?b + Suc c) mod ?K" by (simp only: pos mod_double)
  note I = rq_invI [OF D(1) ok idx front]
  have taken: "map (\<lambda>j. el_w (rq_array q ! ((?b + j) mod ?K))) (rev [0..<Suc c]) = drop r (rq_items kSize q)"
  proof -
    have "drop r (rq_items kSize q) = rev (take (Suc c) (ring_items ?K (rq_array q) ?b ?n))"
      using c(2) by (simp add: rq_items_def c(3) drop_rev)
    also have "take (Suc c) (ring_items ?K (rq_array q) ?b ?n)
        = map (\<lambda>j. el_w (rq_array q ! ((?b + j) mod ?K))) [0..<Suc c]"
      using c(2) by (simp add: ring_items_def take_map del: upt_Suc)
    finally show ?thesis by (simp add: rev_map del: upt_Suc)
  qed
  have "rq_items kSize ?q = rev (ring_items ?K (rq_array q1) (?b + Suc c) (?n - Suc c))"
    using I(2) by simp
  also have "\<dots> = take r (rq_items kSize q)"
    by (simp only: R(2) rq_items_def c(3) take_rev length_ring_items) (use c(2) in simp)
  finally show ?thesis using popped taken I(1) c(1) by auto
qed

section \<open>Properties\<close>

text \<open>
  C5: A run queue built by the constructor behaves like a bounded double-ended queue: every
  sequence of \<open>PushFront\<close>, \<open>PopFront\<close>, \<open>PushBack\<close> and \<open>PopBack\<close> calls returns, call by call,
  what the same calls return on a list of capacity \<open>kSize\<close> (pushes fail exactly when it is full,
  pops return the null item exactly when it is empty), and the array holds that list afterwards.
\<close>

theorem run_queue_history:
  assumes "RunQueue kSize = Some q0"
    and "run_ops (ops_step (PushFront kSize) (PopFront kSize) (PushBack kSize) (PopBack kSize)) q0 ops
      = (rs, q)"
  shows "run_ops (deque_step (unat kSize)) [] ops = (rs, rq_items kSize q) \<and> rq_inv kSize q"
  using rq.history_simulates [OF RunQueue_inv(1) [OF assms(1)] assms(2)] RunQueue_inv(2) [OF assms(1)]
  by simp

text \<open>
  C7: \<open>PopBackHalf\<close> takes the back half of the queue, rounded up, in queue order, and leaves the
  front half; it never trips over its assertion.
\<close>

theorem PopBackHalf_takes_half:
  assumes "rq_inv kSize q"
  shows "\<exists>n q'. PopBackHalf kSize result q =
      Some (n, result @ drop (length (rq_items kSize q) div 2) (rq_items kSize q), q')
    \<and> unat n = (length (rq_items kSize q) + 1) div 2
    \<and> rq_inv kSize q' \<and> rq_items kSize q' = take (length (rq_items kSize q) div 2) (rq_items kSize q)"
proof (cases "rq_items kSize q = []")
  case True
  with PopBackHalf_empty [OF assms True, of result] assms show ?thesis by simp
next
  case False
  let ?n = "rq_len kSize q"
  have "(?n + 1) div 2 < 2 ^ 32"
    using rq_invD(4) [OF assms] valid_kSize_less [OF rq_invD(1) [OF assms]] by simp
  then have "unat (of_nat ((?n + 1) div 2) :: u32) = (?n + 1) div 2"
    by (simp only: unat_of_nat) simp
  moreover have "?n - (?n + 1) div 2 = ?n div 2" by arith
  ultimately show ?thesis using PopBackHalf_some [OF assms False, of result] by auto
qed

text \<open>
  The assertion inside \<open>SizeOrNotEmpty\<close> cannot fail: for any values of the two counters (also
  ones read at different moments) the size estimate is zero exactly when the cheap emptiness
  estimate is, and the size estimate never exceeds the capacity.
\<close>

lemma size_estimates:
  assumes "valid_kSize kSize"
  shows "(CalculateSize kSize f b = 0 \<longleftrightarrow> (f XOR b) AND kMask2 kSize = 0)
    \<and> unat (CalculateSize kSize f b) \<le> unat kSize"
  by (simp add: size_estimates_agree [OF assms] CalculateSize_eq [OF assms])

text \<open>
  On a queue no other thread is using, \<open>Size\<close> is the number of items, \<open>Empty\<close> tells whether
  there are none, and \<open>Flush\<close> returns with the queue empty, as the destructor requires.
\<close>

lemma Flush_returns_empty:
  assumes "rq_inv kSize q"
  shows "unat (Size kSize q) = length (rq_items kSize q)
    \<and> (Empty kSize q \<longleftrightarrow> rq_items kSize q = [])
    \<and> (\<exists>q'. Flush kSize q = Some q' \<and> rq_items kSize q' = [] \<and> RunQueue_destructor_ok kSize q')"
proof -
  obtain q' where q': "Flush kSize q = Some q'" "rq_inv kSize q'" "rq_items kSize q' = []"
    using Flush_empties [OF assms] by blast
  have "unat (Size kSize q') = 0" using Size_inv [OF q'(2)] q'(3) by (simp add: rq_items_empty)
  then have "RunQueue_destructor_ok kSize q'" by (simp add: RunQueue_destructor_ok_def word_unat_eq_iff)
  with q' show ?thesis by (simp add: Size_inv [OF assms] Empty_inv [OF assms] rq_items_empty)
qed

section \<open>Witnesses\<close>

text \<open>A queue of capacity four with two items pushed at the front.\<close>

definition rq_example :: "u32 run_queue" where
  "rq_example = \<lparr>rq_front = 18, rq_back = 0,
     rq_array = [\<lparr>el_state = kReady, el_w = 10\<rparr>, \<lparr>el_state = kReady, el_w = 20\<rparr>,
                 \<lparr>el_state = kEmpty, el_w = 0\<rparr>, \<lparr>el_state = kEmpty, el_w = 0\<rparr>]\<rparr>"

lemma valid_kSize_4: "valid_kSize 4"
  by (simp add: valid_kSize_def)

lemma rq_example_pos: "rq_pos 4 18 = 2" "rq_pos 4 0 = 0" "unat (4::u32) = 4"
  by (simp_all add: rq_pos_def kMask2_def)

lemma rq_example_len: "rq_len 4 rq_example = 2"
  by (simp add: rq_len_def rq_example_def rq_example_pos)

lemma rq_example_inv: "rq_inv 4 rq_example" "rq_items 4 rq_example = [20, 10]"
proof -
  show "rq_inv 4 rq_example"
    by (simp add: rq_inv_def valid_kSize_4 rq_example_len ring_ok_def rq_example_pos all_less_4)
      (simp add: rq_example_def rq_example_pos)
  show "rq_items 4 rq_example = [20, 10]"
    by (simp add: rq_items_def rq_example_len ring_items_def upt_rec)
      (simp add: rq_example_def rq_example_pos)
qed

theorem run_queue_history_witness:
  "\<exists>q. run_ops (deque_step 4) [] [PushF 7, PopB :: u32 deque_op] = ([Pushed True, Popped 7], rq_items 4 q)"
proof -
  obtain q0 :: "u32 run_queue" where q0: "RunQueue 4 = Some q0" by (simp add: RunQueue_def)
  obtain rs q where run: "run_ops (ops_step (PushFront 4) (PopFront 4) (PushBack 4) (PopBack 4)) q0
      [PushF 7, PopB] = (rs, q)" by fastforce
  from run_queue_history [OF q0 run] show ?thesis by auto
qed

theorem PopBackHalf_takes_half_witness:
  "\<exists>n q'. PopBackHalf 4 [] rq_example = Some (n, [10], q') \<and> rq_items 4 q' = [20]"
  using PopBackHalf_takes_half [OF rq_example_inv(1), of "[]"] by (auto simp: rq_example_inv(2))

lemma size_estimates_example:
  "(CalculateSize 4 5 3 = 0 \<longleftrightarrow> (5 XOR 3) AND kMask2 4 = 0) \<and> unat (CalculateSize 4 5 3) \<le> 4"
  using size_estimates [OF valid_kSize_4, of 5 3] by simp

lemma Flush_returns_empty_example:
  "unat (Size 4 rq_example) = 2 \<and> (\<exists>q'. Flush 4 rq_example = Some q' \<and> rq_items 4 q' = [])"
  using Flush_returns_empty [OF rq_example_inv(1)] by (auto simp: rq_example_inv(2))

end
