(* ===== verification/Fifo_Spec.thy ===== *)
theory Fifo_Spec
  imports Prelude
begin

text \<open>
  What the thread pool relies on in a worker's mailbox: a bounded first-in first-out queue.  The
  locale \<open>bounded_fifo\<close> states the contract of the two non-blocking operations.  A budget bounds
  the number of pushes the implementation's counters can number; a push uses up at most one unit.
\<close>

datatype 'w fifo_op = Give 'w | Take

datatype 'w fifo_res = Given bool | Taken "'w option"

fun fifo_step :: "nat \<Rightarrow> 'w list \<Rightarrow> 'w fifo_op \<Rightarrow> 'w fifo_res \<times> 'w list" where
  "fifo_step cap xs (Give x) = (if length xs < cap then (Given True, xs @ [x]) else (Given False, xs))"
| "fifo_step cap xs Take = (case xs of [] \<Rightarrow> (Taken None, []) | y # ys \<Rightarrow> (Taken (Some y), ys))"

text \<open>A history whose operations may fail to return: \<open>None\<close> when one of them does not.\<close>

fun run_fifo :: "('q \<Rightarrow> 'o \<Rightarrow> ('r \<times> 'q) option) \<Rightarrow> 'q \<Rightarrow> 'o list \<Rightarrow> ('r list \<times> 'q) option" where
  "run_fifo f q [] = Some ([], q)"
| "run_fifo f q (op # ops) =
     (case f q op of
        None \<Rightarrow> None
      | Some (r, q1) \<Rightarrow> (case run_fifo f q1 ops of None \<Rightarrow> None | Some (rs, q2) \<Rightarrow> Some (r # rs, q2)))"

fun given :: "'w fifo_op list \<Rightarrow> 'w fifo_res list \<Rightarrow> 'w list" where
  "given (Give x # ops) (Given True # rs) = x # given ops rs"
| "given (_ # ops) (_ # rs) = given ops rs"
| "given _ _ = []"

fun taken :: "'w fifo_res list \<Rightarrow> 'w list" where
  "taken [] = []"
| "taken (Taken (Some x) # rs) = x # taken rs"
| "taken (_ # rs) = taken rs"

text \<open>
  First in, first out: what was in the queue followed by what was accepted, in order, is what was
  taken followed by what is left.
\<close>

lemma fifo_order:
  assumes "run_fifo (\<lambda>xs op. Some (fifo_step cap xs op)) xs ops = Some (rs, ys)"
  shows "xs @ given ops rs = taken rs @ ys"
  using assms
proof (induction ops arbitrary: xs rs)
  case Nil
  then show ?case by simp
next
  case (Cons op ops)
  obtain r zs where step: "fifo_step cap xs op = (r, zs)" by fastforce
  obtain rs' where rest: "run_fifo (\<lambda>xs op. Some (fifo_step cap xs op)) zs ops = Some (rs', ys)"
    and rs: "rs = r # rs'"
    using Cons.prems step by (auto split: prod.splits option.splits)
  note IH = Cons.IH [OF rest]
  show ?case
  proof (cases op)
    case (Give x)
    with step IH rs show ?thesis by (cases "length xs < cap") auto
  next
    case Take
    with step IH rs show ?thesis by (cases xs) auto
  qed
qed

definition fifo_ops ::
  "('w \<Rightarrow> 'q \<Rightarrow> (bool \<times> 'q) option) \<Rightarrow> ('q \<Rightarrow> ('w option \<times> 'q) option) \<Rightarrow> 'q \<Rightarrow> 'w fifo_op
     \<Rightarrow> ('w fifo_res \<times> 'q) option" where
  "fifo_ops tpush tpop q op =
     (case op of
        Give x \<Rightarrow> (case tpush x q of None \<Rightarrow> None | Some (b, q) \<Rightarrow> Some (Given b, q))
      | Take \<Rightarrow> (case tpop q of None \<Rightarrow> None | Some (y, q) \<Rightarrow> Some (Taken y, q)))"

locale bounded_fifo =
  fixes inv :: "'q \<Rightarrow> bool"
    and items :: "'q \<Rightarrow> 'w list"
    and cap :: "'q \<Rightarrow> nat"
    and budget :: "'q \<Rightarrow> nat"
    and tpush :: "'w \<Rightarrow> 'q \<Rightarrow> (bool \<times> 'q) option"
    and tpop :: "'q \<Rightarrow> ('w option \<times> 'q) option"
  assumes tpush_ok: "inv q \<Longrightarrow> 0 < budget q \<Longrightarrow>
      \<exists>ok q'. tpush x q = Some (ok, q') \<and> (Given ok, items q') = fifo_step (cap q) (items q) (Give x)
        \<and> inv q' \<and> cap q' = cap q \<and> budget q \<le> Suc (budget q')"
    and tpop_ok: "inv q \<Longrightarrow>
      \<exists>y q'. tpop q = Some (y, q') \<and> (Taken y, items q') = fifo_step (cap q) (items q) Take
        \<and> inv q' \<and> cap q' = cap q \<and> budget q' = budget q"
begin

abbreviation fstep :: "'q \<Rightarrow> 'w fifo_op \<Rightarrow> ('w fifo_res \<times> 'q) option" where
  "fstep \<equiv> fifo_ops tpush tpop"

lemma step_returns:
  assumes "inv q" "0 < budget q"
  shows "\<exists>r q'. fstep q op = Some (r, q') \<and> fifo_step (cap q) (items q) op = (r, items q')
    \<and> inv q' \<and> cap q' = cap q \<and> budget q \<le> Suc (budget q')"
proof (cases op)
  case (Give x)
  with tpush_ok [OF assms, of x] show ?thesis by (auto simp: fifo_ops_def split: option.splits)
next
  case Take
  with tpop_ok [OF assms(1)] show ?thesis by (auto simp: fifo_ops_def split: option.splits)
qed

lemma history_returns:
  assumes "inv q" "length ops \<le> budget q"
  shows "\<exists>rs q'. run_fifo fstep q ops = Some (rs, q') \<and> inv q' \<and> cap q' = cap q
    \<and> run_fifo (\<lambda>xs op. Some (fifo_step (cap q) xs op)) (items q) ops = Some (rs, items q')"
  using assms
proof (induction ops arbitrary: q)
  case Nil
  then show ?case by simp
next
  case (Cons op ops)
  from Cons.prems step_returns [of q op] obtain r q1 where one: "fstep q op = Some (r, q1)"
    "fifo_step (cap q) (items q) op = (r, items q1)" "inv q1" "cap q1 = cap q" "budget q \<le> Suc (budget q1)"
    by auto
  from one(3) obtain rs q' where "run_fifo fstep q1 ops = Some (rs, q')" "inv q'" "cap q' = cap q1"
    "run_fifo (\<lambda>xs op. Some (fifo_step (cap q1) xs op)) (items q1) ops = Some (rs, items q')"
    using Cons.IH [of q1] Cons.prems(2) one(5) by auto
  with one show ?case by simp
qed

lemma history_fifo:
  assumes "inv q" "length ops \<le> budget q"
  shows "\<exists>rs q'. run_fifo fstep q ops = Some (rs, q') \<and> inv q'
    \<and> items q @ given ops rs = taken rs @ items q'"
  using history_returns [OF assms] fifo_order by blast

end

end
