(* ===== verification/Mpmc_Queue.thy ===== *)
theory Mpmc_Queue
  imports Fifo_Spec
begin

text \<open>
  The mailbox of every worker thread, \<open>rigtorp::mpmc::Queue<T>\<close> of src/include/eigen/mpmc_queue.h:
  a bounded multi-producer multi-consumer queue in which every push and every pop takes a ticket
  and a slot's turn number tells whose turn it is.  This theory runs one call at a time (Mpmc\_Conc
  holds the concurrent protocol).  The alignment of the allocated block is the allocator's answer
  and is an argument of the constructor.
\<close>

section \<open>State\<close>

record 'a slot =
  sl_turn :: u64
  sl_storage :: 'a

record 'a mpmc_queue =
  mq_capacity :: u64
  mq_slots :: "'a slot list"
  mq_head :: u64
  mq_tail :: u64

datatype mpmc_error = InvalidArgument | BadAlloc

definition Queue :: "bool \<Rightarrow> u64 \<Rightarrow> mpmc_error + 'a::zero mpmc_queue" where
  "Queue aligned capacity =
     (if capacity < 1 then Inl InvalidArgument
      else if \<not> aligned then Inl BadAlloc
      else Inr \<lparr>mq_capacity = capacity,
                mq_slots = replicate (unat capacity) \<lparr>sl_turn = 0, sl_storage = 0\<rparr>,
                mq_head = 0, mq_tail = 0\<rparr>)"

definition idx :: "'a mpmc_queue \<Rightarrow> u64 \<Rightarrow> nat" where
  "idx q i = unat (i mod mq_capacity q)"

definition turn :: "'a mpmc_queue \<Rightarrow> u64 \<Rightarrow> u64" where
  "turn q i = i div mq_capacity q"

section \<open>Operations\<close>

definition construct_slot :: "nat \<Rightarrow> 'a \<Rightarrow> 'a mpmc_queue \<Rightarrow> 'a mpmc_queue" where
  "construct_slot i v q = q\<lparr>mq_slots := (mq_slots q)[i := (mq_slots q ! i)\<lparr>sl_storage := v\<rparr>]\<rparr>"

definition store_turn :: "nat \<Rightarrow> u64 \<Rightarrow> 'a mpmc_queue \<Rightarrow> 'a mpmc_queue" where
  "store_turn i t q = q\<lparr>mq_slots := (mq_slots q)[i := (mq_slots q ! i)\<lparr>sl_turn := t\<rparr>]\<rparr>"

text \<open>
  A spin loop that waits for a slot's turn: with nobody else running it returns at once or never
  (\<open>None\<close>).
\<close>

partial_function (option) spin_turn :: "nat \<Rightarrow> u64 \<Rightarrow> 'a mpmc_queue \<Rightarrow> unit option" where
  "spin_turn i t q = (if t \<noteq> sl_turn (mq_slots q ! i) then spin_turn i t q else Some ())"

definition emplace :: "'a \<Rightarrow> 'a mpmc_queue \<Rightarrow> 'a mpmc_queue option" where
  "emplace v q =
     (let head = mq_head q;
          q = q\<lparr>mq_head := head + 1\<rparr>;
          i = idx q head
      in case spin_turn i (turn q head * 2) q of
           None \<Rightarrow> None
         | Some _ \<Rightarrow> Some (store_turn i (turn q head * 2 + 1) (construct_slot i v q)))"

definition compare_exchange_head :: "u64 \<Rightarrow> u64 \<Rightarrow> 'a mpmc_queue \<Rightarrow> bool \<times> 'a mpmc_queue" where
  "compare_exchange_head expected desired q =
     (if mq_head q = expected then (True, q\<lparr>mq_head := desired\<rparr>) else (False, q))"

definition compare_exchange_tail :: "u64 \<Rightarrow> u64 \<Rightarrow> 'a mpmc_queue \<Rightarrow> bool \<times> 'a mpmc_queue" where
  "compare_exchange_tail expected desired q =
     (if mq_tail q = expected then (True, q\<lparr>mq_tail := desired\<rparr>) else (False, q))"

partial_function (option) try_emplace_loop ::
  "u64 \<Rightarrow> 'a \<Rightarrow> 'a mpmc_queue \<Rightarrow> (bool \<times> 'a mpmc_queue) option" where
  "try_emplace_loop head v q =
     (let i = idx q head
      in if turn q head * 2 = sl_turn (mq_slots q ! i) then
           (case compare_exchange_head head (head + 1) q of
              (ok, q) \<Rightarrow>
                if ok then Some (True, store_turn i (turn q head * 2 + 1) (construct_slot i v q))
                else try_emplace_loop (mq_head q) v q)
         else
           let prevHead = head; head = mq_head q
           in if head = prevHead then Some (False, q) else try_emplace_loop head v q)"

definition try_push :: "'a \<Rightarrow> 'a mpmc_queue \<Rightarrow> (bool \<times> 'a mpmc_queue) option" where
  "try_push v q = try_emplace_loop (mq_head q) v q"

definition push :: "'a \<Rightarrow> 'a mpmc_queue \<Rightarrow> 'a mpmc_queue option" where
  "push v q = emplace v q"

definition pop :: "'a mpmc_queue \<Rightarrow> ('a \<times> 'a mpmc_queue) option" where
  "pop q =
     (let tail = mq_tail q;
          q = q\<lparr>mq_tail := tail + 1\<rparr>;
          i = idx q tail
      in case spin_turn i (turn q tail * 2 + 1) q of
           None \<Rightarrow> None
         | Some _ \<Rightarrow> Some (sl_storage (mq_slots q ! i), store_turn i (turn q tail * 2 + 2) q))"

text \<open>\<open>try_pop\<close> writes its argument only when it succeeds: \<open>None\<close> in the result is "left alone".\<close>

partial_function (option) try_pop_loop ::
  "u64 \<Rightarrow> 'a mpmc_queue \<Rightarrow> ('a option \<times> 'a mpmc_queue) option" where
  "try_pop_loop tail q =
     (let i = idx q tail
      in if turn q tail * 2 + 1 = sl_turn (mq_slots q ! i) then
           (case compare_exchange_tail tail (tail + 1) q of
              (ok, q) \<Rightarrow>
                if ok then Some (Some (sl_storage (mq_slots q ! i)), store_turn i (turn q tail * 2 + 2) q)
                else try_pop_loop (mq_tail q) q)
         else
           let prevTail = tail; tail = mq_tail q
           in if tail = prevTail then Some (None, q) else try_pop_loop tail q)"

definition try_pop :: "'a mpmc_queue \<Rightarrow> ('a option \<times> 'a mpmc_queue) option" where
  "try_pop q = try_pop_loop (mq_tail q) q"

text \<open>The size is a signed difference: negative while readers wait.\<close>

definition mq_size :: "'a mpmc_queue \<Rightarrow> int" where
  "mq_size q = sint (mq_head q - mq_tail q)"

definition mq_empty :: "'a mpmc_queue \<Rightarrow> bool" where
  "mq_empty q \<longleftrightarrow> mq_size q \<le> 0"

text \<open>
  The destructors: a slot whose turn is odd holds an object and destroys it, and the queue destroys its slots in
  order.  The results are the objects destroyed.
\<close>

definition Slot_destructor :: "'a slot \<Rightarrow> 'a list" where
  "Slot_destructor s = (if sl_turn s AND 1 \<noteq> 0 then [sl_storage s] else [])"

definition Queue_destructor :: "'a mpmc_queue \<Rightarrow> 'a list" where
  "Queue_destructor q = concat (map (\<lambda>i. Slot_destructor (mq_slots q ! i)) [0..<unat (mq_capacity q)])"

text \<open>
  The aligned allocator of older compilers: what \<open>posix_memalign\<close> returns for an alignment and a number of bytes
  is an argument.
\<close>

datatype alloc_error = BadArrayNewLength | NoMemory

definition allocate :: "(u64 \<Rightarrow> u64 \<Rightarrow> u64 option) \<Rightarrow> u64 \<Rightarrow> u64 \<Rightarrow> u64 \<Rightarrow> alloc_error + u64" where
  "allocate posix_memalign esize align n =
     (if n > (- 1) div esize then Inl BadArrayNewLength
      else case posix_memalign align (esize * n) of None \<Rightarrow> Inl NoMemory | Some p \<Rightarrow> Inr p)"

section \<open>Tickets\<close>

text \<open>
  Read as numbers, the two counters are tickets: the ticket \<open>n\<close> uses slot \<open>n mod capacity\<close>, whose
  turn is \<open>2 * (n div capacity)\<close> before the push with that ticket, one more between push and pop,
  and two more after the pop.  The bound \<open>2 ^ 62\<close> on the tickets keeps the counters and the turns
  from wrapping around.
\<close>

definition ticket_turn :: "nat \<Rightarrow> nat \<Rightarrow> nat" where
  "ticket_turn cap n = 2 * (n div cap)"

definition mq_inv :: "'a mpmc_queue \<Rightarrow> bool" where
  "mq_inv q \<longleftrightarrow>
     (let cap = unat (mq_capacity q); h = unat (mq_head q); t = unat (mq_tail q)
      in 0 < cap \<and> cap < 2 ^ 62 \<and> length (mq_slots q) = cap \<and> t \<le> h \<and> h \<le> t + cap \<and> h < 2 ^ 62 \<and>
         (\<forall>n. t \<le> n \<and> n < t + cap \<longrightarrow>
            sl_turn (mq_slots q ! (n mod cap)) = of_nat (ticket_turn cap n + (if n < h then 1 else 0))))"

definition mq_items :: "'a mpmc_queue \<Rightarrow> 'a list" where
  "mq_items q = map (\<lambda>n. sl_storage (mq_slots q ! (n mod unat (mq_capacity q))))
     [unat (mq_tail q)..<unat (mq_head q)]"

definition mq_tickets :: "'a mpmc_queue \<Rightarrow> nat" where
  "mq_tickets q = 2 ^ 62 - 1 - unat (mq_head q)"

lemma mq_idx: "idx q i = unat i mod unat (mq_capacity q)"
  by (simp add: idx_def unat_mod)

lemma mq_turn: "turn q i * 2 = of_nat (ticket_turn (unat (mq_capacity q)) (unat i))"
  by (simp add: turn_def ticket_turn_def word_div_of_nat)

lemma mq_invD:
  assumes "mq_inv q"
  shows "0 < unat (mq_capacity q)" "unat (mq_capacity q) < 2 ^ 62"
    "length (mq_slots q) = unat (mq_capacity q)"
    "unat (mq_tail q) \<le> unat (mq_head q)"
    "unat (mq_head q) \<le> unat (mq_tail q) + unat (mq_capacity q)"
    "unat (mq_head q) < 2 ^ 62"
    "\<And>n. unat (mq_tail q) \<le> n \<Longrightarrow> n < unat (mq_tail q) + unat (mq_capacity q) \<Longrightarrow>
       sl_turn (mq_slots q ! (n mod unat (mq_capacity q)))
         = of_nat (ticket_turn (unat (mq_capacity q)) n + (if n < unat (mq_head q) then 1 else 0))"
  using assms by (simp_all add: mq_inv_def Let_def)

lemma window_inj:
  assumes "t \<le> m" "m < t + c" "t \<le> n" "n < t + (c::nat)"
  shows "m mod c = n mod c \<longleftrightarrow> m = n"
  using ring_inj [of "m - t" c "n - t" t] assms by auto

lemma ticket_turn_less: "n < 2 ^ 62 \<Longrightarrow> ticket_turn c n < 2 ^ 63"
proof -
  assume "n < 2 ^ 62"
  then have "n div c < 2 ^ 62" by (meson div_le_dividend le_less_trans)
  then show ?thesis by (simp add: ticket_turn_def)
qed

lemma ticket_turn_next: "0 < c \<Longrightarrow> ticket_turn c (n + c) = ticket_turn c n + 2"
  using div_add_self2 [of c n] by (simp add: ticket_turn_def)

lemma ticket_turn_neq:
  assumes "a < 2 ^ 63 + 2" "b < 2 ^ 63 + 2" "a \<noteq> b"
  shows "(of_nat a :: u64) \<noteq> of_nat b"
  using assms of_nat_u64_inj [of a b] by simp

lemma length_mq_items: "length (mq_items q) = unat (mq_head q) - unat (mq_tail q)"
  by (simp add: mq_items_def)

text \<open>To establish the invariant after a push or a pop.\<close>

lemma slot_update:
  "(s :: 'a slot)\<lparr>sl_storage := v\<rparr> = \<lparr>sl_turn = sl_turn s, sl_storage = v\<rparr>"
  "(s :: 'a slot)\<lparr>sl_turn := t\<rparr> = \<lparr>sl_turn = t, sl_storage = sl_storage s\<rparr>"
  by (cases s; simp)+

lemma mq_slot_write:
  assumes "i < length (mq_slots q)"
  shows "mq_slots (construct_slot i v q) = (mq_slots q)[i := \<lparr>sl_turn = sl_turn (mq_slots q ! i), sl_storage = v\<rparr>]"
    "mq_slots (store_turn i t q) = (mq_slots q)[i := \<lparr>sl_turn = t, sl_storage = sl_storage (mq_slots q ! i)\<rparr>]"
  by (simp_all add: construct_slot_def store_turn_def slot_update)

lemma mq_write_frame [simp]:
  "mq_capacity (construct_slot i v q) = mq_capacity q" "mq_head (construct_slot i v q) = mq_head q"
  "mq_tail (construct_slot i v q) = mq_tail q" "mq_capacity (store_turn i t q) = mq_capacity q"
  "mq_head (store_turn i t q) = mq_head q" "mq_tail (store_turn i t q) = mq_tail q"
  "length (mq_slots (construct_slot i v q)) = length (mq_slots q)"
  by (simp_all add: construct_slot_def store_turn_def)

lemma mq_pushed:
  assumes inv: "mq_inv q" and room: "unat (mq_head q) < unat (mq_tail q) + unat (mq_capacity q)"
    and tickets: "0 < mq_tickets q"
  defines "i \<equiv> unat (mq_head q) mod unat (mq_capacity q)"
  assumes q': "mq_capacity q' = mq_capacity q" "mq_head q' = mq_head q + 1" "mq_tail q' = mq_tail q"
    "mq_slots q' = (mq_slots q)[i := \<lparr>sl_turn = turn q (mq_head q) * 2 + 1, sl_storage = v\<rparr>]"
  shows "mq_inv q' \<and> mq_items q' = mq_items q @ [v]"
proof -
  let ?c = "unat (mq_capacity q)" and ?h = "unat (mq_head q)" and ?t = "unat (mq_tail q)"
  note D = mq_invD [OF inv]
  have h1: "unat (mq_head q') = Suc ?h" using tickets D(6) by (simp add: q' mq_tickets_def unat_word_ariths)
  have i: "i < ?c" using D(1) by (simp add: i_def)
  have slot: "mq_slots q' ! (n mod ?c) =
      (if n = ?h then \<lparr>sl_turn = turn q (mq_head q) * 2 + 1, sl_storage = v\<rparr> else mq_slots q ! (n mod ?c))"
    if "?t \<le> n" "n < ?t + ?c" for n
    using window_inj [of ?t n ?c ?h] that room D(3,4) i by (auto simp: q' i_def)
  have turns: "sl_turn (mq_slots q' ! (n mod ?c)) = of_nat (ticket_turn ?c n + (if n < Suc ?h then 1 else 0))"
    if "?t \<le> n" "n < ?t + ?c" for n
    using slot [OF that] D(7) [OF that] by (auto simp: mq_turn)
  have "mq_inv q'"
    using D turns room tickets by (simp add: mq_inv_def h1 q'(1,3)) (simp add: q'(4) mq_tickets_def)
  moreover have "mq_items q' = mq_items q @ [v]"
    using slot room D(4) by (simp add: mq_items_def h1 q'(1,3))
  ultimately show ?thesis ..
qed

lemma mq_popped:
  assumes inv: "mq_inv q" and some: "unat (mq_tail q) < unat (mq_head q)"
  defines "i \<equiv> unat (mq_tail q) mod unat (mq_capacity q)"
  assumes q': "mq_capacity q' = mq_capacity q" "mq_head q' = mq_head q" "mq_tail q' = mq_tail q + 1"
    "mq_slots q' = (mq_slots q)[i := \<lparr>sl_turn = turn q (mq_tail q) * 2 + 2, sl_storage = v\<rparr>]"
  shows "mq_inv q' \<and> mq_items q = sl_storage (mq_slots q ! i) # mq_items q'"
proof -
  let ?c = "unat (mq_capacity q)" and ?h = "unat (mq_head q)" and ?t = "unat (mq_tail q)"
  note D = mq_invD [OF inv]
  have t1: "unat (mq_tail q') = Suc ?t" using some D(6) by (simp add: q' unat_word_ariths)
  have i: "i < ?c" using D(1) by (simp add: i_def)
  have slot: "mq_slots q' ! (n mod ?c) =
      (if n = ?t then \<lparr>sl_turn = turn q (mq_tail q) * 2 + 2, sl_storage = v\<rparr> else mq_slots q ! (n mod ?c))"
    if "?t \<le> n" "n < ?t + ?c" for n
    using window_inj [of ?t n ?c ?t] that D(3,4) i by (auto simp: q' i_def)
  have turns: "sl_turn (mq_slots q' ! (n mod ?c)) = of_nat (ticket_turn ?c n + (if n < ?h then 1 else 0))"
    if "Suc ?t \<le> n" "n < Suc ?t + ?c" for n
  proof (cases "n = ?t + ?c")
    case True
    then show ?thesis using slot [of ?t] D(1,5) by (simp add: mq_turn ticket_turn_next)
  next
    case False
    then show ?thesis using slot [of n] D(7) [of n] that by simp
  qed
  have "mq_inv q'"
    using D turns some by (simp add: mq_inv_def t1 q'(1,2)) (simp add: q'(4))
  moreover have "mq_items q' = map (\<lambda>n. sl_storage (mq_slots q ! (n mod ?c))) [Suc ?t..<?h]"
    using slot D(5) by (simp add: mq_items_def t1 q'(1,2))
  then have "mq_items q = sl_storage (mq_slots q ! i) # mq_items q'"
    using some by (simp add: mq_items_def upt_conv_Cons i_def)
  ultimately show ?thesis ..
qed

section \<open>The non-blocking operations\<close>

lemma full_turn:
  assumes inv: "mq_inv q" and full: "unat (mq_head q) = unat (mq_tail q) + unat (mq_capacity q)"
  shows "turn q (mq_head q) * 2 \<noteq> sl_turn (mq_slots q ! idx q (mq_head q))"
proof -
  let ?c = "unat (mq_capacity q)" and ?h = "unat (mq_head q)" and ?t = "unat (mq_tail q)"
  note D = mq_invD [OF inv]
  have "?h mod ?c = ?t mod ?c" by (simp add: full)
  then have "sl_turn (mq_slots q ! (?h mod ?c)) = of_nat (ticket_turn ?c ?t + 1)"
    using D(7) [of ?t] D(1) full by simp
  moreover have "(of_nat (ticket_turn ?c ?h) :: u64) \<noteq> of_nat (ticket_turn ?c ?t + 1)"
    using ticket_turn_less [of ?t ?c] D(1,5,6) full
    by (intro ticket_turn_neq) (simp_all add: ticket_turn_next)
  ultimately show ?thesis
    by (simp add: mq_turn mq_idx)
qed

lemma try_push_full:
  assumes "mq_inv q" "unat (mq_head q) = unat (mq_tail q) + unat (mq_capacity q)"
  shows "try_push v q = Some (False, q)"
  using full_turn [OF assms] by (simp add: try_push_def try_emplace_loop.simps)

lemma try_push_room:
  assumes inv: "mq_inv q" and room: "unat (mq_head q) < unat (mq_tail q) + unat (mq_capacity q)"
    and tickets: "0 < mq_tickets q"
  shows "\<exists>q'. try_push v q = Some (True, q') \<and> push v q = Some q'
    \<and> mq_inv q' \<and> mq_items q' = mq_items q @ [v]
    \<and> mq_head q' = mq_head q + 1 \<and> mq_capacity q' = mq_capacity q"
proof -
  let ?c = "unat (mq_capacity q)" and ?h = "unat (mq_head q)" and ?t = "unat (mq_tail q)"
  let ?i = "?h mod ?c"
  note D = mq_invD [OF inv]
  have ready: "turn q (mq_head q) * 2 = sl_turn (mq_slots q ! ?i)"
    using D(7) [of ?h] D(4) room by (simp add: mq_turn)
  define q1 where "q1 = q\<lparr>mq_head := mq_head q + 1\<rparr>"
  define q' where "q' = store_turn ?i (turn q (mq_head q) * 2 + 1) (construct_slot ?i v q1)"
  have q1: "turn q1 i = turn q i" "idx q1 i = idx q i" "mq_slots q1 = mq_slots q"
    "mq_capacity q1 = mq_capacity q" for i
    by (simp_all add: q1_def turn_def idx_def)
  have "try_push v q = Some (True, q')"
    by (simp add: try_push_def try_emplace_loop.simps mq_idx ready compare_exchange_head_def Let_def
        q1_def [symmetric] q1 q'_def)
  moreover have "push v q = Some q'"
    using ready by (simp add: push_def emplace_def Let_def q1_def [symmetric] q1 mq_idx q'_def
        spin_turn.simps)
  moreover have "?i < length (mq_slots q1)" using D(1,3) by (simp add: q1)
  then have "mq_slots q' = (mq_slots q)[?i := \<lparr>sl_turn = turn q (mq_head q) * 2 + 1, sl_storage = v\<rparr>]"
    by (simp add: q'_def mq_slot_write q1)
  then have "mq_inv q' \<and> mq_items q' = mq_items q @ [v]"
    by (intro mq_pushed [OF inv room tickets]) (simp_all add: q'_def q1_def)
  ultimately show ?thesis by (auto simp: q'_def q1_def)
qed

lemma empty_turn:
  assumes inv: "mq_inv q" and emp: "unat (mq_head q) = unat (mq_tail q)"
  shows "turn q (mq_tail q) * 2 + 1 \<noteq> sl_turn (mq_slots q ! idx q (mq_tail q))"
proof -
  let ?c = "unat (mq_capacity q)" and ?t = "unat (mq_tail q)"
  note D = mq_invD [OF inv]
  have "sl_turn (mq_slots q ! (?t mod ?c)) = of_nat (ticket_turn ?c ?t)"
    using D(7) [of ?t] D(1) emp by simp
  moreover have "(of_nat (ticket_turn ?c ?t + 1) :: u64) \<noteq> of_nat (ticket_turn ?c ?t)"
    using ticket_turn_less [of ?t ?c] D(6) emp by (intro ticket_turn_neq) simp_all
  ultimately show ?thesis
    by (simp add: mq_turn mq_idx add.commute)
qed

lemma try_pop_empty:
  assumes "mq_inv q" "unat (mq_head q) = unat (mq_tail q)"
  shows "try_pop q = Some (None, q)"
  using empty_turn [OF assms] by (simp add: try_pop_def try_pop_loop.simps)

lemma try_pop_some:
  assumes inv: "mq_inv q" and some: "unat (mq_tail q) < unat (mq_head q)"
  shows "\<exists>v q'. try_pop q = Some (Some v, q') \<and> pop q = Some (v, q')
    \<and> mq_inv q' \<and> mq_items q = v # mq_items q'
    \<and> mq_head q' = mq_head q \<and> mq_capacity q' = mq_capacity q"
proof -
  let ?c = "unat (mq_capacity q)" and ?t = "unat (mq_tail q)"
  let ?i = "?t mod ?c"
  note D = mq_invD [OF inv]
  have ready: "turn q (mq_tail q) * 2 + 1 = sl_turn (mq_slots q ! ?i)"
    using D(7) [of ?t] D(1) some by (simp add: mq_turn)
  define q1 where "q1 = q\<lparr>mq_tail := mq_tail q + 1\<rparr>"
  define v where "v = sl_storage (mq_slots q ! ?i)"
  define q' where "q' = store_turn ?i (turn q (mq_tail q) * 2 + 2) q1"
  have q1: "turn q1 i = turn q i" "idx q1 i = idx q i" "mq_slots q1 = mq_slots q"
    "mq_capacity q1 = mq_capacity q" for i
    by (simp_all add: q1_def turn_def idx_def)
  have "try_pop q = Some (Some v, q')"
    by (simp add: try_pop_def try_pop_loop.simps mq_idx ready compare_exchange_tail_def Let_def
        q1_def [symmetric] q1 q'_def v_def)
  moreover have "pop q = Some (v, q')"
    using ready by (simp add: pop_def Let_def q1_def [symmetric] q1 mq_idx q'_def v_def spin_turn.simps)
  moreover have "?i < length (mq_slots q1)" using D(1,3) by (simp add: q1)
  then have "mq_slots q' = (mq_slots q)[?i := \<lparr>sl_turn = turn q (mq_tail q) * 2 + 2, sl_storage = v\<rparr>]"
    by (simp add: q'_def mq_slot_write q1 v_def)
  then have "mq_inv q' \<and> mq_items q = v # mq_items q'"
    unfolding v_def by (intro mq_popped [OF inv some]) (simp_all add: q'_def q1_def v_def)
  ultimately show ?thesis by (auto simp: q'_def q1_def)
qed

section \<open>The blocking operations\<close>

lemma spin_turn_eq:
  "spin_turn i t q = (if t = sl_turn (mq_slots q ! i) then Some () else None)"
proof (cases "t = sl_turn (mq_slots q ! i)")
  case True
  then show ?thesis by (simp add: spin_turn.simps)
next
  case False
  have "t = sl_turn (mq_slots q ! i)" if "spin_turn i t q = Some r" for r
    by (rule spin_turn.raw_induct [where P = "\<lambda>i t q r. t = sl_turn (mq_slots q ! i)", OF _ that])
      (auto split: if_splits)
  with False show ?thesis by (cases "spin_turn i t q") auto
qed

lemma push_full:
  assumes "mq_inv q" "unat (mq_head q) = unat (mq_tail q) + unat (mq_capacity q)"
  shows "push v q = None"
  using full_turn [OF assms] by (simp add: push_def emplace_def Let_def spin_turn_eq turn_def idx_def)

lemma pop_empty:
  assumes "mq_inv q" "unat (mq_head q) = unat (mq_tail q)"
  shows "pop q = None"
  using empty_turn [OF assms] by (simp add: pop_def Let_def spin_turn_eq turn_def idx_def)

lemma mq_size_items:
  assumes "mq_inv q"
  shows "mq_size q = int (length (mq_items q))" "mq_empty q \<longleftrightarrow> mq_items q = []"
proof -
  note D = mq_invD [OF assms]
  have le: "mq_tail q \<le> mq_head q" using D(4) by (simp add: word_le_nat_alt)
  have d: "unat (mq_head q - mq_tail q) = unat (mq_head q) - unat (mq_tail q)"
    by (rule unat_sub [OF le])
  have u: "uint (mq_head q - mq_tail q) = int (length (mq_items q))"
    by (simp only: uint_nat d length_mq_items)
  have "int (length (mq_items q)) < 9223372036854775808" using D(6) by (simp add: length_mq_items)
  then have "signed_take_bit 63 (int (length (mq_items q))) = int (length (mq_items q))"
    by (intro signed_take_bit_int_eq_self) simp_all
  then show size: "mq_size q = int (length (mq_items q))" by (simp add: mq_size_def sint_uint u)
  show "mq_empty q \<longleftrightarrow> mq_items q = []" by (simp add: mq_empty_def size)
qed

section \<open>Destruction\<close>

lemma odd_turn: "(of_nat k :: u64) AND 1 \<noteq> 0 \<longleftrightarrow> odd k"
proof -
  have "unat ((of_nat k :: u64) AND 1) = k mod 2 ^ 64 mod 2"
    by (simp add: and_one_eq unat_mod unat_of_nat)
  also have "\<dots> = k mod 2" by (rule mod_mod_cancel) simp
  finally show ?thesis using unat_eq_zero [of "(of_nat k :: u64) AND 1"] by (metis even_iff_mod_2_eq_zero)
qed

lemma slots_window:
  assumes "0 < (c :: nat)"
  shows "image_mset (\<lambda>n. n mod c) (mset [t..<t + c]) = mset [0..<c]"
proof -
  have inj: "inj_on (\<lambda>n. n mod c) {t..<t + c}"
    using window_inj [of t _ c] by (auto simp: inj_on_def)
  have "(\<lambda>n. n mod c) ` {t..<t + c} = {0..<c}"
  proof (rule card_subset_eq)
    show "(\<lambda>n. n mod c) ` {t..<t + c} \<subseteq> {0..<c}" using assms by auto
    show "card ((\<lambda>n. n mod c) ` {t..<t + c}) = card {0..<c}" by (simp add: card_image [OF inj])
  qed simp
  then show ?thesis using image_mset_mset_set [OF inj] by simp
qed

lemma Queue_destructor_items:
  assumes "mq_inv q"
  shows "mset (Queue_destructor q) = mset (mq_items q)"
proof -
  let ?c = "unat (mq_capacity q)" and ?h = "unat (mq_head q)" and ?t = "unat (mq_tail q)"
  let ?f = "\<lambda>n. mset (Slot_destructor (mq_slots q ! (n mod ?c)))"
  note D = mq_invD [OF assms]
  have f: "?f n = (if n < ?h then {#sl_storage (mq_slots q ! (n mod ?c))#} else {#})" if "?t \<le> n" "n < ?t + ?c" for n
    unfolding Slot_destructor_def D(7) [OF that] odd_turn by (simp add: ticket_turn_def)
  have "mset (Queue_destructor q) = (\<Sum>i\<in>#mset [0..<?c]. mset (Slot_destructor (mq_slots q ! i)))"
    by (simp add: Queue_destructor_def mset_concat comp_def flip: sum_mset_sum_list)
  also have "\<dots> = (\<Sum>n\<in>#mset [?t..<?t + ?c]. ?f n)"
    by (simp only: slots_window [OF D(1), of ?t, symmetric] image_mset.compositionality comp_def)
  also have "[?t..<?t + ?c] = [?t..<?h] @ [?h..<?t + ?c]"
    using upt_add_eq_append [of ?t ?h "?t + ?c - ?h"] D(4,5) by simp
  also have "(\<Sum>n\<in>#mset ([?t..<?h] @ [?h..<?t + ?c]). ?f n)
      = (\<Sum>n\<in>#mset [?t..<?h]. ?f n) + (\<Sum>n\<in>#mset [?h..<?t + ?c]. ?f n)"
    by simp
  also have "(\<Sum>n\<in>#mset [?t..<?h]. ?f n) = (\<Sum>n\<in>#mset [?t..<?h]. {#sl_storage (mq_slots q ! (n mod ?c))#})"
    by (rule arg_cong [where f = sum_mset], rule image_mset_cong) (use f D(5) in auto)
  also have "(\<Sum>n\<in>#mset [?h..<?t + ?c]. ?f n) = (\<Sum>n\<in>#mset [?h..<?t + ?c]. {#})"
    by (rule arg_cong [where f = sum_mset], rule image_mset_cong) (use f D(4) in auto)
  finally show ?thesis by (simp add: mq_items_def)
qed

text \<open>The allocator asks for exactly the bytes of the elements, never for a product that has wrapped around.\<close>

lemma allocate_exact:
  assumes "allocate posix_memalign esize align n = Inr p" "0 < esize"
  shows "\<exists>bytes. posix_memalign align bytes = Some p \<and> unat bytes = unat esize * unat n"
proof -
  have some: "posix_memalign align (esize * n) = Some p" and le: "n \<le> (- 1) div esize"
    using assms(1) by (auto simp: allocate_def split: if_splits option.splits)
  have "unat n \<le> unat (- 1 :: u64) div unat esize" using le by (simp add: word_le_nat_alt unat_div)
  then have "unat esize * unat n \<le> unat esize * (unat (- 1 :: u64) div unat esize)" by simp
  also have "\<dots> \<le> unat (- 1 :: u64)" by simp
  finally have "unat esize * unat n < 2 ^ 64" by (simp add: unsigned_minus_1_eq_mask mask_eq_exp_minus_1)
  then have "unat (esize * n) = unat esize * unat n" by (simp add: unat_word_ariths)
  with some show ?thesis by blast
qed

section \<open>The contract\<close>

lemma Queue_inv:
  assumes "0 < unat capacity" "unat capacity < 2 ^ 62" "Queue True capacity = Inr q"
  shows "mq_inv q" "mq_items q = []" "mq_capacity q = capacity" "mq_tickets q = 2 ^ 62 - 1"
proof -
  have q: "q = \<lparr>mq_capacity = capacity, mq_slots = replicate (unat capacity) \<lparr>sl_turn = 0, sl_storage = 0\<rparr>,
                mq_head = 0, mq_tail = 0\<rparr>"
    using assms by (auto simp: Queue_def split: if_splits)
  show "mq_inv q" using assms(1,2) by (auto simp: q mq_inv_def ticket_turn_def)
  show "mq_items q = []" "mq_capacity q = capacity" "mq_tickets q = 2 ^ 62 - 1"
    by (simp_all add: q mq_items_def mq_tickets_def)
qed

lemma mq_tickets_push:
  assumes "mq_head q' = mq_head q + 1" "0 < mq_tickets q"
  shows "mq_tickets q \<le> Suc (mq_tickets q')"
proof -
  have "unat (mq_head q') \<le> Suc (unat (mq_head q))" by (simp add: assms(1) unat_word_ariths)
  then show ?thesis by (simp add: mq_tickets_def)
qed

lemma try_push_fifo:
  assumes "mq_inv q" "0 < mq_tickets q"
  shows "\<exists>ok q'. try_push x q = Some (ok, q')
    \<and> (Given ok, mq_items q') = fifo_step (unat (mq_capacity q)) (mq_items q) (Give x)
    \<and> mq_inv q' \<and> mq_capacity q' = mq_capacity q \<and> mq_tickets q \<le> Suc (mq_tickets q')"
proof (cases "unat (mq_head q) < unat (mq_tail q) + unat (mq_capacity q)")
  case True
  from try_push_room [OF assms(1) True assms(2), of x] obtain q' where
    "try_push x q = Some (True, q')" "mq_inv q'" "mq_items q' = mq_items q @ [x]"
    and h: "mq_head q' = mq_head q + 1" and "mq_capacity q' = mq_capacity q" by blast
  moreover have "length (mq_items q) < unat (mq_capacity q)"
    using True mq_invD(1,4) [OF assms(1)] by (simp add: length_mq_items)
  moreover have "mq_tickets q \<le> Suc (mq_tickets q')"
    by (rule mq_tickets_push [OF h assms(2)])
  ultimately show ?thesis by (intro exI [of _ True] exI [of _ q']) simp
next
  case False
  with mq_invD(5) [OF assms(1)] have full: "unat (mq_head q) = unat (mq_tail q) + unat (mq_capacity q)" by simp
  show ?thesis
    using try_push_full [OF assms(1) full, of x] assms(1) full
    by (intro exI [of _ False] exI [of _ q]) (simp add: length_mq_items)
qed

lemma try_pop_fifo:
  assumes "mq_inv q"
  shows "\<exists>y q'. try_pop q = Some (y, q')
    \<and> (Taken y, mq_items q') = fifo_step (unat (mq_capacity q)) (mq_items q) Take
    \<and> mq_inv q' \<and> mq_capacity q' = mq_capacity q \<and> mq_tickets q' = mq_tickets q"
proof (cases "unat (mq_tail q) < unat (mq_head q)")
  case True
  from try_pop_some [OF assms True] obtain v q' where
    "try_pop q = Some (Some v, q')" "mq_inv q'" "mq_items q = v # mq_items q'"
    "mq_head q' = mq_head q" "mq_capacity q' = mq_capacity q" by blast
  then show ?thesis by (simp add: mq_tickets_def)
next
  case False
  with mq_invD(4) [OF assms] have emp: "unat (mq_head q) = unat (mq_tail q)" by simp
  with try_pop_empty [OF assms this] assms show ?thesis by (simp add: mq_items_def)
qed

interpretation mailbox: bounded_fifo mq_inv mq_items "\<lambda>q. unat (mq_capacity q)" mq_tickets try_push try_pop
proof unfold_locales
  fix q :: "'a mpmc_queue" and x
  show "\<exists>ok q'. try_push x q = Some (ok, q')
    \<and> (Given ok, mq_items q') = fifo_step (unat (mq_capacity q)) (mq_items q) (Give x)
    \<and> mq_inv q' \<and> unat (mq_capacity q') = unat (mq_capacity q) \<and> mq_tickets q \<le> Suc (mq_tickets q')"
    if "mq_inv q" "0 < mq_tickets q"
    using try_push_fifo [OF that, of x] by metis
  show "\<exists>y q'. try_pop q = Some (y, q')
    \<and> (Taken y, mq_items q') = fifo_step (unat (mq_capacity q)) (mq_items q) Take
    \<and> mq_inv q' \<and> unat (mq_capacity q') = unat (mq_capacity q) \<and> mq_tickets q' = mq_tickets q"
    if "mq_inv q"
    using try_pop_fifo [OF that] by metis
qed

section \<open>Properties\<close>

text \<open>
  C8: From construction on, every sequence of at most \<open>2 ^ 62 - 1\<close> non-blocking pushes and pops of
  the mailbox returns (none of the two retry loops runs forever), gives exactly the results of a
  bounded first-in first-out queue of that capacity (a push fails only when the queue is full, a pop
  only when it is empty), and the items come out in the order in which they were accepted, none lost
  or duplicated.  The destructor then destroys exactly the items that are left.
\<close>

theorem mailbox_is_fifo:
  assumes "0 < unat capacity" "unat capacity < 2 ^ 62" "Queue True capacity = Inr q"
    and "length ops \<le> 2 ^ 62 - 1"
  shows "\<exists>rs q'. run_fifo (fifo_ops try_push try_pop) q ops = Some (rs, q')
    \<and> run_fifo (\<lambda>xs op. Some (fifo_step (unat capacity) xs op)) [] ops = Some (rs, mq_items q')
    \<and> given ops rs = taken rs @ mq_items q' \<and> mset (Queue_destructor q') = mset (mq_items q')"
proof -
  note Q = Queue_inv [OF assms(1-3)]
  from mailbox.history_returns [OF Q(1), of ops] obtain rs q' where
    "run_fifo (fifo_ops try_push try_pop) q ops = Some (rs, q')" "mq_inv q'"
    "run_fifo (\<lambda>xs op. Some (fifo_step (unat capacity) xs op)) [] ops = Some (rs, mq_items q')"
    using Q(2,3,4) assms(4) by auto
  with fifo_order [of "unat capacity" "[]"] Queue_destructor_items [of q'] show ?thesis by fastforce
qed

definition mailbox2 :: "u64 mpmc_queue" where
  "mailbox2 = \<lparr>mq_capacity = 2, mq_slots = [\<lparr>sl_turn = 0, sl_storage = 0\<rparr>, \<lparr>sl_turn = 0, sl_storage = 0\<rparr>],
     mq_head = 0, mq_tail = 0\<rparr>"

lemma mailbox2: "Queue True 2 = Inr mailbox2"
  by (simp add: Queue_def mailbox2_def) (simp add: eval_nat_numeral)

lemma fifo2_run:
  "run_fifo (\<lambda>xs op. Some (fifo_step (unat (2::u64)) xs op)) []
     [Give (7::u64), Give 8, Give 9, Take, Take, Take]
   = Some ([Given True, Given True, Given False, Taken (Some 7), Taken (Some 8), Taken None], [])"
  by simp

theorem mailbox_is_fifo_witness:
  "\<exists>rs q'. run_fifo (fifo_ops try_push try_pop) mailbox2 [Give 7, Give 8, Give 9, Take, Take, Take]
      = Some (rs, q')
    \<and> Some ([Given True, Given True, Given False, Taken (Some 7), Taken (Some 8), Taken None], [])
      = Some (rs, mq_items q') \<and> Queue_destructor q' = []"
  using mailbox_is_fifo [OF _ _ mailbox2, of "[Give 7, Give 8, Give 9, Take, Take, Take]"]
  unfolding fifo2_run by fastforce

text \<open>
  The blocking operations agree with the non-blocking ones when they can proceed, and wait
  forever exactly when, with no other thread running, they have to: \<open>push\<close> when the queue is full
  and \<open>pop\<close> when it is empty.
\<close>

lemma blocking_ops:
  assumes "mq_inv q" "0 < mq_tickets q"
  shows "push v q = (case try_push v q of Some (True, q') \<Rightarrow> Some q' | _ \<Rightarrow> None)
    \<and> pop q = (case try_pop q of Some (Some w, q') \<Rightarrow> Some (w, q') | _ \<Rightarrow> None)
    \<and> mq_size q = int (length (mq_items q)) \<and> (mq_empty q \<longleftrightarrow> mq_items q = [])"
proof (intro conjI)
  show "push v q = (case try_push v q of Some (True, q') \<Rightarrow> Some q' | _ \<Rightarrow> None)"
  proof (cases "unat (mq_head q) < unat (mq_tail q) + unat (mq_capacity q)")
    case True
    with try_push_room [OF assms(1) True assms(2), of v] show ?thesis by auto
  next
    case False
    with mq_invD(5) [OF assms(1)] have "unat (mq_head q) = unat (mq_tail q) + unat (mq_capacity q)" by simp
    with try_push_full [OF assms(1) this, of v] push_full [OF assms(1) this, of v] show ?thesis by simp
  qed
  show "pop q = (case try_pop q of Some (Some w, q') \<Rightarrow> Some (w, q') | _ \<Rightarrow> None)"
  proof (cases "unat (mq_tail q) < unat (mq_head q)")
    case True
    with try_pop_some [OF assms(1) True] show ?thesis by auto
  next
    case False
    with mq_invD(4) [OF assms(1)] have "unat (mq_head q) = unat (mq_tail q)" by simp
    with try_pop_empty [OF assms(1) this] pop_empty [OF assms(1) this] show ?thesis by simp
  qed
qed (use mq_size_items [OF assms(1)] in auto)

lemma mailbox2_inv: "mq_inv mailbox2" "0 < mq_tickets mailbox2"
  using Queue_inv [OF _ _ mailbox2] by simp_all

lemma blocking_ops_example:
  "push 5 mailbox2 = (case try_push 5 mailbox2 of Some (True, q') \<Rightarrow> Some q' | _ \<Rightarrow> None)
    \<and> pop mailbox2 = (case try_pop mailbox2 of Some (Some w, q') \<Rightarrow> Some (w, q') | _ \<Rightarrow> None)
    \<and> mq_size mailbox2 = int (length (mq_items mailbox2))
    \<and> (mq_empty mailbox2 \<longleftrightarrow> mq_items mailbox2 = [])"
  using mailbox2_inv by (rule blocking_ops)

end
