(* ===== verification/Pool_Arith.thy ===== *)
theory Pool_Arith
  imports Prelude
begin

text \<open>
  The arithmetic of the thread pool (src/include/eigen/nonblocking\_thread\_pool.h): steal partitions
  packed into one 32-bit word, the table of numbers coprime to the number of threads, the random
  generator, and the walk over the victims of a thief.
\<close>

section \<open>Partitions\<close>

definition kMaxPartitionBits :: nat where
  "kMaxPartitionBits = 16"

definition kMaxThreads :: int where
  "kMaxThreads = 2 ^ kMaxPartitionBits"

definition EncodePartition :: "u32 \<Rightarrow> u32 \<Rightarrow> u32" where
  "EncodePartition start limit = push_bit kMaxPartitionBits start OR limit"

definition DecodePartition :: "u32 \<Rightarrow> u32 \<times> u32" where
  "DecodePartition val =
     (let limit = val AND of_int (kMaxThreads - 1);
          val = drop_bit kMaxPartitionBits val
      in (val, limit))"

definition AssertBounds :: "int \<Rightarrow> int \<Rightarrow> int \<Rightarrow> bool" where
  "AssertBounds num_threads start limit \<longleftrightarrow> 0 \<le> start \<and> start < limit \<and> limit \<le> num_threads"

lemma high_bit:
  fixes w :: "u32"
  assumes "unat w < 2 ^ 16" "16 \<le> n" shows "\<not> bit w n"
proof
  assume "bit w n"
  then have "n < 32" "bit (unat w) n" by (simp_all add: bit_unsigned_iff bit_imp_le_length [where ?w=w, simplified])
  then have "odd (unat w div 2 ^ n)" by (simp add: bit_iff_odd)
  then have "2 ^ n \<le> unat w" by (cases "unat w < 2 ^ n") (simp_all add: not_less)
  moreover have "(2::nat) ^ 16 \<le> 2 ^ n" using assms(2) by (rule power_increasing) simp
  ultimately show False using assms(1) by linarith
qed
lemma decode_fields:
  fixes s l :: u32
  assumes "unat s < 2 ^ 16" "unat l < 2 ^ 16"
  shows "drop_bit 16 (push_bit 16 s OR l) = s" "(push_bit 16 s OR l) AND 65535 = l"
proof -
  note h = high_bit [OF assms(1)] high_bit [OF assms(2)]
  show "drop_bit 16 (push_bit 16 s OR l) = s"
  proof (rule bit_word_eqI)
    fix n assume "n < LENGTH(32)"
    show "bit (drop_bit 16 (push_bit 16 s OR l)) n = bit s n"
      using h(1)[of n] h(2)[of "16 + n"] \<open>n < LENGTH(32)\<close> by (cases "16 \<le> n") (auto simp: bit_simps)
  qed
  have m: "(65535 :: 32 word) = mask 16" by (simp add: mask_eq_exp_minus_1)
  show "(push_bit 16 s OR l) AND 65535 = l"
    unfolding m
  proof (rule bit_word_eqI)
    fix n assume "n < LENGTH(32)"
    show "bit ((push_bit 16 s OR l) AND mask 16) n = bit l n"
      using h(2)[of n] \<open>n < LENGTH(32)\<close> by (cases "16 \<le> n") (auto simp: bit_simps)
  qed
qed
lemma decode_encode:
  assumes "unat start < 2 ^ 16" "unat limit < 2 ^ 16"
  shows "DecodePartition (EncodePartition start limit) = (start, limit)"
  using decode_fields [OF assms]
  by (simp add: DecodePartition_def EncodePartition_def kMaxPartitionBits_def kMaxThreads_def)

text \<open>
  A partition whose bounds are below \<open>2 ^ 16\<close> is read back from its encoding unchanged.
\<close>

lemma partition_roundtrip:
  assumes "unat start < 2 ^ 16" "unat limit < 2 ^ 16"
  shows "DecodePartition (EncodePartition start limit) = (start, limit)"
  using assms by (rule decode_encode)

lemma partition_roundtrip_example: "DecodePartition (EncodePartition 3 24) = (3, 24)"
  by (rule partition_roundtrip) simp_all

section \<open>Coprimes\<close>

function gcd_loop :: "u32 \<Rightarrow> u32 \<Rightarrow> u32" where
  "gcd_loop a b = (if b \<noteq> 0 then gcd_loop b (a mod b) else a)"
  by pat_completeness auto
termination
  by (relation "measure (\<lambda>(a, b). unat b)") (simp_all add: unat_mod unat_gt_0)

declare gcd_loop.simps [simp del]

lemma gcd_loop_gcd: "unat (gcd_loop a b) = gcd (unat a) (unat b)"
proof (induction a b rule: gcd_loop.induct)
  case (1 a b)
  show ?case
  proof (cases "b = 0")
    case False
    with 1 show ?thesis by (subst gcd_loop.simps) (simp add: unat_mod gcd_red_nat [symmetric])
  qed (simp add: gcd_loop.simps)
qed

definition ComputeCoprimes :: "int \<Rightarrow> u32 list" where
  "ComputeCoprimes N = map of_int (filter (\<lambda>i. gcd_loop (of_int i) (of_int N) = 1) [1..N])"

lemma unat_of_int: "0 \<le> i \<Longrightarrow> i < 2 ^ 32 \<Longrightarrow> unat (of_int i :: u32) = nat i"
  by (simp add: unat_eq_nat_uint uint_word_of_int)

lemma ComputeCoprimes_set:
  assumes "N < 2 ^ 16"
  shows "w \<in> set (ComputeCoprimes N) \<longleftrightarrow> 0 < unat w \<and> int (unat w) \<le> N \<and> coprime (int (unat w)) N"
proof -
  have unit: "gcd_loop (of_int i) (of_int N) = 1 \<longleftrightarrow> coprime i N" if "1 \<le> i" "i \<le> N" for i
  proof -
    have "unat (gcd_loop (of_int i) (of_int N)) = gcd (nat i) (nat N)"
      using that assms by (simp add: gcd_loop_gcd unat_of_int)
    also have "int (gcd (nat i) (nat N)) = gcd i N" using that by (simp add: gcd_int_int_eq [symmetric])
    finally show ?thesis by (metis coprime_iff_gcd_eq_1 of_nat_1 of_nat_eq_iff unsigned_1 word_unat_eq_iff)
  qed
  show ?thesis
  proof
    assume "w \<in> set (ComputeCoprimes N)"
    then obtain i where i: "1 \<le> i" "i \<le> N" "coprime i N" "w = of_int i"
      using unit by (auto simp: ComputeCoprimes_def)
    then have "unat w = nat i" using assms by (simp add: unat_of_int)
    with i show "0 < unat w \<and> int (unat w) \<le> N \<and> coprime (int (unat w)) N" by simp
  next
    assume *: "0 < unat w \<and> int (unat w) \<le> N \<and> coprime (int (unat w)) N"
    define i where "i = int (unat w)"
    have "1 \<le> i" using * unfolding i_def by linarith
    moreover have "i \<le> N" "coprime i N" using * unfolding i_def by blast+
    moreover have "w = of_int i" by (simp add: i_def)
    ultimately have i: "1 \<le> i" "i \<le> N" "coprime i N" "w = of_int i" .
    from i unit [of i] show "w \<in> set (ComputeCoprimes N)" by (auto simp: ComputeCoprimes_def)
  qed
qed

text \<open>
  The table of coprimes for N threads holds exactly the numbers from 1 to N that are coprime to
  N; it is never empty.
\<close>

lemma coprimes_table:
  assumes "1 \<le> N" "N < 2 ^ 16"
  shows "(\<forall>w. w \<in> set (ComputeCoprimes N) \<longleftrightarrow> 0 < unat w \<and> int (unat w) \<le> N \<and> coprime (int (unat w)) N)
    \<and> 1 \<in> set (ComputeCoprimes N)"
  using ComputeCoprimes_set [OF assms(2)] assms(1) by simp

lemma five_twelve: "5 \<in> set (ComputeCoprimes 12)"
proof -
  have "coprime (5 :: int) 12" by code_simp
  then show ?thesis by (simp add: ComputeCoprimes_set)
qed

lemma coprimes_table_example:
  "5 \<in> set (ComputeCoprimes 12) \<and> 1 \<in> set (ComputeCoprimes 12)"
proof -
  have "coprime (5 :: int) 12" by code_simp
  then show ?thesis using coprimes_table [of 12] by simp
qed

section \<open>The random generator\<close>

definition Rand :: "u64 \<Rightarrow> u32 \<times> u64" where
  "Rand current =
     (ucast (drop_bit (22 + unat (drop_bit 61 current)) (current XOR drop_bit 22 current)),
      current * 6364136223846793005 + 0xda3e39cb94b95bdb)"

section \<open>The victims of a thief\<close>

text \<open>A random 32-bit number reduced to \<open>[0, n)\<close> by a multiplication.\<close>

definition reduce :: "u32 \<Rightarrow> u64 \<Rightarrow> u32" where
  "reduce r n = ucast (drop_bit 32 (ucast r * n))"

definition next_victim :: "u32 \<Rightarrow> u64 \<Rightarrow> u32 \<Rightarrow> u32" where
  "next_victim inc sz victim =
     (let victim = victim + inc
      in if ucast victim \<ge> sz then ucast (ucast victim - sz) else victim)"

fun victims :: "nat \<Rightarrow> u32 \<Rightarrow> u64 \<Rightarrow> u32 \<Rightarrow> u32 list" where
  "victims 0 inc sz victim = []"
| "victims (Suc n) inc sz victim = victim # victims n inc sz (next_victim inc sz victim)"

lemma unat_ucast_u64: "unat (ucast (w :: u32) :: u64) = unat w"
proof -
  have "unat w < 2 ^ LENGTH(32)" by (rule unsigned_less)
  then show ?thesis by (simp add: unsigned_ucast_eq take_bit_nat_eq_self)
qed

lemma reduce_less:
  assumes "0 < unat n" "unat n < 2 ^ 32"
  shows "unat (reduce r n) < unat n"
proof -
  have r: "unat r < 2 ^ 32" using unsigned_less [of r] by simp
  then have m: "unat r * unat n < 2 ^ 32 * unat n" using assms(1) by simp
  have "unat r * unat n < 2 ^ 32 * 2 ^ 32" using r assms by (intro mult_strict_mono) simp_all
  then have "unat r * unat n < 2 ^ 64" by simp
  then have "unat (ucast r * n :: u64) = unat r * unat n"
    by (simp add: unat_word_ariths unat_ucast_u64)
  then have d: "unat (drop_bit 32 (ucast r * n :: u64)) = unat r * unat n div 2 ^ 32"
    by (simp only: drop_bit_eq_div unat_div) simp
  have "unat r * unat n div 2 ^ 32 < unat n" using m by (simp add: less_mult_imp_div_less mult.commute)
  then show ?thesis using d assms(2) by (simp add: reduce_def unsigned_ucast_eq take_bit_nat_eq_self)
qed

lemma next_victim_mod:
  assumes "unat v < n" "0 < unat inc" "unat inc \<le> n" "n < 2 ^ 16" "unat sz = n"
  shows "unat (next_victim inc sz v) = (unat v + unat inc) mod n"
proof -
  have s: "unat (v + inc) = unat v + unat inc" using assms by (simp add: unat_word_ariths)
  show ?thesis
  proof (cases "n \<le> unat v + unat inc")
    case True
    have le: "sz \<le> ucast (v + inc)" using True assms(5) by (simp add: word_le_nat_alt unat_ucast_u64 s)
    then have "unat (ucast (v + inc) - sz) = unat v + unat inc - n"
      by (simp add: u64_sub unat_ucast_u64 s assms(5))
    moreover have "unat v + unat inc - n < 2 ^ 32" using assms by simp
    ultimately have "unat (next_victim inc sz v) = unat v + unat inc - n"
      using le by (simp add: next_victim_def Let_def unsigned_ucast_eq take_bit_nat_eq_self)
    then show ?thesis using True assms(1,3) by (simp add: le_mod_geq)
  next
    case False
    then have "\<not> sz \<le> ucast (v + inc)" using assms(5) by (simp add: word_le_nat_alt unat_ucast_u64 s)
    then show ?thesis using False by (simp add: next_victim_def Let_def s)
  qed
qed

lemma victims_mod:
  assumes "unat v < n" "0 < unat inc" "unat inc \<le> n" "n < 2 ^ 16" "unat sz = n"
  shows "map unat (victims k inc sz v) = map (\<lambda>j. (unat v + j * unat inc) mod n) [0..<k]"
  using assms(1)
proof (induction k arbitrary: v)
  case (Suc k)
  note nx = next_victim_mod [OF Suc.prems assms(2-5)]
  have "unat (next_victim inc sz v) < n" using nx Suc.prems by simp
  from Suc.IH [OF this] have "map unat (victims k inc sz (next_victim inc sz v))
      = map (\<lambda>j. (unat v + Suc j * unat inc) mod n) [0..<k]"
    unfolding nx mod_add_left_eq by (simp add: ac_simps)
  moreover have "[0..<Suc k] = 0 # map Suc [0..<k]" by (simp add: upt_conv_Cons map_Suc_upt del: upt_Suc)
  ultimately show ?case using Suc.prems by (simp add: o_def del: upt_Suc)
qed simp

lemma coprime_step_inj:
  assumes "coprime inc n" "j < n" "k < (n::nat)" "(v + j * inc) mod n = (v + k * inc) mod n"
  shows "j = k"
proof -
  have le: "a = b" if "a \<le> b" "b < n" "(v + a * inc) mod n = (v + b * inc) mod n" for a b
  proof -
    have "v + a * inc \<le> v + b * inc" using that(1) by simp
    then have "n dvd v + b * inc - (v + a * inc)"
      using mod_eq_dvd_iff_nat [of "v + a * inc" "v + b * inc" n] that(3) by simp
    then have "n dvd (b - a) * inc" by (simp add: diff_mult_distrib)
    then have "n dvd b - a" using assms(1) by (simp add: coprime_dvd_mult_left_iff coprime_commute)
    with that(1,2) show ?thesis by (auto dest: dvd_imp_le)
  qed
  show ?thesis using le [of j k] le [of k j] assms(2-4) by (cases "j \<le> k") auto
qed

lemma walk_covers:
  assumes "1 \<le> N" "N < 2 ^ 16" "inc \<in> set (ComputeCoprimes N)" "unat v < nat N"
  shows "distinct (victims (nat N) inc (of_int N) v) \<and> set (victims (nat N) inc (of_int N) v) = {w. unat w < nat N}"
proof -
  let ?n = "nat N" and ?vs = "victims (nat N) inc (of_int N) v"
  obtain n where N: "N = int n" using assms(1) nonneg_int_cases [of N] by auto
  have "0 < unat inc \<and> int (unat inc) \<le> N \<and> coprime (int (unat inc)) N"
    using assms(3) ComputeCoprimes_set [OF assms(2)] by blast
  then have "0 < unat inc \<and> int (unat inc) \<le> int n \<and> coprime (int (unat inc)) (int n)"
    unfolding N .
  then have inc: "0 < unat inc" "unat inc \<le> ?n" "coprime (unat inc) ?n"
    unfolding N nat_int by (simp_all only: coprime_int_iff of_nat_le_iff)
  have sz: "unat (of_int N :: u64) = ?n" "?n < 2 ^ 16" "0 < ?n"
    using assms(1,2) by (simp_all add: unat_eq_nat_uint uint_word_of_int)
  note vs = victims_mod [OF assms(4) inc(1,2) sz(2,1), of ?n]
  have "inj_on (\<lambda>j. (unat v + j * unat inc) mod ?n) {0..<?n}"
    by (rule inj_onI) (rule coprime_step_inj [OF inc(3)], simp_all)
  then have "distinct (map unat ?vs)" unfolding vs distinct_map by simp
  then have d: "distinct (map unat ?vs)" "distinct ?vs" by (simp_all add: distinct_map)
  have "set (map unat ?vs) \<subseteq> {0..<?n}" unfolding vs using sz(3) by auto
  moreover have "card (set (map unat ?vs)) = ?n"
    using distinct_card [OF d(1)] arg_cong [OF vs, of length] by simp
  ultimately have "set (map unat ?vs) = {0..<?n}" by (intro card_subset_eq) simp_all
  then have img: "unat ` set ?vs = {0..<?n}" by simp
  have "w \<in> set ?vs \<longleftrightarrow> unat w < ?n" for w
  proof
    show "unat w < ?n" if "w \<in> set ?vs" using that img by auto
    assume "unat w < ?n"
    then have "unat w \<in> unat ` set ?vs" using img by simp
    then obtain x where "unat w = unat x" "x \<in> set ?vs" by auto
    then show "w \<in> set ?vs" using word_unat_eq_iff [of w x] by simp
  qed
  then show ?thesis using d(2) by auto
qed

text \<open>
  A thief starts at a victim below the number of threads, and the walk with any of the table's
  step widths visits every thread exactly once (as the comment in the constructor claims).
\<close>

lemma steal_walk_covers:
  assumes "1 \<le> N" "N < 2 ^ 16" "inc \<in> set (ComputeCoprimes N)" "unat v < nat N"
  shows "distinct (victims (nat N) inc (of_int N) v) \<and> set (victims (nat N) inc (of_int N) v) = {w. unat w < nat N}"
  using assms by (rule walk_covers)

lemma steal_walk_covers_example:
  "distinct (victims 12 5 12 7) \<and> set (victims 12 5 12 7) = {w. unat w < 12}"
  using steal_walk_covers [of 12 5 7] five_twelve by simp

text \<open>The victims of a thief that steals from the threads \<open>start, \<dots>, limit - 1\<close>.\<close>

lemma steal_victims:
  fixes start limit r :: u32
  assumes se: "unat start < unat limit" "unat limit < 65536"
  defines "n \<equiv> unat limit - unat start" and "sz \<equiv> (ucast (limit - start) :: u64)"
  defines "cs \<equiv> ComputeCoprimes (int n)"
  shows "unat sz = n"
    "set (victims n (cs ! unat (reduce r (of_nat (length cs)))) sz (reduce r sz)) = {w. unat w < n}"
proof -
  have "start \<le> limit" using se(1) by (simp add: word_le_nat_alt)
  then show sz: "unat sz = n" by (simp add: sz_def unat_ucast_u64 unat_sub n_def)
  have n: "1 \<le> n" "n < 65536" using se by (simp_all add: n_def)
  have sz_n: "of_nat n = sz" using sz by auto
  have one: "1 \<in> set cs" using ComputeCoprimes_set [of "int n"] n by (simp add: cs_def)
  have "length cs \<le> length [1..int n]"
    unfolding cs_def ComputeCoprimes_def length_map by (rule length_filter_le)
  also have "length [1..int n] = n" by simp
  finally have "length cs \<le> n" .
  then have len: "unat (of_nat (length cs) :: u64) = length cs" "length cs < 2 ^ 32" "0 < length cs"
    using n one by (auto simp: unat_of_nat length_pos_if_in_set)
  have "unat (reduce r (of_nat (length cs))) < length cs" using reduce_less [of "of_nat (length cs)" r] len by simp
  then have inc: "cs ! unat (reduce r (of_nat (length cs))) \<in> set (ComputeCoprimes (int n))" by (simp add: cs_def)
  have v0: "unat (reduce r sz) < nat (int n)" using reduce_less [of sz r] sz n by simp
  show "set (victims n (cs ! unat (reduce r (of_nat (length cs)))) sz (reduce r sz)) = {w. unat w < n}"
    using walk_covers [OF _ _ inc v0] n by (simp add: sz_n)
qed

end
