(* ===== verification/Thread_Pool.thy ===== *)
theory Thread_Pool
  imports Run_Queue Mpmc_Queue Pool_Arith
begin

text \<open>
  The work-stealing thread pool \<open>ThreadPoolTempl\<close> of src/include/eigen/nonblocking\_thread\_pool.h: the
  data of one worker (its deque, its mailbox, its run-next slot), the constructor, submitting tasks and
  stealing.  A task pointer is a 64-bit word, \<open>0\<close> the null pointer and \<open>1\<close> the mark \<open>IDLE\<close>.
  Each operation runs alone; operations that may spin for ever return \<open>None\<close> then.
\<close>

section \<open>One worker's data\<close>

definition IDLE :: u64 where
  "IDLE = 1"

definition QSize :: u32 where
  "QSize = 1024"

record thread_data =
  steal_partition :: u32
  local_tasks :: "u64 run_queue"
  mailbox :: "u64 mpmc_queue"
  runnext :: u64

definition ThreadData :: "thread_data option" where
  "ThreadData =
     (case (RunQueue QSize, Queue True 1024) of
        (Some q, Inr m) \<Rightarrow> Some \<lparr>steal_partition = 0, local_tasks = q, mailbox = m, runnext = 0\<rparr>
      | _ \<Rightarrow> None)"

definition PushTask :: "u64 \<Rightarrow> bool \<Rightarrow> thread_data \<Rightarrow> (bool \<times> thread_data) option" where
  "PushTask p localThread td =
     (if localThread then
        (case PushFront QSize p (local_tasks td) of (ok, q) \<Rightarrow> Some (ok, td\<lparr>local_tasks := q\<rparr>))
      else
        (case try_push p (mailbox td) of
           None \<Rightarrow> None
         | Some (ok, m) \<Rightarrow> Some (ok, td\<lparr>mailbox := m\<rparr>)))"

definition compare_exchange_runnext :: "u64 \<Rightarrow> u64 \<Rightarrow> thread_data \<Rightarrow> bool \<times> thread_data" where
  "compare_exchange_runnext expected desired td =
     (if runnext td = expected then (True, td\<lparr>runnext := desired\<rparr>) else (False, td))"

definition SetIdle :: "thread_data \<Rightarrow> bool \<times> thread_data" where
  "SetIdle td =
     (let current = runnext td
      in if current = 0 then compare_exchange_runnext current IDLE td
         else (current = IDLE, td))"

definition ResetIdle :: "thread_data \<Rightarrow> thread_data" where
  "ResetIdle td =
     (let current = runnext td
      in if current = IDLE then snd (compare_exchange_runnext current 0 td) else td)"

definition PopRunnext :: "thread_data \<Rightarrow> u64 \<times> thread_data" where
  "PopRunnext td =
     (let p = runnext td
      in if p \<noteq> 0 then
           (case compare_exchange_runnext p 0 td of
              (success, td) \<Rightarrow> if success then (p, td) else (0, td))
         else (0, td))"

text \<open>\<open>try_pop\<close> on a mailbox leaves the null pointer in \<open>task\<close> when there is nothing.\<close>

definition try_pop_task :: "thread_data \<Rightarrow> (u64 \<times> thread_data) option" where
  "try_pop_task td =
     (case try_pop (mailbox td) of
        None \<Rightarrow> None
      | Some (v, m) \<Rightarrow> Some (case v of None \<Rightarrow> 0 | Some task \<Rightarrow> task, td\<lparr>mailbox := m\<rparr>))"

definition ThreadData_PopFront :: "thread_data \<Rightarrow> (u64 \<times> thread_data) option" where
  "ThreadData_PopFront td =
     (case PopRunnext td of
        (p, td) \<Rightarrow>
          if p \<noteq> 0 \<and> p \<noteq> IDLE then Some (p, td)
          else
            (case PopFront QSize (local_tasks td) of
               (p, q) \<Rightarrow>
                 let td = td\<lparr>local_tasks := q\<rparr>
                 in if p \<noteq> 0 then Some (p, td) else try_pop_task td))"

definition ThreadData_PopBack :: "bool \<Rightarrow> thread_data \<Rightarrow> (u64 \<times> thread_data) option" where
  "ThreadData_PopBack force td =
     (case try_pop_task td of
        None \<Rightarrow> None
      | Some (task, td) \<Rightarrow>
          if task = 0 \<and> force then
            (case PopBack QSize (local_tasks td) of (task, q) \<Rightarrow> Some (task, td\<lparr>local_tasks := q\<rparr>))
          else Some (task, td))"

partial_function (option) Flush_mailbox :: "u64 mpmc_queue \<Rightarrow> u64 mpmc_queue option" where
  "Flush_mailbox m =
     (if \<not> mq_empty m then Option.bind (pop m) (\<lambda>(task, m). Flush_mailbox m) else Some m)"

definition ThreadData_Flush :: "thread_data \<Rightarrow> thread_data option" where
  "ThreadData_Flush td =
     (case Flush_mailbox (mailbox td) of
        None \<Rightarrow> None
      | Some m \<Rightarrow>
          (case Flush QSize (local_tasks td) of
             None \<Rightarrow> None
           | Some q \<Rightarrow> Some (td\<lparr>mailbox := m, local_tasks := q\<rparr>)))"

section \<open>The pool\<close>

text \<open>The thread that calls an operation: whether it belongs to this pool, and as which worker.\<close>

record PerThread =
  in_pool :: bool
  rand :: u64
  thread_id :: int

record pool =
  num_threads :: int
  thread_data :: "thread_data list"
  all_coprimes :: "u32 list list"
  global_steal_partition :: u32
  pool_done :: bool
  pool_cancelled :: bool

definition SetStealPartition :: "nat \<Rightarrow> u32 \<Rightarrow> pool \<Rightarrow> pool" where
  "SetStealPartition i val pl =
     pl\<lparr>thread_data := (thread_data pl)[i := (thread_data pl ! i)\<lparr>steal_partition := val\<rparr>]\<rparr>"

definition GetStealPartition :: "int \<Rightarrow> pool \<Rightarrow> u32" where
  "GetStealPartition i pl = steal_partition (thread_data pl ! nat i)"

text \<open>The constructor; \<open>None\<close> where the assertion on the number of threads fails.\<close>

definition ThreadPoolTempl :: "int \<Rightarrow> pool option" where
  "ThreadPoolTempl n =
     (if \<not> n < kMaxThreads then None
      else case ThreadData of
             None \<Rightarrow> None
           | Some td \<Rightarrow>
               let p = EncodePartition 0 (of_int n);
                   pl = \<lparr>num_threads = n, thread_data = replicate (nat n) td,
                         all_coprimes = map ComputeCoprimes [1..n], global_steal_partition = p,
                         pool_done = False, pool_cancelled = False\<rparr>
               in Some (fold (\<lambda>i. SetStealPartition i p) [0..<nat n] pl))"

definition SetStealPartitions :: "(u32 \<times> u32) list \<Rightarrow> pool \<Rightarrow> pool option" where
  "SetStealPartitions partitions pl =
     (if int (length partitions) \<noteq> num_threads pl then None
      else fold (\<lambda>(i, start, limit) acc.
             case acc of
               None \<Rightarrow> None
             | Some pl \<Rightarrow>
                 if AssertBounds (num_threads pl) (sint start) (sint limit)
                 then Some (SetStealPartition i (EncodePartition start limit) pl) else None)
           (zip [0..<length partitions] partitions) (Some pl))"

definition CurrentThreadId :: "PerThread \<Rightarrow> u64" where
  "CurrentThreadId pt = (if in_pool pt then of_int (thread_id pt) else - 1)"

definition Cancel :: "pool \<Rightarrow> pool" where
  "Cancel pl = pl\<lparr>pool_cancelled := True, pool_done := True\<rparr>"

text \<open>Pushing onto worker \<open>i\<close>.\<close>

definition push_on :: "nat \<Rightarrow> u64 \<Rightarrow> bool \<Rightarrow> pool \<Rightarrow> (bool \<times> pool) option" where
  "push_on i t localThread pl =
     (case PushTask t localThread (thread_data pl ! i) of
        None \<Rightarrow> None
      | Some (ok, td) \<Rightarrow> Some (ok, pl\<lparr>thread_data := (thread_data pl)[i := td]\<rparr>))"

text \<open>
  The submitting operations end by executing the task when it could not be pushed; that task is the
  first component of the result.
\<close>

definition RunOnThread :: "PerThread \<Rightarrow> u64 \<Rightarrow> u64 \<Rightarrow> pool \<Rightarrow> (u64 option \<times> pool) option" where
  "RunOnThread pt t threadIndex pl =
     (let threadIndex = threadIndex mod of_int (num_threads pl)
      in case push_on (unat threadIndex) t (threadIndex = of_int (thread_id pt)) pl of
           None \<Rightarrow> None
         | Some (ok, pl) \<Rightarrow> Some (if ok then None else Some t, pl))"

definition ScheduleWithHint ::
  "PerThread \<Rightarrow> u64 \<Rightarrow> int \<Rightarrow> int \<Rightarrow> pool \<Rightarrow> (u64 option \<times> PerThread \<times> pool) option" where
  "ScheduleWithHint pt t start limit pl =
     (if in_pool pt then
        (case push_on (nat (thread_id pt)) t True pl of
           None \<Rightarrow> None
         | Some (ok, pl) \<Rightarrow> Some (if ok then None else Some t, pt, pl))
      else if \<not> (start < limit \<and> limit \<le> num_threads pl) then None
      else
        let num_queues = limit - start;
            (r, state) = Rand (rand pt);
            pt = pt\<lparr>rand := state\<rparr>;
            rnd = sint (r mod of_int num_queues)
        in if \<not> start + rnd < limit then None
           else (case push_on (nat (start + rnd)) t (start + rnd = thread_id pt) pl of
                   None \<Rightarrow> None
                 | Some (ok, pl) \<Rightarrow> Some (if ok then None else Some t, pt, pl)))"

definition Schedule :: "PerThread \<Rightarrow> u64 \<Rightarrow> pool \<Rightarrow> (u64 option \<times> PerThread \<times> pool) option" where
  "Schedule pt t pl = ScheduleWithHint pt t 0 (num_threads pl) pl"

section \<open>Stealing\<close>

fun steal_loop :: "bool \<Rightarrow> u32 \<Rightarrow> u32 \<Rightarrow> u32 list \<Rightarrow> pool \<Rightarrow> (u64 \<times> pool) option" where
  "steal_loop force start limit [] pl = Some (0, pl)"
| "steal_loop force start limit (victim # vs) pl =
     (if \<not> start + victim < limit then None
      else
        let i = unat (start + victim)
        in case ThreadData_PopBack force (thread_data pl ! i) of
             None \<Rightarrow> None
           | Some (t, td) \<Rightarrow>
               let pl = pl\<lparr>thread_data := (thread_data pl)[i := td]\<rparr>
               in if t \<noteq> 0 then Some (t, pl) else steal_loop force start limit vs pl)"

definition Steal :: "u32 \<Rightarrow> u32 \<Rightarrow> bool \<Rightarrow> PerThread \<Rightarrow> pool \<Rightarrow> (u64 \<times> PerThread \<times> pool) option" where
  "Steal start limit force pt pl =
     (let sz = (ucast (limit - start) :: u64);
          (r, state) = Rand (rand pt);
          pt = pt\<lparr>rand := state\<rparr>;
          coprimes = all_coprimes pl ! (unat sz - 1);
          victim = reduce r sz;
          inc = coprimes ! unat (reduce r (of_nat (length coprimes)))
      in case steal_loop force start limit (victims (unat sz) inc sz victim) pl of
           None \<Rightarrow> None
         | Some (t, pl) \<Rightarrow> Some (t, pt, pl))"

definition LocalSteal :: "bool \<Rightarrow> PerThread \<Rightarrow> pool \<Rightarrow> (u64 \<times> PerThread \<times> pool) option" where
  "LocalSteal force pt pl =
     (let partition = GetStealPartition (thread_id pt) pl
      in if global_steal_partition pl = partition then Some (0, pt, pl)
         else
           let (start, limit) = DecodePartition partition
           in if AssertBounds (num_threads pl) (sint start) (sint limit)
              then Steal start limit force pt pl else None)"

definition GlobalSteal :: "bool \<Rightarrow> PerThread \<Rightarrow> pool \<Rightarrow> (u64 \<times> PerThread \<times> pool) option" where
  "GlobalSteal force pt pl = Steal 0 (of_int (num_threads pl)) force pt pl"

section \<open>What the queues hold\<close>

definition is_task :: "u64 \<Rightarrow> bool" where
  "is_task t \<longleftrightarrow> t \<noteq> 0 \<and> t \<noteq> IDLE"

lemma not_task [simp]: "\<not> is_task 0" "\<not> is_task IDLE"
  by (simp_all add: is_task_def)

definition local_items :: "thread_data \<Rightarrow> u64 list" where
  "local_items td = rq_items QSize (local_tasks td)"

definition mail_items :: "thread_data \<Rightarrow> u64 list" where
  "mail_items td = mq_items (mailbox td)"

definition td_items :: "thread_data \<Rightarrow> u64 multiset" where
  "td_items td = mset (local_items td) + mset (mail_items td)
     + (if is_task (runnext td) then {#runnext td#} else {#})"

text \<open>
  A worker's data is well-formed: both queues are, they hold tasks only, the mailbox can still
  number \<open>b\<close> more pushes, and the run-next slot holds no task (the code that would fill it is
  commented out).
\<close>

definition td_inv :: "nat \<Rightarrow> thread_data \<Rightarrow> bool" where
  "td_inv b td \<longleftrightarrow>
     rq_inv QSize (local_tasks td) \<and> mq_inv (mailbox td) \<and> mq_capacity (mailbox td) = 1024 \<and>
     b \<le> mq_tickets (mailbox td) \<and> (\<forall>t \<in> set (local_items td @ mail_items td). is_task t) \<and>
     \<not> is_task (runnext td)"

lemma td_inv_mono: "td_inv b td \<Longrightarrow> c \<le> b \<Longrightarrow> td_inv c td"
  by (simp add: td_inv_def)

lemma ThreadData_some: "\<exists>td. ThreadData = Some td"
  by (simp add: ThreadData_def RunQueue_def Queue_def QSize_def)

lemma ThreadData_ok: "ThreadData = Some td \<Longrightarrow> td_inv (2 ^ 62 - 1) td \<and> td_items td = {#} \<and> runnext td = 0"
proof -
  assume td: "ThreadData = Some td"
  then obtain q m where q: "RunQueue QSize = Some q" and m: "Queue True 1024 = Inr m"
    and t: "td = \<lparr>steal_partition = 0, local_tasks = q, mailbox = m, runnext = 0\<rparr>"
    by (auto simp: ThreadData_def split: option.splits sum.splits)
  from RunQueue_inv [OF q] Queue_inv [OF _ _ m] show ?thesis
    by (simp add: t td_inv_def td_items_def local_items_def mail_items_def is_task_def)
qed

text \<open>Pushing: the task is in the queue exactly when the push says so; nothing else changes.\<close>

lemma PushTask_ok:
  assumes inv: "td_inv (Suc b) td" and t: "is_task t"
  shows "\<exists>ok td'. PushTask t localThread td = Some (ok, td') \<and> td_inv b td'
    \<and> td_items td' = td_items td + (if ok then {#t#} else {#})
    \<and> runnext td' = runnext td \<and> steal_partition td' = steal_partition td
    \<and> (ok \<longleftrightarrow> (if localThread then length (local_items td) else length (mail_items td)) < 1024)"
proof (cases localThread)
  case True
  obtain ok q where push: "PushFront QSize t (local_tasks td) = (ok, q)" by fastforce
  from PushFront_spec [OF _ push] inv have "rq_inv QSize q"
    "(Pushed ok, rq_items QSize q) = deque_step (unat QSize) (local_items td) (PushF t)"
    by (auto simp: td_inv_def local_items_def)
  with True push inv t show ?thesis
    by (auto simp: PushTask_def td_inv_def td_items_def local_items_def mail_items_def QSize_def
        split: if_splits)
next
  case False
  from try_push_fifo [of "mailbox td" t] inv obtain ok m where
    push: "try_push t (mailbox td) = Some (ok, m)"
    and m: "(Given ok, mq_items m) = fifo_step 1024 (mail_items td) (Give t)" "mq_inv m"
    "mq_capacity m = 1024" "mq_tickets (mailbox td) \<le> Suc (mq_tickets m)"
    by (auto simp: td_inv_def mail_items_def)
  with False inv t show ?thesis
    by (auto simp: PushTask_def td_inv_def td_items_def local_items_def mail_items_def split: if_splits)
qed

text \<open>
  A pop that returned \<open>t\<close>, null if there was nothing: the task has left the queues, the rest stays.
\<close>

definition took :: "nat \<Rightarrow> thread_data \<Rightarrow> u64 \<Rightarrow> thread_data \<Rightarrow> bool" where
  "took b td t td' \<longleftrightarrow>
     td_inv b td' \<and> (t \<noteq> 0 \<longrightarrow> is_task t) \<and> steal_partition td' = steal_partition td \<and>
     td_items td = td_items td' + (if t \<noteq> 0 then {#t#} else {#}) \<and>
     (mail_items td = [] \<longrightarrow> mail_items td' = []) \<and> (local_items td = [] \<longrightarrow> local_items td' = [])"

lemma try_pop_task_ok:
  assumes "td_inv b td"
  shows "\<exists>t td'. try_pop_task td = Some (t, td') \<and> took b td t td'
    \<and> local_items td' = local_items td \<and> runnext td' = runnext td
    \<and> (case mail_items td of [] \<Rightarrow> t = 0 | y # ys \<Rightarrow> t = y) \<and> mail_items td' = tl (mail_items td)"
proof -
  from try_pop_fifo [of "mailbox td"] assms obtain v m where pop: "try_pop (mailbox td) = Some (v, m)"
    and m: "(Taken v, mq_items m) = fifo_step 1024 (mail_items td) Take" "mq_inv m"
    "mq_capacity m = 1024" "mq_tickets m = mq_tickets (mailbox td)"
    by (auto simp: td_inv_def mail_items_def)
  show ?thesis
  proof (cases "mail_items td")
    case Nil
    with pop m assms show ?thesis
      by (auto simp: try_pop_task_def took_def td_inv_def td_items_def local_items_def mail_items_def)
  next
    case (Cons y ys)
    then have "is_task y" using assms by (simp add: td_inv_def)
    with Cons pop m assms show ?thesis
      by (auto simp: try_pop_task_def took_def td_inv_def td_items_def local_items_def mail_items_def is_task_def)
  qed
qed

lemma ThreadData_PopFront_ok:
  assumes inv: "td_inv b td"
  shows "\<exists>t td'. ThreadData_PopFront td = Some (t, td') \<and> took b td t td' \<and> runnext td' = 0
    \<and> t = (if is_task (runnext td) then runnext td
           else if local_items td \<noteq> [] then hd (local_items td)
           else if mail_items td \<noteq> [] then hd (mail_items td) else 0)"
proof -
  have runnext: "PopRunnext td = (runnext td, td\<lparr>runnext := 0\<rparr>)"
    by (simp add: PopRunnext_def Let_def compare_exchange_runnext_def)
  show ?thesis
  proof (cases "is_task (runnext td)")
    case True
    with inv runnext show ?thesis
      by (auto simp: ThreadData_PopFront_def took_def td_inv_def td_items_def local_items_def
          mail_items_def is_task_def)
  next
    case False
    let ?td = "td\<lparr>runnext := 0\<rparr>"
    have inv0: "td_inv b ?td" and items0: "td_items ?td = td_items td" "local_items ?td = local_items td"
      "mail_items ?td = mail_items td"
      using inv False by (simp_all add: td_inv_def td_items_def local_items_def mail_items_def is_task_def)
    obtain p q where pop: "PopFront QSize (local_tasks td) = (p, q)" by fastforce
    from PopFront_spec [OF _ pop] inv have q: "rq_inv QSize q"
      "(Popped p, rq_items QSize q) = deque_step (unat QSize) (local_items td) PopF"
      by (auto simp: td_inv_def local_items_def)
    show ?thesis
    proof (cases "local_items td")
      case Nil
      then have p0: "p = 0" "rq_items QSize q = []" using q by simp_all
      let ?td1 = "?td\<lparr>local_tasks := q\<rparr>"
      have inv1: "td_inv b ?td1" "td_items ?td1 = td_items td" "mail_items ?td1 = mail_items td"
        "local_items ?td1 = []" "steal_partition ?td1 = steal_partition td"
        using inv0 items0 Nil q p0 by (auto simp: td_inv_def td_items_def local_items_def mail_items_def)
      have step: "ThreadData_PopFront td = try_pop_task ?td1"
        using False by (auto simp add: ThreadData_PopFront_def runnext is_task_def pop p0)
      obtain t td' where t: "try_pop_task ?td1 = Some (t, td')" "took b ?td1 t td'"
        "local_items td' = []" "runnext td' = 0"
        "case mail_items td of [] \<Rightarrow> t = 0 | y # ys \<Rightarrow> t = y"
        using try_pop_task_ok [OF inv1(1)] inv1(3,4) by fastforce
      have "took b td t td'" using t(2,3) inv1 Nil by (simp add: took_def)
      with step t False Nil show ?thesis by (auto split: list.splits)
    next
      case (Cons y ys)
      then have p: "p = y" "rq_items QSize q = ys" "is_task y"
        using q inv by (simp_all add: td_inv_def)
      have "ThreadData_PopFront td = Some (y, ?td\<lparr>local_tasks := q\<rparr>)"
        using False p by (auto simp add: ThreadData_PopFront_def runnext is_task_def pop)
      moreover have "took b td y (?td\<lparr>local_tasks := q\<rparr>)"
        using inv0 items0 q p Cons
        by (auto simp: took_def td_inv_def td_items_def local_items_def mail_items_def is_task_def)
      ultimately show ?thesis using False Cons by simp
    qed
  qed
qed

lemma ThreadData_PopBack_ok:
  assumes inv: "td_inv b td"
  shows "\<exists>t td'. ThreadData_PopBack force td = Some (t, td') \<and> took b td t td' \<and> runnext td' = runnext td
    \<and> t = (if mail_items td \<noteq> [] then hd (mail_items td)
           else if force \<and> local_items td \<noteq> [] then last (local_items td) else 0)
    \<and> (\<not> force \<longrightarrow> local_items td' = local_items td)"
proof -
  obtain t td1 where t: "try_pop_task td = Some (t, td1)" "took b td t td1"
    "local_items td1 = local_items td" "runnext td1 = runnext td"
    "case mail_items td of [] \<Rightarrow> t = 0 | y # ys \<Rightarrow> t = y" "mail_items td1 = tl (mail_items td)"
    using try_pop_task_ok [OF inv] by blast
  show ?thesis
  proof (cases "t = 0 \<and> force")
    case False
    have "t \<noteq> 0" if "mail_items td \<noteq> []"
      using that t(5) inv by (cases "mail_items td") (auto simp: td_inv_def is_task_def)
    with t False show ?thesis by (auto simp: ThreadData_PopBack_def split: list.splits)
  next
    case True
    have mail: "mail_items td = []"
      using True t(5) inv by (cases "mail_items td") (auto simp: td_inv_def is_task_def)
    have inv1: "td_inv b td1" "td_items td1 = td_items td" "steal_partition td1 = steal_partition td"
      using t(2) True by (simp_all add: took_def)
    obtain p q where pop: "PopBack QSize (local_tasks td1) = (p, q)" by fastforce
    from PopBack_spec [OF _ pop] inv1 t(3) have q: "rq_inv QSize q"
      "(Popped p, rq_items QSize q) = deque_step (unat QSize) (local_items td) PopB"
      by (auto simp: td_inv_def local_items_def)
    have step: "ThreadData_PopBack force td = Some (p, td1\<lparr>local_tasks := q\<rparr>)"
      using True t(1) pop by (simp add: ThreadData_PopBack_def)
    show ?thesis
    proof (cases "local_items td = []")
      case True
      then have p: "p = 0" "rq_items QSize q = []" using q by simp_all
      have "took b td 0 (td1\<lparr>local_tasks := q\<rparr>)"
        using inv1 p t(3,4,6) q True mail
        by (auto simp: took_def td_inv_def td_items_def local_items_def mail_items_def)
      with step True mail t(4) \<open>t = 0 \<and> force\<close> p show ?thesis by simp
    next
      case False
      then have p: "p = last (local_items td)" "rq_items QSize q = butlast (local_items td)"
        using q by simp_all
      have task: "is_task p" using inv False p(1) last_in_set by (auto simp: td_inv_def)
      have "mset (local_items td) = add_mset p (mset (butlast (local_items td)))"
        using False p(1) by (metis append_butlast_last_id mset.simps(1,2) mset_append
            union_mset_add_mset_right add.right_neutral)
      then have "td_items td = td_items (td1\<lparr>local_tasks := q\<rparr>) + {#p#}"
        using inv1(2) [symmetric] t(3) p(2) by (simp add: td_items_def local_items_def mail_items_def)
      moreover have "td_inv b (td1\<lparr>local_tasks := q\<rparr>)"
        using inv1(1) q(1) p(2) t(3)
        by (auto simp: td_inv_def local_items_def mail_items_def dest: in_set_butlastD)
      ultimately have "took b td p (td1\<lparr>local_tasks := q\<rparr>)"
        using task inv1(3) False t(6) mail
        by (auto simp: took_def is_task_def mail_items_def)
      with step False mail t(4) p(1) \<open>t = 0 \<and> force\<close> show ?thesis by simp
    qed
  qed
qed

lemma Flush_mailbox_ok:
  "mq_inv m \<Longrightarrow> \<exists>m'. Flush_mailbox m = Some m' \<and> mq_inv m' \<and> mq_items m' = []
    \<and> mq_capacity m' = mq_capacity m \<and> mq_tickets m' = mq_tickets m"
proof (induction "length (mq_items m)" arbitrary: m)
  case 0
  then show ?case by (subst Flush_mailbox.simps) (simp add: mq_size_items)
next
  case (Suc n)
  then have "unat (mq_tail m) < unat (mq_head m)" by (simp add: length_mq_items)
  from try_pop_some [OF Suc.prems this] obtain v m1 where m1: "pop m = Some (v, m1)" "mq_inv m1"
    "mq_items m = v # mq_items m1" "mq_head m1 = mq_head m" "mq_capacity m1 = mq_capacity m" by blast
  then have "n = length (mq_items m1)" using Suc.hyps(2) by simp
  from Suc.hyps(1) [OF this m1(2)] show ?case
    using m1 Suc.prems by (subst Flush_mailbox.simps) (simp add: mq_size_items mq_tickets_def)
qed

lemma ThreadData_Flush_ok:
  assumes "td_inv b td"
  shows "\<exists>td'. ThreadData_Flush td = Some td' \<and> td_inv b td' \<and> local_items td' = [] \<and> mail_items td' = []
    \<and> runnext td' = runnext td \<and> steal_partition td' = steal_partition td"
proof -
  obtain m where m: "Flush_mailbox (mailbox td) = Some m" "mq_inv m" "mq_items m = []"
    "mq_capacity m = 1024" "mq_tickets m = mq_tickets (mailbox td)"
    using Flush_mailbox_ok [of "mailbox td"] assms by (auto simp: td_inv_def)
  obtain q where q: "Flush QSize (local_tasks td) = Some q" "rq_inv QSize q" "rq_items QSize q = []"
    using Flush_empties [of QSize "local_tasks td"] assms by (auto simp: td_inv_def)
  from m q assms show ?thesis
    by (simp add: ThreadData_Flush_def td_inv_def local_items_def mail_items_def)
qed

text \<open>
  Flushing a worker's data returns and leaves both queues empty (the run-next slot is not
  flushed).
\<close>

lemma Flush_empties_worker:
  assumes "td_inv b td"
  shows "\<exists>td'. ThreadData_Flush td = Some td' \<and> td_inv b td' \<and> local_items td' = [] \<and> mail_items td' = []
    \<and> runnext td' = runnext td"
  using ThreadData_Flush_ok [OF assms] by blast

lemma Flush_empties_worker_example:
  "\<exists>td td'. ThreadData = Some td \<and> ThreadData_Flush td = Some td' \<and> local_items td' = [] \<and> mail_items td' = []"
proof -
  obtain td where td: "ThreadData = Some td"
    using ThreadData_some by blast
  then have "td_inv (2 ^ 62 - 1) td" using ThreadData_ok by blast
  from Flush_empties_worker [OF this] td show ?thesis by blast
qed

section \<open>The pool's contents\<close>

definition pool_items :: "pool \<Rightarrow> u64 multiset" where
  "pool_items pl = sum_list (map td_items (thread_data pl))"

definition partition_ok :: "int \<Rightarrow> u32 \<Rightarrow> bool" where
  "partition_ok n val \<longleftrightarrow> (\<exists>start limit. val = EncodePartition start limit
     \<and> AssertBounds n (int (unat start)) (int (unat limit)))"

definition pool_inv :: "nat \<Rightarrow> pool \<Rightarrow> bool" where
  "pool_inv b pl \<longleftrightarrow>
     1 \<le> num_threads pl \<and> num_threads pl < 2 ^ 16 \<and> length (thread_data pl) = nat (num_threads pl) \<and>
     all_coprimes pl = map ComputeCoprimes [1..num_threads pl] \<and>
     (\<forall>td \<in> set (thread_data pl). td_inv b td \<and> partition_ok (num_threads pl) (steal_partition td))"

definition worker_of :: "pool \<Rightarrow> PerThread \<Rightarrow> bool" where
  "worker_of pl pt \<longleftrightarrow> in_pool pt \<and> 0 \<le> thread_id pt \<and> thread_id pt < num_threads pl"

text \<open>Replacing one worker's data.\<close>

definition put :: "nat \<Rightarrow> thread_data \<Rightarrow> pool \<Rightarrow> pool" where
  "put i td pl = pl\<lparr>thread_data := (thread_data pl)[i := td]\<rparr>"

lemma put_simps [simp]:
  "num_threads (put i td pl) = num_threads pl" "all_coprimes (put i td pl) = all_coprimes pl"
  "global_steal_partition (put i td pl) = global_steal_partition pl"
  "pool_done (put i td pl) = pool_done pl" "pool_cancelled (put i td pl) = pool_cancelled pl"
  "thread_data (put i td pl) = (thread_data pl)[i := td]"
  by (simp_all add: put_def)

lemma put_items:
  assumes "i < length (thread_data pl)"
  shows "pool_items (put i td pl) + td_items (thread_data pl ! i) = pool_items pl + td_items td"
proof -
  have ts: "thread_data pl = take i (thread_data pl) @ thread_data pl ! i # drop (Suc i) (thread_data pl)"
    using assms by (rule id_take_nth_drop)
  have "pool_items pl = sum_list (map td_items (take i (thread_data pl))) + (td_items (thread_data pl ! i)
      + sum_list (map td_items (drop (Suc i) (thread_data pl))))"
    unfolding pool_items_def by (subst ts) (simp only: map_append sum_list_append list.map sum_list.Cons)
  then show ?thesis
    using assms by (simp add: pool_items_def upd_conv_take_nth_drop)
qed

lemma put_inv:
  assumes "pool_inv b pl" "i < length (thread_data pl)" "td_inv c td" "c \<le> b"
    "steal_partition td = steal_partition (thread_data pl ! i)"
  shows "pool_inv c (put i td pl)"
proof -
  have "td_inv c x \<and> partition_ok (num_threads pl) (steal_partition x)"
    if "x \<in> set ((thread_data pl)[i := td])" for x
  proof (cases "x = td")
    case True
    with assms show ?thesis by (auto simp: pool_inv_def)
  next
    case False
    with that set_update_subset_insert have "x \<in> set (thread_data pl)" by fastforce
    with assms(1,4) show ?thesis by (auto simp: pool_inv_def intro: td_inv_mono)
  qed
  with assms(1) show ?thesis by (simp add: pool_inv_def)
qed

lemma pool_worker:
  assumes "pool_inv b pl" "i < nat (num_threads pl)"
  shows "i < length (thread_data pl)" "td_inv b (thread_data pl ! i)"
    "partition_ok (num_threads pl) (steal_partition (thread_data pl ! i))"
  using assms by (simp_all add: pool_inv_def)

section \<open>The constructor and the steal partitions\<close>

lemma SetStealPartition_ok:
  assumes "pool_inv b pl" "i < nat (num_threads pl)" "partition_ok (num_threads pl) val"
  shows "pool_inv b (SetStealPartition i val pl)" "pool_items (SetStealPartition i val pl) = pool_items pl"
    "num_threads (SetStealPartition i val pl) = num_threads pl"
    "GetStealPartition (int j) (SetStealPartition i val pl) = (if j = i then val else GetStealPartition (int j) pl)"
proof -
  let ?td = "(thread_data pl ! i)\<lparr>steal_partition := val\<rparr>"
  note W = pool_worker [OF assms(1,2)]
  have td: "td_inv b ?td" "td_items ?td = td_items (thread_data pl ! i)"
    using W(2) by (simp_all add: td_inv_def td_items_def local_items_def mail_items_def)
  have set: "SetStealPartition i val pl = put i ?td pl" by (simp add: SetStealPartition_def put_def)
  show "pool_items (SetStealPartition i val pl) = pool_items pl"
    using put_items [OF W(1), of ?td] td(2) by (simp add: set)
  have "td_inv b x \<and> partition_ok (num_threads pl) (steal_partition x)"
    if "x \<in> set ((thread_data pl)[i := ?td])" for x
    using set_update_subset_insert [THEN subsetD, OF that] assms(1,3) td(1)
    by (auto simp: pool_inv_def)
  with assms(1) show "pool_inv b (SetStealPartition i val pl)" by (simp add: set pool_inv_def)
  show "num_threads (SetStealPartition i val pl) = num_threads pl" by (simp add: set)
  show "GetStealPartition (int j) (SetStealPartition i val pl) = (if j = i then val else GetStealPartition (int j) pl)"
    using W(1) by (simp add: set GetStealPartition_def)
qed

lemma fold_SetStealPartition:
  "length (thread_data pl) = n \<Longrightarrow> k \<le> n \<Longrightarrow> fold (\<lambda>i. SetStealPartition i p) [0..<k] pl
    = pl\<lparr>thread_data := map (\<lambda>td. td\<lparr>steal_partition := p\<rparr>) (take k (thread_data pl)) @ drop k (thread_data pl)\<rparr>"
proof (induction k)
  case (Suc k)
  then have "drop k (thread_data pl) = thread_data pl ! k # drop (Suc k) (thread_data pl)"
    by (simp add: Cons_nth_drop_Suc)
  with Suc show ?case
    by (simp add: SetStealPartition_def nth_append list_update_append take_Suc_conv_app_nth)
qed simp

lemma no_items: "sum_list (replicate k {#}) = {#}"
  by (induction k) simp_all

lemma ThreadPoolTempl_ok:
  assumes "1 \<le> n" "n < 2 ^ 16"
  shows "\<exists>pl. ThreadPoolTempl n = Some pl \<and> pool_inv (2 ^ 62 - 1) pl \<and> pool_items pl = {#}
    \<and> num_threads pl = n \<and> \<not> pool_cancelled pl \<and> \<not> pool_done pl
    \<and> (\<forall>i < nat n. GetStealPartition (int i) pl = global_steal_partition pl)"
proof -
  let ?p = "EncodePartition 0 (of_int n)"
  obtain td where td: "ThreadData = Some td" using ThreadData_some by blast
  let ?td = "td\<lparr>steal_partition := ?p\<rparr>"
  define pl where "pl = \<lparr>num_threads = n, thread_data = replicate (nat n) ?td,
    all_coprimes = map ComputeCoprimes [1..n], global_steal_partition = ?p,
    pool_done = False, pool_cancelled = False\<rparr>"
  have pl: "ThreadPoolTempl n = Some pl"
    using assms by (simp add: ThreadPoolTempl_def kMaxThreads_def kMaxPartitionBits_def Let_def pl_def td
        fold_SetStealPartition [where n = "nat n"])
  have t: "td_inv (2 ^ 62 - 1) ?td" "td_items ?td = {#}"
    using ThreadData_ok [OF td] by (simp_all add: td_inv_def td_items_def local_items_def mail_items_def)
  have "AssertBounds n (int (unat (0 :: u32))) (int (unat (of_int n :: u32)))"
    using assms by (simp add: AssertBounds_def unat_of_int)
  then have "partition_ok n ?p" unfolding partition_ok_def by blast
  with t(1) assms have "pool_inv (2 ^ 62 - 1) pl" by (simp add: pool_inv_def pl_def)
  moreover have "pool_items pl = {#}" by (simp add: pool_items_def pl_def t(2) no_items)
  moreover have "\<forall>i < nat n. GetStealPartition (int i) pl = global_steal_partition pl"
    by (simp add: GetStealPartition_def pl_def)
  ultimately show ?thesis using pl by (intro exI [of _ pl]) (simp add: pl_def)
qed

text \<open>
  The constructor refuses more than 65535 threads; for any smaller positive number it builds a
  pool that satisfies the invariant, whose queues are empty, with room for \<open>2 ^ 62 - 1\<close> pushes before
  any ticket counter of a mailbox wraps, and in which every thread may steal from all threads.
\<close>

lemma new_pool_well_formed:
  "(2 ^ 16 \<le> n \<longrightarrow> ThreadPoolTempl n = None) \<and>
   (1 \<le> n \<and> n < 2 ^ 16 \<longrightarrow>
     (\<exists>pl. ThreadPoolTempl n = Some pl \<and> pool_inv (2 ^ 62 - 1) pl \<and> pool_items pl = {#} \<and> num_threads pl = n
        \<and> (\<forall>i < nat n. DecodePartition (GetStealPartition (int i) pl) = (0, of_int n))))"
proof (intro conjI impI)
  show "2 ^ 16 \<le> n \<Longrightarrow> ThreadPoolTempl n = None"
    by (simp add: ThreadPoolTempl_def kMaxThreads_def kMaxPartitionBits_def)
next
  assume n: "1 \<le> n \<and> n < 2 ^ 16"
  then obtain pl where pl: "ThreadPoolTempl n = Some pl" "pool_inv (2 ^ 62 - 1) pl" "pool_items pl = {#}"
    "num_threads pl = n" "\<forall>i < nat n. GetStealPartition (int i) pl = global_steal_partition pl"
    using ThreadPoolTempl_ok [of n] by blast
  have "global_steal_partition pl = EncodePartition 0 (of_int n)"
    using pl(1) fold_SetStealPartition
    by (auto simp: ThreadPoolTempl_def Let_def split: if_splits option.splits)
  moreover have "DecodePartition (EncodePartition 0 (of_int n)) = (0, of_int n)"
    using n by (intro decode_encode) (simp_all add: unat_of_int nat_less_iff)
  ultimately show "\<exists>pl. ThreadPoolTempl n = Some pl \<and> pool_inv (2 ^ 62 - 1) pl \<and> pool_items pl = {#}
      \<and> num_threads pl = n \<and> (\<forall>i < nat n. DecodePartition (GetStealPartition (int i) pl) = (0, of_int n))"
    using pl by auto
qed

lemma new_pool_well_formed_example:
  "\<exists>pl. ThreadPoolTempl 24 = Some pl \<and> pool_inv (2 ^ 62 - 1) pl \<and> pool_items pl = {#} \<and> num_threads pl = 24
     \<and> (\<forall>i < nat 24. DecodePartition (GetStealPartition (int i) pl) = (0, of_int 24))"
  by (rule new_pool_well_formed [of 24, THEN conjunct2, THEN mp]) simp

text \<open>A pair of bounds that \<open>AssertBounds\<close> accepts; its arguments are converted to \<open>int\<close>.\<close>

definition in_bounds :: "int \<Rightarrow> u32 \<times> u32 \<Rightarrow> bool" where
  "in_bounds n p \<longleftrightarrow> AssertBounds n (sint (fst p)) (sint (snd p))"

lemma in_boundsD:
  assumes "in_bounds n (start, limit)" "n < 2 ^ 16"
  shows "unat start < 2 ^ 16" "unat limit < 2 ^ 16" "partition_ok n (EncodePartition start limit)"
proof -
  have b: "0 \<le> sint start" "sint start < sint limit" "sint limit \<le> n"
    using assms(1) by (simp_all add: in_bounds_def AssertBounds_def)
  have u: "unat w = nat (sint w)" if "0 \<le> sint w" for w :: u32
    using unat_of_int [of "sint w"] that sint_lt [of w] by simp
  show "unat start < 2 ^ 16" "unat limit < 2 ^ 16" using u [of start] u [of limit] b assms(2) by simp_all
  show "partition_ok n (EncodePartition start limit)"
    using b u [of start] u [of limit] unfolding partition_ok_def AssertBounds_def
    by (intro exI [of _ start] exI [of _ limit]) simp
qed

text \<open>The loop of \<open>SetStealPartitions\<close> over the remaining pairs.\<close>

definition set_partitions :: "(nat \<times> u32 \<times> u32) list \<Rightarrow> pool option \<Rightarrow> pool option" where
  "set_partitions = fold (\<lambda>(i, start, limit) acc.
     case acc of
       None \<Rightarrow> None
     | Some pl \<Rightarrow>
         if AssertBounds (num_threads pl) (sint start) (sint limit)
         then Some (SetStealPartition i (EncodePartition start limit) pl) else None)"

lemma set_partitions_None [simp]: "set_partitions xs None = None"
  by (induction xs) (simp_all add: set_partitions_def split_beta)

lemma set_partitions_Cons:
  "set_partitions ((i, p) # xs) (Some pl) =
     (if in_bounds (num_threads pl) p
      then set_partitions xs (Some (SetStealPartition i (EncodePartition (fst p) (snd p)) pl)) else None)"
  using set_partitions_None [of xs] by (cases p) (simp add: set_partitions_def in_bounds_def)

lemma set_partitions_ok:
  assumes "pool_inv b pl" "k + length ps = nat (num_threads pl)"
    "\<And>j. j < k \<Longrightarrow> DecodePartition (GetStealPartition (int j) pl) = qs ! j"
    "\<And>j. j < length ps \<Longrightarrow> qs ! (k + j) = ps ! j"
  shows "case set_partitions (zip [k..<k + length ps] ps) (Some pl) of
      None \<Rightarrow> \<exists>p \<in> set ps. \<not> in_bounds (num_threads pl) p
    | Some pl' \<Rightarrow> (\<forall>p \<in> set ps. in_bounds (num_threads pl) p) \<and> pool_inv b pl' \<and> pool_items pl' = pool_items pl
        \<and> (\<forall>j < nat (num_threads pl). DecodePartition (GetStealPartition (int j) pl') = qs ! j)"
  using assms
proof (induction ps arbitrary: k pl)
  case Nil
  then show ?case by (simp add: set_partitions_def)
next
  case (Cons p ps)
  obtain start limit where p: "p = (start, limit)" by (cases p)
  have zip: "zip [k..<k + length (p # ps)] (p # ps) = (k, p) # zip [Suc k..<Suc k + length ps] ps"
    by (simp add: upt_conv_Cons del: upt_Suc)
  show ?case
  proof (cases "in_bounds (num_threads pl) p")
    case False
    then show ?thesis unfolding zip by (auto simp: set_partitions_Cons)
  next
    case True
    have n: "num_threads pl < 2 ^ 16" "k < nat (num_threads pl)"
      using Cons.prems(1,2) by (simp_all add: pool_inv_def)
    note B = in_boundsD [OF True [unfolded p] n(1)]
    define pl1 where "pl1 = SetStealPartition k (EncodePartition start limit) pl"
    note S = SetStealPartition_ok [OF Cons.prems(1) n(2) B(3), folded pl1_def]
    have "DecodePartition (GetStealPartition (int j) pl1) = qs ! j" if "j < Suc k" for j
      using that S(4) [of j] decode_encode [OF B(1,2)] Cons.prems(3) [of j] Cons.prems(4) [of 0]
      by (auto simp: p less_Suc_eq)
    moreover have "qs ! (Suc k + j) = ps ! j" if "j < length ps" for j
      using Cons.prems(4) [of "Suc j"] that by simp
    moreover have "Suc k + length ps = nat (num_threads pl1)" using Cons.prems(2) S(3) by simp
    ultimately show ?thesis
      using Cons.IH [OF S(1), of "Suc k"] True S(2,3) unfolding zip
      by (simp add: set_partitions_Cons p pl1_def [symmetric] split: option.splits)
  qed
qed

text \<open>
  \<open>SetStealPartitions\<close> fails on an assertion exactly when the number of pairs is not the number of
  threads or some pair is not a non-empty interval of thread indices; otherwise every thread reads
  back the pair given for it, and no queue changes.
\<close>

lemma SetStealPartitions_checks:
  assumes "pool_inv b pl"
  shows "case SetStealPartitions ps pl of
      None \<Rightarrow> int (length ps) \<noteq> num_threads pl
        \<or> (\<exists>p \<in> set ps. \<not> AssertBounds (num_threads pl) (sint (fst p)) (sint (snd p)))
    | Some pl' \<Rightarrow> int (length ps) = num_threads pl
        \<and> (\<forall>p \<in> set ps. AssertBounds (num_threads pl) (sint (fst p)) (sint (snd p)))
        \<and> pool_inv b pl' \<and> pool_items pl' = pool_items pl
        \<and> (\<forall>j < length ps. DecodePartition (GetStealPartition (int j) pl') = ps ! j)"
proof (cases "int (length ps) = num_threads pl")
  case False
  then show ?thesis by (simp add: SetStealPartitions_def)
next
  case True
  then have "0 + length ps = nat (num_threads pl)" by linarith
  from set_partitions_ok [OF assms this, of ps] True show ?thesis
    by (auto simp: SetStealPartitions_def set_partitions_def in_bounds_def split: option.splits)
qed

lemma SetStealPartitions_checks_example:
  "\<exists>pl. pool_inv (2 ^ 62 - 1) pl \<and> SetStealPartitions [(0, 1), (1, 1)] pl = None"
proof -
  obtain pl where pl: "pool_inv (2 ^ 62 - 1) pl" "num_threads pl = 2" using ThreadPoolTempl_ok [of 2] by auto
  have "\<not> AssertBounds 2 (sint (1 :: u32)) (sint (1 :: u32))" by code_simp
  then have "SetStealPartitions [(0, 1), (1, 1)] pl = None"
    using SetStealPartitions_checks [OF pl(1), of "[(0, 1), (1, 1)]"] pl(2) by (auto split: option.splits)
  with pl(1) show ?thesis by blast
qed

section \<open>Submitting\<close>

lemma push_on_ok:
  assumes inv: "pool_inv (Suc b) pl" and i: "i < nat (num_threads pl)" and t: "is_task t"
  shows "\<exists>ok pl'. push_on i t localThread pl = Some (ok, pl') \<and> pool_inv b pl'
    \<and> pool_items pl' = pool_items pl + (if ok then {#t#} else {#}) \<and> num_threads pl' = num_threads pl
    \<and> pool_done pl' = pool_done pl \<and> pool_cancelled pl' = pool_cancelled pl"
proof -
  note W = pool_worker [OF inv i]
  obtain ok td where push: "PushTask t localThread (thread_data pl ! i) = Some (ok, td)" "td_inv b td"
    "td_items td = td_items (thread_data pl ! i) + (if ok then {#t#} else {#})"
    "steal_partition td = steal_partition (thread_data pl ! i)"
    using PushTask_ok [OF W(2) t] by blast
  have "push_on i t localThread pl = Some (ok, put i td pl)"
    by (simp add: push_on_def push put_def)
  moreover have "pool_items (put i td pl) = pool_items pl + (if ok then {#t#} else {#})"
    using put_items [OF W(1), of td] push(3) by simp
  ultimately show ?thesis using put_inv [OF inv W(1) push(2) _ push(4)] by simp
qed

lemma rnd_range:
  assumes "0 < n" "n < 2 ^ 16"
  shows "0 \<le> sint (r mod of_int n :: u32) \<and> sint (r mod of_int n :: u32) < n"
proof -
  have n: "unat (of_int n :: u32) = nat n" using assms by (simp add: unat_of_int)
  then have u: "unat (r mod of_int n :: u32) < nat n" using assms by (simp add: unat_mod)
  then have "sint (r mod of_int n :: u32) = int (unat (r mod of_int n :: u32))"
    using assms by (intro sint_small) simp
  moreover have "int (unat (r mod of_int n :: u32)) < n" using u assms(1) by linarith
  ultimately show ?thesis by linarith
qed

lemma Schedule_ok:
  assumes inv: "pool_inv (Suc b) pl" and t: "is_task t" and pt: "in_pool pt \<longrightarrow> worker_of pl pt"
  shows "\<exists>inline pt' pl'. Schedule pt t pl = Some (inline, pt', pl') \<and> pool_inv b pl'
    \<and> pool_items pl' + (case inline of None \<Rightarrow> {#} | Some x \<Rightarrow> {#x#}) = pool_items pl + {#t#}"
proof -
  have n: "0 < num_threads pl" "num_threads pl < 2 ^ 16" using inv by (simp_all add: pool_inv_def)
  show ?thesis
  proof (cases "in_pool pt")
    case True
    with pt have "nat (thread_id pt) < nat (num_threads pl)" by (simp add: worker_of_def)
    from push_on_ok [OF inv this t, of True] True show ?thesis
      by (auto simp: Schedule_def ScheduleWithHint_def)
  next
    case False
    obtain r st where rand: "Rand (rand pt) = (r, st)" by fastforce
    let ?i = "sint (r mod of_int (num_threads pl))"
    have range: "0 \<le> ?i" "?i < num_threads pl" using rnd_range [OF n, of r] by simp_all
    then have "nat (0 + ?i) < nat (num_threads pl)" by simp
    from push_on_ok [OF inv this t, of "0 + ?i = thread_id pt"] False rand n range show ?thesis
      by (auto simp: Schedule_def ScheduleWithHint_def Let_def)
  qed
qed

lemma RunOnThread_ok:
  assumes inv: "pool_inv (Suc b) pl" and t: "is_task t"
  shows "\<exists>inline pl'. RunOnThread pt t threadIndex pl = Some (inline, pl') \<and> pool_inv b pl'
    \<and> num_threads pl' = num_threads pl
    \<and> pool_items pl' + (case inline of None \<Rightarrow> {#} | Some x \<Rightarrow> {#x#}) = pool_items pl + {#t#}"
proof -
  have n: "0 < num_threads pl" "num_threads pl < 2 ^ 16" using inv by (simp_all add: pool_inv_def)
  have "unat (of_int (num_threads pl) :: u64) = nat (num_threads pl)"
    using n by (simp add: unat_eq_nat_uint uint_word_of_int)
  then have i: "unat (threadIndex mod of_int (num_threads pl)) < nat (num_threads pl)"
    using n by (simp add: unat_mod)
  from push_on_ok [OF inv i t, of "threadIndex mod of_int (num_threads pl) = of_int (thread_id pt)"]
  show ?thesis by (auto simp: RunOnThread_def Let_def)
qed

text \<open>
  Submitting a task never loses or duplicates it: after \<open>Schedule\<close>, and after \<open>RunOnThread\<close>, it is
  in exactly one queue of the pool, or it is the task the submitting thread executes itself because
  the queue was full; all other queued tasks stay, and the call returns, from a worker of the pool
  as from any other thread.
\<close>

lemma submit_keeps_task:
  assumes "pool_inv (Suc b) pl" "is_task t" "in_pool pt \<longrightarrow> worker_of pl pt"
  shows "(\<exists>inline pt' pl'. Schedule pt t pl = Some (inline, pt', pl') \<and> pool_inv b pl'
      \<and> pool_items pl' + (case inline of None \<Rightarrow> {#} | Some x \<Rightarrow> {#x#}) = pool_items pl + {#t#})
    \<and> (\<exists>inline pl'. RunOnThread pt t threadIndex pl = Some (inline, pl') \<and> pool_inv b pl'
      \<and> pool_items pl' + (case inline of None \<Rightarrow> {#} | Some x \<Rightarrow> {#x#}) = pool_items pl + {#t#})"
  using Schedule_ok [OF assms] RunOnThread_ok [OF assms(1,2), of pt threadIndex] by blast

text \<open>Scheduling from outside on a new pool of three threads, and running on the thread numbered 7.\<close>

lemma submit_keeps_task_example:
  "\<exists>pl. ThreadPoolTempl 3 = Some pl \<and>
     (\<exists>inline pt' pl'. Schedule \<lparr>in_pool = False, rand = 9, thread_id = 0\<rparr> 48 pl = Some (inline, pt', pl')
        \<and> pool_items pl' + (case inline of None \<Rightarrow> {#} | Some x \<Rightarrow> {#x#}) = {#48#}) \<and>
     (\<exists>inline pl'. RunOnThread \<lparr>in_pool = False, rand = 9, thread_id = 0\<rparr> 48 7 pl = Some (inline, pl')
        \<and> pool_items pl' + (case inline of None \<Rightarrow> {#} | Some x \<Rightarrow> {#x#}) = {#48#})"
proof -
  obtain pl where pl: "ThreadPoolTempl 3 = Some pl" "pool_inv (Suc (2 ^ 62 - 2)) pl" "pool_items pl = {#}"
    using ThreadPoolTempl_ok [of 3] by auto
  have "is_task 48" by (simp add: is_task_def IDLE_def)
  from submit_keeps_task [OF pl(2) this, of "\<lparr>in_pool = False, rand = 9, thread_id = 0\<rparr>" 7] pl(1,3)
  show ?thesis by auto
qed

section \<open>Stealing\<close>

definition pool_took :: "nat \<Rightarrow> pool \<Rightarrow> u64 \<Rightarrow> pool \<Rightarrow> bool" where
  "pool_took b pl t pl' \<longleftrightarrow>
     pool_inv b pl' \<and> (t \<noteq> 0 \<longrightarrow> is_task t) \<and>
     pool_items pl = pool_items pl' + (if t \<noteq> 0 then {#t#} else {#}) \<and>
     num_threads pl' = num_threads pl \<and> global_steal_partition pl' = global_steal_partition pl \<and>
     pool_done pl' = pool_done pl \<and> pool_cancelled pl' = pool_cancelled pl \<and>
     (\<forall>i < nat (num_threads pl).
        (mail_items (thread_data pl ! i) = [] \<longrightarrow> mail_items (thread_data pl' ! i) = []) \<and>
        (local_items (thread_data pl ! i) = [] \<longrightarrow> local_items (thread_data pl' ! i) = []))"

lemma pool_took_refl: "pool_inv b pl \<Longrightarrow> pool_took b pl 0 pl"
  by (simp add: pool_took_def)

lemma pool_took_trans:
  assumes "pool_took b pl 0 pl1" "pool_took b pl1 t pl2"
  shows "pool_took b pl t pl2"
  using assms by (simp add: pool_took_def)

lemma pool_took_put:
  assumes inv: "pool_inv b pl" and i: "i < nat (num_threads pl)" and t: "took b (thread_data pl ! i) t td"
  shows "pool_took b pl t (put i td pl)"
proof -
  note W = pool_worker [OF inv i]
  have "td_inv b td" "steal_partition td = steal_partition (thread_data pl ! i)"
    using t by (simp_all add: took_def)
  then have "pool_inv b (put i td pl)" using put_inv [OF inv W(1)] by simp
  moreover have "pool_items pl = pool_items (put i td pl) + (if t \<noteq> 0 then {#t#} else {#})"
    using put_items [OF W(1), of td] t by (simp add: took_def split: if_splits)
  moreover have "length (thread_data pl) = nat (num_threads pl)" using inv by (simp add: pool_inv_def)
  ultimately show ?thesis
    using t i by (simp add: pool_took_def took_def nth_list_update)
qed

text \<open>What a thief found out when it comes back with nothing.\<close>

definition emptied :: "bool \<Rightarrow> thread_data \<Rightarrow> bool" where
  "emptied force td \<longleftrightarrow> mail_items td = [] \<and> (force \<longrightarrow> local_items td = [])"

lemma steal_loop_ok:
  assumes "pool_inv b pl" "\<forall>v \<in> set vs. unat start + unat v < unat limit" "int (unat limit) \<le> num_threads pl"
  shows "\<exists>t pl'. steal_loop force start limit vs pl = Some (t, pl') \<and> pool_took b pl t pl'
    \<and> (t = 0 \<longrightarrow> (\<forall>v \<in> set vs. emptied force (thread_data pl' ! unat (start + v))))
    \<and> (\<not> force \<longrightarrow> map local_items (thread_data pl') = map local_items (thread_data pl))"
  using assms
proof (induction vs arbitrary: pl)
  case Nil
  then show ?case by (simp add: pool_took_refl)
next
  case (Cons v vs)
  have "num_threads pl < 65536" using Cons.prems(1) by (simp add: pool_inv_def)
  then have lim: "unat limit < 65536" using Cons.prems(3) by linarith
  have sv: "unat (start + v) = unat start + unat v"
    using Cons.prems(2) lim by (simp add: unat_word_ariths)
  then have lt: "start + v < limit" using Cons.prems(2) by (simp add: word_less_nat_alt)
  define i where "i = unat (start + v)"
  have "unat start + unat v < unat limit" using Cons.prems(2) by simp
  then have i: "i < nat (num_threads pl)" using Cons.prems(3) by (simp only: i_def sv)
  note W = pool_worker [OF Cons.prems(1) i]
  obtain t td where pop: "ThreadData_PopBack force (thread_data pl ! i) = Some (t, td)"
    and td: "took b (thread_data pl ! i) t td"
    and t: "t = (if mail_items (thread_data pl ! i) \<noteq> [] then hd (mail_items (thread_data pl ! i))
           else if force \<and> local_items (thread_data pl ! i) \<noteq> [] then last (local_items (thread_data pl ! i)) else 0)"
    and loc: "\<not> force \<longrightarrow> local_items td = local_items (thread_data pl ! i)"
    using ThreadData_PopBack_ok [OF W(2)] by blast
  have locals: "\<not> force \<longrightarrow> map local_items (thread_data (put i td pl)) = map local_items (thread_data pl)"
    using loc W(1) by (simp add: map_update list_update_same_conv)
  note P = pool_took_put [OF Cons.prems(1) i td]
  show ?case
  proof (cases "t = 0")
    case False
    then show ?thesis using pop lt P locals by (auto simp: Let_def i_def [symmetric] put_def [symmetric])
  next
    case True
    have empty: "mail_items (thread_data pl ! i) = []" "force \<longrightarrow> local_items (thread_data pl ! i) = []"
      using True t W(2) hd_in_set last_in_set
      by (metis td_inv_def not_task(1) Un_iff set_append)+
    have inv: "pool_inv b (put i td pl)" using P by (simp add: pool_took_def)
    obtain u pl' where rest: "steal_loop force start limit vs (put i td pl) = Some (u, pl')"
      "pool_took b (put i td pl) u pl'"
      "u = 0 \<longrightarrow> (\<forall>v \<in> set vs. emptied force (thread_data pl' ! unat (start + v)))"
      "\<not> force \<longrightarrow> map local_items (thread_data pl') = map local_items (thread_data (put i td pl))"
      using Cons.IH [OF inv] Cons.prems(2,3) by auto
    have "emptied force (thread_data (put i td pl) ! i)"
      using td empty W(1) by (simp add: emptied_def took_def)
    then have "emptied force (thread_data pl' ! i)"
      using rest(2) i by (auto simp: emptied_def pool_took_def)
    moreover have "steal_loop force start limit (v # vs) pl = Some (u, pl')"
      using pop lt True rest(1) by (simp add: Let_def i_def [symmetric] put_def [symmetric])
    moreover have "pool_took b pl u pl'" using P True rest(2) pool_took_trans by blast
    ultimately show ?thesis using rest(3,4) locals by (auto simp: i_def)
  qed
qed

lemma Steal_ok:
  assumes inv: "pool_inv b pl" and se: "unat start < unat limit" "int (unat limit) \<le> num_threads pl"
  shows "\<exists>t st pl'. Steal start limit force pt pl = Some (t, pt\<lparr>rand := st\<rparr>, pl') \<and> pool_took b pl t pl'
    \<and> (t = 0 \<longrightarrow> (\<forall>i. unat start \<le> i \<and> i < unat limit \<longrightarrow> emptied force (thread_data pl' ! i)))
    \<and> (\<not> force \<longrightarrow> map local_items (thread_data pl') = map local_items (thread_data pl))"
proof -
  obtain r st where rand: "Rand (rand pt) = (r, st)" by fastforce
  define n where "n = unat limit - unat start"
  define sz :: u64 where "sz = ucast (limit - start)"
  have N: "num_threads pl < 65536" "all_coprimes pl = map ComputeCoprimes [1..num_threads pl]"
    using inv by (simp_all add: pool_inv_def)
  have lim: "unat limit < 65536" using se(2) N(1) by linarith
  note victims = steal_victims [OF se(1) lim, folded n_def sz_def]
  note sz = victims(1)
  have "int n \<le> int (unat limit)" by (simp only: n_def of_nat_le_iff diff_le_self)
  then have nn: "int n \<le> num_threads pl" using se(2) by linarith
  have n: "1 \<le> n" "n < 65536" "int n \<le> num_threads pl" using se(1) lim nn by (simp_all only: n_def)
  have "all_coprimes pl ! (n - 1) = ComputeCoprimes (int n)"
    using n by (simp add: N(2) nth_upto)
  then have cop: "all_coprimes pl ! (unat sz - 1) = ComputeCoprimes (int n)" by (simp add: sz)
  let ?cs = "ComputeCoprimes (int n)"
  define inc where "inc = ?cs ! unat (reduce r (of_nat (length ?cs)))"
  have walk: "set (victims n inc sz (reduce r sz)) = {w. unat w < n}" using victims(2) [of r] by (simp add: inc_def)
  then have below: "\<forall>v \<in> set (victims n inc sz (reduce r sz)). unat start + unat v < unat limit"
    using se(1) by (auto simp: n_def)
  obtain t pl' where loop: "steal_loop force start limit (victims n inc sz (reduce r sz)) pl = Some (t, pl')"
    "pool_took b pl t pl'"
    "t = 0 \<longrightarrow> (\<forall>v \<in> set (victims n inc sz (reduce r sz)). emptied force (thread_data pl' ! unat (start + v)))"
    "\<not> force \<longrightarrow> map local_items (thread_data pl') = map local_items (thread_data pl)"
    using steal_loop_ok [OF inv below se(2)] by blast
  have "emptied force (thread_data pl' ! i)" if "t = 0" "unat start \<le> i" "i < unat limit" for i
  proof -
    define v where "v = (of_nat (i - unat start) :: u32)"
    have v: "unat v = i - unat start" unfolding v_def using that lim by (intro u32_of_nat) simp
    then have "unat v < n" using that by (simp add: n_def)
    then have "v \<in> set (victims n inc sz (reduce r sz))" by (simp add: walk)
    moreover have "unat (start + v) = i" using that v lim by (simp add: unat_word_ariths)
    ultimately show ?thesis using loop(3) that(1) by auto
  qed
  moreover have "Steal start limit force pt pl = Some (t, pt\<lparr>rand := st\<rparr>, pl')"
    using loop(1) unfolding Steal_def Let_def sz_def [symmetric] rand
    by (simp add: cop [unfolded sz One_nat_def] sz inc_def)
  ultimately show ?thesis using loop(2,4) by blast
qed

text \<open>
  C18: A thief that comes back from a steal over the threads \<open>start, \<dots>, limit - 1\<close> with no task has
  found every one of their mailboxes empty, and every deque too if it was forced to look there; one
  that comes back with a task has taken it out of exactly one queue, and no other task is touched.
  Without force no thread's deque is changed.
\<close>

theorem Steal_complete:
  assumes "pool_inv b pl" "unat start < unat limit" "int (unat limit) \<le> num_threads pl"
  shows "\<exists>t pt' pl'. Steal start limit force pt pl = Some (t, pt', pl') \<and> pool_inv b pl'
    \<and> pool_items pl = pool_items pl' + (if t \<noteq> 0 then {#t#} else {#})
    \<and> (t = 0 \<longrightarrow> (\<forall>i. unat start \<le> i \<and> i < unat limit \<longrightarrow> emptied force (thread_data pl' ! i)))
    \<and> (\<not> force \<longrightarrow> map local_items (thread_data pl') = map local_items (thread_data pl))"
  using Steal_ok [OF assms, of force pt] by (auto simp: pool_took_def)

theorem Steal_complete_witness:
  "\<exists>pl t pt' pl'. ThreadPoolTempl 8 = Some pl \<and>
     Steal 2 5 True \<lparr>in_pool = True, rand = 1, thread_id = 2\<rparr> pl = Some (t, pt', pl')
     \<and> (t = 0 \<longrightarrow> (\<forall>i. 2 \<le> i \<and> i < 5 \<longrightarrow> emptied True (thread_data pl' ! i)))"
proof -
  obtain pl where pl: "ThreadPoolTempl 8 = Some pl" "pool_inv (2 ^ 62 - 1) pl" "num_threads pl = 8"
    using ThreadPoolTempl_ok [of 8] by auto
  have "unat (2 :: u32) < unat (5 :: u32)" "int (unat (5 :: u32)) \<le> num_threads pl" using pl(3) by simp_all
  from Steal_complete [OF pl(2) this, of True "\<lparr>in_pool = True, rand = 1, thread_id = 2\<rparr>"] pl(1)
  show ?thesis by auto
qed

lemma GlobalSteal_ok:
  assumes inv: "pool_inv b pl"
  shows "\<exists>t st pl'. GlobalSteal force pt pl = Some (t, pt\<lparr>rand := st\<rparr>, pl') \<and> pool_took b pl t pl'
    \<and> (t = 0 \<longrightarrow> (\<forall>i < nat (num_threads pl). emptied force (thread_data pl' ! i)))
    \<and> (\<not> force \<longrightarrow> map local_items (thread_data pl') = map local_items (thread_data pl))"
proof -
  have n: "1 \<le> num_threads pl" "num_threads pl < 65536" using inv by (simp_all add: pool_inv_def)
  then have u: "unat (of_int (num_threads pl) :: u32) = nat (num_threads pl)" by (simp add: unat_of_int)
  have "int (nat (num_threads pl)) \<le> num_threads pl" using n by simp
  then show ?thesis
    using Steal_ok [OF inv, of 0 "of_int (num_threads pl)" force pt] n unfolding GlobalSteal_def u by simp
qed

lemma LocalSteal_ok:
  assumes inv: "pool_inv b pl" and w: "worker_of pl pt"
  shows "\<exists>t st pl'. LocalSteal force pt pl = Some (t, pt\<lparr>rand := st\<rparr>, pl') \<and> pool_took b pl t pl'
    \<and> (\<not> force \<longrightarrow> map local_items (thread_data pl') = map local_items (thread_data pl))"
proof (cases "global_steal_partition pl = GetStealPartition (thread_id pt) pl")
  case True
  have "pt = pt\<lparr>rand := rand pt\<rparr>" by simp
  with True pool_took_refl [OF inv] show ?thesis
    by (auto simp: LocalSteal_def intro: exI [of _ "rand pt"])
next
  case False
  have "nat (thread_id pt) < nat (num_threads pl)" using w by (simp add: worker_of_def)
  from pool_worker(3) [OF inv this] obtain start limit where
    p: "GetStealPartition (thread_id pt) pl = EncodePartition start limit"
    and b: "int (unat start) < int (unat limit)" "int (unat limit) \<le> num_threads pl"
    by (auto simp: partition_ok_def AssertBounds_def GetStealPartition_def)
  have "num_threads pl < 65536" using inv by (simp add: pool_inv_def)
  then have u: "unat start < 65536" "unat limit < 65536" using b by linarith+
  then have "DecodePartition (EncodePartition start limit) = (start, limit)"
    by (intro decode_encode) simp_all
  moreover have "sint start = int (unat start)" "sint limit = int (unat limit)"
    using u by (intro sint_small; simp)+
  then have "AssertBounds (num_threads pl) (sint start) (sint limit)"
    using b by (simp only: AssertBounds_def) simp
  ultimately have step: "LocalSteal force pt pl = Steal start limit force pt pl"
    using False p by (simp add: LocalSteal_def Let_def)
  have "unat start < unat limit" using b(1) by linarith
  from Steal_ok [OF inv this b(2), of force pt] show ?thesis unfolding step by blast
qed

end
