(* ===== verification/Worker_Loop.thy ===== *)
theory Worker_Loop
  imports Thread_Pool
begin

text \<open>
  The loop every thread of the pool runs, and the two ways other code enters it, from
  src/include/eigen/nonblocking\_thread\_pool.h: \<open>WorkerLoop\<close>, \<open>JoinMainThread\<close> and
  \<open>TryExecuteSomething\<close>.  What executing a task does to the pool, and whether half of the stack is used
  (\<open>is_stack_half_full\<close>), are arguments.  The other threads do not act while the loop runs.
\<close>

section \<open>The code\<close>

definition on_worker :: "(thread_data \<Rightarrow> thread_data) \<Rightarrow> PerThread \<Rightarrow> pool \<Rightarrow> pool" where
  "on_worker f pt pl =
     (let i = nat (thread_id pt) in pl\<lparr>thread_data := (thread_data pl)[i := f (thread_data pl ! i)]\<rparr>)"

text \<open>The search for a task at the top of the loop body.\<close>

definition find_task :: "bool \<Rightarrow> bool \<Rightarrow> bool \<Rightarrow> PerThread \<Rightarrow> pool \<Rightarrow> (u64 \<times> PerThread \<times> pool) option" where
  "find_task external can_steal all_empty pt pl =
     (case ThreadData_PopFront (thread_data pl ! nat (thread_id pt)) of
        None \<Rightarrow> None
      | Some (t, td) \<Rightarrow>
          let pl = on_worker (\<lambda>_. td) pt pl
          in case (if t = 0 \<and> (\<not> external \<or> can_steal) then LocalSteal all_empty pt pl else Some (t, pt, pl)) of
               None \<Rightarrow> None
             | Some (t, pt, pl) \<Rightarrow>
                 if t = 0 \<and> (\<not> external \<or> can_steal) then GlobalSteal all_empty pt pl
                 else Some (t, pt, pl))"

text \<open>
  The loop; \<open>exec\<close> is what executing a task does to the pool, and the list collects the executed
  tasks.
\<close>

partial_function (option) worker_loop ::
  "(u64 \<Rightarrow> pool \<Rightarrow> pool option) \<Rightarrow> bool \<Rightarrow> bool \<Rightarrow> bool \<Rightarrow> bool \<Rightarrow> bool \<Rightarrow> u64 list \<Rightarrow> PerThread \<Rightarrow> pool
     \<Rightarrow> (bool \<times> u64 list \<times> PerThread \<times> pool) option" where
  "worker_loop exec external once can_steal processed_anything all_empty log pt pl =
     (if pool_cancelled pl then Some (processed_anything, log, pt, pl)
      else
        Option.bind (find_task external can_steal all_empty pt pl) (\<lambda>(t, pt, pl).
          if t = 0 \<and> external \<and> fst (SetIdle (thread_data pl ! nat (thread_id pt)))
          then Some (processed_anything, log, pt, on_worker (\<lambda>td. snd (SetIdle td)) pt pl)
          else if t \<noteq> 0 then
            Option.bind (exec t pl) (\<lambda>pl.
              if once then Some (True, log @ [t], pt, pl)
              else worker_loop exec external once can_steal True False (log @ [t]) pt pl)
          else if pool_done pl then Some (processed_anything, log, pt, pl)
          else if once then Some (processed_anything, log, pt, pl)
          else worker_loop exec external once can_steal processed_anything True log pt pl))"

definition WorkerLoop ::
  "(u64 \<Rightarrow> pool \<Rightarrow> pool option) \<Rightarrow> bool \<Rightarrow> bool \<Rightarrow> bool \<Rightarrow> PerThread \<Rightarrow> pool
     \<Rightarrow> (bool \<times> u64 list \<times> PerThread \<times> pool) option" where
  "WorkerLoop exec half_full external once pt pl =
     (let can_steal = half_full
      in worker_loop exec external once can_steal False False [] pt (on_worker ResetIdle pt pl))"

definition JoinMainThread ::
  "(u64 \<Rightarrow> pool \<Rightarrow> pool option) \<Rightarrow> bool \<Rightarrow> PerThread \<Rightarrow> pool \<Rightarrow> (bool \<times> u64 list \<times> PerThread \<times> pool) option" where
  "JoinMainThread exec half_full pt pl =
     (if CurrentThreadId pt = - 1 then Some (False, [], pt, pl)
      else WorkerLoop exec half_full True False pt pl)"

definition TryExecuteSomething ::
  "(u64 \<Rightarrow> pool \<Rightarrow> pool option) \<Rightarrow> bool \<Rightarrow> PerThread \<Rightarrow> pool \<Rightarrow> (bool \<times> u64 list \<times> PerThread \<times> pool) option" where
  "TryExecuteSomething exec half_full pt pl =
     (if CurrentThreadId pt = - 1 then Some (False, [], pt, pl)
      else WorkerLoop exec half_full True True pt pl)"

section \<open>The loop\<close>

text \<open>
  What the loop relies on in the tasks: executing one returns and leaves in the queues, beside what
  was there, some of the tasks \<open>spawn t\<close>; the rest it has executed itself.  The rank bounds the work a
  task can still cause.
\<close>

definition rank_sum :: "(u64 \<Rightarrow> nat) \<Rightarrow> u64 multiset \<Rightarrow> nat" where
  "rank_sum rank M = sum_mset (image_mset rank M)"

definition tasks_ok :: "(u64 \<Rightarrow> pool \<Rightarrow> pool option) \<Rightarrow> (u64 \<Rightarrow> u64 multiset) \<Rightarrow> (u64 \<Rightarrow> nat) \<Rightarrow> bool" where
  "tasks_ok exec spawn rank \<longleftrightarrow>
     (\<forall>t. is_task t \<longrightarrow> size (spawn t) + rank_sum rank (spawn t) < rank t) \<and>
     (\<forall>t c pl. is_task t \<and> pool_inv (c + size (spawn t)) pl \<longrightarrow>
        (\<exists>pl' S. exec t pl = Some pl' \<and> pool_inv c pl' \<and> S \<subseteq># spawn t \<and> pool_items pl' = pool_items pl + S
           \<and> num_threads pl' = num_threads pl \<and> pool_cancelled pl' = pool_cancelled pl
           \<and> pool_done pl' = pool_done pl))"

lemma rank_sum_simps [simp]:
  "rank_sum rank {#} = 0" "rank_sum rank (add_mset t M) = rank t + rank_sum rank M"
  "rank_sum rank (M + N) = rank_sum rank M + rank_sum rank N"
  by (simp_all add: rank_sum_def)

lemma rank_sum_mono: "M \<subseteq># N \<Longrightarrow> rank_sum rank M \<le> rank_sum rank N"
  by (metis le_add1 rank_sum_simps(3) subset_mset.le_iff_add)

lemma pool_inv_mono: "pool_inv b pl \<Longrightarrow> c \<le> b \<Longrightarrow> pool_inv c pl"
  by (auto simp: pool_inv_def intro: td_inv_mono)

text \<open>
  A run of the loop as far as the tasks are concerned: each executed task with the pool before and after its
  execution.  The task was queued, and executing it put \<open>newly_queued\<close>, some of the tasks it spawns, into the
  queues.
\<close>

fun newly_queued :: "u64 \<times> pool \<times> pool \<Rightarrow> u64 multiset" where
  "newly_queued (t, q, q') = pool_items q' - pool_items q"

fun task_run ::
  "(u64 \<Rightarrow> pool \<Rightarrow> pool option) \<Rightarrow> (u64 \<Rightarrow> u64 multiset) \<Rightarrow> int \<Rightarrow> u64 multiset \<Rightarrow> (u64 \<times> pool \<times> pool) list
     \<Rightarrow> u64 multiset \<Rightarrow> bool" where
  "task_run exec spawn n M [] N \<longleftrightarrow> N = M"
| "task_run exec spawn n M ((t, q, q') # run) N \<longleftrightarrow>
     M = add_mset t (pool_items q) \<and> pool_inv (size (spawn t)) q \<and> num_threads q = n \<and> exec t q = Some q' \<and>
     pool_items q \<subseteq># pool_items q' \<and> newly_queued (t, q, q') \<subseteq># spawn t \<and>
     task_run exec spawn n (pool_items q') run N"

declare newly_queued.simps [simp del]

lemma newly_queued_items: "pool_items q \<subseteq># pool_items q' \<Longrightarrow> pool_items q' = pool_items q + newly_queued (t, q, q')"
  by (simp add: newly_queued.simps)

lemma newly_queued_add: "pool_items q' = pool_items q + S \<Longrightarrow> newly_queued (t, q, q') = S"
  by (simp add: newly_queued.simps)

lemma task_run_executes:
  "task_run exec spawn n M run N \<Longrightarrow> mset (map fst run) + N = M + sum_list (map newly_queued run)"
proof (induction exec spawn n M run N rule: task_run.induct)
  case (2 exec spawn n M t q q' run N)
  then have M: "M = add_mset t (pool_items q)" and q': "pool_items q' = pool_items q + newly_queued (t, q, q')"
    and IH: "mset (map fst run) + N = pool_items q' + sum_list (map newly_queued run)"
    by (simp_all add: newly_queued_items)
  have "mset (map fst ((t, q, q') # run)) + N = add_mset t (mset (map fst run) + N)" by simp
  also have "\<dots> = add_mset t (pool_items q + newly_queued (t, q, q') + sum_list (map newly_queued run))"
    unfolding IH by (subst q') (rule refl)
  also have "\<dots> = M + sum_list (map newly_queued ((t, q, q') # run))" by (simp add: M add.assoc)
  finally show ?case .
qed simp

lemma task_run_spawned:
  "task_run exec spawn n M run N \<Longrightarrow> sum_list (map newly_queued run) \<subseteq># sum_list (map (\<lambda>x. spawn (fst x)) run)"
  by (induction exec spawn n M run N rule: task_run.induct) (auto intro: subset_mset.add_mono)

lemma task_run_bounds:
  assumes "task_run exec spawn n M run N"
  shows "M \<subseteq># mset (map fst run) + N" "mset (map fst run) + N \<subseteq># M + sum_list (map spawn (map fst run))"
  using task_run_executes [OF assms] task_run_spawned [OF assms] by (simp_all add: comp_def)

definition nothing_found :: "bool \<Rightarrow> bool \<Rightarrow> bool \<Rightarrow> PerThread \<Rightarrow> pool \<Rightarrow> bool" where
  "nothing_found external can_steal force pt pl \<longleftrightarrow>
     emptied True (thread_data pl ! nat (thread_id pt)) \<and>
     (\<not> external \<or> can_steal \<longrightarrow> (\<forall>i < nat (num_threads pl). emptied force (thread_data pl ! i)))"

lemma nothing_found_rand [simp]:
  "nothing_found external can_steal force (pt\<lparr>rand := st\<rparr>) pl = nothing_found external can_steal force pt pl"
  by (simp add: nothing_found_def)

lemma find_task_ok:
  assumes inv: "pool_inv b pl" and w: "worker_of pl pt"
  shows "\<exists>t st pl'. find_task external can_steal all_empty pt pl = Some (t, pt\<lparr>rand := st\<rparr>, pl')
    \<and> pool_took b pl t pl' \<and> (t = 0 \<longrightarrow> nothing_found external can_steal all_empty pt pl')"
proof -
  let ?i = "nat (thread_id pt)" and ?steal = "\<not> external \<or> can_steal"
  have i: "?i < nat (num_threads pl)" using w by (simp add: worker_of_def)
  note W = pool_worker [OF inv i]
  obtain t td where pop: "ThreadData_PopFront (thread_data pl ! ?i) = Some (t, td)"
    "took b (thread_data pl ! ?i) t td"
    and t: "t = (if is_task (runnext (thread_data pl ! ?i)) then runnext (thread_data pl ! ?i)
           else if local_items (thread_data pl ! ?i) \<noteq> [] then hd (local_items (thread_data pl ! ?i))
           else if mail_items (thread_data pl ! ?i) \<noteq> [] then hd (mail_items (thread_data pl ! ?i)) else 0)"
    using ThreadData_PopFront_ok [OF W(2)] by blast
  define p1 where "p1 = put ?i td pl"
  have P: "pool_took b pl t p1" unfolding p1_def by (rule pool_took_put [OF inv i pop(2)])
  have on: "on_worker (\<lambda>_. td) pt pl = p1" by (simp add: on_worker_def Let_def p1_def put_def)
  show ?thesis
  proof (cases "t = 0")
    case False
    have "find_task external can_steal all_empty pt pl = Some (t, pt\<lparr>rand := rand pt\<rparr>, p1)"
      using False pop(1) by (simp add: find_task_def on)
    with False P show ?thesis by blast
  next
    case True
    have "\<not> is_task (runnext (thread_data pl ! ?i))" using W(2) by (simp add: td_inv_def)
    then have empty: "local_items (thread_data pl ! ?i) = []" "mail_items (thread_data pl ! ?i) = []"
      using True t W(2) hd_in_set by (metis td_inv_def not_task(1) Un_iff set_append)+
    then have own1: "emptied True (thread_data p1 ! ?i)"
      using pop(2) W(1) by (simp add: emptied_def took_def p1_def)
    have own: "emptied True (thread_data q ! ?i)" if "pool_took b p1 u q" for u q
      using that own1 i P by (auto simp: emptied_def pool_took_def)
    have inv1: "pool_inv b p1" and n1: "num_threads p1 = num_threads pl"
      using P by (simp_all add: pool_took_def)
    have w1: "worker_of p1 pt" using w n1 by (simp add: worker_of_def)
    show ?thesis
    proof (cases ?steal)
      case False
      have "find_task external can_steal all_empty pt pl = Some (0, pt\<lparr>rand := rand pt\<rparr>, p1)"
        using True False pop(1) by (auto simp: find_task_def on)
      with True False P own1 show ?thesis
        by (intro exI [of _ 0] exI [of _ "rand pt"] exI [of _ p1]) (auto simp: nothing_found_def)
    next
      case steal: True
      obtain t2 st2 p2 where l: "LocalSteal all_empty pt p1 = Some (t2, pt\<lparr>rand := st2\<rparr>, p2)"
        "pool_took b p1 t2 p2"
        using LocalSteal_ok [OF inv1 w1, of all_empty] by blast
      then have P2: "pool_took b pl t2 p2" using P True pool_took_trans by blast
      show ?thesis
      proof (cases "t2 = 0")
        case False
        then have "find_task external can_steal all_empty pt pl = Some (t2, pt\<lparr>rand := st2\<rparr>, p2)"
          using True steal pop(1) l(1) by (simp add: find_task_def on)
        with False P2 show ?thesis by blast
      next
        case t2: True
        have inv2: "pool_inv b p2" using l(2) by (simp add: pool_took_def)
        obtain t3 st3 p3 where g: "GlobalSteal all_empty (pt\<lparr>rand := st2\<rparr>) p2 = Some (t3, pt\<lparr>rand := st2\<rparr>\<lparr>rand := st3\<rparr>, p3)"
          "pool_took b p2 t3 p3"
          "t3 = 0 \<longrightarrow> (\<forall>i < nat (num_threads p2). emptied all_empty (thread_data p3 ! i))"
          using GlobalSteal_ok [OF inv2, of all_empty "pt\<lparr>rand := st2\<rparr>"] by blast
        have "pool_took b p1 t3 p3" "pool_took b pl t3 p3"
          using P2 l(2) t2 g(2) pool_took_trans by blast+
        moreover have "num_threads p3 = num_threads p2" using g(2) by (simp add: pool_took_def)
        moreover have "find_task external can_steal all_empty pt pl = Some (t3, pt\<lparr>rand := st3\<rparr>, p3)"
          using True steal pop(1) l(1) t2 g(1) by (simp add: find_task_def on)
        ultimately show ?thesis using g(3) own by (auto simp: nothing_found_def)
      qed
    qed
  qed
qed

text \<open>The steps around the search.\<close>

lemma SetIdle_ok:
  assumes "td_inv b td"
  shows "fst (SetIdle td)" "td_inv b (snd (SetIdle td))" "td_items (snd (SetIdle td)) = td_items td"
    "steal_partition (snd (SetIdle td)) = steal_partition td"
    "local_items (snd (SetIdle td)) = local_items td" "mail_items (snd (SetIdle td)) = mail_items td"
  using assms by (auto simp: SetIdle_def Let_def compare_exchange_runnext_def td_inv_def td_items_def
      local_items_def mail_items_def is_task_def)

lemma ResetIdle_ok:
  assumes "td_inv b td"
  shows "td_inv b (ResetIdle td)" "td_items (ResetIdle td) = td_items td"
    "steal_partition (ResetIdle td) = steal_partition td"
    "local_items (ResetIdle td) = local_items td" "mail_items (ResetIdle td) = mail_items td"
  using assms by (auto simp: ResetIdle_def Let_def compare_exchange_runnext_def td_inv_def td_items_def
      local_items_def mail_items_def is_task_def)

lemma on_worker_ok:
  assumes inv: "pool_inv b pl" and w: "worker_of pl pt"
    and f: "\<And>td. td_inv b td \<Longrightarrow> td_inv b (f td) \<and> td_items (f td) = td_items td
      \<and> steal_partition (f td) = steal_partition td \<and> local_items (f td) = local_items td
      \<and> mail_items (f td) = mail_items td"
  shows "pool_took b pl 0 (on_worker f pt pl)"
proof -
  have i: "nat (thread_id pt) < nat (num_threads pl)" using w by (simp add: worker_of_def)
  note W = pool_worker [OF inv i]
  have "took b (thread_data pl ! nat (thread_id pt)) 0 (f (thread_data pl ! nat (thread_id pt)))"
    using f [OF W(2)] by (simp add: took_def)
  from pool_took_put [OF inv i this] show ?thesis by (simp add: on_worker_def Let_def put_def)
qed

lemma took_drains:
  "pool_took b pl 0 pl' \<Longrightarrow> worker_of pl pt \<Longrightarrow> nothing_found external can_steal force pt pl
    \<Longrightarrow> nothing_found external can_steal force pt pl'"
  unfolding nothing_found_def emptied_def pool_took_def worker_of_def by (auto simp: nat_less_iff)

text \<open>The loop of a thread that leaves when it finds nothing.\<close>

lemma worker_loop_ok:
  assumes tasks: "tasks_ok exec spawn rank"
    and "pool_inv (b + rank_sum rank (pool_items pl)) pl" "worker_of pl pt" "\<not> pool_cancelled pl"
    and "external \<or> pool_done pl"
  shows "\<exists>done run st pl'. worker_loop exec external False can_steal processed False log pt pl
      = Some (done, log @ map fst run, pt\<lparr>rand := st\<rparr>, pl')
    \<and> done = (processed \<or> run \<noteq> []) \<and> pool_inv b pl' \<and> num_threads pl' = num_threads pl
    \<and> nothing_found external can_steal False pt pl'
    \<and> task_run exec spawn (num_threads pl) (pool_items pl) run (pool_items pl')"
  using assms(2-)
proof (induction "rank_sum rank (pool_items pl)" arbitrary: pl pt processed log rule: less_induct)
  case less
  let ?R = "b + rank_sum rank (pool_items pl)"
  obtain t st p1 where find: "find_task external can_steal False pt pl = Some (t, pt\<lparr>rand := st\<rparr>, p1)"
    and took: "pool_took ?R pl t p1" and none: "t = 0 \<longrightarrow> nothing_found external can_steal False pt p1"
    using find_task_ok [OF less.prems(1,2)] by blast
  let ?pt = "pt\<lparr>rand := st\<rparr>"
  have frame: "num_threads p1 = num_threads pl" "pool_cancelled p1 = pool_cancelled pl"
    "pool_done p1 = pool_done pl" and inv1: "pool_inv ?R p1"
    using took unfolding pool_took_def by blast+
  have w1: "worker_of p1 ?pt" using less.prems(2) frame by (simp add: worker_of_def)
  show ?case
  proof (cases "t = 0")
    case True
    have same: "pool_items p1 = pool_items pl" using took True by (simp add: pool_took_def)
    show ?thesis
    proof (cases external)
      case ext: True
      let ?p2 = "on_worker (\<lambda>td. snd (SetIdle td)) ?pt p1"
      have i: "nat (thread_id pt) < nat (num_threads p1)" using w1 by (simp add: worker_of_def)
      have idle: "fst (SetIdle (thread_data p1 ! nat (thread_id pt)))"
        using SetIdle_ok(1) [OF pool_worker(2) [OF inv1 i]] .
      have P: "pool_took ?R p1 0 ?p2"
        by (rule on_worker_ok [OF inv1 w1]) (simp add: SetIdle_ok)
      have "worker_loop exec external False can_steal processed False log pt pl = Some (processed, log, ?pt, ?p2)"
        using less.prems(3) find True ext idle by (subst worker_loop.simps) simp
      moreover have "nothing_found external can_steal False pt ?p2"
        using took_drains [OF P w1, of external can_steal False] none True ext by simp
      moreover have "pool_inv b ?p2" "pool_items ?p2 = pool_items pl" "num_threads ?p2 = num_threads pl"
        using P same frame by (auto simp: pool_took_def intro: pool_inv_mono)
      ultimately show ?thesis by (intro exI [of _ processed] exI [of _ "[]"] exI [of _ st] exI [of _ ?p2]) simp
    next
      case False
      with less.prems(4) have "pool_done p1" using frame by simp
      then have "worker_loop exec external False can_steal processed False log pt pl = Some (processed, log, ?pt, p1)"
        using less.prems(3) find True False by (subst worker_loop.simps) simp
      then show ?thesis
        using none True same inv1 frame
        by (intro exI [of _ processed] exI [of _ "[]"] exI [of _ st] exI [of _ p1]) (auto intro: pool_inv_mono)
    qed
  next
    case False
    have t: "is_task t" and items: "pool_items pl = add_mset t (pool_items p1)"
      using took False by (simp_all add: pool_took_def)
    have rank: "size (spawn t) + rank_sum rank (spawn t) < rank t" using tasks t by (simp add: tasks_ok_def)
    let ?c = "b + rank_sum rank (pool_items p1) + rank_sum rank (spawn t)"
    have "pool_inv (?c + size (spawn t)) p1" using inv1 rank items by (auto intro: pool_inv_mono)
    then obtain p2 S where ex: "exec t p1 = Some p2" "pool_inv ?c p2" "S \<subseteq># spawn t"
      "pool_items p2 = pool_items p1 + S" "num_threads p2 = num_threads p1"
      "pool_cancelled p2 = pool_cancelled p1" "pool_done p2 = pool_done p1"
      using tasks t unfolding tasks_ok_def by blast
    have S: "rank_sum rank S \<le> rank_sum rank (spawn t)" using ex(3) by (rule rank_sum_mono)
    then have less_rank: "rank_sum rank (pool_items p2) < rank_sum rank (pool_items pl)"
      using rank items ex(4) by simp
    have inv2: "pool_inv (b + rank_sum rank (pool_items p2)) p2"
      using ex(2,4) S by (auto intro: pool_inv_mono)
    have w2: "worker_of p2 ?pt" using w1 ex(5) by (simp add: worker_of_def)
    obtain dn run st' pl' where rest:
      "worker_loop exec external False can_steal True False (log @ [t]) ?pt p2
        = Some (dn, (log @ [t]) @ map fst run, ?pt\<lparr>rand := st'\<rparr>, pl')"
      "dn = (True \<or> run \<noteq> [])" "pool_inv b pl'" "num_threads pl' = num_threads p2" "nothing_found external can_steal False ?pt pl'"
      "task_run exec spawn (num_threads p2) (pool_items p2) run (pool_items pl')"
      using less.hyps [OF less_rank inv2 w2, of True "log @ [t]"] less.prems(3,4) ex(6,7) frame by auto
    let ?run = "(t, p1, p2) # run"
    have "worker_loop exec external False can_steal processed False log pt pl
        = Some (True, log @ map fst ?run, pt\<lparr>rand := st'\<rparr>, pl')"
      using less.prems(3) find False ex(1) rest(1,2) by (subst worker_loop.simps) simp
    moreover have "nothing_found external can_steal False pt pl'" using rest(5) by simp
    moreover have "pool_inv (size (spawn t)) p1" using inv1 rank items by (auto intro: pool_inv_mono)
    then have "task_run exec spawn (num_threads pl) (pool_items pl) ?run (pool_items pl')"
      using rest(6) items ex(1,3,4,5) frame by (simp add: newly_queued_add)
    ultimately show ?thesis using rest(3,4) ex(5) frame
      by (intro exI [of _ True] exI [of _ ?run] exI [of _ st'] exI [of _ pl']) simp
  qed
qed

section \<open>Entering the loop from outside\<close>

lemma worker_thread_id: "pool_inv b pl \<Longrightarrow> worker_of pl pt \<Longrightarrow> CurrentThreadId pt \<noteq> - 1"
proof
  assume "pool_inv b pl" "worker_of pl pt" "CurrentThreadId pt = - 1"
  then have id: "0 \<le> thread_id pt" "thread_id pt < 2 ^ 16" and m: "(of_int (thread_id pt) :: u64) = - 1"
    by (auto simp: pool_inv_def worker_of_def CurrentThreadId_def)
  have "nat (thread_id pt + 1) = unat (of_int (thread_id pt + 1) :: u64)"
    using id by (simp add: unat_eq_nat_uint uint_word_of_int del: of_int_add)
  also have "\<dots> = 0" by (simp add: m)
  finally show False using id by simp
qed

lemma reset_took:
  assumes "pool_inv b pl" "worker_of pl pt"
  shows "pool_took b pl 0 (on_worker ResetIdle pt pl)"
  by (rule on_worker_ok [OF assms]) (simp add: ResetIdle_ok)

lemma reset_ok:
  assumes "pool_inv b pl" "worker_of pl pt" "\<not> pool_cancelled pl"
  shows "pool_inv b (on_worker ResetIdle pt pl)" "num_threads (on_worker ResetIdle pt pl) = num_threads pl"
    "pool_items (on_worker ResetIdle pt pl) = pool_items pl" "\<not> pool_cancelled (on_worker ResetIdle pt pl)"
    "worker_of (on_worker ResetIdle pt pl) pt"
  using reset_took [OF assms(1,2)] assms(2,3) unfolding pool_took_def worker_of_def by auto

lemma JoinMainThread_ok:
  assumes "tasks_ok exec spawn rank" "pool_inv (b + rank_sum rank (pool_items pl)) pl"
    "worker_of pl pt" "\<not> pool_cancelled pl"
  shows "\<exists>ran run pt' pl'. JoinMainThread exec half_full pt pl = Some (ran, map fst run, pt', pl')
    \<and> ran = (run \<noteq> []) \<and> pool_inv b pl' \<and> num_threads pl' = num_threads pl
    \<and> emptied True (thread_data pl' ! nat (thread_id pt))
    \<and> (half_full \<longrightarrow> (\<forall>i < nat (num_threads pl'). mail_items (thread_data pl' ! i) = []))
    \<and> task_run exec spawn (num_threads pl) (pool_items pl) run (pool_items pl')"
proof -
  let ?p = "on_worker ResetIdle pt pl"
  note p = reset_ok [OF assms(2,3,4)]
  then have "pool_inv (b + rank_sum rank (pool_items ?p)) ?p" "worker_of ?p pt" "\<not> pool_cancelled ?p"
    by simp_all
  from worker_loop_ok [OF assms(1) this, of True half_full False "[]"]
  obtain ran run st pl' where loop:
    "worker_loop exec True False half_full False False [] pt ?p = Some (ran, map fst run, pt\<lparr>rand := st\<rparr>, pl')"
    "ran = (run \<noteq> [])" "pool_inv b pl'" "num_threads pl' = num_threads ?p" "nothing_found True half_full False pt pl'"
    "task_run exec spawn (num_threads pl) (pool_items pl) run (pool_items pl')"
    by (auto simp: p(2,3))
  then have "JoinMainThread exec half_full pt pl = Some (ran, map fst run, pt\<lparr>rand := st\<rparr>, pl')"
    using worker_thread_id [OF assms(2,3)] by (simp add: JoinMainThread_def WorkerLoop_def)
  with loop(2-) show ?thesis
    by (intro exI [of _ ran] exI [of _ run] exI [of _ "pt\<lparr>rand := st\<rparr>"] exI [of _ pl'])
      (simp add: nothing_found_def emptied_def p(2))
qed

text \<open>
  C13: \<open>JoinMainThread\<close> called by a thread of the pool returns, and when it does its own queues are
  empty and, if stealing was allowed, so is every thread's mailbox.  It reports whether it executed
  anything.  Every task that was queued has been executed or is still queued, and nothing but these
  and the tasks they spawned was executed or is queued.
\<close>

theorem JoinMainThread_drains:
  assumes "tasks_ok exec spawn rank" "pool_inv (b + rank_sum rank (pool_items pl)) pl"
    "worker_of pl pt" "\<not> pool_cancelled pl"
  shows "\<exists>ran log pt' pl'. JoinMainThread exec half_full pt pl = Some (ran, log, pt', pl')
    \<and> ran = (log \<noteq> []) \<and> pool_inv b pl' \<and> emptied True (thread_data pl' ! nat (thread_id pt))
    \<and> (half_full \<longrightarrow> (\<forall>i < nat (num_threads pl'). mail_items (thread_data pl' ! i) = []))
    \<and> pool_items pl \<subseteq># mset log + pool_items pl'
    \<and> mset log + pool_items pl' \<subseteq># pool_items pl + sum_list (map spawn log)"
proof -
  obtain ran run pt' pl' where join: "JoinMainThread exec half_full pt pl = Some (ran, map fst run, pt', pl')"
    "ran = (run \<noteq> [])" "pool_inv b pl'" "emptied True (thread_data pl' ! nat (thread_id pt))"
    "half_full \<longrightarrow> (\<forall>i < nat (num_threads pl'). mail_items (thread_data pl' ! i) = [])"
    and run: "task_run exec spawn (num_threads pl) (pool_items pl) run (pool_items pl')"
    using JoinMainThread_ok [OF assms, of half_full] by blast
  from join task_run_bounds [OF run] show ?thesis
    by (intro exI [of _ ran] exI [of _ "map fst run"] exI [of _ pt'] exI [of _ pl']) simp
qed

text \<open>A task body for the examples: task 48 pushes task 64 onto the first thread, the others do nothing.\<close>

definition demo_exec :: "u64 \<Rightarrow> pool \<Rightarrow> pool option" where
  "demo_exec t pl = (if t = 48 then map_option snd (push_on 0 64 True pl) else Some pl)"

definition demo_spawn :: "u64 \<Rightarrow> u64 multiset" where
  "demo_spawn t = (if t = 48 then {#64#} else {#})"

definition demo_rank :: "u64 \<Rightarrow> nat" where
  "demo_rank t = (if t = 48 then 3 else 1)"

lemma demo_ok: "tasks_ok demo_exec demo_spawn demo_rank"
proof -
  have "is_task 64" by (simp add: is_task_def IDLE_def)
  then have push: "\<exists>ok pl'. push_on 0 64 True pl = Some (ok, pl') \<and> pool_inv c pl'
    \<and> pool_items pl' = pool_items pl + (if ok then {#64#} else {#}) \<and> num_threads pl' = num_threads pl
    \<and> pool_done pl' = pool_done pl \<and> pool_cancelled pl' = pool_cancelled pl"
    if "pool_inv (Suc c) pl" for c pl
    using push_on_ok [OF that, of 0 64 True] that by (simp add: pool_inv_def)
  have "\<exists>pl' S. demo_exec t pl = Some pl' \<and> pool_inv c pl' \<and> S \<subseteq># demo_spawn t
      \<and> pool_items pl' = pool_items pl + S \<and> num_threads pl' = num_threads pl
      \<and> pool_cancelled pl' = pool_cancelled pl \<and> pool_done pl' = pool_done pl"
    if "pool_inv (c + size (demo_spawn t)) pl" for t c pl
  proof (cases "t = 48")
    case True
    with that have "pool_inv (Suc c) pl" by (simp add: demo_spawn_def)
    from push [OF this] obtain ok pl' where p: "push_on 0 64 True pl = Some (ok, pl')" "pool_inv c pl'"
      "pool_items pl' = pool_items pl + (if ok then {#64#} else {#})" "num_threads pl' = num_threads pl"
      "pool_done pl' = pool_done pl" "pool_cancelled pl' = pool_cancelled pl" by blast
    with True show ?thesis
      by (intro exI [of _ pl'] exI [of _ "if ok then {#64#} else {#}"]) (simp add: demo_exec_def demo_spawn_def)
  next
    case False
    with that show ?thesis by (simp add: demo_exec_def demo_spawn_def)
  qed
  then show ?thesis by (simp add: tasks_ok_def demo_spawn_def demo_rank_def)
qed

lemma demo_pool:
  assumes "1 \<le> n" "n < 2 ^ 16"
  shows "\<exists>pl. pool_inv 9 pl \<and> pool_items pl = {#48#} \<and> num_threads pl = n \<and> \<not> pool_cancelled pl"
proof -
  obtain pl where pl: "pool_inv (2 ^ 62 - 1) pl" "pool_items pl = {#}" "num_threads pl = n" "\<not> pool_cancelled pl"
    using ThreadPoolTempl_ok [OF assms] by blast
  have inv: "pool_inv (Suc 9) pl" using pl(1) by (rule pool_inv_mono) simp
  have t: "is_task 48" by (simp add: is_task_def IDLE_def)
  have i: "0 < nat (num_threads pl)" using assms pl(3) by simp
  note W = pool_worker [OF inv i]
  have "td_items (thread_data pl ! 0) = {#}"
    using pl(2) W(1) by (cases "thread_data pl") (simp_all add: pool_items_def)
  then have "local_items (thread_data pl ! 0) = []" by (simp add: td_items_def)
  then obtain td where "PushTask 48 True (thread_data pl ! 0) = Some (True, td)"
    using PushTask_ok [OF W(2) t, of True] by auto
  then have "\<exists>pl'. push_on 0 48 True pl = Some (True, pl')" by (simp add: push_on_def)
  with push_on_ok [OF inv i t, of True] pl(2-) show ?thesis by auto
qed

text \<open>On a pool of two threads with task 48 queued, which spawns task 64.\<close>

theorem JoinMainThread_drains_witness:
  "\<exists>pl ran log pt' pl'. num_threads pl = 2 \<and> pool_items pl = {#48#} \<and>
     JoinMainThread demo_exec True \<lparr>in_pool = True, rand = 7, thread_id = 0\<rparr> pl = Some (ran, log, pt', pl')
     \<and> ran = (log \<noteq> []) \<and> emptied True (thread_data pl' ! 0) \<and> {#48#} \<subseteq># mset log + pool_items pl'"
proof -
  obtain pl where pl: "pool_inv 9 pl" "pool_items pl = {#48#}" "num_threads pl = 2" "\<not> pool_cancelled pl"
    using demo_pool [of 2] by auto
  have "pool_inv (0 + rank_sum demo_rank (pool_items pl)) pl"
    using pl(1) by (rule pool_inv_mono) (simp add: pl(2) demo_rank_def)
  moreover have "worker_of pl \<lparr>in_pool = True, rand = 7, thread_id = 0\<rparr>" by (simp add: worker_of_def pl(3))
  ultimately show ?thesis
    using JoinMainThread_drains [OF demo_ok, of 0 pl "\<lparr>in_pool = True, rand = 7, thread_id = 0\<rparr>" True] pl(2-4)
    by (intro exI [of _ pl]) auto
qed

text \<open>
  C14: In a pool of one thread that is not cancelled, with tasks whose executions return and spawn less work than
  they are (\<open>tasks_ok\<close>), \<open>JoinMainThread\<close> returns with nothing left in any queue, and it has executed
  exactly the tasks that were queued when it was called together with those that executing a task put into the
  queues, each as often as it was queued: every executed task was in the queues just before, and the executions
  follow one another from the tasks queued at the call to none.
\<close>

theorem single_thread_runs_all:
  assumes "tasks_ok exec spawn rank" "pool_inv (rank_sum rank (pool_items pl)) pl"
    "worker_of pl pt" "\<not> pool_cancelled pl" "num_threads pl = 1"
  shows "\<exists>ran run pt' pl'. JoinMainThread exec half_full pt pl = Some (ran, map fst run, pt', pl')
    \<and> pool_items pl' = {#} \<and> task_run exec spawn 1 (pool_items pl) run {#}
    \<and> mset (map fst run) = pool_items pl + sum_list (map newly_queued run)"
proof -
  have inv: "pool_inv (0 + rank_sum rank (pool_items pl)) pl" using assms(2) by simp
  obtain ran run pt' pl' where join: "JoinMainThread exec half_full pt pl = Some (ran, map fst run, pt', pl')"
    "pool_inv 0 pl'" "num_threads pl' = num_threads pl" "emptied True (thread_data pl' ! nat (thread_id pt))"
    and run: "task_run exec spawn 1 (pool_items pl) run (pool_items pl')"
    using JoinMainThread_ok [OF assms(1) inv assms(3,4), of half_full] assms(5) by auto
  have one: "length (thread_data pl') = 1" "\<forall>td \<in> set (thread_data pl'). td_inv 0 td"
    using join(2,3) assms(5) by (simp_all add: pool_inv_def)
  then obtain td where td: "thread_data pl' = [td]" by (auto simp: length_Suc_conv)
  have "thread_id pt = 0" using assms(3,5) by (simp add: worker_of_def)
  then have "emptied True td" "\<not> is_task (runnext td)" using join(4) one by (simp_all add: td td_inv_def)
  then have "pool_items pl' = {#}" by (simp add: td pool_items_def td_items_def emptied_def)
  with join(1) run task_run_executes [OF run] show ?thesis by auto
qed

text \<open>Task 48 alone in the queues of one thread: it pushes task 64, and both are executed.\<close>

lemma push_on_empty:
  assumes "pool_inv (Suc c) pl" "pool_items pl = {#}" "is_task t"
  shows "\<exists>pl'. push_on 0 t True pl = Some (True, pl') \<and> pool_items pl' = {#t#}"
proof -
  have i: "0 < nat (num_threads pl)" using assms(1) by (simp add: pool_inv_def)
  note W = pool_worker [OF assms(1) i]
  have "td_items (thread_data pl ! 0) = {#}"
    using assms(2) W(1) by (cases "thread_data pl") (simp_all add: pool_items_def)
  then have "local_items (thread_data pl ! 0) = []" by (simp add: td_items_def)
  then obtain td where "PushTask t True (thread_data pl ! 0) = Some (True, td)"
    using PushTask_ok [OF W(2) assms(3), of True] by auto
  then have "\<exists>pl'. push_on 0 t True pl = Some (True, pl')" by (simp add: push_on_def)
  with push_on_ok [OF assms(1) i assms(3), of True] assms(2) show ?thesis by auto
qed

lemma demo_run:
  assumes "task_run demo_exec demo_spawn 1 {#48#} run {#}"
  shows "map fst run = [48, 64]"
proof -
  obtain t q q' run' where r: "run = (t, q, q') # run'" using assms by (cases run) auto
  with assms have t: "t = 48" "pool_items q = {#}" "pool_inv (Suc 0) q" "demo_exec 48 q = Some q'"
    and rest: "task_run demo_exec demo_spawn 1 (pool_items q') run' {#}"
    by (auto simp: demo_spawn_def)
  have "is_task 64" by (simp add: is_task_def IDLE_def)
  from push_on_empty [OF t(3,2) this] t(4) have q': "pool_items q' = {#64#}" by (auto simp: demo_exec_def)
  obtain u p p' run'' where r': "run' = (u, p, p') # run''" using rest q' by (cases run') auto
  with rest q' have u: "u = 64" "pool_items p = {#}" "demo_exec 64 p = Some p'"
    and rest': "task_run demo_exec demo_spawn 1 (pool_items p') run'' {#}"
    by auto
  then have "p' = p" by (simp add: demo_exec_def)
  then have "run'' = []" using rest' u(2) by (cases run'') auto
  then show ?thesis by (simp add: r r' t(1) u(1))
qed

theorem single_thread_runs_all_witness:
  "\<exists>pl ran pt' pl'. pool_items pl = {#48#} \<and>
     JoinMainThread demo_exec False \<lparr>in_pool = True, rand = 7, thread_id = 0\<rparr> pl = Some (ran, [48, 64], pt', pl')
     \<and> pool_items pl' = {#}"
proof -
  obtain pl where pl: "pool_inv 9 pl" "pool_items pl = {#48#}" "num_threads pl = 1" "\<not> pool_cancelled pl"
    using demo_pool [of 1] by auto
  have "pool_inv (rank_sum demo_rank (pool_items pl)) pl"
    using pl(1) by (rule pool_inv_mono) (simp add: pl(2) demo_rank_def)
  moreover have "worker_of pl \<lparr>in_pool = True, rand = 7, thread_id = 0\<rparr>" by (simp add: worker_of_def pl(3))
  ultimately obtain ran run pt' pl' where
    "JoinMainThread demo_exec False \<lparr>in_pool = True, rand = 7, thread_id = 0\<rparr> pl = Some (ran, map fst run, pt', pl')"
    "pool_items pl' = {#}" "task_run demo_exec demo_spawn 1 (pool_items pl) run {#}"
    using single_thread_runs_all [OF demo_ok, of pl "\<lparr>in_pool = True, rand = 7, thread_id = 0\<rparr>" False] pl(3,4) by blast
  with demo_run pl(2) show ?thesis by auto
qed

text \<open>
  \<open>TryExecuteSomething\<close> returns after executing at most one task and says whether it did; if it did
  not, its own queues are empty, with stealing allowed every mailbox is, and the pool's tasks are what
  they were.  From a thread outside the pool it returns at once and touches nothing.
\<close>

lemma TryExecuteSomething_at_most_one:
  assumes "tasks_ok exec spawn rank" "pool_inv (b + rank_sum rank (pool_items pl)) pl"
    "in_pool pt \<longrightarrow> worker_of pl pt" "\<not> pool_cancelled pl"
  shows "if in_pool pt then
      \<exists>ran log pt' pl'. TryExecuteSomething exec half_full pt pl = Some (ran, log, pt', pl') \<and> pool_inv b pl'
      \<and> (\<not> ran \<and> log = [] \<and> pool_items pl' = pool_items pl \<and> emptied True (thread_data pl' ! nat (thread_id pt))
           \<and> (half_full \<longrightarrow> (\<forall>i < nat (num_threads pl'). mail_items (thread_data pl' ! i) = []))
         \<or> ran \<and> (\<exists>t. log = [t] \<and> t \<in># pool_items pl))
    else TryExecuteSomething exec half_full pt pl = Some (False, [], pt, pl)"
proof (cases "in_pool pt")
  case False
  then show ?thesis by (simp add: TryExecuteSomething_def CurrentThreadId_def)
next
  case True
  with assms(3) have w: "worker_of pl pt" by simp
  let ?p = "on_worker ResetIdle pt pl" and ?R = "b + rank_sum rank (pool_items pl)"
  note p = reset_ok [OF assms(2) w assms(4)]
  obtain t st p1 where find: "find_task True half_full False pt ?p = Some (t, pt\<lparr>rand := st\<rparr>, p1)"
    and took: "pool_took ?R ?p t p1" and none: "t = 0 \<longrightarrow> nothing_found True half_full False pt p1"
    using find_task_ok [OF p(1,5)] by blast
  let ?pt = "pt\<lparr>rand := st\<rparr>"
  have inv1: "pool_inv ?R p1" and w1: "worker_of p1 ?pt"
    using took p(5) by (simp_all add: pool_took_def worker_of_def)
  have step: "TryExecuteSomething exec half_full pt pl = worker_loop exec True True half_full False False [] pt ?p"
    using worker_thread_id [OF assms(2) w] by (simp add: TryExecuteSomething_def WorkerLoop_def)
  show ?thesis
  proof (cases "t = 0")
    case t: True
    let ?p2 = "on_worker (\<lambda>td. snd (SetIdle td)) ?pt p1"
    have i: "nat (thread_id pt) < nat (num_threads p1)" using w1 by (simp add: worker_of_def)
    have P2: "pool_took ?R p1 0 ?p2" by (rule on_worker_ok [OF inv1 w1]) (simp add: SetIdle_ok)
    have "TryExecuteSomething exec half_full pt pl = Some (False, [], ?pt, ?p2)"
      unfolding step using p(4) find t SetIdle_ok(1) [OF pool_worker(2) [OF inv1 i]]
      by (subst worker_loop.simps) simp
    moreover have "nothing_found True half_full False pt ?p2"
      using took_drains [OF P2 w1, of True half_full False] none t by simp
    moreover have "pool_inv b ?p2" "pool_items ?p2 = pool_items pl"
      using P2 took t p(3) by (auto simp: pool_took_def intro: pool_inv_mono)
    ultimately show ?thesis using True by (auto simp: nothing_found_def emptied_def)
  next
    case False
    have t: "is_task t" "pool_items pl = add_mset t (pool_items p1)" and c: "\<not> pool_cancelled p1"
      using took False p(3,4) by (simp_all add: pool_took_def)
    have "size (spawn t) < rank t" using assms(1) t(1) unfolding tasks_ok_def by (meson le_add1 le_less_trans)
    then have "pool_inv (b + size (spawn t)) p1"
      by (intro pool_inv_mono [OF inv1]) (simp add: t(2))
    then obtain p2 where "exec t p1 = Some p2" "pool_inv b p2"
      using assms(1) t(1) unfolding tasks_ok_def by blast
    moreover from this have "TryExecuteSomething exec half_full pt pl = Some (True, [t], ?pt, p2)"
      unfolding step using p(4) find False by (subst worker_loop.simps) simp
    ultimately show ?thesis using True t(2) by auto
  qed
qed

lemma TryExecuteSomething_at_most_one_example:
  "\<exists>pl ran log pt' pl'. pool_items pl = {#48#} \<and>
     TryExecuteSomething demo_exec False \<lparr>in_pool = True, rand = 7, thread_id = 1\<rparr> pl = Some (ran, log, pt', pl')
     \<and> (\<not> ran \<and> log = [] \<and> emptied True (thread_data pl' ! 1) \<or> ran \<and> log = [48])"
proof -
  obtain pl where pl: "pool_inv 9 pl" "pool_items pl = {#48#}" "num_threads pl = 2" "\<not> pool_cancelled pl"
    using demo_pool [of 2] by auto
  have "pool_inv (0 + rank_sum demo_rank (pool_items pl)) pl"
    using pl(1) by (rule pool_inv_mono) (simp add: pl(2) demo_rank_def)
  moreover have "in_pool \<lparr>in_pool = True, rand = 7, thread_id = 1\<rparr> \<longrightarrow> worker_of pl \<lparr>in_pool = True, rand = 7, thread_id = 1\<rparr>"
    by (simp add: worker_of_def pl(3))
  ultimately show ?thesis
    using TryExecuteSomething_at_most_one [OF demo_ok, of 0 pl "\<lparr>in_pool = True, rand = 7, thread_id = 1\<rparr>" False] pl(2-4)
    by (intro exI [of _ pl]) auto
qed

end
