(* ===== verification/Proxy_Task.thy ===== *)
theory Proxy_Task
  imports Prelude
begin

text \<open>
  \<open>ProxyTask\<close> of src/include/eigen/nonblocking\_thread\_pool.h: \<open>run_on_thread\<close> puts the same task
  object into two queues, so two threads enter its \<open>operator()\<close>.  The counter \<open>State_\<close> makes the
  first to enter run the function and the last to leave delete the object.  The model interleaves
  the two entries at every access to the counter; touching a deleted object is \<open>None\<close>.
\<close>

section \<open>One entry\<close>

record proxy =
  State :: u64
  func_runs :: nat
  deleted :: bool

definition new_proxy :: proxy where
  "new_proxy = \<lparr>State = 0, func_runs = 0, deleted = False\<rparr>"

text \<open>Where an entry is: \<open>Test p\<close> is before the test of \<open>prevState\<close>, which is \<open>p\<close>.\<close>

datatype entry = Enter | RunFunc | Leave | Test u64 | Returned

fun proxy_step :: "entry \<Rightarrow> proxy \<Rightarrow> (entry \<times> proxy) option" where
  "proxy_step Enter x =
     (if deleted x then None
      else let prevState = State x; x = x\<lparr>State := State x + 1\<rparr>
           in Some (if prevState = 0 then RunFunc else Test prevState, x))"
| "proxy_step RunFunc x = (if deleted x then None else Some (Leave, x\<lparr>func_runs := Suc (func_runs x)\<rparr>))"
| "proxy_step Leave x =
     (if deleted x then None
      else let prevState = State x in Some (Test prevState, x\<lparr>State := State x + 1\<rparr>))"
| "proxy_step (Test prevState) x =
     (if prevState = 2 then (if deleted x then None else Some (Returned, x\<lparr>deleted := True\<rparr>))
      else Some (Returned, x))"
| "proxy_step Returned x = Some (Returned, x)"

section \<open>Two entries\<close>

text \<open>\<open>True\<close> lets the first entry take a step, \<open>False\<close> the second.\<close>

fun proxy_run :: "bool list \<Rightarrow> entry \<times> entry \<times> proxy \<Rightarrow> (entry \<times> entry \<times> proxy) option" where
  "proxy_run [] s = Some s"
| "proxy_run (c # cs) (a, b, x) =
     (case proxy_step (if c then a else b) x of
        None \<Rightarrow> None
      | Some (e, x) \<Rightarrow> proxy_run cs (if c then (e, b, x) else (a, e, x)))"

text \<open>\<open>ran_it\<close> is the entry that found the counter at 0.\<close>

definition one_ran :: "entry \<Rightarrow> entry \<Rightarrow> proxy \<Rightarrow> bool" where
  "one_ran ran_it other x \<longleftrightarrow>
     (ran_it = RunFunc \<and> func_runs x = 0 \<or> ran_it = Leave \<and> func_runs x = 1) \<and> \<not> deleted x \<and>
       (other = Enter \<and> State x = 1 \<or> (other = Test 1 \<or> other = Returned) \<and> State x = 2)
   \<or> func_runs x = 1 \<and> (ran_it = Test 1 \<or> ran_it = Returned) \<and>
       (other = Enter \<and> State x = 2 \<and> \<not> deleted x \<or> other = Test 2 \<and> State x = 3 \<and> \<not> deleted x
        \<or> other = Returned \<and> State x = 3 \<and> deleted x)
   \<or> func_runs x = 1 \<and> State x = 3 \<and> (other = Test 1 \<or> other = Returned) \<and>
       (ran_it = Test 2 \<and> \<not> deleted x \<or> ran_it = Returned \<and> deleted x)"

definition proxy_inv :: "entry \<times> entry \<times> proxy \<Rightarrow> bool" where
  "proxy_inv s \<longleftrightarrow>
     (case s of (a, b, x) \<Rightarrow> a = Enter \<and> b = Enter \<and> x = new_proxy \<or> one_ran a b x \<or> one_ran b a x)"

lemma one_ran_steps:
  assumes "one_ran a b x"
  shows "\<exists>e x'. proxy_step a x = Some (e, x') \<and> one_ran e b x'"
    "\<exists>e x'. proxy_step b x = Some (e, x') \<and> one_ran a e x'"
  using assms unfolding one_ran_def by (elim disjE conjE; simp add: Let_def)+

lemma proxy_run_inv:
  assumes "proxy_inv s"
  shows "\<exists>s'. proxy_run cs s = Some s' \<and> proxy_inv s'"
  using assms
proof (induction cs arbitrary: s)
  case Nil
  then show ?case by simp
next
  case (Cons c cs)
  obtain a b x where s: "s = (a, b, x)" by (cases s)
  have "\<exists>e x'. proxy_step (if c then a else b) x = Some (e, x')
    \<and> proxy_inv (if c then (e, b, x') else (a, e, x'))"
  proof (cases "a = Enter \<and> b = Enter \<and> x = new_proxy")
    case True
    then show ?thesis by (auto simp: proxy_inv_def one_ran_def new_proxy_def)
  next
    case False
    with Cons.prems have "one_ran a b x \<or> one_ran b a x" by (simp add: s proxy_inv_def)
    then show ?thesis
      using one_ran_steps [of a b x] one_ran_steps [of b a x] by (cases c) (fastforce simp: proxy_inv_def)+
  qed
  with Cons.IH show ?case by (fastforce simp: s)
qed

lemma proxy_run_result:
  "\<exists>a b x. proxy_run cs (Enter, Enter, new_proxy) = Some (a, b, x)
    \<and> func_runs x \<le> 1 \<and> (deleted x \<longrightarrow> func_runs x = 1)
    \<and> (a = Returned \<and> b = Returned \<longrightarrow> func_runs x = 1 \<and> deleted x)"
proof -
  have "proxy_inv (Enter, Enter, new_proxy)" by (simp add: proxy_inv_def)
  from proxy_run_inv [OF this, of cs] obtain a b x
    where run: "proxy_run cs (Enter, Enter, new_proxy) = Some (a, b, x)" and inv: "proxy_inv (a, b, x)"
    by (metis prod_cases3)
  have "func_runs x \<le> 1 \<and> (deleted x \<longrightarrow> func_runs x = 1)
    \<and> (a = Returned \<and> b = Returned \<longrightarrow> func_runs x = 1 \<and> deleted x)"
    using inv unfolding proxy_inv_def one_ran_def by (auto simp: new_proxy_def)
  with run show ?thesis by blast
qed

text \<open>
  C20: However the two entries into a proxy task interleave, neither touches a deleted object, the
  function is run at most once, the object is deleted only after the function has been run, and when
  both entries have returned the function has been run exactly once and the object is deleted.
\<close>

theorem proxy_runs_once:
  "\<exists>a b x. proxy_run cs (Enter, Enter, new_proxy) = Some (a, b, x)
    \<and> func_runs x \<le> 1 \<and> (deleted x \<longrightarrow> func_runs x = 1)
    \<and> (a = Returned \<and> b = Returned \<longrightarrow> func_runs x = 1 \<and> deleted x)"
  by (rule proxy_run_result)

theorem proxy_runs_once_witness:
  "\<exists>a b x. proxy_run [True, False, True, True, False, True, True] (Enter, Enter, new_proxy) = Some (a, b, x)
    \<and> func_runs x = 1 \<and> deleted x \<and> a = Returned"
proof -
  have "proxy_run [True, False, True, True, False, True, True] (Enter, Enter, new_proxy)
      = Some (Returned, Returned, \<lparr>State = 3, func_runs = 1, deleted = True\<rparr>)"
    by code_simp
  then show ?thesis using proxy_runs_once [of "[True, False, True, True, False, True, True]"] by simp
qed

end
