(* ===== verification/Eigen_Pool.thy ===== *)
theory Eigen_Pool
  imports Worker_Loop Proxy_Task
begin

text \<open>
  The end of a pool's life (the destructor of src/include/eigen/nonblocking\_thread\_pool.h) and the
  wrapper through which the parallel loops use the pool, src/include/eigen\_pool.h.
\<close>

section \<open>The code\<close>

text \<open>
  The destructor up to the joins of the workers' threads, when no other thread acts on the pool any more;
  \<open>Pool_Flush\<close> has the flushing of a mailbox with the workers still running.
\<close>

definition flush_worker :: "nat \<Rightarrow> pool \<Rightarrow> pool option" where
  "flush_worker i pl =
     (case ThreadData_Flush (thread_data pl ! i) of
        None \<Rightarrow> None
      | Some td \<Rightarrow> Some (pl\<lparr>thread_data := (thread_data pl)[i := td]\<rparr>))"

fun flush_from :: "nat \<Rightarrow> nat \<Rightarrow> pool \<Rightarrow> pool option" where
  "flush_from i 0 pl = Some pl"
| "flush_from i (Suc k) pl = Option.bind (flush_worker i pl) (flush_from (Suc i) k)"

definition ThreadPoolTempl_destructor :: "pool \<Rightarrow> pool option" where
  "ThreadPoolTempl_destructor pl =
     (let pl = pl\<lparr>pool_done := True\<rparr>
      in if pool_cancelled pl then flush_from 0 (length (thread_data pl)) pl else Some pl)"

text \<open>
  The wrapper.  \<open>run\<close> makes a task and schedules it; \<open>exec\<close> is what executing a task does to the pool, and
  the list holds the task if the calling thread executed it itself because the queue was full.
\<close>

definition pool_run ::
  "(u64 \<Rightarrow> pool \<Rightarrow> pool option) \<Rightarrow> PerThread \<Rightarrow> u64 \<Rightarrow> pool \<Rightarrow> (u64 list \<times> PerThread \<times> pool) option" where
  "pool_run exec pt task pl =
     (case Schedule pt task pl of
        None \<Rightarrow> None
      | Some (None, pt, pl) \<Rightarrow> Some ([], pt, pl)
      | Some (Some t, pt, pl) \<Rightarrow> map_option (\<lambda>pl. ([t], pt, pl)) (exec t pl))"

text \<open>
  A whole entry into the proxy task \<open>x\<close> by one thread, during which no other thread enters it; \<open>func\<close> is what
  running \<open>Func_\<close> does to the pool.
\<close>

definition proxy_call :: "(pool \<Rightarrow> pool option) \<Rightarrow> proxy \<Rightarrow> pool \<Rightarrow> (proxy \<times> pool) option" where
  "proxy_call func x pl =
     Option.bind (proxy_step Enter x) (\<lambda>(e, x).
       Option.bind
         (if e = RunFunc then
            Option.bind (func pl) (\<lambda>pl.
              Option.bind (proxy_step RunFunc x) (\<lambda>(e, x).
                Option.bind (proxy_step e x) (\<lambda>(e, x). Some (e, x, pl))))
          else Some (e, x, pl))
         (\<lambda>(e, x, pl). map_option (\<lambda>(e, x). (x, pl)) (proxy_step e x)))"

text \<open>
  \<open>run_on_thread\<close> puts a new proxy task, with pointer \<open>task\<close>, into two queues; the list holds the entries the
  calling thread makes itself, in place, because a queue was full.
\<close>

definition enter_inline ::
  "(pool \<Rightarrow> pool option) \<Rightarrow> u64 option \<Rightarrow> proxy \<Rightarrow> pool \<Rightarrow> (u64 list \<times> proxy \<times> pool) option" where
  "enter_inline func inline x pl =
     (case inline of
        None \<Rightarrow> Some ([], x, pl)
      | Some t \<Rightarrow> map_option (\<lambda>(x, pl). ([t], x, pl)) (proxy_call func x pl))"

definition pool_run_on_thread ::
  "(pool \<Rightarrow> pool option) \<Rightarrow> PerThread \<Rightarrow> u64 \<Rightarrow> u64 \<Rightarrow> pool \<Rightarrow> (u64 list \<times> PerThread \<times> proxy \<times> pool) option" where
  "pool_run_on_thread func pt task hint pl =
     Option.bind (RunOnThread pt task hint pl) (\<lambda>(inline, pl).
       Option.bind (enter_inline func inline new_proxy pl) (\<lambda>(made, x, pl).
         Option.bind (Schedule pt task pl) (\<lambda>(inline, pt, pl).
           Option.bind (enter_inline func inline x pl) (\<lambda>(made2, x, pl). Some (made @ made2, pt, x, pl)))))"

section \<open>Destruction\<close>

lemma flush_from_ok:
  assumes "pool_inv b pl" "i + k = length (thread_data pl)"
    "\<And>j. j < i \<Longrightarrow> td_items (thread_data pl ! j) = {#}"
  shows "\<exists>pl'. flush_from i k pl = Some pl' \<and> pool_inv b pl' \<and> pool_done pl' = pool_done pl
    \<and> (\<forall>td \<in> set (thread_data pl'). td_items td = {#})"
  using assms
proof (induction k arbitrary: i pl)
  case 0
  then show ?case by (auto simp: in_set_conv_nth)
next
  case (Suc k)
  have len: "length (thread_data pl) = nat (num_threads pl)" using Suc.prems(1) by (simp add: pool_inv_def)
  then have i: "i < nat (num_threads pl)" using Suc.prems(2) by linarith
  note W = pool_worker [OF Suc.prems(1) i]
  obtain td where td: "ThreadData_Flush (thread_data pl ! i) = Some td" "td_inv b td"
    "local_items td = []" "mail_items td = []" "steal_partition td = steal_partition (thread_data pl ! i)"
    using ThreadData_Flush_ok [OF W(2)] by blast
  have fl: "flush_worker i pl = Some (put i td pl)" by (simp add: flush_worker_def td(1) put_def)
  have inv: "pool_inv b (put i td pl)" by (rule put_inv [OF Suc.prems(1) W(1) td(2) _ td(5)]) simp
  have "td_items td = {#}" using td(2-4) by (simp add: td_items_def td_inv_def)
  then have "td_items (thread_data (put i td pl) ! j) = {#}" if "j < Suc i" for j
    using that Suc.prems(3) W(1) by (auto simp: less_Suc_eq nth_list_update)
  from Suc.IH [OF inv _ this] Suc.prems(2) fl show ?case by simp
qed

lemma all_empty_items: "\<forall>td \<in> set tds. td_items td = {#} \<Longrightarrow> sum_list (map td_items tds) = {#}"
  by (induction tds) simp_all

lemma empty_destructor:
  assumes "td_inv b td" "local_items td = []"
  shows "RunQueue_destructor_ok QSize (local_tasks td)"
proof -
  have inv: "rq_inv QSize (local_tasks td)" using assms(1) by (simp add: td_inv_def)
  have "rq_len QSize (local_tasks td) = 0" using assms(2) by (simp add: rq_items_empty local_items_def)
  with Size_inv [OF inv] show ?thesis by (simp add: RunQueue_destructor_ok_def word_unat_eq_iff)
qed

text \<open>
  Flushing the queues of a cancelled pool, whatever is still queued, when no worker acts any more: it drops
  every queued task and leaves deques whose own destructor's assertion, that they are empty, holds.
\<close>

lemma cancelled_pool_destroyed:
  assumes "pool_inv b pl"
  shows "\<exists>pl'. ThreadPoolTempl_destructor (Cancel pl) = Some pl' \<and> pool_items pl' = {#} \<and> pool_done pl'
    \<and> (\<forall>td \<in> set (thread_data pl'). RunQueue_destructor_ok QSize (local_tasks td))"
proof -
  let ?c = "(Cancel pl)\<lparr>pool_done := True\<rparr>"
  have "pool_inv b ?c" using assms by (simp add: pool_inv_def Cancel_def)
  from flush_from_ok [OF this, of 0 "length (thread_data ?c)"] obtain pl'
    where pl': "flush_from 0 (length (thread_data ?c)) ?c = Some pl'" "pool_inv b pl'" "pool_done pl'"
      "\<forall>td \<in> set (thread_data pl'). td_items td = {#}" by auto
  have "ThreadPoolTempl_destructor (Cancel pl) = Some pl'"
    using pl'(1) by (simp add: ThreadPoolTempl_destructor_def Cancel_def)
  moreover have "pool_items pl' = {#}"
    unfolding pool_items_def using pl'(4) by (simp add: all_empty_items)
  moreover have "\<forall>td \<in> set (thread_data pl'). RunQueue_destructor_ok QSize (local_tasks td)"
    using pl'(2,4) by (auto intro!: empty_destructor simp: pool_inv_def td_items_def)
  ultimately show ?thesis using pl'(3) by blast
qed

lemma cancelled_pool_destroyed_example:
  "\<exists>pl pl'. pool_items pl = {#48#} \<and> ThreadPoolTempl_destructor (Cancel pl) = Some pl' \<and> pool_items pl' = {#}"
proof -
  obtain pl where pl: "pool_inv 9 pl" "pool_items pl = {#48#}" using demo_pool [of 3] by auto
  from cancelled_pool_destroyed [OF pl(1)] pl(2) show ?thesis by blast
qed

section \<open>The wrapper\<close>

text \<open>
  What a task body promises: it returns and puts some of the tasks \<open>spawned\<close> into the queues.
\<close>

definition func_ok :: "(pool \<Rightarrow> pool option) \<Rightarrow> u64 multiset \<Rightarrow> bool" where
  "func_ok func spawned \<longleftrightarrow>
     (\<forall>c pl. pool_inv (c + size spawned) pl \<longrightarrow>
        (\<exists>pl' S. func pl = Some pl' \<and> pool_inv c pl' \<and> S \<subseteq># spawned \<and> pool_items pl' = pool_items pl + S
           \<and> num_threads pl' = num_threads pl))"

text \<open>The states of a proxy task that no thread is inside of, by the entries made.\<close>

definition proxy_after :: "nat \<Rightarrow> proxy" where
  "proxy_after k = (if k = 0 then new_proxy else \<lparr>State = of_nat (Suc k), func_runs = 1, deleted = (k = 2)\<rparr>)"

lemma proxy_call_first:
  assumes "func_ok func spawned" "pool_inv (c + size spawned) pl"
  shows "\<exists>pl' S. proxy_call func (proxy_after 0) pl = Some (proxy_after 1, pl') \<and> pool_inv c pl' \<and> S \<subseteq># spawned
    \<and> pool_items pl' = pool_items pl + S \<and> num_threads pl' = num_threads pl"
proof -
  obtain pl' S where f: "func pl = Some pl'" "pool_inv c pl'" "S \<subseteq># spawned" "pool_items pl' = pool_items pl + S"
    "num_threads pl' = num_threads pl"
    using assms unfolding func_ok_def by blast
  then have "proxy_call func (proxy_after 0) pl = Some (proxy_after 1, pl')"
    by (simp add: proxy_call_def proxy_after_def new_proxy_def)
  with f(2-) show ?thesis by blast
qed

lemma proxy_call_second: "proxy_call func (proxy_after 1) pl = Some (proxy_after 2, pl)"
  by (simp add: proxy_call_def proxy_after_def)

text \<open>Where the two entries are once the calling thread has made \<open>k\<close> of them.\<close>

definition entries_after :: "nat \<Rightarrow> proxy \<Rightarrow> entry \<times> entry \<times> proxy" where
  "entries_after k x = (if 1 \<le> k then Returned else Enter, if 2 \<le> k then Returned else Enter, x)"

lemma entries_after_inv: "k \<le> 2 \<Longrightarrow> proxy_inv (entries_after k (proxy_after k))"
  by (cases "k = 0"; cases "k = 1"; cases "k = 2") (auto simp: entries_after_def proxy_after_def proxy_inv_def one_ran_def)

lemma inline_is_task:
  "RunOnThread pt t hint pl = Some (inline, pl') \<Longrightarrow> inline = None \<or> inline = Some t"
  "Schedule pt t pl = Some (inline, pt', pl') \<Longrightarrow> inline = None \<or> inline = Some t"
  by (auto simp: RunOnThread_def Schedule_def ScheduleWithHint_def Let_def split: option.splits if_splits prod.splits)

text \<open>The first entry made in place runs the function; \<open>k\<close> entries have been made before.\<close>

lemma enter_inline_ok:
  assumes f: "func_ok func spawned" and inv: "pool_inv (c + (if k = 0 then size spawned else 0)) pl"
    and k: "k \<le> 1" and inline: "inline = None \<or> inline = Some t"
  shows "\<exists>made pl' S. enter_inline func inline (proxy_after k) pl = Some (made, proxy_after (k + length made), pl')
    \<and> (made = [] \<and> inline = None \<or> made = [t] \<and> inline = Some t)
    \<and> pool_inv (c + (if k + length made = 0 then size spawned else 0)) pl' \<and> num_threads pl' = num_threads pl
    \<and> pool_items pl' = pool_items pl + S \<and> S \<subseteq># spawned \<and> (S \<noteq> {#} \<longrightarrow> k = 0 \<and> made \<noteq> [])"
proof (cases inline)
  case None
  then show ?thesis using inv by (simp add: enter_inline_def)
next
  case (Some u)
  with inline have u: "u = t" by simp
  show ?thesis
  proof (cases "k = 0")
    case True
    then have "pool_inv (c + size spawned) pl" using inv by simp
    from proxy_call_first [OF f this] Some u True show ?thesis by (auto simp: enter_inline_def)
  next
    case False
    with k have "k = 1" by simp
    then show ?thesis using inv Some u by (simp add: enter_inline_def proxy_call_second [unfolded One_nat_def numeral_2_eq_2])
  qed
qed

lemma left_by_call:
  assumes "made = [] \<or> made = [t] \<or> made = [t, t]" "made = [] \<longrightarrow> S = {#}"
  shows "made = [] \<and> proxy_after (length made) = new_proxy \<and> S = {#}
      \<or> made = [t] \<and> func_runs (proxy_after (length made)) = 1 \<and> \<not> deleted (proxy_after (length made))
      \<or> made = [t, t] \<and> func_runs (proxy_after (length made)) = 1 \<and> deleted (proxy_after (length made))"
  using assms by (auto simp: proxy_after_def)

lemma pool_run_ok:
  assumes "tasks_ok exec spawn rank" "pool_inv (Suc (b + size (spawn t))) pl" "is_task t" "in_pool pt \<longrightarrow> worker_of pl pt"
  shows "\<exists>inline pt' pl' S. pool_run exec pt t pl = Some (inline, pt', pl') \<and> pool_inv b pl'
    \<and> pool_items pl' + mset inline = pool_items pl + {#t#} + S
    \<and> (inline = [] \<and> S = {#} \<or> inline = [t] \<and> S \<subseteq># spawn t)"
proof -
  obtain inline pt' p where s: "Schedule pt t pl = Some (inline, pt', p)" "pool_inv (b + size (spawn t)) p"
    "pool_items p + (case inline of None \<Rightarrow> {#} | Some x \<Rightarrow> {#x#}) = pool_items pl + {#t#}"
    using Schedule_ok [OF assms(2-4)] by blast
  show ?thesis
  proof (cases inline)
    case None
    then show ?thesis using s pool_inv_mono [OF s(2), of b] by (simp add: pool_run_def)
  next
    case (Some u)
    with inline_is_task(2) [OF s(1)] have u: "inline = Some t" by simp
    obtain p' S where "exec t p = Some p'" "pool_inv b p'" "S \<subseteq># spawn t" "pool_items p' = pool_items p + S"
      using assms(1,3) s(2) unfolding tasks_ok_def by blast
    with s(1,3) u show ?thesis by (simp add: pool_run_def ac_simps)
  qed
qed

text \<open>
  C17: \<open>run_on_thread\<close>, while no other thread acts, arranges exactly two entries into the proxy task it makes: each
  is put into a queue, or made by the calling thread on the spot if that queue was full.  The first one made on
  the spot runs the function, whose tasks (a part \<open>S\<close> of those it spawns) are then in the queues too, and a second
  one deletes the object.  From the state in which the call leaves the object, however the entries still in
  the queues interleave, none touches a deleted object, the object is not deleted before the function has run,
  and once all have left the function has run exactly once and the object is deleted.
\<close>

theorem run_on_thread_once:
  assumes "func_ok func spawned" "pool_inv (Suc (Suc b) + size spawned) pl" "is_task t" "in_pool pt \<longrightarrow> worker_of pl pt"
  shows "\<exists>made pt' x pl' S. pool_run_on_thread func pt t hint pl = Some (made, pt', x, pl') \<and> pool_inv b pl'
    \<and> pool_items pl' + mset made = pool_items pl + {#t, t#} + S \<and> S \<subseteq># spawned
    \<and> (made = [] \<and> x = new_proxy \<and> S = {#} \<or> made = [t] \<and> func_runs x = 1 \<and> \<not> deleted x
       \<or> made = [t, t] \<and> func_runs x = 1 \<and> deleted x)
    \<and> (\<exists>e1 e2 y. proxy_run schedule (entries_after (length made) x) = Some (e1, e2, y)
        \<and> (deleted y \<longrightarrow> func_runs y = 1) \<and> (e1 = Returned \<and> e2 = Returned \<longrightarrow> func_runs y = 1 \<and> deleted y))"
proof -
  obtain i1 p1 where r: "RunOnThread pt t hint pl = Some (i1, p1)" "pool_inv (Suc b + size spawned) p1"
    "num_threads p1 = num_threads pl"
    "pool_items p1 + (case i1 of None \<Rightarrow> {#} | Some x \<Rightarrow> {#x#}) = pool_items pl + {#t#}"
    using RunOnThread_ok [of "Suc b + size spawned" pl t pt hint] assms(2,3) by auto
  obtain m1 p2 S1 where e1: "enter_inline func i1 (proxy_after 0) p1 = Some (m1, proxy_after (length m1), p2)"
    "m1 = [] \<and> i1 = None \<or> m1 = [t] \<and> i1 = Some t"
    "pool_inv (Suc b + (if length m1 = 0 then size spawned else 0)) p2" "num_threads p2 = num_threads p1"
    "pool_items p2 = pool_items p1 + S1" "S1 \<subseteq># spawned" "S1 \<noteq> {#} \<longrightarrow> m1 \<noteq> []"
    using enter_inline_ok [OF assms(1) _ _ inline_is_task(1) [OF r(1)], of "Suc b" 0 p1] r(2) by auto
  have "in_pool pt \<longrightarrow> worker_of p2 pt" using assms(4) r(3) e1(4) by (simp add: worker_of_def)
  from Schedule_ok [OF _ assms(3) this, of "b + (if length m1 = 0 then size spawned else 0)"] e1(3)
  obtain i2 pt' p3 where s: "Schedule pt t p2 = Some (i2, pt', p3)"
    "pool_inv (b + (if length m1 = 0 then size spawned else 0)) p3"
    "pool_items p3 + (case i2 of None \<Rightarrow> {#} | Some x \<Rightarrow> {#x#}) = pool_items p2 + {#t#}" by auto
  have "length m1 \<le> 1" using e1(2) by auto
  from enter_inline_ok [OF assms(1) s(2) this inline_is_task(2) [OF s(1)]]
  obtain m2 p4 S2 where e2: "enter_inline func i2 (proxy_after (length m1)) p3 = Some (m2, proxy_after (length (m1 @ m2)), p4)"
    "m2 = [] \<and> i2 = None \<or> m2 = [t] \<and> i2 = Some t"
    "pool_inv (b + (if length m1 + length m2 = 0 then size spawned else 0)) p4"
    "pool_items p4 = pool_items p3 + S2" "S2 \<subseteq># spawned" "S2 \<noteq> {#} \<longrightarrow> m1 = [] \<and> m2 \<noteq> []" by auto
  let ?made = "m1 @ m2"
  have run: "pool_run_on_thread func pt t hint pl = Some (?made, pt', proxy_after (length ?made), p4)"
    using r(1) e1(1) s(1) e2(1) by (simp add: pool_run_on_thread_def proxy_after_def)
  have S: "S1 + S2 \<subseteq># spawned" "?made = [] \<longrightarrow> S1 + S2 = {#}"
    using e1(6,7) e2(5,6) by (cases "S2 = {#}"; auto)+
  have made: "length ?made \<le> 2" "?made = [] \<or> ?made = [t] \<or> ?made = [t, t]" using e1(2) e2(2) by auto
  have items: "pool_items p4 + mset ?made = pool_items pl + {#t, t#} + (S1 + S2)"
    using r(4) e1(2,5) s(3) e2(2,4) by (elim disjE conjE; simp add: ac_simps)
  obtain s' where "proxy_run schedule (entries_after (length ?made) (proxy_after (length ?made))) = Some s'" "proxy_inv s'"
    using proxy_run_inv [OF entries_after_inv [OF made(1)]] by blast
  then have sched: "\<exists>e1 e2 y. proxy_run schedule (entries_after (length ?made) (proxy_after (length ?made))) = Some (e1, e2, y)
      \<and> (deleted y \<longrightarrow> func_runs y = 1) \<and> (e1 = Returned \<and> e2 = Returned \<longrightarrow> func_runs y = 1 \<and> deleted y)"
    by (cases s') (auto simp: proxy_inv_def one_ran_def new_proxy_def)
  note left = left_by_call [OF made(2) S(2)]
  have "pool_inv b p4" using e2(3) by (rule pool_inv_mono) simp
  with run items S(1) left sched show ?thesis by blast
qed

text \<open>Worker 0 of a pool with task 48 queued calls it with a function that pushes task 64.\<close>

theorem run_on_thread_once_witness:
  "\<exists>pl made pt' x pl' S. pool_items pl = {#48#} \<and>
     pool_run_on_thread (demo_exec 48) \<lparr>in_pool = True, rand = 1, thread_id = 0\<rparr> 96 2 pl = Some (made, pt', x, pl')
     \<and> pool_items pl' + mset made = {#48, 96, 96#} + S \<and> S \<subseteq># {#64#}
      \<and> (made = [] \<and> x = new_proxy \<or> made = [96] \<and> func_runs x = 1 \<and> \<not> deleted x
        \<or> made = [96, 96] \<and> func_runs x = 1 \<and> deleted x)"
proof -
  have t: "is_task 48" "is_task 96" by (simp_all add: is_task_def IDLE_def)
  then have func: "func_ok (demo_exec 48) {#64#}"
    using demo_ok unfolding func_ok_def tasks_ok_def by (fastforce simp: demo_spawn_def)
  obtain pl where pl: "pool_inv 9 pl" "pool_items pl = {#48#}" "num_threads pl = 3" using demo_pool [of 3] by auto
  have inv: "pool_inv (Suc (Suc 0) + size {#64 :: u64#}) pl" using pl(1) by (rule pool_inv_mono) simp
  have w: "worker_of pl \<lparr>in_pool = True, rand = 1, thread_id = 0\<rparr>" by (simp add: worker_of_def pl(3))
  let ?pt = "\<lparr>in_pool = True, rand = 1, thread_id = 0\<rparr>"
  have "in_pool ?pt \<longrightarrow> worker_of pl ?pt" using w by simp
  from run_on_thread_once [OF func inv t(2) this, of 2 "[]"]
  obtain made pt' x pl' S where "pool_run_on_thread (demo_exec 48) ?pt 96 2 pl = Some (made, pt', x, pl')"
    "pool_items pl' + mset made = pool_items pl + {#96, 96#} + S" "S \<subseteq># {#64#}"
    "made = [] \<and> x = new_proxy \<and> S = {#} \<or> made = [96] \<and> func_runs x = 1 \<and> \<not> deleted x
       \<or> made = [96, 96] \<and> func_runs x = 1 \<and> deleted x" by blast
  then show ?thesis using pl(2)
    by (intro exI [of _ pl] exI [of _ made] exI [of _ pt'] exI [of _ x] exI [of _ pl'] exI [of _ S]) auto
qed

end
