(* ===== verification/Loops.thy ===== *)
theory Loops
  imports Loop_Contract
begin

text \<open>
  The loops of the numeric kernels of src/include/benchmarks: \<open>for\<close> loops over a \<open>size\_t\<close> whose body may
  be undefined (an access outside a vector is \<open>None\<close>), and parallel loops whose bodies write disjoint
  parts of the data, for which the order \<open>ParallelFor\<close> runs them in does not matter.
\<close>

section \<open>Vectors\<close>

definition at :: "'a list \<Rightarrow> u64 \<Rightarrow> 'a option" where
  "at xs i = (if unat i < length xs then Some (xs ! unat i) else None)"

definition store_at :: "'a list \<Rightarrow> u64 \<Rightarrow> 'a \<Rightarrow> 'a list option" where
  "store_at xs i v = (if unat i < length xs then Some (xs[unat i := v]) else None)"

section \<open>Loops\<close>

fun foldM :: "('i \<Rightarrow> 's \<Rightarrow> 's option) \<Rightarrow> 'i list \<Rightarrow> 's \<Rightarrow> 's option" where
  "foldM f [] s = Some s"
| "foldM f (x # xs) s = Option.bind (f x s) (foldM f xs)"

lemma foldM_append: "foldM f (xs @ ys) s = Option.bind (foldM f xs s) (foldM f ys)"
proof (induction xs arbitrary: s)
  case (Cons x xs)
  then show ?case by (cases "f x s") simp_all
qed simp

text \<open>A loop of which every round is defined and adds to the state what \<open>g\<close> says.\<close>

lemma foldM_pure: "(\<And>x s. x \<in> set xs \<Longrightarrow> f x s = Some (g x s)) \<Longrightarrow> foldM f xs s = Some (fold g xs s)"
  by (induction xs arbitrary: s) simp_all

text \<open>\<open>for (size\_t k = i; k < to; ++k)\<close> and \<open>for (size\_t k = i; k != to; ++k)\<close>.\<close>

function for_less :: "(u64 \<Rightarrow> 's \<Rightarrow> 's option) \<Rightarrow> u64 \<Rightarrow> u64 \<Rightarrow> 's \<Rightarrow> 's option" where
  "for_less f i to s = (if i < to then Option.bind (f i s) (for_less f (i + 1) to) else Some s)"
  by pat_completeness auto
termination
  by (relation "measure (\<lambda>(f, i, to, s). unat to - unat i)") (simp_all add: word_less_nat_alt u64_Suc)

function for_neq :: "(u64 \<Rightarrow> 's \<Rightarrow> 's option) \<Rightarrow> u64 \<Rightarrow> u64 \<Rightarrow> 's \<Rightarrow> 's option" where
  "for_neq f i to s = (if i \<noteq> to then Option.bind (f i s) (for_neq f (i + 1) to) else Some s)"
  by pat_completeness auto
termination
proof (relation "measure (\<lambda>(f, i, to, s). unat (to - i))")
  fix f :: "u64 \<Rightarrow> 's \<Rightarrow> 's option" and i to :: u64 and s x :: 's
  assume "i \<noteq> to"
  then have "unat (to - i - 1) < unat (to - i)" by (intro unat_pred_less) simp
  then show "((f, i + 1, to, x), f, i, to, s) \<in> measure (\<lambda>(f, i, to, s). unat (to - i))"
    by (simp add: diff_diff_eq [symmetric] del: diff_diff_eq)
qed simp

declare for_less.simps [simp del] for_neq.simps [simp del]

lemma for_less_indices: "for_less f i to s = foldM f (indices i to) s"
proof (induction f i to s rule: for_less.induct)
  case (1 f i to s)
  then show ?case
    by (subst for_less.simps) (cases "f i s"; simp add: indices_Cons indices_Nil not_less)
qed

lemma for_neq_indices: "i \<le> to \<Longrightarrow> for_neq f i to s = foldM f (indices i to) s"
proof (induction f i to s rule: for_neq.induct)
  case (1 f i to s)
  show ?case
  proof (cases "i = to")
    case False
    with 1(2) have lt: "i < to" by simp
    then have "i + 1 \<le> to" by (simp add: word_less_nat_alt word_le_nat_alt u64_Suc)
    with 1(1) [OF False] show ?thesis
      by (subst for_neq.simps) (cases "f i s"; simp add: indices_Cons lt False)
  qed (simp add: for_neq.simps indices_Nil)
qed

section \<open>Independent rounds\<close>

text \<open>
  Round \<open>i\<close> writes the places \<open>W i\<close> only, and what it writes there depends on nothing but what these
  places held.  If the rounds' places are disjoint, each place ends up with what its round writes
  into the initial state.
\<close>

definition writes_only ::
  "('s \<Rightarrow> bool) \<Rightarrow> ('s \<Rightarrow> 'p \<Rightarrow> 'v) \<Rightarrow> 'p set \<Rightarrow> (('p \<Rightarrow> 'v) \<Rightarrow> 'p \<Rightarrow> 'v) \<Rightarrow> ('s \<Rightarrow> 's option) \<Rightarrow> bool" where
  "writes_only ok get W g f \<longleftrightarrow>
     (\<forall>s. ok s \<longrightarrow> (\<exists>s'. f s = Some s' \<and> ok s' \<and> (\<forall>p. get s' p = (if p \<in> W then g (get s) p else get s p))))
     \<and> (\<forall>m m' p. (\<forall>q \<in> W. m q = m' q) \<and> p \<in> W \<longrightarrow> g m p = g m' p)"

lemma writes_onlyE:
  assumes "writes_only ok get W g f" "ok s"
  obtains s' where "f s = Some s'" "ok s'" "\<And>p. get s' p = (if p \<in> W then g (get s) p else get s p)"
  using assms unfolding writes_only_def by blast

lemma foldM_independent:
  assumes "distinct xs" "ok s" "\<And>i. i \<in> set xs \<Longrightarrow> writes_only ok get (W i) (g i) (f i)"
    "\<And>i j. i \<in> set xs \<Longrightarrow> j \<in> set xs \<Longrightarrow> i \<noteq> j \<Longrightarrow> W i \<inter> W j = {}"
  shows "\<exists>s'. foldM f xs s = Some s' \<and> ok s' \<and> (\<forall>p. (\<forall>i \<in> set xs. p \<notin> W i) \<longrightarrow> get s' p = get s p)
    \<and> (\<forall>i \<in> set xs. \<forall>p \<in> W i. get s' p = g i (get s) p)"
  using assms
proof (induction xs arbitrary: s)
  case Nil
  then show ?case by simp
next
  case (Cons i xs)
  have wi: "writes_only ok get (W i) (g i) (f i)" using Cons.prems(3) by simp
  from writes_onlyE [OF wi Cons.prems(2)] obtain s1 where s1: "f i s = Some s1" "ok s1"
    "\<And>p. get s1 p = (if p \<in> W i then g i (get s) p else get s p)" by blast
  obtain s' where s': "foldM f xs s1 = Some s'" "ok s'"
    "\<forall>p. (\<forall>j \<in> set xs. p \<notin> W j) \<longrightarrow> get s' p = get s1 p"
    "\<forall>j \<in> set xs. \<forall>p \<in> W j. get s' p = g j (get s1) p"
    using Cons.IH [OF _ s1(2)] Cons.prems by auto
  have other: "W i \<inter> W j = {}" if "j \<in> set xs" for j
    using Cons.prems(1) Cons.prems(4) [of i j] that by auto
  have rest: "g j (get s1) p = g j (get s) p" if j: "j \<in> set xs" "p \<in> W j" for j p
  proof -
    have "\<forall>q \<in> W j. get s1 q = get s q" using s1(3) other [OF j(1)] by auto
    moreover have "writes_only ok get (W j) (g j) (f j)" using Cons.prems(3) j(1) by simp
    ultimately show ?thesis using j(2) unfolding writes_only_def by blast
  qed
  have "get s' p = g i (get s) p" if "p \<in> W i" for p
  proof -
    have "\<forall>j \<in> set xs. p \<notin> W j" using that other by blast
    then show ?thesis using s'(3) s1(3) that by simp
  qed
  moreover have "get s' p = get s p" if "\<forall>j \<in> set (i # xs). p \<notin> W j" for p
    using that s'(3) s1(3) by simp
  ultimately show ?case using s1(1) s' rest by auto
qed

context parallel_loop
begin

text \<open>The same for the rounds of a parallel loop, in whatever order they are run.\<close>

lemma independent_rounds:
  assumes "ok from to" "order from to xs" "okay s"
    "\<And>i. from \<le> i \<Longrightarrow> i < to \<Longrightarrow> writes_only okay get (W i) (g i) (f i)"
    "\<And>i j. i < to \<Longrightarrow> j < to \<Longrightarrow> i \<noteq> j \<Longrightarrow> W i \<inter> W j = {}"
  shows "\<exists>s'. foldM f xs s = Some s' \<and> okay s'
    \<and> (\<forall>p. (\<forall>i. from \<le> i \<and> i < to \<longrightarrow> p \<notin> W i) \<longrightarrow> get s' p = get s p)
    \<and> (\<forall>i. from \<le> i \<and> i < to \<longrightarrow> (\<forall>p \<in> W i. get s' p = g i (get s) p))"
proof -
  note set = order_set [OF assms(1,2)]
  have "\<exists>s'. foldM f xs s = Some s' \<and> okay s' \<and> (\<forall>p. (\<forall>i \<in> set xs. p \<notin> W i) \<longrightarrow> get s' p = get s p)
    \<and> (\<forall>i \<in> set xs. \<forall>p \<in> W i. get s' p = g i (get s) p)"
    by (rule foldM_independent [OF order_distinct [OF assms(1,2)]]) (simp_all add: set assms)
  then show ?thesis unfolding set Ball_def .
qed

end

section \<open>Nested loops\<close>

text \<open>
  A parallel loop whose body is a parallel loop: the rounds \<open>(r, c)\<close> of all inner loops interleaved in
  any way, each inner loop and the outer loop in some order their own loop can be run in.
\<close>

definition nested_order ::
  "(u64 list \<Rightarrow> bool) \<Rightarrow> (u64 \<Rightarrow> u64 list \<Rightarrow> bool) \<Rightarrow> (u64 \<times> u64) list \<Rightarrow> bool" where
  "nested_order outer inner xs \<longleftrightarrow>
     (\<exists>rs. outer rs \<and> fst ` set xs \<subseteq> set rs \<and> (\<forall>r \<in> set rs. inner r (map snd (filter (\<lambda>p. fst p = r) xs))))"

lemma distinct_by_fst:
  assumes "\<And>r. r \<in> fst ` set xs \<Longrightarrow> distinct (map snd (filter (\<lambda>p. fst p = r) xs))"
  shows "distinct xs"
  using assms
proof (induction xs)
  case (Cons p xs)
  have "distinct (map snd (filter (\<lambda>q. fst q = r) xs))" if "r \<in> fst ` set xs" for r
    using Cons.prems [of r] that by (auto split: if_splits)
  then have "distinct xs" by (rule Cons.IH)
  moreover have "p \<notin> set xs"
  proof
    assume "p \<in> set xs"
    then have "snd p \<in> snd ` {q \<in> set xs. fst q = fst p}" by force
    with Cons.prems [of "fst p"] show False by simp
  qed
  ultimately show ?case by simp
qed simp

lemma nested_order_pairs:
  assumes "nested_order outer inner xs"
    "\<And>rs r. outer rs \<Longrightarrow> r \<in> set rs \<longleftrightarrow> r < rows"
    "\<And>r cs. r < rows \<Longrightarrow> inner r cs \<Longrightarrow> distinct cs \<and> set cs = {c. c < cols}"
  shows "distinct xs" "set xs = {(r, c). r < rows \<and> c < cols}"
proof -
  obtain rs where rs: "outer rs" "fst ` set xs \<subseteq> set rs"
    "\<And>r. r \<in> set rs \<Longrightarrow> inner r (map snd (filter (\<lambda>p. fst p = r) xs))"
    using assms(1) by (auto simp: nested_order_def)
  have row: "distinct (map snd (filter (\<lambda>p. fst p = r) xs))"
    "set (map snd (filter (\<lambda>p. fst p = r) xs)) = {c. c < cols}" if "r < rows" for r
    using assms(3) [OF that] rs(3) [of r] assms(2) [OF rs(1)] that by blast+
  show "distinct xs"
    using rs(2) assms(2) [OF rs(1)] row(1) by (intro distinct_by_fst) blast
  have "(r, c) \<in> set xs \<longleftrightarrow> r < rows \<and> c < cols" for r c
  proof (cases "r < rows")
    case True
    have "(r, c) \<in> set xs \<longleftrightarrow> c \<in> set (map snd (filter (\<lambda>p. fst p = r) xs))" by force
    then show ?thesis using row(2) [OF True] True by simp
  next
    case False
    then have "(r, c) \<notin> set xs" using rs(2) assms(2) [OF rs(1)] by force
    with False show ?thesis by simp
  qed
  then show "set xs = {(r, c). r < rows \<and> c < cols}" by auto
qed

lemma row_of_pairs:
  "distinct rs \<Longrightarrow> map snd (filter (\<lambda>p. fst p = r) (concat (map (\<lambda>r. map (Pair r) (cs r)) rs)))
    = (if r \<in> set rs then cs r else [])"
proof (induction rs)
  case (Cons q rs)
  have "filter (\<lambda>p. fst p = r) (map (Pair q) ds) = (if q = r then map (Pair q) ds else [])"
    for ds :: "'b list" by (induction ds) auto
  with Cons show ?case by (auto simp: comp_def)
qed simp

lemma nested_order_exists:
  assumes "outer rs" "distinct rs" "\<And>r. r \<in> set rs \<Longrightarrow> inner r (cs r)"
  shows "nested_order outer inner (concat (map (\<lambda>r. map (Pair r) (cs r)) rs))"
proof -
  have "inner r (map snd (filter (\<lambda>p. fst p = r) (concat (map (\<lambda>r. map (Pair r) (cs r)) rs))))"
    if "r \<in> set rs" for r
    unfolding row_of_pairs [OF assms(2)] using that assms(3) by simp
  moreover have "fst ` set (concat (map (\<lambda>r. map (Pair r) (cs r)) rs)) \<subseteq> set rs" by auto
  ultimately show ?thesis unfolding nested_order_def using assms(1) by blast
qed

section \<open>Rounds that store given values\<close>

text \<open>\<open>f\<close> stores \<open>v p\<close> in the places \<open>W\<close> and nothing else; running such rounds in any order, even twice, does.\<close>

definition stores ::
  "('s \<Rightarrow> bool) \<Rightarrow> ('s \<Rightarrow> 'p \<Rightarrow> 'v) \<Rightarrow> ('p \<Rightarrow> 'v) \<Rightarrow> 'p set \<Rightarrow> ('s \<Rightarrow> 's option) \<Rightarrow> bool" where
  "stores ok get v W f \<longleftrightarrow>
     (\<forall>s. ok s \<longrightarrow> (\<exists>s'. f s = Some s' \<and> ok s' \<and> (\<forall>p. get s' p = (if p \<in> W then v p else get s p))))"

lemma foldM_stores:
  assumes "\<And>i. i \<in> set xs \<Longrightarrow> stores ok get v (W i) (f i)"
  shows "stores ok get v (\<Union>i \<in> set xs. W i) (foldM f xs)"
  using assms
proof (induction xs)
  case (Cons i xs)
  show ?case unfolding stores_def
  proof (intro allI impI)
    fix s
    assume "ok s"
    moreover have "stores ok get v (W i) (f i)" using Cons.prems by simp
    ultimately obtain s1 where s1: "f i s = Some s1" "ok s1" "\<forall>p. get s1 p = (if p \<in> W i then v p else get s p)"
      unfolding stores_def by blast
    have "stores ok get v (\<Union>i \<in> set xs. W i) (foldM f xs)" using Cons by simp
    with s1(2) obtain s2 where "foldM f xs s1 = Some s2" "ok s2"
      "\<forall>p. get s2 p = (if p \<in> (\<Union>i \<in> set xs. W i) then v p else get s1 p)"
      unfolding stores_def by blast
    with s1 show "\<exists>s'. foldM f (i # xs) s = Some s' \<and> ok s' \<and>
        (\<forall>p. get s' p = (if p \<in> (\<Union>i \<in> set (i # xs). W i) then v p else get s p))"
      by (intro exI [of _ s2]) auto
  qed
qed (simp add: stores_def)

lemma foldM_None: "i \<in> set xs \<Longrightarrow> (\<And>s. f i s = None) \<Longrightarrow> foldM f xs s = None"
  by (induction xs arbitrary: s) (auto simp: bind_eq_None_conv)

end
