(* ===== verification/Spmv.thy ===== *)
theory Spmv
  imports Loops "HOL-Library.Product_Lexorder"
begin

text \<open>
  The matrix kernels of src/include/benchmarks/spmv.h: products of sparse (CSR) and dense matrices,
  the blocked transposition and the construction of sparse matrices.  The element type is any type
  with the operations a kernel uses; the laws of arithmetic are assumed only where a lemma says so.  The
  order \<open>ParallelFor\<close> runs the rounds in is an argument, a list of rounds; in nested loops a list of
  pairs.  An access outside a vector makes the result \<open>None\<close>.
\<close>

section \<open>Matrices\<close>

record MatrixDimensions =
  Rows :: u64
  Columns :: u64

record 'a DenseMatrix =
  Dimensions :: MatrixDimensions
  Data :: "'a list list"

record 'a SparseMatrixCSR =
  CSR_Dimensions :: MatrixDimensions
  Values :: "'a list"
  ColumnIndex :: "u64 list"
  RowIndex :: "u64 list"

definition new_DenseMatrix :: "u64 \<Rightarrow> u64 \<Rightarrow> 'a::zero DenseMatrix" where
  "new_DenseMatrix n m =
     \<lparr>Dimensions = \<lparr>Rows = n, Columns = m\<rparr>, Data = replicate (unat n) (replicate (unat m) 0)\<rparr>"

definition Data_at :: "'a DenseMatrix \<Rightarrow> u64 \<Rightarrow> u64 \<Rightarrow> 'a option" where
  "Data_at A i j = Option.bind (at (Data A) i) (\<lambda>r. at r j)"

definition Data_store :: "'a DenseMatrix \<Rightarrow> u64 \<Rightarrow> u64 \<Rightarrow> 'a \<Rightarrow> 'a DenseMatrix option" where
  "Data_store A i j v =
     Option.bind (at (Data A) i) (\<lambda>r.
     Option.bind (store_at r j v) (\<lambda>r.
     Option.bind (store_at (Data A) i r) (\<lambda>d. Some (A\<lparr>Data := d\<rparr>))))"

section \<open>Products\<close>

definition MultiplyRow :: "'a::{zero,plus,times} SparseMatrixCSR \<Rightarrow> 'a list \<Rightarrow> u64 \<Rightarrow> 'a option" where
  "MultiplyRow A x row =
     Option.bind (at (RowIndex A) row) (\<lambda>from.
     Option.bind (at (RowIndex A) (row + 1)) (\<lambda>to.
       for_less (\<lambda>i y.
           Option.bind (at (Values A) i) (\<lambda>v.
           Option.bind (at (ColumnIndex A) i) (\<lambda>c.
           Option.bind (at x c) (\<lambda>xc. Some (y + v * xc))))) from to 0))"

definition MultiplyMatrix_sparse ::
  "u64 list \<Rightarrow> 'a::{zero,plus,times} SparseMatrixCSR \<Rightarrow> 'a list \<Rightarrow> 'a list \<Rightarrow> 'a list option" where
  "MultiplyMatrix_sparse order A x out =
     (if unat (Columns (CSR_Dimensions A)) \<noteq> length x then None
      else foldM (\<lambda>i out. Option.bind (MultiplyRow A x i) (store_at out i)) order out)"

definition dense_round :: "'a::{zero,plus,times} DenseMatrix \<Rightarrow> 'a list \<Rightarrow> u64 \<Rightarrow> 'a list \<Rightarrow> 'a list option" where
  "dense_round A x i out =
     Option.bind (store_at out i 0) (\<lambda>out.
       for_neq (\<lambda>j out.
           Option.bind (Data_at A i j) (\<lambda>a.
           Option.bind (at x j) (\<lambda>xj.
           Option.bind (at out i) (\<lambda>y. store_at out i (y + a * xj))))) 0 (Columns (Dimensions A)) out)"

definition MultiplyMatrix_vector ::
  "u64 list \<Rightarrow> 'a::{zero,plus,times} DenseMatrix \<Rightarrow> 'a list \<Rightarrow> 'a list \<Rightarrow> 'a list option" where
  "MultiplyMatrix_vector order A x out = foldM (dense_round A x) order out"

definition MultiplyMatrix_dense ::
  "(u64 \<times> u64) list \<Rightarrow> 'a::{zero,plus,times} DenseMatrix \<Rightarrow> 'a DenseMatrix \<Rightarrow> 'a DenseMatrix
     \<Rightarrow> 'a DenseMatrix option" where
  "MultiplyMatrix_dense order A B out =
     foldM (\<lambda>(row, col) out.
       Option.bind (for_neq (\<lambda>j sum.
           Option.bind (Data_at A row j) (\<lambda>a.
           Option.bind (Data_at B j col) (\<lambda>b. Some (sum + a * b)))) 0 (Columns (Dimensions A)) 0)
         (Data_store out row col)) order out"

definition DensePmvSerial :: "'a::{zero,plus,times} DenseMatrix \<Rightarrow> 'a list \<Rightarrow> 'a list \<Rightarrow> 'a list option" where
  "DensePmvSerial A x y =
     (let n = unat (Rows (Dimensions A));
          y = take n y @ replicate (n - length y) 0
      in for_less (\<lambda>i y.
           for_less (\<lambda>j y.
               Option.bind (at y i) (\<lambda>yi.
               Option.bind (Data_at A i j) (\<lambda>a.
               Option.bind (at x j) (\<lambda>xj. store_at y i (yi + a * xj)))))
             0 (Columns (Dimensions A)) y) 0 (Rows (Dimensions A)) y)"

section \<open>Building sparse matrices\<close>

definition DenseToSparse :: "'a::zero DenseMatrix \<Rightarrow> 'a SparseMatrixCSR option" where
  "DenseToSparse A =
     for_less (\<lambda>i out.
       Option.bind
         (for_less (\<lambda>j out.
             Option.bind (Data_at A i j) (\<lambda>a.
               if a \<noteq> 0 then Some (out\<lparr>Values := Values out @ [a], ColumnIndex := ColumnIndex out @ [j]\<rparr>)
               else Some out)) 0 (Columns (Dimensions A)) out)
         (\<lambda>out. Some (out\<lparr>RowIndex := RowIndex out @ [of_nat (length (ColumnIndex out))]\<rparr>)))
       0 (Rows (Dimensions A))
       \<lparr>CSR_Dimensions = Dimensions A, Values = [], ColumnIndex = [], RowIndex = [0]\<rparr>"

text \<open>
  The places of the elements for the kind \<open>BALANCED\<close>; \<open>gen k\<close> is the number below \<open>STEP\<close> that the
  generator yields as the one numbered \<open>k\<close>, and the state counts them.
\<close>

definition STEP :: u64 where
  "STEP = 9"

partial_function (option) balanced_row ::
  "(nat \<Rightarrow> u64) \<Rightarrow> u64 \<Rightarrow> u64 \<Rightarrow> u64 \<Rightarrow> nat \<times> (u64 \<times> u64) list \<Rightarrow> (nat \<times> (u64 \<times> u64) list) option" where
  "balanced_row gen m i j s =
     (if j < m then
        balanced_row gen m i (j + STEP)
          (let colOffset = gen (fst s) in (Suc (fst s), snd s @ [(i, min (j + colOffset) (m - 1))]))
      else Some s)"

definition balanced_positions :: "(nat \<Rightarrow> u64) \<Rightarrow> u64 \<Rightarrow> u64 \<Rightarrow> (u64 \<times> u64) list option" where
  "balanced_positions gen n m = map_option snd (for_neq (\<lambda>i. balanced_row gen m i 0) 0 n (0, []))"

text \<open>The matrix with elements at the given places; \<open>val k\<close> is the element generated as number \<open>k\<close>.\<close>

function fill_below :: "u64 \<Rightarrow> 'a SparseMatrixCSR \<Rightarrow> 'a SparseMatrixCSR" where
  "fill_below i out =
     (if i > of_nat (length (RowIndex out)) - 1
      then fill_below i (out\<lparr>RowIndex := RowIndex out @ [of_nat (length (ColumnIndex out))]\<rparr>) else out)"
  by pat_completeness auto
termination
proof (relation "measure (\<lambda>(i, out). unat (i - (of_nat (length (RowIndex out)) - 1)))")
  fix i :: u64 and out :: "'a SparseMatrixCSR"
  assume "i > of_nat (length (RowIndex out)) - 1"
  then have "unat (i - (of_nat (length (RowIndex out)) - 1) - 1) < unat (i - (of_nat (length (RowIndex out)) - 1))"
    by (intro unat_pred_less) auto
  then show "((i, out\<lparr>RowIndex := RowIndex out @ [of_nat (length (ColumnIndex out))]\<rparr>), i, out)
      \<in> measure (\<lambda>(i, out). unat (i - (of_nat (length (RowIndex out)) - 1)))"
    by (simp add: algebra_simps)
qed simp

function fill_up :: "u64 \<Rightarrow> 'a SparseMatrixCSR \<Rightarrow> 'a SparseMatrixCSR" where
  "fill_up n out =
     (if of_nat (length (RowIndex out)) < n + 1
      then fill_up n (out\<lparr>RowIndex := RowIndex out @ [of_nat (length (ColumnIndex out))]\<rparr>) else out)"
  by pat_completeness auto
termination
proof (relation "measure (\<lambda>(n, out). unat (n + 1 - of_nat (length (RowIndex out))))")
  fix n :: u64 and out :: "'a SparseMatrixCSR"
  assume "of_nat (length (RowIndex out)) < n + 1"
  then have "unat (n + 1 - of_nat (length (RowIndex out)) - 1) < unat (n + 1 - of_nat (length (RowIndex out)))"
    by (intro unat_pred_less) auto
  then show "((n, out\<lparr>RowIndex := RowIndex out @ [of_nat (length (ColumnIndex out))]\<rparr>), n, out)
      \<in> measure (\<lambda>(n, out). unat (n + 1 - of_nat (length (RowIndex out))))"
    by (simp add: algebra_simps)
qed simp

declare fill_below.simps [simp del] fill_up.simps [simp del]

definition GenSparseMatrix :: "(nat \<Rightarrow> 'a) \<Rightarrow> (u64 \<times> u64) list \<Rightarrow> u64 \<Rightarrow> u64 \<Rightarrow> 'a SparseMatrixCSR" where
  "GenSparseMatrix val positions n m =
     fill_up n (fold (\<lambda>(i, j) out.
         let out = fill_below i out
         in out\<lparr>Values := Values out @ [val (length (Values out))], ColumnIndex := ColumnIndex out @ [j]\<rparr>)
       (sort positions)
       \<lparr>CSR_Dimensions = \<lparr>Rows = n, Columns = m\<rparr>, Values = [], ColumnIndex = [], RowIndex = [0]\<rparr>)"

section \<open>What the matrices mean\<close>

definition dense_ok :: "'a DenseMatrix \<Rightarrow> bool" where
  "dense_ok A \<longleftrightarrow> length (Data A) = unat (Rows (Dimensions A))
     \<and> (\<forall>r \<in> set (Data A). length r = unat (Columns (Dimensions A)))"

definition csr_ok :: "'a SparseMatrixCSR \<Rightarrow> bool" where
  "csr_ok A \<longleftrightarrow>
     length (RowIndex A) = Suc (unat (Rows (CSR_Dimensions A))) \<and> unat (Rows (CSR_Dimensions A)) + 1 < 2 ^ 64 \<and>
     (\<forall>k < unat (Rows (CSR_Dimensions A)). RowIndex A ! k \<le> RowIndex A ! Suc k) \<and>
     (\<forall>k \<le> unat (Rows (CSR_Dimensions A)). unat (RowIndex A ! k) \<le> length (Values A)) \<and>
     length (ColumnIndex A) = length (Values A) \<and>
     (\<forall>c \<in> set (ColumnIndex A). c < Columns (CSR_Dimensions A))"

text \<open>The elements of row \<open>k\<close> with their columns, and the products a row and a vector have.\<close>

definition csr_row :: "'a SparseMatrixCSR \<Rightarrow> nat \<Rightarrow> ('a \<times> u64) list" where
  "csr_row A k =
     (let s = unat (RowIndex A ! k); e = unat (RowIndex A ! Suc k)
      in take (e - s) (drop s (zip (Values A) (ColumnIndex A))))"

definition dot :: "('a::{zero,plus,times} \<times> u64) list \<Rightarrow> 'a list \<Rightarrow> 'a" where
  "dot cs x = foldl (\<lambda>y (v, c). y + v * x ! unat c) 0 cs"

definition numbered :: "'a list \<Rightarrow> ('a \<times> u64) list" where
  "numbered r = map (\<lambda>j. (r ! j, of_nat j)) [0..<length r]"

section \<open>Sparse times vector\<close>

lemma MultiplyRow_dot:
  assumes ok: "csr_ok A" and x: "length x = unat (Columns (CSR_Dimensions A))"
    and i: "i < Rows (CSR_Dimensions A)"
  shows "MultiplyRow A x i = Some (dot (csr_row A (unat i)) x)"
proof -
  let ?n = "unat (Rows (CSR_Dimensions A))" and ?s = "unat (RowIndex A ! unat i)" and ?e = "unat (RowIndex A ! Suc (unat i))"
  have in_n: "unat i < ?n" using i by (simp add: word_less_nat_alt)
  then have i1: "unat (i + 1) = Suc (unat i)" by (rule u64_Suc)
  have le: "?s \<le> ?e" "?e \<le> length (Values A)" and cols: "length (ColumnIndex A) = length (Values A)"
    using ok in_n by (simp_all add: csr_ok_def word_le_nat_alt)
  have at: "at (RowIndex A) i = Some (RowIndex A ! unat i)" "at (RowIndex A) (i + 1) = Some (RowIndex A ! Suc (unat i))"
    using ok in_n by (simp_all add: at_def i1 csr_ok_def)
  let ?g = "\<lambda>k y. y + Values A ! unat k * x ! unat (ColumnIndex A ! unat k)"
  have round: "Option.bind (at (Values A) k) (\<lambda>v. Option.bind (at (ColumnIndex A) k) (\<lambda>c.
      Option.bind (at x c) (\<lambda>xc. Some (y + v * xc)))) = Some (?g k y)"
    if "k \<in> set (indices (RowIndex A ! unat i) (RowIndex A ! Suc (unat i)))" for k y
  proof -
    have k: "unat k < ?e" using that by (simp add: word_less_nat_alt)
    then have "ColumnIndex A ! unat k \<in> set (ColumnIndex A)" using le(2) cols by simp
    then have "unat (ColumnIndex A ! unat k) < length x"
      using ok x by (auto simp: csr_ok_def word_less_nat_alt)
    then show ?thesis using k le(2) cols by (simp add: at_def)
  qed
  have "MultiplyRow A x i = Some (fold ?g (indices (RowIndex A ! unat i) (RowIndex A ! Suc (unat i))) 0)"
    unfolding MultiplyRow_def at for_less_indices Option.bind.simps using round by (rule foldM_pure)
  also have "fold ?g (indices (RowIndex A ! unat i) (RowIndex A ! Suc (unat i))) 0
      = foldl (\<lambda>y k. y + Values A ! k * x ! unat (ColumnIndex A ! k)) 0 [?s..<?e]"
    unfolding indices_def foldl_conv_fold fold_map
    by (rule fold_cong) (use u64_bound [of "RowIndex A ! Suc (unat i)"] in \<open>auto simp: unat_of_nat fun_eq_iff\<close>)
  also have "\<dots> = dot (map (\<lambda>k. (Values A ! k, ColumnIndex A ! k)) [?s..<?e]) x"
    by (simp add: dot_def foldl_map)
  also have "map (\<lambda>k. (Values A ! k, ColumnIndex A ! k)) [?s..<?e] = csr_row A (unat i)"
    unfolding csr_row_def Let_def using le cols by (intro nth_equalityI) simp_all
  finally show ?thesis .
qed

text \<open>One write per round.\<close>

lemma writes_one:
  assumes "i < n" "\<And>out. length out = n \<Longrightarrow> f out = Some (out[i := v (out ! i)])"
  shows "writes_only (\<lambda>out. length out = n) (!) {i} (\<lambda>m p. v (m p)) f"
  using assms by (auto simp: writes_only_def nth_list_update)

context parallel_loop
begin

lemma vector_loop:
  assumes "ok 0 to" "order 0 to xs" "unat to \<le> length out"
    "\<And>i out'. i < to \<Longrightarrow> length out' = length out \<Longrightarrow> f i out' = Some (out'[unat i := v (unat i) (out' ! unat i)])"
  shows "foldM f xs out = Some (map (\<lambda>k. if k < unat to then v k (out ! k) else out ! k) [0..<length out])"
proof -
  obtain s where s: "foldM f xs out = Some s" "length s = length out"
    "\<forall>p. (\<forall>i. 0 \<le> i \<and> i < to \<longrightarrow> p \<notin> {unat i}) \<longrightarrow> s ! p = out ! p"
    "\<forall>i. 0 \<le> i \<and> i < to \<longrightarrow> (\<forall>p \<in> {unat i}. s ! p = v (unat i) (out ! p))"
    using independent_rounds [OF assms(1,2), where okay = "\<lambda>s. length s = length out" and s = out
        and get = "(!)" and W = "\<lambda>i. {unat i}" and g = "\<lambda>i m p. v (unat i) (m p)" and f = f]
      assms(3,4) by (force simp: word_less_nat_alt u64_eq intro!: writes_one)
  have "s ! k = (if k < unat to then v k (out ! k) else out ! k)" if "k < length out" for k
  proof (cases "k < unat to")
    case True
    then have "unat (of_nat k :: u64) = k" using u64_bound [of to] by (simp add: unat_of_nat)
    with s(4) [rule_format, of "of_nat k" k] True show ?thesis by (simp add: word_less_nat_alt)
  next
    case False
    then have "\<forall>i. 0 \<le> i \<and> i < to \<longrightarrow> k \<notin> {unat i}" by (simp add: word_less_nat_alt)
    then have "s ! k = out ! k" using s(3) by blast
    with False show ?thesis by simp
  qed
  then have "s = map (\<lambda>k. if k < unat to then v k (out ! k) else out ! k) [0..<length out]"
    using s(2) by (intro nth_equalityI) simp_all
  with s(1) show ?thesis by simp
qed

end

lemma MultiplyMatrix_sparse_ok:
  assumes "csr_ok A" "length x = unat (Columns (CSR_Dimensions A))" "unat (Rows (CSR_Dimensions A)) \<le> length out"
    "loop_ok threads 0 (Rows (CSR_Dimensions A)) grainsize"
    "eigen_order init m stack_empty threads grainsize 0 (Rows (CSR_Dimensions A)) order"
  shows "MultiplyMatrix_sparse order A x out
    = Some (map (\<lambda>k. if k < unat (Rows (CSR_Dimensions A)) then dot (csr_row A k) x else out ! k) [0..<length out])"
proof -
  have "foldM (\<lambda>i out. Option.bind (MultiplyRow A x i) (store_at out i)) order out
    = Some (map (\<lambda>k. if k < unat (Rows (CSR_Dimensions A)) then dot (csr_row A k) x else out ! k) [0..<length out])"
    using assms by (intro eigen.vector_loop) (simp_all add: MultiplyRow_dot store_at_def word_less_nat_alt)
  then show ?thesis using assms(2) by (simp add: MultiplyMatrix_sparse_def)
qed

section \<open>Dense times vector\<close>

lemma foldM_inv:
  assumes "\<And>x s. x \<in> set xs \<Longrightarrow> P s \<Longrightarrow> f x s = Some (g x s) \<and> P (g x s)" "P s"
  shows "foldM f xs s = Some (fold g xs s)"
  using assms by (induction xs arbitrary: s) simp_all

lemma fold_one_place:
  assumes "i < length ys"
  shows "fold (\<lambda>j ys. ys[i := ys ! i + h j]) js (ys[i := a]) = ys[i := foldl (\<lambda>a j. a + h j) a js]"
  using assms by (induction js arbitrary: a) simp_all

lemma row_products:
  assumes "length r = unat m"
  shows "foldl (\<lambda>a j. a + r ! unat j * x ! unat j) y (indices 0 m)
    = foldl (\<lambda>y (v, c). y + v * x ! unat c) y (numbered r)"
proof -
  have "foldl (\<lambda>a j. a + r ! unat j * x ! unat j) y (indices 0 m)
      = foldl (\<lambda>a j. a + r ! j * x ! j) y [0..<unat m]"
    unfolding indices_def foldl_map using u64_bound [of m]
    by (intro foldl_cong) (simp_all add: unat_of_nat)
  also have "\<dots> = foldl (\<lambda>y (v, c). y + v * x ! unat c) y (numbered r)"
    unfolding numbered_def foldl_map using u64_bound [of m]
    by (intro foldl_cong) (simp_all add: unat_of_nat assms)
  finally show ?thesis .
qed

lemma dense_access:
  assumes "dense_ok A" "i < Rows (Dimensions A)" "j < Columns (Dimensions A)"
  shows "Data_at A i j = Some (Data A ! unat i ! unat j)"
proof -
  have "unat i < length (Data A)" using assms(1,2) by (simp add: dense_ok_def word_less_nat_alt)
  moreover from this have "length (Data A ! unat i) = unat (Columns (Dimensions A))"
    using assms(1) by (simp add: dense_ok_def)
  ultimately show ?thesis using assms(3) by (simp add: Data_at_def at_def word_less_nat_alt)
qed

text \<open>Adding the products of row \<open>i\<close> to place \<open>i\<close>, with either kind of loop.\<close>

lemma accumulate_row:
  assumes ok: "dense_ok A" and i: "i < Rows (Dimensions A)" and x: "length x = unat (Columns (Dimensions A))"
    and out: "unat i < length out"
    and f: "\<And>j out. j < Columns (Dimensions A) \<Longrightarrow> unat i < length out
      \<Longrightarrow> f j out = store_at out i (out ! unat i + Data A ! unat i ! unat j * x ! unat j)"
  shows "foldM f (indices 0 (Columns (Dimensions A))) out
    = Some (out[unat i := foldl (\<lambda>y (v, c). y + v * x ! unat c) (out ! unat i) (numbered (Data A ! unat i))])"
proof -
  let ?g = "\<lambda>j out. out[unat i := out ! unat i + Data A ! unat i ! unat j * x ! unat j]"
  have len: "length (Data A ! unat i) = unat (Columns (Dimensions A))"
    using ok i by (simp add: dense_ok_def word_less_nat_alt)
  have "foldM f (indices 0 (Columns (Dimensions A))) out = Some (fold ?g (indices 0 (Columns (Dimensions A))) out)"
    using out f by (intro foldM_inv [where P = "\<lambda>out. unat i < length out"]) (simp_all add: store_at_def)
  also have "fold ?g (indices 0 (Columns (Dimensions A))) out
      = fold ?g (indices 0 (Columns (Dimensions A))) (out[unat i := out ! unat i])" by simp
  also have "\<dots> = out[unat i := foldl (\<lambda>a j. a + Data A ! unat i ! unat j * x ! unat j) (out ! unat i)
      (indices 0 (Columns (Dimensions A)))]"
    using out by (rule fold_one_place)
  finally show ?thesis by (simp only: row_products [OF len])
qed

lemma dense_round_dot:
  assumes "dense_ok A" "i < Rows (Dimensions A)" "length x = unat (Columns (Dimensions A))" "unat i < length out"
  shows "dense_round A x i out = Some (out[unat i := dot (numbered (Data A ! unat i)) x])"
proof -
  have "dense_round A x i out = foldM (\<lambda>j out. Option.bind (Data_at A i j) (\<lambda>a. Option.bind (at x j) (\<lambda>xj.
      Option.bind (at out i) (\<lambda>y. store_at out i (y + a * xj))))) (indices 0 (Columns (Dimensions A))) (out[unat i := 0])"
    using assms(4) by (simp add: dense_round_def store_at_def for_neq_indices)
  also have "\<dots> = Some ((out[unat i := 0])[unat i :=
      foldl (\<lambda>y (v, c). y + v * x ! unat c) ((out[unat i := 0]) ! unat i) (numbered (Data A ! unat i))])"
    using assms by (intro accumulate_row) (simp_all add: dense_access at_def word_less_nat_alt)
  finally show ?thesis using assms(4) by (simp add: dot_def)
qed

lemma MultiplyMatrix_vector_rows:
  assumes "dense_ok A" "length x = unat (Columns (Dimensions A))" "unat (Rows (Dimensions A)) \<le> length out"
    "loop_ok threads 0 (Rows (Dimensions A)) grainsize"
    "eigen_order init m stack_empty threads grainsize 0 (Rows (Dimensions A)) order"
  shows "MultiplyMatrix_vector order A x out
    = Some (map (\<lambda>k. if k < unat (Rows (Dimensions A)) then dot (numbered (Data A ! k)) x else out ! k) [0..<length out])"
  unfolding MultiplyMatrix_vector_def using assms
  by (intro eigen.vector_loop) (simp_all add: dense_round_dot word_less_nat_alt)

lemma DensePmvSerial_rows:
  fixes y :: "'a::{zero,plus,times} list"
  assumes ok: "dense_ok A" and x: "length x = unat (Columns (Dimensions A))"
    and y: "length y = unat (Rows (Dimensions A))"
  shows "DensePmvSerial A x y = Some (map (\<lambda>k. foldl (\<lambda>y (v, c). y + v * x ! unat c) (y ! k) (numbered (Data A ! k)))
    [0..<unat (Rows (Dimensions A))])"
proof -
  let ?f = "\<lambda>i y. for_less (\<lambda>j y. Option.bind (at y i) (\<lambda>yi. Option.bind (Data_at A i j) (\<lambda>a.
      Option.bind (at x j) (\<lambda>xj. store_at y i (yi + a * xj))))) 0 (Columns (Dimensions A)) y"
  have round: "?f i out = Some (out[unat i :=
      foldl (\<lambda>y (v, c). y + v * x ! unat c) (out ! unat i) (numbered (Data A ! unat i))])"
    if "i < Rows (Dimensions A)" "length out = length y" for i out
    unfolding for_less_indices using that y
    by (intro accumulate_row ok x) (simp_all add: dense_access ok at_def x word_less_nat_alt)
  have "foldM ?f (indices 0 (Rows (Dimensions A))) y = Some (map (\<lambda>k. if k < unat (Rows (Dimensions A))
      then foldl (\<lambda>y (v, c). y + v * x ! unat c) (y ! k) (numbered (Data A ! k)) else y ! k) [0..<length y])"
    by (rule serial.vector_loop) (simp_all add: serial_loop_indices y round)
  then show ?thesis by (simp add: DensePmvSerial_def Let_def for_less_indices y cong: map_cong)
qed

section \<open>From dense to sparse\<close>

definition nonzero :: "'a::zero list \<Rightarrow> ('a \<times> u64) list" where
  "nonzero r = filter (\<lambda>(v, c). v \<noteq> 0) (numbered r)"

definition nonzeros :: "'a::zero list list \<Rightarrow> ('a \<times> u64) list" where
  "nonzeros rows = concat (map nonzero rows)"

lemma nonzeros_append: "nonzeros (rows @ [r]) = nonzeros rows @ nonzero r"
  by (simp add: nonzeros_def)

lemma numbered_indices: "length r = unat m \<Longrightarrow> map (\<lambda>j. (r ! unat j, j)) (indices 0 m) = numbered r"
  using u64_bound [of m] by (simp add: numbered_def indices_def unat_of_nat)

text \<open>The sparse matrix after the rows before \<open>k\<close>.\<close>

definition sparse_upto :: "'a::zero DenseMatrix \<Rightarrow> nat \<Rightarrow> 'a SparseMatrixCSR" where
  "sparse_upto A k =
     \<lparr>CSR_Dimensions = Dimensions A, Values = map fst (nonzeros (take k (Data A))),
      ColumnIndex = map snd (nonzeros (take k (Data A))),
      RowIndex = map (\<lambda>k. of_nat (length (nonzeros (take k (Data A))))) [0..<Suc k]\<rparr>"

lemma DenseToSparse_round:
  fixes out :: "'a::zero SparseMatrixCSR"
  assumes "dense_ok A" "i < Rows (Dimensions A)"
  shows "for_less (\<lambda>j out. Option.bind (Data_at A i j) (\<lambda>a.
      if a \<noteq> 0 then Some (out\<lparr>Values := Values out @ [a], ColumnIndex := ColumnIndex out @ [j]\<rparr>) else Some out))
      0 (Columns (Dimensions A)) out
    = Some (out\<lparr>Values := Values out @ map fst (nonzero (Data A ! unat i)),
                ColumnIndex := ColumnIndex out @ map snd (nonzero (Data A ! unat i))\<rparr>)"
proof -
  let ?r = "Data A ! unat i" and ?m = "Columns (Dimensions A)"
  let ?g = "\<lambda>j out. if ?r ! unat j \<noteq> 0
    then out\<lparr>Values := Values out @ [?r ! unat j], ColumnIndex := ColumnIndex out @ [j]\<rparr> else out"
  have len: "length ?r = unat ?m" using assms by (simp add: dense_ok_def word_less_nat_alt)
  have "fold ?g js out = out\<lparr>
      Values := Values out @ map fst (filter (\<lambda>(v, c). v \<noteq> 0) (map (\<lambda>j. (?r ! unat j, j)) js)),
      ColumnIndex := ColumnIndex out @ map snd (filter (\<lambda>(v, c). v \<noteq> 0) (map (\<lambda>j. (?r ! unat j, j)) js))\<rparr>"
    for js and out :: "'a SparseMatrixCSR"
    by (induction js arbitrary: out) simp_all
  from this [of "indices 0 ?m" out] show ?thesis
    unfolding for_less_indices numbered_indices [OF len] nonzero_def
    by (subst foldM_pure [where g = ?g]) (simp_all add: dense_access assms)
qed

lemma DenseToSparse_eq:
  assumes "dense_ok A"
  shows "DenseToSparse A = Some (sparse_upto A (unat (Rows (Dimensions A))))"
proof -
  let ?n = "unat (Rows (Dimensions A))"
  define F where "F = (\<lambda>i out. Option.bind
      (for_less (\<lambda>j out. Option.bind (Data_at A i j) (\<lambda>a.
        if a \<noteq> 0 then Some (out\<lparr>Values := Values out @ [a], ColumnIndex := ColumnIndex out @ [j]\<rparr>) else Some out))
        0 (Columns (Dimensions A)) out)
      (\<lambda>out :: 'a SparseMatrixCSR. Some (out\<lparr>RowIndex := RowIndex out @ [of_nat (length (ColumnIndex out))]\<rparr>)))"
  have "foldM F (map of_nat [0..<k]) (sparse_upto A 0) = Some (sparse_upto A k)" if "k \<le> ?n" for k
    using that
  proof (induction k)
    case (Suc k)
    have u: "unat (of_nat k :: u64) = k" using Suc.prems u64_bound [of "Rows (Dimensions A)"] by (simp add: unat_of_nat)
    then have lt: "of_nat k < Rows (Dimensions A)" using Suc.prems by (simp add: word_less_nat_alt)
    have "k < length (Data A)" using assms Suc.prems by (simp add: dense_ok_def)
    then have take: "take (Suc k) (Data A) = take k (Data A) @ [Data A ! k]" by (rule take_Suc_conv_app_nth)
    have "F (of_nat k) (sparse_upto A k) = Some (sparse_upto A (Suc k))"
      unfolding F_def DenseToSparse_round [OF assms lt]
      by (simp add: sparse_upto_def u take nonzeros_append)
    then show ?case using Suc by (simp add: foldM_append)
  qed simp
  from this [of ?n] show ?thesis
    by (simp add: DenseToSparse_def for_less_indices indices_def F_def sparse_upto_def nonzeros_def)
qed

lemma nonzeros_split:
  assumes "k \<le> l"
  shows "nonzeros (take l rows) = nonzeros (take k rows) @ nonzeros (take (l - k) (drop k rows))"
proof -
  have "take l rows = take k rows @ take (l - k) (drop k rows)"
    using assms take_add [of k "l - k" rows] by simp
  then show ?thesis by (simp add: nonzeros_def)
qed

lemma length_nonzeros_mono: "k \<le> l \<Longrightarrow> length (nonzeros (take k rows)) \<le> length (nonzeros (take l rows))"
  by (subst nonzeros_split [of k l]) simp_all

lemma length_nonzero: "length (nonzero r) \<le> length r"
  unfolding nonzero_def by (rule order.trans [OF length_filter_le]) (simp add: numbered_def)

lemma length_nonzeros:
  assumes "\<forall>r \<in> set rows. length r = m"
  shows "length (nonzeros rows) \<le> length rows * m"
  using assms
proof (induction rows)
  case (Cons r rows)
  then show ?case using length_nonzero [of r] by (simp add: nonzeros_def)
qed (simp add: nonzeros_def)

lemma sparse_ok:
  assumes ok: "dense_ok A" and small: "unat (Rows (Dimensions A)) * unat (Columns (Dimensions A)) < 2 ^ 64"
    "unat (Rows (Dimensions A)) + 1 < 2 ^ 64"
  shows "csr_ok (sparse_upto A (unat (Rows (Dimensions A))))"
    "k < unat (Rows (Dimensions A)) \<Longrightarrow> csr_row (sparse_upto A (unat (Rows (Dimensions A)))) k = nonzero (Data A ! k)"
proof -
  let ?n = "unat (Rows (Dimensions A))" and ?nz = "\<lambda>k. nonzeros (take k (Data A))"
  have len: "length (Data A) = ?n" using ok by (simp add: dense_ok_def)
  have "length (?nz k) < 2 ^ 64" for k
  proof -
    have "length (?nz k) \<le> length (nonzeros (Data A))"
      using length_nonzeros_mono [of k "max k ?n" "Data A"] len by simp
    also have "\<dots> \<le> length (Data A) * unat (Columns (Dimensions A))"
      by (rule length_nonzeros) (use ok in \<open>simp add: dense_ok_def\<close>)
    finally show ?thesis using small(1) len by simp
  qed
  then have u: "unat (of_nat (length (?nz k)) :: u64) = length (?nz k)" for k by (simp add: unat_of_nat)
  have all: "take ?n (Data A) = Data A" using len by simp
  have cols: "c < Columns (Dimensions A)" if r: "r \<in> set (Data A)" and "(v, c) \<in> set (nonzero r)" for r v c
  proof -
    have "length r = unat (Columns (Dimensions A))" using ok r by (simp add: dense_ok_def)
    with that(2) u64_bound [of "Columns (Dimensions A)"] show ?thesis
      by (auto simp: nonzero_def numbered_def word_less_nat_alt unat_of_nat)
  qed
  have cols: "\<forall>c \<in> set (map snd (nonzeros (Data A))). c < Columns (Dimensions A)"
    using cols by (auto simp: nonzeros_def)
  have mono: "length (?nz k) \<le> length (nonzeros (Data A))" if "k \<le> ?n" for k
    using length_nonzeros_mono [OF that, of "Data A"] by (simp only: all)
  show "csr_ok (sparse_upto A ?n)"
    unfolding csr_ok_def sparse_upto_def using small(2) cols
    by (simp add: nth_append u word_le_nat_alt length_nonzeros_mono all mono del: upt_Suc)
  show "csr_row (sparse_upto A ?n) k = nonzero (Data A ! k)" if k: "k < ?n" for k
  proof -
    have suc: "?nz (Suc k) = ?nz k @ nonzero (Data A ! k)"
      using k len by (simp add: take_Suc_conv_app_nth nonzeros_append)
    have "Suc k \<le> ?n" using k by simp
    from nonzeros_split [OF this, of "Data A"] suc obtain zs where
      "?nz ?n = ?nz k @ nonzero (Data A ! k) @ zs" by simp
    then have "take (length (?nz (Suc k)) - length (?nz k)) (drop (length (?nz k)) (?nz ?n)) = nonzero (Data A ! k)"
      by (simp add: suc)
    then show ?thesis
      unfolding csr_row_def sparse_upto_def Let_def using k
      by (simp add: u zip_map_fst_snd del: upt_Suc)
  qed
qed

text \<open>Skipping the zeros does not change a row's sum.\<close>

lemma dot_nonzero: "dot (nonzero r) x = dot (numbered r) (x :: 'a::semiring_0 list)"
proof -
  have "foldl (\<lambda>y (v, c). y + v * x ! unat c) a (filter (\<lambda>(v, c). v \<noteq> 0) cs)
      = foldl (\<lambda>y (v, c). y + v * x ! unat c) a cs" for a and cs :: "('a \<times> u64) list"
    by (induction cs arbitrary: a) auto
  then show ?thesis by (simp add: dot_def nonzero_def)
qed

lemma DensePmvSerial_empty: "DensePmvSerial A x [] = DensePmvSerial A x (replicate (unat (Rows (Dimensions A))) 0)"
  by (simp add: DensePmvSerial_def)

text \<open>
  C21: For every dense matrix, the conversion to a sparse one returns a well-formed matrix, and the
  sparse product, the dense product, each with its rows run in any order the partitioner may choose,
  and the serial product from an empty vector all return the same vector: the one whose elements are
  the sums of the products along the rows.
\<close>

theorem products_agree:
  fixes A :: "'a::semiring_0 DenseMatrix"
  assumes "dense_ok A" "length x = unat (Columns (Dimensions A))"
    "unat (Rows (Dimensions A)) * unat (Columns (Dimensions A)) < 2 ^ 64"
    "loop_ok threads 0 (Rows (Dimensions A)) grainsize"
    "eigen_order init m stack_empty threads grainsize 0 (Rows (Dimensions A)) order1"
    "eigen_order init m stack_empty threads grainsize 0 (Rows (Dimensions A)) order2"
    "length out1 = unat (Rows (Dimensions A))" "length out2 = unat (Rows (Dimensions A))"
  shows "\<exists>S. DenseToSparse A = Some S \<and> csr_ok S \<and>
    (let y = map (\<lambda>k. dot (numbered (Data A ! k)) x) [0..<unat (Rows (Dimensions A))]
     in MultiplyMatrix_sparse order1 S x out1 = Some y \<and> MultiplyMatrix_vector order2 A x out2 = Some y
        \<and> DensePmvSerial A x [] = Some y)"
proof -
  let ?S = "sparse_upto A (unat (Rows (Dimensions A)))"
  have "unat (Rows (Dimensions A)) + 1 < 2 ^ 64" using assms(4) by (simp add: loop_ok_def)
  note S = sparse_ok [OF assms(1,3) this]
  have dim: "CSR_Dimensions ?S = Dimensions A" by (simp add: sparse_upto_def)
  have "MultiplyMatrix_sparse order1 ?S x out1 = Some (map (\<lambda>k. if k < unat (Rows (CSR_Dimensions ?S))
      then dot (csr_row ?S k) x else out1 ! k) [0..<length out1])"
    using MultiplyMatrix_sparse_ok [OF S(1), of x out1 threads grainsize init m stack_empty order1] assms
    by (simp only: dim order.refl)
  moreover have "MultiplyMatrix_vector order2 A x out2 = Some (map (\<lambda>k. if k < unat (Rows (Dimensions A))
      then dot (numbered (Data A ! k)) x else out2 ! k) [0..<length out2])"
    by (rule MultiplyMatrix_vector_rows [OF assms(1,2) _ assms(4,6)]) (simp add: assms)
  moreover have "DensePmvSerial A x [] = Some (map (\<lambda>k. dot (numbered (Data A ! k)) x) [0..<unat (Rows (Dimensions A))])"
    unfolding DensePmvSerial_empty by (subst DensePmvSerial_rows [OF assms(1,2)]) (simp_all add: dot_def cong: map_cong)
  ultimately show ?thesis
    using S DenseToSparse_eq [OF assms(1)] assms(7,8) by (simp add: dim dot_nonzero cong: map_cong)
qed

text \<open>The diagonal matrix of 2 and 3.\<close>

theorem products_agree_witness:
  "\<exists>S. DenseToSparse \<lparr>Dimensions = \<lparr>Rows = 2, Columns = 2\<rparr>, Data = [[2, 0], [0, 3 :: int]]\<rparr> = Some S \<and> csr_ok S
    \<and> MultiplyMatrix_sparse [1, 0] S [5, 7] [0, 0] = Some [10, 21]"
proof -
  let ?A = "\<lparr>Dimensions = \<lparr>Rows = 2, Columns = 2\<rparr>, Data = [[2, 0], [0, 3 :: int]]\<rparr>"
  have "\<exists>S. DenseToSparse ?A = Some S \<and> csr_ok S \<and>
    (let y = map (\<lambda>k. dot (numbered (Data ?A ! k)) [5, 7]) [0..<unat (Rows (Dimensions ?A))]
     in MultiplyMatrix_sparse [1, 0] S [5, 7] [0, 0] = Some y \<and> MultiplyMatrix_vector [1, 0] ?A [5, 7] [0, 0] = Some y
        \<and> DensePmvSerial ?A [5, 7] [] = Some y)"
    by (rule products_agree [where init = 205000 and m = EIGEN_SHARING and stack_empty = True and threads = 2
          and grainsize = 1]) (simp_all add: two_ok two_order dense_ok_def)
  moreover have "map (\<lambda>k. dot (numbered (Data ?A ! k)) [5, 7]) [0..<unat (Rows (Dimensions ?A))] = [10, 21]"
    by code_simp
  ultimately show ?thesis by (auto simp: Let_def)
qed

end
