(* ===== verification/Sparse_Builder.thy ===== *)
theory Sparse_Builder
  imports Spmv
begin

text \<open>
  The construction of a sparse matrix from the places of its elements, the second half of
  \<open>GenSparseMatrix\<close> in src/include/benchmarks/spmv.h: the row index is filled in step with the sorted
  places.  The first half, which draws the places for the three kinds of matrices, is in Sparse\_Kinds.
\<close>

section \<open>Counting places\<close>

definition before_row :: "(u64 \<times> u64) list \<Rightarrow> nat \<Rightarrow> nat" where
  "before_row ps k = length (filter (\<lambda>p. unat (fst p) < k) ps)"

lemma before_row_append: "before_row (ps @ qs) k = before_row ps k + before_row qs k"
  by (simp add: before_row_def)

lemma before_row_le: "before_row ps k \<le> length ps"
  by (simp add: before_row_def)

lemma before_row_all: "(\<And>p. p \<in> set ps \<Longrightarrow> unat (fst p) < k) \<Longrightarrow> before_row ps k = length ps"
  by (simp add: before_row_def filter_id_conv)

lemma before_row_mono: "k \<le> l \<Longrightarrow> before_row ps k \<le> before_row ps l"
  unfolding before_row_def by (induction ps) auto

text \<open>The matrix built from the places \<open>ps\<close> when its row index has reached row \<open>r\<close>.\<close>

definition built :: "(nat \<Rightarrow> 'a) \<Rightarrow> MatrixDimensions \<Rightarrow> (u64 \<times> u64) list \<Rightarrow> nat \<Rightarrow> 'a SparseMatrixCSR" where
  "built val D ps r =
     \<lparr>CSR_Dimensions = D, Values = map val [0..<length ps], ColumnIndex = map snd ps,
      RowIndex = map (\<lambda>k. of_nat (before_row ps k)) [0..<Suc r]\<rparr>"

lemma push_row:
  assumes "\<And>p. p \<in> set ps \<Longrightarrow> unat (fst p) \<le> r"
  shows "(built val D ps r)\<lparr>RowIndex := RowIndex (built val D ps r) @ [of_nat (length (ColumnIndex (built val D ps r)))]\<rparr>
    = built val D ps (Suc r)"
proof -
  have "before_row ps (Suc r) = length ps" using assms by (intro before_row_all) (simp add: less_Suc_eq_le)
  then show ?thesis by (simp add: built_def)
qed

lemma length_row_index: "Suc r < 2 ^ 64 \<Longrightarrow> of_nat (length (RowIndex (built val D ps r))) - 1 = (of_nat r :: u64)"
  by (simp add: built_def)

lemma fill_below_built:
  assumes "r \<le> unat i" "\<And>p. p \<in> set ps \<Longrightarrow> unat (fst p) \<le> r" "unat i + 1 < 2 ^ 64"
  shows "fill_below i (built val D ps r) = built val D ps (unat i)"
  using assms(1,2)
proof (induction "unat i - r" arbitrary: r)
  case 0
  then have r: "r = unat i" by simp
  then have "of_nat (length (RowIndex (built val D ps r))) - 1 = i"
    using length_row_index [of r val D ps] assms(3) by simp
  then show ?case by (subst fill_below.simps) (simp add: r)
next
  case (Suc d)
  then have lt: "r < unat i" by simp
  then have "of_nat (length (RowIndex (built val D ps r))) - 1 = (of_nat r :: u64)"
    using assms(3) by (intro length_row_index) simp
  moreover have "unat (of_nat r :: u64) = r" using lt u64_bound [of i] by (simp add: unat_of_nat)
  ultimately have "i > of_nat (length (RowIndex (built val D ps r))) - 1" using lt by (simp add: word_less_nat_alt)
  then have "fill_below i (built val D ps r) = fill_below i (built val D ps (Suc r))"
    by (subst fill_below.simps) (simp add: push_row [OF Suc.prems(2)])
  also have "\<dots> = built val D ps (unat i)"
    by (rule Suc.hyps(1)) (use Suc lt in \<open>auto intro: le_SucI\<close>)
  finally show ?case .
qed

lemma u64_plus_one:
  assumes "unat (n :: u64) + 1 < 2 ^ 64"
  shows "unat (n + 1) = Suc (unat n)"
proof -
  have "unat (n + 1) = unat n + unat (1 :: u64)" by (rule u64_add) (use assms in simp)
  then show ?thesis by simp
qed

lemma row_index_length:
  assumes "Suc r < 2 ^ 64" "s = Suc r"
  shows "unat (of_nat (length (RowIndex (built val D ps r))) :: u64) = s"
proof -
  have "length (RowIndex (built val D ps r)) = s" using assms(2) by (simp add: built_def)
  then show ?thesis using assms by (simp only: unat_of_nat) simp
qed

lemma fill_up_built:
  assumes "r \<le> unat n" "\<And>p. p \<in> set ps \<Longrightarrow> unat (fst p) \<le> r" "unat n + 1 < 2 ^ 64"
  shows "fill_up n (built val D ps r) = built val D ps (unat n)"
  using assms(1,2)
proof (induction "unat n - r" arbitrary: r)
  case 0
  then have r: "r = unat n" by simp
  have "unat (of_nat (length (RowIndex (built val D ps r))) :: u64) = Suc (unat n)"
    by (rule row_index_length) (use assms(3) in \<open>simp_all add: r\<close>)
  moreover have "unat (n + 1) = Suc (unat n)" using assms(3) by (rule u64_plus_one)
  ultimately have "\<not> of_nat (length (RowIndex (built val D ps r))) < n + 1"
    by (simp only: word_less_nat_alt less_irrefl not_False_eq_True)
  then show ?case by (subst fill_up.simps) (simp only: if_False r)
next
  case (Suc d)
  then have lt: "r < unat n" by simp
  have "unat (of_nat (length (RowIndex (built val D ps r))) :: u64) = Suc r"
    by (rule row_index_length) (use assms(3) lt in simp_all)
  moreover have "unat (n + 1) = Suc (unat n)" using assms(3) by (rule u64_plus_one)
  ultimately have "of_nat (length (RowIndex (built val D ps r))) < n + 1"
    using lt by (simp only: word_less_nat_alt Suc_less_eq)
  then have "fill_up n (built val D ps r) = fill_up n (built val D ps (Suc r))"
    by (subst fill_up.simps) (simp add: push_row [OF Suc.prems(2)])
  also have "\<dots> = built val D ps (unat n)"
    by (rule Suc.hyps(1)) (use Suc lt in \<open>auto intro: le_SucI\<close>)
  finally show ?case .
qed

text \<open>One place after another, in the order of their rows.\<close>

lemma push_place:
  assumes "\<And>p. p \<in> set ps \<Longrightarrow> unat (fst p) \<le> unat i"
  shows "(built val D ps (unat i))\<lparr>Values := Values (built val D ps (unat i)) @ [val (length (Values (built val D ps (unat i))))],
      ColumnIndex := ColumnIndex (built val D ps (unat i)) @ [j]\<rparr> = built val D (ps @ [(i, j)]) (unat i)"
  by (auto simp: built_def before_row_append before_row_def)

definition add_place :: "(nat \<Rightarrow> 'a) \<Rightarrow> u64 \<times> u64 \<Rightarrow> 'a SparseMatrixCSR \<Rightarrow> 'a SparseMatrixCSR" where
  "add_place val = (\<lambda>(i, j) out.
     let out = fill_below i out
     in out\<lparr>Values := Values out @ [val (length (Values out))], ColumnIndex := ColumnIndex out @ [j]\<rparr>)"

lemma add_places:
  assumes "sorted (map fst (ps @ qs))" "\<And>p. p \<in> set ps \<Longrightarrow> unat (fst p) \<le> r"
    "\<And>q. q \<in> set qs \<Longrightarrow> r \<le> unat (fst q) \<and> unat (fst q) < unat n" "unat n + 1 < 2 ^ 64" "r \<le> unat n"
  shows "\<exists>r'. fold (add_place val) qs (built val D ps r) = built val D (ps @ qs) r' \<and> r' \<le> unat n
    \<and> (\<forall>p \<in> set (ps @ qs). unat (fst p) \<le> r')"
  using assms
proof (induction qs arbitrary: ps r)
  case Nil
  then show ?case by auto
next
  case (Cons q qs)
  obtain i j where q: "q = (i, j)" by (cases q)
  have i: "r \<le> unat i" "unat i < unat n" using Cons.prems(3) [of q] by (simp_all add: q)
  have le: "unat (fst p) \<le> unat i" if "p \<in> set ps" for p using Cons.prems(2) [OF that] i(1) by simp
  have "add_place val q (built val D ps r) = built val D (ps @ [q]) (unat i)"
    unfolding add_place_def q Let_def split_conv
    using i Cons.prems(2,4) le by (simp add: fill_below_built push_place)
  moreover have "\<exists>r'. fold (add_place val) qs (built val D (ps @ [q]) (unat i)) = built val D ((ps @ [q]) @ qs) r'
      \<and> r' \<le> unat n \<and> (\<forall>p \<in> set ((ps @ [q]) @ qs). unat (fst p) \<le> r')"
  proof (rule Cons.IH)
    show "sorted (map fst ((ps @ [q]) @ qs))" using Cons.prems(1) by simp
    show "unat (fst p) \<le> unat i" if "p \<in> set (ps @ [q])" for p using that le [of p] by (auto simp: q)
    show "unat i \<le> unat (fst p) \<and> unat (fst p) < unat n" if "p \<in> set qs" for p
    proof -
      have "i \<le> fst p" using that Cons.prems(1) by (auto simp: q sorted_append)
      then show ?thesis using that Cons.prems(3) [of p] by (simp add: word_le_nat_alt)
    qed
    show "unat n + 1 < 2 ^ 64" "unat i \<le> unat n" using Cons.prems(4) i(2) by simp_all
  qed
  ultimately show ?case by simp
qed

lemma sorted_fst: "sorted (ps :: (u64 \<times> u64) list) \<Longrightarrow> sorted (map fst ps)"
  by (induction ps) (auto simp: less_eq_prod_def)

lemma GenSparseMatrix_built:
  assumes "\<And>p. p \<in> set positions \<Longrightarrow> fst p < n" "unat n + 1 < 2 ^ 64"
  shows "GenSparseMatrix val positions n m = built val \<lparr>Rows = n, Columns = m\<rparr> (sort positions) (unat n)"
proof -
  let ?D = "\<lparr>Rows = n, Columns = m\<rparr>"
  have init: "\<lparr>CSR_Dimensions = ?D, Values = [], ColumnIndex = [], RowIndex = [0]\<rparr> = built val ?D [] 0"
    by (simp add: built_def before_row_def)
  have "\<exists>r'. fold (add_place val) (sort positions) (built val ?D [] 0) = built val ?D ([] @ sort positions) r'
      \<and> r' \<le> unat n \<and> (\<forall>p \<in> set ([] @ sort positions). unat (fst p) \<le> r')"
    by (rule add_places) (use assms in \<open>auto simp: sorted_fst word_less_nat_alt\<close>)
  then obtain r' where r: "fold (add_place val) (sort positions) (built val ?D [] 0) = built val ?D (sort positions) r'"
    "r' \<le> unat n" "\<forall>p \<in> set (sort positions). unat (fst p) \<le> r'" by auto
  have "GenSparseMatrix val positions n m = fill_up n (fold (add_place val) (sort positions) (built val ?D [] 0))"
    by (simp add: GenSparseMatrix_def init add_place_def [abs_def])
  also have "\<dots> = built val ?D (sort positions) (unat n)"
    unfolding r(1) using r(2,3) assms(2) by (intro fill_up_built) auto
  finally show ?thesis .
qed

section \<open>The matrix\<close>

lemma filter_below_take:
  "sorted (map fst ps) \<Longrightarrow> filter (\<lambda>p. unat (fst p) < k) ps = take (before_row ps k) (ps :: (u64 \<times> u64) list)"
proof (induction ps)
  case (Cons p ps)
  show ?case
  proof (cases "unat (fst p) < k")
    case True
    with Cons show ?thesis by (simp add: before_row_def)
  next
    case False
    have "\<not> unat (fst q) < k" if "q \<in> set ps" for q
      using Cons.prems that False by (fastforce simp: word_le_nat_alt)
    then have "filter (\<lambda>p. unat (fst p) < k) (p # ps) = []" using False by (auto simp: filter_empty_conv)
    then show ?thesis by (simp add: before_row_def)
  qed
qed (simp add: before_row_def)

lemma filter_row:
  assumes "sorted (map fst ps)"
  shows "take (before_row ps (Suc k) - before_row ps k) (drop (before_row ps k) ps)
    = filter (\<lambda>p. unat (fst p) = k) (ps :: (u64 \<times> u64) list)"
proof -
  have "filter (\<lambda>p. unat (fst p) < Suc k) ps
      = filter (\<lambda>p. unat (fst p) < k) ps @ filter (\<lambda>p. unat (fst p) = k) ps"
    using assms
  proof (induction ps)
    case (Cons p ps)
    have "filter (\<lambda>p. unat (fst p) < k) ps = []" if "unat (fst p) = k"
      using Cons.prems that by (fastforce simp: filter_empty_conv word_le_nat_alt)
    with Cons show ?case by (auto simp: less_Suc_eq)
  qed simp
  then have "take (before_row ps (Suc k)) ps = take (before_row ps k) ps @ filter (\<lambda>p. unat (fst p) = k) ps"
    by (simp only: filter_below_take [OF assms])
  moreover have "length (take (before_row ps k) ps) = before_row ps k" by (simp add: before_row_le min_absorb2)
  ultimately have "drop (before_row ps k) (take (before_row ps (Suc k)) ps) = filter (\<lambda>p. unat (fst p) = k) ps"
    by (metis append_eq_conv_conj)
  then show ?thesis by (simp only: take_drop le_add_diff_inverse2 before_row_mono le_SucI order.refl)
qed

text \<open>
  From any list of places inside an n by m matrix, in any order, the builder makes a well-formed
  sparse matrix that has in each row exactly the columns of the places of that row, in order.
\<close>

lemma GenSparseMatrix_csr:
  assumes "\<forall>p \<in> set positions. fst p < n \<and> snd p < m" "unat n + 1 < 2 ^ 64" "length positions < 2 ^ 64"
  shows "csr_ok (GenSparseMatrix val positions n m) \<and>
    (\<forall>k < unat n. map snd (csr_row (GenSparseMatrix val positions n m) k)
       = map snd (filter (\<lambda>p. unat (fst p) = k) (sort positions)))"
proof -
  let ?ps = "sort positions" and ?D = "\<lparr>Rows = n, Columns = m\<rparr>"
  have S: "GenSparseMatrix val positions n m = built val ?D ?ps (unat n)"
    using assms by (intro GenSparseMatrix_built) auto
  have u: "unat (of_nat (before_row ?ps k) :: u64) = before_row ?ps k" for k
    using before_row_le [of ?ps k] assms(3) by (simp add: unat_of_nat)
  have "csr_ok (built val ?D ?ps (unat n))"
    unfolding csr_ok_def built_def using assms(1,2) before_row_le [of ?ps]
    by (auto simp: nth_append u word_le_nat_alt before_row_mono simp del: upt_Suc)
  moreover have "map snd (csr_row (built val ?D ?ps (unat n)) k) = map snd (filter (\<lambda>p. unat (fst p) = k) ?ps)"
    if k: "k < unat n" for k
  proof -
    have "map snd (csr_row (built val ?D ?ps (unat n)) k)
        = take (before_row ?ps (Suc k) - before_row ?ps k) (drop (before_row ?ps k) (map snd ?ps))"
      unfolding csr_row_def built_def Let_def using k
      by (simp add: u take_map [symmetric] drop_map [symmetric] del: upt_Suc)
    then show ?thesis using filter_row [OF sorted_fst [OF sorted_sort [of positions]], of k]
      by (simp add: take_map drop_map)
  qed
  ultimately show ?thesis by (simp add: S)
qed

lemma GenSparseMatrix_csr_example:
  "csr_ok (GenSparseMatrix (\<lambda>k. k) [(2, 0), (0, 1), (2, 3)] 3 4)
    \<and> map snd (csr_row (GenSparseMatrix (\<lambda>k. k) [(2, 0), (0, 1), (2, 3)] 3 4) 2) = [0, 3]"
proof -
  have "map snd (filter (\<lambda>p. unat (fst p) = 2) (sort [(2 :: u64, 0 :: u64), (0, 1), (2, 3)])) = [0, 3]" by code_simp
  then show ?thesis
    using GenSparseMatrix_csr [of "[(2, 0), (0, 1), (2, 3)]" 3 4 "\<lambda>k. k"] by simp
qed

end
