(* ===== verification/Sparse_Kinds.thy ===== *)
theory Sparse_Kinds
  imports Sparse_Builder Complex_Main
begin

text \<open>
  The generators of src/include/benchmarks/spmv.h: the places of the elements of a sparse matrix for each of the
  three kinds, \<open>GenSparseMatrix\<close> with its assertion, \<open>GenVector\<close> and \<open>GenDenseMatrix\<close>.  The number of elements
  planned for a row, which the code computes in floating point, and what the random generator yields are
  arguments: \<open>gen k b\<close> is the \<open>k\<close>-th number drawn when the largest allowed one is \<open>b\<close>.
\<close>

section \<open>The places\<close>

datatype SparseKind = BALANCED | TRIANGLE | HYPERBOLIC

type_synonym drawn = "nat \<times> (u64 \<times> u64) list"

partial_function (option) hyperbolic_row ::
  "(nat \<Rightarrow> u64 \<Rightarrow> u64) \<Rightarrow> u64 \<Rightarrow> u64 \<Rightarrow> u64 \<Rightarrow> u64 \<Rightarrow> drawn \<Rightarrow> drawn option" where
  "hyperbolic_row gen m step i j s =
     (if j < m then
        hyperbolic_row gen m step i (j + step)
          (let pos = gen (fst s) (step - 1) in (Suc (fst s), snd s @ [(i, min (j + pos) (m - 1))]))
      else Some s)"

definition hyperbolic_round :: "(nat \<Rightarrow> u64 \<Rightarrow> u64) \<Rightarrow> (u64 \<Rightarrow> u64) \<Rightarrow> u64 \<Rightarrow> u64 \<Rightarrow> drawn \<Rightarrow> drawn option" where
  "hyperbolic_round gen elementsCount m i s =
     (if elementsCount i = 0 then Some s
      else let step = max (m div elementsCount i) 1 in hyperbolic_row gen m step i 0 s)"

partial_function (option) triangle_row ::
  "(nat \<Rightarrow> u64 \<Rightarrow> u64) \<Rightarrow> u64 \<Rightarrow> u64 \<Rightarrow> u64 \<Rightarrow> u64 \<Rightarrow> drawn \<Rightarrow> drawn option" where
  "triangle_row gen width step i j s =
     (if j \<le> width then
        triangle_row gen width step i (j + step)
          (let pos = gen (fst s) (step - 1) in (Suc (fst s), snd s @ [(i, min (j + pos) width)]))
      else Some s)"

definition triangle_round :: "(nat \<Rightarrow> u64 \<Rightarrow> u64) \<Rightarrow> (u64 \<Rightarrow> u64) \<Rightarrow> u64 \<Rightarrow> u64 \<Rightarrow> drawn \<Rightarrow> drawn option" where
  "triangle_round gen elementsCount m i s =
     (let width = min i (m - 1)
      in if elementsCount i = 0 then Some s
         else let step = max (width div elementsCount i) 1 in triangle_row gen width step i 0 s)"

definition positions_of ::
  "SparseKind \<Rightarrow> (nat \<Rightarrow> u64 \<Rightarrow> u64) \<Rightarrow> (u64 \<Rightarrow> u64) \<Rightarrow> u64 \<Rightarrow> u64 \<Rightarrow> (u64 \<times> u64) list option" where
  "positions_of kind gen elementsCount n m =
     (case kind of
        BALANCED \<Rightarrow> balanced_positions (\<lambda>k. gen k (STEP - 1)) n m
      | HYPERBOLIC \<Rightarrow> map_option snd (for_neq (hyperbolic_round gen elementsCount m) 0 n (0, []))
      | TRIANGLE \<Rightarrow> map_option snd (for_neq (triangle_round gen elementsCount m) 0 n (0, [])))"

text \<open>The whole function; \<open>None\<close> is the failed assertion (or a loop that does not end).\<close>

definition GenSparseMatrix_of ::
  "SparseKind \<Rightarrow> (nat \<Rightarrow> u64 \<Rightarrow> u64) \<Rightarrow> (u64 \<Rightarrow> u64) \<Rightarrow> (nat \<Rightarrow> 'a) \<Rightarrow> u64 \<Rightarrow> u64 \<Rightarrow> rat \<Rightarrow> 'a SparseMatrixCSR option" where
  "GenSparseMatrix_of kind gen elementsCount val n m density =
     (if 0 \<le> density \<and> density \<le> 1
      then map_option (\<lambda>positions. GenSparseMatrix val positions n m) (positions_of kind gen elementsCount n m)
      else None)"

text \<open>The generators of vectors and dense matrices; \<open>val k\<close> is the number generated as the one numbered \<open>k\<close>.\<close>

definition GenVector :: "(nat \<Rightarrow> 'a) \<Rightarrow> u64 \<Rightarrow> 'a list" where
  "GenVector val m = map val [0..<unat m]"

definition GenDenseMatrix :: "(nat \<Rightarrow> 'a::zero) \<Rightarrow> u64 \<Rightarrow> u64 \<Rightarrow> 'a DenseMatrix" where
  "GenDenseMatrix val rows cols =
     (let out = new_DenseMatrix rows cols
      in out\<lparr>Data := snd (fold (\<lambda>row (k, rs). (k + length row, rs @ [map (\<lambda>c. val (k + c)) [0..<length row]]))
           (Data out) (0, []))\<rparr>)"

section \<open>A row\<close>

text \<open>
  A row of places at the columns of a grid of width \<open>step\<close> from \<open>j\<close> to \<open>last_col\<close>, each moved by less than a step.
\<close>

definition grid_row :: "u64 \<Rightarrow> u64 \<Rightarrow> u64 \<Rightarrow> u64 \<Rightarrow> (u64 \<times> u64) list \<Rightarrow> bool" where
  "grid_row step last_col i j qs \<longleftrightarrow> (\<forall>q \<in> set qs. fst q = i \<and> j \<le> snd q \<and> snd q \<le> last_col) \<and> sorted_wrt (<) (map snd qs) \<and>
     length qs = (if j \<le> last_col then (unat last_col - unat j) div unat step + 1 else 0)"

lemma grid_step:
  assumes g: "g \<le> step - 1" and step: "0 < step" and fits: "unat last_col + unat step < 2 ^ 64"
    and j: "j \<le> last_col" and qs: "grid_row step last_col i (j + step) qs"
  shows "grid_row step last_col i j ((i, min (j + g) last_col) # qs)"
proof -
  let ?c = "min (j + g) last_col"
  have uj: "unat (j + step) = unat j + unat step"
    by (rule u64_add) (use fits j in \<open>simp add: word_le_nat_alt\<close>)
  have "unat (step - 1) = unat step - 1" using step by (simp add: unat_minus_one)
  then have ug: "unat g < unat step" using g step unat_gt_0 [of step] by (simp add: word_le_nat_alt word_less_nat_alt)
  have ujg: "unat (j + g) = unat j + unat g"
    by (rule u64_add) (use fits j ug in \<open>simp add: word_le_nat_alt\<close>)
  have "j \<le> j + g" by (simp add: word_le_nat_alt ujg)
  then have c: "j \<le> ?c" "?c \<le> last_col" using j by simp_all
  have le: "?c < snd q" if "q \<in> set qs" for q
  proof -
    have "?c \<le> j + g" by simp
    moreover have "j + g < j + step" by (simp add: word_less_nat_alt uj ujg ug)
    moreover have "j + step \<le> snd q" using qs that by (auto simp: grid_row_def)
    ultimately show ?thesis by (meson le_less_trans less_le_trans)
  qed
  have "length qs + 1 = (unat last_col - unat j) div unat step + 1"
  proof (cases "j + step \<le> last_col")
    case True
    then have "unat last_col - unat j = (unat last_col - unat (j + step)) + unat step"
      by (simp add: word_le_nat_alt uj)
    then show ?thesis using True qs step unat_gt_0 [of step] by (simp add: grid_row_def word_less_nat_alt)
  next
    case False
    then have "unat last_col - unat j < unat step" using j by (simp add: word_le_nat_alt uj)
    then show ?thesis using False qs by (simp add: grid_row_def)
  qed
  moreover have "\<forall>q \<in> set qs. fst q = i \<and> j \<le> snd q \<and> snd q \<le> last_col"
    using qs le c(1) unfolding grid_row_def by (meson le_less_trans less_imp_le)
  ultimately show ?thesis using qs le c j by (auto simp: grid_row_def)
qed

text \<open>Any loop that makes these places.\<close>

lemma grid_loop:
  fixes f :: "u64 \<Rightarrow> drawn \<Rightarrow> drawn option"
  assumes f: "\<And>j c ps. f j (c, ps) =
      (if j \<le> last_col then f (j + step) (Suc c, ps @ [(i, min (j + gen c (step - 1)) last_col)]) else Some (c, ps))"
    and gen: "\<forall>k b. gen k b \<le> b" and step: "0 < step" and fits: "unat last_col + unat step < 2 ^ 64"
  shows "\<exists>qs. f j (c, ps) = Some (c + length qs, ps @ qs) \<and> grid_row step last_col i j qs"
proof (induction "Suc (unat last_col) - unat j" arbitrary: j c ps rule: less_induct)
  case less
  show ?case
  proof (cases "j \<le> last_col")
    case False
    then show ?thesis using f [of j c ps] by (intro exI [of _ "[]"]) (simp add: grid_row_def)
  next
    case True
    let ?q = "(i, min (j + gen c (step - 1)) last_col)"
    have "unat (j + step) = unat j + unat step"
      by (rule u64_add) (use fits True in \<open>simp add: word_le_nat_alt\<close>)
    then have "Suc (unat last_col) - unat (j + step) < Suc (unat last_col) - unat j"
      using True step unat_gt_0 [of step] by (simp add: word_le_nat_alt word_less_nat_alt)
    from less.hyps [OF this, of "Suc c" "ps @ [?q]"] obtain qs where
      qs: "f (j + step) (Suc c, ps @ [?q]) = Some (Suc c + length qs, (ps @ [?q]) @ qs)" "grid_row step last_col i (j + step) qs"
      by blast
    from grid_step [OF gen [rule_format] step fits True qs(2)] have "grid_row step last_col i j (?q # qs)" .
    moreover have "f j (c, ps) = Some (c + length (?q # qs), ps @ (?q # qs))" using f [of j c ps] True qs(1) by simp
    ultimately show ?thesis by blast
  qed
qed

section \<open>The three kinds\<close>

text \<open>The number of places a row gets, and the last column it may use.\<close>

definition row_step :: "SparseKind \<Rightarrow> (u64 \<Rightarrow> u64) \<Rightarrow> u64 \<Rightarrow> u64 \<Rightarrow> u64" where
  "row_step kind elementsCount m i =
     (case kind of
        BALANCED \<Rightarrow> STEP
      | HYPERBOLIC \<Rightarrow> max (m div elementsCount i) 1
      | TRIANGLE \<Rightarrow> max (min i (m - 1) div elementsCount i) 1)"

definition row_last :: "SparseKind \<Rightarrow> u64 \<Rightarrow> u64 \<Rightarrow> u64" where
  "row_last kind m i = (case kind of TRIANGLE \<Rightarrow> min i (m - 1) | _ \<Rightarrow> m - 1)"

definition row_size :: "SparseKind \<Rightarrow> (u64 \<Rightarrow> u64) \<Rightarrow> u64 \<Rightarrow> u64 \<Rightarrow> nat" where
  "row_size kind elementsCount m i =
     (if kind \<noteq> BALANCED \<and> elementsCount i = 0 then 0
      else unat (row_last kind m i) div unat (row_step kind elementsCount m i) + 1)"

definition row_places :: "SparseKind \<Rightarrow> (u64 \<Rightarrow> u64) \<Rightarrow> u64 \<Rightarrow> u64 \<Rightarrow> (u64 \<times> u64) list \<Rightarrow> bool" where
  "row_places kind elementsCount m i qs \<longleftrightarrow> (\<forall>q \<in> set qs. fst q = i \<and> snd q \<le> row_last kind m i) \<and>
     sorted_wrt (<) (map snd qs) \<and> length qs = row_size kind elementsCount m i"

definition round_of :: "SparseKind \<Rightarrow> (nat \<Rightarrow> u64 \<Rightarrow> u64) \<Rightarrow> (u64 \<Rightarrow> u64) \<Rightarrow> u64 \<Rightarrow> u64 \<Rightarrow> drawn \<Rightarrow> drawn option" where
  "round_of kind gen elementsCount m =
     (case kind of
        BALANCED \<Rightarrow> (\<lambda>i. balanced_row (\<lambda>k. gen k (STEP - 1)) m i 0)
      | HYPERBOLIC \<Rightarrow> hyperbolic_round gen elementsCount m
      | TRIANGLE \<Rightarrow> triangle_round gen elementsCount m)"

lemma positions_of_rounds:
  "positions_of kind gen elementsCount n m = map_option snd (foldM (round_of kind gen elementsCount m) (indices 0 n) (0, []))"
  by (cases kind) (simp_all add: positions_of_def round_of_def balanced_positions_def for_neq_indices)

lemma grid_places:
  assumes "grid_row (row_step kind elementsCount m i) (row_last kind m i) i 0 qs" "kind = BALANCED \<or> elementsCount i \<noteq> 0"
  shows "row_places kind elementsCount m i qs"
  using assms by (auto simp: grid_row_def row_places_def row_size_def)

lemma less_pred: "0 < m \<Longrightarrow> j < m \<longleftrightarrow> j \<le> m - (1 :: u64)"
proof -
  assume "0 < m"
  then have "unat (m - 1) = unat m - 1" "0 < unat m" by (simp_all add: unat_minus_one unat_gt_0)
  then show ?thesis unfolding word_le_nat_alt word_less_nat_alt by linarith
qed

lemma max_div_le: "0 < m \<Longrightarrow> max (m div k) 1 \<le> (m :: u64)"
proof -
  assume "0 < m"
  then have "1 \<le> m" by (simp add: word_le_nat_alt word_less_nat_alt Suc_le_eq)
  moreover have "m div k \<le> m" by (simp add: word_le_nat_alt unat_div)
  ultimately show ?thesis by simp
qed

lemma row_step_bound:
  assumes "0 < m" "unat m < 2 ^ 63"
  shows "0 < row_step kind elementsCount m i" "unat (row_last kind m i) + unat (row_step kind elementsCount m i) < 2 ^ 64"
proof -
  show "0 < row_step kind elementsCount m i" by (cases kind) (simp_all add: row_step_def STEP_def less_max_iff_disj)
  have last_m: "row_last kind m i < m"
    unfolding less_pred [OF assms(1)] by (cases kind) (simp_all add: row_last_def)
  have "row_step kind elementsCount m i \<le> max m 9"
  proof (cases kind)
    case BALANCED
    then show ?thesis by (simp add: row_step_def STEP_def)
  next
    case HYPERBOLIC
    then show ?thesis using max_div_le [OF assms(1), of "elementsCount i"] by (simp add: row_step_def le_max_iff_disj)
  next
    case TRIANGLE
    have "min i (m - 1) div elementsCount i \<le> min i (m - 1)" by (simp add: word_le_nat_alt unat_div)
    moreover have "min i (m - 1) < m" unfolding less_pred [OF assms(1)] by simp
    ultimately have "min i (m - 1) div elementsCount i \<le> m" by (meson le_less_trans less_imp_le)
    then have "min i (m - 1) div elementsCount i \<le> max m 9" "1 \<le> max m (9 :: u64)" by (simp_all add: le_max_iff_disj)
    then show ?thesis using TRIANGLE by (simp add: row_step_def)
  qed
  then have "unat (row_step kind elementsCount m i) \<le> max (unat m) 9" by (simp add: word_le_nat_alt max_def split: if_splits)
  then show "unat (row_last kind m i) + unat (row_step kind elementsCount m i) < 2 ^ 64"
    using last_m assms(2) unfolding word_less_nat_alt by simp
qed

lemma row_equations:
  assumes "0 < m"
  shows "balanced_row g m i j (c, ps) =
      (if j \<le> m - 1 then balanced_row g m i (j + STEP) (Suc c, ps @ [(i, min (j + g c) (m - 1))]) else Some (c, ps))"
    "hyperbolic_row gen m step i j (c, ps) =
      (if j \<le> m - 1 then hyperbolic_row gen m step i (j + step) (Suc c, ps @ [(i, min (j + gen c (step - 1)) (m - 1))])
       else Some (c, ps))"
    "triangle_row gen width step i j (c, ps) =
      (if j \<le> width then triangle_row gen width step i (j + step) (Suc c, ps @ [(i, min (j + gen c (step - 1)) width)])
       else Some (c, ps))"
  by (subst balanced_row.simps hyperbolic_row.simps triangle_row.simps, simp add: less_pred [OF assms])+

lemma drawn_round:
  assumes gen: "\<forall>k b. gen k b \<le> b" and m: "0 < m" "unat m < 2 ^ 63"
  shows "\<exists>qs. round_of kind gen elementsCount m i (c, ps) = Some (c + length qs, ps @ qs) \<and> row_places kind elementsCount m i qs"
proof -
  let ?step = "row_step kind elementsCount m i" and ?last = "row_last kind m i"
  note loop = grid_loop [where step = ?step and last_col = ?last and i = i and gen = gen, OF _ gen row_step_bound [OF m]]
  show ?thesis
  proof (cases "kind \<noteq> BALANCED \<and> elementsCount i = 0")
    case True
    then have "round_of kind gen elementsCount m i (c, ps) = Some (c, ps)"
      by (cases kind) (simp_all add: round_of_def hyperbolic_round_def triangle_round_def)
    then show ?thesis using True by (intro exI [of _ "[]"]) (simp add: row_places_def row_size_def)
  next
    case False
    obtain f where f: "round_of kind gen elementsCount m i = f 0"
      "\<And>j c ps. f j (c, ps) = (if j \<le> ?last then f (j + ?step) (Suc c, ps @ [(i, min (j + gen c (?step - 1)) ?last)]) else Some (c, ps))"
    proof (cases kind)
      case BALANCED
      show thesis
      proof (rule that [of "balanced_row (\<lambda>k. gen k (STEP - 1)) m i"])
        show "round_of kind gen elementsCount m i = balanced_row (\<lambda>k. gen k (STEP - 1)) m i 0"
          using False by (simp add: BALANCED round_of_def row_step_def)
        show "balanced_row (\<lambda>k. gen k (STEP - 1)) m i j (c, ps) = (if j \<le> ?last then balanced_row (\<lambda>k. gen k (STEP - 1)) m i (j + ?step) (Suc c, ps @ [(i, min (j + gen c (?step - 1)) ?last)]) else Some (c, ps))"
          for j c ps
          using row_equations(1) [OF m(1), of "\<lambda>k. gen k (STEP - 1)" i j c ps] by (simp add: BALANCED row_last_def row_step_def)
      qed
    next
      case HYPERBOLIC
      show thesis
      proof (rule that [of "hyperbolic_row gen m ?step i"])
        show "round_of kind gen elementsCount m i = hyperbolic_row gen m ?step i 0"
          using False by (simp add: HYPERBOLIC round_of_def row_step_def fun_eq_iff hyperbolic_round_def Let_def)
        show "hyperbolic_row gen m ?step i j (c, ps) = (if j \<le> ?last then hyperbolic_row gen m ?step i (j + ?step) (Suc c, ps @ [(i, min (j + gen c (?step - 1)) ?last)]) else Some (c, ps))"
          for j c ps
          using row_equations(2) [OF m(1), of gen ?step i j c ps] by (simp add: HYPERBOLIC row_last_def row_step_def)
      qed
    next
      case TRIANGLE
      show thesis
      proof (rule that [of "triangle_row gen (min i (m - 1)) ?step i"])
        show "round_of kind gen elementsCount m i = triangle_row gen (min i (m - 1)) ?step i 0"
          using False by (simp add: TRIANGLE round_of_def row_step_def fun_eq_iff triangle_round_def Let_def)
        show "triangle_row gen (min i (m - 1)) ?step i j (c, ps) = (if j \<le> ?last then triangle_row gen (min i (m - 1)) ?step i (j + ?step) (Suc c, ps @ [(i, min (j + gen c (?step - 1)) ?last)]) else Some (c, ps))"
          for j c ps
          using row_equations(3) [OF m(1), of gen "min i (m - 1)" ?step i j c ps] by (simp add: TRIANGLE row_last_def row_step_def)
      qed
    qed
    from loop [OF f(2), of 0 c ps] show ?thesis using grid_places [of kind elementsCount m i] False f(1) by auto
  qed
qed

section \<open>All rows\<close>

lemma rounds_places:
  assumes gen: "\<forall>k b. gen k b \<le> b" and m: "0 < m" "unat m < 2 ^ 63"
  shows "\<exists>c' qss. foldM (round_of kind gen elementsCount m) ks (c, ps) = Some (c', ps @ concat qss)
    \<and> list_all2 (row_places kind elementsCount m) ks qss"
proof (induction ks arbitrary: c ps)
  case Nil
  show ?case by (intro exI [of _ c] exI [of _ "[]"]) simp
next
  case (Cons i ks)
  from drawn_round [OF gen m] obtain qs where qs: "round_of kind gen elementsCount m i (c, ps) = Some (c + length qs, ps @ qs)"
    "row_places kind elementsCount m i qs" by blast
  from Cons.IH [of "c + length qs" "ps @ qs"] obtain c' qss where
    "foldM (round_of kind gen elementsCount m) ks (c + length qs, ps @ qs) = Some (c', (ps @ qs) @ concat qss)"
    "list_all2 (row_places kind elementsCount m) ks qss" by blast
  then show ?case using qs by (intro exI [of _ c'] exI [of _ "qs # qss"]) simp
qed

lemma places_members:
  "list_all2 (row_places kind elementsCount m) ks qss \<Longrightarrow> q \<in> set (concat qss) \<Longrightarrow>
    fst q \<in> set ks \<and> snd q \<le> row_last kind m (fst q)"
proof (induction ks qss rule: list_all2_induct)
  case (Cons i ks qs qss)
  then show ?case by (cases "q \<in> set qs") (auto simp: row_places_def)
qed simp

lemma places_row:
  "list_all2 (row_places kind elementsCount m) ks qss \<Longrightarrow> distinct ks \<Longrightarrow> i \<in> set ks \<Longrightarrow>
    row_places kind elementsCount m i (filter (\<lambda>q. fst q = i) (concat qss))"
proof (induction ks qss rule: list_all2_induct)
  case (Cons k ks qs qss)
  have other: "filter (\<lambda>q. fst q = i) (concat qss) = []" if "i \<notin> set ks"
    using places_members [OF Cons.hyps(2)] that by (auto simp: filter_empty_conv)
  have own: "filter (\<lambda>q. fst q = i) qs = (if i = k then qs else [])"
    using Cons.hyps(1) by (auto simp: row_places_def filter_id_conv filter_empty_conv)
  show ?case
  proof (cases "i = k")
    case True
    then show ?thesis using Cons.prems(1) Cons.hyps(1) own other by simp
  next
    case False
    then show ?thesis using Cons.prems Cons.IH own by simp
  qed
qed simp

lemma places_sorted:
  "list_all2 (row_places kind elementsCount m) ks qss \<Longrightarrow> sorted_wrt (<) ks \<Longrightarrow> sorted_wrt (<) (concat qss)"
proof (induction ks qss rule: list_all2_induct)
  case (Cons k ks qs qss)
  have "sorted_wrt (<) qs"
  proof (rule sorted_wrt_mono_rel)
    show "sorted_wrt (\<lambda>p q. snd p < snd q) qs" using Cons.hyps(1) by (simp add: row_places_def sorted_wrt_map)
    show "p < q" if "p \<in> set qs" "q \<in> set qs" "snd p < snd q" for p q
    proof -
      have "fst p = fst q" using that Cons.hyps(1) by (simp add: row_places_def)
      then show ?thesis using that(3) by (simp add: less_prod_def)
    qed
  qed
  moreover have "q < r" if "q \<in> set qs" "r \<in> set (concat qss)" for q r
    using places_members [OF Cons.hyps(2) that(2)] that(1) Cons.hyps(1) Cons.prems by (auto simp: row_places_def less_prod_def)
  ultimately show ?case using Cons by (auto simp: sorted_wrt_append)
qed simp

lemma sorted_indices: "sorted_wrt (<) (indices 0 n)"
proof -
  have "(of_nat i :: u64) < of_nat j" if "i < j" "j < unat n" for i j
  proof -
    have "j < 2 ^ 64" using that u64_bound [of n] by simp
    then have "unat (of_nat i :: u64) = i" "unat (of_nat j :: u64) = j" using that by (simp_all add: unat_of_nat)
    then show ?thesis using that by (simp add: word_less_nat_alt)
  qed
  then show ?thesis unfolding indices_def sorted_wrt_map
    by (intro sorted_wrt_mono_rel [OF _ sorted_wrt_upt]) auto
qed

text \<open>
  The places of every kind: without repetition in the order in which they are sorted, with the planned number in each row.
\<close>

lemma positions_places:
  assumes gen: "\<forall>k b. gen k b \<le> b" and m: "0 < m" "unat m < 2 ^ 63"
  shows "\<exists>ps. positions_of kind gen elementsCount n m = Some ps \<and> sorted_wrt (<) ps \<and>
    (\<forall>p \<in> set ps. fst p < n \<and> snd p < m) \<and> (\<forall>i < n. row_places kind elementsCount m i (filter (\<lambda>p. fst p = i) ps))"
proof -
  from rounds_places [OF gen m, of kind elementsCount "indices 0 n" 0 "[]"] obtain c' qss where
    qss: "foldM (round_of kind gen elementsCount m) (indices 0 n) (0, []) = Some (c', concat qss)"
      "list_all2 (row_places kind elementsCount m) (indices 0 n) qss" by auto
  have "row_last kind m i < m" for i unfolding less_pred [OF m(1)] by (cases kind) (simp_all add: row_last_def)
  then have "\<forall>p \<in> set (concat qss). fst p < n \<and> snd p < m"
    using places_members [OF qss(2)] unfolding set_indices by (metis (mono_tags, lifting) le_less_trans mem_Collect_eq)
  moreover have "\<forall>i < n. row_places kind elementsCount m i (filter (\<lambda>p. fst p = i) (concat qss))"
    using places_row [OF qss(2) distinct_indices] by (simp add: set_indices)
  ultimately show ?thesis using qss(1) places_sorted [OF qss(2) sorted_indices] by (simp add: positions_of_rounds)
qed

lemma strict_places:
  assumes "sorted_wrt (<) ps"
  shows "sort ps = ps" "distinct (ps :: (u64 \<times> u64) list)"
proof -
  have "sorted ps \<and> distinct ps" using assms by (simp add: strict_sorted_iff)
  then show "sort ps = ps" "distinct ps" by (simp_all add: sorted_sort_id)
qed

lemma places_fit:
  assumes "distinct ps" "\<forall>p \<in> set ps. fst p < (n :: u64) \<and> snd p < (m :: u64)"
  shows "length ps \<le> unat n * unat m"
proof -
  have "length ps = card (set ps)" using assms(1) by (simp add: distinct_card)
  also have "\<dots> \<le> card (set (indices 0 n) \<times> set (indices 0 m))"
    by (rule card_mono) (use assms(2) in auto)
  also have "\<dots> = unat n * unat m" by (simp add: card_cartesian_product distinct_card distinct_indices)
  finally show ?thesis .
qed

lemma generated_csr:
  assumes gen: "\<forall>k b. gen k b \<le> b" and m: "0 < m" "unat m < 2 ^ 63" and n: "unat n + 1 < 2 ^ 64"
    and fits: "unat n * unat m < 2 ^ 64"
  shows "\<exists>ps. positions_of kind gen elementsCount n m = Some ps \<and> csr_ok (GenSparseMatrix val ps n m) \<and>
    CSR_Dimensions (GenSparseMatrix val ps n m) = \<lparr>Rows = n, Columns = m\<rparr> \<and>
    (\<forall>i < n. \<exists>qs. map snd (csr_row (GenSparseMatrix val ps n m) (unat i)) = map snd qs \<and> row_places kind elementsCount m i qs)"
proof -
  from positions_places [OF gen m, of kind elementsCount n] obtain ps where
    ps: "positions_of kind gen elementsCount n m = Some ps" "sorted_wrt (<) ps" "\<forall>p \<in> set ps. fst p < n \<and> snd p < m"
      "\<forall>i < n. row_places kind elementsCount m i (filter (\<lambda>p. fst p = i) ps)" by blast
  note strict = strict_places [OF ps(2)]
  have len: "length ps < 2 ^ 64" using places_fit [OF strict(2) ps(3)] fits by simp
  note A = GenSparseMatrix_csr [OF ps(3) n len, of val]
  have "map snd (csr_row (GenSparseMatrix val ps n m) (unat i)) = map snd (filter (\<lambda>p. fst p = i) ps)" if "i < n" for i
    using A that strict(1) by (simp add: word_less_nat_alt flip: word_unat_eq_iff)
  moreover have "CSR_Dimensions (GenSparseMatrix val ps n m) = \<lparr>Rows = n, Columns = m\<rparr>"
    using GenSparseMatrix_built [of ps n val m] ps(3) n by (simp add: built_def)
  ultimately show ?thesis using ps(1,4) A by (intro exI [of _ ps]) blast
qed

section \<open>Vectors and dense matrices\<close>

lemma GenVector_length: "length (GenVector val m) = unat m"
  by (simp add: GenVector_def)

lemma GenDenseMatrix_rows:
  "snd (fold (\<lambda>row (k, rs). (k + length row, rs @ [map (\<lambda>c. val (k + c)) [0..<length row]])) (replicate r (replicate c z)) (k, rs))
    = rs @ map (\<lambda>i. map (\<lambda>j. val (k + i * c + j)) [0..<c]) [0..<r]"
proof (induction r arbitrary: k rs)
  case (Suc r)
  have "map f [0..<Suc r] = f 0 # map (\<lambda>i. f (Suc i)) [0..<r]" for f :: "nat \<Rightarrow> 'a list"
    by (simp only: map_upt_Suc)
  then show ?case using Suc [of "k + c"] by (simp add: add.assoc del: upt_Suc)
qed simp

lemma GenDenseMatrix_data:
  "Data (GenDenseMatrix val rows cols) = map (\<lambda>i. map (\<lambda>j. val (i * unat cols + j)) [0..<unat cols]) [0..<unat rows]"
  using GenDenseMatrix_rows [of val "unat rows" "unat cols" 0 0 "[]"] by (simp add: GenDenseMatrix_def new_DenseMatrix_def Let_def)

lemma GenDenseMatrix_ok: "dense_ok (GenDenseMatrix val rows cols)"
  by (simp add: dense_ok_def GenDenseMatrix_data) (auto simp: GenDenseMatrix_def new_DenseMatrix_def Let_def)

section \<open>Property\<close>

text \<open>
  C22: For each of the three kinds, whatever the random generator yields within its bounds and however many elements
  are planned for a row, \<open>GenSparseMatrix\<close> returns a well-formed matrix: no row has two elements in one column, the
  columns ascend, a row has \<open>row_size\<close> elements, and a TRIANGLE has none above its diagonal.  Multiplying it by a generated
  vector stays inside all vectors.
\<close>

theorem generated_matrix:
  assumes "\<forall>k b. gen k b \<le> b" "0 < m" "unat m < 2 ^ 63" "unat n + 1 < 2 ^ 64" "unat n * unat m < 2 ^ 64"
    "0 \<le> density" "density \<le> 1"
  shows "\<exists>A. GenSparseMatrix_of kind gen elementsCount val n m density = Some A \<and> csr_ok A \<and>
    CSR_Dimensions A = \<lparr>Rows = n, Columns = m\<rparr> \<and>
    (\<forall>i < n. sorted_wrt (<) (map snd (csr_row A (unat i))) \<and> length (csr_row A (unat i)) = row_size kind elementsCount m i \<and>
      (\<forall>c \<in> set (map snd (csr_row A (unat i))). c < m \<and> (kind = TRIANGLE \<longrightarrow> c \<le> i)) \<and>
      MultiplyRow A (GenVector val2 m) i = Some (dot (csr_row A (unat i)) (GenVector val2 m)))"
proof -
  from generated_csr [OF assms(1-5), of kind elementsCount val] obtain ps where
    ps: "positions_of kind gen elementsCount n m = Some ps" and ok: "csr_ok (GenSparseMatrix val ps n m)"
      "CSR_Dimensions (GenSparseMatrix val ps n m) = \<lparr>Rows = n, Columns = m\<rparr>"
    and rows: "\<forall>i < n. \<exists>qs. map snd (csr_row (GenSparseMatrix val ps n m) (unat i)) = map snd qs \<and> row_places kind elementsCount m i qs"
    by blast
  let ?A = "GenSparseMatrix val ps n m"
  have row: "sorted_wrt (<) (map snd (csr_row ?A (unat i))) \<and> length (csr_row ?A (unat i)) = row_size kind elementsCount m i \<and>
      (\<forall>c \<in> set (map snd (csr_row ?A (unat i))). c < m \<and> (kind = TRIANGLE \<longrightarrow> c \<le> i))" if "i < n" for i
  proof -
    have "\<exists>qs. map snd (csr_row ?A (unat i)) = map snd qs \<and> row_places kind elementsCount m i qs"
      using rows that by simp
    then obtain qs where qs: "map snd (csr_row ?A (unat i)) = map snd qs" "row_places kind elementsCount m i qs"
      by (elim exE conjE)
    then have "length (csr_row ?A (unat i)) = length qs" by (metis length_map)
    moreover have "row_last kind m i < m" "kind = TRIANGLE \<Longrightarrow> row_last kind m i \<le> i"
      unfolding less_pred [OF assms(2)] by (cases kind; simp add: row_last_def)+
    ultimately show ?thesis
      using qs(2) unfolding qs(1) row_places_def by fastforce
  qed
  have "MultiplyRow ?A (GenVector val2 m) i = Some (dot (csr_row ?A (unat i)) (GenVector val2 m))" if "i < n" for i
    by (rule MultiplyRow_dot [OF ok(1)]) (use ok(2) that in \<open>simp_all add: GenVector_length\<close>)
  then show ?thesis
    using ps ok row assms(6,7) by (intro exI [of _ ?A]) (simp add: GenSparseMatrix_of_def)
qed

text \<open>A TRIANGLE of three rows and four columns with two planned elements per row.\<close>

theorem generated_matrix_witness:
  "\<exists>A. GenSparseMatrix_of TRIANGLE (\<lambda>_ _. 0) (\<lambda>_. 2) (\<lambda>k. int k) 3 4 (1 / 2) = Some A \<and> csr_ok A
    \<and> length (csr_row A 2) = 3 \<and> (\<forall>c \<in> set (map snd (csr_row A 2)). c \<le> 2)"
proof -
  have "row_size TRIANGLE (\<lambda>_. 2) 4 2 = 3" by (simp add: row_size_def row_last_def row_step_def)
  moreover obtain A where A: "GenSparseMatrix_of TRIANGLE (\<lambda>_ _. 0) (\<lambda>_. 2) (\<lambda>k. int k) 3 4 (1 / 2) = Some A" "csr_ok A"
    and rows: "\<forall>i < 3. length (csr_row A (unat i)) = row_size TRIANGLE (\<lambda>_. 2) 4 i \<and> (\<forall>c \<in> set (map snd (csr_row A (unat i))). c \<le> i)"
    using generated_matrix [of "\<lambda>_ _. 0" 4 3 "1 / 2" TRIANGLE "\<lambda>_. 2" "\<lambda>k. int k" "\<lambda>_. 1"] by auto
  moreover have "unat (2 :: u64) = 2" "(2 :: u64) < 3" by simp_all
  ultimately show ?thesis using rows [rule_format, of 2] by metis
qed

end
