(* ===== verification/Dense_Kernels.thy ===== *)
theory Dense_Kernels
  imports Spmv
begin

text \<open>
  The kernels of src/include/benchmarks/spmv.h that write a dense matrix in nested parallel loops: the
  matrix product and the blocked transposition.  Their rounds may be interleaved in any way in which
  each loop by itself is run in an order of its own (Loops.nested\_order).
\<close>

section \<open>The transposition\<close>

definition transpose_block ::
  "'a DenseMatrix \<Rightarrow> u64 \<Rightarrow> u64 \<Rightarrow> u64 \<times> u64 \<Rightarrow> 'a DenseMatrix \<Rightarrow> 'a DenseMatrix option" where
  "transpose_block input blockRowSize blockColumnSize = (\<lambda>(row, column) out.
     (let fromRow = row * blockRowSize;
          fromCol = column * blockColumnSize
      in for_neq (\<lambda>i out.
           for_neq (\<lambda>j out. Option.bind (Data_at input i j) (Data_store out j i))
             fromCol (min (Columns (Dimensions input)) (fromCol + blockColumnSize)) out)
           fromRow (min (Rows (Dimensions input)) (fromRow + blockRowSize)) out))"

definition block_number :: "u64 \<Rightarrow> u64 \<Rightarrow> u64" where
  "block_number blocks n = min blocks n"

definition block_size :: "u64 \<Rightarrow> u64 \<Rightarrow> u64" where
  "block_size blocks n = (n + block_number blocks n - 1) div block_number blocks n"

text \<open>\<open>None\<close> also where the number of blocks a size is divided by is 0.\<close>

definition TransposeMatrix ::
  "(u64 \<times> u64) list \<Rightarrow> 'a DenseMatrix \<Rightarrow> 'a DenseMatrix \<Rightarrow> u64 \<Rightarrow> 'a DenseMatrix option" where
  "TransposeMatrix order input out blocks =
     (if Rows (Dimensions input) \<noteq> Columns (Dimensions out) then None
      else if Columns (Dimensions input) \<noteq> Rows (Dimensions out) then None
      else if block_number blocks (Rows (Dimensions input)) = 0
        \<or> block_number blocks (Columns (Dimensions input)) = 0 then None
      else foldM (transpose_block input (block_size blocks (Rows (Dimensions input)))
             (block_size blocks (Columns (Dimensions input)))) order out)"

section \<open>Matrices as stores\<close>

definition shape :: "MatrixDimensions \<Rightarrow> 'a DenseMatrix \<Rightarrow> bool" where
  "shape D M \<longleftrightarrow> dense_ok M \<and> Dimensions M = D"

definition entry :: "'a DenseMatrix \<Rightarrow> nat \<times> nat \<Rightarrow> 'a" where
  "entry M p = Data M ! fst p ! snd p"

definition of_entries :: "MatrixDimensions \<Rightarrow> (nat \<times> nat \<Rightarrow> 'a) \<Rightarrow> 'a DenseMatrix" where
  "of_entries D v = \<lparr>Dimensions = D,
     Data = map (\<lambda>i. map (\<lambda>j. v (i, j)) [0..<unat (Columns D)]) [0..<unat (Rows D)]\<rparr>"

lemma shape_row: "shape D M \<Longrightarrow> i < unat (Rows D) \<Longrightarrow> length (Data M ! i) = unat (Columns D)"
  "shape D M \<Longrightarrow> length (Data M) = unat (Rows D)"
  by (auto simp: shape_def dense_ok_def)

lemma stores_one:
  assumes "i < Rows D" "j < Columns D"
  shows "stores (shape D) entry v {(unat i, unat j)} (\<lambda>M. Data_store M i j (v (unat i, unat j)))"
  unfolding stores_def
proof (intro allI impI)
  fix M :: "'a DenseMatrix"
  assume M: "shape D M"
  let ?N = "M\<lparr>Data := (Data M)[unat i := (Data M ! unat i)[unat j := v (unat i, unat j)]]\<rparr>"
  have ij: "unat i < unat (Rows D)" "unat j < unat (Columns D)" using assms by (simp_all add: word_less_nat_alt)
  note L = shape_row(1) [OF M ij(1)] shape_row(2) [OF M]
  have "Data_store M i j (v (unat i, unat j)) = Some ?N"
    using ij L by (simp add: Data_store_def at_def store_at_def)
  moreover have "shape D ?N"
  proof -
    have "length r = unat (Columns D)"
      if "r \<in> set ((Data M)[unat i := (Data M ! unat i)[unat j := v (unat i, unat j)]])" for r
      using subsetD [OF set_update_subset_insert that] M L(1) by (auto simp: shape_def dense_ok_def)
    with M show ?thesis by (simp add: shape_def dense_ok_def)
  qed
  moreover have "entry ?N p = (if p \<in> {(unat i, unat j)} then v p else entry M p)" for p
  proof -
    obtain a b where p: "p = (a, b)" by (cases p)
    show ?thesis
    proof (cases "a = unat i")
      case True
      then show ?thesis using ij L by (cases "b = unat j") (simp_all add: p entry_def)
    qed (simp add: p entry_def)
  qed
  ultimately show "\<exists>s'. Data_store M i j (v (unat i, unat j)) = Some s' \<and> shape D s'
      \<and> (\<forall>p. entry s' p = (if p \<in> {(unat i, unat j)} then v p else entry M p))" by blast
qed

lemma stores_all:
  assumes f: "stores (shape D) entry v W f" and M: "shape D M"
    and W: "\<And>i j. i < unat (Rows D) \<Longrightarrow> j < unat (Columns D) \<Longrightarrow> (i, j) \<in> W"
  shows "f M = Some (of_entries D v)"
proof -
  obtain N where N: "f M = Some N" "shape D N" "\<forall>p. entry N p = (if p \<in> W then v p else entry M p)"
    using f M unfolding stores_def by blast
  have "Data N = Data (of_entries D v)"
  proof (rule nth_equalityI)
    fix i
    assume "i < length (Data N)"
    then have i: "i < unat (Rows D)" using shape_row(2) [OF N(2)] by simp
    show "Data N ! i = Data (of_entries D v) ! i"
    proof (rule nth_equalityI)
      fix j
      assume "j < length (Data N ! i)"
      then have j: "j < unat (Columns D)" using shape_row(1) [OF N(2) i] by simp
      show "Data N ! i ! j = Data (of_entries D v) ! i ! j"
        using N(3) [rule_format, of "(i, j)"] W [OF i j] i j by (simp add: entry_def of_entries_def)
    qed (use i shape_row(1) [OF N(2) i] in \<open>simp add: of_entries_def\<close>)
  qed (use shape_row(2) [OF N(2)] in \<open>simp add: of_entries_def\<close>)
  then have "N = of_entries D v" using N(2) by (simp add: shape_def of_entries_def)
  with N(1) show ?thesis by simp
qed

lemma eigen_pairs:
  assumes "nested_order (eigen_order init m stack_empty threads grainsize 0 rows)
      (\<lambda>_. eigen_order init m False threads inner_grainsize 0 cols) xs"
    "loop_ok threads 0 rows grainsize" "loop_ok threads 0 cols inner_grainsize"
  shows "set xs = {(r, c). r < rows \<and> c < cols}"
proof (rule nested_order_pairs(2) [OF assms(1)])
  show "r \<in> set rs \<longleftrightarrow> r < rows" if "eigen_order init m stack_empty threads grainsize 0 rows rs" for rs r
    using eigen.order_set [OF assms(2) that] by simp
  show "distinct cs \<and> set cs = {c. c < cols}" if "eigen_order init m False threads inner_grainsize 0 cols cs" for cs
    using eigen.order_distinct [OF assms(3) that] eigen.order_set [OF assms(3) that] by auto
qed

section \<open>The product\<close>

definition product_entry :: "'a::{zero,plus,times} DenseMatrix \<Rightarrow> 'a DenseMatrix \<Rightarrow> nat \<times> nat \<Rightarrow> 'a" where
  "product_entry A B p = foldl (\<lambda>s k. s + Data A ! fst p ! k * Data B ! k ! snd p) 0 [0..<unat (Columns (Dimensions A))]"

lemma product_round:
  assumes "dense_ok A" "dense_ok B" "Columns (Dimensions A) = Rows (Dimensions B)"
    "row < Rows (Dimensions A)" "col < Columns (Dimensions B)"
  shows "for_neq (\<lambda>j sum. Option.bind (Data_at A row j) (\<lambda>a. Option.bind (Data_at B j col) (\<lambda>b. Some (sum + a * b))))
      0 (Columns (Dimensions A)) 0 = Some (product_entry A B (unat row, unat col))"
proof -
  let ?g = "\<lambda>j s. s + Data A ! unat row ! unat j * Data B ! unat j ! unat col"
  have "for_neq (\<lambda>j sum. Option.bind (Data_at A row j) (\<lambda>a. Option.bind (Data_at B j col) (\<lambda>b. Some (sum + a * b))))
      0 (Columns (Dimensions A)) 0 = Some (fold ?g (indices 0 (Columns (Dimensions A))) 0)"
    using assms by (subst for_neq_indices, simp, intro foldM_pure) (simp add: dense_access)
  also have "fold ?g (indices 0 (Columns (Dimensions A))) 0 = product_entry A B (unat row, unat col)"
    unfolding indices_def product_entry_def foldl_conv_fold fold_map
    by (rule fold_cong) (use u64_bound [of "Columns (Dimensions A)"] in \<open>auto simp: unat_of_nat fun_eq_iff\<close>)
  finally show ?thesis .
qed

lemma MultiplyMatrix_dense_ok:
  assumes A: "dense_ok A" and B: "dense_ok B" and inner: "Columns (Dimensions A) = Rows (Dimensions B)"
    and out: "shape \<lparr>Rows = Rows (Dimensions A), Columns = Columns (Dimensions B)\<rparr> out"
    and loops: "loop_ok threads 0 (Rows (Dimensions A)) grainsize" "loop_ok threads 0 (Columns (Dimensions B)) grainsize"
    and order: "nested_order (eigen_order init m stack_empty threads grainsize 0 (Rows (Dimensions A)))
      (\<lambda>_. eigen_order init m False threads grainsize 0 (Columns (Dimensions B))) order"
  shows "MultiplyMatrix_dense order A B out
    = Some (of_entries \<lparr>Rows = Rows (Dimensions A), Columns = Columns (Dimensions B)\<rparr> (product_entry A B))"
proof -
  let ?D = "\<lparr>Rows = Rows (Dimensions A), Columns = Columns (Dimensions B)\<rparr>"
  define f where "f = (\<lambda>(row, col) out. Option.bind (for_neq (\<lambda>j sum. Option.bind (Data_at A row j) (\<lambda>a.
      Option.bind (Data_at B j col) (\<lambda>b. Some (sum + a * b)))) 0 (Columns (Dimensions A)) 0) (Data_store out row col))"
  have set: "set order = {(r, c). r < Rows (Dimensions A) \<and> c < Columns (Dimensions B)}"
    by (rule eigen_pairs [OF order loops])
  have "stores (shape ?D) entry (product_entry A B) {(unat (fst p), unat (snd p))} (f p)" if "p \<in> set order" for p
  proof -
    obtain r c where p: "p = (r, c)" "r < Rows (Dimensions A)" "c < Columns (Dimensions B)"
      using \<open>p \<in> set order\<close> set by auto
    then have "f p = (\<lambda>M. Data_store M r c (product_entry A B (unat r, unat c)))"
      by (simp add: f_def product_round [OF A B inner] fun_eq_iff)
    then show ?thesis using stores_one [of r ?D c "product_entry A B"] p by simp
  qed
  then have "stores (shape ?D) entry (product_entry A B) (\<Union>p \<in> set order. {(unat (fst p), unat (snd p))}) (foldM f order)"
    by (rule foldM_stores)
  then have "foldM f order out = Some (of_entries ?D (product_entry A B))"
  proof (rule stores_all [OF _ out])
    fix i j
    assume "i < unat (Rows ?D)" "j < unat (Columns ?D)"
    then have "(of_nat i, of_nat j) \<in> set order" "unat (of_nat i :: u64) = i" "unat (of_nat j :: u64) = j"
      using u64_bound [of "Rows (Dimensions A)"] u64_bound [of "Columns (Dimensions B)"]
      by (simp_all add: set word_less_nat_alt unat_of_nat)
    then show "(i, j) \<in> (\<Union>p \<in> set order. {(unat (fst p), unat (snd p))})" by force
  qed
  then show ?thesis by (simp add: MultiplyMatrix_dense_def f_def)
qed

section \<open>Blocks\<close>

lemma for_neq_stores:
  assumes "fr \<le> to" "\<And>i. fr \<le> i \<Longrightarrow> i < to \<Longrightarrow> stores ok get v (W i) (f i)"
  shows "stores ok get v (\<Union>i \<in> {i. fr \<le> i \<and> i < to}. W i) (for_neq f fr to)"
proof -
  have "{i. fr \<le> i \<and> i < to} = set (indices fr to)" by auto
  moreover have "for_neq f fr to = foldM f (indices fr to)" using assms(1) by (simp add: fun_eq_iff for_neq_indices)
  moreover have "stores ok get v (\<Union>i \<in> set (indices fr to). W i) (foldM f (indices fr to))"
    by (rule foldM_stores) (simp add: assms(2))
  ultimately show ?thesis by (simp only:)
qed

text \<open>The size of the blocks is the quotient rounded up, so the blocks reach the end.\<close>

lemma block_sizes:
  assumes "unat n < 2 ^ 63" "block_number blocks n \<noteq> 0"
  shows "unat (block_size blocks n) = (unat n + unat (block_number blocks n) - 1) div unat (block_number blocks n)"
    "unat n \<le> unat (block_size blocks n) * unat (block_number blocks n)" "unat (block_size blocks n) \<le> unat n"
    "0 < unat (block_size blocks n)"
proof -
  let ?b = "unat (block_number blocks n)" and ?s = "unat (block_size blocks n)"
  have b: "0 < ?b" "?b \<le> unat n"
    using assms(2) by (simp_all add: block_number_def word_neq_0_conv word_less_nat_alt u64_min)
  have "unat (n + block_number blocks n) = unat n + ?b" using assms(1) b by (intro u64_add) simp
  moreover have "(1 :: u64) \<le> n + block_number blocks n" using calculation b by (simp add: word_le_nat_alt)
  ultimately have "unat (n + block_number blocks n - 1) = unat n + ?b - 1" by (simp add: u64_sub)
  then show s: "?s = (unat n + ?b - 1) div ?b" by (simp add: block_size_def unat_div)
  have "(unat n + ?b - 1) mod ?b < ?b" using b by simp
  then have "unat n + ?b - 1 < ?s * ?b + ?b" using div_mult_mod_eq [of "unat n + ?b - 1" ?b] unfolding s by linarith
  then show le: "unat n \<le> ?s * ?b" using b by linarith
  show "0 < ?s" using le b by (cases "?s = 0") auto
  have "unat n + ?b - 1 < Suc (unat n) * ?b"
  proof -
    have "unat n * 1 \<le> unat n * ?b" using b by (intro mult_le_mono2) simp
    then show ?thesis using b unfolding mult_Suc mult_1_right by linarith
  qed
  then show "?s \<le> unat n" unfolding s using b by (simp add: less_mult_imp_div_less flip: less_Suc_eq_le)
qed

text \<open>No block starts behind the end.\<close>

definition blocks_fit :: "u64 \<Rightarrow> u64 \<Rightarrow> bool" where
  "blocks_fit blocks n \<longleftrightarrow> (unat (block_number blocks n) - 1) * unat (block_size blocks n) \<le> unat n"

lemma block_range:
  assumes n: "unat n < 2 ^ 63" "block_number blocks n \<noteq> 0" and fit: "blocks_fit blocks n" and k: "k < block_number blocks n"
  shows "unat (k * block_size blocks n) = unat k * unat (block_size blocks n)"
    "unat (min n (k * block_size blocks n + block_size blocks n))
      = min (unat n) (unat k * unat (block_size blocks n) + unat (block_size blocks n))"
    "k * block_size blocks n \<le> min n (k * block_size blocks n + block_size blocks n)"
proof -
  let ?s = "unat (block_size blocks n)"
  note S = block_sizes [OF n]
  have "unat k \<le> unat (block_number blocks n) - 1" using k by (simp add: word_less_nat_alt)
  then have "unat k * ?s \<le> (unat (block_number blocks n) - 1) * ?s" by (rule mult_le_mono1)
  then have le: "unat k * ?s \<le> unat n" using fit unfolding blocks_fit_def by linarith
  show m: "unat (k * block_size blocks n) = unat k * ?s"
    using le n(1) by (simp add: unat_word_ariths)
  have a: "unat (k * block_size blocks n + block_size blocks n) = unat k * ?s + ?s"
    unfolding m [symmetric] using le S(3) n(1) m by (intro u64_add) simp
  then show e: "unat (min n (k * block_size blocks n + block_size blocks n)) = min (unat n) (unat k * ?s + ?s)"
    by (simp only: u64_min)
  show "k * block_size blocks n \<le> min n (k * block_size blocks n + block_size blocks n)"
    unfolding word_le_nat_alt e m using le by simp
qed

lemma in_block:
  assumes n: "unat n < 2 ^ 63" "block_number blocks n \<noteq> 0" and fit: "blocks_fit blocks n" and i: "i < unat n"
  defines "k \<equiv> of_nat (i div unat (block_size blocks n))"
  shows "k < block_number blocks n" "k * block_size blocks n \<le> of_nat i"
    "of_nat i < min n (k * block_size blocks n + block_size blocks n)"
proof -
  let ?s = "unat (block_size blocks n)"
  note S = block_sizes [OF n]
  have ui: "unat (of_nat i :: u64) = i" using i u64_bound [of n] by (simp add: unat_of_nat)
  have "i < ?s * unat (block_number blocks n)" using i S(2) by linarith
  then have q: "i div ?s < unat (block_number blocks n)" using S(4) by (simp add: less_mult_imp_div_less mult.commute)
  then have uk: "unat k = i div ?s"
    using u64_bound [of "block_number blocks n"] by (simp add: k_def unat_of_nat)
  then show k: "k < block_number blocks n" using q by (simp add: word_less_nat_alt)
  note R = block_range [OF n fit k]
  show "k * block_size blocks n \<le> of_nat i"
    unfolding word_le_nat_alt R(1) ui uk using times_div_less_eq_dividend [of "?s" i] by (simp add: mult.commute)
  have "i < i div ?s * ?s + ?s" using S(4) div_mult_mod_eq [of i ?s] mod_less_divisor [of ?s i] by linarith
  then show "of_nat i < min n (k * block_size blocks n + block_size blocks n)"
    unfolding word_less_nat_alt R(2) ui uk using i by simp
qed

text \<open>What the transposition is to store, and the cells one block writes.\<close>

definition transposed :: "'a DenseMatrix \<Rightarrow> nat \<times> nat \<Rightarrow> 'a" where
  "transposed input p = Data input ! snd p ! fst p"

definition block_cells :: "'a DenseMatrix \<Rightarrow> u64 \<Rightarrow> u64 \<times> u64 \<Rightarrow> (nat \<times> nat) set" where
  "block_cells input blocks p =
     (\<Union>i \<in> {i. fst p * block_size blocks (Rows (Dimensions input)) \<le> i
         \<and> i < min (Rows (Dimensions input)) (fst p * block_size blocks (Rows (Dimensions input))
               + block_size blocks (Rows (Dimensions input)))}.
      \<Union>j \<in> {j. snd p * block_size blocks (Columns (Dimensions input)) \<le> j
         \<and> j < min (Columns (Dimensions input)) (snd p * block_size blocks (Columns (Dimensions input))
               + block_size blocks (Columns (Dimensions input)))}. {(unat j, unat i)})"

lemma transpose_block_stores:
  assumes input: "dense_ok input"
    and rows: "unat (Rows (Dimensions input)) < 2 ^ 63" "block_number blocks (Rows (Dimensions input)) \<noteq> 0"
      "blocks_fit blocks (Rows (Dimensions input))" "fst p < block_number blocks (Rows (Dimensions input))"
    and cols: "unat (Columns (Dimensions input)) < 2 ^ 63" "block_number blocks (Columns (Dimensions input)) \<noteq> 0"
      "blocks_fit blocks (Columns (Dimensions input))" "snd p < block_number blocks (Columns (Dimensions input))"
  shows "stores (shape \<lparr>Rows = Columns (Dimensions input), Columns = Rows (Dimensions input)\<rparr>) entry
    (transposed input) (block_cells input blocks p)
    (transpose_block input (block_size blocks (Rows (Dimensions input))) (block_size blocks (Columns (Dimensions input))) p)"
proof -
  let ?D = "\<lparr>Rows = Columns (Dimensions input), Columns = Rows (Dimensions input)\<rparr>"
  have cell: "stores (shape ?D) entry (transposed input) {(unat j, unat i)} (\<lambda>out. Option.bind (Data_at input i j) (Data_store out j i))"
    if "i < Rows (Dimensions input)" "j < Columns (Dimensions input)" for i j
    using stores_one [of j ?D i "transposed input"] that by (simp add: dense_access [OF input] transposed_def)
  show ?thesis
    unfolding transpose_block_def block_cells_def Let_def split_beta
    by (intro for_neq_stores cell block_range(3) rows cols) simp_all
qed

lemma TransposeMatrix_ok:
  assumes input: "dense_ok input" and out: "shape \<lparr>Rows = Columns (Dimensions input), Columns = Rows (Dimensions input)\<rparr> out"
    and rows: "unat (Rows (Dimensions input)) < 2 ^ 63" "block_number blocks (Rows (Dimensions input)) \<noteq> 0"
      "blocks_fit blocks (Rows (Dimensions input))"
    and cols: "unat (Columns (Dimensions input)) < 2 ^ 63" "block_number blocks (Columns (Dimensions input)) \<noteq> 0"
      "blocks_fit blocks (Columns (Dimensions input))"
    and set: "set order = {(r, c). r < block_number blocks (Rows (Dimensions input))
      \<and> c < block_number blocks (Columns (Dimensions input))}"
  shows "TransposeMatrix order input out blocks
    = Some (of_entries \<lparr>Rows = Columns (Dimensions input), Columns = Rows (Dimensions input)\<rparr> (transposed input))"
proof -
  let ?D = "\<lparr>Rows = Columns (Dimensions input), Columns = Rows (Dimensions input)\<rparr>"
  let ?f = "transpose_block input (block_size blocks (Rows (Dimensions input))) (block_size blocks (Columns (Dimensions input)))"
  have "stores (shape ?D) entry (transposed input) (\<Union>p \<in> set order. block_cells input blocks p) (foldM ?f order)"
  proof (rule foldM_stores)
    fix p
    assume "p \<in> set order"
    then have "fst p < block_number blocks (Rows (Dimensions input))"
      "snd p < block_number blocks (Columns (Dimensions input))" by (auto simp: set)
    then show "stores (shape ?D) entry (transposed input) (block_cells input blocks p) (?f p)"
      by (intro transpose_block_stores input rows cols)
  qed
  then have "foldM ?f order out = Some (of_entries ?D (transposed input))"
  proof (rule stores_all [OF _ out])
    fix j i
    assume "j < unat (Rows ?D)" "i < unat (Columns ?D)"
    then have ji: "j < unat (Columns (Dimensions input))" "i < unat (Rows (Dimensions input))" by simp_all
    define p where "p = (of_nat (i div unat (block_size blocks (Rows (Dimensions input)))) :: u64,
      of_nat (j div unat (block_size blocks (Columns (Dimensions input)))) :: u64)"
    note I = in_block [OF rows ji(2)] and J = in_block [OF cols ji(1)]
    have u: "unat (of_nat i :: u64) = i" "unat (of_nat j :: u64) = j"
      using ji u64_bound [of "Rows (Dimensions input)"] u64_bound [of "Columns (Dimensions input)"]
      by (simp_all add: unat_of_nat)
    have "(unat (of_nat j :: u64), unat (of_nat i :: u64)) \<in> block_cells input blocks p"
      unfolding block_cells_def p_def fst_conv snd_conv using I(2,3) J(2,3) by blast
    moreover have "p \<in> set order" unfolding set p_def using I(1) J(1) by simp
    ultimately show "(j, i) \<in> (\<Union>p \<in> set order. block_cells input blocks p)" unfolding u by blast
  qed
  moreover have "Dimensions out = ?D" using out by (simp add: shape_def)
  ultimately show ?thesis using rows(2) cols(2) by (simp add: TransposeMatrix_def)
qed

text \<open>A block that starts behind the last row reads outside the input.\<close>

lemma transpose_block_outside:
  assumes input: "dense_ok input" and cols: "0 < Columns (Dimensions input)" "0 < blockColumnSize"
    and outside: "Rows (Dimensions input) < row * blockRowSize"
  shows "transpose_block input blockRowSize blockColumnSize (row, 0) out = None"
proof -
  let ?fr = "row * blockRowSize" and ?to = "min (Rows (Dimensions input)) (row * blockRowSize + blockRowSize)"
  have "length (Data input) \<le> unat ?fr" using input outside by (simp add: dense_ok_def word_less_nat_alt)
  then have none: "Data_at input ?fr 0 = None" by (simp add: Data_at_def at_def)
  have "min (Columns (Dimensions input)) blockColumnSize \<noteq> 0" using cols by (auto simp: min_def)
  then have inner: "for_neq (\<lambda>j out. Option.bind (Data_at input ?fr j) (Data_store out j ?fr))
      0 (min (Columns (Dimensions input)) blockColumnSize) out = None" for out
    by (subst for_neq.simps) (simp add: none)
  have "?fr \<noteq> ?to" using outside by (auto simp: min_def split: if_splits)
  then show ?thesis
    by (simp add: transpose_block_def Let_def) (subst for_neq.simps, simp add: inner)
qed

section \<open>Properties\<close>

text \<open>
  \<open>MultiplyMatrix\<close> of two dense matrices stores the product, each element the sum along a row and a
  column from 0, however the rounds of the two nested loops interleave.
\<close>

lemma MultiplyMatrix_dense_product:
  assumes "dense_ok A" "dense_ok B" "Columns (Dimensions A) = Rows (Dimensions B)"
    "dense_ok out" "Dimensions out = \<lparr>Rows = Rows (Dimensions A), Columns = Columns (Dimensions B)\<rparr>"
    "loop_ok threads 0 (Rows (Dimensions A)) grainsize" "loop_ok threads 0 (Columns (Dimensions B)) grainsize"
    "nested_order (eigen_order init m stack_empty threads grainsize 0 (Rows (Dimensions A)))
      (\<lambda>_. eigen_order init m False threads grainsize 0 (Columns (Dimensions B))) order"
  shows "MultiplyMatrix_dense order A B out = Some \<lparr>Dimensions = Dimensions out,
    Data = map (\<lambda>i. map (\<lambda>j. foldl (\<lambda>s k. s + Data A ! i ! k * Data B ! k ! j) 0 [0..<unat (Columns (Dimensions A))])
      [0..<unat (Columns (Dimensions B))]) [0..<unat (Rows (Dimensions A))]\<rparr>"
proof -
  have "shape \<lparr>Rows = Rows (Dimensions A), Columns = Columns (Dimensions B)\<rparr> out"
    using assms(4,5) by (simp add: shape_def)
  from MultiplyMatrix_dense_ok [OF assms(1-3) this assms(6-8)] show ?thesis
    using assms(5) by (simp add: of_entries_def product_entry_def)
qed

lemma pairs_exist:
  assumes "loop_ok threads 0 rows grainsize" "loop_ok threads 0 cols inner_grainsize"
  shows "\<exists>xs. nested_order (eigen_order init m stack_empty threads grainsize 0 rows)
    (\<lambda>_. eigen_order init m False threads inner_grainsize 0 cols) xs"
proof -
  obtain rs where rs: "eigen_order init m stack_empty threads grainsize 0 rows rs"
    using eigen.order_exists [OF assms(1)] by blast
  obtain cs where cs: "eigen_order init m False threads inner_grainsize 0 cols cs"
    using eigen.order_exists [OF assms(2)] by blast
  have "nested_order (eigen_order init m stack_empty threads grainsize 0 rows)
    (\<lambda>_. eigen_order init m False threads inner_grainsize 0 cols) (concat (map (\<lambda>r. map (Pair r) cs) rs))"
    using rs eigen.order_distinct [OF assms(1) rs] cs by (rule nested_order_exists)
  then show ?thesis ..
qed

lemma MultiplyMatrix_dense_product_example:
  "\<exists>order. MultiplyMatrix_dense order \<lparr>Dimensions = \<lparr>Rows = 2, Columns = 1\<rparr>, Data = [[2], [3 :: int]]\<rparr>
      \<lparr>Dimensions = \<lparr>Rows = 1, Columns = 2\<rparr>, Data = [[5, 7]]\<rparr> (new_DenseMatrix 2 2)
    = Some \<lparr>Dimensions = \<lparr>Rows = 2, Columns = 2\<rparr>, Data = [[10, 14], [15, 21]]\<rparr>"
proof -
  let ?A = "\<lparr>Dimensions = \<lparr>Rows = 2, Columns = 1\<rparr>, Data = [[2], [3 :: int]]\<rparr>"
  let ?B = "\<lparr>Dimensions = \<lparr>Rows = 1, Columns = 2\<rparr>, Data = [[5, 7 :: int]]\<rparr>"
  obtain order where order: "nested_order (eigen_order 205000 EIGEN_SHARING True 2 1 0 2)
      (\<lambda>_. eigen_order 205000 EIGEN_SHARING False 2 1 0 2) order"
    using pairs_exist [OF two_ok two_ok] by blast
  have "MultiplyMatrix_dense order ?A ?B (new_DenseMatrix 2 2)
      = Some \<lparr>Dimensions = Dimensions (new_DenseMatrix 2 2 :: int DenseMatrix),
        Data = map (\<lambda>i. map (\<lambda>j. foldl (\<lambda>s k. s + Data ?A ! i ! k * Data ?B ! k ! j) 0 [0..<unat (Columns (Dimensions ?A))])
          [0..<unat (Columns (Dimensions ?B))]) [0..<unat (Rows (Dimensions ?A))]\<rparr>"
    by (rule MultiplyMatrix_dense_product [where init = 205000 and m = EIGEN_SHARING and stack_empty = True
          and threads = 2 and grainsize = 1])
      (simp_all add: two_ok order dense_ok_def new_DenseMatrix_def)
  moreover have "map (\<lambda>i. map (\<lambda>j. foldl (\<lambda>s k. s + Data ?A ! i ! k * Data ?B ! k ! j) 0 [0..<unat (Columns (Dimensions ?A))])
          [0..<unat (Columns (Dimensions ?B))]) [0..<unat (Rows (Dimensions ?A))] = [[10, 14], [15, 21]]"
    by code_simp
  ultimately show ?thesis by (auto simp: new_DenseMatrix_def)
qed

text \<open>
  C23: If no block starts behind the last row or the last column, \<open>TransposeMatrix\<close> stays inside both
  matrices and stores the transposed input, however the blocks' rounds interleave.
\<close>

theorem TransposeMatrix_transposes:
  assumes "dense_ok input" "dense_ok out"
    "Dimensions out = \<lparr>Rows = Columns (Dimensions input), Columns = Rows (Dimensions input)\<rparr>"
    "unat (Rows (Dimensions input)) < 2 ^ 63" "0 < min blocks (Rows (Dimensions input))"
    "blocks_fit blocks (Rows (Dimensions input))"
    "unat (Columns (Dimensions input)) < 2 ^ 63" "0 < min blocks (Columns (Dimensions input))"
    "blocks_fit blocks (Columns (Dimensions input))"
    "loop_ok threads 0 (min blocks (Rows (Dimensions input))) grainsize"
    "loop_ok threads 0 (min blocks (Columns (Dimensions input))) 1"
    "nested_order (eigen_order init m stack_empty threads grainsize 0 (min blocks (Rows (Dimensions input))))
      (\<lambda>_. eigen_order init m False threads 1 0 (min blocks (Columns (Dimensions input)))) order"
  shows "TransposeMatrix order input out blocks = Some \<lparr>Dimensions = Dimensions out,
    Data = map (\<lambda>j. map (\<lambda>i. Data input ! i ! j) [0..<unat (Rows (Dimensions input))])
      [0..<unat (Columns (Dimensions input))]\<rparr>"
proof -
  have out: "shape \<lparr>Rows = Columns (Dimensions input), Columns = Rows (Dimensions input)\<rparr> out"
    using assms(2,3) by (simp add: shape_def)
  have "block_number blocks (Rows (Dimensions input)) \<noteq> 0" "block_number blocks (Columns (Dimensions input)) \<noteq> 0"
    using assms(5,8) unfolding block_number_def by (metis less_irrefl)+
  from TransposeMatrix_ok [OF assms(1) out assms(4) this(1) assms(6,7) this(2) assms(9)]
    eigen_pairs [OF assms(12,10,11)]
  show ?thesis using assms(3) by (simp add: block_number_def of_entries_def transposed_def)
qed

theorem TransposeMatrix_transposes_witness:
  "\<exists>order. TransposeMatrix order \<lparr>Dimensions = \<lparr>Rows = 2, Columns = 2\<rparr>, Data = [[1, 2], [3, 4 :: int]]\<rparr>
      (new_DenseMatrix 2 2) 64
    = Some \<lparr>Dimensions = \<lparr>Rows = 2, Columns = 2\<rparr>, Data = [[1, 3], [2, 4]]\<rparr>"
proof -
  let ?A = "\<lparr>Dimensions = \<lparr>Rows = 2, Columns = 2\<rparr>, Data = [[1, 2], [3, 4 :: int]]\<rparr>"
  have two: "min 64 (2 :: u64) = 2" by (simp add: min_def)
  obtain order where order: "nested_order (eigen_order 205000 EIGEN_SHARING True 2 1 0 2)
      (\<lambda>_. eigen_order 205000 EIGEN_SHARING False 2 1 0 2) order"
    using pairs_exist [OF two_ok two_ok] by blast
  have "blocks_fit 64 2" by code_simp
  then have "TransposeMatrix order ?A (new_DenseMatrix 2 2) 64
      = Some \<lparr>Dimensions = Dimensions (new_DenseMatrix 2 2 :: int DenseMatrix),
        Data = map (\<lambda>j. map (\<lambda>i. Data ?A ! i ! j) [0..<unat (Rows (Dimensions ?A))]) [0..<unat (Columns (Dimensions ?A))]\<rparr>"
    by (intro TransposeMatrix_transposes [where init = 205000 and m = EIGEN_SHARING and stack_empty = True
          and threads = 2 and grainsize = 1])
      (simp_all add: two two_ok order dense_ok_def new_DenseMatrix_def)
  moreover have "map (\<lambda>j. map (\<lambda>i. Data ?A ! i ! j) [0..<unat (Rows (Dimensions ?A))]) [0..<unat (Columns (Dimensions ?A))]
      = [[1, 3], [2, 4]]"
    by code_simp
  ultimately show ?thesis by (auto simp: new_DenseMatrix_def)
qed

text \<open>
  If some block starts behind the last row, \<open>TransposeMatrix\<close> passes its assertions on the sizes and
  then reads outside its input, in every order of the rounds.  With the default of 64 blocks this is so for 96 rows, the size the
  transposition benchmark takes for three threads.
\<close>

lemma TransposeMatrix_outside:
  assumes "dense_ok input" "Dimensions out = \<lparr>Rows = Columns (Dimensions input), Columns = Rows (Dimensions input)\<rparr>"
    "0 < min blocks (Columns (Dimensions input))" "0 < block_size blocks (Columns (Dimensions input))"
    "row < min blocks (Rows (Dimensions input))"
    "Rows (Dimensions input) < row * block_size blocks (Rows (Dimensions input))"
    "loop_ok threads 0 (min blocks (Rows (Dimensions input))) grainsize"
    "loop_ok threads 0 (min blocks (Columns (Dimensions input))) 1"
    "nested_order (eigen_order init m stack_empty threads grainsize 0 (min blocks (Rows (Dimensions input))))
      (\<lambda>_. eigen_order init m False threads 1 0 (min blocks (Columns (Dimensions input)))) order"
  shows "TransposeMatrix order input out blocks = None \<and>
    TransposeMatrix order input out blocks = foldM (transpose_block input (block_size blocks (Rows (Dimensions input)))
      (block_size blocks (Columns (Dimensions input)))) order out"
proof -
  let ?f = "transpose_block input (block_size blocks (Rows (Dimensions input))) (block_size blocks (Columns (Dimensions input)))"
  have "0 < Columns (Dimensions input)" using assms(3) by (simp add: min_less_iff_disj)
  from transpose_block_outside [OF assms(1) this assms(4,6)] have none: "?f (row, 0) s = None" for s .
  have "(row, 0) \<in> set order" using eigen_pairs [OF assms(9,7,8)] assms(3,5) by auto
  then have "foldM ?f order out = None" using none by (rule foldM_None)
  moreover have "0 < block_number blocks (Rows (Dimensions input))" "0 < block_number blocks (Columns (Dimensions input))"
    using assms(3) assms(5) unfolding block_number_def by (auto intro: le_less_trans [OF word_zero_le])
  then have "TransposeMatrix order input out blocks = foldM ?f order out"
    unfolding TransposeMatrix_def assms(2) by (simp add: less_imp_neq [symmetric])
  ultimately show ?thesis by simp
qed

lemma TransposeMatrix_outside_example:
  "\<exists>order. TransposeMatrix order (new_DenseMatrix 96 96 :: int DenseMatrix) (new_DenseMatrix 96 96) 64 = None"
proof -
  have small: "min 64 (96 :: u64) = 64" by (simp add: min_def)
  have ok: "loop_ok 3 0 64 1" by (simp add: loop_ok_def)
  obtain order where order: "nested_order (eigen_order 205000 EIGEN_SHARING True 3 1 0 64)
      (\<lambda>_. eigen_order 205000 EIGEN_SHARING False 3 1 0 64) order"
    using pairs_exist [OF ok ok] by blast
  have size: "block_size 64 96 = 2" by code_simp
  have "TransposeMatrix order (new_DenseMatrix 96 96 :: int DenseMatrix) (new_DenseMatrix 96 96) 64 = None"
    using TransposeMatrix_outside [of "new_DenseMatrix 96 96 :: int DenseMatrix" "new_DenseMatrix 96 96" 64 63 3 1 205000 EIGEN_SHARING True order]
    by (simp add: small size ok order dense_ok_def new_DenseMatrix_def)
  then show ?thesis ..
qed

end
