(* ===== verification/Scan.thy ===== *)
theory Scan
  imports Loops
begin

text \<open>
  The parallel prefix sum of src/include/benchmarks/scan.h: an up-sweep that adds up blocks of doubling
  size, and a down-sweep that turns the block sums into the sums before each place.  \<open>par b d limit\<close> is
  the order in which the partitioner runs the rounds \<open>0, \<dots>, limit - 1\<close> of level \<open>d\<close> of the up-sweep
  (\<open>b\<close> true) or the down-sweep.  The sizes are of type \<open>int\<close> in the code: \<open>1 << n\<close> is undefined here
  where it is not a positive \<open>int\<close>, from \<open>n = 31\<close> on.
\<close>

section \<open>The code\<close>

lemma unat_half: "unat (drop_bit (Suc 0) w :: u64) = unat w div 2"
  by (simp add: drop_bit_eq_div unat_div)

function get_block_pow :: "u64 \<Rightarrow> u64 \<Rightarrow> u64" where
  "get_block_pow sz block_pow =
     (if sz > 1 then get_block_pow (drop_bit 1 sz) (block_pow + 1) else block_pow)"
  by pat_completeness auto
termination
proof (relation "measure (\<lambda>(sz, block_pow). unat sz)")
  fix sz block_pow :: u64
  assume "sz > 1"
  then have "unat (drop_bit 1 sz) < unat sz"
    by (simp add: word_less_nat_alt unat_half)
  then show "((drop_bit 1 sz, block_pow + 1), sz, block_pow) \<in> measure (\<lambda>(sz, block_pow). unat sz)"
    by simp
qed simp

declare get_block_pow.simps [simp del]

definition GetBlockPow :: "u64 \<Rightarrow> u64" where
  "GetBlockPow sz = get_block_pow sz 0"

definition one_shifted :: "u64 \<Rightarrow> int option" where
  "one_shifted n = (if n < 31 then Some (2 ^ unat n) else None)"

definition up_round :: "int \<Rightarrow> int \<Rightarrow> u64 \<Rightarrow> 'a::plus list \<Rightarrow> 'a list option" where
  "up_round sz shift i data =
     (let k = 0 + i * of_int shift
      in if k + of_int shift - 1 < of_int sz then
           Option.bind (at data (k + of_int shift - 1)) (\<lambda>a.
           Option.bind (at data (k + of_int (shift div 2) - 1)) (\<lambda>b.
             store_at data (k + of_int shift - 1) (a + b)))
         else Some data)"

definition down_round :: "int \<Rightarrow> int \<Rightarrow> u64 \<Rightarrow> 'a::plus list \<Rightarrow> 'a list option" where
  "down_round sz shift i data =
     (let k = 0 + i * of_int shift
      in Option.bind (at data (k + of_int (shift div 2) - 1)) (\<lambda>t.
         if k + of_int shift - 1 < of_int sz then
           Option.bind (at data (k + of_int shift - 1)) (\<lambda>a.
           Option.bind (store_at data (k + of_int (shift div 2) - 1) a) (\<lambda>data.
           Option.bind (at data (k + of_int shift - 1)) (\<lambda>a.
             store_at data (k + of_int shift - 1) (a + t))))
         else Some data))"

text \<open>One level: the rounds of its parallel loop.\<close>

definition level ::
  "(u64 \<Rightarrow> u64 \<Rightarrow> u64 list) \<Rightarrow> (int \<Rightarrow> int \<Rightarrow> u64 \<Rightarrow> 'a list \<Rightarrow> 'a list option) \<Rightarrow> int \<Rightarrow> u64 \<Rightarrow> 'a list \<Rightarrow> 'a list option" where
  "level par round sz d data =
     Option.bind (one_shifted (d + 1)) (\<lambda>shift.
       let limit = (sz + shift - 1) div shift
       in if sz + shift < 2 ^ 31 then foldM (round sz shift) (par d (of_int limit)) data else None)"

fun down_loop :: "(nat \<Rightarrow> 's \<Rightarrow> 's option) \<Rightarrow> nat \<Rightarrow> 's \<Rightarrow> 's option" where
  "down_loop f 0 s = f 0 s"
| "down_loop f (Suc d) s = Option.bind (f (Suc d) s) (down_loop f d)"

definition Scan :: "(bool \<Rightarrow> u64 \<Rightarrow> u64 \<Rightarrow> u64 list) \<Rightarrow> u64 \<Rightarrow> 'a::{plus,zero} list \<Rightarrow> 'a list option" where
  "Scan par size_pow data =
     Option.bind (one_shifted size_pow) (\<lambda>sz.
     Option.bind (for_neq (level (par True) up_round sz) 0 size_pow data) (\<lambda>data.
       if data = [] then None
       else down_loop (\<lambda>d. level (par False) down_round sz (of_nat d)) (unat size_pow)
              (data[length data - 1 := 0])))"

section \<open>The block exponent\<close>

lemma get_block_pow_log:
  "unat sz \<ge> 1 \<Longrightarrow> unat bp + unat sz < 2 ^ 64 \<Longrightarrow> \<exists>e. unat (get_block_pow sz bp) = unat bp + e
    \<and> 2 ^ e \<le> unat sz \<and> unat sz < 2 ^ (e + 1)"
proof (induction sz bp rule: get_block_pow.induct)
  case (1 sz bp)
  show ?case
  proof (cases "sz > 1")
    case False
    then have "unat sz = 1" using 1(2) by (simp add: word_less_nat_alt)
    then show ?thesis using False by (subst get_block_pow.simps) (auto intro: exI [of _ 0])
  next
    case True
    then have s: "unat (drop_bit 1 sz) = unat sz div 2" "2 \<le> unat sz"
      by (simp_all add: unat_half word_less_nat_alt)
    have "unat (bp + 1) = unat bp + unat (1 :: u64)" by (rule u64_add) (use 1(3) s(2) in simp)
    then have bp: "unat (bp + 1) = Suc (unat bp)" by simp
    have "unat sz div 2 < unat sz" using s(2) by simp
    then have "\<exists>e. unat (get_block_pow (drop_bit 1 sz) (bp + 1)) = unat (bp + 1) + e
      \<and> 2 ^ e \<le> unat (drop_bit 1 sz) \<and> unat (drop_bit 1 sz) < 2 ^ (e + 1)"
      using 1(3) s bp by (intro 1(1) [OF True]) (simp_all add: unat_half bp)
    then obtain e where e: "unat (get_block_pow (drop_bit 1 sz) (bp + 1)) = Suc (unat bp) + e"
      "2 ^ e \<le> unat sz div 2" "unat sz div 2 < 2 ^ (e + 1)" by (auto simp: unat_half bp)
    then have "2 ^ (e + 1) \<le> unat sz" "unat sz < 2 ^ (e + 1 + 1)" by simp_all
    then show ?thesis using True e(1) by (subst get_block_pow.simps) (auto intro!: exI [of _ "Suc e"])
  qed
qed

section \<open>The places of a level\<close>

lemma unat_place:
  fixes i :: u64
  assumes "unat i * s + t < 2 ^ 64" "0 < t"
  shows "unat (0 + i * of_int (int s) + of_int (int t) - 1) = unat i * s + t - 1"
proof -
  have "0 + i * of_int (int s) + of_int (int t) = (of_nat (unat i * s + t) :: u64)"
    by (simp add: word_of_nat_eq_iff)
  then have u: "unat (0 + i * of_int (int s) + of_int (int t)) = unat i * s + t"
    using assms(1) by (simp only: unat_of_nat) simp
  then have "1 \<le> 0 + i * of_int (int s) + of_int (int t)" using assms(2) by (simp only: word_le_nat_alt) simp
  from u64_sub [OF this] u show ?thesis by (simp only: unat_1)
qed

text \<open>The block of round \<open>i\<close> of level \<open>d\<close>; its last place and the last one of its first half.\<close>

definition hi :: "nat \<Rightarrow> u64 \<Rightarrow> nat" where
  "hi d i = unat i * 2 ^ (d + 1) + 2 ^ (d + 1) - 1"

definition lo :: "nat \<Rightarrow> u64 \<Rightarrow> nat" where
  "lo d i = unat i * 2 ^ (d + 1) + 2 ^ d - 1"

lemma hi_lo: "hi d i = lo d i + 2 ^ d" "Suc (hi d i) = (unat i + 1) * 2 ^ (d + 1)" "Suc (lo d i) = (2 * unat i + 1) * 2 ^ d"
  by (simp_all add: hi_def lo_def algebra_simps)

lemma in_blocks: "j \<in> {lo d i, hi d i} \<Longrightarrow> j div 2 ^ (d + 1) = unat i"
proof -
  have block: "(q * 2 ^ (d + 1) + r) div 2 ^ (d + 1) = q" if "r < 2 ^ (d + 1)" for q r :: nat
    using that by simp
  have pos: "0 < (2 :: nat) ^ d" "0 < (2 :: nat) ^ (d + 1)" by simp_all
  then have "lo d i = unat i * 2 ^ (d + 1) + (2 ^ d - 1)" "hi d i = unat i * 2 ^ (d + 1) + (2 ^ (d + 1) - 1)"
    unfolding lo_def hi_def by linarith+
  moreover have "(2 :: nat) ^ d - 1 < 2 ^ (d + 1)" "(2 :: nat) ^ (d + 1) - 1 < 2 ^ (d + 1)"
    using pos by (simp_all only: power_add power_one_right)
  ultimately show "j \<in> {lo d i, hi d i} \<Longrightarrow> j div 2 ^ (d + 1) = unat i"
    using block by (elim insertE emptyE; simp only:)
qed

lemma disjoint_blocks: "i \<noteq> j \<Longrightarrow> {lo d i, hi d i} \<inter> {lo d j, hi d j} = {}"
  using in_blocks [of _ d i] in_blocks [of _ d j] by (force simp: u64_eq)

lemma round_places:
  assumes "hi d i < 2 ^ 63"
  shows "unat (0 + i * of_int (2 ^ (d + 1)) + of_int (2 ^ (d + 1)) - 1) = hi d i"
    "unat (0 + i * of_int (2 ^ (d + 1)) + of_int (2 ^ (d + 1) div 2) - 1) = lo d i"
proof -
  have b: "unat i * 2 ^ (d + 1) + 2 ^ (d + 1) < 2 ^ 64" using assms by (simp add: hi_def)
  have p: "(2 :: int) ^ (d + 1) = int (2 ^ (d + 1))" "(2 :: int) ^ (d + 1) div 2 = int (2 ^ d)" by simp_all
  show "unat (0 + i * of_int (2 ^ (d + 1)) + of_int (2 ^ (d + 1)) - 1) = hi d i"
    unfolding p(1) hi_def by (rule unat_place [OF b]) simp
  have "unat i * 2 ^ (d + 1) + 2 ^ d < 2 ^ 64" using b by simp
  then show "unat (0 + i * of_int (2 ^ (d + 1)) + of_int (2 ^ (d + 1) div 2) - 1) = lo d i"
    unfolding p(2) unfolding p(1) lo_def by (rule unat_place) simp
qed

text \<open>What a round does to the array.\<close>

definition up_change :: "nat \<Rightarrow> u64 \<Rightarrow> (nat \<Rightarrow> 'a::plus) \<Rightarrow> nat \<Rightarrow> 'a" where
  "up_change d i m p = (if p = hi d i then m (hi d i) + m (lo d i) else m p)"

definition down_change :: "nat \<Rightarrow> u64 \<Rightarrow> (nat \<Rightarrow> 'a::plus) \<Rightarrow> nat \<Rightarrow> 'a" where
  "down_change d i m p = (if p = hi d i then m (hi d i) + m (lo d i) else m (hi d i))"

lemma lo_neq_hi [simp]: "lo d i \<noteq> hi d i" "hi d i \<noteq> lo d i" "lo d i < hi d i"
  using hi_lo(1) [of d i] by simp_all

lemma unat_pow:
  assumes "P < 31"
  shows "unat (of_int (2 ^ P) :: u64) = 2 ^ P"
proof -
  have "(2 :: nat) ^ P \<le> 2 ^ 30" using assms by (intro power_increasing) simp_all
  then have "(2 :: nat) ^ P mod 2 ^ 64 = 2 ^ P" by simp
  moreover have "(of_int (2 ^ P) :: u64) = of_nat (2 ^ P)" by simp
  ultimately show ?thesis by (simp only: unat_of_nat) simp
qed

lemma round_below:
  assumes "hi d i < 2 ^ P" "P < 31" "2 ^ P \<le> n"
  shows "hi d i < 2 ^ 63" "hi d i < n" "lo d i < n"
proof -
  have "(2 :: nat) ^ P \<le> 2 ^ 30" using assms(2) by (intro power_increasing) simp_all
  then show "hi d i < 2 ^ 63" using assms(1) by simp
  show "hi d i < n" "lo d i < n" using assms(1,3) lo_neq_hi(3) [of d i] by linarith+
qed

lemma up_round_writes:
  assumes "hi d i < 2 ^ P" "P < 31" "2 ^ P \<le> n"
  shows "writes_only (\<lambda>data. length data = n) (!) {lo d i, hi d i} (up_change d i) (up_round (2 ^ P) (2 ^ (d + 1)) i)"
proof -
  note R = round_places [OF round_below(1) [OF assms]]
  have lt: "0 + i * of_int (2 ^ (d + 1)) + of_int (2 ^ (d + 1)) - 1 < (of_int (2 ^ P) :: u64)"
    unfolding word_less_nat_alt R(1) unat_pow [OF assms(2)] by (rule assms(1))
  note n = round_below(2,3) [OF assms]
  have "up_round (2 ^ P) (2 ^ (d + 1)) i data = Some (data[hi d i := data ! hi d i + data ! lo d i])"
    if "length data = n" for data :: "'a list"
    unfolding up_round_def Let_def at_def store_at_def R using lt that n by simp
  then show ?thesis using n by (auto simp: writes_only_def up_change_def nth_list_update)
qed

lemma down_round_writes:
  assumes "hi d i < 2 ^ P" "P < 31" "2 ^ P \<le> n"
  shows "writes_only (\<lambda>data. length data = n) (!) {lo d i, hi d i} (down_change d i) (down_round (2 ^ P) (2 ^ (d + 1)) i)"
proof -
  note R = round_places [OF round_below(1) [OF assms]]
  have lt: "0 + i * of_int (2 ^ (d + 1)) + of_int (2 ^ (d + 1)) - 1 < (of_int (2 ^ P) :: u64)"
    unfolding word_less_nat_alt R(1) unat_pow [OF assms(2)] by (rule assms(1))
  note n = round_below(2,3) [OF assms]
  have "down_round (2 ^ P) (2 ^ (d + 1)) i data
      = Some (data[lo d i := data ! hi d i, hi d i := data ! hi d i + data ! lo d i])"
    if "length data = n" for data :: "'a list"
    unfolding down_round_def Let_def at_def store_at_def R using lt that n by simp
  then show ?thesis using n by (auto simp: writes_only_def down_change_def nth_list_update)
qed

section \<open>One level\<close>

text \<open>Which rounds a place belongs to, with \<open>2 ^ (P - d - 1)\<close> rounds on level \<open>d\<close>.\<close>

lemma pow_split: "d < P \<Longrightarrow> (2 :: 'a::comm_semiring_1) ^ P = 2 ^ (d + 1) * 2 ^ (P - d - 1)"
  using power_add [of "2 :: 'a" "d + 1" "P - d - 1"] by simp

lemma last_places:
  assumes "d < P" "P < 31" "j < 2 ^ P" "2 ^ (d + 1) dvd Suc j"
  obtains i where "unat i < 2 ^ (P - d - 1)" "hi d i = j" "lo d i = j - 2 ^ d"
proof -
  obtain q where q: "Suc j = 2 ^ (d + 1) * q" using assms(4) by (auto simp: dvd_def)
  have P: "(2 :: nat) ^ P = 2 ^ (d + 1) * 2 ^ (P - d - 1)" using assms(1) by (rule pow_split)
  have "2 ^ (d + 1) * q \<le> 2 ^ (d + 1) * 2 ^ (P - d - 1)" using assms(3) unfolding q [symmetric] P [symmetric] by simp
  then have le: "q \<le> 2 ^ (P - d - 1)" by simp
  have "0 < q" using q by (cases "q = 0") simp_all
  then obtain r where r: "q = Suc r" using gr0_implies_Suc by blast
  have "(2 :: nat) ^ (P - d - 1) \<le> 2 ^ 30" using assms(2) by (intro power_increasing) simp_all
  then have u: "unat (of_nat r :: u64) = r" using le r by (simp add: unat_of_nat)
  have "hi d (of_nat r) = j" using q by (simp add: hi_def u r algebra_simps)
  moreover from this have "lo d (of_nat r) = j - 2 ^ d" using hi_lo(1) [of d "of_nat r"] by simp
  ultimately show ?thesis using le r by (intro that [of "of_nat r"]) (simp_all add: u)
qed

lemma middle_places:
  assumes "d < P" "P < 31" "j < 2 ^ P" "2 ^ d dvd Suc j" "\<not> 2 ^ (d + 1) dvd Suc j"
  obtains i where "unat i < 2 ^ (P - d - 1)" "lo d i = j" "hi d i = j + 2 ^ d"
proof -
  obtain r where r: "Suc j = 2 ^ d * r" using assms(4) by (auto simp: dvd_def)
  have "odd r" using assms(5) unfolding r by auto
  then obtain q where q: "r = 2 * q + 1" using oddE by blast
  have P: "(2 :: nat) ^ P = 2 ^ d * (2 * 2 ^ (P - d - 1))"
    using pow_split [OF assms(1), where 'a = nat] by simp
  have "2 ^ d * r \<le> 2 ^ d * (2 * 2 ^ (P - d - 1))" using assms(3) unfolding r [symmetric] P [symmetric] by simp
  then have "r \<le> 2 * 2 ^ (P - d - 1)" by simp
  then have lt: "q < 2 ^ (P - d - 1)" unfolding q by linarith
  have "(2 :: nat) ^ (P - d - 1) \<le> 2 ^ 30" using assms(2) by (intro power_increasing) simp_all
  then have u: "unat (of_nat q :: u64) = q" using lt by (simp add: unat_of_nat)
  have "lo d (of_nat q) = j" using r by (simp add: lo_def u q algebra_simps)
  moreover from this have "hi d (of_nat q) = j + 2 ^ d" using hi_lo(1) [of d "of_nat q"] by simp
  ultimately show ?thesis using lt by (intro that [of "of_nat q"]) (simp_all add: u)
qed

lemma hi_below:
  assumes "d < P" "unat i < 2 ^ (P - d - 1)"
  shows "hi d i < 2 ^ P"
proof -
  have "(unat i + 1) * 2 ^ (d + 1) \<le> 2 ^ (P - d - 1) * 2 ^ (d + 1)" using assms(2) by (intro mult_le_mono1) simp
  also have "\<dots> = 2 ^ P" using pow_split [OF assms(1), where 'a = nat] by (simp only: mult.commute)
  finally have "Suc (hi d i) \<le> 2 ^ P" unfolding hi_lo(2) .
  then show ?thesis by simp
qed

text \<open>All rounds of a level, in any order.\<close>

definition all_below :: "nat \<Rightarrow> u64 list \<Rightarrow> bool" where
  "all_below L xs \<longleftrightarrow> distinct xs \<and> (\<forall>i. i \<in> set xs \<longleftrightarrow> unat i < L)"

lemma ceiling_quotient: "0 < (b :: int) \<Longrightarrow> (a * b + b - 1) div b = a"
  by (simp add: add_diff_eq [symmetric] div_pos_pos_trivial)

lemma level_limit:
  assumes "d < P" "P < 30"
  shows "level par round (2 ^ P) (of_nat d) data
      = foldM (round (2 ^ P) (2 ^ (d + 1))) (par (of_nat d) (of_int (2 ^ (P - d - 1)))) data"
proof -
  have "unat (of_nat d + 1 :: u64) = d + 1"
  proof -
    have "(of_nat d + 1 :: u64) = of_nat (d + 1)" by simp
    then show ?thesis using assms by (simp only: unat_of_nat) simp
  qed
  then have s: "one_shifted (of_nat d + 1) = Some (2 ^ (d + 1))"
    using assms by (simp add: one_shifted_def word_less_nat_alt)
  have P: "(2 :: int) ^ P = 2 ^ (P - d - 1) * 2 ^ (d + 1)"
    using pow_split [OF assms(1), where 'a = int] by (simp only: mult.commute)
  have "(2 ^ P + 2 ^ (d + 1) - 1) div 2 ^ (d + 1) = (2 :: int) ^ (P - d - 1)"
    unfolding P by (intro ceiling_quotient) simp
  moreover have "(2 :: int) ^ P \<le> 2 ^ 29" "(2 :: int) ^ (d + 1) \<le> 2 ^ 29" using assms by (intro power_increasing; simp)+
  ultimately show ?thesis unfolding level_def s by simp
qed

text \<open>The array after a level, place by place.\<close>

definition up_level :: "nat \<Rightarrow> nat \<Rightarrow> 'a::plus list \<Rightarrow> nat \<Rightarrow> 'a" where
  "up_level P d data j = (if j < 2 ^ P \<and> 2 ^ (d + 1) dvd Suc j then data ! j + data ! (j - 2 ^ d) else data ! j)"

definition down_level :: "nat \<Rightarrow> nat \<Rightarrow> 'a::plus list \<Rightarrow> nat \<Rightarrow> 'a" where
  "down_level P d data j =
     (if j < 2 ^ P \<and> 2 ^ (d + 1) dvd Suc j then data ! j + data ! (j - 2 ^ d)
      else if j < 2 ^ P \<and> 2 ^ d dvd Suc j then data ! (j + 2 ^ d) else data ! j)"

lemma level_places:
  assumes "d < P" "unat i < 2 ^ (P - d - 1)"
  shows "hi d i < 2 ^ P" "2 ^ (d + 1) dvd Suc (hi d i)" "hi d i - 2 ^ d = lo d i"
    "lo d i < 2 ^ P" "2 ^ d dvd Suc (lo d i)" "\<not> 2 ^ (d + 1) dvd Suc (lo d i)" "lo d i + 2 ^ d = hi d i"
proof -
  show hi: "hi d i < 2 ^ P" by (rule hi_below [OF assms])
  show "lo d i < 2 ^ P" using hi lo_neq_hi(3) [of d i] by linarith
  show "2 ^ (d + 1) dvd Suc (hi d i)" unfolding hi_lo(2) by simp
  show "2 ^ d dvd Suc (lo d i)" unfolding hi_lo(3) by simp
  show "\<not> 2 ^ (d + 1) dvd Suc (lo d i)"
  proof
    assume "2 ^ (d + 1) dvd Suc (lo d i)"
    then have "2 * 2 ^ d dvd (2 * unat i + 1) * 2 ^ d" unfolding hi_lo(3) by simp
    then have "2 dvd 2 * unat i + 1" using dvd_times_right_cancel_iff [of "(2 :: nat) ^ d" 2 "2 * unat i + 1"] by simp
    then show False by simp
  qed
  show "hi d i - 2 ^ d = lo d i" "lo d i + 2 ^ d = hi d i" using hi_lo(1) [of d i] by simp_all
qed

lemma level_result:
  assumes d: "d < P" "P < 30" and n: "2 ^ P \<le> length data"
    and order: "all_below (2 ^ (P - d - 1)) xs"
  shows "\<exists>data'. foldM (up_round (2 ^ P) (2 ^ (d + 1))) xs data = Some data' \<and> length data' = length data
      \<and> (\<forall>j. data' ! j = up_level P d data j)"
    "\<exists>data'. foldM (down_round (2 ^ P) (2 ^ (d + 1))) xs data = Some data' \<and> length data' = length data
      \<and> (\<forall>j. data' ! j = down_level P d data j)"
proof -
  let ?W = "\<lambda>i. {lo d i, hi d i}"
  have P: "P < 31" using d(2) by simp
  have dist: "distinct xs" and mem: "\<And>i. i \<in> set xs \<longleftrightarrow> unat i < 2 ^ (P - d - 1)"
    using order by (simp_all add: all_below_def)
  have disj: "?W i \<inter> ?W j = {}" if "i \<in> set xs" "j \<in> set xs" "i \<noteq> j" for i j
    by (rule disjoint_blocks [OF that(3)])
  have outside: "\<not> (j < 2 ^ P \<and> 2 ^ d dvd Suc j)" if "\<forall>i \<in> set xs. j \<notin> ?W i" for j
  proof
    assume j: "j < 2 ^ P \<and> 2 ^ d dvd Suc j"
    show False
    proof (cases "2 ^ (d + 1) dvd Suc j")
      case True
      from last_places [OF d(1) P conjunct1 [OF j] True] that mem show False by blast
    next
      case False
      from middle_places [OF d(1) P conjunct1 [OF j] conjunct2 [OF j] False] that mem show False by blast
    qed
  qed
  have weak: "2 ^ d dvd k" if "2 ^ (d + 1) dvd k" for k :: nat
    using that by (rule dvd_trans [rotated]) simp
  have up: "writes_only (\<lambda>s. length s = length data) (!) (?W i) (up_change d i) (up_round (2 ^ P) (2 ^ (d + 1)) i)"
    if "i \<in> set xs" for i
    using that mem by (intro up_round_writes hi_below d P n) simp_all
  obtain s where s: "foldM (up_round (2 ^ P) (2 ^ (d + 1))) xs data = Some s" "length s = length data"
    "\<forall>p. (\<forall>i \<in> set xs. p \<notin> ?W i) \<longrightarrow> s ! p = data ! p"
    "\<forall>i \<in> set xs. \<forall>p \<in> ?W i. s ! p = up_change d i ((!) data) p"
    using foldM_independent [OF dist, where ok = "\<lambda>s. length s = length data" and s = data and get = "(!)" and W = ?W
        and g = "up_change d" and f = "up_round (2 ^ P) (2 ^ (d + 1))", OF refl up disj] by blast
  have "s ! j = up_level P d data j" for j
  proof (cases "\<forall>i \<in> set xs. j \<notin> ?W i")
    case True
    then show ?thesis using s(3) outside [OF True] weak [of "Suc j"] by (auto simp: up_level_def)
  next
    case False
    then obtain i where i: "i \<in> set xs" "j \<in> ?W i" by blast
    then have "unat i < 2 ^ (P - d - 1)" using mem by simp
    note L = level_places [OF d(1) this]
    from s(4) i have "s ! j = up_change d i ((!) data) j" by blast
    then show ?thesis using i(2) L(1-4,6) by (auto simp: up_level_def up_change_def simp del: power_Suc)
  qed
  with s(1,2) show "\<exists>data'. foldM (up_round (2 ^ P) (2 ^ (d + 1))) xs data = Some data' \<and> length data' = length data
      \<and> (\<forall>j. data' ! j = up_level P d data j)" by blast
  have down: "writes_only (\<lambda>s. length s = length data) (!) (?W i) (down_change d i) (down_round (2 ^ P) (2 ^ (d + 1)) i)"
    if "i \<in> set xs" for i
    using that mem by (intro down_round_writes hi_below d P n) simp_all
  obtain s where s: "foldM (down_round (2 ^ P) (2 ^ (d + 1))) xs data = Some s" "length s = length data"
    "\<forall>p. (\<forall>i \<in> set xs. p \<notin> ?W i) \<longrightarrow> s ! p = data ! p"
    "\<forall>i \<in> set xs. \<forall>p \<in> ?W i. s ! p = down_change d i ((!) data) p"
    using foldM_independent [OF dist, where ok = "\<lambda>s. length s = length data" and s = data and get = "(!)" and W = ?W
        and g = "down_change d" and f = "down_round (2 ^ P) (2 ^ (d + 1))", OF refl down disj] by blast
  have "s ! j = down_level P d data j" for j
  proof (cases "\<forall>i \<in> set xs. j \<notin> ?W i")
    case True
    then show ?thesis using s(3) outside [OF True] weak [of "Suc j"] by (auto simp: down_level_def)
  next
    case False
    then obtain i where i: "i \<in> set xs" "j \<in> ?W i" by blast
    then have "unat i < 2 ^ (P - d - 1)" using mem by simp
    note L = level_places [OF d(1) this]
    from s(4) i have "s ! j = down_change d i ((!) data) j" by blast
    then show ?thesis using i(2) L by (auto simp: down_level_def down_change_def simp del: power_Suc)
  qed
  with s(1,2) show "\<exists>data'. foldM (down_round (2 ^ P) (2 ^ (d + 1))) xs data = Some data' \<and> length data' = length data
      \<and> (\<forall>j. data' ! j = down_level P d data j)" by blast
qed

section \<open>The sweeps\<close>

definition seg :: "'a::comm_monoid_add list \<Rightarrow> nat \<Rightarrow> nat \<Rightarrow> 'a" where
  "seg xs a b = (\<Sum>k = a..<b. xs ! k)"

lemma seg_append: "a \<le> b \<Longrightarrow> b \<le> c \<Longrightarrow> seg xs a b + seg xs b c = seg xs a c"
  by (simp add: seg_def sum.atLeastLessThan_concat)

text \<open>Below level \<open>d\<close> a place holds the sum of the largest block it ends; on level \<open>d\<close>, of a block of \<open>2 ^ d\<close>.\<close>

definition up_inv :: "nat \<Rightarrow> 'a::comm_monoid_add list \<Rightarrow> nat \<Rightarrow> 'a list \<Rightarrow> bool" where
  "up_inv P xs d data \<longleftrightarrow> length data = length xs \<and> (\<forall>j \<ge> 2 ^ P. data ! j = xs ! j) \<and>
     (\<forall>j < 2 ^ P. \<forall>e \<le> d. 2 ^ e dvd Suc j \<and> (e = d \<or> \<not> 2 ^ (e + 1) dvd Suc j) \<longrightarrow> data ! j = seg xs (Suc j - 2 ^ e) (Suc j))"

definition down_inv :: "nat \<Rightarrow> 'a::comm_monoid_add \<Rightarrow> 'a list \<Rightarrow> nat \<Rightarrow> 'a list \<Rightarrow> bool" where
  "down_inv P r xs d data \<longleftrightarrow> length data = length xs \<and>
     (\<forall>j < 2 ^ P. (2 ^ d dvd Suc j \<longrightarrow> data ! j = r + seg xs 0 (Suc j - 2 ^ d)) \<and>
       (\<forall>e < d. 2 ^ e dvd Suc j \<and> \<not> 2 ^ (e + 1) dvd Suc j \<longrightarrow> data ! j = seg xs (Suc j - 2 ^ e) (Suc j)))"

lemma up_step:
  assumes inv: "up_inv P xs d data" and len: "length data' = length data"
    and data': "\<And>j. data' ! j = up_level P d data j"
  shows "up_inv P xs (Suc d) data'"
  unfolding up_inv_def
proof (intro conjI allI impI)
  show "length data' = length xs" using inv len by (simp add: up_inv_def)
  show "data' ! j = xs ! j" if "2 ^ P \<le> j" for j using that inv by (simp add: data' up_level_def up_inv_def)
  fix j e :: nat
  assume j: "j < 2 ^ P" and e: "e \<le> Suc d" and dvd: "2 ^ e dvd Suc j \<and> (e = Suc d \<or> \<not> 2 ^ (e + 1) dvd Suc j)"
  have inv': "data ! j = seg xs (Suc j - 2 ^ e) (Suc j)"
    if "j < 2 ^ P" "e \<le> d" "2 ^ e dvd Suc j" "e = d \<or> \<not> 2 ^ (e + 1) dvd Suc j" for j e
    using inv that unfolding up_inv_def by blast
  show "data' ! j = seg xs (Suc j - 2 ^ e) (Suc j)"
  proof (cases "e = Suc d")
    case True
    then have d1: "2 ^ (d + 1) dvd Suc j" using dvd by simp
    then have le: "2 ^ (d + 1) \<le> Suc j" by (rule dvd_imp_le) simp
    have two: "(2 :: nat) ^ (d + 1) = 2 ^ d + 2 ^ d" "0 < (2 :: nat) ^ d" by simp_all
    define l where "l = j - 2 ^ d"
    have l: "Suc l = Suc j - 2 ^ d" "l < 2 ^ P" using le two j by (simp_all add: l_def)
    have dd: "2 ^ d dvd Suc j" using d1 by (rule dvd_trans [rotated]) simp
    have "2 ^ d dvd Suc l" unfolding l(1) using dd by (intro dvd_diff_nat) simp_all
    then have "data ! l = seg xs (Suc l - 2 ^ d) (Suc l)" using inv' [OF l(2), of d] by simp
    moreover have "data ! j = seg xs (Suc l) (Suc j)" using inv' [OF j, of d] dd by (simp add: l(1))
    ultimately have "data ! j + data ! l = seg xs (Suc l - 2 ^ d) (Suc j)"
      using seg_append [of "Suc l - 2 ^ d" "Suc l" "Suc j" xs] by (simp add: l_def add.commute)
    moreover have "Suc l - 2 ^ d = Suc j - 2 ^ e" using two by (simp add: l(1) True)
    moreover have "data' ! j = data ! j + data ! l" using j d1 by (simp only: data' up_level_def l_def) simp
    ultimately show ?thesis by simp
  next
    case False
    then have ed: "e \<le> d" using e by simp
    have "\<not> 2 ^ (d + 1) dvd Suc j"
    proof
      assume "2 ^ (d + 1) dvd Suc j"
      then have "2 ^ (e + 1) dvd Suc j" by (rule dvd_trans [rotated]) (use ed in \<open>simp add: le_imp_power_dvd\<close>)
      with dvd False show False by simp
    qed
    then have "data' ! j = data ! j" by (simp only: data' up_level_def) simp
    with inv' [OF j ed] dvd False show ?thesis by simp
  qed
qed

lemma down_step:
  assumes inv: "down_inv P r xs (Suc d) data" and d: "d < P" and len: "length data' = length data"
    and data': "\<And>j. data' ! j = down_level P d data j"
  shows "down_inv P r xs d data'"
  unfolding down_inv_def
proof (intro conjI allI impI)
  show "length data' = length xs" using inv len by (simp add: down_inv_def)
  have two: "(2 :: nat) ^ (d + 1) = 2 ^ d + 2 ^ d" "0 < (2 :: nat) ^ d" by simp_all
  have top: "data ! j = r + seg xs 0 (Suc j - 2 ^ (d + 1))" if "j < 2 ^ P" "2 ^ (d + 1) dvd Suc j" for j
    using inv that unfolding down_inv_def Suc_eq_plus1 by blast
  have low: "data ! j = seg xs (Suc j - 2 ^ e) (Suc j)"
    if "j < 2 ^ P" "e \<le> d" "2 ^ e dvd Suc j" "\<not> 2 ^ (e + 1) dvd Suc j" for j e
  proof -
    have "e < Suc d" using that(2) by simp
    then show ?thesis using inv that unfolding down_inv_def by blast
  qed
  fix j :: nat
  assume j: "j < 2 ^ P"
  show "data' ! j = r + seg xs 0 (Suc j - 2 ^ d)" if dvd: "2 ^ d dvd Suc j"
  proof (cases "2 ^ (d + 1) dvd Suc j")
    case True
    then have le: "2 ^ (d + 1) \<le> Suc j" by (rule dvd_imp_le) simp
    define l where "l = j - 2 ^ d"
    have l: "Suc l = Suc j - 2 ^ d" "l < 2 ^ P" using le two j by (simp_all add: l_def)
    have "2 ^ d dvd Suc l" unfolding l(1) using dvd by (intro dvd_diff_nat) simp_all
    moreover have "\<not> 2 ^ (d + 1) dvd Suc l"
    proof
      assume "2 ^ (d + 1) dvd Suc l"
      with True have "2 ^ (d + 1) dvd Suc j - Suc l" by (intro dvd_diff_nat)
      moreover have "Suc j - Suc l = 2 ^ d" using l(1) le two by simp
      ultimately have "2 ^ (d + 1) dvd (2 :: nat) ^ d" by simp
      then have "(2 :: nat) ^ (d + 1) \<le> 2 ^ d" by (rule dvd_imp_le) simp
      then show False using two by simp
    qed
    ultimately have "data ! l = seg xs (Suc l - 2 ^ d) (Suc l)" using low [OF l(2), of d] by simp
    moreover have "Suc l - 2 ^ d = Suc j - 2 ^ (d + 1)" unfolding l(1) two(1) by simp
    then have "data ! j = r + seg xs 0 (Suc l - 2 ^ d)" using top [OF j True] by (simp only:)
    moreover have "data' ! j = data ! j + data ! l" using j True by (simp only: data' down_level_def l_def) simp
    ultimately have "data' ! j = r + (seg xs 0 (Suc l - 2 ^ d) + seg xs (Suc l - 2 ^ d) (Suc l))"
      by (simp add: add.assoc)
    then show ?thesis using seg_append [of 0 "Suc l - 2 ^ d" "Suc l" xs] by (simp add: l(1))
  next
    case False
    obtain q where q: "Suc j = 2 ^ d * q" using dvd by (auto simp: dvd_def)
    have "odd q" using False unfolding q by auto
    have P: "(2 :: nat) ^ P = 2 ^ d * 2 ^ (P - d)" using d by (simp flip: power_add)
    have "2 ^ d * q \<le> 2 ^ d * 2 ^ (P - d)" using j unfolding q [symmetric] P [symmetric] by simp
    then have "q \<le> 2 ^ (P - d)" by simp
    moreover have "even ((2 :: nat) ^ (P - d))" using d by simp
    then have "q \<noteq> 2 ^ (P - d)" using \<open>odd q\<close> by auto
    ultimately have "q + 1 \<le> 2 ^ (P - d)" by simp
    then have "2 ^ d * (q + 1) \<le> 2 ^ P" unfolding P by (rule mult_le_mono2)
    then have h: "j + 2 ^ d < 2 ^ P" using q by (simp add: algebra_simps)
    have "Suc (j + 2 ^ d) = 2 ^ d * (q + 1)" using q by (simp add: algebra_simps)
    moreover have "even (q + 1)" using \<open>odd q\<close> by simp
    then obtain s where "q + 1 = 2 * s" by (rule evenE)
    ultimately have "Suc (j + 2 ^ d) = 2 ^ d * (2 * s)" by (simp only:)
    then have "2 ^ (d + 1) dvd Suc (j + 2 ^ d)" by simp
    from top [OF h this] two have "data ! (j + 2 ^ d) = r + seg xs 0 (Suc j - 2 ^ d)" by simp
    then show ?thesis using j dvd False by (simp only: data' down_level_def) simp
  qed
  fix e :: nat
  assume e: "e < d" and dvd: "2 ^ e dvd Suc j \<and> \<not> 2 ^ (e + 1) dvd Suc j"
  have "\<not> 2 ^ d dvd Suc j"
  proof
    assume "2 ^ d dvd Suc j"
    moreover have "(2 :: nat) ^ (e + 1) dvd 2 ^ d" by (rule le_imp_power_dvd) (use e in simp)
    ultimately have "2 ^ (e + 1) dvd Suc j" using dvd_trans by blast
    with dvd show False by simp
  qed
  moreover from this have "\<not> 2 ^ (d + 1) dvd Suc j" by (meson dvd_trans le_imp_power_dvd le_add1)
  ultimately have "data' ! j = data ! j" by (simp only: data' down_level_def) simp
  with low [OF j _ conjunct1 [OF dvd] conjunct2 [OF dvd]] e show "data' ! j = seg xs (Suc j - 2 ^ e) (Suc j)" by simp
qed

section \<open>The prefix sums\<close>

text \<open>The orders of all levels of one scan of \<open>2 ^ P\<close> places.\<close>

definition orders_ok :: "(bool \<Rightarrow> u64 \<Rightarrow> u64 \<Rightarrow> u64 list) \<Rightarrow> bool" where
  "orders_ok par \<longleftrightarrow> (\<forall>b d limit. unat limit \<le> 2 ^ 30 \<longrightarrow> all_below (unat limit) (par b d limit))"

lemma order_below:
  assumes "orders_ok par" "d < P" "P < 30"
  shows "all_below (2 ^ (P - d - 1)) (par b (of_nat d) (of_int (2 ^ (P - d - 1))))"
proof -
  have "(2 :: nat) ^ (P - d - 1) \<le> 2 ^ 30" using assms(3) by (intro power_increasing) simp_all
  moreover have "unat (of_int (2 ^ (P - d - 1)) :: u64) = 2 ^ (P - d - 1)" using assms(3) by (intro unat_pow) simp
  ultimately show ?thesis using assms(1) unfolding orders_ok_def by metis
qed

lemma up_sweep:
  assumes P: "P < 30" and n: "2 ^ P \<le> length xs" and par: "orders_ok par" and k: "k \<le> P"
  shows "\<exists>data. foldM (level (par True) up_round (2 ^ P)) (map of_nat [0..<k]) xs = Some data \<and> up_inv P xs k data"
  using k
proof (induction k)
  case 0
  show ?case by (simp add: up_inv_def seg_def)
next
  case (Suc k)
  then obtain data where data: "foldM (level (par True) up_round (2 ^ P)) (map of_nat [0..<k]) xs = Some data"
    "up_inv P xs k data" by auto
  have k: "k < P" using Suc.prems by simp
  have "length data = length xs" using data(2) by (simp add: up_inv_def)
  then have "2 ^ P \<le> length data" using n by simp
  from level_result(1) [OF k P this order_below [OF par k P, of True]] obtain data' where
    data': "foldM (up_round (2 ^ P) (2 ^ (k + 1))) (par True (of_nat k) (of_int (2 ^ (P - k - 1)))) data = Some data'"
    "length data' = length data" "\<forall>j. data' ! j = up_level P k data j" by blast
  have "level (par True) up_round (2 ^ P) (of_nat k) data = Some data'"
    unfolding level_limit [OF k P] by (rule data'(1))
  moreover have "up_inv P xs (Suc k) data'" using up_step [OF data(2) data'(2)] data'(3) by simp
  ultimately show ?case using data(1) by (simp add: foldM_append)
qed

lemma down_sweep:
  assumes P: "P < 30" and n: "2 ^ P \<le> length xs" and par: "orders_ok par" and k: "k \<le> P"
    and inv: "down_inv P r xs k data"
  shows "\<exists>data'. (if k = 0 then Some data else
      down_loop (\<lambda>d. level (par False) down_round (2 ^ P) (of_nat d)) (k - 1) data) = Some data'
    \<and> down_inv P r xs 0 data' \<and> (\<forall>j \<ge> 2 ^ P. data' ! j = data ! j)"
  using k inv
proof (induction k arbitrary: data)
  case 0
  then show ?case by simp
next
  case (Suc k)
  have k: "k < P" using Suc.prems by simp
  have "2 ^ P \<le> length data" using n Suc.prems(2) by (simp add: down_inv_def)
  from level_result(2) [OF k P this order_below [OF par k P, of False]] obtain data' where
    data': "foldM (down_round (2 ^ P) (2 ^ (k + 1))) (par False (of_nat k) (of_int (2 ^ (P - k - 1)))) data = Some data'"
    "length data' = length data" "\<forall>j. data' ! j = down_level P k data j" by blast
  have one: "level (par False) down_round (2 ^ P) (of_nat k) data = Some data'"
    unfolding level_limit [OF k P] by (rule data'(1))
  have "down_inv P r xs k data'" using down_step [OF Suc.prems(2) k data'(2)] data'(3) by simp
  with Suc.IH [of data'] k obtain data2 where data2: "(if k = 0 then Some data' else
      down_loop (\<lambda>d. level (par False) down_round (2 ^ P) (of_nat d)) (k - 1) data') = Some data2"
    "down_inv P r xs 0 data2" "\<forall>j \<ge> 2 ^ P. data2 ! j = data' ! j" by auto
  have "\<forall>j \<ge> 2 ^ P. data2 ! j = data ! j" using data2(3) data'(3) by (simp add: down_level_def)
  moreover have "down_loop (\<lambda>d. level (par False) down_round (2 ^ P) (of_nat d)) k data = Some data2"
    using one data2(1) by (cases k) simp_all
  ultimately show ?case using data2(2) by simp
qed

text \<open>The first level of the down-sweep has one round, which finds its block outside the array.\<close>

lemma top_level:
  assumes P: "P < 30" and n: "2 ^ P \<le> length data" and par: "orders_ok par"
  shows "level (par False) down_round (2 ^ P) (of_nat P) data = Some data"
proof -
  have "unat (of_nat P + 1 :: u64) = P + 1"
  proof -
    have "(of_nat P + 1 :: u64) = of_nat (P + 1)" by simp
    then show ?thesis using P by (simp only: unat_of_nat) simp
  qed
  then have s: "one_shifted (of_nat P + 1) = Some (2 ^ (P + 1))"
    using P by (simp add: one_shifted_def word_less_nat_alt)
  have p: "(2 :: int) ^ P \<le> 2 ^ 29" "0 < (2 :: int) ^ P" using P by (intro power_increasing; simp)+ simp
  have "- 1 < (2 :: int) ^ P" using p(2) by linarith
  then have "(2 ^ P + 2 ^ (P + 1) - 1) div 2 ^ (P + 1) = (1 :: int)"
    by (intro int_div_pos_eq [where r = "2 ^ P - 1"]) simp_all
  then have lev: "level (par False) down_round (2 ^ P) (of_nat P) data
      = foldM (down_round (2 ^ P) (2 ^ (P + 1))) (par False (of_nat P) 1) data"
    unfolding level_def s using p(1) by simp
  have "unat (1 :: u64) \<le> 2 ^ 30" by simp
  then have "all_below (unat (1 :: u64)) (par False (of_nat P) 1)" using par unfolding orders_ok_def by blast
  then have all: "all_below 1 (par False (of_nat P) 1)" by simp
  have P31: "P < 31" using P by simp
  have "(2 :: nat) ^ P \<le> 2 ^ 29" using P by (intro power_increasing) simp_all
  then have h: "hi P 0 < 2 ^ 63" by (simp add: hi_def)
  note R = round_places [OF h]
  have "down_round (2 ^ P) (2 ^ (P + 1)) 0 s = Some s" if "length s = length data" for s :: "'a list"
  proof -
    have "0 < (2 :: nat) ^ P" by simp
    moreover have "lo P 0 = 2 ^ P - 1" by (simp add: lo_def)
    ultimately have "lo P 0 < length s" using n that by linarith
    moreover have "\<not> 0 + 0 * of_int (2 ^ (P + 1)) + of_int (2 ^ (P + 1)) - 1 < (of_int (2 ^ P) :: u64)"
      unfolding word_less_nat_alt R(1) unat_pow [OF P31] by (simp add: hi_def)
    ultimately show ?thesis unfolding down_round_def Let_def at_def R by simp
  qed
  then have "foldM (down_round (2 ^ P) (2 ^ (P + 1))) xs data = Some data" if "\<forall>i \<in> set xs. i = 0" for xs
    using that by (induction xs) simp_all
  moreover have "\<forall>i \<in> set (par False (of_nat P) 1). i = 0"
    using all by (auto simp: all_below_def unat_eq_0)
  ultimately show ?thesis unfolding lev by blast
qed

lemma Scan_result:
  fixes xs :: "'a::comm_monoid_add list"
  assumes P: "unat size_pow < 30" and n: "2 ^ unat size_pow \<le> length xs" and par: "orders_ok par"
  defines "r \<equiv> if length xs = 2 ^ unat size_pow then 0 else seg xs 0 (2 ^ unat size_pow)"
  shows "\<exists>data. Scan par size_pow xs = Some data \<and> length data = length xs
    \<and> (\<forall>j < 2 ^ unat size_pow. data ! j = r + seg xs 0 j)"
proof -
  let ?P = "unat size_pow"
  have s: "one_shifted size_pow = Some (2 ^ ?P)" using P by (simp add: one_shifted_def word_less_nat_alt)
  obtain up where up: "foldM (level (par True) up_round (2 ^ ?P)) (map of_nat [0..<?P]) xs = Some up" "up_inv ?P xs ?P up"
    using up_sweep [OF P n par, of ?P] by blast
  have len: "length up = length xs" using up(2) by (simp add: up_inv_def)
  have ne: "up \<noteq> []" using n len by (auto simp: le_less_trans)
  let ?d = "up[length up - 1 := 0]"
  have "down_inv ?P r xs ?P ?d"
    unfolding down_inv_def
  proof (intro conjI allI impI)
    fix j :: nat
    assume j: "j < 2 ^ ?P"
    have up_at: "up ! j = seg xs (Suc j - 2 ^ e) (Suc j)"
      if "e \<le> ?P" "2 ^ e dvd Suc j" "e = ?P \<or> \<not> 2 ^ (e + 1) dvd Suc j" for e
      using up(2) j that unfolding up_inv_def by blast
    show "?d ! j = r + seg xs 0 (Suc j - 2 ^ ?P)" if dvd: "2 ^ ?P dvd Suc j"
    proof -
      have "2 ^ ?P \<le> Suc j" using dvd by (rule dvd_imp_le) simp
      with j have jP: "Suc j = 2 ^ ?P" by simp
      show ?thesis
      proof (cases "length xs = 2 ^ ?P")
        case True
        then have "j = length up - 1" using jP len by simp
        then show ?thesis using ne True len by (simp add: r_def jP seg_def)
      next
        case False
        then have "j \<noteq> length up - 1" using jP len n by simp
        then show ?thesis using up_at [of ?P] dvd False by (simp add: r_def jP seg_def)
      qed
    qed
    fix e :: nat
    assume e: "e < ?P" and dvd: "2 ^ e dvd Suc j \<and> \<not> 2 ^ (e + 1) dvd Suc j"
    have "j \<noteq> length up - 1 \<or> length xs \<noteq> 2 ^ ?P"
    proof (rule ccontr)
      assume "\<not> ?thesis"
      then have "Suc j = 2 ^ ?P" using len ne by (cases up) simp_all
      then have "2 ^ (e + 1) dvd Suc j" using e by (simp only: le_imp_power_dvd Suc_eq_plus1 [symmetric] Suc_le_eq)
      with dvd show False by simp
    qed
    then have "j \<noteq> length up - 1" using j n len by auto
    with up_at [of e] e dvd show "?d ! j = seg xs (Suc j - 2 ^ e) (Suc j)" by simp
  qed (simp add: len)
  from down_sweep [OF P n par order.refl this] obtain data where data: "(if ?P = 0 then Some ?d else
      down_loop (\<lambda>d. level (par False) down_round (2 ^ ?P) (of_nat d)) (?P - 1) ?d) = Some data"
    "down_inv ?P r xs 0 data" by blast
  have "2 ^ ?P \<le> length ?d" using n len by simp
  note top = top_level [OF P this par]
  have "down_loop (\<lambda>d. level (par False) down_round (2 ^ ?P) (of_nat d)) ?P ?d = Some data"
    using data(1) top by (cases ?P) simp_all
  then have "Scan par size_pow xs = Some data"
    using up(1) ne by (simp add: Scan_def s for_neq_indices indices_def)
  moreover have "length data = length xs" "\<forall>j < 2 ^ ?P. data ! j = r + seg xs 0 j"
    using data(2) by (simp_all add: down_inv_def)
  ultimately show ?thesis by blast
qed

text \<open>Orders the partitioner runs the levels in.\<close>

lemma eigen_orders_ok:
  assumes "0 < threads" "unat threads < 2 ^ 31"
    "\<And>b d limit. unat limit \<le> 2 ^ 30 \<Longrightarrow> eigen_order init m stack_empty threads 1 0 limit (par b d limit)"
  shows "orders_ok par"
  unfolding orders_ok_def all_below_def
proof (intro allI impI)
  fix b d and limit :: u64
  assume lim: "unat limit \<le> 2 ^ 30"
  then have ok: "loop_ok threads 0 limit 1" using assms(1,2) by (simp add: loop_ok_def)
  note order = assms(3) [OF lim, of b d]
  show "distinct (par b d limit) \<and> (\<forall>i. (i \<in> set (par b d limit)) = (unat i < unat limit))"
    using eigen.order_distinct [OF ok order] eigen.order_set [OF ok order] by (simp add: word_less_nat_alt)
qed

lemma eigen_orders_exist:
  assumes "0 < threads" "unat threads < 2 ^ 31"
  shows "\<exists>par. \<forall>(b :: bool) (d :: u64) limit. unat limit \<le> 2 ^ 30 \<longrightarrow> eigen_order init m stack_empty threads 1 0 limit (par b d limit)"
proof -
  have "\<forall>limit. \<exists>xs. unat limit \<le> 2 ^ 30 \<longrightarrow> eigen_order init m stack_empty threads 1 0 limit xs"
  proof
    fix limit :: u64
    show "\<exists>xs. unat limit \<le> 2 ^ 30 \<longrightarrow> eigen_order init m stack_empty threads 1 0 limit xs"
    proof (cases "unat limit \<le> 2 ^ 30")
      case True
      then have "loop_ok threads 0 limit 1" using assms by (simp add: loop_ok_def)
      from eigen.order_exists [OF this, of init m stack_empty] show ?thesis by blast
    qed simp
  qed
  then obtain f where "\<forall>limit. unat limit \<le> 2 ^ 30 \<longrightarrow> eigen_order init m stack_empty threads 1 0 limit (f limit)"
    by metis
  then show ?thesis by (intro exI [of _ "\<lambda>b d. f"]) simp
qed

text \<open>
  C24: The parallel scan of an array of exactly \<open>2 ^ size_pow\<close> elements returns the sums of the elements
  before each place, in any commutative monoid and whatever order the partitioner runs the rounds of
  each level in.
\<close>

theorem Scan_prefix_sums:
  fixes data :: "'a::comm_monoid_add list"
  assumes "unat size_pow < 30" "length data = 2 ^ unat size_pow" "0 < threads" "unat threads < 2 ^ 31"
    "\<And>b d limit. unat limit \<le> 2 ^ 30 \<Longrightarrow> eigen_order init m stack_empty threads 1 0 limit (par b d limit)"
  shows "Scan par size_pow data = Some (map (\<lambda>j. \<Sum>k<j. data ! k) [0..<length data])"
proof -
  have "2 ^ unat size_pow \<le> length data" using assms(2) by simp
  moreover have "orders_ok par" by (rule eigen_orders_ok [OF assms(3,4)]) (rule assms(5))
  ultimately obtain out where
    out: "Scan par size_pow data = Some out" "length out = length data" "\<forall>j < 2 ^ unat size_pow. out ! j = seg data 0 j"
    using Scan_result [OF assms(1), of data par] assms(2) by auto
  then have "out = map (\<lambda>j. \<Sum>k<j. data ! k) [0..<length data]"
    using assms(2) by (intro nth_equalityI) (simp_all add: seg_def atLeast0LessThan)
  with out(1) show ?thesis by simp
qed

theorem Scan_prefix_sums_witness:
  "\<exists>par. Scan par 2 [5, 1, 2, 4 :: int] = Some [0, 5, 6, 8]"
proof -
  have t: "0 < (24 :: u64)" "unat (24 :: u64) < 2 ^ 31" by simp_all
  obtain par where par: "\<forall>(b :: bool) (d :: u64) limit. unat limit \<le> 2 ^ 30 \<longrightarrow> eigen_order 205000 EIGEN_SHARING True 24 1 0 limit (par b d limit)"
    using eigen_orders_exist [OF t] by blast
  have "Scan par 2 [5, 1, 2, 4 :: int] = Some (map (\<lambda>j. \<Sum>k<j. [5, 1, 2, 4] ! k) [0..<length [5, 1, 2, 4 :: int]])"
    by (rule Scan_prefix_sums [where init = 205000 and m = EIGEN_SHARING and stack_empty = True and threads = 24])
      (use par t in simp_all)
  moreover have "map (\<lambda>j. \<Sum>k<j. [5, 1, 2, 4] ! k) [0..<length [5, 1, 2, 4 :: int]] = [0, 5, 6, 8]"
    by (simp add: upt_rec lessThan_nat_numeral lessThan_Suc numeral_eq_Suc)
  ultimately show ?thesis by auto
qed

text \<open>
  In an array longer than \<open>2 ^ size_pow\<close> the scan clears the last element of the array instead of the
  last one of the scanned part, and every scanned place ends up too large by the sum of all scanned
  elements.
\<close>

lemma Scan_of_longer_array:
  fixes data :: "'a::comm_monoid_add list"
  assumes "unat size_pow < 30" "2 ^ unat size_pow < length data" "0 < threads" "unat threads < 2 ^ 31"
    "\<And>b d limit. unat limit \<le> 2 ^ 30 \<Longrightarrow> eigen_order init m stack_empty threads 1 0 limit (par b d limit)"
  shows "\<exists>out. Scan par size_pow data = Some out \<and> length out = length data \<and>
    (\<forall>j < 2 ^ unat size_pow. out ! j = (\<Sum>k < 2 ^ unat size_pow. data ! k) + (\<Sum>k<j. data ! k))"
proof -
  have "2 ^ unat size_pow \<le> length data" using assms(2) by simp
  moreover have "orders_ok par" by (rule eigen_orders_ok [OF assms(3,4)]) (rule assms(5))
  ultimately show ?thesis
    using Scan_result [OF assms(1), of data par] assms(2) by (simp add: seg_def atLeast0LessThan)
qed

text \<open>Two elements of three.\<close>

lemma Scan_of_longer_array_example:
  "\<exists>par out. Scan par 1 [5, 1, 7 :: int] = Some out \<and> out ! 0 = 6 \<and> out ! 1 = 11"
proof -
  have t: "0 < (24 :: u64)" "unat (24 :: u64) < 2 ^ 31" by simp_all
  obtain par where par: "\<forall>(b :: bool) (d :: u64) limit. unat limit \<le> 2 ^ 30 \<longrightarrow> eigen_order 205000 EIGEN_SHARING True 24 1 0 limit (par b d limit)"
    using eigen_orders_exist [OF t] by blast
  have "\<exists>out. Scan par 1 [5, 1, 7 :: int] = Some out \<and> length out = length [5, 1, 7 :: int] \<and>
    (\<forall>j < 2 ^ unat (1 :: u64). out ! j = (\<Sum>k < 2 ^ unat (1 :: u64). [5, 1, 7] ! k) + (\<Sum>k<j. [5, 1, 7] ! k))"
    by (rule Scan_of_longer_array [where init = 205000 and m = EIGEN_SHARING and stack_empty = True and threads = 24])
      (use par t in simp_all)
  then obtain out where out: "Scan par 1 [5, 1, 7 :: int] = Some out"
    "\<forall>j < 2. out ! j = (\<Sum>k < 2. [5, 1, 7] ! k) + (\<Sum>k<j. [5, 1, 7] ! k)" by auto
  from out(2) [rule_format, of 0] out(2) [rule_format, of 1] have "out ! 0 = 6" "out ! 1 = 11"
    by (simp_all add: lessThan_nat_numeral lessThan_Suc numeral_2_eq_2)
  with out(1) show ?thesis by blast
qed

end
