(* ===== verification/Intrusive_Ptr.thy ===== *)
theory Intrusive_Ptr
  imports Task_Nodes
begin

text \<open>
  The smart pointer \<open>IntrusivePtr<TaskNode>\<close> of src/include/intrusive\_ptr.h over the node store of
  \<open>Task_Nodes\<close>: its constructors, destructor, assignments, \<open>Reset\<close> and \<open>swap\<close>, as functions of a state
  that holds the nodes and the pointer objects.  Every use of a deleted node, and of a pointer object that
  does not exist, is an error; the theorem is that a program of these operations has none.
\<close>

section \<open>The operations\<close>

text \<open>A pointer object is named by a number; \<open>None\<close> in \<open>ptrs\<close> means that there is no such object.\<close>

record ptr_state =
  nodes :: store
  ptrs :: "nat \<Rightarrow> nat option option"

fun then_do :: "'e + 'a \<Rightarrow> ('a \<Rightarrow> 'e + 'b) \<Rightarrow> 'e + 'b" where
  "then_do (Inl e) f = Inl e"
| "then_do (Inr x) f = f x"

lemma then_do_Inr: "then_do x f = Inr y \<longleftrightarrow> (\<exists>z. x = Inr z \<and> f z = Inr y)"
  by (cases x) simp_all

lemma then_do_cong [fundef_cong]: "x = x' \<Longrightarrow> (\<And>z. x' = Inr z \<Longrightarrow> f z = f' z) \<Longrightarrow> then_do x f = then_do x' f'"
  by (cases x') simp_all

definition get :: "nat \<Rightarrow> ptr_state \<Rightarrow> par_error + nat option" where
  "get v h = (case ptrs h v of None \<Rightarrow> Inl UseAfterFree | Some p \<Rightarrow> Inr p)"

definition add_ref :: "nat option \<Rightarrow> store \<Rightarrow> par_error + store" where
  "add_ref p ns = (case p of None \<Rightarrow> Inr ns | Some n \<Rightarrow> IntrusivePtrAddRef n ns)"

lemma filter_update:
  "n < length ns \<Longrightarrow> length (filter P (ns[n := x])) + of_bool (P (ns ! n)) = length (filter P ns) + of_bool (P x)"
proof (induction ns arbitrary: n)
  case (Cons y ns)
  then show ?case by (cases n) auto
qed simp

text \<open>
  \<open>~IntrusivePtr\<close>: deleting a node destroys its \<open>Parent\<close>, which may delete the parent, and so on.
\<close>

function release :: "nat option \<Rightarrow> store \<Rightarrow> par_error + store" where
  "release None ns = Inr ns"
| "release (Some n) ns = then_do (IntrusivePtrRelease n ns) (\<lambda>(next_ptr, ns). release next_ptr ns)"
  by pat_completeness auto
termination
proof (relation "measure (\<lambda>(p, ns). 2 * length (filter alive ns) + of_bool (p \<noteq> None))")
  fix n :: nat and ns and z :: "nat option \<times> store" and next_ptr ns'
  assume "IntrusivePtrRelease n ns = Inr z" "(next_ptr, ns') = z"
  then have r: "IntrusivePtrRelease n ns = Inr (next_ptr, ns')" by simp
  then have n: "n < length ns" "alive (ns ! n)"
    by (auto simp: IntrusivePtrRelease_def live_def split: if_splits)
  have upd: "length (filter alive (ns[n := nd])) + 1 = length (filter alive ns) + of_bool (alive nd)" for nd
    using filter_update [OF n(1), of alive nd] n(2) by simp
  from r have "(\<exists>nd. ns' = ns[n := nd] \<and> \<not> alive nd) \<or> next_ptr = None \<and> (\<exists>nd. ns' = ns[n := nd] \<and> alive nd)"
    using n by (auto simp: IntrusivePtrRelease_def Let_def split: if_splits)
  then show "((next_ptr, ns'), Some n, ns) \<in> measure (\<lambda>(p, ns). 2 * length (filter alive ns) + of_bool (p \<noteq> None))"
  proof (elim disjE exE conjE)
    fix nd
    assume "ns' = ns[n := nd]" "\<not> alive nd"
    then show ?thesis using upd [of nd] by (cases next_ptr) simp_all
  next
    fix nd
    assume "next_ptr = None" "ns' = ns[n := nd]" "alive nd"
    then show ?thesis using upd [of nd] by simp
  qed
qed simp

text \<open>The constructors: null, from a raw pointer, copying and moving.\<close>

definition new_null :: "nat \<Rightarrow> ptr_state \<Rightarrow> par_error + ptr_state" where
  "new_null v h = Inr (h\<lparr>ptrs := (ptrs h)(v \<mapsto> None)\<rparr>)"

definition new_raw :: "nat \<Rightarrow> nat option \<Rightarrow> ptr_state \<Rightarrow> par_error + ptr_state" where
  "new_raw v p h = then_do (add_ref p (nodes h)) (\<lambda>ns. Inr (h\<lparr>nodes := ns, ptrs := (ptrs h)(v \<mapsto> p)\<rparr>))"

definition new_copy :: "nat \<Rightarrow> nat \<Rightarrow> ptr_state \<Rightarrow> par_error + ptr_state" where
  "new_copy v r h = then_do (get r h) (\<lambda>p.
     then_do (add_ref p (nodes h)) (\<lambda>ns. Inr (h\<lparr>nodes := ns, ptrs := (ptrs h)(v \<mapsto> p)\<rparr>)))"

definition new_move :: "nat \<Rightarrow> nat \<Rightarrow> ptr_state \<Rightarrow> par_error + ptr_state" where
  "new_move v r h = then_do (get r h) (\<lambda>p. Inr (h\<lparr>ptrs := (ptrs h)(v \<mapsto> p, r \<mapsto> None)\<rparr>))"

definition destroy_ptr :: "nat \<Rightarrow> ptr_state \<Rightarrow> par_error + ptr_state" where
  "destroy_ptr v h = then_do (get v h) (\<lambda>p.
     then_do (release p (nodes h)) (\<lambda>ns. Inr (h\<lparr>nodes := ns, ptrs := (ptrs h)(v := None)\<rparr>)))"

definition swap_ptrs :: "nat \<Rightarrow> nat \<Rightarrow> ptr_state \<Rightarrow> par_error + ptr_state" where
  "swap_ptrs v b h = then_do (get v h) (\<lambda>p. then_do (get b h) (\<lambda>q.
     Inr (h\<lparr>ptrs := (ptrs h)(v \<mapsto> q, b \<mapsto> p)\<rparr>)))"

text \<open>\<open>temporary.swap(*this)\<close> for a temporary that holds \<open>tmp\<close>, and the temporary's destructor.\<close>

definition swap_in :: "nat \<Rightarrow> nat option \<Rightarrow> ptr_state \<Rightarrow> par_error + ptr_state" where
  "swap_in v tmp h = then_do (get v h) (\<lambda>old.
     let h = h\<lparr>ptrs := (ptrs h)(v \<mapsto> tmp)\<rparr>
     in then_do (release old (nodes h)) (\<lambda>ns. Inr (h\<lparr>nodes := ns\<rparr>)))"

definition assign_copy :: "nat \<Rightarrow> nat \<Rightarrow> ptr_state \<Rightarrow> par_error + ptr_state" where
  "assign_copy v r h = then_do (get v h) (\<lambda>p. then_do (get r h) (\<lambda>q.
     if p \<noteq> q then then_do (add_ref q (nodes h)) (\<lambda>ns. swap_in v q (h\<lparr>nodes := ns\<rparr>)) else Inr h))"

definition assign_raw :: "nat \<Rightarrow> nat option \<Rightarrow> ptr_state \<Rightarrow> par_error + ptr_state" where
  "assign_raw v r h = then_do (get v h) (\<lambda>p.
     if p \<noteq> r then then_do (add_ref r (nodes h)) (\<lambda>ns. swap_in v r (h\<lparr>nodes := ns\<rparr>)) else Inr h)"

definition assign_move :: "nat \<Rightarrow> nat \<Rightarrow> ptr_state \<Rightarrow> par_error + ptr_state" where
  "assign_move v r h =
     (if v \<noteq> r then then_do (get r h) (\<lambda>q. swap_in v q (h\<lparr>ptrs := (ptrs h)(r \<mapsto> None)\<rparr>)) else Inr h)"

definition Reset :: "nat \<Rightarrow> ptr_state \<Rightarrow> par_error + ptr_state" where
  "Reset v h = swap_in v None h"

text \<open>
  \<open>IntrusivePtr v{new TaskNode{parent}}\<close>: the new node's \<open>Parent\<close> is a copy of the pointer \<open>parent\<close>.
\<close>

definition new_node :: "nat \<Rightarrow> nat \<Rightarrow> ptr_state \<Rightarrow> par_error + ptr_state" where
  "new_node v parent h = then_do (get parent h) (\<lambda>p.
     then_do (add_ref p (nodes h)) (\<lambda>ns. new_raw v (Some (length ns)) (h\<lparr>nodes := ns @ [TaskNode p]\<rparr>)))"

text \<open>
  \<open>operator*\<close> and \<open>operator->\<close>: the node a pointer object refers to.  Through a null pointer, or to a node that
  is deleted, this is undefined.
\<close>

definition deref :: "nat \<Rightarrow> ptr_state \<Rightarrow> par_error + node" where
  "deref v h = then_do (get v h) (\<lambda>p.
     case p of None \<Rightarrow> Inl UseAfterFree | Some n \<Rightarrow> if live (nodes h) n then Inr (nodes h ! n) else Inl UseAfterFree)"

text \<open>\<open>operator bool\<close> and the comparisons of two pointer objects and of one with an address.\<close>

definition ptr_bool :: "nat \<Rightarrow> ptr_state \<Rightarrow> par_error + bool" where
  "ptr_bool v h = then_do (get v h) (\<lambda>p. Inr (p \<noteq> None))"

definition ptr_eq :: "nat \<Rightarrow> nat \<Rightarrow> ptr_state \<Rightarrow> par_error + bool" where
  "ptr_eq a b h = then_do (get a h) (\<lambda>p. then_do (get b h) (\<lambda>q. Inr (p = q)))"

definition ptr_neq :: "nat \<Rightarrow> nat \<Rightarrow> ptr_state \<Rightarrow> par_error + bool" where
  "ptr_neq a b h = then_do (ptr_eq a b h) (\<lambda>eq. Inr (\<not> eq))"

definition ptr_eq_raw :: "nat \<Rightarrow> nat option \<Rightarrow> ptr_state \<Rightarrow> par_error + bool" where
  "ptr_eq_raw a b h = then_do (get a h) (\<lambda>p. Inr (p = b))"

definition ptr_neq_raw :: "nat \<Rightarrow> nat option \<Rightarrow> ptr_state \<Rightarrow> par_error + bool" where
  "ptr_neq_raw a b h = then_do (ptr_eq_raw a b h) (\<lambda>eq. Inr (\<not> eq))"

definition raw_eq_ptr :: "nat option \<Rightarrow> nat \<Rightarrow> ptr_state \<Rightarrow> par_error + bool" where
  "raw_eq_ptr a b h = ptr_eq_raw b a h"

definition raw_neq_ptr :: "nat option \<Rightarrow> nat \<Rightarrow> ptr_state \<Rightarrow> par_error + bool" where
  "raw_neq_ptr a b h = ptr_neq_raw b a h"

text \<open>
  The counter inside an object: a new object and a copy of another start without references, an assignment
  keeps those there are; \<open>use_count\<close> narrows the counter to \<open>unsigned int\<close>.
\<close>

definition ref_counter :: "u64" where
  "ref_counter = 0"

definition ref_counter_copy :: "u64 \<Rightarrow> u64" where
  "ref_counter_copy other = 0"

definition ref_counter_assign :: "u64 \<Rightarrow> u64 \<Rightarrow> u64" where
  "ref_counter_assign other own = own"

definition use_count :: "u64 \<Rightarrow> u32" where
  "use_count c = ucast c"

text \<open>A check that asks for the node and its counter: \<open>v->use_count()\<close>.\<close>

definition use_count_of :: "nat \<Rightarrow> ptr_state \<Rightarrow> par_error + u32" where
  "use_count_of v h = then_do (deref v h) (\<lambda>nd. Inr (use_count (m_cnt nd)))"

datatype ptr_op =
    Null nat
  | Raw nat "nat option"
  | Copy nat nat
  | Move nat nat
  | Destroy nat
  | Swap nat nat
  | Assign_copy nat nat
  | Assign_raw nat "nat option"
  | Assign_move nat nat
  | Reset_op nat
  | New_node nat nat
  | Deref nat

fun do_op :: "ptr_op \<Rightarrow> ptr_state \<Rightarrow> par_error + ptr_state" where
  "do_op (Null v) = new_null v"
| "do_op (Raw v p) = new_raw v p"
| "do_op (Copy v r) = new_copy v r"
| "do_op (Move v r) = new_move v r"
| "do_op (Destroy v) = destroy_ptr v"
| "do_op (Swap v b) = swap_ptrs v b"
| "do_op (Assign_copy v r) = assign_copy v r"
| "do_op (Assign_raw v p) = assign_raw v p"
| "do_op (Assign_move v r) = assign_move v r"
| "do_op (Reset_op v) = Reset v"
| "do_op (New_node v parent) = new_node v parent"
| "do_op (Deref v) = (\<lambda>h. then_do (deref v h) (\<lambda>_. Inr h))"

section \<open>Counting references\<close>

text \<open>
  The references to a node: pointer objects, the parents of living nodes, references \<open>X\<close> held in the
  middle of an operation and \<open>pinned\<close> ones taken by hand (as for the root of a loop, which is no heap object).
\<close>

definition ptr_refs :: "(nat \<Rightarrow> nat option option) \<Rightarrow> nat \<Rightarrow> nat" where
  "ptr_refs ps n = card {v. ps v = Some (Some n)}"

definition parent_refs :: "store \<Rightarrow> nat \<Rightarrow> nat" where
  "parent_refs ns n = length (filter (\<lambda>nd. alive nd \<and> Parent nd = Some n) ns)"

definition refs :: "(nat \<Rightarrow> nat) \<Rightarrow> nat multiset \<Rightarrow> ptr_state \<Rightarrow> nat \<Rightarrow> nat" where
  "refs pinned X h n = ptr_refs (ptrs h) n + parent_refs (nodes h) n + count X n + pinned n"

definition counted :: "(nat \<Rightarrow> nat) \<Rightarrow> nat multiset \<Rightarrow> ptr_state \<Rightarrow> bool" where
  "counted pinned X h \<longleftrightarrow> finite (dom (ptrs h)) \<and>
     (\<forall>n. live (nodes h) n = (0 < refs pinned X h n)
        \<and> (live (nodes h) n \<longrightarrow> unat (m_cnt (nodes h ! n)) = refs pinned X h n))"

text \<open>The multiset of a nullable pointer.\<close>

definition ref_of :: "nat option \<Rightarrow> nat multiset" where
  "ref_of p = (case p of None \<Rightarrow> {#} | Some n \<Rightarrow> {#n#})"

lemma ref_of_simps [simp]: "ref_of None = {#}" "ref_of (Some n) = {#n#}"
  by (simp_all add: ref_of_def)

lemma ptr_refs_set:
  assumes "finite (dom ps)"
  shows "ptr_refs (ps(v := x)) n + of_bool (ps v = Some (Some n)) = ptr_refs ps n + of_bool (x = Some (Some n))"
proof -
  have fin: "finite {w. ps w = Some (Some n)}"
    by (rule finite_subset [OF _ assms]) auto
  have split: "{w. (ps(v := x)) w = Some (Some n)}
      = (if x = Some (Some n) then insert v ({w. ps w = Some (Some n)} - {v}) else {w. ps w = Some (Some n)} - {v})"
    by auto
  have "card ({w. ps w = Some (Some n)} - {v}) + of_bool (ps v = Some (Some n)) = card {w. ps w = Some (Some n)}"
  proof (cases "ps v = Some (Some n)")
    case True
    then show ?thesis using card.remove [OF fin, of v] by simp
  qed simp
  moreover have "card (insert v ({w. ps w = Some (Some n)} - {v})) = Suc (card ({w. ps w = Some (Some n)} - {v}))"
    by (rule card_insert_disjoint) (use fin in simp_all)
  ultimately show ?thesis unfolding ptr_refs_def split by simp
qed

lemma parent_refs_set:
  assumes "n < length ns"
  shows "parent_refs (ns[n := nd]) k + of_bool (alive (ns ! n) \<and> Parent (ns ! n) = Some k)
    = parent_refs ns k + of_bool (alive nd \<and> Parent nd = Some k)"
  unfolding parent_refs_def by (rule filter_update [OF assms])

text \<open>The reference a pointer object holds moves into its place and out of it.\<close>

definition slot_ref :: "nat option option \<Rightarrow> nat multiset" where
  "slot_ref x = (case x of None \<Rightarrow> {#} | Some p \<Rightarrow> ref_of p)"

lemma slot_ref_simps [simp]: "slot_ref None = {#}" "slot_ref (Some p) = ref_of p"
  by (simp_all add: slot_ref_def)

lemma count_slot_ref: "count (slot_ref x) n = of_bool (x = Some (Some n))"
  by (auto simp: slot_ref_def ref_of_def split: option.split)

lemma counted_set:
  assumes "counted pinned (X + slot_ref x) h"
  shows "counted pinned (X + slot_ref (ptrs h v)) (h\<lparr>ptrs := (ptrs h)(v := x)\<rparr>)"
proof -
  have fin: "finite (dom (ptrs h))" using assms by (simp add: counted_def)
  have same: "refs pinned (X + slot_ref (ptrs h v)) (h\<lparr>ptrs := (ptrs h)(v := x)\<rparr>) n
      = refs pinned (X + slot_ref x) h n" for n
    using ptr_refs_set [OF fin, of v x n] by (simp add: refs_def count_slot_ref)
  have "finite (dom ((ptrs h)(v := x)))"
    by (rule finite_subset [of _ "insert v (dom (ptrs h))"]) (use fin in auto)
  then show ?thesis using assms same by (simp add: counted_def)
qed

lemma counted_fin: "counted pinned X h \<Longrightarrow> finite (dom (ptrs h))"
  by (simp add: counted_def)

lemma counted_live: "counted pinned X h \<Longrightarrow> 0 < refs pinned X h n \<Longrightarrow> live (nodes h) n"
  by (simp add: counted_def)

lemma live_set: "live (ns[n := nd]) k \<longleftrightarrow> (if k = n \<and> n < length ns then alive nd else live ns k)"
  by (auto simp: live_def)

lemma counted_add:
  assumes c: "counted pinned X h" and l: "\<And>n. p = Some n \<Longrightarrow> live (nodes h) n \<and> refs pinned X h n + 1 < 2 ^ 64"
  shows "\<exists>ns. add_ref p (nodes h) = Inr ns \<and> counted pinned (X + ref_of p) (h\<lparr>nodes := ns\<rparr>) \<and> length ns = length (nodes h)"
proof (cases p)
  case None
  then show ?thesis using c by (intro exI [of _ "nodes h"]) (simp add: add_ref_def)
next
  case (Some n)
  have live: "live (nodes h) n" and small: "refs pinned X h n + 1 < 2 ^ 64" using l [OF Some] by simp_all
  then have n: "n < length (nodes h)" "alive (nodes h ! n)" by (simp_all add: live_def)
  let ?nd = "(nodes h ! n)\<lparr>m_cnt := m_cnt (nodes h ! n) + 1\<rparr>"
  let ?ns = "(nodes h)[n := ?nd]"
  have same: "parent_refs ?ns k = parent_refs (nodes h) k" for k
    using parent_refs_set [OF n(1), of ?nd k] by simp
  have refs: "refs pinned (X + {#n#}) (h\<lparr>nodes := ?ns\<rparr>) k = refs pinned X h k + of_bool (k = n)" for k
    by (simp add: refs_def same)
  have cnt: "unat (m_cnt (nodes h ! n)) = refs pinned X h n" using c live by (simp add: counted_def)
  have "unat (m_cnt (nodes h ! n) + 1) = unat (m_cnt (nodes h ! n)) + unat (1 :: u64)"
    by (rule u64_add) (use cnt small in simp)
  then have u: "unat (m_cnt (nodes h ! n) + 1) = refs pinned X h n + 1" by (simp add: cnt)
  have "counted pinned (X + {#n#}) (h\<lparr>nodes := ?ns\<rparr>)"
    unfolding counted_def refs
  proof (intro conjI allI)
    show "finite (dom (ptrs (h\<lparr>nodes := ?ns\<rparr>)))" using c by (simp add: counted_def)
    fix k
    show "live (nodes (h\<lparr>nodes := ?ns\<rparr>)) k = (0 < refs pinned X h k + of_bool (k = n))"
      using c n by (simp add: live_set counted_def)
    show "live (nodes (h\<lparr>nodes := ?ns\<rparr>)) k \<longrightarrow>
        unat (m_cnt (nodes (h\<lparr>nodes := ?ns\<rparr>) ! k)) = refs pinned X h k + of_bool (k = n)"
      using c n u by (cases "k = n") (simp_all add: live_set counted_def)
  qed
  then show ?thesis using Some live
    by (intro exI [of _ ?ns]) (simp add: add_ref_def IntrusivePtrAddRef_def)
qed

lemma counted_release_one:
  assumes c: "counted pinned (X + {#n#}) h"
  shows "\<exists>next_ptr ns. IntrusivePtrRelease n (nodes h) = Inr (next_ptr, ns)
    \<and> counted pinned (X + ref_of next_ptr) (h\<lparr>nodes := ns\<rparr>) \<and> length ns = length (nodes h)"
proof -
  have pos: "0 < refs pinned (X + {#n#}) h n" by (simp add: refs_def)
  from counted_live [OF c this] have live: "live (nodes h) n" .
  then have n: "n < length (nodes h)" "alive (nodes h ! n)" by (simp_all add: live_def)
  have fin: "finite (dom (ptrs h))" using c by (simp add: counted_def)
  have plus: "refs pinned (add_mset n X) h k = refs pinned X h k + of_bool (k = n)" for k
    by (simp add: refs_def)
  have cnt: "unat (m_cnt (nodes h ! n)) = refs pinned X h n + 1"
    using c live by (simp add: counted_def plus)
  have others: "live (nodes h) k = (0 < refs pinned X h k)" "live (nodes h) k \<Longrightarrow> unat (m_cnt (nodes h ! k)) = refs pinned X h k"
    if "k \<noteq> n" for k using c that by (simp_all add: counted_def plus)
  let ?nd = "(nodes h ! n)\<lparr>m_cnt := m_cnt (nodes h ! n) - 1\<rparr>"
  have "unat (m_cnt (nodes h ! n) - 1) = unat (m_cnt (nodes h ! n)) - unat (1 :: u64)"
    by (rule u64_sub) (use cnt in \<open>simp add: word_le_nat_alt\<close>)
  then have u: "unat (m_cnt ?nd) = refs pinned X h n" using cnt by simp
  show ?thesis
  proof (cases "m_cnt (nodes h ! n) = 1")
    case False
    let ?ns = "(nodes h)[n := ?nd]"
    have "unat (m_cnt (nodes h ! n)) \<noteq> 1" using False by (simp add: word_unat_eq_iff)
    then have "0 < refs pinned X h n" using cnt by simp
    moreover have same: "parent_refs ?ns k = parent_refs (nodes h) k" for k
      using parent_refs_set [OF n(1), of ?nd k] by simp
    then have "refs pinned X (h\<lparr>nodes := ?ns\<rparr>) k = refs pinned X h k" for k by (simp add: refs_def)
    ultimately have "counted pinned X (h\<lparr>nodes := ?ns\<rparr>)"
      unfolding counted_def using fin others u n
      by (intro conjI allI; simp add: live_set)
    then show ?thesis using live False
      by (intro exI [of _ None] exI [of _ ?ns]) (simp add: IntrusivePtrRelease_def Let_def)
  next
    case True
    let ?dead = "?nd\<lparr>alive := False\<rparr>" and ?p = "Parent (nodes h ! n)"
    let ?ns = "(nodes h)[n := ?dead]"
    have zero: "refs pinned X h n = 0" using cnt True by simp
    then have self: "?p \<noteq> Some n"
      using parent_refs_set [OF n(1), of ?dead n] n(2) by (auto simp: refs_def)
    have "refs pinned (X + ref_of ?p) (h\<lparr>nodes := ?ns\<rparr>) k = refs pinned X h k" for k
      using parent_refs_set [OF n(1), of ?dead k] n(2)
      by (auto simp: refs_def ref_of_def split: option.split)
    then have "counted pinned (X + ref_of ?p) (h\<lparr>nodes := ?ns\<rparr>)"
      unfolding counted_def using fin others n zero
      by (intro conjI allI; simp add: live_set)
    then show ?thesis using live True
      by (intro exI [of _ ?p] exI [of _ ?ns]) (simp add: IntrusivePtrRelease_def Let_def)
  qed
qed

lemma counted_release:
  assumes "counted pinned (X + ref_of p) h"
  shows "\<exists>ns. release p (nodes h) = Inr ns \<and> counted pinned X (h\<lparr>nodes := ns\<rparr>) \<and> length ns = length (nodes h)"
proof -
  have "nodes h = ns \<Longrightarrow> ?thesis" for ns
    using assms
  proof (induction p ns arbitrary: h rule: release.induct)
    case (1 ns)
    then have "counted pinned X (h\<lparr>nodes := ns\<rparr>)" by (cases h) simp
    with 1(1) show ?case by (intro exI [of _ ns]) simp
  next
    case (2 n ns)
    then have "counted pinned (X + {#n#}) h" by simp
    from counted_release_one [OF this] obtain next_ptr ns1 where r:
      "IntrusivePtrRelease n (nodes h) = Inr (next_ptr, ns1)"
      "counted pinned (X + ref_of next_ptr) (h\<lparr>nodes := ns1\<rparr>)" "length ns1 = length (nodes h)" by blast
    have "\<exists>ns2. release next_ptr (nodes (h\<lparr>nodes := ns1\<rparr>)) = Inr ns2
        \<and> counted pinned X (h\<lparr>nodes := ns1\<rparr>\<lparr>nodes := ns2\<rparr>) \<and> length ns2 = length (nodes (h\<lparr>nodes := ns1\<rparr>))"
      using 2(1) [of "(next_ptr, ns1)" next_ptr ns1 "h\<lparr>nodes := ns1\<rparr>"] r 2(2) by simp
    then show ?case using r by auto
  qed
  then show ?thesis by blast
qed

section \<open>Programs of pointer operations\<close>

text \<open>
  What the language guarantees: constructors make new objects, all other operations are used on
  objects that exist, and a raw pointer passed in is null or points to a node that is in use.
\<close>

fun valid_op :: "ptr_op \<Rightarrow> ptr_state \<Rightarrow> bool" where
  "valid_op (Null v) h \<longleftrightarrow> ptrs h v = None"
| "valid_op (Raw v p) h \<longleftrightarrow> ptrs h v = None \<and> (case p of None \<Rightarrow> True | Some n \<Rightarrow> live (nodes h) n)"
| "valid_op (Copy v r) h \<longleftrightarrow> ptrs h v = None \<and> ptrs h r \<noteq> None"
| "valid_op (Move v r) h \<longleftrightarrow> ptrs h v = None \<and> ptrs h r \<noteq> None"
| "valid_op (Destroy v) h \<longleftrightarrow> ptrs h v \<noteq> None"
| "valid_op (Swap v b) h \<longleftrightarrow> ptrs h v \<noteq> None \<and> ptrs h b \<noteq> None"
| "valid_op (Assign_copy v r) h \<longleftrightarrow> ptrs h v \<noteq> None \<and> ptrs h r \<noteq> None"
| "valid_op (Assign_raw v p) h \<longleftrightarrow> ptrs h v \<noteq> None \<and> (case p of None \<Rightarrow> True | Some n \<Rightarrow> live (nodes h) n)"
| "valid_op (Assign_move v r) h \<longleftrightarrow> ptrs h v \<noteq> None \<and> ptrs h r \<noteq> None"
| "valid_op (Reset_op v) h \<longleftrightarrow> ptrs h v \<noteq> None"
| "valid_op (New_node v parent) h \<longleftrightarrow> ptrs h v = None \<and> ptrs h parent \<noteq> None"
| "valid_op (Deref v) h \<longleftrightarrow> ptr_bool v h = Inr True"

fun run_ops :: "ptr_op list \<Rightarrow> ptr_state \<Rightarrow> par_error + ptr_state" where
  "run_ops [] h = Inr h"
| "run_ops (op # ops) h = then_do (do_op op h) (run_ops ops)"

fun valid_ops :: "ptr_op list \<Rightarrow> ptr_state \<Rightarrow> bool" where
  "valid_ops [] h \<longleftrightarrow> True"
| "valid_ops (op # ops) h \<longleftrightarrow> valid_op op h \<and> (case do_op op h of Inl _ \<Rightarrow> True | Inr h \<Rightarrow> valid_ops ops h)"

text \<open>No operation adds more than two objects, so no counter overflows before the memory is full.\<close>

definition weight :: "ptr_state \<Rightarrow> nat" where
  "weight h = card (dom (ptrs h)) + length (nodes h)"

lemma refs_weight:
  assumes "finite (dom (ptrs h))"
  shows "refs pinned {#} h n \<le> weight h + pinned n"
proof -
  have "{v. ptrs h v = Some (Some n)} \<subseteq> dom (ptrs h)" by auto
  then have "ptr_refs (ptrs h) n \<le> card (dom (ptrs h))"
    unfolding ptr_refs_def by (rule card_mono [OF assms])
  moreover have "parent_refs (nodes h) n \<le> length (nodes h)" by (simp add: parent_refs_def)
  ultimately show ?thesis by (simp add: refs_def weight_def)
qed

definition roomy :: "(nat \<Rightarrow> nat) \<Rightarrow> nat \<Rightarrow> ptr_state \<Rightarrow> bool" where
  "roomy pinned k h \<longleftrightarrow> (\<forall>n. weight h + pinned n + k < 2 ^ 64)"

lemma card_dom_upd:
  assumes "finite (dom ps)"
  shows "card (dom (ps(v := x))) \<le> Suc (card (dom ps))"
proof -
  have "card (dom (ps(v := x))) \<le> card (insert v (dom ps))" by (rule card_mono) (use assms in auto)
  then show ?thesis using card_insert_le_m1 [of "Suc (card (dom ps))" "dom ps" v] by simp
qed

lemma card_dom_upd_old:
  assumes "finite (dom ps)" "ps v \<noteq> None"
  shows "card (dom (ps(v := x))) \<le> card (dom ps)"
  by (rule card_mono) (use assms in auto)

text \<open>A new reference, and its place.\<close>

lemma counted_acquire:
  assumes c: "counted pinned {#} h" and room: "roomy pinned 1 h"
    and live: "\<And>n. p = Some n \<Longrightarrow> live (nodes h) n"
  shows "\<exists>ns. add_ref p (nodes h) = Inr ns \<and> counted pinned (ref_of p) (h\<lparr>nodes := ns\<rparr>) \<and> length ns = length (nodes h)"
proof -
  have "finite (dom (ptrs h))" using c by (simp add: counted_def)
  from refs_weight [OF this, of pinned] room have "refs pinned {#} h n + 1 < 2 ^ 64" for n
    unfolding roomy_def by (meson add_le_mono1 le_less_trans)
  then show ?thesis using counted_add [OF c, of p] live by simp
qed

lemma counted_ptr: "counted pinned X h \<Longrightarrow> ptrs h v = Some (Some n) \<Longrightarrow> live (nodes h) n"
proof (rule counted_live)
  assume c: "counted pinned X h" and v: "ptrs h v = Some (Some n)"
  have "finite {w. ptrs h w = Some (Some n)}"
    by (rule finite_subset [OF _ counted_fin [OF c]]) auto
  moreover have "v \<in> {w. ptrs h w = Some (Some n)}" using v by simp
  ultimately have "0 < ptr_refs (ptrs h) n" unfolding ptr_refs_def by (metis card_gt_0_iff empty_iff)
  then show "0 < refs pinned X h n" by (simp add: refs_def)
qed

lemma counted_store:
  assumes "counted pinned (ref_of p) h" "ptrs h v = None"
  shows "counted pinned {#} (h\<lparr>ptrs := (ptrs h)(v \<mapsto> p)\<rparr>)"
  using counted_set [of pinned "{#}" "Some p" h v] assms by simp

lemma counted_swap_in:
  assumes "counted pinned (ref_of tmp) h" "ptrs h v = Some old"
  shows "\<exists>h'. swap_in v tmp h = Inr h' \<and> counted pinned {#} h' \<and> weight h' \<le> weight h \<and> finite (dom (ptrs h'))"
proof -
  let ?h = "h\<lparr>ptrs := (ptrs h)(v \<mapsto> tmp)\<rparr>"
  have "counted pinned ({#} + ref_of old) ?h"
    using counted_set [of pinned "{#}" "Some tmp" h v] assms by simp
  from counted_release [OF this] obtain ns where ns: "release old (nodes ?h) = Inr ns"
    "counted pinned {#} (?h\<lparr>nodes := ns\<rparr>)" "length ns = length (nodes ?h)" by blast
  have "finite (dom (ptrs h))" using assms(1) by (simp add: counted_def)
  then have "weight (?h\<lparr>nodes := ns\<rparr>) \<le> weight h"
    using ns(3) card_dom_upd_old [of "ptrs h" v "Some tmp"] assms(2) by (simp add: weight_def)
  moreover have "finite (dom (ptrs (?h\<lparr>nodes := ns\<rparr>)))" using ns(2) by (simp add: counted_def)
  ultimately show ?thesis
    using ns assms(2) by (intro exI [of _ "?h\<lparr>nodes := ns\<rparr>"]) (simp add: swap_in_def get_def Let_def)
qed

lemma counted_new_node:
  assumes c: "counted pinned (ref_of p) h"
  shows "counted pinned {#length (nodes h)#} (h\<lparr>nodes := nodes h @ [(TaskNode p)\<lparr>m_cnt := 1\<rparr>]\<rparr>)"
proof -
  let ?n = "length (nodes h)" and ?nd = "(TaskNode p)\<lparr>m_cnt := 1\<rparr>"
  let ?h = "h\<lparr>nodes := nodes h @ [?nd]\<rparr>"
  have "\<not> live (nodes h) ?n" by (simp add: live_def)
  then have zero: "refs pinned (ref_of p) h ?n = 0" using c by (simp add: counted_def)
  have "parent_refs (nodes h @ [?nd]) k = parent_refs (nodes h) k + count (ref_of p) k" for k
    by (auto simp: parent_refs_def TaskNode_def ref_of_def split: option.split)
  then have refs: "refs pinned {#?n#} ?h k = refs pinned (ref_of p) h k + of_bool (k = ?n)" for k
    by (simp add: refs_def)
  have live: "live (nodes h @ [?nd]) k \<longleftrightarrow> live (nodes h) k \<or> k = ?n" for k
    by (auto simp: live_def nth_append TaskNode_def less_Suc_eq)
  show ?thesis
    unfolding counted_def refs using c zero
    by (auto simp: counted_def live) (auto simp: live_def nth_append)
qed

definition op_ok :: "(nat \<Rightarrow> nat) \<Rightarrow> ptr_op \<Rightarrow> ptr_state \<Rightarrow> bool" where
  "op_ok pinned op h \<longleftrightarrow> (\<exists>h'. do_op op h = Inr h' \<and> counted pinned {#} h' \<and> weight h' \<le> weight h + 2)"

lemma op_okI: "do_op op h = Inr h' \<Longrightarrow> counted pinned {#} h' \<Longrightarrow> weight h' \<le> weight h + 2 \<Longrightarrow> op_ok pinned op h"
  by (auto simp: op_ok_def)

lemma weight_set: "finite (dom (ptrs h)) \<Longrightarrow> weight (h\<lparr>ptrs := (ptrs h)(v := x)\<rparr>) \<le> weight h + 1"
  using card_dom_upd [of "ptrs h" v x] by (simp add: weight_def)

lemma weight_nodes: "length ns = length (nodes h) \<Longrightarrow> weight (h\<lparr>nodes := ns\<rparr>) = weight h"
  by (simp add: weight_def)

text \<open>A constructor that takes a new reference; an assignment that does.\<close>

lemma acquire_store:
  assumes c: "counted pinned {#} h" and room: "roomy pinned 1 h" and p: "\<And>n. p = Some n \<Longrightarrow> live (nodes h) n"
    and v: "ptrs h v = None"
  obtains ns where "add_ref p (nodes h) = Inr ns" "counted pinned {#} (h\<lparr>nodes := ns, ptrs := (ptrs h)(v \<mapsto> p)\<rparr>)"
    "weight (h\<lparr>nodes := ns, ptrs := (ptrs h)(v \<mapsto> p)\<rparr>) \<le> weight h + 2"
proof -
  from counted_acquire [OF c room p] obtain ns where ns: "add_ref p (nodes h) = Inr ns"
    "counted pinned (ref_of p) (h\<lparr>nodes := ns\<rparr>)" "length ns = length (nodes h)" by blast
  from counted_store [OF ns(2), of v] v have "counted pinned {#} (h\<lparr>nodes := ns, ptrs := (ptrs h)(v \<mapsto> p)\<rparr>)" by simp
  moreover have "weight (h\<lparr>nodes := ns, ptrs := (ptrs h)(v \<mapsto> p)\<rparr>) \<le> weight h + 2"
    using weight_set [OF counted_fin [OF ns(2)], of v "Some p"] weight_nodes [OF ns(3)] by simp
  ultimately show thesis using that ns(1) by blast
qed

lemma acquire_swap_in:
  assumes c: "counted pinned {#} h" and room: "roomy pinned 1 h" and p: "\<And>n. p = Some n \<Longrightarrow> live (nodes h) n"
    and v: "ptrs h v = Some old"
  shows "\<exists>h'. then_do (add_ref p (nodes h)) (\<lambda>ns. swap_in v p (h\<lparr>nodes := ns\<rparr>)) = Inr h'
    \<and> counted pinned {#} h' \<and> weight h' \<le> weight h + 2"
proof -
  from counted_acquire [OF c room p] obtain ns where ns: "add_ref p (nodes h) = Inr ns"
    "counted pinned (ref_of p) (h\<lparr>nodes := ns\<rparr>)" "length ns = length (nodes h)" by blast
  from counted_swap_in [OF ns(2), of v old] v obtain h' where "swap_in v p (h\<lparr>nodes := ns\<rparr>) = Inr h'"
    "counted pinned {#} h'" "weight h' \<le> weight (h\<lparr>nodes := ns\<rparr>)" by auto
  then show ?thesis using ns(1) weight_nodes [OF ns(3)] by auto
qed

text \<open>A pointer object is emptied.\<close>

lemma counted_clear:
  assumes "counted pinned {#} h" "ptrs h r = Some p"
  shows "counted pinned (ref_of p) (h\<lparr>ptrs := (ptrs h)(r \<mapsto> None)\<rparr>)"
  using counted_set [of pinned "{#}" "Some None" h r] assms by simp

lemma weight_clear: "finite (dom (ptrs h)) \<Longrightarrow> ptrs h r \<noteq> None \<Longrightarrow> weight (h\<lparr>ptrs := (ptrs h)(r := x)\<rparr>) \<le> weight h"
  using card_dom_upd_old [of "ptrs h" r x] by (simp add: weight_def)

lemma op_move:
  assumes c: "counted pinned {#} h" and v: "ptrs h v = None" and r: "ptrs h r = Some p"
  shows "op_ok pinned (Move v r) h"
proof (rule op_okI)
  let ?h = "h\<lparr>ptrs := (ptrs h)(r \<mapsto> None)\<rparr>"
  have ne: "v \<noteq> r" using v r by auto
  show "do_op (Move v r) h = Inr (?h\<lparr>ptrs := (ptrs ?h)(v \<mapsto> p)\<rparr>)"
    using r ne by (simp add: new_move_def get_def fun_upd_twist)
  show "counted pinned {#} (?h\<lparr>ptrs := (ptrs ?h)(v \<mapsto> p)\<rparr>)"
    by (rule counted_store [OF counted_clear [OF c r]]) (use v ne in simp)
  show "weight (?h\<lparr>ptrs := (ptrs ?h)(v \<mapsto> p)\<rparr>) \<le> weight h + 2"
    using weight_set [OF counted_fin [OF counted_clear [OF c r]], of v "Some p"]
      weight_clear [OF counted_fin [OF c], of r "Some None"] r by simp
qed

lemma op_destroy:
  assumes c: "counted pinned {#} h" and v: "ptrs h v = Some p"
  shows "op_ok pinned (Destroy v) h"
proof -
  let ?h = "h\<lparr>ptrs := (ptrs h)(v := None)\<rparr>"
  have "counted pinned ({#} + ref_of p) ?h" using counted_set [of pinned "{#}" None h v] c v by simp
  from counted_release [OF this] obtain ns where ns: "release p (nodes h) = Inr ns"
    "counted pinned {#} (?h\<lparr>nodes := ns\<rparr>)" "length ns = length (nodes h)" by auto
  have w: "weight ?h \<le> weight h" by (rule weight_clear [OF counted_fin [OF c]]) (use v in simp)
  show ?thesis
    by (rule op_okI [of _ _ "?h\<lparr>nodes := ns\<rparr>"])
      (use ns v w weight_nodes [of ns ?h] in \<open>simp_all add: destroy_ptr_def get_def\<close>)
qed

lemma op_swap:
  assumes c: "counted pinned {#} h" and v: "ptrs h v = Some p" and b: "ptrs h b = Some q"
  shows "op_ok pinned (Swap v b) h"
proof (rule op_okI)
  let ?h = "h\<lparr>ptrs := (ptrs h)(v \<mapsto> q, b \<mapsto> p)\<rparr>"
  show "do_op (Swap v b) h = Inr ?h" using v b by (simp add: swap_ptrs_def get_def)
  show "counted pinned {#} ?h"
  proof (cases "v = b")
    case True
    then have "(ptrs h)(v \<mapsto> q, b \<mapsto> p) = ptrs h" using v b by auto
    then have "?h = h" by simp
    then show ?thesis using c by simp
  next
    case False
    let ?h1 = "h\<lparr>ptrs := (ptrs h)(v \<mapsto> None)\<rparr>" and ?h2 = "h\<lparr>ptrs := (ptrs h)(v \<mapsto> None, b \<mapsto> p)\<rparr>"
    have "counted pinned ({#} + slot_ref (Some p)) ?h1" using counted_clear [OF c v] by simp
    from counted_set [OF this, of b] have "counted pinned ({#} + slot_ref (Some q)) ?h2" using False b by simp
    from counted_set [OF this, of v] show ?thesis using False by (simp add: fun_upd_twist)
  qed
  show "weight ?h \<le> weight h + 2"
    using weight_clear [OF counted_fin [OF c], of v "Some q"] v
      weight_set [of "h\<lparr>ptrs := (ptrs h)(v \<mapsto> q)\<rparr>" b "Some p"] counted_fin [OF c] by simp
qed

lemma op_assign_move:
  assumes c: "counted pinned {#} h" and v: "ptrs h v = Some p" and r: "ptrs h r = Some q"
  shows "op_ok pinned (Assign_move v r) h"
proof (cases "v = r")
  case True
  then show ?thesis using c by (intro op_okI [of _ _ h]) (simp_all add: assign_move_def)
next
  case False
  from counted_swap_in [OF counted_clear [OF c r], of v p] False v obtain h' where
    "swap_in v q (h\<lparr>ptrs := (ptrs h)(r \<mapsto> None)\<rparr>) = Inr h'" "counted pinned {#} h'"
    "weight h' \<le> weight (h\<lparr>ptrs := (ptrs h)(r \<mapsto> None)\<rparr>)" by auto
  moreover have "weight (h\<lparr>ptrs := (ptrs h)(r \<mapsto> None)\<rparr>) \<le> weight h"
    by (rule weight_clear [OF counted_fin [OF c]]) (use r in simp)
  ultimately show ?thesis using False r
    by (intro op_okI [of _ _ h']) (simp_all add: assign_move_def get_def)
qed

lemma op_new_node:
  assumes c: "counted pinned {#} h" and room: "roomy pinned 1 h" and v: "ptrs h v = None" and p: "ptrs h parent = Some p"
  shows "op_ok pinned (New_node v parent) h"
proof -
  from counted_acquire [OF c room] counted_ptr [OF c] p obtain ns where ns: "add_ref p (nodes h) = Inr ns"
    "counted pinned (ref_of p) (h\<lparr>nodes := ns\<rparr>)" "length ns = length (nodes h)" by metis
  let ?nd = "(TaskNode p)\<lparr>m_cnt := 1\<rparr>"
  let ?h = "h\<lparr>nodes := ns @ [?nd]\<rparr>"
  have "counted pinned {#length ns#} ?h" using counted_new_node [OF ns(2)] by simp
  then have "counted pinned {#} (?h\<lparr>ptrs := (ptrs ?h)(v \<mapsto> Some (length ns))\<rparr>)"
    by (intro counted_store) (use v in simp_all)
  moreover have "add_ref (Some (length ns)) (ns @ [TaskNode p]) = Inr (ns @ [?nd])"
    by (simp add: add_ref_def IntrusivePtrAddRef_def live_def TaskNode_def)
  then have "do_op (New_node v parent) h = Inr (?h\<lparr>ptrs := (ptrs ?h)(v \<mapsto> Some (length ns))\<rparr>)"
    using p ns(1) by (simp add: new_node_def get_def new_raw_def)
  moreover have "weight (?h\<lparr>ptrs := (ptrs ?h)(v \<mapsto> Some (length ns))\<rparr>) \<le> weight h + 2"
    using card_dom_upd [OF counted_fin [OF c], of v "Some (Some (length ns))"] ns(3) by (simp add: weight_def)
  ultimately show ?thesis by (intro op_okI)
qed

lemma ptr_bool_True: "ptr_bool v h = Inr True \<longleftrightarrow> (\<exists>n. ptrs h v = Some (Some n))"
  by (auto simp: ptr_bool_def get_def split: option.split)

lemma deref_ok:
  assumes "counted pinned X h" "ptr_bool v h = Inr True"
  shows "\<exists>n. ptrs h v = Some (Some n) \<and> deref v h = Inr (nodes h ! n)"
  using assms counted_ptr [OF assms(1), of v] by (auto simp: ptr_bool_True deref_def get_def)

lemma op_deref:
  assumes "counted pinned {#} h" "ptr_bool v h = Inr True"
  shows "op_ok pinned (Deref v) h"
  using assms deref_ok [OF assms] by (auto simp: op_ok_def)

text \<open>
  The comparisons agree with one another and are equalities of addresses, and a pointer that converts to \<open>true\<close>
  is the one that differs from null.
\<close>

lemma comparisons:
  assumes "ptrs h a = Some p" "ptrs h b = Some q"
  shows "ptr_eq a b h = Inr (p = q)" "ptr_neq a b h = Inr (p \<noteq> q)" "ptr_eq_raw a q h = Inr (p = q)"
    "ptr_neq_raw a q h = Inr (p \<noteq> q)" "raw_eq_ptr p b h = Inr (p = q)" "raw_neq_ptr p b h = Inr (p \<noteq> q)"
    "ptr_bool a h = ptr_neq_raw a None h"
  using assms by (auto simp: ptr_eq_def ptr_neq_def ptr_eq_raw_def ptr_neq_raw_def raw_eq_ptr_def raw_neq_ptr_def
      ptr_bool_def get_def)

text \<open>
  Below \<open>2 ^ 32\<close> references \<open>use_count\<close> is exact: it counts the pointer objects, the parents of living nodes and the
  pinned references.
\<close>

lemma use_count_exact:
  assumes c: "counted pinned {#} h" and v: "ptrs h v = Some (Some n)" and small: "refs pinned {#} h n < 2 ^ 32"
  shows "\<exists>k. use_count_of v h = Inr k \<and> unat k = refs pinned {#} h n"
proof -
  have live: "live (nodes h) n" by (rule counted_ptr [OF c v])
  then have cnt: "unat (m_cnt (nodes h ! n)) = refs pinned {#} h n" using c by (simp add: counted_def)
  have "unat (use_count (m_cnt (nodes h ! n))) = unat (m_cnt (nodes h ! n)) mod 2 ^ 32"
    by (simp add: use_count_def unsigned_ucast_eq take_bit_eq_mod unat_mod)
  then show ?thesis using live v small
    by (simp add: use_count_of_def deref_def get_def cnt)
qed

lemma do_op_ok:
  assumes c: "counted pinned {#} h" and room: "roomy pinned 1 h" and ok: "valid_op op h"
  shows "op_ok pinned op h"
proof -
  have acquired: "live (nodes h) n" if "ptrs h r = Some p" "p = Some n" for r p n
    using counted_ptr [OF c] that by simp
  show ?thesis
  proof (cases op)
    case (Null v)
    then show ?thesis using c ok counted_store [of pinned None h v] weight_set [OF counted_fin [OF c], of v "Some None"]
      by (intro op_okI [of _ _ "h\<lparr>ptrs := (ptrs h)(v \<mapsto> None)\<rparr>"]) (simp_all add: new_null_def)
  next
    case (Raw v p)
    with ok have v: "ptrs h v = None" and p: "\<And>n. p = Some n \<Longrightarrow> live (nodes h) n" by auto
    from acquire_store [OF c room p v] obtain ns where ns: "add_ref p (nodes h) = Inr ns"
      "counted pinned {#} (h\<lparr>nodes := ns, ptrs := (ptrs h)(v \<mapsto> p)\<rparr>)"
      "weight (h\<lparr>nodes := ns, ptrs := (ptrs h)(v \<mapsto> p)\<rparr>) \<le> weight h + 2" by metis
    show ?thesis by (rule op_okI [OF _ ns(2,3)]) (simp add: Raw new_raw_def ns(1))
  next
    case (Copy v r)
    with ok obtain p where v: "ptrs h v = None" and r: "ptrs h r = Some p" by auto
    from acquire_store [OF c room acquired [OF r] v] obtain ns where ns: "add_ref p (nodes h) = Inr ns"
      "counted pinned {#} (h\<lparr>nodes := ns, ptrs := (ptrs h)(v \<mapsto> p)\<rparr>)"
      "weight (h\<lparr>nodes := ns, ptrs := (ptrs h)(v \<mapsto> p)\<rparr>) \<le> weight h + 2" by metis
    show ?thesis by (rule op_okI [OF _ ns(2,3)]) (simp add: Copy new_copy_def get_def r ns(1))
  next
    case (Move v r)
    then show ?thesis using ok op_move [OF c, of v r] by auto
  next
    case (Destroy v)
    then show ?thesis using ok op_destroy [OF c, of v] by auto
  next
    case (Swap v b)
    then show ?thesis using ok op_swap [OF c, of v _ b] by auto
  next
    case (Assign_copy v r)
    with ok obtain p q where v: "ptrs h v = Some p" and r: "ptrs h r = Some q" by auto
    from acquire_swap_in [OF c room acquired [OF r] v] show ?thesis
      using c v r by (cases "p = q") (auto simp: op_ok_def Assign_copy assign_copy_def get_def)
  next
    case (Assign_raw v q)
    with ok obtain p where v: "ptrs h v = Some p" by auto
    have q: "live (nodes h) n" if "q = Some n" for n using ok that Assign_raw by simp
    from acquire_swap_in [OF c room q v] show ?thesis
      using c v by (cases "p = q") (auto simp: op_ok_def Assign_raw assign_raw_def get_def)
  next
    case (Assign_move v r)
    then show ?thesis using ok op_assign_move [OF c, of v _ r] by auto
  next
    case (Reset_op v)
    with ok obtain p where v: "ptrs h v = Some p" by auto
    from counted_swap_in [of pinned None h v p] c v show ?thesis
      by (auto simp: op_ok_def Reset_op Reset_def)
  next
    case (New_node v parent)
    then show ?thesis using ok op_new_node [OF c room, of v parent] by auto
  next
    case (Deref v)
    then show ?thesis using ok op_deref [OF c, of v] by simp
  qed
qed

lemma run_ops_ok:
  "counted pinned {#} h \<Longrightarrow> valid_ops ops h \<Longrightarrow> roomy pinned (2 * length ops + 1) h
    \<Longrightarrow> \<exists>h'. run_ops ops h = Inr h' \<and> counted pinned {#} h'"
proof (induction ops arbitrary: h)
  case (Cons op ops)
  have room: "roomy pinned 1 h"
    unfolding roomy_def
  proof
    fix n
    have "weight h + pinned n + (2 * length (op # ops) + 1) < 2 ^ 64" using Cons.prems(3) by (simp only: roomy_def)
    then show "weight h + pinned n + 1 < 2 ^ 64" by linarith
  qed
  have "valid_op op h" using Cons.prems(2) by simp
  from do_op_ok [OF Cons.prems(1) room this] obtain h' where h': "do_op op h = Inr h'" "counted pinned {#} h'"
    "weight h' \<le> weight h + 2" by (auto simp: op_ok_def)
  have "roomy pinned (2 * length ops + 1) h'"
    unfolding roomy_def
  proof
    fix n
    have "weight h + pinned n + (2 * length (op # ops) + 1) < 2 ^ 64" using Cons.prems(3) by (simp only: roomy_def)
    then show "weight h' + pinned n + (2 * length ops + 1) < 2 ^ 64" using h'(3) by simp
  qed
  from Cons.IH [OF h'(2) _ this] Cons.prems(2) h'(1) show ?case by simp
qed simp

text \<open>
  C27: A program of the operations of \<open>IntrusivePtr\<close>, in any order, never uses a deleted node, also not where it
  dereferences a pointer that is not null.  Afterwards
  each node is alive exactly when something refers to it, its counter is the number of pointer objects,
  parents of living nodes and pinned references that do, and no pointer object dangles.
\<close>

theorem pointers_counted:
  assumes "counted pinned {#} h" "valid_ops ops h"
    "\<forall>n. card (dom (ptrs h)) + length (nodes h) + pinned n + (2 * length ops + 1) < 2 ^ 64"
  shows "\<exists>h'. run_ops ops h = Inr h' \<and> counted pinned {#} h' \<and>
    (\<forall>v n. ptrs h' v = Some (Some n) \<longrightarrow> live (nodes h') n) \<and>
    (\<forall>n. live (nodes h') n \<longrightarrow> unat (m_cnt (nodes h' ! n))
      = card {v. ptrs h' v = Some (Some n)} + parent_refs (nodes h') n + pinned n)"
proof -
  have "roomy pinned (2 * length ops + 1) h" using assms(3) by (simp add: roomy_def weight_def)
  from run_ops_ok [OF assms(1,2) this] obtain h' where h': "run_ops ops h = Inr h'" "counted pinned {#} h'" by blast
  moreover have "refs pinned {#} h' n = card {v. ptrs h' v = Some (Some n)} + parent_refs (nodes h') n + pinned n" for n
    by (simp add: refs_def ptr_refs_def)
  ultimately show ?thesis
    using counted_ptr [OF h'(2)] by (intro exI [of _ h']) (simp add: counted_def)
qed

text \<open>
  A root pinned once, a pointer to it, a node below it and one below that; the pointers are dropped one by
  one, and with the last one the lower two nodes are deleted.
\<close>

definition one_root :: ptr_state where
  "one_root = \<lparr>nodes = [(TaskNode None)\<lparr>m_cnt := 1\<rparr>], ptrs = (\<lambda>_. None)\<rparr>"

definition drop_all :: "ptr_op list" where
  "drop_all = [Raw 0 (Some 0), New_node 1 0, New_node 2 1, Reset_op 1, Assign_move 0 2, Deref 0, Destroy 0]"

theorem pointers_counted_witness:
  "\<exists>h'. run_ops drop_all one_root = Inr h' \<and> map alive (nodes h') = [True, False, False]
    \<and> counted (\<lambda>n. of_bool (n = 0)) {#} h'"
proof -
  have start: "counted (\<lambda>n. of_bool (n = 0)) {#} one_root"
    by (auto simp: counted_def one_root_def refs_def ptr_refs_def parent_refs_def live_def TaskNode_def)
  have valid: "valid_ops drop_all one_root" by code_simp
  have "\<forall>n. card (dom (ptrs one_root)) + length (nodes one_root) + of_bool (n = (0 :: nat)) + (2 * length drop_all + 1) < 2 ^ 64"
    by (simp add: one_root_def drop_all_def)
  from pointers_counted [OF start valid this] obtain h' where
    "run_ops drop_all one_root = Inr h'" "counted (\<lambda>n. of_bool (n = 0)) {#} h'" by blast
  moreover have "then_do (run_ops drop_all one_root) (\<lambda>h. Inr (map alive (nodes h))) = Inr [True, False, False]"
    by code_simp
  ultimately show ?thesis by auto
qed

end
