(* ===== verification/Max_Size_Vector.thy ===== *)
theory Max_Size_Vector
  imports Prelude
begin

text \<open>
  \<open>MaxSizeVector\<close> of src/include/eigen/max\_size\_vector.h, the vector of the pool's workers: a buffer of
  fixed size in which elements are constructed and destroyed in place.  A cell is \<open>None\<close> while no object
  lives in it; constructing or destroying outside the buffer, and destroying where nothing lives, are
  errors of the model.
\<close>

section \<open>The vector\<close>

datatype vec_error = Assertion | Outside | Thrown

record 'a max_size_vector =
  reserve :: u64
  vsize :: u64
  cells :: "'a option list"

definition construct :: "u64 \<Rightarrow> 'a \<Rightarrow> 'a max_size_vector \<Rightarrow> vec_error + 'a max_size_vector" where
  "construct i x v =
     (if unat i < length (cells v) then Inr (v\<lparr>cells := (cells v)[unat i := Some x]\<rparr>) else Inl Outside)"

definition destruct :: "u64 \<Rightarrow> 'a max_size_vector \<Rightarrow> vec_error + 'a max_size_vector" where
  "destruct i v =
     (if unat i < length (cells v) \<and> cells v ! unat i \<noteq> None
      then Inr (v\<lparr>cells := (cells v)[unat i := None]\<rparr>) else Inl Outside)"

definition new_reserved :: "u64 \<Rightarrow> 'a max_size_vector" where
  "new_reserved n = \<lparr>reserve = n, vsize = 0, cells = replicate (unat n) None\<rparr>"

text \<open>
  The constructor with an initial value.  \<open>throws i\<close> says that the copy constructor throws for element \<open>i\<close>;
  then the handler destroys downwards from \<open>i - 1\<close>.  The result carries, beside the outcome, the positions at
  which the handler called a destructor, in the order of the calls.
\<close>

function undo :: "u64 \<Rightarrow> 'a max_size_vector \<Rightarrow> u64 list \<times> (vec_error + 'a max_size_vector)" where
  "undo i v =
     (if i + 1 > 0 then
        (case destruct (i - 1) v of
           Inl e \<Rightarrow> ([i - 1], Inl e)
         | Inr v \<Rightarrow> (let (ds, r) = undo (i - 1) v in ((i - 1) # ds, r)))
      else ([], Inr v))"
  by pat_completeness auto
termination
proof (relation "measure (\<lambda>(i, v). unat (i + 1))")
  fix i :: u64 and v w :: "'a max_size_vector"
  assume "i + 1 > 0"
  then have "unat (i + 1 - 1) < unat (i + 1)" by (intro unat_pred_less) auto
  then show "((i - 1, w), i, v) \<in> measure (\<lambda>(i, v). unat (i + 1))" by simp
qed simp

function fill :: "(u64 \<Rightarrow> bool) \<Rightarrow> 'a \<Rightarrow> u64 \<Rightarrow> 'a max_size_vector \<Rightarrow> u64 list \<times> (vec_error + 'a max_size_vector)" where
  "fill throws x i v =
     (if i < vsize v then
        if throws i then (let (ds, r) = undo i v in (ds, case r of Inl e \<Rightarrow> Inl e | Inr v \<Rightarrow> Inl Thrown))
        else (case construct i x v of Inl e \<Rightarrow> ([], Inl e) | Inr v' \<Rightarrow> fill throws x (i + 1) v')
      else ([], Inr v))"
  by pat_completeness auto
termination
proof (relation "measure (\<lambda>(throws, x, i, v). unat (vsize v - i))")
  fix throws and x :: 'a and i :: u64 and v v' :: "'a max_size_vector"
  assume "i < vsize v" "construct i x v = Inr v'"
  then have s: "vsize v' = vsize v" "i \<noteq> vsize v" by (auto simp: construct_def split: if_splits)
  then have "unat (vsize v - i - 1) < unat (vsize v - i)" by (intro unat_pred_less) auto
  then show "((throws, x, i + 1, v'), throws, x, i, v) \<in> measure (\<lambda>(throws, x, i, v). unat (vsize v - i))"
    using s(1) by (simp add: algebra_simps)
qed simp

declare undo.simps [simp del] fill.simps [simp del]

definition new_filled :: "(u64 \<Rightarrow> bool) \<Rightarrow> u64 \<Rightarrow> 'a \<Rightarrow> u64 list \<times> (vec_error + 'a max_size_vector)" where
  "new_filled throws n x = fill throws x 0 ((new_reserved n)\<lparr>vsize := n\<rparr>)"

function destroy_down :: "u64 \<Rightarrow> 'a max_size_vector \<Rightarrow> vec_error + 'a max_size_vector" where
  "destroy_down i v =
     (if i > 0 then (case destruct (i - 1) v of Inl e \<Rightarrow> Inl e | Inr v \<Rightarrow> destroy_down (i - 1) v) else Inr v)"
  by pat_completeness auto
termination
proof (relation "measure (\<lambda>(i, v). unat i)")
  fix i :: u64 and v w :: "'a max_size_vector"
  assume "i > 0"
  then show "((i - 1, w), i, v) \<in> measure (\<lambda>(i, v). unat i)" using unat_pred_less [of i] by auto
qed simp

definition destructor :: "'a max_size_vector \<Rightarrow> vec_error + 'a max_size_vector" where
  "destructor v = destroy_down (vsize v) v"

text \<open>\<open>resize\<close>: \<open>dflt\<close> is the value of a default-initialised element.\<close>

function grow :: "'a \<Rightarrow> u64 \<Rightarrow> 'a max_size_vector \<Rightarrow> vec_error + 'a max_size_vector" where
  "grow dflt n v =
     (if vsize v < n then
        (case construct (vsize v) dflt v of Inl e \<Rightarrow> Inl e | Inr v' \<Rightarrow> grow dflt n (v'\<lparr>vsize := vsize v' + 1\<rparr>))
      else Inr v)"
  by pat_completeness auto
termination
proof (relation "measure (\<lambda>(dflt, n, v). unat (n - vsize v))")
  fix dflt :: 'a and n :: u64 and v v' :: "'a max_size_vector"
  assume "vsize v < n" "construct (vsize v) dflt v = Inr v'"
  then have s: "vsize v' = vsize v" "vsize v \<noteq> n" by (auto simp: construct_def split: if_splits)
  then have "unat (n - vsize v - 1) < unat (n - vsize v)" by (intro unat_pred_less) auto
  then show "((dflt, n, v'\<lparr>vsize := vsize v' + 1\<rparr>), dflt, n, v) \<in> measure (\<lambda>(dflt, n, v). unat (n - vsize v))"
    using s(1) by (simp add: algebra_simps)
qed simp

function shrink :: "u64 \<Rightarrow> 'a max_size_vector \<Rightarrow> vec_error + 'a max_size_vector" where
  "shrink n v =
     (if vsize v > n then
        (case destruct (vsize v - 1) v of Inl e \<Rightarrow> Inl e | Inr v' \<Rightarrow> shrink n (v'\<lparr>vsize := vsize v' - 1\<rparr>))
      else Inr v)"
  by pat_completeness auto
termination
proof (relation "measure (\<lambda>(n, v). unat (vsize v))")
  fix n :: u64 and v v' :: "'a max_size_vector"
  assume "vsize v > n" "destruct (vsize v - 1) v = Inr v'"
  then have s: "vsize v' = vsize v" "vsize v \<noteq> 0" by (auto simp: destruct_def split: if_splits)
  then show "((n, v'\<lparr>vsize := vsize v' - 1\<rparr>), n, v) \<in> measure (\<lambda>(n, v). unat (vsize v))"
    using unat_pred_less [of "vsize v"] by simp
qed simp

declare destroy_down.simps [simp del] grow.simps [simp del] shrink.simps [simp del]

definition resize :: "'a \<Rightarrow> u64 \<Rightarrow> 'a max_size_vector \<Rightarrow> vec_error + 'a max_size_vector" where
  "resize dflt n v =
     (if n \<le> reserve v then
        (case grow dflt n v of
           Inl e \<Rightarrow> Inl e
         | Inr v \<Rightarrow> (case shrink n v of Inl e \<Rightarrow> Inl e | Inr v \<Rightarrow> if vsize v = n then Inr v else Inl Assertion))
      else Inl Assertion)"

definition push_back :: "'a \<Rightarrow> 'a max_size_vector \<Rightarrow> vec_error + 'a max_size_vector" where
  "push_back t v = (if vsize v < reserve v then construct (vsize v) t (v\<lparr>vsize := vsize v + 1\<rparr>) else Inl Assertion)"

text \<open>\<open>emplace_back\<close> with the conversion \<open>T(x)\<close> as \<open>conv\<close>.\<close>

definition emplace_back :: "('x \<Rightarrow> 'a) \<Rightarrow> 'x \<Rightarrow> 'a max_size_vector \<Rightarrow> vec_error + 'a max_size_vector" where
  "emplace_back conv x v =
     (if vsize v < reserve v then construct (vsize v) (conv x) (v\<lparr>vsize := vsize v + 1\<rparr>) else Inl Assertion)"

definition read_cell :: "u64 \<Rightarrow> 'a max_size_vector \<Rightarrow> vec_error + 'a" where
  "read_cell i v =
     (if unat i < length (cells v) then (case cells v ! unat i of None \<Rightarrow> Inl Outside | Some x \<Rightarrow> Inr x) else Inl Outside)"

definition vec_at :: "u64 \<Rightarrow> 'a max_size_vector \<Rightarrow> vec_error + 'a" where
  "vec_at i v = (if i < vsize v then read_cell i v else Inl Assertion)"

definition vec_back :: "'a max_size_vector \<Rightarrow> vec_error + 'a" where
  "vec_back v = (if vsize v > 0 then read_cell (vsize v - 1) v else Inl Assertion)"

definition pop_back :: "'a max_size_vector \<Rightarrow> vec_error + 'a max_size_vector" where
  "pop_back v =
     (if vsize v > 0 then (let v = v\<lparr>vsize := vsize v - 1\<rparr> in destruct (vsize v) v) else Inl Assertion)"

definition vec_empty :: "'a max_size_vector \<Rightarrow> bool" where
  "vec_empty v \<longleftrightarrow> vsize v = 0"

text \<open>The cells from \<open>begin()\<close> to \<open>end()\<close>.\<close>

definition begin_end :: "'a max_size_vector \<Rightarrow> 'a option list" where
  "begin_end v = take (unat (vsize v)) (cells v)"

section \<open>A list of bounded length\<close>

definition vec_of :: "u64 \<Rightarrow> 'a list \<Rightarrow> 'a max_size_vector" where
  "vec_of n xs = \<lparr>reserve = n, vsize = of_nat (length xs), cells = map Some xs @ replicate (unat n - length xs) None\<rparr>"

text \<open>A vector is well-formed if it is the vector of some list that fits.\<close>

definition vec_ok :: "'a max_size_vector \<Rightarrow> bool" where
  "vec_ok v \<longleftrightarrow> (\<exists>xs. length xs \<le> unat (reserve v) \<and> v = vec_of (reserve v) xs)"

definition contents :: "'a max_size_vector \<Rightarrow> 'a list" where
  "contents v = map the (begin_end v)"

lemma vec_of_fields:
  assumes "length xs \<le> unat n"
  shows "unat (vsize (vec_of n xs)) = length xs" "reserve (vec_of n xs) = n" "length (cells (vec_of n xs)) = unat n"
    "i < length xs \<Longrightarrow> cells (vec_of n xs) ! i = Some (xs ! i)"
    "length xs \<le> i \<Longrightarrow> i < unat n \<Longrightarrow> cells (vec_of n xs) ! i = None"
proof -
  have "length xs < 2 ^ 64" using assms u64_bound [of n] by simp
  then show "unat (vsize (vec_of n xs)) = length xs" by (simp add: vec_of_def unat_of_nat)
qed (use assms in \<open>simp_all add: vec_of_def nth_append\<close>)

lemma contents_vec_of: "length xs \<le> unat n \<Longrightarrow> contents (vec_of n xs) = xs"
  using vec_of_fields [of xs n] by (simp add: contents_def begin_end_def vec_of_def comp_def)

lemma vsize_Suc:
  assumes "length xs < unat n"
  shows "vsize (vec_of n xs) + 1 = vsize (vec_of n (xs @ [x]))"
  by (simp add: vec_of_def)

lemma vsize_pred: "vsize (vec_of n (xs @ [x])) - 1 = vsize (vec_of n xs)"
  by (simp add: vec_of_def)

lemma construct_next:
  assumes "length xs < unat n"
  shows "construct (vsize (vec_of n xs)) x (vec_of n xs\<lparr>vsize := s\<rparr>) = Inr (vec_of n (xs @ [x])\<lparr>vsize := s\<rparr>)"
proof -
  have len: "unat (vsize (vec_of n xs)) = length xs" using assms by (intro vec_of_fields) simp
  obtain k where k: "unat n - length xs = Suc k" using assms by (metis Suc_diff_Suc)
  then have "unat n - length (xs @ [x]) = k" by simp
  then show ?thesis using assms k by (simp add: construct_def len) (simp add: vec_of_def list_update_append)
qed

lemma destruct_last:
  assumes "length xs < unat n"
  shows "destruct (vsize (vec_of n xs)) (vec_of n (xs @ [x])\<lparr>vsize := s\<rparr>) = Inr (vec_of n xs\<lparr>vsize := s\<rparr>)"
proof -
  have len: "unat (vsize (vec_of n xs)) = length xs" using assms by (intro vec_of_fields) simp
  obtain k where k: "unat n - length xs = Suc k" using assms by (metis Suc_diff_Suc)
  then have "unat n - length (xs @ [x]) = k" by simp
  then show ?thesis using assms k by (simp add: destruct_def len) (simp add: vec_of_def list_update_append nth_append)
qed

section \<open>The operations on a well-formed vector\<close>

lemma vec_of_vsize: "s = vsize (vec_of n xs) \<Longrightarrow> (vec_of n xs)\<lparr>vsize := s\<rparr> = vec_of n xs"
  by simp

lemma new_reserved_vec: "new_reserved n = vec_of n []"
  by (simp add: new_reserved_def vec_of_def)

lemma vsize_less:
  assumes "length xs \<le> unat n"
  shows "vsize (vec_of n xs) < m \<longleftrightarrow> length xs < unat m" "m < vsize (vec_of n xs) \<longleftrightarrow> unat m < length xs"
  using vec_of_fields(1) [OF assms] by (simp_all add: word_less_nat_alt)

lemma push_back_vec:
  assumes "length xs \<le> unat n"
  shows "push_back x (vec_of n xs) = (if length xs < unat n then Inr (vec_of n (xs @ [x])) else Inl Assertion)"
proof (cases "length xs < unat n")
  case True
  then show ?thesis
    using vsize_less(1) [OF assms, of n] construct_next [OF True, of x]
    by (simp add: push_back_def vec_of_fields [OF assms] vsize_Suc [of xs n x])
next
  case False
  then show ?thesis using vsize_less(1) [OF assms, of n] by (simp add: push_back_def vec_of_fields [OF assms])
qed

lemma emplace_back_push: "emplace_back conv x v = push_back (conv x) v"
  by (simp add: emplace_back_def push_back_def)

lemma pop_back_vec:
  assumes "length xs \<le> unat n"
  shows "pop_back (vec_of n xs) = (if xs \<noteq> [] then Inr (vec_of n (butlast xs)) else Inl Assertion)"
proof (cases xs rule: rev_cases)
  case Nil
  then show ?thesis by (simp add: pop_back_def vec_of_def)
next
  case (snoc ys y)
  then have ys: "length ys < unat n" using assms by simp
  have "0 < vsize (vec_of n xs)" using vsize_less(2) [OF assms, of 0] snoc by simp
  then show ?thesis
    using destruct_last [OF ys, where x = y and s = "vsize (vec_of n ys)"] by (simp add: pop_back_def snoc Let_def vsize_pred)
qed

lemma vec_at_vec:
  assumes "length xs \<le> unat n"
  shows "vec_at i (vec_of n xs) = (if unat i < length xs then Inr (xs ! unat i) else Inl Assertion)"
  using assms vsize_less(2) [OF assms, of i] vec_of_fields [OF assms]
  by (simp add: vec_at_def read_cell_def)

lemma vec_back_vec:
  assumes "length xs \<le> unat n"
  shows "vec_back (vec_of n xs) = (if xs \<noteq> [] then Inr (last xs) else Inl Assertion)"
proof (cases xs rule: rev_cases)
  case Nil
  then show ?thesis by (simp add: vec_back_def vec_of_def)
next
  case (snoc ys y)
  have "0 < vsize (vec_of n xs)" using vsize_less(2) [OF assms, of 0] snoc by simp
  moreover have "unat (vsize (vec_of n xs) - 1) = length ys"
    unfolding snoc vsize_pred using assms snoc by (intro vec_of_fields) simp
  ultimately show ?thesis using assms vec_of_fields [OF assms]
    by (simp add: vec_back_def read_cell_def snoc)
qed

lemma replicate_less: "l < m \<Longrightarrow> replicate (m - l) x = x # replicate (m - Suc l) x"
  by (simp add: Suc_diff_Suc flip: replicate_Suc)

lemma grow_vec:
  assumes "length xs \<le> unat n" "m \<le> n"
  shows "grow dflt m (vec_of n xs) = Inr (vec_of n (xs @ replicate (unat m - length xs) dflt))"
  using assms(1)
proof (induction "unat m - length xs" arbitrary: xs)
  case 0
  then show ?case using vsize_less(1) [OF 0(2), of m] by (subst grow.simps) simp
next
  case (Suc k)
  then have lt: "length xs < unat m" by simp
  with assms(2) have n: "length xs < unat n" by (simp add: word_le_nat_alt)
  have step: "grow dflt m (vec_of n xs) = grow dflt m (vec_of n (xs @ [dflt]))"
    using vsize_less(1) [OF Suc.prems, of m] lt construct_next [OF n, where x = dflt and s = "vsize (vec_of n xs)"]
    by (subst grow.simps) (simp add: vec_of_vsize [OF vsize_Suc [OF n]])
  have "grow dflt m (vec_of n (xs @ [dflt])) = Inr (vec_of n ((xs @ [dflt]) @ replicate (unat m - length (xs @ [dflt])) dflt))"
    using Suc(2) n by (intro Suc(1)) simp_all
  moreover have "replicate (unat m - length xs) dflt = dflt # replicate (unat m - length (xs @ [dflt])) dflt"
    using replicate_less [OF lt] by simp
  ultimately show ?case using step by simp
qed

lemma shrink_vec:
  assumes "length xs \<le> unat n"
  shows "shrink m (vec_of n xs) = Inr (vec_of n (take (unat m) xs))"
  using assms
proof (induction xs rule: rev_induct)
  case Nil
  then show ?case by (subst shrink.simps) (simp add: vec_of_def)
next
  case (snoc x xs)
  then have n: "length xs < unat n" by simp
  show ?case
  proof (cases "unat m < length (xs @ [x])")
    case False
    then show ?thesis using vsize_less(2) [OF snoc.prems, of m] by (subst shrink.simps) simp
  next
    case True
    then have "m < vsize (vec_of n (xs @ [x]))" using vsize_less(2) [OF snoc.prems, of m] by simp
    then have "shrink m (vec_of n (xs @ [x])) = shrink m (vec_of n xs)"
      using destruct_last [OF n, where x = x and s = "vsize (vec_of n (xs @ [x]))"]
      by (subst shrink.simps) (simp add: vsize_pred)
    then show ?thesis using snoc.IH n True by simp
  qed
qed

lemma resize_vec:
  assumes "length xs \<le> unat n"
  shows "resize dflt m (vec_of n xs) = (if unat m \<le> unat n
    then Inr (vec_of n (take (unat m) xs @ replicate (unat m - length xs) dflt)) else Inl Assertion)"
proof (cases "m \<le> n")
  case True
  then have m: "unat m \<le> unat n" by (simp add: word_le_nat_alt)
  let ?ys = "xs @ replicate (unat m - length xs) dflt"
  have ys: "length ?ys \<le> unat n" using assms m by simp
  let ?zs = "take (unat m) xs @ replicate (unat m - length xs) dflt"
  have "take (unat m) ?ys = ?zs" by simp
  then have shr: "shrink m (vec_of n ?ys) = Inr (vec_of n ?zs)" using shrink_vec [OF ys, of m] by (simp only:)
  have "length ?zs = unat m" by simp
  then have "vsize (vec_of n ?zs) = m" by (simp only: vec_of_def max_size_vector.select_convs) simp
  moreover have "reserve (vec_of n xs) = n" by (simp add: vec_of_def)
  ultimately show ?thesis
    using True m by (simp only: resize_def grow_vec [OF assms True] shr sum.case simp_thms if_True)
next
  case False
  then show ?thesis by (simp add: resize_def vec_of_fields [OF assms] word_le_nat_alt)
qed

lemma destroy_down_vec:
  "length xs \<le> unat n \<Longrightarrow> i = vsize (vec_of n xs)
    \<Longrightarrow> destroy_down i ((vec_of n xs)\<lparr>vsize := s\<rparr>) = Inr ((new_reserved n)\<lparr>vsize := s\<rparr>)"
proof (induction xs arbitrary: i rule: rev_induct)
  case Nil
  then show ?case by (subst destroy_down.simps) (simp add: vec_of_def new_reserved_def)
next
  case (snoc x xs)
  then have n: "length xs < unat n" by simp
  have "0 < i" using vsize_less(2) [OF snoc.prems(1), of 0] snoc.prems(2) by simp
  then have "destroy_down i ((vec_of n (xs @ [x]))\<lparr>vsize := s\<rparr>) = destroy_down (vsize (vec_of n xs)) ((vec_of n xs)\<lparr>vsize := s\<rparr>)"
    using destruct_last [OF n, where x = x and s = s] by (subst destroy_down.simps) (simp add: snoc.prems(2) vsize_pred)
  also have "\<dots> = Inr ((new_reserved n)\<lparr>vsize := s\<rparr>)" using n by (intro snoc.IH) simp_all
  finally show ?case .
qed

text \<open>The positions from \<open>k\<close> down to 0, and then the one in front of the buffer.\<close>

definition down_and_before :: "nat \<Rightarrow> u64 list" where
  "down_and_before k = map of_nat (rev [0..<k]) @ [- 1]"

lemma undo_vec:
  "length (xs :: 'a list) \<le> unat n \<Longrightarrow> i = vsize (vec_of n xs) \<Longrightarrow> length xs < 2 ^ 64 - 1
    \<Longrightarrow> undo i ((vec_of n xs)\<lparr>vsize := s\<rparr>) = (down_and_before (length xs), Inl Outside)"
proof (induction xs arbitrary: i rule: rev_induct)
  case Nil
  have big: "unat (0 - 1 :: u64) = 2 ^ 64 - 1" by (simp add: unsigned_minus_1_eq_mask mask_eq_exp_minus_1)
  have "destruct (0 - 1) ((vec_of n ([] :: 'a list))\<lparr>vsize := s\<rparr>) = Inl Outside"
    using u64_bound [of n] unfolding destruct_def big by (simp add: vec_of_def)
  moreover have "i = 0" using Nil(2) by (simp add: vec_of_def)
  ultimately show ?case by (subst undo.simps) (simp add: down_and_before_def)
next
  case (snoc x xs)
  then have n: "length xs < unat n" by simp
  have "unat i = length (xs @ [x])" using snoc.prems(1,2) by (simp add: vec_of_fields)
  then have "unat (i + 1) = length (xs @ [x]) + 1" using snoc.prems(3) u64_add [of i 1] by simp
  then have pos: "0 < i + 1" by (simp add: word_less_nat_alt)
  have pred: "i - 1 = vsize (vec_of n xs)" by (simp add: snoc.prems(2) vsize_pred)
  have "undo (i - 1) ((vec_of n xs)\<lparr>vsize := s\<rparr>) = (down_and_before (length xs), Inl Outside)"
    using n snoc.prems(3) pred by (intro snoc.IH) simp_all
  moreover have "destruct (i - 1) ((vec_of n (xs @ [x]))\<lparr>vsize := s\<rparr>) = Inr ((vec_of n xs)\<lparr>vsize := s\<rparr>)"
    unfolding pred by (rule destruct_last [OF n])
  moreover have "(i - 1) # down_and_before (length xs) = down_and_before (length (xs @ [x]))"
    by (simp add: pred down_and_before_def) (simp add: vec_of_def)
  ultimately show ?case using pos by (subst undo.simps) simp
qed

lemma fill_vec:
  assumes "length xs \<le> unat n"
  shows "fill throws x (vsize (vec_of n xs)) ((vec_of n xs)\<lparr>vsize := n\<rparr>)
    = (case find throws (map of_nat [length xs..<unat n]) of
         None \<Rightarrow> ([], Inr (vec_of n (xs @ replicate (unat n - length xs) x)))
       | Some i \<Rightarrow> (down_and_before (unat i), Inl Outside))"
  using assms
proof (induction "unat n - length xs" arbitrary: xs)
  case 0
  then have len: "length xs = unat n" by simp
  then have "vsize (vec_of n xs) = n" by (simp add: vec_of_def)
  then show ?case by (subst fill.simps) (simp add: len vec_of_vsize)
next
  case (Suc k)
  then have lt: "length xs < unat n" by simp
  let ?i = "vsize (vec_of n xs)"
  have i: "unat ?i = length xs" by (rule vec_of_fields(1) [OF Suc.prems])
  then have less: "?i < n" using lt by (simp add: word_less_nat_alt)
  have upt: "map of_nat [length xs..<unat n] = ?i # map of_nat [length (xs @ [x])..<unat n]"
    using lt by (simp add: upt_rec) (simp add: vec_of_def)
  show ?case
  proof (cases "throws ?i")
    case True
    have "length xs < 2 ^ 64 - 1" using lt u64_bound [of n] by simp
    from undo_vec [OF Suc.prems refl this, of n] True less i show ?thesis
      by (subst fill.simps) (simp add: upt)
  next
    case False
    have "fill throws x ?i ((vec_of n xs)\<lparr>vsize := n\<rparr>)
        = fill throws x (vsize (vec_of n (xs @ [x]))) ((vec_of n (xs @ [x]))\<lparr>vsize := n\<rparr>)"
      using False less construct_next [OF lt, of x n] by (subst fill.simps) (simp add: vsize_Suc [OF lt, of x])
    also have "\<dots> = (case find throws (map of_nat [length (xs @ [x])..<unat n]) of
         None \<Rightarrow> ([], Inr (vec_of n ((xs @ [x]) @ replicate (unat n - length (xs @ [x])) x)))
       | Some i \<Rightarrow> (down_and_before (unat i), Inl Outside))"
      using Suc(2) lt by (intro Suc(1)) simp_all
    also have "(xs @ [x]) @ replicate (unat n - length (xs @ [x])) x = xs @ replicate (unat n - length xs) x"
      using replicate_less [OF lt, of x] by simp
    finally show ?thesis using False by (simp add: upt)
  qed
qed

section \<open>Histories\<close>

datatype 'a vec_op =
    Push_back 'a
  | Emplace_back 'a
  | Pop_back
  | Resize u64
  | At u64
  | Back
  | Size
  | Is_empty

datatype 'a answer = Unit | Element 'a | Number u64 | Flag bool

definition keep :: "'s \<Rightarrow> vec_error + 'a \<Rightarrow> vec_error + 'a answer \<times> 's" where
  "keep s r = (case r of Inl e \<Rightarrow> Inl e | Inr x \<Rightarrow> Inr (Element x, s))"

definition change :: "vec_error + 's \<Rightarrow> vec_error + 'a answer \<times> 's" where
  "change r = (case r of Inl e \<Rightarrow> Inl e | Inr s \<Rightarrow> Inr (Unit, s))"

fun vec_step :: "'a \<Rightarrow> 'a vec_op \<Rightarrow> 'a max_size_vector \<Rightarrow> vec_error + 'a answer \<times> 'a max_size_vector" where
  "vec_step dflt (Push_back x) v = change (push_back x v)"
| "vec_step dflt (Emplace_back x) v = change (emplace_back (\<lambda>y. y) x v)"
| "vec_step dflt Pop_back v = change (pop_back v)"
| "vec_step dflt (Resize n) v = change (resize dflt n v)"
| "vec_step dflt (At i) v = keep v (vec_at i v)"
| "vec_step dflt Back v = keep v (vec_back v)"
| "vec_step dflt Size v = Inr (Number (vsize v), v)"
| "vec_step dflt Is_empty v = Inr (Flag (vec_empty v), v)"

text \<open>The same operations on a list of at most \<open>cap\<close> elements; the only error is a failed assertion.\<close>

definition guarded :: "bool \<Rightarrow> 's \<Rightarrow> vec_error + 's" where
  "guarded b s = (if b then Inr s else Inl Assertion)"

fun list_step :: "nat \<Rightarrow> 'a \<Rightarrow> 'a vec_op \<Rightarrow> 'a list \<Rightarrow> vec_error + 'a answer \<times> 'a list" where
  "list_step cap dflt (Push_back x) xs = change (guarded (length xs < cap) (xs @ [x]))"
| "list_step cap dflt (Emplace_back x) xs = change (guarded (length xs < cap) (xs @ [x]))"
| "list_step cap dflt Pop_back xs = change (guarded (xs \<noteq> []) (butlast xs))"
| "list_step cap dflt (Resize n) xs =
     change (guarded (unat n \<le> cap) (take (unat n) xs @ replicate (unat n - length xs) dflt))"
| "list_step cap dflt (At i) xs = keep xs (guarded (unat i < length xs) (xs ! unat i))"
| "list_step cap dflt Back xs = keep xs (guarded (xs \<noteq> []) (last xs))"
| "list_step cap dflt Size xs = Inr (Number (of_nat (length xs)), xs)"
| "list_step cap dflt Is_empty xs = Inr (Flag (xs = []), xs)"

fun history :: "('o \<Rightarrow> 's \<Rightarrow> vec_error + 'a answer \<times> 's) \<Rightarrow> 'o list \<Rightarrow> 's \<Rightarrow> vec_error + 'a answer list \<times> 's" where
  "history step [] s = Inr ([], s)"
| "history step (op # ops) s =
     (case step op s of
        Inl e \<Rightarrow> Inl e
      | Inr (a, s) \<Rightarrow> (case history step ops s of Inl e \<Rightarrow> Inl e | Inr (as, s) \<Rightarrow> Inr (a # as, s)))"

definition in_vec :: "u64 \<Rightarrow> vec_error + 'b \<times> 'a list \<Rightarrow> vec_error + 'b \<times> 'a max_size_vector" where
  "in_vec n r = (case r of Inl e \<Rightarrow> Inl e | Inr (a, xs) \<Rightarrow> Inr (a, vec_of n xs))"

lemma list_step_fits: "list_step (unat n) dflt op xs = Inr (a, ys) \<Longrightarrow> length xs \<le> unat n \<Longrightarrow> length ys \<le> unat n"
  by (cases op) (auto simp: change_def keep_def guarded_def min_def split: if_splits)

lemma vec_step_list:
  assumes "length xs \<le> unat n"
  shows "vec_step dflt op (vec_of n xs) = in_vec n (list_step (unat n) dflt op xs)"
proof (cases op)
  case Is_empty
  have "vsize (vec_of n xs) = 0 \<longleftrightarrow> xs = []" using vec_of_fields(1) [OF assms] by (metis length_0_conv unat_eq_zero)
  then show ?thesis by (simp add: Is_empty vec_empty_def in_vec_def)
next
  case Size
  then show ?thesis by (simp add: in_vec_def) (simp add: vec_of_def)
qed (use assms in \<open>simp_all add: push_back_vec emplace_back_push pop_back_vec resize_vec vec_at_vec vec_back_vec
    change_def keep_def guarded_def in_vec_def\<close>)

lemma history_list:
  "length xs \<le> unat n \<Longrightarrow> history (vec_step dflt) ops (vec_of n xs) = in_vec n (history (list_step (unat n) dflt) ops xs)
    \<and> (\<forall>as ys. history (list_step (unat n) dflt) ops xs = Inr (as, ys) \<longrightarrow> length ys \<le> unat n)"
proof (induction ops arbitrary: xs)
  case Nil
  then show ?case by (simp add: in_vec_def)
next
  case (Cons op ops)
  show ?case
  proof (cases "list_step (unat n) dflt op xs")
    case (Inl e)
    then show ?thesis using vec_step_list [OF Cons.prems, of dflt op] by (simp add: in_vec_def)
  next
    case (Inr p)
    then obtain a ys where p: "list_step (unat n) dflt op xs = Inr (a, ys)" by (cases p) simp
    note IH = Cons.IH [OF list_step_fits [OF p Cons.prems]]
    show ?thesis
      using vec_step_list [OF Cons.prems, of dflt op] p IH
      by (auto simp: in_vec_def split: sum.splits)
  qed
qed

text \<open>
  C28: Whatever operations are called on a new \<open>MaxSizeVector\<close>, it answers as a list of at most that many
  elements does, up to and including the first failed assertion, and nothing is read, constructed
  or destroyed outside the buffer; the destructor then destroys every element.
\<close>

theorem vector_is_bounded_list:
  "(case history (vec_step dflt) ops (new_reserved n) of
      Inl e \<Rightarrow> history (list_step (unat n) dflt) ops [] = Inl e
    | Inr (as, v) \<Rightarrow> history (list_step (unat n) dflt) ops [] = Inr (as, contents v)
        \<and> reserve v = n \<and> length (contents v) = unat (vsize v) \<and> destructor v = Inr ((new_reserved n)\<lparr>vsize := vsize v\<rparr>))"
proof (cases "history (list_step (unat n) dflt) ops []")
  case (Inl e)
  then show ?thesis using history_list [of "[]" n dflt ops] by (simp add: new_reserved_vec in_vec_def)
next
  case (Inr p)
  then obtain as ys where p: "history (list_step (unat n) dflt) ops [] = Inr (as, ys)" by (cases p) simp
  with history_list [of "[]" n dflt ops] have v: "history (vec_step dflt) ops (new_reserved n) = Inr (as, vec_of n ys)"
    and ys: "length ys \<le> unat n" by (simp_all add: new_reserved_vec in_vec_def)
  have "destructor (vec_of n ys) = Inr ((new_reserved n)\<lparr>vsize := vsize (vec_of n ys)\<rparr>)"
    using destroy_down_vec [OF ys refl, of "vsize (vec_of n ys)"] by (simp add: destructor_def)
  then show ?thesis using v p ys by (simp add: contents_vec_of vec_of_fields)
qed

text \<open>
  C29: The constructor with an initial value makes the vector of \<open>n\<close> copies, destroying nothing, if no copy
  throws.  If \<open>i\<close> is the first element whose copy throws, the handler calls the destructors of the elements
  from \<open>i - 1\<close> down to 0, in this order, each on a live element, and then that of the position in front of the buffer,
  index \<open>-1\<close>, as its condition \<open>(i + 1) > 0\<close> still holds for \<open>i = 0\<close>: only this last call is the error.
\<close>

theorem filled_constructor:
  "new_filled throws n x =
     (case find throws (map of_nat [0..<unat n]) of
        None \<Rightarrow> ([], Inr (vec_of n (replicate (unat n) x)))
      | Some i \<Rightarrow> (map of_nat (rev [0..<unat i]) @ [- 1], Inl Outside))"
proof -
  have "(new_reserved n)\<lparr>vsize := n\<rparr> = (vec_of n ([] :: 'a list))\<lparr>vsize := n\<rparr>" by (simp add: new_reserved_vec)
  moreover have "vsize (vec_of n ([] :: 'a list)) = 0" by (simp add: vec_of_def)
  ultimately show ?thesis
    using fill_vec [of "[] :: 'a list" n throws x] unfolding down_and_before_def
    by (simp add: new_filled_def split: option.split)
qed

end
