(* ===== verification/Aligned_Memory.thy ===== *)
theory Aligned_Memory
  imports Prelude
begin

text \<open>
  The aligned allocation of src/include/eigen/memory.h.  The address space is a map from addresses to
  bytes; \<open>malloc n\<close> is the address the C library returns for a request of \<open>n\<close> bytes, 0 for none.
\<close>

section \<open>The code\<close>

type_synonym memory = "u64 \<Rightarrow> 8 word"

definition alignment_ok :: "u64 \<Rightarrow> bool" where
  "alignment_ok alignment \<longleftrightarrow> 8 \<le> alignment \<and> alignment \<le> 128 \<and> alignment AND (alignment - 1) = 0"

text \<open>\<open>None\<close> where the assertion fails.\<close>

definition handmade_aligned_malloc :: "(u64 \<Rightarrow> u64) \<Rightarrow> u64 \<Rightarrow> u64 \<Rightarrow> memory \<Rightarrow> (u64 \<times> memory) option" where
  "handmade_aligned_malloc malloc sz alignment mem =
     (if alignment_ok alignment then
        let original = malloc (sz + alignment)
        in if original = 0 then Some (0, mem)
           else let offset = ucast (alignment - (original AND (alignment - 1))) :: 8 word;
                    aligned = original + ucast offset
                in Some (aligned, mem(aligned - 1 := offset))
      else None)"

text \<open>The address given back to \<open>std::free\<close>, if any.\<close>

definition handmade_aligned_free :: "u64 \<Rightarrow> memory \<Rightarrow> u64 option" where
  "handmade_aligned_free ptr mem =
     (if ptr \<noteq> 0 then (let offset = mem (ptr - 1); original = ptr - ucast offset in Some original) else None)"

section \<open>Allocating and freeing\<close>

lemma alignment_power:
  assumes "alignment_ok alignment"
  obtains k where "unat alignment = 2 ^ k" "3 \<le> k" "k \<le> 7" "\<And>x. unat (x AND (alignment - 1)) = unat x mod 2 ^ k"
proof -
  have u: "8 \<le> unat alignment" "unat alignment \<le> 128"
    using assms by (simp_all add: alignment_ok_def word_le_nat_alt)
  then have pred: "unat (alignment - 1) = unat alignment - 1"
    using u64_sub [of 1 alignment] by (simp add: word_le_nat_alt)
  have "unat (alignment AND (alignment - 1)) = 0" using assms by (simp add: alignment_ok_def)
  then have "unat alignment AND (unat alignment - 1) = 0" by (simp only: unsigned_and_eq pred)
  then obtain k where k: "unat alignment = 2 ^ k" using nat_and_pred_zero [of "unat alignment"] u by auto
  have "(2 :: nat) ^ i \<le> 2 ^ j \<longleftrightarrow> i \<le> j" for i j by simp
  from this [of 3 k] this [of k 7] have "3 \<le> k" "k \<le> 7" using u k by simp_all
  moreover have "unat (x AND (alignment - 1)) = unat x mod 2 ^ k" for x
    by (simp only: unsigned_and_eq pred k) (metis mask_eq_exp_minus_1 take_bit_eq_mask take_bit_eq_mod)
  ultimately show thesis using that k by blast
qed

text \<open>
  C30: For an alignment the assertion accepts and a block that \<open>malloc\<close> could provide, the address returned is a
  multiple of the alignment, the requested bytes after it lie inside the block, and one byte of the block in
  front of it is written; from whatever memory that still has that byte, \<open>handmade_aligned_free\<close>
  frees the block \<open>malloc\<close> returned.
\<close>

theorem aligned_malloc_free:
  assumes "alignment_ok alignment" "unat sz + unat alignment < 2 ^ 64"
    "malloc (sz + alignment) = original" "original \<noteq> 0" "unat original + unat (sz + alignment) < 2 ^ 64"
  shows "\<exists>aligned mem'. handmade_aligned_malloc malloc sz alignment mem = Some (aligned, mem') \<and>
    unat aligned mod unat alignment = 0 \<and>
    unat original < unat aligned \<and> unat aligned + unat sz \<le> unat original + unat (sz + alignment) \<and>
    (\<forall>a. a \<noteq> aligned - 1 \<longrightarrow> mem' a = mem a) \<and>
    (\<forall>mem2. mem2 (aligned - 1) = mem' (aligned - 1) \<longrightarrow> handmade_aligned_free aligned mem2 = Some original)"
proof -
  obtain k where k: "unat alignment = 2 ^ k" "3 \<le> k" "k \<le> 7"
    and low: "\<And>x. unat (x AND (alignment - 1)) = unat x mod 2 ^ k"
    using alignment_power [OF assms(1)] by metis
  let ?o = "unat original" and ?off = "alignment - (original AND (alignment - 1))"
  have lt: "?o mod 2 ^ k < 2 ^ k" by simp
  then have "original AND (alignment - 1) \<le> alignment" by (simp add: word_le_nat_alt low k(1))
  then have off: "unat ?off = 2 ^ k - ?o mod 2 ^ k" using u64_sub [of "original AND (alignment - 1)" alignment]
    by (simp only: low k(1))
  have "(2 :: nat) ^ k \<le> 2 ^ 7" using k(3) by (intro power_increasing) simp_all
  then have "unat ?off < 2 ^ 8" using off by simp
  then have byte: "ucast (ucast ?off :: 8 word) = ?off"
    by (intro word_unat_eq_iff [THEN iffD2]) (simp add: unsigned_ucast_eq take_bit_eq_mod unat_mod_distrib)
  have total: "unat (sz + alignment) = unat sz + 2 ^ k" using assms(2) k(1) by (simp add: u64_add)
  have le: "unat ?off \<le> 2 ^ k" "0 < unat ?off" using off lt by simp_all
  have "?o + unat ?off < 2 ^ 64" using assms(5) total le by simp
  then have al: "unat (original + ?off) = ?o + unat ?off" by (rule u64_add)
  have "?o + unat ?off = (?o div 2 ^ k + 1) * 2 ^ k"
  proof -
    have "?o = ?o div 2 ^ k * 2 ^ k + ?o mod 2 ^ k" by (rule div_mult_mod_eq [symmetric])
    then have "?o + unat ?off = ?o div 2 ^ k * 2 ^ k + 2 ^ k" using off lt by linarith
    then show ?thesis by (simp add: algebra_simps)
  qed
  then have "unat (original + ?off) mod unat alignment = 0" by (simp only: al k(1) mod_mult_self2_is_0)
  moreover have "?o < unat (original + ?off)" "unat (original + ?off) + unat sz \<le> ?o + unat (sz + alignment)"
    using al le total by simp_all
  moreover have "original + ?off \<noteq> 0" using al le(2) by (metis add_is_0 less_not_refl unat_0)
  ultimately show ?thesis
    using assms(1,3,4) byte
    by (intro exI [of _ "original + ?off"] exI [of _ "mem(original + ?off - 1 := ucast ?off)"])
      (simp add: handmade_aligned_malloc_def handmade_aligned_free_def Let_def)
qed

theorem aligned_malloc_free_witness:
  "\<exists>aligned mem'. handmade_aligned_malloc (\<lambda>n. 4099) 100 64 (\<lambda>_. 0) = Some (aligned, mem') \<and>
    unat aligned mod unat (64 :: u64) = 0 \<and> handmade_aligned_free aligned mem' = Some 4099"
proof -
  have "alignment_ok 64" by (simp add: alignment_ok_def)
  from aligned_malloc_free [OF this, of 100 "\<lambda>n. 4099" 4099 "\<lambda>_. 0"] show ?thesis by auto
qed

end
