(* ===== verification/Rapid_Start.thy ===== *)
theory Rapid_Start
  imports Prelude "HOL-Library.Signed_Division"
begin

text \<open>
  The fork and join of src/include/rapid\_start.h.  Threads trapped in a spin loop wait for the next
  job; \<open>spread_work\<close> wakes the ones in its snapshot of the start mask, and each runs its part of the
  job's range.  First the arithmetic of the parts, then the protocol as steps of the caller and of the
  trapped threads, one shared access at a time, in any order.
\<close>

section \<open>The parts of a job\<close>

text \<open>Which part of how many \<open>distribution_base::run\<close> gives a slot.\<close>

definition run_part :: "nat \<Rightarrow> u64 \<Rightarrow> int \<times> int" where
  "run_part slot msk =
     fold (\<lambda>i (part, parts).
         if msk AND push_bit i 1 \<noteq> 0 then (if i = slot then parts else part, parts + 1) else (part, parts))
       [1..<64] (0, 1)"

text \<open>A result that does not fit into an \<open>int\<close> is undefined.\<close>

definition to_int :: "int \<Rightarrow> int option" where
  "to_int x = (if - (2 ^ 31) \<le> x \<and> x < 2 ^ 31 then Some x else None)"

definition range_bound :: "int \<Rightarrow> int \<Rightarrow> int \<Rightarrow> int \<Rightarrow> int option" where
  "range_bound my_start step remainder part =
     Option.bind (to_int (part * step)) (\<lambda>p.
     Option.bind (to_int (my_start + p)) (\<lambda>s. to_int (s + min remainder part)))"

text \<open>The range \<open>[start, end)\<close> and the number with which \<open>my_func\<close> is called.\<close>

definition execute :: "int \<Rightarrow> int \<Rightarrow> int \<Rightarrow> int \<Rightarrow> (int \<times> int \<times> int) option" where
  "execute my_start my_end part parts =
     Option.bind (to_int (my_end - my_start)) (\<lambda>range.
     let step = range sdiv parts; remainder = range smod parts
     in Option.bind (range_bound my_start step remainder part) (\<lambda>start.
        let part = part + 1
        in Option.bind (range_bound my_start step remainder part) (\<lambda>end_at.
          Some (start, end_at, part))))"

definition run :: "int \<Rightarrow> int \<Rightarrow> nat \<Rightarrow> u64 \<Rightarrow> (int \<times> int \<times> int) option" where
  "run my_start my_end slot msk = (case run_part slot msk of (part, parts) \<Rightarrow> execute my_start my_end part parts)"

text \<open>The slots below \<open>n\<close> that take part.\<close>

definition slots_below :: "u64 \<Rightarrow> nat \<Rightarrow> nat list" where
  "slots_below msk n = filter (bit msk) [1..<n]"

lemma set_slots_below: "slot \<in> set (slots_below msk n) \<longleftrightarrow> 1 \<le> slot \<and> slot < n \<and> bit msk slot"
  by (auto simp: slots_below_def)

lemma slots_below_Suc: "1 \<le> n \<Longrightarrow> slots_below msk (Suc n) = slots_below msk n @ (if bit msk n then [n] else [])"
  by (simp add: slots_below_def)

lemma run_part_loop:
  "1 \<le> n \<Longrightarrow> fold (\<lambda>i (part, parts).
         if bit msk i then (if i = slot then parts else part, parts + 1) else (part, parts)) [1..<n] (0, 1)
   = (if slot \<in> set (slots_below msk n) then 1 + int (length (slots_below msk slot)) else 0,
      1 + int (length (slots_below msk n)))"
proof (induction n rule: dec_induct)
  case base
  show ?case by (simp add: slots_below_def)
next
  case (step n)
  then have upt: "[1..<Suc n] = [1..<n] @ [n]" by simp
  show ?case
    unfolding upt fold_append comp_def step.IH slots_below_Suc [OF step(1)]
    using step(1) by (auto simp: set_slots_below)
qed

lemma run_part_slot:
  "run_part slot msk = (if slot \<in> set (slots_below msk 64) then 1 + int (length (slots_below msk slot)) else 0,
    1 + int (length (slots_below msk 64)))"
  unfolding run_part_def bit_iff_and_push_bit_not_eq_0 [symmetric] by (rule run_part_loop) simp

text \<open>Position by position, the parts of the slots of a mask.\<close>

lemma slots_below_nth:
  assumes "k < length (slots_below msk n)"
  shows "length (slots_below msk (slots_below msk n ! k)) = k"
proof -
  let ?xs = "slots_below msk n"
  define x where "x = ?xs ! k"
  have srt: "sorted_wrt (<) ?xs" unfolding slots_below_def by (intro sorted_wrt_filter) simp
  have "x \<in> set ?xs" using assms by (simp add: x_def)
  then have x: "x < n" "1 \<le> x" by (auto simp: slots_below_def)
  then have split: "[1..<n] = [1..<x] @ [x..<n]" using upt_add_eq_append [of 1 x "n - x"] by simp
  have "slots_below msk x = filter (\<lambda>y. y < x) ?xs"
    unfolding slots_below_def split filter_append filter_filter by (auto simp: filter_empty_conv intro: filter_cong)
  also have "\<dots> = take k ?xs"
  proof -
    have less: "?xs ! i < ?xs ! j" if "i < j" "j < length ?xs" for i j
      using srt that by (rule sorted_wrt_nth_less)
    have "filter (\<lambda>y. y < x) (take k ?xs) = take k ?xs"
      using less assms by (auto simp: filter_id_conv in_set_conv_nth x_def)
    moreover have "\<not> ?xs ! (k + i) < x" if "k + i < length ?xs" for i
      using less [of k "k + i"] that by (cases i) (auto simp: x_def)
    then have "filter (\<lambda>y. y < x) (drop k ?xs) = []" by (auto simp: filter_empty_conv in_set_conv_nth)
    ultimately show ?thesis by (metis append_Nil2 append_take_drop_id filter_append)
  qed
  finally show ?thesis using assms by (simp add: x_def)
qed

lemma run_part_slots:
  "map (\<lambda>slot. fst (run_part slot msk)) (0 # slots_below msk 64) = map int [0..<Suc (length (slots_below msk 64))]"
proof (rule nth_equalityI)
  fix k
  assume "k < length (map (\<lambda>slot. fst (run_part slot msk)) (0 # slots_below msk 64))"
  then show "map (\<lambda>slot. fst (run_part slot msk)) (0 # slots_below msk 64) ! k
      = map int [0..<Suc (length (slots_below msk 64))] ! k"
  proof (cases k)
    case 0
    then show ?thesis by (simp add: run_part_slot slots_below_def del: upt_Suc)
  next
    case (Suc i)
    with \<open>k < _\<close> have "i < length (slots_below msk 64)" by simp
    then show ?thesis by (simp add: Suc run_part_slot slots_below_nth del: upt_Suc)
  qed
qed simp

text \<open>The bounds of the parts of a range that fits into an \<open>int\<close>.\<close>

definition bound :: "int \<Rightarrow> int \<Rightarrow> int \<Rightarrow> int \<Rightarrow> int" where
  "bound my_start my_end parts part =
     my_start + part * ((my_end - my_start) div parts) + min ((my_end - my_start) mod parts) part"

definition int_range :: "int \<Rightarrow> int \<Rightarrow> bool" where
  "int_range my_start my_end \<longleftrightarrow> - (2 ^ 31) \<le> my_start \<and> my_start \<le> my_end \<and> my_end < 2 ^ 31 \<and> my_end - my_start < 2 ^ 31"

lemma bound_mono:
  assumes "my_start \<le> my_end" "0 < parts" "p \<le> q"
  shows "bound my_start my_end parts p \<le> bound my_start my_end parts q"
proof -
  have "0 \<le> (my_end - my_start) div parts" using assms(1,2) by (simp add: pos_imp_zdiv_nonneg_iff)
  then have "p * ((my_end - my_start) div parts) \<le> q * ((my_end - my_start) div parts)"
    using assms(3) by (rule mult_right_mono [rotated])
  then show ?thesis using assms(3) by (auto simp: bound_def)
qed

lemma bound_ends:
  assumes "0 < parts"
  shows "bound my_start my_end parts 0 = my_start" "bound my_start my_end parts parts = my_end"
  using assms div_mult_mod_eq [of "my_end - my_start" parts] pos_mod_bound [of parts "my_end - my_start"]
    pos_mod_sign [of parts "my_end - my_start"]
  by (auto simp: bound_def mult.commute)

lemma to_intI: "- (2 ^ 31) \<le> x \<Longrightarrow> x < 2 ^ 31 \<Longrightarrow> to_int x = Some x"
  by (simp add: to_int_def)

lemma range_bound_ok:
  assumes "int_range my_start my_end" "0 < parts" "0 \<le> part" "part \<le> parts"
  shows "range_bound my_start ((my_end - my_start) div parts) ((my_end - my_start) mod parts) part
    = Some (bound my_start my_end parts part)"
proof -
  have le: "my_start \<le> my_end" "- (2 ^ 31) \<le> my_start" "my_end < 2 ^ 31" "my_end - my_start < 2 ^ 31"
    using assms(1) by (simp_all add: int_range_def)
  define p where "p = part * ((my_end - my_start) div parts)"
  have "0 \<le> (my_end - my_start) div parts" using le(1) assms(2) by (simp add: pos_imp_zdiv_nonneg_iff)
  then have p: "0 \<le> p" using assms(3) by (simp add: p_def)
  have m: "0 \<le> min ((my_end - my_start) mod parts) part" using assms(2,3) by simp
  have "bound my_start my_end parts part \<le> my_end"
    using bound_mono [OF le(1) assms(2,4)] bound_ends(2) [OF assms(2)] by simp
  moreover have b: "bound my_start my_end parts part = my_start + p + min ((my_end - my_start) mod parts) part"
    by (simp add: bound_def p_def)
  ultimately have "p + min ((my_end - my_start) mod parts) part \<le> my_end - my_start" by linarith
  with le p m have "to_int p = Some p" "to_int (my_start + p) = Some (my_start + p)"
    "to_int (my_start + p + min ((my_end - my_start) mod parts) part)
      = Some (my_start + p + min ((my_end - my_start) mod parts) part)"
    by (intro to_intI; linarith)+
  then show ?thesis unfolding range_bound_def p_def [symmetric] b by simp
qed

lemma execute_ok:
  assumes "int_range my_start my_end" "0 < parts" "0 \<le> part" "part < parts"
  shows "execute my_start my_end part parts
    = Some (bound my_start my_end parts part, bound my_start my_end parts (part + 1), part + 1)"
proof -
  have le: "0 \<le> my_end - my_start" "my_end - my_start < 2 ^ 31" using assms(1) by (simp_all add: int_range_def)
  have "(my_end - my_start) sdiv parts = (my_end - my_start) div parts"
    "(my_end - my_start) smod parts = (my_end - my_start) mod parts"
    using le(1) assms(2) by (simp_all add: signed_divide_int_def signed_modulo_int_def sgn_if)
  moreover have "to_int (my_end - my_start) = Some (my_end - my_start)" using le by (simp add: to_int_def)
  ultimately show ?thesis
    using assms range_bound_ok [OF assms(1,2)] by (simp add: execute_def Let_def)
qed

text \<open>The iterations a call of \<open>run\<close> executes.\<close>

definition iterations :: "int \<Rightarrow> int \<Rightarrow> nat \<Rightarrow> u64 \<Rightarrow> int list" where
  "iterations my_start my_end slot msk =
     (case run my_start my_end slot msk of Some (a, b, _) \<Rightarrow> [a..b - 1] | None \<Rightarrow> [])"

lemma upto_join:
  assumes "a \<le> b" "b \<le> (c :: int)"
  shows "[a..b - 1] @ [b..c - 1] = [a..c - 1]"
proof (cases "b = c")
  case False
  then show ?thesis using assms upto_split1 [of a b "c - 1"] by simp
qed simp

lemma concat_bounds:
  assumes "my_start \<le> my_end" "0 < parts"
  shows "concat (map (\<lambda>p. [bound my_start my_end parts (int p)..bound my_start my_end parts (int p + 1) - 1]) [0..<k])
    = [my_start..bound my_start my_end parts (int k) - 1]"
proof (induction k)
  case 0
  show ?case using bound_ends(1) [OF assms(2)] by simp
next
  case (Suc k)
  let ?b = "\<lambda>p. bound my_start my_end parts p"
  have "?b 0 \<le> ?b (int k)" "?b (int k) \<le> ?b (int k + 1)" by (rule bound_mono; use assms in simp)+
  then have "[my_start..?b (int k) - 1] @ [?b (int k)..?b (int k + 1) - 1] = [my_start..?b (int k + 1) - 1]"
    unfolding bound_ends(1) [OF assms(2)] by (rule upto_join)
  then show ?case using Suc.IH by (simp add: add.commute)
qed

lemma length_slots: "length (slots_below msk 64) \<le> 63"
  unfolding slots_below_def by (rule order.trans [OF length_filter_le]) simp

lemma run_slot:
  assumes "int_range my_start my_end" "k \<le> length (slots_below msk 64)"
  shows "run my_start my_end ((0 # slots_below msk 64) ! k) msk
    = Some (bound my_start my_end (1 + int (length (slots_below msk 64))) (int k),
        bound my_start my_end (1 + int (length (slots_below msk 64))) (int k + 1), int k + 1)"
proof -
  have "fst (run_part ((0 # slots_below msk 64) ! k) msk) = int k"
    using arg_cong [OF run_part_slots [of msk], of "\<lambda>xs. xs ! k"] assms(2) by (simp del: upt_Suc list.map(2))
  moreover have "snd (run_part ((0 # slots_below msk 64) ! k) msk) = 1 + int (length (slots_below msk 64))"
    by (simp add: run_part_slot)
  ultimately have "run_part ((0 # slots_below msk 64) ! k) msk = (int k, 1 + int (length (slots_below msk 64)))"
    by (metis prod.collapse)
  then show ?thesis using assms by (simp only: run_def split_conv) (simp add: execute_ok)
qed

lemma run_partitions_ok:
  assumes "int_range my_start my_end"
  shows "concat (map (\<lambda>slot. iterations my_start my_end slot msk) (0 # slots_below msk 64)) = [my_start..my_end - 1]"
proof -
  let ?n = "length (slots_below msk 64)" and ?b = "bound my_start my_end (1 + int (length (slots_below msk 64)))"
  have "map (\<lambda>slot. iterations my_start my_end slot msk) (0 # slots_below msk 64)
      = map (\<lambda>p. [?b (int p)..?b (int p + 1) - 1]) [0..<Suc ?n]"
    by (rule nth_equalityI) (simp_all add: iterations_def run_slot [OF assms] del: upt_Suc list.map(2))
  then show ?thesis
    using concat_bounds [of my_start my_end "1 + int ?n" "Suc ?n"] bound_ends(2) [of "1 + int ?n" my_start my_end] assms
    by (simp add: int_range_def del: upt_Suc)
qed

end
