(* ===== verification/Trapper.thy ===== *)
theory Trapper
  imports Rapid_Start
begin

text \<open>
  The protocol of \<open>RapidStart\<close>: the caller of \<open>spread_work\<close> and the trapped threads, each a program
  counter with the local values that are still needed.  A step is one access to the shared fields (or
  one run of a part); a spin loop is a step that is not possible until its condition holds.  The
  accesses are sequentially consistent.
\<close>

section \<open>The state\<close>

datatype trapper_pc =
    Check_mode
  | Join
  | Load_epoch
  | Load_run (old: u64)
  | Run_part (old: u64) (seen: u64)
  | Report (old: u64)
  | Wait_epoch (old: u64)
  | Reload_epoch
  | Wait_run (old: u64)
  | Reload_run (old: u64)
  | Test_mode (old: u64)
  | Leave (old: u64)
  | Late_check (old: u64)
  | Late_wait
  | Late_load
  | Late_run (seen: u64)
  | Late_report
  | Respawn
  | Ended

datatype caller_pc =
    Idle
  | Read_epoch nat
  | Clear_run nat u64
  | Set_func nat u64
  | Next_epoch nat u64
  | Snapshot nat
  | Clear_finish nat u64
  | Release nat u64
  | Run_own nat u64
  | Wait_finish u64
  | Stop_mode
  | Stop_run
  | Stop_epoch
  | Stop_wait
  | Destroyed

text \<open>
  A job is known by a number, and \<open>runs\<close> lists the runs of its parts: the job, the slot and the mask.
  The trapped threads have the slots \<open>1, \<dots>, slots - 1\<close>.
\<close>

record rapid_start =
  start_mask :: u64
  finish_mask :: u64
  run_mask :: u64
  func_ptr :: nat
  epoch :: u64
  mode :: int
  n_tasks :: u64
  slots :: nat
  trappers :: "nat \<Rightarrow> trapper_pc"
  caller :: caller_pc
  runs :: "(nat \<times> nat \<times> u64) list"

definition MAX_THREADS :: u64 where
  "MAX_THREADS = 64"

definition RapidStart :: rapid_start where
  "RapidStart = \<lparr>start_mask = 0, finish_mask = 0, run_mask = 0, func_ptr = 0, epoch = 0, mode = 2, n_tasks = 0,
     slots = 0, trappers = (\<lambda>_. Ended), caller = Idle, runs = []\<rparr>"

text \<open>The \<open>int\<close> is converted to \<open>size_t\<close> in the comparison, so a negative number is cut to 64.\<close>

definition init :: "int \<Rightarrow> rapid_start \<Rightarrow> rapid_start" where
  "init maxThreads g =
     (let maxThreads = (if of_int maxThreads > MAX_THREADS then 64 else maxThreads)
      in g\<lparr>n_tasks := of_int maxThreads, slots := nat maxThreads,
           trappers := (\<lambda>i. if 1 \<le> i \<and> int i < maxThreads then Check_mode else trappers g i)\<rparr>)"

section \<open>The steps\<close>

definition bit_of :: "nat \<Rightarrow> u64" where
  "bit_of slot = push_bit slot 1"

text \<open>One step of \<open>TrapperTask::operator()\<close>.\<close>

definition go :: "nat \<Rightarrow> trapper_pc \<Rightarrow> rapid_start \<Rightarrow> rapid_start option" where
  "go slot pc g = Some (g\<lparr>trappers := (trappers g)(slot := pc)\<rparr>)"

definition trapper_step :: "nat \<Rightarrow> rapid_start \<Rightarrow> rapid_start option" where
  "trapper_step slot g =
     (case trappers g slot of
        Check_mode \<Rightarrow> go slot (if mode g \<noteq> 0 then Join else Respawn) g
      | Join \<Rightarrow> go slot Load_epoch (g\<lparr>start_mask := start_mask g + bit_of slot\<rparr>)
      | Load_epoch \<Rightarrow> go slot (Load_run (epoch g)) g
      | Load_run e \<Rightarrow>
          (let r = run_mask g in go slot (if r AND bit_of slot \<noteq> 0 then Run_part e r else Wait_epoch e) g)
      | Run_part e r \<Rightarrow> go slot (Report e) (g\<lparr>runs := runs g @ [(func_ptr g, slot, r)]\<rparr>)
      | Report e \<Rightarrow> go slot (Wait_epoch e) (g\<lparr>finish_mask := finish_mask g OR bit_of slot\<rparr>)
      | Wait_epoch e \<Rightarrow> if epoch g = e then None else go slot Reload_epoch g
      | Reload_epoch \<Rightarrow> go slot (Wait_run (epoch g)) g
      | Wait_run e \<Rightarrow> if run_mask g = 0 then None else go slot (Reload_run e) g
      | Reload_run e \<Rightarrow>
          (let r = run_mask g in go slot (if r AND bit_of slot = bit_of slot then Run_part e r else Test_mode e) g)
      | Test_mode e \<Rightarrow> go slot (if mode g = 2 then Wait_epoch e else Leave e) g
      | Leave e \<Rightarrow> go slot (Late_check e) (g\<lparr>start_mask := start_mask g + - bit_of slot\<rparr>)
      | Late_check e \<Rightarrow> go slot (if e \<noteq> epoch g then Late_wait else Respawn) g
      | Late_wait \<Rightarrow> if run_mask g = 0 then None else go slot Late_load g
      | Late_load \<Rightarrow> (let r = run_mask g in go slot (if r AND bit_of slot \<noteq> 0 then Late_run r else Respawn) g)
      | Late_run r \<Rightarrow> go slot Late_report (g\<lparr>runs := runs g @ [(func_ptr g, slot, r)]\<rparr>)
      | Late_report \<Rightarrow> go slot Respawn (g\<lparr>finish_mask := finish_mask g OR bit_of slot\<rparr>)
      | Respawn \<Rightarrow> if mode g = 0 then go slot Ended (g\<lparr>n_tasks := n_tasks g - 1\<rparr>) else go slot Check_mode g
      | Ended \<Rightarrow> None)"

text \<open>One step of the destructor, and of \<open>spread_work\<close>.\<close>

definition stop_step :: "rapid_start \<Rightarrow> rapid_start option" where
  "stop_step g =
     (case caller g of
        Stop_mode \<Rightarrow> Some (g\<lparr>mode := 0, caller := Stop_run\<rparr>)
      | Stop_run \<Rightarrow> Some (g\<lparr>run_mask := 1, caller := Stop_epoch\<rparr>)
      | Stop_epoch \<Rightarrow> Some (g\<lparr>epoch := epoch g + 1, caller := Stop_wait\<rparr>)
      | Stop_wait \<Rightarrow>
          if list_all (\<lambda>slot. trappers g slot = Ended) [1..<slots g] then Some (g\<lparr>caller := Destroyed\<rparr>) else None
      | _ \<Rightarrow> None)"

definition caller_step :: "rapid_start \<Rightarrow> rapid_start option" where
  "caller_step g =
     (case caller g of
        Idle \<Rightarrow> None
      | Read_epoch f \<Rightarrow> Some (g\<lparr>caller := Clear_run f (epoch g)\<rparr>)
      | Clear_run f e \<Rightarrow> Some (g\<lparr>run_mask := 0, caller := Set_func f e\<rparr>)
      | Set_func f e \<Rightarrow> Some (g\<lparr>func_ptr := f, caller := Next_epoch f e\<rparr>)
      | Next_epoch f e \<Rightarrow> Some (g\<lparr>epoch := e + 1, caller := Snapshot f\<rparr>)
      | Snapshot f \<Rightarrow> Some (g\<lparr>caller := Clear_finish f (start_mask g)\<rparr>)
      | Clear_finish f mask_snapshot \<Rightarrow> Some (g\<lparr>finish_mask := 0, caller := Release f mask_snapshot\<rparr>)
      | Release f mask_snapshot \<Rightarrow> Some (g\<lparr>run_mask := mask_snapshot OR 1, caller := Run_own f mask_snapshot\<rparr>)
      | Run_own f mask_snapshot \<Rightarrow>
          Some (g\<lparr>runs := runs g @ [(f, 0, mask_snapshot)], caller := Wait_finish mask_snapshot\<rparr>)
      | Wait_finish mask_snapshot \<Rightarrow> if finish_mask g = mask_snapshot then Some (g\<lparr>caller := Idle\<rparr>) else None
      | _ \<Rightarrow> stop_step g)"

inductive step :: "rapid_start \<Rightarrow> rapid_start \<Rightarrow> bool" where
  caller: "caller_step g = Some g' \<Longrightarrow> step g g'"
| trapper: "trapper_step slot g = Some g' \<Longrightarrow> 1 \<le> slot \<Longrightarrow> slot < slots g \<Longrightarrow> step g g'"

text \<open>\<open>parallel_ranges\<close>: the caller starts \<open>spread_work\<close> for the job \<open>f\<close>.\<close>

definition spread_work :: "nat \<Rightarrow> rapid_start \<Rightarrow> rapid_start" where
  "spread_work f g = g\<lparr>caller := Read_epoch f\<rparr>"

definition destroy :: "rapid_start \<Rightarrow> rapid_start" where
  "destroy g = g\<lparr>caller := Stop_mode\<rparr>"

section \<open>A spread over settled threads\<close>

text \<open>All threads wait for the next epoch, and the start mask has exactly their bits.\<close>

definition settled :: "rapid_start \<Rightarrow> bool" where
  "settled g \<longleftrightarrow> slots g \<le> 64 \<and> mode g = 2 \<and> caller g = Idle
     \<and> (\<forall>i. 1 \<le> i \<and> i < slots g \<longrightarrow> trappers g i = Wait_epoch (epoch g))
     \<and> (\<forall>i < 64. bit (start_mask g) i \<longleftrightarrow> 1 \<le> i \<and> i < slots g)"

text \<open>Where a thread and the caller are, counted from the start of the spread.\<close>

definition trapper_at :: "u64 \<Rightarrow> u64 \<Rightarrow> nat \<Rightarrow> trapper_pc" where
  "trapper_at e r k = [Wait_epoch e, Reload_epoch, Wait_run (e + 1), Reload_run (e + 1), Run_part (e + 1) r,
     Report (e + 1), Wait_epoch (e + 1)] ! k"

definition caller_at :: "nat \<Rightarrow> u64 \<Rightarrow> u64 \<Rightarrow> nat \<Rightarrow> caller_pc" where
  "caller_at f e s m = [Read_epoch f, Clear_run f e, Set_func f e, Next_epoch f e, Snapshot f, Clear_finish f s,
     Release f s, Run_own f s, Wait_finish s, Idle] ! m"

definition runs_of :: "nat \<Rightarrow> (nat \<times> nat \<times> u64) list \<Rightarrow> (nat \<times> nat \<times> u64) list" where
  "runs_of slot xs = filter (\<lambda>(g, s, r). s = slot) xs"

lemma runs_of_append [simp]: "runs_of slot (xs @ ys) = runs_of slot xs @ runs_of slot ys"
  by (simp add: runs_of_def)

lemma runs_of_single [simp]: "runs_of slot [(f, s, r)] = (if s = slot then [(f, s, r)] else [])"
  by (simp add: runs_of_def)

definition member :: "rapid_start \<Rightarrow> nat \<Rightarrow> bool" where
  "member g i \<longleftrightarrow> 1 \<le> i \<and> i < slots g"

text \<open>
  The parts of the invariant of a spread of job \<open>f\<close> from the settled state \<open>g0\<close>: how far the threads can
  be when the caller is at \<open>m\<close>, where they are, what they have reported and what has run.
\<close>

definition ranks_ok :: "rapid_start \<Rightarrow> nat \<Rightarrow> (nat \<Rightarrow> nat) \<Rightarrow> bool" where
  "ranks_ok g0 m k \<longleftrightarrow> (\<forall>i. member g0 i \<longrightarrow>
     k i \<le> 6 \<and> (m \<le> 3 \<longrightarrow> k i = 0) \<and> (m \<le> 6 \<longrightarrow> k i \<le> 2) \<and> (m = 9 \<longrightarrow> k i = 6))"

definition pcs_ok :: "rapid_start \<Rightarrow> (nat \<Rightarrow> nat) \<Rightarrow> (nat \<Rightarrow> trapper_pc) \<Rightarrow> bool" where
  "pcs_ok g0 k pcs \<longleftrightarrow>
     (\<forall>i. member g0 i \<longrightarrow> pcs i = trapper_at (epoch g0) (start_mask g0 OR 1) (k i))"

definition reports_ok :: "rapid_start \<Rightarrow> (nat \<Rightarrow> nat) \<Rightarrow> u64 \<Rightarrow> bool" where
  "reports_ok g0 k msk \<longleftrightarrow> (\<forall>i < 64. bit msk i \<longleftrightarrow> member g0 i \<and> k i = 6)"

definition runs_ok :: "nat \<Rightarrow> rapid_start \<Rightarrow> bool \<Rightarrow> (nat \<Rightarrow> nat) \<Rightarrow> (nat \<times> nat \<times> u64) list \<Rightarrow> bool" where
  "runs_ok f g0 own k new \<longleftrightarrow> (\<forall>i. runs_of i new =
     (if i = 0 then if own then [(f, 0, start_mask g0)] else []
      else if member g0 i \<and> k i \<ge> 5 then [(f, i, start_mask g0 OR 1)] else []))"

definition spreading :: "nat \<Rightarrow> rapid_start \<Rightarrow> nat \<Rightarrow> (nat \<Rightarrow> nat) \<Rightarrow> rapid_start \<Rightarrow> bool" where
  "spreading f g0 m k g \<longleftrightarrow>
     m \<le> 9 \<and> caller g = caller_at f (epoch g0) (start_mask g0) m
   \<and> slots g = slots g0 \<and> mode g = 2 \<and> start_mask g = start_mask g0
   \<and> epoch g = (if 4 \<le> m then epoch g0 + 1 else epoch g0)
   \<and> (2 \<le> m \<longrightarrow> run_mask g = (if 7 \<le> m then start_mask g0 OR 1 else 0))
   \<and> (3 \<le> m \<longrightarrow> func_ptr g = f)
   \<and> ranks_ok g0 m k \<and> pcs_ok g0 k (trappers g)
   \<and> (6 \<le> m \<longrightarrow> reports_ok g0 k (finish_mask g))
   \<and> (\<exists>new. runs g = runs g0 @ new \<and> runs_ok f g0 (8 \<le> m) k new)"

lemma bit_bit_of: "slot < 64 \<Longrightarrow> bit (bit_of slot) i \<longleftrightarrow> i = slot"
  unfolding bit_of_def by (simp only: bit_push_bit_iff bit_1_iff) auto

lemma and_bit_of:
  assumes "slot < 64"
  shows "r AND bit_of slot = bit_of slot \<longleftrightarrow> bit r slot" "r AND bit_of slot \<noteq> 0 \<longleftrightarrow> bit r slot"
proof -
  show "r AND bit_of slot \<noteq> 0 \<longleftrightarrow> bit r slot" by (simp add: bit_of_def bit_iff_and_push_bit_not_eq_0)
  show "r AND bit_of slot = bit_of slot \<longleftrightarrow> bit r slot"
  proof
    assume "r AND bit_of slot = bit_of slot"
    then have "bit (r AND bit_of slot) slot" using assms by (simp only: bit_bit_of)
    then show "bit r slot" by (simp add: bit_and_iff)
  next
    assume "bit r slot"
    then show "r AND bit_of slot = bit_of slot" using assms by (intro bit_word_eqI) (auto simp: bit_and_iff bit_bit_of)
  qed
qed

lemma or_one_nonzero: "(w :: u64) OR 1 \<noteq> 0"
proof
  assume "w OR 1 = 0"
  then have "bit (w OR 1) 0 = bit (0 :: u64) 0" by (rule arg_cong)
  then show False by (simp add: bit_or_iff bit_1_iff)
qed

lemma epoch_moves: "(e :: u64) + 1 \<noteq> e" "(e :: u64) \<noteq> e + 1"
  by simp_all

lemma settled_start:
  assumes "settled g"
  shows "spreading f g 0 (\<lambda>_. 0) (spread_work f g)"
  using assms
  by (auto simp: settled_def spreading_def spread_work_def caller_at_def trapper_at_def member_def runs_of_def
      ranks_ok_def pcs_ok_def runs_ok_def)

lemma ranks_next: "ranks_ok g0 m k \<Longrightarrow> m < 8 \<Longrightarrow> ranks_ok g0 (m + 1) k"
  by (auto simp: ranks_ok_def)

lemma ranks_all: "ranks_ok g0 8 k \<Longrightarrow> \<forall>i. member g0 i \<longrightarrow> k i = 6 \<Longrightarrow> ranks_ok g0 9 k"
  by (auto simp: ranks_ok_def)

lemma reports_none: "ranks_ok g0 5 k \<Longrightarrow> reports_ok g0 k 0"
  by (fastforce simp: ranks_ok_def reports_ok_def)

lemma reports_all:
  assumes "settled g0" "reports_ok g0 k (start_mask g0)"
  shows "\<forall>i. member g0 i \<longrightarrow> k i = 6"
proof (intro allI impI)
  fix i
  assume i: "member g0 i"
  then have i64: "i < 64" using assms(1) by (simp add: settled_def member_def)
  with i assms(1) have "bit (start_mask g0) i" by (simp add: settled_def member_def)
  with assms(2) i64 show "k i = 6" by (simp add: reports_ok_def)
qed

lemma runs_own: "runs_ok f g0 False k new \<Longrightarrow> runs_ok f g0 True k (new @ [(f, 0, start_mask g0)])"
  by (auto simp: runs_ok_def)

lemma below_ten: "m \<le> (9 :: nat) \<Longrightarrow> m = 0 \<or> m = 1 \<or> m = 2 \<or> m = 3 \<or> m = 4 \<or> m = 5 \<or> m = 6 \<or> m = 7 \<or> m = 8 \<or> m = 9"
  by auto

lemma caller_spreading:
  assumes start: "settled g0" and inv: "spreading f g0 m k g" and st: "caller_step g = Some g'"
  shows "m < 9 \<and> spreading f g0 (m + 1) k g'"
proof -
  have m: "m \<le> 9" and pc: "caller g = caller_at f (epoch g0) (start_mask g0) m" and ranks: "ranks_ok g0 m k"
    using inv by (simp_all add: spreading_def)
  obtain new where new: "runs g = runs g0 @ new" "runs_ok f g0 (8 \<le> m) k new"
    using inv by (auto simp: spreading_def)
  consider "m < 7" | "m = 7" | "m = 8" | "m = 9" using m by linarith
  then show ?thesis
  proof cases
    case 1
    then have "m = 0 \<or> m = 1 \<or> m = 2 \<or> m = 3 \<or> m = 4 \<or> m = 5 \<or> m = 6" by auto
    then show ?thesis
      using inv st pc new ranks_next [OF ranks] reports_none [of g0 k] ranks
      by (elim disjE) (simp_all add: spreading_def caller_step_def caller_at_def, auto)
  next
    case 2
    have "runs_ok f g0 True k (new @ [(f, 0, start_mask g0)])" using new(2) 2 by (intro runs_own) simp
    then have "\<exists>new'. runs g' = runs g0 @ new' \<and> runs_ok f g0 True k new'"
      using st pc new(1) 2 by (auto simp: caller_step_def caller_at_def)
    then show ?thesis
      using inv st pc ranks_next [OF ranks] 2 by (auto simp: spreading_def caller_step_def caller_at_def)
  next
    case 3
    then have fin: "finish_mask g = start_mask g0" and g': "g' = g\<lparr>caller := Idle\<rparr>"
      using st pc by (simp_all add: caller_step_def caller_at_def split: if_splits)
    have "reports_ok g0 k (start_mask g0)" using inv 3 by (simp add: spreading_def fin)
    from ranks_all [OF _ reports_all [OF start this]] ranks 3 have "ranks_ok g0 9 k" by simp
    then show ?thesis
      using inv 3 unfolding g' by (simp add: spreading_def caller_at_def)
  next
    case 4
    then show ?thesis using st pc by (simp add: caller_step_def caller_at_def)
  qed
qed

text \<open>A thread moves on by one.\<close>

lemma pcs_next:
  assumes "pcs_ok g0 k pcs" "pc = trapper_at (epoch g0) (start_mask g0 OR 1) (Suc (k slot))"
  shows "pcs_ok g0 (k(slot := Suc (k slot))) (pcs(slot := pc))"
  using assms by (simp add: pcs_ok_def)

lemma ranks_move:
  assumes "ranks_ok g0 m k" "member g0 slot" "k slot < 6" "4 \<le> m" "k slot < 2 \<or> 7 \<le> m" "m \<le> 9"
  shows "ranks_ok g0 m (k(slot := Suc (k slot)))"
  using assms by (auto simp: ranks_ok_def)

lemma reports_move:
  assumes "reports_ok g0 k msk" "k slot < 5"
  shows "reports_ok g0 (k(slot := Suc (k slot))) msk"
  using assms by (auto simp: reports_ok_def)

lemma reports_add:
  assumes "reports_ok g0 k msk" "k slot = 5" "member g0 slot" "slot < 64"
  shows "reports_ok g0 (k(slot := 6)) (msk OR bit_of slot)"
  using assms by (auto simp: reports_ok_def bit_or_iff bit_bit_of)

lemma runs_move:
  assumes "runs_ok f g0 own k new" "k slot \<noteq> 4"
  shows "runs_ok f g0 own (k(slot := Suc (k slot))) new"
  using assms by (auto simp: runs_ok_def)

lemma runs_add:
  assumes "runs_ok f g0 own k new" "k slot = 4" "member g0 slot"
  shows "runs_ok f g0 own (k(slot := 5)) (new @ [(f, slot, start_mask g0 OR 1)])"
  using assms by (auto simp: runs_ok_def member_def)

lemma trapper_spreading:
  assumes start: "settled g0" and inv: "spreading f g0 m k g" and slot: "1 \<le> slot" "slot < slots g"
    and st: "trapper_step slot g = Some g'"
  shows "k slot < 6 \<and> spreading f g0 m (k(slot := Suc (k slot))) g'"
proof -
  have mem: "member g0 slot" using slot inv by (simp add: member_def spreading_def)
  then have s64: "slot < 64" "bit (start_mask g0) slot" using start by (simp_all add: settled_def member_def)
  note parts = inv [unfolded spreading_def]
  have m: "m \<le> 9" and ranks: "ranks_ok g0 m k" and pcs: "pcs_ok g0 k (trappers g)"
    using parts by simp_all
  obtain new where new: "runs g = runs g0 @ new" "runs_ok f g0 (8 \<le> m) k new" using parts by blast
  have pc: "trappers g slot = trapper_at (epoch g0) (start_mask g0 OR 1) (k slot)"
    using pcs mem by (simp add: pcs_ok_def)
  have k6: "k slot \<le> 6" "0 < k slot \<Longrightarrow> 4 \<le> m" "2 < k slot \<Longrightarrow> 7 \<le> m" "m = 9 \<Longrightarrow> k slot = 6"
    using ranks mem by (auto simp: ranks_ok_def)
  have ep: "epoch g = (if 4 \<le> m then epoch g0 + 1 else epoch g0)"
    and rm: "2 \<le> m \<Longrightarrow> run_mask g = (if 7 \<le> m then start_mask g0 OR 1 else 0)"
    and fp: "3 \<le> m \<Longrightarrow> func_ptr g = f"
    using parts by simp_all
  have seen: "(start_mask g0 OR 1) AND bit_of slot = bit_of slot"
    using s64 by (simp add: and_bit_of bit_or_iff)
  have move: "spreading f g0 m (k(slot := Suc (k slot))) g'"
    if "g' = g\<lparr>trappers := (trappers g)(slot := pc)\<rparr>" "pc = trapper_at (epoch g0) (start_mask g0 OR 1) (Suc (k slot))"
      "k slot < 4" "4 \<le> m" "k slot < 2 \<or> 7 \<le> m" for pc
  proof -
    have "ranks_ok g0 m (k(slot := Suc (k slot)))" using ranks_move [OF ranks mem] that m by simp
    moreover have "6 \<le> m \<Longrightarrow> reports_ok g0 (k(slot := Suc (k slot))) (finish_mask g)"
      using parts reports_move [of g0 k _ slot] that(3) by simp
    moreover have "runs_ok f g0 (8 \<le> m) (k(slot := Suc (k slot))) new" using runs_move [OF new(2)] that(3) by simp
    ultimately show ?thesis
      using parts new(1) pcs_next [OF pcs that(2)] unfolding that(1) by (simp add: spreading_def)
  qed
  consider "k slot = 0" | "k slot = 1" | "k slot = 2" | "k slot = 3" | "k slot = 4" | "k slot = 5" | "k slot = 6"
    using k6(1) by linarith
  then show ?thesis
  proof cases
    case 1
    then have e: "epoch g \<noteq> epoch g0" and g': "g' = g\<lparr>trappers := (trappers g)(slot := Reload_epoch)\<rparr>"
      using st pc by (auto simp: trapper_step_def trapper_at_def go_def split: if_splits)
    from e have "4 \<le> m" using ep by (auto split: if_splits)
    then have "spreading f g0 m (k(slot := Suc (k slot))) g'"
      by (intro move [OF g']) (simp_all add: 1 trapper_at_def)
    with 1 show ?thesis by simp
  next
    case 2
    then have m4: "4 \<le> m" using k6(2) by simp
    then have e: "epoch g = epoch g0 + 1" using ep by simp
    have "trappers g slot = Reload_epoch" using pc 2 by (simp add: trapper_at_def)
    then have g': "g' = g\<lparr>trappers := (trappers g)(slot := Wait_run (epoch g0 + 1))\<rparr>"
      using st unfolding trapper_step_def e by (simp add: go_def)
    have "spreading f g0 m (k(slot := Suc (k slot))) g'"
      by (intro move [OF g']) (simp_all add: 2 m4 trapper_at_def)
    with 2 show ?thesis by simp
  next
    case 3
    then have "4 \<le> m" using k6(2) by simp
    have "run_mask g \<noteq> 0" and g': "g' = g\<lparr>trappers := (trappers g)(slot := Reload_run (epoch g0 + 1))\<rparr>"
      using st pc 3 by (auto simp: trapper_step_def trapper_at_def go_def split: if_splits)
    then have m7: "7 \<le> m" using rm \<open>4 \<le> m\<close> by (auto split: if_splits)
    have "spreading f g0 m (k(slot := Suc (k slot))) g'"
      by (intro move [OF g']) (use m7 in \<open>simp_all add: 3 trapper_at_def\<close>)
    with 3 show ?thesis by simp
  next
    case 4
    then have m7: "7 \<le> m" using k6(3) by simp
    have "trappers g slot = Reload_run (epoch g0 + 1)" using pc 4 by (simp add: trapper_at_def)
    moreover have "run_mask g = start_mask g0 OR 1" using m7 rm by simp
    ultimately have g': "g' = g\<lparr>trappers := (trappers g)(slot := Run_part (epoch g0 + 1) (start_mask g0 OR 1))\<rparr>"
      using st seen by (simp add: trapper_step_def go_def Let_def)
    have "spreading f g0 m (k(slot := Suc (k slot))) g'"
      by (intro move [OF g']) (use m7 in \<open>simp_all add: 4 trapper_at_def\<close>)
    with 4 show ?thesis by simp
  next
    case 5
    then have m7: "7 \<le> m" using k6(3) by simp
    then have g': "g' = g\<lparr>runs := runs g @ [(f, slot, start_mask g0 OR 1)],
        trappers := (trappers g)(slot := Report (epoch g0 + 1))\<rparr>"
      using st pc 5 fp by (simp add: trapper_step_def trapper_at_def go_def)
    have "m \<noteq> 9" using k6(4) 5 by auto
    then have "ranks_ok g0 m (k(slot := 5))" using ranks_move [OF ranks mem] 5 m7 m by simp
    moreover have "pcs_ok g0 (k(slot := 5)) (trappers g')"
      using pcs_next [OF pcs, of "Report (epoch g0 + 1)" slot] 5 by (simp add: g' trapper_at_def)
    moreover have "reports_ok g0 (k(slot := 5)) (finish_mask g)" 
      using parts reports_move [of g0 k "finish_mask g" slot] 5 m7 by simp
    moreover have "runs_ok f g0 (8 \<le> m) (k(slot := 5)) (new @ [(f, slot, start_mask g0 OR 1)])"
      using runs_add [OF new(2) 5 mem] .
    then have "\<exists>new'. runs g' = runs g0 @ new' \<and> runs_ok f g0 (8 \<le> m) (k(slot := 5)) new'"
      using new(1) by (auto simp: g')
    ultimately show ?thesis using parts 5 unfolding spreading_def by (simp add: g')
  next
    case 6
    then have m7: "7 \<le> m" using k6(3) by simp
    have g': "g' = g\<lparr>finish_mask := finish_mask g OR bit_of slot,
        trappers := (trappers g)(slot := Wait_epoch (epoch g0 + 1))\<rparr>"
      using st pc 6 by (simp add: trapper_step_def trapper_at_def go_def)
    have "m \<noteq> 9" using k6(4) 6 by auto
    then have "ranks_ok g0 m (k(slot := 6))" using ranks_move [OF ranks mem] 6 m7 m by simp
    moreover have "pcs_ok g0 (k(slot := 6)) (trappers g')"
      using pcs_next [OF pcs, of "Wait_epoch (epoch g0 + 1)" slot] 6 by (simp add: g' trapper_at_def)
    moreover have "reports_ok g0 (k(slot := 6)) (finish_mask g')"
      using parts reports_add [where k = k and slot = slot, OF _ 6 mem s64(1)] m7 by (simp add: g')
    moreover have "runs_ok f g0 (8 \<le> m) (k(slot := 6)) new" using runs_move [OF new(2), of slot] 6 by simp
    then have "\<exists>new'. runs g' = runs g0 @ new' \<and> runs_ok f g0 (8 \<le> m) (k(slot := 6)) new'"
      using new(1) by (auto simp: g')
    ultimately show ?thesis using parts 6 unfolding spreading_def by (simp add: g')
  next
    case 7
    then have "4 \<le> m" using k6(2) by simp
    then show ?thesis using st pc 7 ep by (simp add: trapper_step_def trapper_at_def)
  qed
qed

text \<open>The number of steps still to do.\<close>

definition steps_left :: "rapid_start \<Rightarrow> nat \<Rightarrow> (nat \<Rightarrow> nat) \<Rightarrow> nat" where
  "steps_left g0 m k = (9 - m) + (\<Sum>i = 1..<slots g0. 6 - k i)"

lemma ranks_left:
  fixes k :: "nat \<Rightarrow> nat"
  assumes "1 \<le> slot" "slot < n" "k slot < c"
  shows "Suc (\<Sum>i = 1..<n. c - (k(slot := Suc (k slot))) i) = (\<Sum>i = 1..<n. c - k i)"
proof -
  define rest where "rest = (\<Sum>i \<in> {1..<n} - {slot}. c - k i)"
  have "(\<Sum>i = 1..<n. c - h i) = (c - h slot) + (\<Sum>i \<in> {1..<n} - {slot}. c - h i)" for h :: "nat \<Rightarrow> nat"
    using assms(1,2) by (simp add: sum.remove)
  moreover have "(\<Sum>i \<in> {1..<n} - {slot}. c - (k(slot := Suc (k slot))) i) = rest"
    unfolding rest_def by (rule sum.cong) auto
  ultimately have "(\<Sum>i = 1..<n. c - k i) = (c - k slot) + rest"
    "(\<Sum>i = 1..<n. c - (k(slot := Suc (k slot))) i) = (c - Suc (k slot)) + rest"
    by (simp_all only: rest_def fun_upd_same)
  then show ?thesis using assms(3) by arith
qed

lemma step_spreading:
  assumes "settled g0" "spreading f g0 m k g" "step g g'"
  shows "\<exists>m' k'. spreading f g0 m' k' g' \<and> Suc (steps_left g0 m' k') = steps_left g0 m k"
  using assms(3)
proof (cases rule: step.cases)
  case caller
  from caller_spreading [OF assms(1,2) caller] show ?thesis
    by (intro exI [of _ "m + 1"] exI [of _ k]) (auto simp: steps_left_def)
next
  case (trapper slot)
  note t = trapper_spreading [OF assms(1,2) trapper(2,3,1)]
  have mem: "slot \<in> {1..<slots g0}" using trapper(2,3) assms(2) by (simp add: spreading_def)
  have "Suc (\<Sum>i = 1..<slots g0. 6 - (k(slot := Suc (k slot))) i) = (\<Sum>i = 1..<slots g0. 6 - k i)"
    by (rule ranks_left) (use mem t in simp_all)
  then have "Suc (steps_left g0 m (k(slot := Suc (k slot)))) = steps_left g0 m k" by (simp add: steps_left_def)
  with t show ?thesis by blast
qed

lemma steps_spreading:
  assumes "settled g0" "(step ^^ t) (spread_work f g0) g"
  shows "\<exists>m k. spreading f g0 m k g \<and> t + steps_left g0 m k = 9 + 6 * (slots g0 - 1)"
  using assms(2)
proof (induction t arbitrary: g)
  case 0
  then have "g = spread_work f g0" by simp
  with settled_start [OF assms(1), of f] show ?case
    by (intro exI [of _ 0] exI [of _ "\<lambda>_. 0"]) (simp add: steps_left_def)
next
  case (Suc t)
  then obtain h where h: "(step ^^ t) (spread_work f g0) h" "step h g" by auto
  from Suc.IH [OF h(1)] obtain m k where mk: "spreading f g0 m k h" "t + steps_left g0 m k = 9 + 6 * (slots g0 - 1)"
    by blast
  from step_spreading [OF assms(1) mk(1) h(2)] mk(2) show ?case by (metis add_Suc_shift)
qed

text \<open>While the caller has not returned, some step is possible.\<close>

lemma caller_free:
  assumes "caller_step g = None" "caller g = caller_at f e s m" "m < 9"
  shows "m = 8 \<and> finish_mask g \<noteq> s"
proof -
  have "m \<le> 9" using assms(3) by simp
  from below_ten [OF this] show ?thesis
    using assms by (elim disjE) (simp_all add: caller_step_def caller_at_def split: if_splits)
qed

lemma trapper_free:
  assumes "trappers g slot = trapper_at (epoch g0) r k" "k < 6" "epoch g = epoch g0 + 1" "run_mask g \<noteq> 0"
  shows "\<exists>g'. trapper_step slot g = Some g'"
proof -
  have "k = 0 \<or> k = 1 \<or> k = 2 \<or> k = 3 \<or> k = 4 \<or> k = 5" using assms(2) by auto
  then show ?thesis using assms
    by (elim disjE) (simp_all add: trapper_step_def trapper_at_def go_def Let_def)
qed

lemma spreading_progress:
  assumes "settled g0" "spreading f g0 m k g" "m < 9"
  shows "\<exists>g'. step g g'"
proof (cases "caller_step g")
  case (Some g')
  then show ?thesis by (blast intro: step.caller)
next
  case None
  have pc: "caller g = caller_at f (epoch g0) (start_mask g0) m" using assms(2) by (simp add: spreading_def)
  from caller_free [OF None pc assms(3)] have m: "m = 8" and fin: "finish_mask g \<noteq> start_mask g0" by simp_all
  note parts = assms(2) [unfolded spreading_def m]
  have "\<exists>i. member g0 i \<and> k i \<noteq> 6"
  proof (rule ccontr)
    assume "\<nexists>i. member g0 i \<and> k i \<noteq> 6"
    then have "finish_mask g = start_mask g0"
      using parts assms(1) by (intro bit_word_eqI) (auto simp: reports_ok_def settled_def member_def)
    with fin show False by simp
  qed
  then obtain i where i: "member g0 i" "k i \<noteq> 6" by blast
  then have "k i < 6" using parts by (auto simp: ranks_ok_def le_less)
  moreover have "trappers g i = trapper_at (epoch g0) (start_mask g0 OR 1) (k i)" using parts i(1) by (simp add: pcs_ok_def)
  ultimately obtain g' where "trapper_step i g = Some g'"
    using trapper_free [of g i g0] parts by (auto simp: or_one_nonzero)
  moreover have "1 \<le> i" "i < slots g" using i(1) parts by (simp_all add: member_def)
  ultimately show ?thesis using step.trapper by blast
qed

text \<open>When the caller has returned, the threads are settled again and every slot has run its part.\<close>

lemma spreading_returned:
  assumes "settled g0" "spreading f g0 9 k g"
  shows "settled g"
proof -
  have "trappers g i = Wait_epoch (epoch g)" if "member g0 i" for i
    using assms(2) that by (simp add: spreading_def pcs_ok_def ranks_ok_def trapper_at_def)
  then show ?thesis using assms by (simp add: settled_def spreading_def caller_at_def member_def)
qed

lemma iterations_or_one: "iterations my_start my_end slot (msk OR 1) = iterations my_start my_end slot msk"
proof -
  have "slots_below (msk OR 1) n = slots_below msk n" for n
    unfolding slots_below_def by (rule filter_cong) (auto simp: bit_or_iff bit_1_iff)
  then show ?thesis by (simp add: iterations_def run_def run_part_slot)
qed

lemma mset_runs:
  assumes "\<And>i. i \<notin> set is \<Longrightarrow> runs_of i xs = []" "distinct is"
  shows "mset xs = (\<Sum>i \<leftarrow> is. mset (runs_of i xs))"
  using assms
proof (induction "is" arbitrary: xs)
  case Nil
  have "xs = []"
  proof (cases xs)
    case (Cons y ys)
    obtain g s r where "y = (g, s, r)" by (cases y)
    then show ?thesis using Nil(1) [of s] Cons by (simp add: runs_of_def)
  qed
  then show ?case by simp
next
  case (Cons i "is")
  let ?rest = "filter (\<lambda>(g, s, r). s \<noteq> i) xs"
  have rest: "runs_of j ?rest = (if j = i then [] else runs_of j xs)" for j
    by (auto simp: runs_of_def filter_empty_conv intro!: filter_cong)
  have "mset xs = mset (runs_of i xs) + mset ?rest"
    using multiset_partition [of "mset xs" "\<lambda>(g, s, r). s = i"]
    by (simp add: runs_of_def case_prod_unfold)
  moreover have "mset ?rest = (\<Sum>j \<leftarrow> is. mset (runs_of j ?rest))"
    using Cons.prems by (intro Cons.IH) (auto simp: rest)
  moreover have "map (\<lambda>j. mset (runs_of j ?rest)) is = map (\<lambda>j. mset (runs_of j xs)) is"
    using Cons.prems(2) by (auto simp: rest)
  ultimately show ?case by simp
qed

lemma singles: "(\<Sum>i \<leftarrow> is. {#h i#}) = mset (map h is)"
  by (induction "is") simp_all

lemma member_slots:
  assumes "settled g0"
  shows "member g0 i \<longleftrightarrow> i \<in> set (slots_below (start_mask g0) 64)"
  using assms by (auto simp: settled_def member_def set_slots_below)

lemma runs_all:
  assumes "settled g0" "runs_ok f g0 True k new" "\<forall>i. member g0 i \<longrightarrow> k i = 6"
  shows "mset new = mset ((f, 0, start_mask g0) # map (\<lambda>i. (f, i, start_mask g0 OR 1)) (slots_below (start_mask g0) 64))"
proof -
  let ?is = "slots_below (start_mask g0) 64"
  have runs: "runs_of i new = (if i = 0 then [(f, 0, start_mask g0)]
      else if i \<in> set ?is then [(f, i, start_mask g0 OR 1)] else [])" for i
    using assms(2,3) by (auto simp: runs_ok_def member_slots [OF assms(1), symmetric])
  have "mset new = (\<Sum>i \<leftarrow> 0 # ?is. mset (runs_of i new))"
    by (rule mset_runs) (simp_all add: runs slots_below_def)
  also have "map (\<lambda>i. mset (runs_of i new)) ?is = map (\<lambda>i. {#(f, i, start_mask g0 OR 1)#}) ?is"
    by (rule map_cong) (auto simp: runs set_slots_below)
  then have "(\<Sum>i \<leftarrow> ?is. mset (runs_of i new)) = mset (map (\<lambda>i. (f, i, start_mask g0 OR 1)) ?is)"
    by (simp only: singles)
  then have "(\<Sum>i \<leftarrow> 0 # ?is. mset (runs_of i new))
      = mset ((f, 0, start_mask g0) # map (\<lambda>i. (f, i, start_mask g0 OR 1)) ?is)"
    using runs [of 0] by simp
  finally show ?thesis .
qed

lemma spread_work_ok:
  assumes g0: "settled g0" and range: "int_range my_start my_end" and steps: "(step ^^ t) (spread_work f g0) g"
  shows "t \<le> 9 + 6 * (slots g0 - 1)" (is ?bounded)
    and "caller g \<noteq> Idle \<Longrightarrow> \<exists>g'. step g g'"
    and "caller g = Idle \<Longrightarrow> settled g \<and> (\<exists>new. runs g = runs g0 @ new \<and> (\<forall>(job, slot, msk) \<in> set new. job = f) \<and>
      mset (concat (map (\<lambda>(job, slot, msk). iterations my_start my_end slot msk) new)) = mset [my_start..my_end - 1])"
proof -
  obtain m k where inv: "spreading f g0 m k g" and left: "t + steps_left g0 m k = 9 + 6 * (slots g0 - 1)"
    using steps_spreading [OF g0 steps] by blast
  then show ?bounded by linarith
  have m: "m \<le> 9" "caller g = caller_at f (epoch g0) (start_mask g0) m" using inv by (simp_all add: spreading_def)
  have nine: "caller g = Idle \<longleftrightarrow> m = 9"
    using below_ten [OF m(1)] m(2) by (elim disjE) (simp_all add: caller_at_def)
  show "\<exists>g'. step g g'" if "caller g \<noteq> Idle"
    using spreading_progress [OF g0 inv] that nine m(1) by (simp add: less_le)
  assume "caller g = Idle"
  with nine inv have inv9: "spreading f g0 9 k g" by simp
  then have all: "\<forall>i. member g0 i \<longrightarrow> k i = 6" by (simp add: spreading_def ranks_ok_def)
  obtain new where new: "runs g = runs g0 @ new" "runs_ok f g0 True k new"
    using inv9 by (auto simp: spreading_def)
  let ?is = "slots_below (start_mask g0) 64"
  let ?runs = "(f, 0, start_mask g0) # map (\<lambda>i. (f, i, start_mask g0 OR 1)) ?is"
  let ?it = "\<lambda>(job :: nat, slot, msk). iterations my_start my_end slot msk"
  have ms: "mset new = mset ?runs" by (rule runs_all [OF g0 new(2) all])
  have sums: "mset (concat (map h xs)) = \<Sum>\<^sub># (image_mset (\<lambda>x. mset (h x)) (mset xs))"
    for h :: "nat \<times> nat \<times> u64 \<Rightarrow> int list" and xs by (induction xs) simp_all
  have "mset (concat (map ?it new)) = mset (concat (map ?it ?runs))" unfolding sums ms ..
  also have "concat (map ?it ?runs) = concat (map (\<lambda>slot. iterations my_start my_end slot (start_mask g0)) (0 # ?is))"
    by (simp add: iterations_or_one comp_def)
  also have "\<dots> = [my_start..my_end - 1]" by (rule run_partitions_ok [OF range])
  finally have "mset (concat (map ?it new)) = mset [my_start..my_end - 1]" .
  moreover have "set new = set ?runs" using ms by (metis set_mset_mset)
  then have "\<forall>(job, slot, msk) \<in> set new. job = f" by auto
  ultimately show "settled g \<and> (\<exists>new. runs g = runs g0 @ new \<and> (\<forall>(job, slot, msk) \<in> set new. job = f) \<and>
      mset (concat (map ?it new)) = mset [my_start..my_end - 1])"
    using spreading_returned [OF g0 inv9] new(1) by blast
qed

section \<open>Settling\<close>

text \<open>Following a schedule: \<open>0\<close> is a step of the caller, any other number one of that slot.\<close>

fun follow :: "nat list \<Rightarrow> rapid_start \<Rightarrow> rapid_start option" where
  "follow [] g = Some g"
| "follow (i # is) g =
     (if i < slots g then Option.bind (if i = 0 then caller_step g else trapper_step i g) (follow is) else None)"

lemma follow_steps: "follow is g = Some g' \<Longrightarrow> step\<^sup>*\<^sup>* g g'"
proof (induction "is" arbitrary: g)
  case (Cons i "is")
  then obtain h where h: "(if i = 0 then caller_step g else trapper_step i g) = Some h" "follow is h = Some g'" "i < slots g"
    by (auto split: if_splits bind_splits)
  then have "step g h" by (cases i) (auto intro: step.intros)
  then show ?case using Cons.IH [OF h(2)] by (rule converse_rtranclp_into_rtranclp)
qed simp

lemma follow_run:
  "Option.bind (follow is g) (\<lambda>g'. Some (h g')) = Some y \<Longrightarrow> \<exists>g'. step\<^sup>*\<^sup>* g g' \<and> h g' = y"
  using follow_steps by (auto split: bind_splits)

text \<open>After \<open>init\<close>, with the first \<open>j\<close> threads settled.\<close>

definition joined :: "nat \<Rightarrow> nat \<Rightarrow> rapid_start" where
  "joined n j = (init (int n) RapidStart)\<lparr>start_mask := push_bit 1 (mask j),
     trappers := (\<lambda>i. if 1 \<le> i \<and> i \<le> j then Wait_epoch 0 else if 1 \<le> i \<and> i < n then Check_mode else Ended)\<rparr>"

lemma init_fields:
  assumes "n \<le> 64"
  shows "init (int n) RapidStart = RapidStart\<lparr>n_tasks := of_nat n, slots := n,
    trappers := (\<lambda>i. if 1 \<le> i \<and> i < n then Check_mode else Ended)\<rparr>"
proof -
  have "unat (of_nat n :: u64) = n" using assms by (simp add: unat_of_nat)
  then have "\<not> of_int (int n) > MAX_THREADS" using assms by (simp add: MAX_THREADS_def word_less_nat_alt)
  then show ?thesis by (auto simp: init_def RapidStart_def Let_def)
qed

lemma joined_fields:
  assumes "n \<le> 64"
  shows "joined n j = \<lparr>start_mask = push_bit 1 (mask j), finish_mask = 0, run_mask = 0, func_ptr = 0, epoch = 0,
    mode = 2, n_tasks = of_nat n, slots = n,
    trappers = (\<lambda>i. if 1 \<le> i \<and> i \<le> j then Wait_epoch 0 else if 1 \<le> i \<and> i < n then Check_mode else Ended),
    caller = Idle, runs = []\<rparr>"
  unfolding joined_def init_fields [OF assms] by (simp add: RapidStart_def)

lemma init_joined: "n \<le> 64 \<Longrightarrow> init (int n) RapidStart = joined n 0"
  unfolding joined_fields init_fields by (auto simp: RapidStart_def)

lemma push_mask: "push_bit 1 (mask j) + bit_of (Suc j) = push_bit 1 (mask (Suc j) :: u64)"
  by (simp add: bit_of_def push_bit_eq_mult mask_eq_exp_minus_1 algebra_simps)

lemma joined_step:
  assumes "Suc j < n" "n \<le> 64"
  shows "step\<^sup>*\<^sup>* (joined n j) (joined n (Suc j))"
proof (rule follow_steps)
  show "follow (replicate 4 (Suc j)) (joined n j) = Some (joined n (Suc j))"
    using assms
    by (auto simp: numeral_eq_Suc joined_fields trapper_step_def go_def Let_def push_mask [simplified])
qed

lemma joined_settled:
  assumes "1 \<le> n" "n \<le> 64"
  shows "settled (joined n (n - 1))"
proof -
  have "bit (push_bit 1 (mask j) :: u64) i \<longleftrightarrow> 1 \<le> i \<and> i - 1 < j" if "i < 64" for i j
    using that by (simp only: bit_push_bit_iff bit_mask_iff) auto
  then have "bit (start_mask (joined n (n - 1))) i \<longleftrightarrow> 1 \<le> i \<and> i < n" if "i < 64" for i
    using that assms by (simp only: joined_fields rapid_start.simps) auto
  then show ?thesis using assms by (auto simp: settled_def) (auto simp: joined_fields)
qed

lemma settled_reachable:
  assumes "1 \<le> n" "n \<le> 64"
  shows "\<exists>g. step\<^sup>*\<^sup>* (init (int n) RapidStart) g \<and> settled g \<and> slots g = n \<and> runs g = []"
proof -
  have "j < n \<Longrightarrow> step\<^sup>*\<^sup>* (joined n 0) (joined n j)" for j
  proof (induction j)
    case (Suc j)
    then show ?case using joined_step [of j n] assms(2) by (meson Suc_lessD rtranclp_trans)
  qed simp
  from this [of "n - 1"] have "step\<^sup>*\<^sup>* (init (int n) RapidStart) (joined n (n - 1))"
    using assms by (simp add: init_joined)
  moreover have "slots (joined n (n - 1)) = n" "runs (joined n (n - 1)) = []"
    using assms by (simp_all add: joined_fields)
  ultimately show ?thesis using joined_settled [OF assms] by blast
qed

section \<open>The destructor\<close>

text \<open>The destructor: where the threads are when its caller is at \<open>m\<close>.\<close>

definition leaving_at :: "u64 \<Rightarrow> nat \<Rightarrow> trapper_pc" where
  "leaving_at e k = [Wait_epoch e, Reload_epoch, Wait_run (e + 1), Reload_run (e + 1), Test_mode (e + 1), Leave (e + 1),
     Late_check (e + 1), Respawn, Ended] ! k"

definition stopping :: "rapid_start \<Rightarrow> nat \<Rightarrow> (nat \<Rightarrow> nat) \<Rightarrow> rapid_start \<Rightarrow> bool" where
  "stopping g0 m k g \<longleftrightarrow>
     m \<le> 4 \<and> caller g = [Stop_mode, Stop_run, Stop_epoch, Stop_wait, Destroyed] ! m
   \<and> slots g = slots g0 \<and> runs g = runs g0
   \<and> (1 \<le> m \<longrightarrow> mode g = 0) \<and> (2 \<le> m \<longrightarrow> run_mask g = 1) \<and> epoch g = (if 3 \<le> m then epoch g0 + 1 else epoch g0)
   \<and> (\<forall>i. member g0 i \<longrightarrow> k i \<le> 8 \<and> trappers g i = leaving_at (epoch g0) (k i)
        \<and> (m \<le> 2 \<longrightarrow> k i = 0) \<and> (m = 4 \<longrightarrow> k i = 8))"

lemma caller_stopping:
  assumes "stopping g0 m k g" "caller_step g = Some g'"
  shows "m < 4 \<and> stopping g0 (m + 1) k g'"
proof -
  have k8: "k i = 8" if "member g0 i" "leaving_at (epoch g0) (k i) = Ended" "k i \<le> 8" for i
  proof -
    have "k i = 0 \<or> k i = 1 \<or> k i = 2 \<or> k i = 3 \<or> k i = 4 \<or> k i = 5 \<or> k i = 6 \<or> k i = 7 \<or> k i = 8" using that(3) by auto
    then show ?thesis using that(2) by (elim disjE) (simp_all add: leaving_at_def)
  qed
  have "m = 0 \<or> m = 1 \<or> m = 2 \<or> m = 3 \<or> m = 4" using assms(1) by (auto simp: stopping_def)
  then show ?thesis
    using assms by (elim disjE)
      (auto simp: stopping_def caller_step_def stop_step_def list_all_iff member_def intro!: k8 split: if_splits)
qed

lemma trapper_stopping:
  assumes "stopping g0 m k g" "1 \<le> slot" "slot < slots g" "slots g0 \<le> 64" "trapper_step slot g = Some g'"
  shows "k slot < 8 \<and> stopping g0 m (k(slot := Suc (k slot))) g'"
proof -
  have mem: "member g0 slot" using assms by (simp add: stopping_def member_def)
  have facts: "k slot \<le> 8" "trappers g slot = leaving_at (epoch g0) (k slot)" "m \<le> 2 \<Longrightarrow> k slot = 0"
    "m = 4 \<Longrightarrow> k slot = 8" "epoch g = (if 3 \<le> m then epoch g0 + 1 else epoch g0)"
    using assms(1) mem by (simp_all add: stopping_def)
  have m3: "k slot \<noteq> 0 \<Longrightarrow> 3 \<le> m" using facts(3) by linarith
  have now: "mode g = 0" "run_mask g = 1" "epoch g = epoch g0 + 1" if "3 \<le> m"
    using assms(1) that by (simp_all add: stopping_def)
  have unseen: "1 AND bit_of slot \<noteq> bit_of slot"
  proof -
    have "slot < 64" using assms by (simp add: stopping_def)
    then show ?thesis using assms(2) by (simp add: and_bit_of bit_1_iff)
  qed
  have move: ?thesis
    if "3 \<le> m" "k slot < 8" "trappers g' = (trappers g)(slot := leaving_at (epoch g0) (Suc (k slot)))"
      "caller g' = caller g" "slots g' = slots g" "runs g' = runs g" "mode g' = mode g" "run_mask g' = run_mask g"
      "epoch g' = epoch g"
    using assms(1) that facts(4) by (auto simp: stopping_def)
  have "k slot = 0 \<or> k slot = 1 \<or> k slot = 2 \<or> k slot = 3 \<or> k slot = 4 \<or> k slot = 5 \<or> k slot = 6 \<or> k slot = 7 \<or> k slot = 8"
    using facts(1) by auto
  moreover have ?thesis if k: "k slot = 0"
  proof -
    have "trappers g slot = Wait_epoch (epoch g0)" using facts(2) k by (simp add: leaving_at_def)
    moreover from this have "3 \<le> m" using assms(5) facts(5) by (auto simp: trapper_step_def split: if_splits)
    ultimately show ?thesis using assms(5) now k
      by (intro move) (auto simp: trapper_step_def go_def leaving_at_def)
  qed
  moreover have ?thesis if k: "k slot = 8"
    using facts(2) assms(5) k by (simp add: leaving_at_def trapper_step_def)
  moreover have ?thesis if k: "k slot \<in> {1, 2, 3, 4, 5, 6, 7}"
  proof -
    have m: "3 \<le> m" using m3 k by auto
    have "trappers g slot = leaving_at (epoch g0) (k slot)" by (rule facts(2))
    then show ?thesis using k assms(5) now [OF m] unseen m
      by (intro move) (auto simp: trapper_step_def go_def leaving_at_def Let_def)
  qed
  ultimately show ?thesis by blast
qed

lemma step_stopping:
  assumes "slots g0 \<le> 64" "stopping g0 m k g" "step g g'"
  shows "\<exists>m' k'. stopping g0 m' k' g' \<and>
    Suc ((4 - m') + (\<Sum>i = 1..<slots g0. 8 - k' i)) = (4 - m) + (\<Sum>i = 1..<slots g0. 8 - k i)"
  using assms(3)
proof (cases rule: step.cases)
  case caller
  from caller_stopping [OF assms(2) caller] show ?thesis
    by (intro exI [of _ "m + 1"] exI [of _ k]) auto
next
  case (trapper slot)
  note t = trapper_stopping [OF assms(2) trapper(2,3) assms(1) trapper(1)]
  have "Suc (\<Sum>i = 1..<slots g0. 8 - (k(slot := Suc (k slot))) i) = (\<Sum>i = 1..<slots g0. 8 - k i)"
    by (rule ranks_left) (use trapper(2,3) assms(2) t in \<open>simp_all add: stopping_def\<close>)
  then show ?thesis using t by (intro exI [of _ m] exI [of _ "k(slot := Suc (k slot))"]) simp
qed

lemma steps_stopping:
  assumes "settled g0" "(step ^^ t) (destroy g0) g"
  shows "\<exists>m k. stopping g0 m k g \<and> t + ((4 - m) + (\<Sum>i = 1..<slots g0. 8 - k i)) = 4 + 8 * (slots g0 - 1)"
  using assms(2)
proof (induction t arbitrary: g)
  case 0
  then have g: "g = destroy g0" by simp
  show ?case
    unfolding g using assms(1) by (intro exI [of _ 0] exI [of _ "\<lambda>_. 0"])
      (simp add: stopping_def destroy_def settled_def member_def leaving_at_def)
next
  case (Suc t)
  then obtain h where h: "(step ^^ t) (destroy g0) h" "step h g" by auto
  have "slots g0 \<le> 64" using assms(1) by (simp add: settled_def)
  from Suc.IH [OF h(1)] step_stopping [OF this _ h(2)] show ?case by (metis add_Suc_shift)
qed

lemma stopping_progress:
  assumes "stopping g0 m k g" "m < 4"
  shows "\<exists>g'. step g g'"
proof (cases "caller_step g")
  case (Some g')
  then show ?thesis by (blast intro: step.caller)
next
  case None
  have "m = 0 \<or> m = 1 \<or> m = 2 \<or> m = 3" using assms(2) by auto
  then obtain i where i: "m = 3" "1 \<le> i" "i < slots g" "trappers g i \<noteq> Ended"
    using None assms(1) by (elim disjE) (auto simp: stopping_def caller_step_def stop_step_def list_all_iff split: if_splits)
  then have "trappers g i = leaving_at (epoch g0) (k i)" "k i \<le> 8" "epoch g = epoch g0 + 1" "run_mask g = 1"
    using assms(1) by (simp_all add: stopping_def member_def)
  moreover from this(2) have "k i = 0 \<or> k i = 1 \<or> k i = 2 \<or> k i = 3 \<or> k i = 4 \<or> k i = 5 \<or> k i = 6 \<or> k i = 7 \<or> k i = 8"
    by auto
  ultimately have "\<exists>g'. trapper_step i g = Some g'"
    using i(4) by (elim disjE) (simp_all add: trapper_step_def leaving_at_def go_def Let_def)
  then show ?thesis using i(2,3) step.trapper by blast
qed

text \<open>
  Destroying a \<open>RapidStart\<close> whose threads are settled runs no part of a job and ends whatever the order of the
  steps; then every thread has ended.
\<close>

lemma destructor_ends:
  assumes "settled g0" "(step ^^ t) (destroy g0) g"
  shows "t \<le> 4 + 8 * (slots g0 - 1)" "runs g = runs g0" "caller g \<noteq> Destroyed \<Longrightarrow> \<exists>g'. step g g'"
    "caller g = Destroyed \<Longrightarrow> \<forall>i. 1 \<le> i \<and> i < slots g \<longrightarrow> trappers g i = Ended"
proof -
  obtain m k where inv: "stopping g0 m k g"
    and left: "t + ((4 - m) + (\<Sum>i = 1..<slots g0. 8 - k i)) = 4 + 8 * (slots g0 - 1)"
    using steps_stopping [OF assms] by blast
  show "t \<le> 4 + 8 * (slots g0 - 1)" using left by linarith
  show "runs g = runs g0" using inv by (simp add: stopping_def)
  have m: "m = 0 \<or> m = 1 \<or> m = 2 \<or> m = 3 \<or> m = 4" using inv by (auto simp: stopping_def)
  have "caller g = [Stop_mode, Stop_run, Stop_epoch, Stop_wait, Destroyed] ! m" using inv by (simp add: stopping_def)
  with m have four: "caller g = Destroyed \<longleftrightarrow> m = 4" by (elim disjE) simp_all
  show "\<exists>g'. step g g'" if "caller g \<noteq> Destroyed"
    using stopping_progress [OF inv] that four m by auto
  show "\<forall>i. 1 \<le> i \<and> i < slots g \<longrightarrow> trappers g i = Ended" if "caller g = Destroyed"
    using inv that four by (simp add: stopping_def member_def leaving_at_def)
qed

section \<open>Properties\<close>

text \<open>
  C25: When all trapped threads are settled, \<open>parallel_ranges\<close> over an \<open>int\<close> range ends whatever the order of
  the steps of the caller and the threads: no run has more than \<open>9 + 6 (n - 1)\<close> steps, and some step is possible
  until the caller returns.  Then the parts that have run cover each iteration of the range exactly
  once, all for this job, and the threads are settled again for the next one.
\<close>

theorem spread_work_once:
  assumes "settled g0" "int_range my_start my_end" "(step ^^ t) (spread_work f g0) g"
  shows "t \<le> 9 + 6 * (slots g0 - 1) \<and>
    (if caller g = Idle then settled g \<and>
       (\<exists>new. runs g = runs g0 @ new \<and> (\<forall>(job, slot, msk) \<in> set new. job = f) \<and>
         mset (concat (map (\<lambda>(job, slot, msk). iterations my_start my_end slot msk) new)) = mset [my_start..my_end - 1])
     else \<exists>g'. step g g')"
  using spread_work_ok [OF assms] by simp

theorem spread_work_once_witness:
  "\<exists>g0 g. step\<^sup>*\<^sup>* (init 3 RapidStart) g0 \<and> (step ^^ 0) (spread_work 7 g0) g \<and> (\<exists>g'. step g g')"
proof -
  obtain g0 where g0: "step\<^sup>*\<^sup>* (init 3 RapidStart) g0" "settled g0"
    using settled_reachable [of 3] by auto
  have "(step ^^ 0) (spread_work 7 g0) (spread_work 7 g0)" by simp
  moreover have "int_range 0 10" by (simp add: int_range_def)
  moreover have "caller (spread_work 7 g0) \<noteq> Idle" by (simp add: spread_work_def)
  ultimately have "\<exists>g'. step (spread_work 7 g0) g'"
    using spread_work_once [OF g0(2), of 0 10 0 7 "spread_work 7 g0"] by simp
  with g0(1) show ?thesis by (intro exI [of _ g0] exI [of _ "spread_work 7 g0"]) simp
qed


text \<open>
  C26: A thread that joins while a job is being spread breaks this, with \<open>init(2)\<close> and the first job: there
  is a run in which the thread executes its part of the job twice and the caller returns, and one in
  which the thread waits for the next epoch and the caller for the thread, for ever.
\<close>

theorem joining_thread_races:
  "(\<exists>g. step\<^sup>*\<^sup>* (spread_work f (init 2 RapidStart)) g \<and> caller g = Idle \<and> runs g = [(f, 1, 3), (f, 0, 2), (f, 1, 3)])
   \<and> (\<exists>g. step\<^sup>*\<^sup>* (spread_work f (init 2 RapidStart)) g \<and> caller g \<noteq> Idle \<and> \<not> (\<exists>g'. step g g'))"
proof
  have "Option.bind (follow ([1, 1, 1] @ replicate 7 0 @ [1, 1, 1, 0, 1, 1, 1, 1, 0, 1]) (spread_work f (init 2 RapidStart)))
      (\<lambda>g. Some (caller g, runs g)) = Some (Idle, [(f, 1, 3), (f, 0, 2), (f, 1, 3)])"
    by code_simp
  from follow_run [OF this]
  show "\<exists>g. step\<^sup>*\<^sup>* (spread_work f (init 2 RapidStart)) g \<and> caller g = Idle \<and> runs g = [(f, 1, 3), (f, 0, 2), (f, 1, 3)]"
    by simp
next
  have "Option.bind (follow ([1, 1] @ replicate 5 0 @ [1, 1] @ replicate 3 0) (spread_work f (init 2 RapidStart)))
      (\<lambda>g. Some (caller g, caller_step g = None, trapper_step 1 g = None, slots g)) = Some (Wait_finish 2, True, True, 2)"
    by code_simp
  from follow_run [OF this] obtain g where g: "step\<^sup>*\<^sup>* (spread_work f (init 2 RapidStart)) g" "caller g = Wait_finish 2"
    "caller_step g = None" "trapper_step 1 g = None" "slots g = 2"
    by auto
  then have "\<not> (\<exists>g'. step g g')" by (auto simp: step.simps less_Suc_eq numeral_2_eq_2)
  with g show "\<exists>g. step\<^sup>*\<^sup>* (spread_work f (init 2 RapidStart)) g \<and> caller g \<noteq> Idle \<and> \<not> (\<exists>g'. step g g')" by auto
qed

end
