(* ===== verification/Parallel_Do.thy ===== *)
theory Parallel_Do
  imports Task_Nodes
begin

text \<open>
  \<open>ParallelDo\<close> of src/include/timespan\_partitioner.h: the caller hands the first function to the pool as a
  task that holds a reference to the caller's root node, runs the second one itself and waits until its own
  reference to the root is the only one.  The caller and the thread that executes the task (which can be the
  caller, inside \<open>run\<close> or while it waits) take steps in any order; the references are counted in the node
  store, so that using the root after its deletion is an error.
\<close>

section \<open>The steps\<close>

datatype do_pc =
    Pin_root
  | Make_ref
  | Wrap
  | Submit
  | Drop_ref
  | Run_second
  | Wait_root
  | Returned

datatype wrapped_pc =
    Not_submitted
  | Queued
  | Add_frame
  | Call_first
  | Pop_frame
  | Drop_capture
  | Finished

datatype part = First | Second

text \<open>
  \<open>stack\<close> is the task stack of the executing thread, whose new frame has the address \<open>frame\<close>; \<open>called\<close> lists the
  calls of the two functions.
\<close>

record do_state =
  store :: store
  do_pc :: do_pc
  wrapped :: wrapped_pc
  frame :: nat
  stack :: frames
  called :: "part list"

text \<open>\<open>ParallelDo\<close>; the last case is the loop that executes something else until the root has one reference.\<close>

definition ParallelDo_step :: "do_state \<Rightarrow> par_error + do_state option" where
  "ParallelDo_step s =
     (let ref_step = (\<lambda>r pc. case r of Inl e \<Rightarrow> Inl e | Inr ns \<Rightarrow> Inr (Some (s\<lparr>store := ns, do_pc := pc\<rparr>)))
      in case do_pc s of
           Pin_root \<Rightarrow> ref_step (IntrusivePtrAddRef 0 (store s)) Make_ref
         | Make_ref \<Rightarrow> ref_step (IntrusivePtrAddRef 0 (store s)) Wrap
         | Wrap \<Rightarrow> ref_step (IntrusivePtrAddRef 0 (store s)) Submit
         | Submit \<Rightarrow> Inr (Some (s\<lparr>wrapped := Queued, do_pc := Drop_ref\<rparr>))
         | Drop_ref \<Rightarrow> ref_step (map_sum id snd (IntrusivePtrRelease 0 (store s))) Run_second
         | Run_second \<Rightarrow> Inr (Some (s\<lparr>called := called s @ [Second], do_pc := Wait_root\<rparr>))
         | Wait_root \<Rightarrow>
             (case IntrusivePtrLoadRef 0 (store s) of
                Inl e \<Rightarrow> Inl e
              | Inr cnt \<Rightarrow> if cnt \<noteq> 1 then Inr None else Inr (Some (s\<lparr>do_pc := Returned\<rparr>)))
         | Returned \<Rightarrow> Inr None)"

text \<open>The function object of \<open>WrapAsTask\<close>, and the destruction of its capture after it has run.\<close>

definition WrapAsTask_step :: "do_state \<Rightarrow> par_error + do_state option" where
  "WrapAsTask_step s =
     (case wrapped s of
        Not_submitted \<Rightarrow> Inr None
      | Queued \<Rightarrow> Inr (Some (s\<lparr>wrapped := Add_frame\<rparr>))
      | Add_frame \<Rightarrow> Inr (Some (s\<lparr>stack := Add (frame s) (stack s), wrapped := Call_first\<rparr>))
      | Call_first \<Rightarrow> Inr (Some (s\<lparr>called := called s @ [First], wrapped := Pop_frame\<rparr>))
      | Pop_frame \<Rightarrow>
          (case Pop (stack s) of
             None \<Rightarrow> Inl AssertionFailed
           | Some st \<Rightarrow> Inr (Some (s\<lparr>stack := st, wrapped := Drop_capture\<rparr>)))
      | Drop_capture \<Rightarrow>
          (case IntrusivePtrRelease 0 (store s) of
             Inl e \<Rightarrow> Inl e
           | Inr (_, ns) \<Rightarrow> Inr (Some (s\<lparr>store := ns, wrapped := Finished\<rparr>)))
      | Finished \<Rightarrow> Inr None)"

definition do_start :: "nat \<Rightarrow> frames \<Rightarrow> do_state" where
  "do_start ts fr = \<lparr>store = [TaskNode None], do_pc = Pin_root, wrapped = Not_submitted, frame = ts,
     stack = fr, called = []\<rparr>"

inductive do_step :: "do_state \<Rightarrow> par_error + do_state \<Rightarrow> bool" where
  caller: "ParallelDo_step s = Inr (Some s') \<Longrightarrow> do_step s (Inr s')"
| caller_error: "ParallelDo_step s = Inl e \<Longrightarrow> do_step s (Inl e)"
| task: "WrapAsTask_step s = Inr (Some s') \<Longrightarrow> do_step s (Inr s')"
| task_error: "WrapAsTask_step s = Inl e \<Longrightarrow> do_step s (Inl e)"

inductive_cases do_stepE: "do_step s r"

text \<open>Runs of \<open>n\<close> steps without an error.\<close>

inductive do_run :: "nat \<Rightarrow> frames \<Rightarrow> nat \<Rightarrow> do_state \<Rightarrow> bool" for ts fr where
  start: "do_run ts fr 0 (do_start ts fr)"
| step: "do_run ts fr n s \<Longrightarrow> do_step s (Inr s') \<Longrightarrow> do_run ts fr (Suc n) s'"

section \<open>Where a run is\<close>

definition do_at :: "nat \<Rightarrow> do_pc" where
  "do_at m = [Pin_root, Make_ref, Wrap, Submit, Drop_ref, Run_second, Wait_root, Returned] ! m"

definition wrapped_at :: "nat \<Rightarrow> wrapped_pc" where
  "wrapped_at k = [Not_submitted, Queued, Add_frame, Call_first, Pop_frame, Drop_capture, Finished] ! k"

text \<open>References to the root: the pin, the temporary, and the task's capture.\<close>

definition root_refs :: "nat \<Rightarrow> nat \<Rightarrow> nat" where
  "root_refs m k = of_bool (1 \<le> m) + of_bool (2 \<le> m \<and> m < 5) + of_bool (3 \<le> m \<and> k < 6)"

definition do_inv :: "nat \<Rightarrow> frames \<Rightarrow> nat \<Rightarrow> nat \<Rightarrow> do_state \<Rightarrow> bool" where
  "do_inv ts fr m k s \<longleftrightarrow> m \<le> 7 \<and> k \<le> 6 \<and> (k = 0 \<longleftrightarrow> m \<le> 3) \<and> (m = 7 \<longrightarrow> k = 6)
     \<and> do_pc s = do_at m \<and> wrapped s = wrapped_at k
     \<and> store s = [(TaskNode None)\<lparr>m_cnt := of_nat (root_refs m k)\<rparr>]
     \<and> frame s = ts \<and> (k \<in> {3, 4} \<longrightarrow> stack s = Add ts fr) \<and> (k \<le> 2 \<longrightarrow> stack s = fr)
     \<and> count_list (called s) First = of_bool (4 \<le> k) \<and> count_list (called s) Second = of_bool (6 \<le> m)"

lemma do_stage:
  "m \<le> (7 :: nat) \<Longrightarrow> m = 0 \<or> m = 1 \<or> m = 2 \<or> m = 3 \<or> m = 4 \<or> m = 5 \<or> m = 6 \<or> m = 7"
  by auto

lemma wrapped_stage: "k \<le> (6 :: nat) \<Longrightarrow> k = 0 \<or> k = 1 \<or> k = 2 \<or> k = 3 \<or> k = 4 \<or> k = 5 \<or> k = 6"
  by auto

lemma ref_simps:
  "IntrusivePtrAddRef 0 [nd] = (if alive nd then Inr [nd\<lparr>m_cnt := m_cnt nd + 1\<rparr>] else Inl UseAfterFree)"
  "IntrusivePtrLoadRef 0 [nd] = (if alive nd then Inr (m_cnt nd) else Inl UseAfterFree)"
  by (simp_all add: IntrusivePtrAddRef_def IntrusivePtrLoadRef_def live_def)

lemma release_simps:
  "alive nd \<Longrightarrow> m_cnt nd \<noteq> 1 \<Longrightarrow> IntrusivePtrRelease 0 [nd] = Inr (None, [nd\<lparr>m_cnt := m_cnt nd - 1\<rparr>])"
  by (simp add: IntrusivePtrRelease_def live_def Let_def)

lemma ParallelDo_ok:
  assumes "do_inv ts fr m k s"
  shows "(\<exists>s'. ParallelDo_step s = Inr (Some s') \<and> m < 7 \<and> do_inv ts fr (Suc m) k s' \<or>
       ParallelDo_step s = Inr (Some s') \<and> m = 3 \<and> do_inv ts fr 4 1 s') \<or>
     ParallelDo_step s = Inr None \<and> (m = 7 \<or> m = 6 \<and> k < 6)"
proof -
  have m: "m \<le> 7" and k: "k \<le> 6" using assms by (simp_all add: do_inv_def)
  from do_stage [OF m] wrapped_stage [OF k] show ?thesis
    using assms
    by (elim disjE) (simp_all add: do_inv_def ParallelDo_step_def do_at_def wrapped_at_def root_refs_def TaskNode_def
      ref_simps release_simps Let_def)
qed

lemma WrapAsTask_ok:
  assumes "do_inv ts fr m k s"
  shows "(\<exists>s'. WrapAsTask_step s = Inr (Some s') \<and> 1 \<le> k \<and> k < 6 \<and> do_inv ts fr m (Suc k) s') \<or>
     WrapAsTask_step s = Inr None \<and> (k = 0 \<or> k = 6)"
proof -
  have m: "m \<le> 7" and k: "k \<le> 6" using assms by (simp_all add: do_inv_def)
  have pop: "\<exists>st. Pop (Add ts fr) = Some st" by (simp add: Pop_def Add_def Let_def)
  from do_stage [OF m] wrapped_stage [OF k] show ?thesis
    using assms pop
    by (elim disjE) (auto simp: do_inv_def WrapAsTask_step_def do_at_def wrapped_at_def root_refs_def TaskNode_def
      release_simps Let_def)
qed

definition do_steps :: "nat \<Rightarrow> nat \<Rightarrow> nat" where
  "do_steps m k = m + (k - 1)"

lemma do_run_inv:
  "do_run ts fr n s \<Longrightarrow> \<exists>m k. do_inv ts fr m k s \<and> n = do_steps m k"
proof (induction rule: do_run.induct)
  case start
  show ?case
    by (intro exI [of _ 0]) (simp add: do_inv_def do_start_def do_at_def wrapped_at_def root_refs_def TaskNode_def do_steps_def)
next
  case (step n s s')
  then obtain m k where inv: "do_inv ts fr m k s" and n: "n = do_steps m k" by blast
  have k0: "k = 0 \<longleftrightarrow> m \<le> 3" using inv by (simp add: do_inv_def)
  from step(2) show ?case
  proof (cases rule: do_step.cases)
    case caller
    with ParallelDo_ok [OF inv] consider "do_inv ts fr (Suc m) k s'" | "m = 3" "do_inv ts fr 4 1 s'" by auto
    then show ?thesis
    proof cases
      case 1
      then show ?thesis using n by (intro exI [of _ "Suc m"] exI [of _ k]) (simp add: do_steps_def)
    next
      case 2
      then show ?thesis using n k0 by (intro exI [of _ 4] exI [of _ 1]) (simp add: do_steps_def)
    qed
  next
    case task
    with WrapAsTask_ok [OF inv] have "1 \<le> k" "do_inv ts fr m (Suc k) s'" by auto
    then show ?thesis using n by (intro exI [of _ m] exI [of _ "Suc k"]) (simp add: do_steps_def)
  qed
qed

lemma do_inv_returned:
  assumes "do_inv ts fr 7 k s"
  shows "mset (called s) = {#First, Second#}" "wrapped s = Finished" "IntrusivePtrLoadRef 0 (store s) = Inr 1"
proof -
  have k: "k = 6" using assms by (simp add: do_inv_def)
  show "wrapped s = Finished" using assms by (simp add: do_inv_def k wrapped_at_def)
  show "IntrusivePtrLoadRef 0 (store s) = Inr 1" using assms by (simp add: do_inv_def k root_refs_def ref_simps TaskNode_def)
  have "count (mset (called s)) p = 1" for p
    using assms by (cases p) (simp_all add: do_inv_def k count_mset count_list_eq_length_filter)
  then show "mset (called s) = {#First, Second#}" by (intro multiset_eqI) (metis (full_types) count_add_mset count_empty part.exhaust part.simps(2) One_nat_def)
qed

text \<open>
  C31: However the steps of the caller and of the thread that executes the task interleave, \<open>ParallelDo\<close> has no
  access to a deleted node and no pop of an empty task stack, some step is possible until it returns, and it returns
  after at most twelve steps, the turns of its waiting loop not counted; when it has returned, each of the two functions has been called exactly
  once and the task is finished with the caller's root.
\<close>

theorem ParallelDo_runs_both:
  assumes "do_run ts fr n s"
  shows "n \<le> 12 \<and> (\<forall>e. \<not> do_step s (Inl e)) \<and>
    (if do_pc s = Returned then mset (called s) = {#First, Second#} \<and> wrapped s = Finished \<and> IntrusivePtrLoadRef 0 (store s) = Inr 1
     else \<exists>s'. do_step s (Inr s'))"
proof -
  obtain m k where inv: "do_inv ts fr m k s" and n: "n = do_steps m k" using do_run_inv [OF assms] by blast
  have m: "m \<le> 7" "k \<le> 6" "do_pc s = do_at m" using inv by (simp_all add: do_inv_def)
  have "n \<le> 12" using n m by (simp add: do_steps_def)
  moreover have "\<not> do_step s (Inl e)" for e
    using ParallelDo_ok [OF inv] WrapAsTask_ok [OF inv] by (auto elim!: do_stepE)
  moreover have ret: "do_pc s = Returned \<longleftrightarrow> m = 7"
    using do_stage [OF m(1)] m(3) by (elim disjE) (simp_all add: do_at_def)
  moreover have "\<exists>s'. do_step s (Inr s')" if "m \<noteq> 7"
  proof (cases "\<exists>s'. ParallelDo_step s = Inr (Some s')")
    case True
    then show ?thesis by (blast intro: do_step.caller)
  next
    case False
    with ParallelDo_ok [OF inv] that have "m = 6" "k < 6" by auto
    moreover from this(1) have "k \<noteq> 0" using inv by (simp add: do_inv_def)
    ultimately obtain s' where "WrapAsTask_step s = Inr (Some s')" using WrapAsTask_ok [OF inv] by auto
    then show ?thesis by (blast intro: do_step.task)
  qed
  ultimately show ?thesis using do_inv_returned [of ts fr k s] inv by (cases "m = 7") simp_all
qed

theorem ParallelDo_runs_both_witness:
  "\<exists>s s'. do_run 5 (\<lambda>_. None) 1 s \<and> do_step s (Inr s')"
proof -
  let ?s0 = "do_start 5 (\<lambda>_. None)"
  have "do_run 5 (\<lambda>_. None) 0 ?s0" by (rule do_run.start)
  from ParallelDo_runs_both [OF this] obtain s where s: "do_step ?s0 (Inr s)" by (auto simp: do_start_def)
  then have run: "do_run 5 (\<lambda>_. None) 1 s" using do_run.step [OF do_run.start s] by simp
  have "s = ?s0\<lparr>store := [(TaskNode None)\<lparr>m_cnt := 1\<rparr>], do_pc := Make_ref\<rparr>"
    using s by (auto elim!: do_stepE simp: ParallelDo_step_def WrapAsTask_step_def do_start_def ref_simps TaskNode_def Let_def)
  then have "do_pc s \<noteq> Returned" by simp
  with ParallelDo_runs_both [OF run] run show ?thesis by auto
qed

end
