(* ===== verification/Spin_Sync.thy ===== *)
theory Spin_Sync
  imports Prelude
begin

text \<open>
  The spinning synchronisation of the benchmark: \<open>SpinLock\<close> (src/include/spin\_lock.h) and \<open>SpinBarrier\<close>
  (src/include/poor\_barrier.h), and the barrier's use in \<open>EigenPinner\<close> (src/include/eigen\_pinner.h).  Any
  number of threads take steps of one atomic access each, in any order; a waiting loop is a step that goes
  back to the loop.
\<close>

section \<open>The lock\<close>

text \<open>Where a thread is: outside, in \<open>lock\<close> or \<open>try_lock\<close>, or holding the lock.\<close>

datatype lock_pc =
    Outside_lock
  | Exchange
  | Spin
  | Try_load
  | Try_exchange
  | Holding

record spin_lock =
  locked :: bool
  lock_pcs :: "nat \<Rightarrow> lock_pc"

definition at_pc :: "nat \<Rightarrow> lock_pc \<Rightarrow> spin_lock \<Rightarrow> spin_lock" where
  "at_pc t pc s = s\<lparr>lock_pcs := (lock_pcs s)(t := pc)\<rparr>"

text \<open>\<open>lock\<close>: \<open>exchange\<close>, and \<open>load\<close> while it is taken.\<close>

definition lock_step :: "nat \<Rightarrow> spin_lock \<Rightarrow> spin_lock" where
  "lock_step t s =
     (case lock_pcs s t of
        Exchange \<Rightarrow> (let old = locked s; s = s\<lparr>locked := True\<rparr> in at_pc t (if \<not> old then Holding else Spin) s)
      | Spin \<Rightarrow> at_pc t (if locked s then Spin else Exchange) s
      | _ \<Rightarrow> s)"

definition try_lock_step :: "nat \<Rightarrow> spin_lock \<Rightarrow> spin_lock" where
  "try_lock_step t s =
     (case lock_pcs s t of
        Try_load \<Rightarrow> at_pc t (if \<not> locked s then Try_exchange else Outside_lock) s
      | Try_exchange \<Rightarrow> (let old = locked s; s = s\<lparr>locked := True\<rparr> in at_pc t (if \<not> old then Holding else Outside_lock) s)
      | _ \<Rightarrow> s)"

definition unlock :: "nat \<Rightarrow> spin_lock \<Rightarrow> spin_lock" where
  "unlock t s = at_pc t Outside_lock (s\<lparr>locked := False\<rparr>)"

text \<open>Threads call \<open>lock\<close> and \<open>try_lock\<close> when outside and \<open>unlock\<close> when holding the lock.\<close>

inductive lock_run :: "spin_lock \<Rightarrow> bool" where
  start: "lock_run \<lparr>locked = False, lock_pcs = (\<lambda>_. Outside_lock)\<rparr>"
| call_lock: "lock_run s \<Longrightarrow> lock_pcs s t = Outside_lock \<Longrightarrow> lock_run (at_pc t Exchange s)"
| call_try: "lock_run s \<Longrightarrow> lock_pcs s t = Outside_lock \<Longrightarrow> lock_run (at_pc t Try_load s)"
| in_lock: "lock_run s \<Longrightarrow> lock_run (lock_step t s)"
| in_try: "lock_run s \<Longrightarrow> lock_run (try_lock_step t s)"
| call_unlock: "lock_run s \<Longrightarrow> lock_pcs s t = Holding \<Longrightarrow> lock_run (unlock t s)"

definition lock_inv :: "spin_lock \<Rightarrow> bool" where
  "lock_inv s \<longleftrightarrow> (\<forall>t u. lock_pcs s t = Holding \<longrightarrow> lock_pcs s u = Holding \<longrightarrow> t = u)
     \<and> (locked s \<longleftrightarrow> (\<exists>t. lock_pcs s t = Holding))"

lemma lock_inv_at: "lock_inv s \<Longrightarrow> pc \<noteq> Holding \<Longrightarrow> lock_pcs s t \<noteq> Holding \<Longrightarrow> lock_inv (at_pc t pc s)"
  unfolding lock_inv_def at_pc_def by (simp; metis)

lemma lock_inv_take:
  "lock_inv s \<Longrightarrow> lock_pcs s t \<noteq> Holding \<Longrightarrow> pc \<noteq> Holding
    \<Longrightarrow> lock_inv (at_pc t (if \<not> locked s then Holding else pc) (s\<lparr>locked := True\<rparr>))"
  unfolding lock_inv_def at_pc_def by (cases "locked s"; simp; metis)

lemma lock_run_inv: "lock_run s \<Longrightarrow> lock_inv s"
proof (induction rule: lock_run.induct)
  case start
  then show ?case by (simp add: lock_inv_def)
next
  case (in_lock s t)
  then show ?case
    using lock_inv_take [of s t Spin] lock_inv_at [of s Spin t] lock_inv_at [of s Exchange t]
    by (cases "lock_pcs s t") (simp_all add: lock_step_def Let_def)
next
  case (in_try s t)
  then show ?case
    using lock_inv_take [of s t Outside_lock] lock_inv_at [of s Try_exchange t] lock_inv_at [of s Outside_lock t]
    by (cases "lock_pcs s t") (simp_all add: try_lock_step_def Let_def)
next
  case (call_unlock s t)
  then show ?case unfolding lock_inv_def unlock_def at_pc_def by (simp; metis)
qed (auto intro!: lock_inv_at)

text \<open>
  C32: In every interleaving of the atomic steps of any number of threads, at most one thread holds the spin
  lock, the flag is set exactly while one does, and when none does a thread that is in \<open>lock\<close> takes it
  after at most two steps of its own.
\<close>

theorem spin_lock_exclusive:
  assumes "lock_run s"
  shows "(\<forall>t u. lock_pcs s t = Holding \<longrightarrow> lock_pcs s u = Holding \<longrightarrow> t = u) \<and>
    (locked s \<longleftrightarrow> (\<exists>t. lock_pcs s t = Holding)) \<and>
    (\<forall>t. lock_pcs s t \<in> {Exchange, Spin} \<longrightarrow> (\<forall>u. lock_pcs s u \<noteq> Holding) \<longrightarrow>
      lock_pcs (lock_step t (lock_step t s)) t = Holding)"
  using lock_run_inv [OF assms]
  by (auto simp: lock_inv_def lock_step_def at_pc_def Let_def)

theorem spin_lock_exclusive_witness:
  "\<exists>s. lock_run s \<and> lock_pcs s 1 = Holding \<and> lock_pcs s 2 = Spin \<and> (\<forall>t. lock_pcs s t = Holding \<longrightarrow> t = 1)"
proof -
  let ?s0 = "\<lparr>locked = False, lock_pcs = (\<lambda>_. Outside_lock)\<rparr>"
  define s where "s = lock_step 2 (at_pc 2 Exchange (lock_step 1 (at_pc 1 Exchange ?s0)))"
  have eqs: "lock_pcs s 1 = Holding" "lock_pcs s 2 = Spin"
    by (simp_all add: s_def lock_step_def at_pc_def Let_def)
  have "lock_run s"
    unfolding s_def by (intro lock_run.intros) (simp_all add: lock_step_def at_pc_def Let_def)
  with spin_lock_exclusive [OF this] eqs show ?thesis by blast
qed

section \<open>The barrier\<close>

text \<open>
  The pinning of the pool: each of the workers \<open>1, \<dots>, workers\<close> pins itself, notifies and waits; the main thread
  (number 0) pins itself and waits.
\<close>

datatype barrier_pc = Pinning | Notifying | Waiting | Passed

record spin_barrier =
  remain :: u64
  barrier_pcs :: "nat \<Rightarrow> barrier_pc"

definition SpinBarrier :: "u64 \<Rightarrow> spin_barrier" where
  "SpinBarrier cnt = \<lparr>remain = cnt, barrier_pcs = (\<lambda>_. Pinning)\<rparr>"

definition Notify :: "u64 \<Rightarrow> spin_barrier \<Rightarrow> spin_barrier" where
  "Notify cnt b = b\<lparr>remain := remain b - cnt\<rparr>"

definition Wait_done :: "spin_barrier \<Rightarrow> bool" where
  "Wait_done b \<longleftrightarrow> remain b = 0"

definition pinner_step :: "nat \<Rightarrow> spin_barrier \<Rightarrow> spin_barrier" where
  "pinner_step i b =
     (case barrier_pcs b i of
        Pinning \<Rightarrow> b\<lparr>barrier_pcs := (barrier_pcs b)(i := if i = 0 then Waiting else Notifying)\<rparr>
      | Notifying \<Rightarrow> Notify 1 (b\<lparr>barrier_pcs := (barrier_pcs b)(i := Waiting)\<rparr>)
      | Waiting \<Rightarrow> if Wait_done b then b\<lparr>barrier_pcs := (barrier_pcs b)(i := Passed)\<rparr> else b
      | Passed \<Rightarrow> b)"

text \<open>
  The constructor \<open>EigenPinner(threadsNum)\<close>, and the steps of the main thread, which always exists, and of
  the workers.
\<close>

definition EigenPinner :: "u64 \<Rightarrow> spin_barrier" where
  "EigenPinner threadsNum = SpinBarrier (threadsNum - 1)"

inductive pinner_run :: "u64 \<Rightarrow> spin_barrier \<Rightarrow> bool" for threadsNum where
  start: "pinner_run threadsNum (EigenPinner threadsNum)"
| step: "pinner_run threadsNum b \<Longrightarrow> i = 0 \<or> i < unat threadsNum \<Longrightarrow> pinner_run threadsNum (pinner_step i b)"

text \<open>The workers that have not notified yet.\<close>

definition missing :: "nat \<Rightarrow> spin_barrier \<Rightarrow> nat set" where
  "missing n b = {i. 1 \<le> i \<and> i < n \<and> barrier_pcs b i \<in> {Pinning, Notifying}}"

definition pinner_inv :: "nat \<Rightarrow> spin_barrier \<Rightarrow> bool" where
  "pinner_inv n b \<longleftrightarrow> unat (remain b) = card (missing n b)
     \<and> (\<forall>i < n. barrier_pcs b i = Passed \<longrightarrow> missing n b = {}) \<and> barrier_pcs b 0 \<noteq> Notifying"

lemma finite_missing: "finite (missing n b)"
  by (rule finite_subset [of _ "{..<n}"]) (auto simp: missing_def)

lemma missing_upd:
  "missing n (b\<lparr>barrier_pcs := (barrier_pcs b)(i := pc)\<rparr>)
    = (if 1 \<le> i \<and> i < n \<and> pc \<in> {Pinning, Notifying} then insert i (missing n b) else missing n b - {i})"
  by (auto simp: missing_def)

lemma pinner_step_inv:
  assumes inv: "pinner_inv n b" and i: "i < n"
  shows "pinner_inv n (pinner_step i b)"
proof -
  have rem: "unat (remain b) = card (missing n b)" and passed: "\<And>j. j < n \<Longrightarrow> barrier_pcs b j = Passed \<Longrightarrow> missing n b = {}"
    and main: "barrier_pcs b 0 \<noteq> Notifying" using inv by (auto simp: pinner_inv_def)
  show ?thesis
  proof (cases "barrier_pcs b i")
    case Pinning
    show ?thesis
    proof (cases "i = 0")
      case True
      have "missing n (pinner_step i b) = missing n b - {0}"
        using Pinning True by (simp add: pinner_step_def missing_upd)
      then have "missing n (pinner_step i b) = missing n b" by (auto simp: missing_def)
      then show ?thesis using Pinning True rem passed by (auto simp: pinner_inv_def pinner_step_def)
    next
      case False
      then have "i \<in> missing n b" using Pinning i by (simp add: missing_def)
      then have "missing n (pinner_step i b) = missing n b"
        using Pinning False i by (auto simp: pinner_step_def missing_upd)
      then show ?thesis using Pinning False rem passed main by (auto simp: pinner_inv_def pinner_step_def)
    qed
  next
    case Notifying
    then have "i \<noteq> 0" using main by (cases i) auto
    then have mem: "i \<in> missing n b" using Notifying i by (simp add: missing_def)
    then have "0 < card (missing n b)" using finite_missing [of n b] by (auto simp: card_gt_0_iff)
    then have "1 \<le> remain b" using rem by (simp add: word_le_nat_alt)
    then have "unat (remain b - 1) = card (missing n b) - 1" using u64_sub [of 1 "remain b"] rem by simp
    moreover have "missing n (pinner_step i b) = missing n b - {i}"
      using Notifying by (simp add: pinner_step_def Notify_def) (auto simp: missing_def)
    moreover have "\<And>j. j < n \<Longrightarrow> barrier_pcs b j \<noteq> Passed" using passed mem by blast
    ultimately show ?thesis
      using Notifying mem finite_missing [of n b] main
      by (auto simp: pinner_inv_def pinner_step_def Notify_def)
  next
    case Waiting
    have "missing n (b\<lparr>barrier_pcs := (barrier_pcs b)(i := Passed)\<rparr>) = missing n b"
      using Waiting by (auto simp: missing_def)
    moreover have "missing n b = {}" if "remain b = 0" using rem that finite_missing [of n b] by simp
    ultimately show ?thesis using Waiting inv rem by (auto simp: pinner_inv_def pinner_step_def Wait_done_def)
  next
    case Passed
    then show ?thesis using inv by (simp add: pinner_step_def)
  qed
qed

lemma pinner_run_inv:
  assumes "0 < threadsNum" "pinner_run threadsNum b"
  shows "pinner_inv (unat threadsNum) b"
  using assms(2)
proof (induction rule: pinner_run.induct)
  case start
  have "missing (unat threadsNum) (EigenPinner threadsNum) = {1..<unat threadsNum}"
    by (auto simp: missing_def EigenPinner_def SpinBarrier_def)
  moreover have "unat (threadsNum - 1) = unat threadsNum - 1"
    using assms(1) u64_sub [of 1 threadsNum] by (simp add: word_le_nat_alt word_less_nat_alt)
  ultimately show ?case by (simp add: pinner_inv_def EigenPinner_def SpinBarrier_def)
next
  case (step b i)
  then have "i < unat threadsNum" using assms(1) by (auto simp: word_less_nat_alt)
  with step show ?case by (intro pinner_step_inv)
qed

text \<open>The main thread leaves the constructor if there is a thread at all, and never for none.\<close>

lemma pinner_notified:
  assumes "k < unat threadsNum"
  shows "\<exists>b. pinner_run threadsNum b \<and> barrier_pcs b 0 = Pinning \<and> (\<forall>j. 1 \<le> j \<and> j \<le> k \<longrightarrow> barrier_pcs b j = Waiting)
    \<and> (\<forall>j > k. barrier_pcs b j = Pinning)"
  using assms
proof (induction k)
  case 0
  show ?case using pinner_run.start [of threadsNum]
    by (intro exI [of _ "EigenPinner threadsNum"]) (simp add: EigenPinner_def SpinBarrier_def)
next
  case (Suc k)
  then obtain b where b: "pinner_run threadsNum b" "barrier_pcs b 0 = Pinning"
    "\<forall>j. 1 \<le> j \<and> j \<le> k \<longrightarrow> barrier_pcs b j = Waiting" "\<forall>j > k. barrier_pcs b j = Pinning" by auto
  let ?b = "pinner_step (Suc k) (pinner_step (Suc k) b)"
  have "pinner_run threadsNum ?b" using b(1) Suc.prems by (intro pinner_run.step) simp_all
  then show ?case using b(2-) by (intro exI [of _ ?b]) (auto simp: pinner_step_def Notify_def le_Suc_eq)
qed

lemma pinner_returns:
  assumes "0 < threadsNum"
  shows "\<exists>b. pinner_run threadsNum b \<and> barrier_pcs b 0 = Passed"
proof -
  have n: "unat threadsNum - 1 < unat threadsNum" using assms by (simp add: word_less_nat_alt)
  obtain b where b: "pinner_run threadsNum b" "barrier_pcs b 0 = Pinning"
    "\<forall>j. 1 \<le> j \<and> j \<le> unat threadsNum - 1 \<longrightarrow> barrier_pcs b j = Waiting" using pinner_notified [OF n] by blast
  then have "missing (unat threadsNum) b = {}" by (auto simp: missing_def)
  then have "remain b = 0" using pinner_run_inv [OF assms b(1)] by (simp add: pinner_inv_def unat_eq_zero)
  then have "barrier_pcs (pinner_step 0 (pinner_step 0 b)) 0 = Passed" using b(2) by (simp add: pinner_step_def Wait_done_def)
  moreover have "pinner_run threadsNum (pinner_step 0 (pinner_step 0 b))" using b(1) by (intro pinner_run.step) simp_all
  ultimately show ?thesis by blast
qed

lemma pinner_of_none:
  assumes "pinner_run 0 b"
  shows "barrier_pcs b 0 \<noteq> Passed"
proof -
  from assms have "remain b = - 1 \<and> barrier_pcs b 0 \<in> {Pinning, Waiting}"
    by induction (auto simp: EigenPinner_def SpinBarrier_def pinner_step_def Wait_done_def)
  then show ?thesis by auto
qed

text \<open>
  C33: With the barrier of \<open>EigenPinner\<close>, neither the main thread nor a worker goes on before every worker has
  notified, which is after it has pinned itself, and once all have, every waiting thread goes on with its next
  step.
\<close>

theorem pinner_waits_for_all:
  assumes "0 < threadsNum" "pinner_run threadsNum b"
  shows "(\<forall>i < unat threadsNum. barrier_pcs b i = Passed \<longrightarrow>
      (\<forall>j. 1 \<le> j \<and> j < unat threadsNum \<longrightarrow> barrier_pcs b j \<in> {Waiting, Passed})) \<and>
    ((\<forall>j. 1 \<le> j \<and> j < unat threadsNum \<longrightarrow> barrier_pcs b j \<in> {Waiting, Passed}) \<longrightarrow>
      (\<forall>i < unat threadsNum. barrier_pcs b i = Waiting \<longrightarrow> barrier_pcs (pinner_step i b) i = Passed))"
proof -
  have inv: "pinner_inv (unat threadsNum) b" by (rule pinner_run_inv [OF assms])
  have none: "missing (unat threadsNum) b = {} \<longleftrightarrow>
      (\<forall>j. 1 \<le> j \<and> j < unat threadsNum \<longrightarrow> barrier_pcs b j \<in> {Waiting, Passed})"
    by (auto simp: missing_def) (metis barrier_pc.exhaust)+
  have "remain b = 0" if "missing (unat threadsNum) b = {}"
    using inv that by (simp add: pinner_inv_def unat_eq_zero)
  then show ?thesis
    using inv unfolding none [symmetric] by (auto simp: pinner_inv_def pinner_step_def Wait_done_def)
qed

theorem pinner_waits_for_all_witness:
  "\<exists>b. pinner_run 2 b \<and> barrier_pcs b 0 = Passed \<and> barrier_pcs b 1 = Waiting"
proof -
  let ?b = "pinner_step 0 (pinner_step 1 (pinner_step 1 (pinner_step 0 (EigenPinner 2))))"
  have run: "pinner_run 2 (pinner_step 1 (pinner_step 1 (pinner_step 0 (EigenPinner 2))))"
    by (intro pinner_run.intros) simp_all
  have "barrier_pcs (pinner_step 0 (pinner_step 1 (pinner_step 1 (pinner_step 0 (EigenPinner 2))))) 0 = Passed"
    using pinner_waits_for_all [OF _ run]
    by (simp add: pinner_step_def EigenPinner_def SpinBarrier_def Notify_def)
  moreover have "pinner_run 2 ?b" by (rule pinner_run.step [OF run]) simp
  moreover have "barrier_pcs ?b 1 = Waiting"
    by (simp add: pinner_step_def EigenPinner_def SpinBarrier_def Notify_def Wait_done_def)
  ultimately show ?thesis by blast
qed

end
