(* ===== verification/Affinity.thy ===== *)
theory Affinity
  imports Prelude
begin

text \<open>
  The parts of src/include/util.h that compute: which processor \<open>PinThread\<close> leaves in a thread's affinity
  mask, and when \<open>is_stack_half_full\<close> stops the partitioner from splitting.  The system calls' results are
  arguments; a mask is a list of \<open>CPU_SETSIZE\<close> bits.
\<close>

section \<open>Pinning\<close>

definition CPU_SETSIZE :: nat where
  "CPU_SETSIZE = 1024"

definition CPU_SET_ONLY :: "nat \<Rightarrow> bool list" where
  "CPU_SET_ONLY i = (replicate CPU_SETSIZE False)[i := True]"

function pin_loop :: "u64 \<Rightarrow> nat \<Rightarrow> u64 \<Rightarrow> bool list \<Rightarrow> bool list" where
  "pin_loop slot_number i nonzero_bits msk =
     (if i < CPU_SETSIZE then
        if msk ! i then
          if nonzero_bits = slot_number then CPU_SET_ONLY i
          else pin_loop slot_number (i + 1) (nonzero_bits + 1) msk
        else pin_loop slot_number (i + 1) nonzero_bits msk
      else msk)"
  by pat_completeness auto
termination by (relation "measure (\<lambda>(slot_number, i, nonzero_bits, msk). CPU_SETSIZE - i)") auto

declare pin_loop.simps [simp del]

text \<open>
  The mask given to \<open>sched_setaffinity\<close>; \<open>None\<close> where \<open>sched_getaffinity\<close> has failed and the thread is left
  as it is.
\<close>

definition PinThread :: "u64 \<Rightarrow> bool list option \<Rightarrow> bool list option" where
  "PinThread slot_number affinity = map_option (pin_loop slot_number 0 0) affinity"

text \<open>The processors of a mask, in order.\<close>

definition cpus :: "bool list \<Rightarrow> nat \<Rightarrow> nat list" where
  "cpus msk i = filter (\<lambda>j. msk ! j) [i..<CPU_SETSIZE]"

lemma cpus_Cons: "i < CPU_SETSIZE \<Longrightarrow> cpus msk i = (if msk ! i then i # cpus msk (i + 1) else cpus msk (i + 1))"
  by (simp add: cpus_def upt_rec [of i])

lemma length_cpus: "length (cpus msk i) \<le> CPU_SETSIZE - i"
  unfolding cpus_def by (rule order.trans [OF length_filter_le]) simp

lemma pin_loop_nth:
  assumes "i \<le> CPU_SETSIZE" "unat nonzero_bits \<le> i" "unat nonzero_bits \<le> unat slot_number"
  shows "pin_loop slot_number i nonzero_bits msk =
    (let k = unat slot_number - unat nonzero_bits
     in if k < length (cpus msk i) then CPU_SET_ONLY (cpus msk i ! k) else msk)"
  using assms
proof (induction slot_number i nonzero_bits msk rule: pin_loop.induct)
  case (1 slot_number i nonzero_bits msk)
  show ?case
  proof (cases "i < CPU_SETSIZE")
    case False
    then show ?thesis by (subst pin_loop.simps) (simp add: cpus_def)
  next
    case True
    show ?thesis
    proof (cases "msk ! i")
      case False
      have "pin_loop slot_number i nonzero_bits msk = pin_loop slot_number (i + 1) nonzero_bits msk"
        using True False by (subst pin_loop.simps) simp
      then show ?thesis using 1(2) [OF True False] 1(3-5) True False cpus_Cons [OF True, of msk] by (simp add: Let_def)
    next
      case bit: True
      show ?thesis
      proof (cases "nonzero_bits = slot_number")
        case eq: True
        then show ?thesis using True bit by (subst pin_loop.simps) (simp add: cpus_Cons)
      next
        case ne: False
        then have lt: "unat nonzero_bits < unat slot_number" using 1(5) by (simp add: le_less word_unat_eq_iff)
        then have Suc: "unat (nonzero_bits + 1) = Suc (unat nonzero_bits)" by (rule u64_Suc)
        obtain k where k: "unat slot_number - unat nonzero_bits = Suc k" using lt by (metis Suc_diff_Suc)
        then have k': "unat slot_number - Suc (unat nonzero_bits) = k" by simp
        have "pin_loop slot_number i nonzero_bits msk = pin_loop slot_number (i + 1) (nonzero_bits + 1) msk"
          using True bit ne by (subst pin_loop.simps) simp
        also have "\<dots> = (if k < length (cpus msk (i + 1)) then CPU_SET_ONLY (cpus msk (i + 1) ! k) else msk)"
          using 1(1) [OF True bit ne] 1(3,4) True lt by (simp add: Suc k')
        finally show ?thesis using True bit by (simp add: k cpus_Cons)
      qed
    qed
  qed
qed

lemma PinThread_cpu:
  "PinThread slot_number (Some msk) = Some (if unat slot_number < length (cpus msk 0)
     then CPU_SET_ONLY (cpus msk 0 ! unat slot_number) else msk)"
  using pin_loop_nth [of 0 0 slot_number msk] by (simp add: PinThread_def)

text \<open>
  \<open>PinThread\<close> leaves a thread exactly one processor, one of those it was allowed, if its slot is below their
  number, and all of them otherwise; threads with different slots below that number get different processors.
\<close>

lemma PinThread_pins:
  assumes "length msk = CPU_SETSIZE"
  shows "(\<forall>slot. PinThread slot (Some msk) = Some (if unat slot < length (filter (\<lambda>b. b) msk)
      then CPU_SET_ONLY (cpus msk 0 ! unat slot) else msk)) \<and>
    (\<forall>slot. unat slot < length (filter (\<lambda>b. b) msk) \<longrightarrow> msk ! (cpus msk 0 ! unat slot)) \<and>
    (\<forall>s t. unat s < length (filter (\<lambda>b. b) msk) \<longrightarrow> unat t < length (filter (\<lambda>b. b) msk) \<longrightarrow>
      PinThread s (Some msk) = PinThread t (Some msk) \<longrightarrow> s = t)"
proof -
  have "map (nth msk) [0..<CPU_SETSIZE] = msk" using assms map_nth [of msk] by simp
  then have "filter (\<lambda>b. b) msk = map (nth msk) (cpus msk 0)"
    unfolding cpus_def by (metis (no_types, lifting) comp_def filter_cong filter_map)
  then have len: "length (filter (\<lambda>b. b) msk) = length (cpus msk 0)" by simp
  have dist: "distinct (cpus msk 0)" by (simp add: cpus_def)
  have small: "cpus msk 0 ! k < CPU_SETSIZE" "msk ! (cpus msk 0 ! k)" if "k < length (cpus msk 0)" for k
    using nth_mem [OF that] by (auto simp: cpus_def)
  have inj: "i = j" if "CPU_SET_ONLY i = CPU_SET_ONLY j" "i < CPU_SETSIZE" "j < CPU_SETSIZE" for i j
  proof -
    have "CPU_SET_ONLY j ! i" unfolding that(1) [symmetric] using that(2) by (simp add: CPU_SET_ONLY_def)
    then show ?thesis using that(2,3) by (cases "i = j") (simp_all add: CPU_SET_ONLY_def)
  qed
  have "s = t" if "unat s < length (cpus msk 0)" "unat t < length (cpus msk 0)"
    "PinThread s (Some msk) = PinThread t (Some msk)" for s t
  proof -
    have "cpus msk 0 ! unat s = cpus msk 0 ! unat t"
      using that by (intro inj small) (simp_all add: PinThread_cpu)
    then show ?thesis using that dist by (simp add: nth_eq_iff_index_eq word_unat_eq_iff)
  qed
  then show ?thesis using small by (simp add: len PinThread_cpu)
qed

lemma PinThread_pins_example:
  "PinThread 0 (Some (replicate CPU_SETSIZE True)) \<noteq> PinThread 1 (Some (replicate CPU_SETSIZE True))"
proof -
  have "length (filter (\<lambda>b. b) (replicate CPU_SETSIZE True)) = 1024" by (simp add: CPU_SETSIZE_def filter_replicate)
  moreover have "length (replicate CPU_SETSIZE True) = CPU_SETSIZE" by simp
  note P = PinThread_pins [OF this]
  ultimately show ?thesis using conjunct2 [OF conjunct2 [OF P], rule_format, of 0 1] by auto
qed

section \<open>The stack\<close>

text \<open>
  \<open>StackBase\<close>: \<open>attr\<close> is what \<open>pthread_attr_getstack\<close> yields for the thread's stack (lowest address and
  size), if it works; otherwise the base is the address of a local variable and the size stays 0.
\<close>

record stack_base =
  base :: u64
  stack_size :: u64

definition StackBase :: "(u64 \<times> u64) option \<Rightarrow> u64 \<Rightarrow> stack_base" where
  "StackBase attr anchor =
     (let (stack_limit, sz) = (case attr of None \<Rightarrow> (0, 0) | Some a \<Rightarrow> a)
      in if stack_limit \<noteq> 0 then \<lparr>base = stack_limit + sz, stack_size = sz\<rparr>
         else \<lparr>base = anchor, stack_size = sz\<rparr>)"

text \<open>\<open>None\<close> where an assertion fails.\<close>

definition calculate_stack_half :: "stack_base \<Rightarrow> u64 option" where
  "calculate_stack_half sb =
     (if stack_size sb = 0 then None
      else if base sb > stack_size sb div 2 then Some (base sb - stack_size sb div 2) else None)"

definition is_stack_half_full :: "stack_base \<Rightarrow> u64 \<Rightarrow> bool option" where
  "is_stack_half_full sb anchor = map_option (\<lambda>stack_half. anchor < stack_half) (calculate_stack_half sb)"

text \<open>On a stack that does not wrap around, it says whether more than half of the bytes are in use.\<close>

lemma is_stack_half_full_used:
  assumes "limit \<noteq> 0" "0 < sz" "unat limit + unat sz < 2 ^ 64" "limit \<le> anchor" "anchor < limit + sz"
  shows "is_stack_half_full (StackBase (Some (limit, sz)) here) anchor
    = Some (unat sz div 2 < unat (limit + sz) - unat anchor)"
proof -
  have b: "unat (limit + sz) = unat limit + unat sz" using assms(3) by (rule u64_add)
  have h: "unat (sz div 2) = unat sz div 2" by (simp add: unat_div)
  have "unat (limit + sz) > unat sz div 2" using assms(1,2) b by (simp add: word_less_nat_alt) 
  then have gt: "limit + sz > sz div 2" using h by (simp add: word_less_nat_alt)
  then have "unat (limit + sz - sz div 2) = unat limit + unat sz - unat sz div 2"
    using u64_sub [of "sz div 2" "limit + sz"] b h by simp
  then have "anchor < limit + sz - sz div 2 \<longleftrightarrow> unat sz div 2 < unat (limit + sz) - unat anchor"
    using b assms(5) by (simp add: word_less_nat_alt) linarith
  moreover have "sz \<noteq> 0" using assms(2) by auto
  ultimately show ?thesis
    using assms(1) gt by (simp add: is_stack_half_full_def calculate_stack_half_def StackBase_def)
qed

end
