(* ===== verification/Decimal.thy ===== *)
theory Decimal
  imports Prelude "HOL-Library.Char_ord"
begin

text \<open>
  Numbers as \<open>std::ostream\<close> prints them, in decimal, and the literals and separators around them: what is
  printed can be read back, since no separator begins with a digit.
\<close>

section \<open>Printing a number\<close>

definition digits :: string where
  "digits = ''0123456789''"

fun dec :: "nat \<Rightarrow> string" where
  "dec n = (if n < 10 then [digits ! n] else dec (n div 10) @ [digits ! (n mod 10)])"

declare dec.simps [simp del]

definition is_digit :: "char \<Rightarrow> bool" where
  "is_digit c \<longleftrightarrow> c \<in> set digits"

definition digit_value :: "char \<Rightarrow> nat" where
  "digit_value c = length (takeWhile (\<lambda>d. d \<noteq> c) digits)"

definition undec :: "string \<Rightarrow> nat" where
  "undec s = foldl (\<lambda>n c. 10 * n + digit_value c) 0 s"

lemma less_ten: "n < (10 :: nat) \<Longrightarrow> n = 0 \<or> n = 1 \<or> n = 2 \<or> n = 3 \<or> n = 4 \<or> n = 5 \<or> n = 6 \<or> n = 7 \<or> n = 8 \<or> n = 9"
  by arith

lemma digit_value_nth: "n < 10 \<Longrightarrow> digit_value (digits ! n) = n"
  by (drule less_ten, elim disjE) (simp_all add: digit_value_def digits_def)

lemma digits_nth_mem: "n < 10 \<Longrightarrow> is_digit (digits ! n)"
  unfolding is_digit_def by (intro nth_mem) (simp add: digits_def)

lemma dec_digits: "c \<in> set (dec n) \<Longrightarrow> is_digit c"
proof (induction n rule: dec.induct)
  case (1 n)
  then show ?case by (cases "n < 10") (auto simp: dec.simps [of n] digits_nth_mem)
qed

lemma undec_dec [simp]: "undec (dec n) = n"
proof (induction n rule: dec.induct)
  case (1 n)
  then show ?case by (cases "n < 10") (simp_all add: dec.simps [of n] undec_def digit_value_nth)
qed

section \<open>Reading it back\<close>

lemma dec_ends:
  assumes "\<not> is_digit c"
  shows "takeWhile is_digit (dec n @ c # xs) = dec n" "dropWhile is_digit (dec n @ c # xs) = c # xs"
  using assms dec_digits by (simp_all add: takeWhile_append dropWhile_append)

lemma dec_inject:
  assumes "\<not> is_digit c" "\<not> is_digit d"
  shows "dec m @ c # xs = dec n @ d # ys \<longleftrightarrow> m = n \<and> c = d \<and> xs = ys"
proof
  assume eq: "dec m @ c # xs = dec n @ d # ys"
  then have "dec m = dec n" using dec_ends(1) [OF assms(1)] dec_ends(1) [OF assms(2)] by metis
  then have "m = n" by (metis undec_dec)
  with eq show "m = n \<and> c = d \<and> xs = ys" by simp
qed simp

lemma not_digits [simp]:
  "\<not> is_digit CHR ''\"''" "\<not> is_digit CHR '',''" "\<not> is_digit CHR ''}''"
  by (simp_all add: is_digit_def digits_def)

lemma dec_eq [simp]: "dec m = dec n \<longleftrightarrow> m = n"
  by (metis undec_dec)

lemmas read_back = dec_inject [OF not_digits(1) not_digits(1)] dec_inject [OF not_digits(2) not_digits(2)]
  dec_inject [OF not_digits(3) not_digits(3)] dec_inject [OF not_digits(2) not_digits(3)]
  dec_inject [OF not_digits(3) not_digits(2)]

lemma read_quoted:
  assumes "q \<notin> set u" "q \<notin> set v"
  shows "u @ q # xs = v @ q # ys \<longleftrightarrow> u = v \<and> xs = ys"
proof -
  have "takeWhile (\<lambda>c. c \<noteq> q) (w @ q # zs) = w" if "q \<notin> set w" for w zs
    using that by (induction w) auto
  then show ?thesis by (metis append_same_eq assms list.inject same_append_eq)
qed

end
