(* ===== verification/Json.thy ===== *)
theory Json
  imports Decimal
begin

text \<open>
  JSON documents (the grammar of RFC 8259, with integers as the only numbers and strings without escapes):
  \<open>is_json v s\<close> says that the text \<open>s\<close> denotes the value \<open>v\<close>.  The programs' traces and counters are
  printed by hand-written chains of \<open><<\<close>; their properties say which value each text denotes.
\<close>

section \<open>Values and texts\<close>

datatype json =
    Num int
  | Str string
  | Arr "json list"
  | Obj "(string \<times> json) list"

definition dec_int :: "int \<Rightarrow> string" where
  "dec_int i = (if i < 0 then CHR ''-'' # dec (nat (- i)) else dec (nat i))"

definition blank :: "string \<Rightarrow> bool" where
  "blank w \<longleftrightarrow> set w \<subseteq> {CHR '' '', CHR 0x09, CHR 0x0A, CHR 0x0D}"

text \<open>Characters a string can contain as they are.\<close>

definition plain :: "string \<Rightarrow> bool" where
  "plain s \<longleftrightarrow> (\<forall>c \<in> set s. c \<noteq> CHR ''\"'' \<and> c \<noteq> CHR 0x5C \<and> 0x20 \<le> (of_char c :: nat))"

text \<open>The elements of an array and the members of an object are texts separated by commas.\<close>

inductive is_json :: "json \<Rightarrow> string \<Rightarrow> bool"
  and elements :: "json list \<Rightarrow> string \<Rightarrow> bool"
  and members :: "(string \<times> json) list \<Rightarrow> string \<Rightarrow> bool"
where
  number: "is_json (Num i) (dec_int i)"
| quoted: "plain s \<Longrightarrow> is_json (Str s) (''\"'' @ s @ ''\"'')"
| arr_empty: "blank w \<Longrightarrow> is_json (Arr []) (''['' @ w @ '']'')"
| arr: "elements vs s \<Longrightarrow> is_json (Arr vs) (''['' @ s @ '']'')"
| obj_empty: "blank w \<Longrightarrow> is_json (Obj []) (''{'' @ w @ ''}'')"
| obj: "members ms s \<Longrightarrow> is_json (Obj ms) (''{'' @ s @ ''}'')"
| spaced: "is_json v s \<Longrightarrow> blank a \<Longrightarrow> blank b \<Longrightarrow> is_json v (a @ s @ b)"
| one_element: "is_json v s \<Longrightarrow> elements [v] s"
| more_elements: "is_json v s \<Longrightarrow> elements vs t \<Longrightarrow> elements (v # vs) (s @ '','' @ t)"
| one_member: "plain k \<Longrightarrow> blank a \<Longrightarrow> blank b \<Longrightarrow> is_json v s \<Longrightarrow> members [(k, v)] (a @ ''\"'' @ k @ ''\"'' @ b @ '':'' @ s)"
| more_members: "members [m] s \<Longrightarrow> members ms t \<Longrightarrow> members (m # ms) (s @ '','' @ t)"

section \<open>Building texts\<close>

lemma blank_simps [simp]:
  "blank []"
  "blank (c # w) \<longleftrightarrow> c \<in> {CHR '' '', CHR 0x09, CHR 0x0A, CHR 0x0D} \<and> blank w"
  "blank (v @ w) \<longleftrightarrow> blank v \<and> blank w"
  by (auto simp: blank_def)

lemma dec_int_nat [simp]: "dec_int (int n) = dec n"
  by (simp add: dec_int_def)

lemma dec_plain: "plain (dec n)"
proof -
  have "\<forall>c \<in> set digits. c \<noteq> CHR ''\"'' \<and> c \<noteq> CHR 0x5C \<and> 0x20 \<le> (of_char c :: nat)"
    by (simp add: digits_def)
  then show ?thesis using dec_digits by (auto simp: plain_def is_digit_def)
qed

lemma dec_int_plain [simp]: "plain (dec_int i)"
  using dec_plain by (auto simp: dec_int_def plain_def)

lemma plain_simps [simp]:
  "plain []"
  "plain (c # s) \<longleftrightarrow> c \<noteq> CHR ''\"'' \<and> c \<noteq> CHR 0x5C \<and> 0x20 \<le> (of_char c :: nat) \<and> plain s"
  "plain (s @ t) \<longleftrightarrow> plain s \<and> plain t"
  by (auto simp: plain_def)

lemma number_nat: "is_json (Num (int n)) (dec n)"
  using number [of "int n"] by simp

lemma leading: "is_json v s \<Longrightarrow> blank a \<Longrightarrow> is_json v (a @ s)"
  using spaced [of v s a "[]"] by simp

lemma trailing: "is_json v s \<Longrightarrow> blank b \<Longrightarrow> is_json v (s @ b)"
  using spaced [of v s "[]" b] by simp

lemma elements_trailing: "elements vs s \<Longrightarrow> blank b \<Longrightarrow> elements vs (s @ b)"
proof (induction vs s rule: is_json_elements_members.inducts(2) [where ?P1.0 = "\<lambda>_ _. True" and ?P3.0 = "\<lambda>_ _. True"])
  case (one_element v s)
  then show ?case by (intro is_json_elements_members.one_element trailing)
next
  case (more_elements v s vs t)
  then show ?case using is_json_elements_members.more_elements [of v s vs "t @ b"] by simp
qed simp_all

lemma members_trailing: "members ms s \<Longrightarrow> blank b \<Longrightarrow> members ms (s @ b)"
proof (induction ms s rule: is_json_elements_members.inducts(3) [where ?P1.0 = "\<lambda>_ _. True" and ?P2.0 = "\<lambda>_ _. True"])
  case (one_member k c d v s)
  then show ?case using is_json_elements_members.one_member [of k c d v "s @ b"] trailing by simp
next
  case (more_members m s ms t)
  then show ?case using is_json_elements_members.more_members [of m s ms "t @ b"] by simp
qed simp_all

lemma elements_leading: "elements vs s \<Longrightarrow> blank a \<Longrightarrow> elements vs (a @ s)"
proof (induction vs s rule: is_json_elements_members.inducts(2) [where ?P1.0 = "\<lambda>_ _. True" and ?P3.0 = "\<lambda>_ _. True"])
  case (one_element v s)
  then show ?case by (intro is_json_elements_members.one_element leading)
next
  case (more_elements v s vs t)
  then show ?case using is_json_elements_members.more_elements [of v "a @ s" vs t] leading by simp
qed simp_all

lemma members_leading: "members ms s \<Longrightarrow> blank w \<Longrightarrow> members ms (w @ s)"
proof (induction ms s rule: is_json_elements_members.inducts(3) [where ?P1.0 = "\<lambda>_ _. True" and ?P2.0 = "\<lambda>_ _. True"])
  case (one_member k a b v s)
  then show ?case using is_json_elements_members.one_member [of k "w @ a" b v s] by simp
next
  case (more_members m s ms t)
  then show ?case using is_json_elements_members.more_members [of m "w @ s" ms t] by simp
qed simp_all

lemma member: "plain k \<Longrightarrow> is_json v s \<Longrightarrow> members [(k, v)] (''\"'' @ k @ ''\":'' @ s)"
  using one_member [of k "[]" "[]" v s] by simp

lemma number_member: "plain k \<Longrightarrow> members [(k, Num (uint w))] (''\"'' @ k @ ''\":'' @ dec (unat w))"
  using member [OF _ number_nat [of "unat w"]] by simp

lemma members_snoc: "members ms s \<Longrightarrow> members [m] t \<Longrightarrow> members (ms @ [m]) (s @ '','' @ t)"
proof (induction ms s rule: is_json_elements_members.inducts(3) [where ?P1.0 = "\<lambda>_ _. True" and ?P2.0 = "\<lambda>_ _. True"])
  case (one_member k a b v s)
  then show ?case
    using is_json_elements_members.more_members [OF is_json_elements_members.one_member, of k a b v s "[m]" t] by simp
next
  case (more_members n s ms u)
  then show ?case using is_json_elements_members.more_members [of n s "ms @ [m]" "u @ '','' @ t"] by simp
qed simp_all

text \<open>The loops print every element or member with a comma behind it, but the last one.\<close>

lemma elements_loop:
  assumes "xs \<noteq> []" "\<And>x. x \<in> set xs \<Longrightarrow> is_json (val x) (pr x)"
    "\<And>i. i < length xs \<Longrightarrow> f i = pr (xs ! i) @ (if Suc i = length xs then e else '','' @ c)" "blank c" "blank e"
  shows "elements (map val xs) (concat (map f [0..<length xs]))"
  using assms(1-3)
proof (induction xs arbitrary: f rule: list_nonempty_induct)
  case (single x)
  then have "f 0 = pr x @ e" by simp
  then show ?case using single by (simp add: one_element trailing assms(5))
next
  case (cons x xs)
  have "elements (map val xs) (concat (map (\<lambda>i. f (Suc i)) [0..<length xs]))"
    by (rule cons.IH) (use cons.prems in simp_all)
  then have "elements (map val xs) (c @ concat (map (\<lambda>i. f (Suc i)) [0..<length xs]))"
    by (rule elements_leading) (rule assms(4))
  then have "elements (val x # map val xs) (pr x @ '','' @ c @ concat (map (\<lambda>i. f (Suc i)) [0..<length xs]))"
    using cons.prems(1) by (intro more_elements) simp
  moreover have "f 0 = pr x @ '','' @ c" using cons.prems(2) [of 0] cons.hyps by simp
  ultimately show ?case by (simp add: map_upt_Suc del: upt_Suc)
qed

lemma members_loop:
  assumes "xs \<noteq> []" "\<And>x. x \<in> set xs \<Longrightarrow> members [val x] (pr x)"
    "\<And>i. i < length xs \<Longrightarrow> f i = pr (xs ! i) @ (if Suc i = length xs then e else '','' @ c)" "blank c" "blank e"
  shows "members (map val xs) (concat (map f [0..<length xs]))"
  using assms(1-3)
proof (induction xs arbitrary: f rule: list_nonempty_induct)
  case (single x)
  then have "f 0 = pr x @ e" by simp
  then show ?case using single by (simp add: members_trailing assms(5))
next
  case (cons x xs)
  have "members (map val xs) (concat (map (\<lambda>i. f (Suc i)) [0..<length xs]))"
    by (rule cons.IH) (use cons.prems in simp_all)
  then have "members (map val xs) (c @ concat (map (\<lambda>i. f (Suc i)) [0..<length xs]))"
    by (rule members_leading) (rule assms(4))
  then have "members (val x # map val xs) (pr x @ '','' @ c @ concat (map (\<lambda>i. f (Suc i)) [0..<length xs]))"
    using cons.prems(1) by (intro more_members) simp
  moreover have "f 0 = pr x @ '','' @ c" using cons.prems(2) [of 0] cons.hyps by simp
  ultimately show ?case by (simp add: map_upt_Suc del: upt_Suc)
qed

end
