(* ===== verification/Tracing.thy ===== *)
theory Tracing
  imports Json
begin

text \<open>
  The counters of src/include/tracing.h: each thread counts its own events in a \<open>Metrics\<close> object that the
  storage allocates when the thread first needs it, and \<open>flush\<close> writes the sum.  Also the bounded queue of
  traces.  Threads' events are taken one after another.
\<close>

section \<open>Traces\<close>

record Trace =
  root :: u64
  task :: u64
  event :: string
  orig_thread_id :: u32
  trgt_thread_id :: u32

text \<open>A trace is printed as a JSON object, without the fields that have their default value.\<close>

definition print_field :: "string \<Rightarrow> nat \<Rightarrow> string" where
  "print_field name v = (if v \<noteq> 0 then '',\"'' @ name @ ''\":'' @ dec v else [])"

definition print_trace :: "Trace \<Rightarrow> string" where
  "print_trace t = ''{\"root\":'' @ dec (unat (root t))
     @ (if event t \<noteq> [] then '',\"event\":\"'' @ event t @ ''\"'' else [])
     @ print_field ''task'' (unat (task t))
     @ print_field ''orig_thread_id'' (unat (orig_thread_id t))
     @ print_field ''trgt_thread_id'' (unat (trgt_thread_id t)) @ ''}''"

definition field_json :: "string \<Rightarrow> nat \<Rightarrow> (string \<times> json) list" where
  "field_json name v = (if v \<noteq> 0 then [(name, Num (int v))] else [])"

definition trace_json :: "Trace \<Rightarrow> json" where
  "trace_json t = Obj ([(''root'', Num (uint (root t)))]
     @ (if event t \<noteq> [] then [(''event'', Str (event t))] else [])
     @ field_json ''task'' (unat (task t))
     @ field_json ''orig_thread_id'' (unat (orig_thread_id t))
     @ field_json ''trgt_thread_id'' (unat (trgt_thread_id t)))"

lemma print_field_json:
  assumes "members ms s" "plain name"
  shows "members (ms @ field_json name v) (s @ print_field name v)"
  using members_snoc [OF assms(1) member [OF assms(2) number_nat [of v]]]
  by (simp add: field_json_def print_field_def assms(1))

lemma print_trace_json:
  assumes "plain (event t)"
  shows "is_json (trace_json t) (print_trace t)"
proof -
  define e where "e = (if event t \<noteq> [] then '',\"event\":\"'' @ event t @ ''\"'' else [])"
  define m where "m = (if event t \<noteq> [] then [(''event'', Str (event t))] else [])"
  have start: "members [(''root'', Num (uint (root t)))] (''\"root\":'' @ dec (unat (root t)))"
    using number_member [of "''root''" "root t"] by simp
  have ev: "members [(''event'', Str (event t))] (''\"event\":\"'' @ event t @ ''\"'')"
    using member [OF _ quoted [OF assms], of "''event''"] by simp
  have first: "members ([(''root'', Num (uint (root t)))] @ m) ((''\"root\":'' @ dec (unat (root t))) @ e)"
    using members_snoc [OF start ev] start by (cases "event t = []") (simp_all add: e_def m_def)
  from obj [OF print_field_json [OF print_field_json [OF print_field_json [OF first]]],
      of "''task''" "''orig_thread_id''" "''trgt_thread_id''" "unat (task t)" "unat (orig_thread_id t)" "unat (trgt_thread_id t)"]
  show ?thesis by (simp add: trace_json_def print_trace_def e_def m_def)
qed

text \<open>A queue, with what it has written to its file.\<close>

record trace_queue =
  traces :: "Trace list"
  thread_id :: u32
  out_file :: string

definition new_Queue :: trace_queue where
  "new_Queue = \<lparr>traces = [], thread_id = 0, out_file = []\<rparr>"

definition push_trace :: "Trace \<Rightarrow> trace_queue \<Rightarrow> trace_queue" where
  "push_trace t q = (if length (traces q) < 10000 then q\<lparr>traces := traces q @ [t]\<rparr> else q)"

definition print_line :: "u32 \<Rightarrow> Trace \<Rightarrow> string" where
  "print_line n t = ''{\"trace\":'' @ print_trace t @ '',\"thread_id\":'' @ dec (unat n) @ ''}'' @ [CHR 0x0A]"

lemma print_line_json:
  assumes "plain (event t)"
  shows "is_json (Obj [(''trace'', trace_json t), (''thread_id'', Num (uint n))]) (print_line n t)"
  using trailing [OF obj [OF more_members [OF member [OF _ print_trace_json [OF assms]] number_member]],
    of "''trace''" "''thread_id''" "[CHR 0x0A]" n]
  by (simp add: print_line_def)

definition flush_queue :: "trace_queue \<Rightarrow> trace_queue" where
  "flush_queue q =
     (let q = fold (\<lambda>t q. q\<lparr>out_file := out_file q @ print_line (thread_id q) t\<rparr>) (traces q) q in q\<lparr>traces := []\<rparr>)"

lemma flush_queue_writes:
  "flush_queue q = q\<lparr>out_file := out_file q @ concat (map (print_line (thread_id q)) (traces q)), traces := []\<rparr>"
proof -
  have "fold (\<lambda>t q. q\<lparr>out_file := out_file q @ print_line (thread_id q) t\<rparr>) ts q
      = q\<lparr>out_file := out_file q @ concat (map (print_line (thread_id q)) ts)\<rparr>" for ts
    by (induction ts arbitrary: q) simp_all
  then show ?thesis by (simp add: flush_queue_def)
qed

text \<open>What a queue writes is the first ten thousand traces pushed since the last flush.\<close>

lemma pushed_then_flushed:
  "traces q = [] \<Longrightarrow> out_file (flush_queue (fold push_trace ts q))
      = out_file q @ concat (map (print_line (thread_id q)) (take 10000 ts))
    \<and> traces (flush_queue (fold push_trace ts q)) = []"
proof -
  have "length (traces q) \<le> 10000 \<Longrightarrow> fold push_trace ts q = q\<lparr>traces := traces q @ take (10000 - length (traces q)) ts\<rparr>"
    for q :: trace_queue
  proof (induction ts arbitrary: q)
    case (Cons t ts)
    show ?case
    proof (cases "length (traces q) < 10000")
      case True
      then obtain k where "10000 - length (traces q) = Suc k" by (metis Suc_diff_Suc)
      moreover from this have "10000 - Suc (length (traces q)) = k" by simp
      ultimately show ?thesis using True Cons.IH [of "push_trace t q"] by (simp add: push_trace_def)
    next
      case False
      then have "length (traces q) = 10000" using Cons.prems by simp
      then show ?thesis using Cons.IH [of q] by (simp add: push_trace_def)
    qed
  qed simp
  from this [of q] show "traces q = [] \<Longrightarrow> ?thesis" by (simp add: flush_queue_writes)
qed

section \<open>Metrics\<close>

record Metrics =
  par_fors :: u64
  cur_par_fors :: u64
  max_par_fors :: u64
  tasks_created :: u64
  tasks_stolen :: u64
  tasks_shared :: u64
  tasks_undivided :: u64

definition new_Metrics :: Metrics where
  "new_Metrics = \<lparr>par_fors = 0, cur_par_fors = 0, max_par_fors = 0, tasks_created = 0, tasks_stolen = 0,
     tasks_shared = 0, tasks_undivided = 0\<rparr>"

definition start_par_for :: "Metrics \<Rightarrow> Metrics" where
  "start_par_for m =
     (let m = m\<lparr>par_fors := par_fors m + 1\<rparr>;
          m = m\<lparr>cur_par_fors := cur_par_fors m + 1\<rparr>
      in m\<lparr>max_par_fors := max (max_par_fors m) (cur_par_fors m)\<rparr>)"

definition end_par_for :: "Metrics \<Rightarrow> Metrics" where
  "end_par_for m = m\<lparr>cur_par_fors := cur_par_fors m - 1\<rparr>"

definition add_Metrics :: "Metrics \<Rightarrow> Metrics \<Rightarrow> Metrics" where
  "add_Metrics m rhs = \<lparr>par_fors = par_fors m + par_fors rhs, cur_par_fors = cur_par_fors m + cur_par_fors rhs,
     max_par_fors = max_par_fors m + max_par_fors rhs, tasks_created = tasks_created m + tasks_created rhs,
     tasks_stolen = tasks_stolen m + tasks_stolen rhs, tasks_shared = tasks_shared m + tasks_shared rhs,
     tasks_undivided = tasks_undivided m + tasks_undivided rhs\<rparr>"

definition print_metrics :: "Metrics \<Rightarrow> string" where
  "print_metrics m = ''{\"par_fors\":'' @ dec (unat (par_fors m))
     @ '',\"max_par_fors\":'' @ dec (unat (max_par_fors m))
     @ '',\"tasks_created\":'' @ dec (unat (tasks_created m))
     @ '',\"tasks_stolen\":'' @ dec (unat (tasks_stolen m))
     @ '',\"tasks_shared\":'' @ dec (unat (tasks_shared m))
     @ '',\"tasks_undivided\":'' @ dec (unat (tasks_undivided m)) @ ''}''"

definition metrics_json :: "Metrics \<Rightarrow> json" where
  "metrics_json m = Obj [(''par_fors'', Num (uint (par_fors m))), (''max_par_fors'', Num (uint (max_par_fors m))),
     (''tasks_created'', Num (uint (tasks_created m))), (''tasks_stolen'', Num (uint (tasks_stolen m))),
     (''tasks_shared'', Num (uint (tasks_shared m))), (''tasks_undivided'', Num (uint (tasks_undivided m)))]"

lemma print_metrics_json: "is_json (metrics_json m) (print_metrics m)"
  unfolding metrics_json_def
  using obj [OF more_members [OF number_member [of "''par_fors''"]
    more_members [OF number_member [of "''max_par_fors''"] more_members [OF number_member [of "''tasks_created''"]
    more_members [OF number_member [of "''tasks_stolen''"] more_members [OF number_member [of "''tasks_shared''"]
    number_member [of "''tasks_undivided''"]]]]]],
    of "par_fors m" "max_par_fors m" "tasks_created m" "tasks_stolen m" "tasks_shared m" "tasks_undivided m"]
  by (simp add: print_metrics_def)

text \<open>The functions the scheduler calls; \<open>TaskScheduled\<close> and \<open>TaskEnded\<close> do nothing.\<close>

datatype event =
    ParForStart
  | ParForEnd
  | ParDoStart
  | ParDoEnd
  | TaskScheduled
  | TaskStarted
  | TaskEnded
  | TaskShared
  | TaskStolen
  | TaskUndivided

definition counts :: "event \<Rightarrow> bool" where
  "counts e \<longleftrightarrow> e \<notin> {TaskScheduled, TaskEnded}"

fun on_event :: "event \<Rightarrow> Metrics \<Rightarrow> Metrics" where
  "on_event ParForStart m = start_par_for m"
| "on_event ParForEnd m = end_par_for m"
| "on_event ParDoStart m = start_par_for m"
| "on_event ParDoEnd m = end_par_for m"
| "on_event TaskScheduled m = m"
| "on_event TaskStarted m = m\<lparr>tasks_created := tasks_created m + 1\<rparr>"
| "on_event TaskEnded m = m"
| "on_event TaskShared m = m\<lparr>tasks_shared := tasks_shared m + 1\<rparr>"
| "on_event TaskStolen m = m\<lparr>tasks_stolen := tasks_stolen m + 1\<rparr>"
| "on_event TaskUndivided m = m\<lparr>tasks_undivided := tasks_undivided m + 1\<rparr>"

text \<open>The storage: the allocated objects, and the one each thread uses, if it has one.\<close>

record trace_storage =
  queues :: "trace_queue list"
  metrics :: "Metrics list"
  of_thread :: "nat \<Rightarrow> nat option"

definition allocate_metrics :: "trace_storage \<Rightarrow> nat \<times> trace_storage" where
  "allocate_metrics st = (length (metrics st), st\<lparr>metrics := metrics st @ [new_Metrics]\<rparr>)"

definition allocate_queue :: "trace_storage \<Rightarrow> nat \<times> trace_storage" where
  "allocate_queue st = (length (queues st), st\<lparr>queues := queues st @ [new_Queue]\<rparr>)"

definition this_thread :: "nat \<Rightarrow> trace_storage \<Rightarrow> nat \<times> trace_storage" where
  "this_thread t st =
     (case of_thread st t of
        Some i \<Rightarrow> (i, st)
      | None \<Rightarrow> (let (i, st) = allocate_metrics st in (i, st\<lparr>of_thread := (of_thread st)(t \<mapsto> i)\<rparr>)))"

definition record_event :: "nat \<times> event \<Rightarrow> trace_storage \<Rightarrow> trace_storage" where
  "record_event te st =
     (let (t, e) = te
      in if counts e then
           let (i, st) = this_thread t st in st\<lparr>metrics := (metrics st)[i := on_event e (metrics st ! i)]\<rparr>
         else st)"

definition total_metrics :: "trace_storage \<Rightarrow> Metrics" where
  "total_metrics st = fold (\<lambda>m total. add_Metrics total m) (metrics st) new_Metrics"

text \<open>\<open>flush\<close>: the queues, and the text of the file metrics.json.\<close>

definition flush_storage :: "trace_storage \<Rightarrow> string \<times> trace_storage" where
  "flush_storage st =
     (let st = st\<lparr>queues := map flush_queue (queues st)\<rparr> in (print_metrics (total_metrics st) @ [CHR 0x0A], st))"

definition new_storage :: trace_storage where
  "new_storage = \<lparr>queues = [], metrics = [], of_thread = (\<lambda>_. None)\<rparr>"

section \<open>Each thread's counters, and their sum\<close>

text \<open>The events of one thread, in order, and the threads that have counted some.\<close>

definition events_of :: "nat \<Rightarrow> (nat \<times> event) list \<Rightarrow> event list" where
  "events_of t tes = map snd (filter (\<lambda>(u, e). u = t \<and> counts e) tes)"

definition storage_ok :: "(nat \<times> event) list \<Rightarrow> nat list \<Rightarrow> trace_storage \<Rightarrow> bool" where
  "storage_ok tes ts st \<longleftrightarrow> distinct ts \<and> set ts = {t. events_of t tes \<noteq> []} \<and>
     metrics st = map (\<lambda>t. fold on_event (events_of t tes) new_Metrics) ts \<and>
     (\<forall>t i. of_thread st t = Some i \<longleftrightarrow> i < length ts \<and> ts ! i = t)"

lemma events_of_snoc:
  "events_of t (tes @ [(u, e)]) = events_of t tes @ (if u = t \<and> counts e then [e] else [])"
  by (simp add: events_of_def)

lemma record_event_ok:
  assumes ok: "storage_ok tes ts st"
  shows "\<exists>ts'. storage_ok (tes @ [(t, e)]) ts' (record_event (t, e) st)"
proof (cases "counts e")
  case False
  then have "events_of u (tes @ [(t, e)]) = events_of u tes" for u by (simp add: events_of_snoc)
  then show ?thesis using ok False by (intro exI [of _ ts]) (simp add: storage_ok_def record_event_def)
next
  case True
  have ts: "distinct ts" "set ts = {t. events_of t tes \<noteq> []}"
    and ms: "metrics st = map (\<lambda>t. fold on_event (events_of t tes) new_Metrics) ts"
    and own: "\<And>t i. of_thread st t = Some i \<longleftrightarrow> i < length ts \<and> ts ! i = t"
    using ok by (simp_all add: storage_ok_def)
  show ?thesis
  proof (cases "of_thread st t")
    case (Some i)
    then have i: "i < length ts" "ts ! i = t" using own by simp_all
    have rec: "record_event (t, e) st = st\<lparr>metrics := (metrics st)[i := on_event e (metrics st ! i)]\<rparr>"
      using Some True by (simp add: record_event_def this_thread_def)
    have "(metrics st)[i := on_event e (metrics st ! i)]
        = map (\<lambda>u. fold on_event (events_of u (tes @ [(t, e)])) new_Metrics) ts"
      using i ts(1) True by (intro nth_equalityI) (auto simp: ms nth_list_update events_of_snoc nth_eq_iff_index_eq)
    moreover have "t \<in> set ts" using i by auto
    then have "set ts = {u. events_of u (tes @ [(t, e)]) \<noteq> []}" using ts(2) by (auto simp: events_of_snoc)
    ultimately show ?thesis
      using ts(1) own by (intro exI [of _ ts]) (simp add: storage_ok_def rec)
  next
    case None
    have new: "t \<notin> set ts" using own [of t] None by (auto simp: in_set_conv_nth)
    then have no: "events_of t tes = []" using ts(2) by blast
    have "metrics (record_event (t, e) st) = map (\<lambda>u. fold on_event (events_of u (tes @ [(t, e)])) new_Metrics) (ts @ [t])"
      using None True no new
      by (auto simp: record_event_def this_thread_def allocate_metrics_def Let_def ms events_of_snoc list_update_append nth_append)
    moreover have "of_thread (record_event (t, e) st) = (of_thread st)(t \<mapsto> length ts)"
      using None True by (simp add: record_event_def this_thread_def allocate_metrics_def Let_def ms)
    moreover have "set (ts @ [t]) = {u. events_of u (tes @ [(t, e)]) \<noteq> []}"
      using ts(2) True by (auto simp: events_of_snoc)
    ultimately show ?thesis
      using ts(1) new own
      by (intro exI [of _ "ts @ [t]"]) (auto simp: storage_ok_def nth_append less_Suc_eq in_set_conv_nth)
  qed
qed

lemma storage_ok_all: "\<exists>ts. storage_ok tes ts (fold record_event tes new_storage)"
proof (induction tes rule: rev_induct)
  case Nil
  show ?case by (intro exI [of _ "[]"]) (simp add: storage_ok_def new_storage_def events_of_def)
next
  case (snoc te tes)
  then obtain ts where "storage_ok tes ts (fold record_event tes new_storage)" by blast
  from record_event_ok [OF this, of "fst te" "snd te"] show ?case by simp
qed

text \<open>Fields that only count.\<close>

definition started :: "event \<Rightarrow> bool" where
  "started e \<longleftrightarrow> e \<in> {ParForStart, ParDoStart}"

definition ended :: "event \<Rightarrow> bool" where
  "ended e \<longleftrightarrow> e \<in> {ParForEnd, ParDoEnd}"

definition number :: "(event \<Rightarrow> bool) \<Rightarrow> event list \<Rightarrow> u64" where
  "number P es = of_nat (length (filter P es))"

lemma on_event_fields:
  "par_fors (fold on_event es m) = par_fors m + number started es"
  "cur_par_fors (fold on_event es m) = cur_par_fors m + number started es - number ended es"
  "tasks_created (fold on_event es m) = tasks_created m + number ((=) TaskStarted) es"
  "tasks_stolen (fold on_event es m) = tasks_stolen m + number ((=) TaskStolen) es"
  "tasks_shared (fold on_event es m) = tasks_shared m + number ((=) TaskShared) es"
  "tasks_undivided (fold on_event es m) = tasks_undivided m + number ((=) TaskUndivided) es"
proof (induction es arbitrary: m)
  case (Cons e es)
  {
    case 1
    then show ?case using Cons.IH(1) by (cases e) (simp_all add: number_def started_def start_par_for_def end_par_for_def Let_def)
  next
    case 2
    then show ?case using Cons.IH(2) by (cases e) (simp_all add: number_def started_def ended_def start_par_for_def end_par_for_def Let_def)
  next
    case 3
    then show ?case using Cons.IH(3) by (cases e) (simp_all add: number_def start_par_for_def end_par_for_def Let_def)
  next
    case 4
    then show ?case using Cons.IH(4) by (cases e) (simp_all add: number_def start_par_for_def end_par_for_def Let_def)
  next
    case 5
    then show ?case using Cons.IH(5) by (cases e) (simp_all add: number_def start_par_for_def end_par_for_def Let_def)
  next
    case 6
    then show ?case using Cons.IH(6) by (cases e) (simp_all add: number_def start_par_for_def end_par_for_def Let_def)
  }
qed (simp_all add: number_def)

lemma fold_add_field:
  assumes "\<And>m n. f (add_Metrics m n) = f m + f n"
  shows "f (fold (\<lambda>m total. add_Metrics total m) ms m0) = f m0 + (\<Sum>m \<leftarrow> ms. f m)"
  by (induction ms arbitrary: m0) (simp_all add: assms add.assoc)

text \<open>Splitting the counted events by thread.\<close>

lemma sum_list_of_nat: "(\<Sum>x \<leftarrow> xs. of_nat (f x)) = (of_nat (\<Sum>x \<leftarrow> xs. f x) :: u64)"
  by (induction xs) simp_all

lemma number_by_thread_nat:
  assumes "distinct ts" "{t. events_of t tes \<noteq> []} \<subseteq> set ts" "\<And>e. P e \<Longrightarrow> counts e"
  shows "(\<Sum>t \<leftarrow> ts. length (filter P (events_of t tes))) = length (filter P (map snd tes))"
  using assms(2)
proof (induction tes)
  case Nil
  then show ?case by (simp add: events_of_def)
next
  case (Cons te tes)
  obtain t e where te: "te = (t, e)" by (cases te)
  have ev: "events_of u (te # tes) = (if u = t \<and> counts e then e # events_of u tes else events_of u tes)" for u
    by (auto simp: te events_of_def)
  have "{u. events_of u tes \<noteq> []} \<subseteq> {u. events_of u (te # tes) \<noteq> []}" by (auto simp: ev)
  then have IH: "(\<Sum>u \<leftarrow> ts. length (filter P (events_of u tes))) = length (filter P (map snd tes))"
    using Cons.prems by (intro Cons.IH) auto
  show ?case
  proof (cases "P e")
    case False
    then have "filter P (events_of u (te # tes)) = filter P (events_of u tes)" for u by (simp add: ev)
    then show ?thesis using IH False by (simp add: te)
  next
    case True
    then have c: "counts e" by (rule assms(3))
    then have "t \<in> set ts" using Cons.prems by (auto simp: ev)
    then have "(\<Sum>u \<leftarrow> ts. of_bool (u = t)) = (1 :: nat)"
      using assms(1) by (induction ts) (auto simp: sum_list_eq_0_iff)
    moreover have "length (filter P (events_of u (te # tes))) = of_bool (u = t) + length (filter P (events_of u tes))" for u
      using True c by (simp add: ev)
    ultimately show ?thesis using IH True by (simp add: te sum_list_addf)
  qed
qed

lemma number_by_thread:
  assumes "distinct ts" "set ts = {t. events_of t tes \<noteq> []}" "\<And>e. P e \<Longrightarrow> counts e"
  shows "(\<Sum>t \<leftarrow> ts. number P (events_of t tes)) = number P (map snd tes)"
  using number_by_thread_nat [OF assms(1) _ assms(3), of tes] assms(2) unfolding number_def sum_list_of_nat by simp

lemma total_field:
  assumes "\<And>m n. f (add_Metrics m n) = f m + f n" "f new_Metrics = 0"
  shows "\<exists>ts. distinct ts \<and> set ts = {t. events_of t tes \<noteq> []} \<and>
    (f (total_metrics (fold record_event tes new_storage)) :: u64)
      = (\<Sum>t \<leftarrow> ts. f (fold on_event (events_of t tes) new_Metrics))"
proof -
  obtain ts where ok: "storage_ok tes ts (fold record_event tes new_storage)" using storage_ok_all by blast
  then have "f (total_metrics (fold record_event tes new_storage))
      = (\<Sum>t \<leftarrow> ts. f (fold on_event (events_of t tes) new_Metrics))"
    by (simp add: total_metrics_def storage_ok_def fold_add_field [of f, OF assms(1)] assms(2) comp_def)
  with ok show ?thesis by (auto simp: storage_ok_def)
qed

lemma total_number:
  assumes "\<And>m n. f (add_Metrics m n) = f m + f n" "f new_Metrics = 0"
    "\<And>es. f (fold on_event es new_Metrics) = number P es" "\<And>e. P e \<Longrightarrow> counts e" "length tes < 2 ^ 64"
  shows "unat (f (total_metrics (fold record_event tes new_storage))) = length (filter P (map snd tes))"
proof -
  have "f (total_metrics (fold record_event tes new_storage)) = number P (map snd tes)"
    using total_field [of f tes, OF assms(1,2)] number_by_thread [OF _ _ assms(4)] by (auto simp: assms(3))
  moreover have "length (filter P (map snd tes)) < 2 ^ 64"
    using length_filter_le [of P "map snd tes"] assms(5) by (simp only: length_map)
  ultimately show ?thesis by (simp add: number_def unat_of_nat)
qed

section \<open>The largest number of loops a thread is in at once\<close>

definition depth :: "event list \<Rightarrow> int" where
  "depth es = int (length (filter started es)) - int (length (filter ended es))"

definition max_depth :: "event list \<Rightarrow> int" where
  "max_depth es = Max ((\<lambda>k. depth (take k es)) ` {..length es})"

text \<open>A thread ends a loop only when it is in one.\<close>

definition nested :: "event list \<Rightarrow> bool" where
  "nested es \<longleftrightarrow> (\<forall>k \<le> length es. 0 \<le> depth (take k es))"

lemma max_depth_snoc: "max_depth (es @ [e]) = max (depth (es @ [e])) (max_depth es)"
proof -
  have "(\<lambda>k. depth (take k (es @ [e]))) ` {..length (es @ [e])}
      = insert (depth (es @ [e])) ((\<lambda>k. depth (take k es)) ` {..length es})"
    by (auto simp: atMost_Suc)
  then show ?thesis unfolding max_depth_def by (simp add: Max_insert)
qed

lemma nested_snoc: "nested (es @ [e]) \<longleftrightarrow> nested es \<and> 0 \<le> depth (es @ [e])"
  by (auto simp: nested_def le_Suc_eq)

lemma max_depth_bounds: "depth es \<le> max_depth es" "0 \<le> max_depth es" "max_depth es \<le> int (length (filter started es))"
proof -
  have in_img: "depth (take k es) \<le> max_depth es" if "k \<le> length es" for k
    unfolding max_depth_def using that by (intro Max_ge) auto
  from in_img [of "length es"] in_img [of 0] show "depth es \<le> max_depth es" "0 \<le> max_depth es"
    by (simp_all add: depth_def)
  have "depth (take k es) \<le> int (length (filter started es))" for k
  proof -
    have "length (filter started es) = length (filter started (take k es)) + length (filter started (drop k es))"
      by (metis append_take_drop_id filter_append length_append)
    then show ?thesis by (simp add: depth_def)
  qed
  then show "max_depth es \<le> int (length (filter started es))"
    unfolding max_depth_def by (subst Max_le_iff) auto
qed

lemma unat_max: "unat (max a (b :: u64)) = max (unat a) (unat b)"
  by (simp add: max_def word_le_nat_alt)

lemma max_par_fors_depth:
  assumes "nested es" "length es < 2 ^ 64"
  shows "int (unat (max_par_fors (fold on_event es new_Metrics))) = max_depth es
    \<and> int (unat (cur_par_fors (fold on_event es new_Metrics))) = depth es"
  using assms
proof (induction es rule: rev_induct)
  case Nil
  show ?case by (simp add: max_depth_def depth_def new_Metrics_def)
next
  case (snoc e es)
  define m where "m = fold on_event es new_Metrics"
  have IH: "int (unat (max_par_fors m)) = max_depth es" "int (unat (cur_par_fors m)) = depth es"
    using snoc by (simp_all add: nested_snoc m_def)
  have le: "depth es \<le> max_depth es" "0 \<le> max_depth es" by (rule max_depth_bounds)+
  have nest: "0 \<le> depth (es @ [e])" using snoc.prems(1) by (simp add: nested_snoc)
  have "depth es \<le> int (length es)" using length_filter_le [of started es] unfolding depth_def by linarith
  then have "unat (cur_par_fors m) \<le> length es" unfolding IH(2) [symmetric] by (simp only: of_nat_le_iff)
  then have small: "unat (cur_par_fors m) < 2 ^ 64 - 1" using snoc.prems(2) by simp
  consider "started e" "depth (es @ [e]) = depth es + 1" | "ended e" "depth (es @ [e]) = depth es - 1"
    | "\<not> started e" "\<not> ended e" "depth (es @ [e]) = depth es"
    by (cases e) (simp_all add: started_def ended_def depth_def)
  then show ?case
  proof cases
    case 1
    have "on_event e m = start_par_for m" using 1(1) by (cases e) (simp_all add: started_def)
    then have fields: "cur_par_fors (on_event e m) = cur_par_fors m + 1"
      "max_par_fors (on_event e m) = max (max_par_fors m) (cur_par_fors m + 1)"
      by (simp_all add: start_par_for_def Let_def)
    have cur: "int (unat (cur_par_fors m + 1)) = depth (es @ [e])"
      using small u64_add [of "cur_par_fors m" 1] unfolding 1(2) IH(2) [symmetric] by simp
    have "int (unat (max (max_par_fors m) (cur_par_fors m + 1))) = max_depth (es @ [e])"
      unfolding max_depth_snoc unat_max of_nat_max IH(1) cur by (rule max.commute)
    with cur show ?thesis by (simp only: m_def [symmetric] fields fold_append fold.simps comp_def id_def)
  next
    case 2
    have pos: "1 \<le> unat (cur_par_fors m)" using nest unfolding 2(2) IH(2) [symmetric] by linarith
    have "on_event e m = end_par_for m" using 2(1) by (cases e) (simp_all add: ended_def)
    then have fields: "cur_par_fors (on_event e m) = cur_par_fors m - 1" "max_par_fors (on_event e m) = max_par_fors m"
      by (simp_all add: end_par_for_def)
    have "1 \<le> cur_par_fors m" using pos by (simp add: word_le_nat_alt)
    then have "unat (cur_par_fors m - 1) = unat (cur_par_fors m) - 1" using u64_sub [of 1 "cur_par_fors m"] by simp
    then have cur: "int (unat (cur_par_fors m - 1)) = depth (es @ [e])"
      using pos unfolding 2(2) IH(2) [symmetric] by linarith
    have "int (unat (max_par_fors m)) = max_depth (es @ [e])" unfolding max_depth_snoc IH(1) using 2(2) le by simp
    with cur show ?thesis by (simp only: m_def [symmetric] fields fold_append fold.simps comp_def id_def)
  next
    case 3
    have "max_par_fors (on_event e m) = max_par_fors m" "cur_par_fors (on_event e m) = cur_par_fors m"
      using 3(1,2) by (cases e; simp add: started_def ended_def)+
    then show ?thesis using IH 3(3) le by (simp add: max_depth_snoc m_def [symmetric])
  qed
qed

lemma events_of_length: "length (events_of t tes) \<le> length tes"
  unfolding events_of_def by (simp add: length_filter_le)

lemma started_by_thread:
  assumes "distinct ts" "set ts = {t. events_of t tes \<noteq> []}"
  shows "(\<Sum>t \<leftarrow> ts. length (filter started (events_of t tes))) \<le> length tes"
proof -
  have "started e \<Longrightarrow> counts e" for e by (cases e) (simp_all add: started_def counts_def)
  from number_by_thread_nat [OF assms(1) _ this, of tes] show ?thesis
    using assms(2) length_filter_le [of started "map snd tes"] by simp
qed

lemma total_max_par_fors:
  assumes "length tes < 2 ^ 64" "\<And>t. nested (events_of t tes)"
  shows "int (unat (max_par_fors (total_metrics (fold record_event tes new_storage))))
    = (\<Sum>t | events_of t tes \<noteq> []. max_depth (events_of t tes))"
proof -
  obtain ts where ts: "distinct ts" "set ts = {t. events_of t tes \<noteq> []}"
    and total: "max_par_fors (total_metrics (fold record_event tes new_storage))
      = (\<Sum>t \<leftarrow> ts. max_par_fors (fold on_event (events_of t tes) new_Metrics))"
    using total_field [of max_par_fors tes] by (auto simp: add_Metrics_def new_Metrics_def)
  define d where "d t = nat (max_depth (events_of t tes))" for t
  have "unat (max_par_fors (fold on_event (events_of t tes) new_Metrics)) = d t" for t
    using max_par_fors_depth [OF assms(2), of t] events_of_length [of t tes] assms(1)
    unfolding d_def by (metis nat_int order.strict_trans1)
  then have eq: "max_par_fors (fold on_event (events_of t tes) new_Metrics) = (of_nat (d t) :: u64)" for t
    by (metis word_unat_eq_iff of_nat_unat ucast_id)
  have le: "d t \<le> length (filter started (events_of t tes))" for t
    using max_depth_bounds(3) [of "events_of t tes"] by (simp add: d_def)
  have "(\<Sum>t \<leftarrow> ts. d t) \<le> (\<Sum>t \<leftarrow> ts. length (filter started (events_of t tes)))"
    by (intro sum_list_mono le)
  then have "(\<Sum>t \<leftarrow> ts. d t) < 2 ^ 64" using started_by_thread [OF ts] assms(1) by simp
  then have "unat (max_par_fors (total_metrics (fold record_event tes new_storage))) = (\<Sum>t \<leftarrow> ts. d t)"
    by (simp add: total eq sum_list_of_nat unat_of_nat)
  then have "int (unat (max_par_fors (total_metrics (fold record_event tes new_storage))))
      = int (\<Sum>t \<leftarrow> ts. d t)" by (simp only:)
  also have "\<dots> = (\<Sum>t \<leftarrow> ts. int (d t))" by (induction ts) simp_all
  also have "\<dots> = (\<Sum>t \<in> set ts. int (d t))" using ts(1) by (simp add: sum.distinct_set_conv_list)
  also have "\<dots> = (\<Sum>t | events_of t tes \<noteq> []. max_depth (events_of t tes))"
    using max_depth_bounds(2) by (simp add: ts(2) d_def)
  finally show ?thesis .
qed

text \<open>
  C34: For fewer than \<open>2 ^ 64\<close> events among which no thread ends a loop it is not in: however the events of the
  threads are mixed, what is written to metrics.json is a JSON object with the numbers of parallel loops started
  and of tasks started, stolen, shared and not divided by all threads together, and the sum over the threads of
  the largest number of loops each was in at once.
\<close>

theorem metrics_written:
  assumes "length tes < 2 ^ 64" "\<And>t. nested (events_of t tes)"
  shows "is_json (Obj
    [(''par_fors'', Num (int (length (filter started (map snd tes))))),
     (''max_par_fors'', Num (\<Sum>t | events_of t tes \<noteq> []. max_depth (events_of t tes))),
     (''tasks_created'', Num (int (length (filter ((=) TaskStarted) (map snd tes))))),
     (''tasks_stolen'', Num (int (length (filter ((=) TaskStolen) (map snd tes))))),
     (''tasks_shared'', Num (int (length (filter ((=) TaskShared) (map snd tes))))),
     (''tasks_undivided'', Num (int (length (filter ((=) TaskUndivided) (map snd tes)))))])
    (fst (flush_storage (fold record_event tes new_storage)))"
proof -
  let ?m = "total_metrics (fold record_event tes new_storage)"
  note count = total_number [OF _ _ _ _ assms(1)]
  have "unat (par_fors ?m) = length (filter started (map snd tes))"
    by (rule count [where f = par_fors and P = "started"]; auto simp: add_Metrics_def on_event_fields new_Metrics_def started_def counts_def)
  moreover have "unat (tasks_created ?m) = length (filter ((=) TaskStarted) (map snd tes))"
    by (rule count [where f = tasks_created and P = "(=) TaskStarted"]; auto simp: add_Metrics_def on_event_fields new_Metrics_def counts_def)
  moreover have "unat (tasks_stolen ?m) = length (filter ((=) TaskStolen) (map snd tes))"
    by (rule count [where f = tasks_stolen and P = "(=) TaskStolen"]; auto simp: add_Metrics_def on_event_fields new_Metrics_def counts_def)
  moreover have "unat (tasks_shared ?m) = length (filter ((=) TaskShared) (map snd tes))"
    by (rule count [where f = tasks_shared and P = "(=) TaskShared"]; auto simp: add_Metrics_def on_event_fields new_Metrics_def counts_def)
  moreover have "unat (tasks_undivided ?m) = length (filter ((=) TaskUndivided) (map snd tes))"
    by (rule count [where f = tasks_undivided and P = "(=) TaskUndivided"]; auto simp: add_Metrics_def on_event_fields new_Metrics_def counts_def)
  moreover have "int (unat (max_par_fors ?m)) = (\<Sum>t | events_of t tes \<noteq> []. max_depth (events_of t tes))"
    by (rule total_max_par_fors [OF assms])
  moreover have "fst (flush_storage (fold record_event tes new_storage)) = print_metrics ?m @ [CHR 0x0A]"
    by (simp add: flush_storage_def Let_def total_metrics_def)
  moreover have "is_json (metrics_json ?m) (print_metrics ?m @ [CHR 0x0A])"
    by (rule trailing [OF print_metrics_json]) simp
  ultimately show ?thesis by (simp only: metrics_json_def uint_nat)
qed

text \<open>
  Two loops that two threads run one after the other are reported as two loops at once.
\<close>

definition two_threads :: "(nat \<times> event) list" where
  "two_threads = [(0, ParForStart), (0, ParForEnd), (1, ParForStart), (1, ParForEnd)]"

lemma two_threads_events: "events_of t two_threads = (if t \<in> {0, 1} then [ParForStart, ParForEnd] else [])"
  by (simp add: events_of_def two_threads_def counts_def)

theorem metrics_written_witness:
  "is_json (Obj [(''par_fors'', Num 2), (''max_par_fors'', Num 2), (''tasks_created'', Num 0), (''tasks_stolen'', Num 0),
     (''tasks_shared'', Num 0), (''tasks_undivided'', Num 0)])
    (fst (flush_storage (fold record_event two_threads new_storage)))"
proof -
  have pair: "{..length [ParForStart, ParForEnd]} = {0, 1, 2}" by auto
  have "nested (events_of t two_threads)" for t
    unfolding two_threads_events nested_def by (auto simp: le_Suc_eq depth_def started_def ended_def)
  moreover have thr: "{t. events_of t two_threads \<noteq> []} = {0, 1}" by (auto simp: two_threads_events)
  moreover have "max_depth [ParForStart, ParForEnd] = 1"
    unfolding max_depth_def pair by (simp add: depth_def started_def ended_def)
  then have sum: "(\<Sum>t | events_of t two_threads \<noteq> []. max_depth (events_of t two_threads)) = 2"
    unfolding thr by (simp add: two_threads_events)
  moreover have "length (filter started (map snd two_threads)) = 2"
    "length (filter ((=) TaskStarted) (map snd two_threads)) = 0" "length (filter ((=) TaskStolen) (map snd two_threads)) = 0"
    "length (filter ((=) TaskShared) (map snd two_threads)) = 0" "length (filter ((=) TaskUndivided) (map snd two_threads)) = 0"
    by (simp_all add: two_threads_def started_def)
  moreover have "length two_threads < 2 ^ 64" by (simp add: two_threads_def)
  ultimately show ?thesis
    using metrics_written [of two_threads] by simp
qed

end
