(* ===== verification/Iteration_Trace.thy ===== *)
theory Iteration_Trace
  imports Loops Loop_Contract Json
begin

text \<open>
  src/include/trace.h: the \<open>Tracer\<close> with which the scheduling benchmarks record, for every task of a
  parallel loop, the thread and the processor it ran on and its times, and print them as JSON.  The clock,
  the thread and the processor are inputs of each call; \<open>None\<close> stands for an access outside a vector.
\<close>

section \<open>The records\<close>

record TaskTrace =
  IterationStart :: u64
  PreviousTrace :: u64
  ExecutionStart :: u64
  ExecutionEnd :: u64
  TraceWrite :: u64

definition new_TaskTrace :: "u64 \<Rightarrow> u64 \<Rightarrow> u64 \<Rightarrow> TaskTrace" where
  "new_TaskTrace iterationStart prevTrace now = \<lparr>IterationStart = iterationStart, PreviousTrace = prevTrace,
     ExecutionStart = now - iterationStart, ExecutionEnd = 0, TraceWrite = 0\<rparr>"

definition OnExecuted :: "u64 \<Rightarrow> TaskTrace \<Rightarrow> TaskTrace" where
  "OnExecuted now t = t\<lparr>ExecutionEnd := now - IterationStart t\<rparr>"

record TaskInfo =
  TaskIdx :: u64
  ThreadIdx :: int
  SchedCpu :: int
  trace :: TaskTrace

definition default_TaskInfo :: TaskInfo where
  "default_TaskInfo = \<lparr>TaskIdx = 0, ThreadIdx = 0, SchedCpu = 0,
     trace = \<lparr>IterationStart = 0, PreviousTrace = 0, ExecutionStart = 0, ExecutionEnd = 0, TraceWrite = 0\<rparr>\<rparr>"

definition new_TaskInfo :: "u64 \<Rightarrow> u64 \<Rightarrow> u64 \<Rightarrow> u64 \<Rightarrow> int \<Rightarrow> int \<Rightarrow> TaskInfo" where
  "new_TaskInfo taskIdx iterationStart prevTrace now thread_index cpu = \<lparr>TaskIdx = taskIdx,
     ThreadIdx = thread_index, SchedCpu = cpu, trace = new_TaskTrace iterationStart prevTrace now\<rparr>"

record IterationResult =
  Start :: u64
  Tasks :: "TaskInfo list"
  End :: u64

definition new_IterationResult :: "u64 \<Rightarrow> u64 \<Rightarrow> IterationResult" where
  "new_IterationResult cnt now = \<lparr>Start = now, Tasks = replicate (unat cnt) default_TaskInfo, End = 0\<rparr>"

text \<open>\<open>prev\<close> is the thread's \<open>WroteTrace\<close>.\<close>

definition result_StartTask :: "u64 \<Rightarrow> u64 \<Rightarrow> u64 \<Rightarrow> int \<Rightarrow> int \<Rightarrow> IterationResult \<Rightarrow> IterationResult option" where
  "result_StartTask taskIdx prev now thread_index cpu r =
     map_option (\<lambda>ts. r\<lparr>Tasks := ts\<rparr>)
       (store_at (Tasks r) taskIdx (new_TaskInfo taskIdx (Start r) prev now thread_index cpu))"

text \<open>The new value of the thread's \<open>WroteTrace\<close>, and the result.\<close>

definition result_EndTask :: "u64 \<Rightarrow> u64 \<Rightarrow> u64 \<Rightarrow> IterationResult \<Rightarrow> (u64 \<times> IterationResult) option" where
  "result_EndTask taskIdx now now_written r =
     Option.bind (at (Tasks r) taskIdx) (\<lambda>t.
     map_option (\<lambda>ts. (now_written - Start r, r\<lparr>Tasks := ts\<rparr>))
       (store_at (Tasks r) taskIdx (t\<lparr>trace := OnExecuted now (trace t)\<rparr>)))"

definition result_EndIteration :: "u64 \<Rightarrow> IterationResult \<Rightarrow> IterationResult" where
  "result_EndIteration now r = r\<lparr>End := now - Start r\<rparr>"

section \<open>The tracer\<close>

text \<open>The iterations, and each thread's \<open>WroteTrace\<close>.\<close>

record Tracer =
  Iterations :: "IterationResult list"
  WroteTrace :: "nat \<Rightarrow> u64"

definition StartIteration :: "u64 \<Rightarrow> u64 \<Rightarrow> Tracer \<Rightarrow> Tracer" where
  "StartIteration tasksCount now tr = tr\<lparr>Iterations := Iterations tr @ [new_IterationResult tasksCount now]\<rparr>"

definition set_back :: "IterationResult \<Rightarrow> Tracer \<Rightarrow> Tracer" where
  "set_back r tr = tr\<lparr>Iterations := butlast (Iterations tr) @ [r]\<rparr>"

definition EndIteration :: "u64 \<Rightarrow> Tracer \<Rightarrow> Tracer option" where
  "EndIteration now tr =
     (if Iterations tr = [] then None else Some (set_back (result_EndIteration now (last (Iterations tr))) tr))"

definition StartTask :: "nat \<Rightarrow> u64 \<Rightarrow> u64 \<Rightarrow> int \<Rightarrow> int \<Rightarrow> Tracer \<Rightarrow> Tracer option" where
  "StartTask thr taskIdx now thread_index cpu tr =
     (if Iterations tr = [] then None
      else map_option (\<lambda>r. set_back r tr)
        (result_StartTask taskIdx (WroteTrace tr thr) now thread_index cpu (last (Iterations tr))))"

definition EndTask :: "nat \<Rightarrow> u64 \<Rightarrow> u64 \<Rightarrow> u64 \<Rightarrow> Tracer \<Rightarrow> Tracer option" where
  "EndTask thr taskIdx now now_written tr =
     (if Iterations tr = [] then None
      else map_option (\<lambda>(w, r). (set_back r tr)\<lparr>WroteTrace := (WroteTrace tr)(thr := w)\<rparr>)
        (result_EndTask taskIdx now now_written (last (Iterations tr))))"

text \<open>
  The calls of one \<open>RunIteration\<close> in the order they happen: a round of the loop starts its task, runs and
  ends it, on one thread; rounds of different threads overlap, and a round can run inside another one.
  \<open>thread_index\<close> is what \<open>GetThreadIndex\<close> returns on each thread.
\<close>

datatype task_call =
    Starts (call_task: u64) (call_thread: nat) (call_now: u64) (call_cpu: int)
  | Ends (call_task: u64) (call_thread: nat) (call_now: u64) (call_written: u64)

definition perform_call :: "(nat \<Rightarrow> int) \<Rightarrow> task_call \<Rightarrow> Tracer \<Rightarrow> Tracer option" where
  "perform_call thread_index e tr =
     (case e of
        Starts i thr now cpu \<Rightarrow> StartTask thr i now (thread_index thr) cpu tr
      | Ends i thr now written \<Rightarrow> EndTask thr i now written tr)"

definition RunIteration :: "(nat \<Rightarrow> int) \<Rightarrow> u64 \<Rightarrow> u64 \<Rightarrow> task_call list \<Rightarrow> u64 \<Rightarrow> Tracer \<Rightarrow> Tracer option" where
  "RunIteration thread_index task_count now calls now_end tr =
     Option.bind (foldM (perform_call thread_index) calls (StartIteration task_count now tr)) (EndIteration now_end)"

text \<open>The calls that rounds started in the order \<open>xs\<close> can make.\<close>

definition calls_of :: "u64 \<Rightarrow> task_call list \<Rightarrow> task_call list" where
  "calls_of i calls = filter (\<lambda>e. call_task e = i) calls"

definition rounds :: "u64 list \<Rightarrow> task_call list \<Rightarrow> bool" where
  "rounds xs calls \<longleftrightarrow> map call_task (filter is_Starts calls) = xs \<and> (\<forall>e \<in> set calls. call_task e \<in> set xs) \<and>
     (\<forall>i \<in> set xs. \<exists>thr now cpu now' written. calls_of i calls = [Starts i thr now cpu, Ends i thr now' written])"

section \<open>What is recorded\<close>

text \<open>A thread's \<open>WroteTrace\<close> after some calls.\<close>

definition last_written :: "u64 \<Rightarrow> nat \<Rightarrow> u64 \<Rightarrow> task_call list \<Rightarrow> u64" where
  "last_written start thr w calls =
     fold (\<lambda>e w. case e of Ends i t now written \<Rightarrow> if t = thr then written - start else w | _ \<Rightarrow> w) calls w"

lemma perform_call_other:
  assumes "Iterations tr = its @ [r]" "unat (call_task e) < length (Tasks r)"
  shows "\<exists>tr' r'. perform_call ti e tr = Some tr' \<and> Iterations tr' = its @ [r'] \<and> Start r' = Start r
    \<and> length (Tasks r') = length (Tasks r) \<and> (\<forall>thr. WroteTrace tr' thr = last_written (Start r) thr (WroteTrace tr thr) [e])
    \<and> (\<forall>i. i \<noteq> unat (call_task e) \<longrightarrow> Tasks r' ! i = Tasks r ! i)"
  using assms
  by (cases e) (auto simp: perform_call_def StartTask_def EndTask_def result_StartTask_def result_EndTask_def
    set_back_def store_at_def at_def last_written_def)

lemma foldM_calls_other:
  assumes "Iterations tr = its @ [r]" "\<And>e. e \<in> set calls \<Longrightarrow> unat (call_task e) < length (Tasks r)"
  shows "\<exists>tr' r'. foldM (perform_call ti) calls tr = Some tr' \<and> Iterations tr' = its @ [r'] \<and> Start r' = Start r
    \<and> length (Tasks r') = length (Tasks r) \<and> (\<forall>thr. WroteTrace tr' thr = last_written (Start r) thr (WroteTrace tr thr) calls)
    \<and> (\<forall>i. i \<notin> (\<lambda>e. unat (call_task e)) ` set calls \<longrightarrow> Tasks r' ! i = Tasks r ! i)"
  using assms
proof (induction calls arbitrary: tr r)
  case Nil
  then show ?case by (simp add: last_written_def)
next
  case (Cons e calls)
  obtain tr1 r1 where 1: "perform_call ti e tr = Some tr1" "Iterations tr1 = its @ [r1]" "Start r1 = Start r"
    "length (Tasks r1) = length (Tasks r)" "\<And>thr. WroteTrace tr1 thr = last_written (Start r) thr (WroteTrace tr thr) [e]"
    "\<And>i. i \<noteq> unat (call_task e) \<Longrightarrow> Tasks r1 ! i = Tasks r ! i"
    using perform_call_other [OF Cons.prems(1), of e ti] Cons.prems(2) by auto
  obtain tr2 r2 where 2: "foldM (perform_call ti) calls tr1 = Some tr2" "Iterations tr2 = its @ [r2]" "Start r2 = Start r1"
    "length (Tasks r2) = length (Tasks r1)"
    "\<And>thr. WroteTrace tr2 thr = last_written (Start r1) thr (WroteTrace tr1 thr) calls"
    "\<And>i. i \<notin> (\<lambda>e. unat (call_task e)) ` set calls \<Longrightarrow> Tasks r2 ! i = Tasks r1 ! i"
    using Cons.IH [OF 1(2)] Cons.prems(2) 1(4) by auto
  show ?case
    by (intro exI [of _ tr2] exI [of _ r2]) (use 1 2 in \<open>simp add: last_written_def\<close>)
qed

text \<open>The two calls of a round, and the calls before, between and behind them.\<close>

lemma round_calls:
  assumes "calls_of i calls = [Starts i thr n cpu, Ends i thr n' w]"
  obtains before mid after where "calls = before @ Starts i thr n cpu # mid @ Ends i thr n' w # after"
    "i \<notin> call_task ` set before" "i \<notin> call_task ` set mid" "i \<notin> call_task ` set after"
proof -
  obtain us vs where 1: "calls = us @ Starts i thr n cpu # vs" "\<forall>u \<in> set us. call_task u \<noteq> i"
      "filter (\<lambda>e. call_task e = i) vs = [Ends i thr n' w]"
    using filter_eq_ConsD [OF assms [unfolded calls_of_def]] by auto
  obtain ms ws where 2: "vs = ms @ Ends i thr n' w # ws" "\<forall>u \<in> set ms. call_task u \<noteq> i"
      "filter (\<lambda>e. call_task e = i) ws = []"
    using filter_eq_ConsD [OF 1(3)] by auto
  show ?thesis
    by (rule that [of us ms ws]) (use 1 2 in \<open>auto simp: filter_empty_conv\<close>)
qed

lemma image_unat: "i \<notin> call_task ` A \<Longrightarrow> unat i \<notin> (\<lambda>e. unat (call_task e)) ` A"
  by (auto simp: word_unat_eq_iff [symmetric])

definition recorded_as :: "(nat \<Rightarrow> int) \<Rightarrow> (nat \<Rightarrow> u64) \<Rightarrow> u64 \<Rightarrow> task_call list \<Rightarrow> u64 \<Rightarrow> TaskInfo \<Rightarrow> bool" where
  "recorded_as ti w0 start calls i info \<longleftrightarrow>
     (\<exists>before thr n cpu mid n' w after. calls = before @ Starts i thr n cpu # mid @ Ends i thr n' w # after \<and>
       info = \<lparr>TaskIdx = i, ThreadIdx = ti thr, SchedCpu = cpu,
         trace = \<lparr>IterationStart = start, PreviousTrace = last_written start thr (w0 thr) before,
           ExecutionStart = n - start, ExecutionEnd = n' - start, TraceWrite = 0\<rparr>\<rparr>)"

lemma recorded_task:
  assumes its: "Iterations tr = its @ [r]" and len: "\<And>e. e \<in> set calls \<Longrightarrow> unat (call_task e) < length (Tasks r)"
    and i: "calls_of i calls = [Starts i thr n cpu, Ends i thr n' w]"
    and res: "foldM (perform_call ti) calls tr = Some tr'" "Iterations tr' = its @ [r']"
  shows "recorded_as ti (WroteTrace tr) (Start r) calls i (Tasks r' ! unat i)"
proof -
  obtain before mid after where calls: "calls = before @ Starts i thr n cpu # mid @ Ends i thr n' w # after"
    and other: "i \<notin> call_task ` set before" "i \<notin> call_task ` set mid" "i \<notin> call_task ` set after"
    using round_calls [OF i] .
  have ilen: "unat i < length (Tasks r)" using len [of "Starts i thr n cpu"] by (simp add: calls)
  obtain tr1 r1 where 1: "foldM (perform_call ti) before tr = Some tr1" "Iterations tr1 = its @ [r1]" "Start r1 = Start r"
      "length (Tasks r1) = length (Tasks r)" "\<And>t. WroteTrace tr1 t = last_written (Start r) t (WroteTrace tr t) before"
    using foldM_calls_other [OF its, of before ti] len by (auto simp: calls)
  define t2 where "t2 = new_TaskInfo i (Start r) (WroteTrace tr1 thr) n (ti thr) cpu"
  define r2 where "r2 = r1\<lparr>Tasks := (Tasks r1)[unat i := t2]\<rparr>"
  have 2: "perform_call ti (Starts i thr n cpu) tr1 = Some (set_back r2 tr1)"
    using 1(2-4) ilen
    by (simp add: perform_call_def StartTask_def result_StartTask_def store_at_def r2_def t2_def)
  have r2: "Iterations (set_back r2 tr1) = its @ [r2]" "Start r2 = Start r" "length (Tasks r2) = length (Tasks r)"
      "Tasks r2 ! unat i = t2"
    using 1 ilen by (simp_all add: set_back_def r2_def)
  obtain tr3 r3 where 3: "foldM (perform_call ti) mid (set_back r2 tr1) = Some tr3" "Iterations tr3 = its @ [r3]"
      "Start r3 = Start r" "length (Tasks r3) = length (Tasks r)" "Tasks r3 ! unat i = t2"
    using foldM_calls_other [OF r2(1), of mid ti] len r2 image_unat [OF other(2)] by (auto simp: calls)
  define t4 where "t4 = t2\<lparr>trace := OnExecuted n' (trace t2)\<rparr>"
  define r4 where "r4 = r3\<lparr>Tasks := (Tasks r3)[unat i := t4]\<rparr>"
  define tr4 where "tr4 = (set_back r4 tr3)\<lparr>WroteTrace := (WroteTrace tr3)(thr := w - Start r)\<rparr>"
  have 4: "perform_call ti (Ends i thr n' w) tr3 = Some tr4"
    using 3(2-5) ilen
    by (simp add: perform_call_def EndTask_def result_EndTask_def store_at_def at_def tr4_def r4_def t4_def)
  have r4: "Iterations tr4 = its @ [r4]" "length (Tasks r4) = length (Tasks r)" "Tasks r4 ! unat i = t4"
    using 3 ilen by (simp_all add: tr4_def set_back_def r4_def)
  obtain tr5 r5 where 5: "foldM (perform_call ti) after tr4 = Some tr5" "Iterations tr5 = its @ [r5]" "Tasks r5 ! unat i = t4"
    using foldM_calls_other [OF r4(1), of after ti] len r4 image_unat [OF other(3)] by (auto simp: calls)
  have "foldM (perform_call ti) calls tr = Some tr5" by (simp add: calls foldM_append 1(1) 2 3(1) 4 5(1))
  then have "r' = r5" using res 5(2) by simp
  then show ?thesis
    unfolding recorded_as_def calls
    by (intro exI [of _ before] exI [of _ thr] exI [of _ n] exI [of _ cpu] exI [of _ mid] exI [of _ n'] exI [of _ w] exI [of _ after])
      (simp add: 5(3) t4_def t2_def new_TaskInfo_def new_TaskTrace_def OnExecuted_def 1(5))
qed

lemma RunIteration_outcome:
  assumes "loop_ok threads 0 task_count 1" "eigen_order init m stack_empty threads 1 0 task_count xs" "rounds xs calls"
  shows "\<exists>tr' r. RunIteration thread_index task_count now calls now_end tr = Some tr' \<and>
    Iterations tr' = Iterations tr @ [r] \<and> Start r = now \<and> End r = now_end - now \<and>
    length (Tasks r) = unat task_count \<and>
    (\<forall>i < task_count. recorded_as thread_index (WroteTrace tr) now calls i (Tasks r ! unat i))"
proof -
  let ?tr = "StartIteration task_count now tr" and ?r = "new_IterationResult task_count now"
  have its: "Iterations ?tr = Iterations tr @ [?r]" by (simp add: StartIteration_def)
  have xs: "i \<in> set xs \<longleftrightarrow> i < task_count" for i using eigen.order_set [OF assms(1,2)] by simp
  have len: "unat (call_task e) < length (Tasks ?r)" if "e \<in> set calls" for e
    using that assms(3) xs by (auto simp: rounds_def new_IterationResult_def word_less_nat_alt)
  obtain tr' r' where 1: "foldM (perform_call thread_index) calls ?tr = Some tr'" "Iterations tr' = Iterations tr @ [r']"
      "Start r' = now" "length (Tasks r') = unat task_count"
    using foldM_calls_other [OF its, of calls thread_index] len by (auto simp: new_IterationResult_def)
  have rec: "recorded_as thread_index (WroteTrace tr) now calls i (Tasks r' ! unat i)" if i: "i < task_count" for i
  proof -
    obtain thr n cpu n' w where "calls_of i calls = [Starts i thr n cpu, Ends i thr n' w]"
      using assms(3) i xs [of i] by (auto simp: rounds_def)
    from recorded_task [OF its len this 1(1,2)] show ?thesis
      by (simp add: new_IterationResult_def StartIteration_def)
  qed
  show ?thesis
    by (intro exI [of _ "set_back (result_EndIteration now_end r') tr'"] exI [of _ "result_EndIteration now_end r'"])
      (use 1 rec in \<open>simp add: RunIteration_def EndIteration_def set_back_def result_EndIteration_def\<close>)
qed

text \<open>
  C35: However the rounds of the parallel loop are distributed and overlap, \<open>RunIteration\<close> appends one result:
  its vector has one entry per task, entry \<open>i\<close> has the index \<open>i\<close>, the thread and the processor that ran
  task \<open>i\<close>, the times of its start and its end relative to the start of the iteration, and the time at which
  the same thread had finished its previous trace.
\<close>

theorem RunIteration_records:
  assumes "loop_ok threads 0 task_count 1" "eigen_order init m stack_empty threads 1 0 task_count xs" "rounds xs calls"
  shows "\<exists>tr' r. RunIteration thread_index task_count now calls now_end tr = Some tr' \<and>
    Iterations tr' = Iterations tr @ [r] \<and> Start r = now \<and> End r = now_end - now \<and>
    length (Tasks r) = unat task_count \<and>
    (\<forall>i < task_count. recorded_as thread_index (WroteTrace tr) now calls i (Tasks r ! unat i))"
  using RunIteration_outcome [OF assms] .

text \<open>Two tasks on two threads; the second starts first and ends last.\<close>

definition two_calls :: "task_call list" where
  "two_calls = [Starts 1 7 110 3, Starts 0 8 120 4, Ends 0 8 150 155, Ends 1 7 160 165]"

theorem RunIteration_records_witness:
  "\<exists>tr' r. RunIteration (\<lambda>t. if t = 7 then 1 else 0) 2 100 two_calls 170 \<lparr>Iterations = [], WroteTrace = (\<lambda>_. 0)\<rparr> = Some tr' \<and>
    Iterations tr' = [r] \<and> TaskIdx (Tasks r ! 1) = 1 \<and> ThreadIdx (Tasks r ! 1) = 1"
proof -
  have "rounds [1, 0] two_calls"
    by (auto simp: rounds_def two_calls_def calls_of_def)
  from RunIteration_records [OF two_ok two_order this, of "\<lambda>t. if t = 7 then 1 else 0" 100 170 "\<lparr>Iterations = [], WroteTrace = (\<lambda>_. 0)\<rparr>"]
  obtain tr' r where run: "RunIteration (\<lambda>t. if t = 7 then 1 else 0) 2 100 two_calls 170 \<lparr>Iterations = [], WroteTrace = (\<lambda>_. 0)\<rparr> = Some tr'"
      "Iterations tr' = [r]"
    and rec: "\<forall>i < 2. recorded_as (\<lambda>t. if t = 7 then 1 else 0) (\<lambda>_. 0) 100 two_calls i (Tasks r ! unat i)" by auto
  have "recorded_as (\<lambda>t. if t = 7 then 1 else 0) (\<lambda>_. 0) 100 two_calls 1 (Tasks r ! 1)" using rec [rule_format, of 1] by simp
  then obtain before thr n cpu rest where c: "two_calls = before @ Starts 1 thr n cpu # rest"
    and eq: "TaskIdx (Tasks r ! 1) = 1" "ThreadIdx (Tasks r ! 1) = (if thr = 7 then 1 else 0)"
    unfolding recorded_as_def by fastforce
  have "Starts 1 thr n cpu \<in> set two_calls" unfolding c by simp
  then have "thr = 7" by (auto simp: two_calls_def)
  with eq have "TaskIdx (Tasks r ! 1) = 1 \<and> ThreadIdx (Tasks r ! 1) = 1" by simp
  with run show ?thesis by blast
qed

end
