(* ===== verification/Trace_Json.thy ===== *)
theory Trace_Json
  imports Iteration_Trace
begin

text \<open>
  \<open>Tracer::ToJson\<close> of src/include/trace.h, which prints the iterations as JSON with the tasks grouped by
  thread.  The order in which the \<open>unordered_map\<close> of the threads is traversed is a parameter.
\<close>

section \<open>Grouping\<close>

text \<open>\<open>resultPerThread[id].emplace_back(task)\<close>, the map as a list of its entries.\<close>

fun emplace_back :: "int \<Rightarrow> TaskInfo \<Rightarrow> (int \<times> TaskInfo list) list \<Rightarrow> (int \<times> TaskInfo list) list" where
  "emplace_back k t [] = [(k, [t])]"
| "emplace_back k t ((k', ts) # m) = (if k = k' then (k', ts @ [t]) # m else (k', ts) # emplace_back k t m)"

definition resultPerThread :: "TaskInfo list \<Rightarrow> (int \<times> TaskInfo list) list" where
  "resultPerThread res = fold (\<lambda>t m. emplace_back (ThreadIdx t) t m) res []"

lemma emplace_back_keys: "map fst (emplace_back k t m) = (if k \<in> fst ` set m then map fst m else map fst m @ [k])"
proof (induction m)
  case (Cons e m)
  then show ?case by (cases e) (auto simp: rev_image_eqI)
qed simp

lemma emplace_back_entries:
  "distinct (map fst m) \<Longrightarrow> (j, ts) \<in> set (emplace_back k t m) \<longleftrightarrow>
    (if j = k then (\<exists>us. (k, us) \<in> set m \<and> ts = us @ [t]) \<or> k \<notin> fst ` set m \<and> ts = [t] else (j, ts) \<in> set m)"
  by (induction m) (auto split: if_splits simp: rev_image_eqI)

lemma resultPerThread_entries:
  "distinct (map fst (resultPerThread res)) \<and> fst ` set (resultPerThread res) = ThreadIdx ` set res \<and>
   (\<forall>(j, ts) \<in> set (resultPerThread res). ts = filter (\<lambda>t. ThreadIdx t = j) res \<and> ts \<noteq> [])"
proof (induction res rule: rev_induct)
  case (snoc t res)
  let ?m = "resultPerThread res"
  have step: "resultPerThread (res @ [t]) = emplace_back (ThreadIdx t) t ?m" by (simp add: resultPerThread_def)
  have keys: "distinct (map fst ?m)" "fst ` set ?m = ThreadIdx ` set res"
    and ent: "\<And>j ts. (j, ts) \<in> set ?m \<Longrightarrow> ts = filter (\<lambda>t. ThreadIdx t = j) res"
    and ne: "\<And>j. (j, []) \<notin> set ?m"
    using snoc by auto
  have none: "filter (\<lambda>u. ThreadIdx u = ThreadIdx t) res = []" if "ThreadIdx t \<notin> fst ` set ?m"
    using that unfolding keys(2) filter_empty_conv by (metis imageI)
  have k: "map fst (resultPerThread (res @ [t]))
      = (if ThreadIdx t \<in> fst ` set ?m then map fst ?m else map fst ?m @ [ThreadIdx t])"
    unfolding step by (rule emplace_back_keys)
  then have "distinct (map fst (resultPerThread (res @ [t])))" using keys by auto
  moreover have "fst ` set (resultPerThread (res @ [t])) = ThreadIdx ` set (res @ [t])"
    using arg_cong [OF k, of set] keys(2) by auto
  moreover have "\<forall>(j, ts) \<in> set (resultPerThread (res @ [t])). ts = filter (\<lambda>u. ThreadIdx u = j) (res @ [t]) \<and> ts \<noteq> []"
    unfolding step emplace_back_entries [OF keys(1)] using ent ne none
    by (auto simp: emplace_back_entries [OF keys(1)] split: if_splits)
  ultimately show ?case by blast
qed (simp add: resultPerThread_def)

section \<open>Printing\<close>

abbreviation nl :: string where
  "nl \<equiv> [CHR 0x0A]"

definition print_task :: "TaskInfo \<Rightarrow> string" where
  "print_task task = ''{\"index\": '' @ dec (unat (TaskIdx task)) @ '', \"trace\": {\"''
     @ ''prev_trace\": '' @ dec (unat (PreviousTrace (trace task)))
     @ '', \"execution_start\": '' @ dec (unat (ExecutionStart (trace task)))
     @ '', \"execution_end\": '' @ dec (unat (ExecutionEnd (trace task)))
     @ ''}, \"cpu\": '' @ dec_int (SchedCpu task) @ ''}''"

definition print_tasks :: "TaskInfo list \<Rightarrow> string" where
  "print_tasks ts = concat (map (\<lambda>i. print_task (ts ! i) @ (if i = length ts - 1 then '''' else '', '')) [0..<length ts])"

definition sort_tasks :: "TaskInfo list \<Rightarrow> TaskInfo list" where
  "sort_tasks ts = sort_key (\<lambda>t. unat (TaskIdx t)) ts"

text \<open>One entry of the map; the state is the text and the counter \<open>total\<close> of \<open>size\<close> entries.\<close>

definition print_thread :: "nat \<Rightarrow> int \<times> TaskInfo list \<Rightarrow> string \<times> nat \<Rightarrow> string \<times> nat" where
  "print_thread sz entry s =
     (let (tid, ts) = entry; (stream, total) = s;
          stream = stream @ ''        \"'' @ dec_int tid @ ''\": ['';
          ts = sort_tasks ts;
          stream = stream @ print_tasks ts;
          total = total + 1
      in (stream @ (if total = sz then '']'' else ''],'') @ nl, total))"

definition print_iteration :: "((int \<times> TaskInfo list) list \<Rightarrow> (int \<times> TaskInfo list) list) \<Rightarrow> IterationResult \<Rightarrow> string" where
  "print_iteration traverse r =
     (let m = resultPerThread (Tasks r)
      in ''  {'' @ nl @ ''    \"start\": '' @ dec (unat (Start r)) @ '','' @ nl
         @ ''    \"end\": '' @ dec (unat (End r)) @ '','' @ nl
         @ ''    \"tasks\": {'' @ nl
         @ fst (fold (print_thread (length m)) (traverse m) ('''', 0))
         @ ''    }'' @ nl)"

text \<open>\<open>front\<close> of an empty vector is undefined.\<close>

definition ToJson :: "((int \<times> TaskInfo list) list \<Rightarrow> (int \<times> TaskInfo list) list) \<Rightarrow> u64 \<Rightarrow> Tracer \<Rightarrow> string option" where
  "ToJson traverse threadNum tr =
     (let results = Iterations tr
      in if results = [] then None
         else Some (''{'' @ nl @ ''\"thread_num\": '' @ dec (unat threadNum) @ '','' @ nl
           @ ''\"tasks_num\": '' @ dec (length (Tasks (hd results))) @ '','' @ nl
           @ ''\"results\": ['' @ nl
           @ concat (map (\<lambda>iter. print_iteration traverse (results ! iter)
               @ (if iter + 1 = length results then ''  }'' else ''  },'') @ nl) [0..<length results])
           @ '']'' @ nl @ ''}'' @ nl))"

section \<open>The values\<close>

definition task_json :: "TaskInfo \<Rightarrow> json" where
  "task_json t = Obj [(''index'', Num (uint (TaskIdx t))),
     (''trace'', Obj [(''prev_trace'', Num (uint (PreviousTrace (trace t)))),
        (''execution_start'', Num (uint (ExecutionStart (trace t)))), (''execution_end'', Num (uint (ExecutionEnd (trace t))))]),
     (''cpu'', Num (SchedCpu t))]"

definition thread_json :: "TaskInfo list \<Rightarrow> int \<Rightarrow> string \<times> json" where
  "thread_json res tid = (dec_int tid, Arr (map task_json (filter (\<lambda>t. ThreadIdx t = tid) res)))"

lemma spaced_number_member:
  "plain k \<Longrightarrow> blank a \<Longrightarrow> members [(k, Num (uint w))] (a @ ''\"'' @ k @ ''\": '' @ dec (unat w))"
  using one_member [of k a "[]" _ "'' '' @ dec (unat w)", OF _ _ _ leading [OF number_nat]] by simp

lemma print_task_json: "is_json (task_json t) (print_task t)"
proof -
  let ?b = "'' ''"
  have tr: "is_json (Obj [(''prev_trace'', Num (uint (PreviousTrace (trace t)))),
        (''execution_start'', Num (uint (ExecutionStart (trace t)))), (''execution_end'', Num (uint (ExecutionEnd (trace t))))])
      (''{\"prev_trace\": '' @ dec (unat (PreviousTrace (trace t))) @ '', \"execution_start\": ''
        @ dec (unat (ExecutionStart (trace t))) @ '', \"execution_end\": '' @ dec (unat (ExecutionEnd (trace t))) @ ''}'')"
    using obj [OF more_members [OF spaced_number_member [of "''prev_trace''" "[]"]
      more_members [OF spaced_number_member [of "''execution_start''" ?b] spaced_number_member [of "''execution_end''" ?b]]]]
    by simp
  from obj [OF more_members [OF spaced_number_member [of "''index''" "[]" "TaskIdx t"]
      more_members [OF one_member [of "''trace''" ?b "[]", OF _ _ _ leading [OF this, of ?b]]
        one_member [of "''cpu''" ?b "[]", OF _ _ _ leading [OF number [of "SchedCpu t"], of ?b]]]]]
  show ?thesis by (simp add: task_json_def print_task_def)
qed

lemma print_tasks_json: "ts \<noteq> [] \<Longrightarrow> is_json (Arr (map task_json ts)) (''['' @ print_tasks ts @ '']'')"
  unfolding print_tasks_def
  by (intro arr elements_loop [where pr = print_task and c = "'' ''" and e = "''''"]) (auto simp: print_task_json)

lemma sort_tasks_sorted:
  assumes "\<And>i. i < length res \<Longrightarrow> unat (TaskIdx (res ! i)) = i"
  shows "sort_tasks (filter P res) = filter P res"
proof -
  have "map (\<lambda>t. unat (TaskIdx t)) res = [0..<length res]"
    using assms by (intro nth_equalityI) simp_all
  then have "sorted (map (\<lambda>t. unat (TaskIdx t)) res)" by simp
  then have "sorted (map (\<lambda>t. unat (TaskIdx t)) (filter P res))" by (rule sorted_filter)
  then show ?thesis unfolding sort_tasks_def by (intro properties_for_sort_key) auto
qed

text \<open>The loop with the counter, as a loop over the positions.\<close>

lemma print_threads_loop:
  "fold (print_thread sz) es (stream, n) =
    (stream @ concat (map (\<lambda>i. (''        \"'' @ dec_int (fst (es ! i)) @ ''\": ['' @ print_tasks (sort_tasks (snd (es ! i))) @ '']'')
       @ (if n + Suc i = sz then nl else '','' @ nl)) [0..<length es]), n + length es)"
proof (induction es arbitrary: stream n)
  case (Cons e es)
  obtain k ts where "e = (k, ts)" by (cases e)
  then show ?case
    using Cons.IH [of "fst (print_thread sz e (stream, n))" "Suc n"]
    by (simp add: print_thread_def map_upt_Suc Let_def del: upt_Suc)
qed simp

lemma thread_entry_json:
  assumes "\<And>i. i < length res \<Longrightarrow> unat (TaskIdx (res ! i)) = i" "(k, ts) \<in> set (resultPerThread res)"
  shows "members [thread_json res k]
    (''        \"'' @ dec_int k @ ''\": ['' @ print_tasks (sort_tasks ts) @ '']'')"
proof -
  have ts: "ts = filter (\<lambda>t. ThreadIdx t = k) res" "ts \<noteq> []"
    using resultPerThread_entries [of res] assms(2) by auto
  have "is_json (Arr (map task_json ts)) (''['' @ print_tasks (sort_tasks ts) @ '']'')"
    using print_tasks_json [OF ts(2)] sort_tasks_sorted [OF assms(1)] by (simp add: ts(1))
  then show ?thesis
    using one_member [of "dec_int k" "''        ''" "[]", OF _ _ _ leading, of _ _ "'' ''"]
    by (simp add: thread_json_def ts(1))
qed

definition iteration_json :: "int list \<Rightarrow> IterationResult \<Rightarrow> json" where
  "iteration_json ids r = Obj [(''start'', Num (uint (Start r))), (''end'', Num (uint (End r))),
     (''tasks'', Obj (map (thread_json (Tasks r)) ids))]"

text \<open>The threads in the order of the traversal.\<close>

definition thread_ids :: "((int \<times> TaskInfo list) list \<Rightarrow> (int \<times> TaskInfo list) list) \<Rightarrow> TaskInfo list \<Rightarrow> int list" where
  "thread_ids traverse res = map fst (traverse (resultPerThread res))"

lemma print_iteration_json:
  assumes idx: "\<And>i. i < length (Tasks r) \<Longrightarrow> unat (TaskIdx (Tasks r ! i)) = i"
    and trav: "\<And>m. mset (traverse m) = mset m"
  shows "is_json (iteration_json (thread_ids traverse (Tasks r)) r) (print_iteration traverse r @ ''  }'')"
proof -
  let ?m = "resultPerThread (Tasks r)" and ?es = "traverse (resultPerThread (Tasks r))"
  have len: "length ?es = length ?m" using trav [of ?m] by (metis size_mset)
  have set_eq: "set ?es = set ?m" using trav [of ?m] by (metis set_mset_mset)
  define row where "row e = ''        \"'' @ dec_int (fst e) @ ''\": ['' @ print_tasks (sort_tasks (snd e)) @ '']''" for e
  define rows where "rows = concat (map (\<lambda>i. row (?es ! i) @ (if Suc i = length ?es then nl else '','' @ nl)) [0..<length ?es])"
  have out: "fst (fold (print_thread (length ?m)) ?es ('''', 0)) = rows"
    by (simp add: print_threads_loop rows_def row_def len)
  have "is_json (Obj (map (\<lambda>e. thread_json (Tasks r) (fst e)) ?es)) (''{'' @ nl @ rows @ ''    }'')"
  proof (cases "?es = []")
    case True
    then show ?thesis using obj_empty [of "nl @ ''    ''"] by (simp add: rows_def)
  next
    case False
    have "members (map (\<lambda>e. thread_json (Tasks r) (fst e)) ?es) rows"
      unfolding rows_def
      by (rule members_loop [where pr = row and c = nl and e = nl])
        (use False thread_entry_json [OF idx] set_eq in \<open>auto simp: row_def\<close>)
    from obj [OF members_leading [OF members_trailing [OF this, of "''    ''"], of nl]] show ?thesis by simp
  qed
  note threads = one_member [of "''tasks''" "nl @ ''    ''" "[]", OF _ _ _ leading [OF this, of "'' ''"]]
  from leading [OF obj [OF members_trailing [OF more_members [OF spaced_number_member [of "''start''" "nl @ ''    ''" "Start r"]
      more_members [OF spaced_number_member [of "''end''" "nl @ ''    ''" "End r"] threads]], of "nl @ ''  ''"]], of "''  ''"]
  show ?thesis
    by (simp add: print_iteration_def iteration_json_def thread_ids_def out Let_def comp_def)
qed

lemma ToJson_json:
  assumes "Iterations tr \<noteq> []" "\<And>m. mset (traverse m) = mset m"
    "\<And>r i. r \<in> set (Iterations tr) \<Longrightarrow> i < length (Tasks r) \<Longrightarrow> unat (TaskIdx (Tasks r ! i)) = i"
  shows "\<exists>s. ToJson traverse threadNum tr = Some s \<and>
    is_json (Obj [(''thread_num'', Num (uint threadNum)), (''tasks_num'', Num (int (length (Tasks (hd (Iterations tr)))))),
      (''results'', Arr (map (\<lambda>r. iteration_json (thread_ids traverse (Tasks r)) r) (Iterations tr)))]) s \<and>
    (\<forall>r. distinct (thread_ids traverse (Tasks r)) \<and> set (thread_ids traverse (Tasks r)) = ThreadIdx ` set (Tasks r))"
proof -
  let ?rs = "Iterations tr"
  define rows where "rows = concat (map (\<lambda>iter. print_iteration traverse (?rs ! iter)
    @ (if iter + 1 = length ?rs then ''  }'' else ''  },'') @ nl) [0..<length ?rs])"
  have els: "elements (map (\<lambda>r. iteration_json (thread_ids traverse (Tasks r)) r) ?rs) rows"
    unfolding rows_def
    by (rule elements_loop [where pr = "\<lambda>r. print_iteration traverse r @ ''  }''" and c = nl and e = nl])
      (use assms print_iteration_json [of _ traverse] in auto)
  have num: "members [(''tasks_num'', Num (int k))] (nl @ ''\"tasks_num\": '' @ dec k)" for k
    using one_member [of "''tasks_num''" nl "[]" _ "'' '' @ dec k", OF _ _ _ leading [OF number_nat]] by simp
  note results = one_member [of "''results''" nl "[]", OF _ _ _ leading [OF arr [OF elements_leading [OF els, of nl]], of "'' ''"]]
  from trailing [OF obj [OF members_trailing [OF more_members [OF spaced_number_member [of "''thread_num''" nl threadNum]
      more_members [OF num [of "length (Tasks (hd ?rs))"] results]], of nl]], of nl]
  have "is_json (Obj [(''thread_num'', Num (uint threadNum)), (''tasks_num'', Num (int (length (Tasks (hd ?rs))))),
      (''results'', Arr (map (\<lambda>r. iteration_json (thread_ids traverse (Tasks r)) r) ?rs))])
    (the (ToJson traverse threadNum tr))"
    using assms(1) by (simp add: ToJson_def rows_def Let_def)
  moreover have "distinct (thread_ids traverse res)" "set (thread_ids traverse res) = ThreadIdx ` set res" for res
  proof -
    have "mset (thread_ids traverse res) = mset (map fst (resultPerThread res))"
      by (simp add: thread_ids_def assms(2))
    then show "distinct (thread_ids traverse res)" "set (thread_ids traverse res) = ThreadIdx ` set res"
      using resultPerThread_entries [of res] mset_eq_imp_distinct_iff mset_eq_setD by (metis, metis set_map)
  qed
  ultimately show ?thesis using assms(1) by (auto simp: ToJson_def Let_def)
qed

text \<open>
  C36: \<open>ToJson\<close> prints a JSON document with the number of threads, the number of tasks of the first
  iteration and, for each iteration in order, its start and end and, for each thread that ran a task of it,
  exactly that thread's tasks in the order of their indices, provided that entry \<open>i\<close> of an iteration has index \<open>i\<close>
  (which is what \<open>RunIteration\<close> records).
\<close>

theorem ToJson_denotes:
  assumes "Iterations tr \<noteq> []" "\<And>m. mset (traverse m) = mset m"
    "\<And>r i. r \<in> set (Iterations tr) \<Longrightarrow> i < length (Tasks r) \<Longrightarrow> unat (TaskIdx (Tasks r ! i)) = i"
  shows "\<exists>s. ToJson traverse threadNum tr = Some s \<and>
    is_json (Obj [(''thread_num'', Num (uint threadNum)), (''tasks_num'', Num (int (length (Tasks (hd (Iterations tr)))))),
      (''results'', Arr (map (\<lambda>r. iteration_json (thread_ids traverse (Tasks r)) r) (Iterations tr)))]) s \<and>
    (\<forall>r. distinct (thread_ids traverse (Tasks r)) \<and> set (thread_ids traverse (Tasks r)) = ThreadIdx ` set (Tasks r))"
  using ToJson_json [OF assms] .

theorem ToJson_denotes_witness:
  "\<exists>s. ToJson (\<lambda>m. m) 2 \<lparr>Iterations = [\<lparr>Start = 5, Tasks = [new_TaskInfo 0 5 0 6 (-1) 3], End = 9\<rparr>], WroteTrace = (\<lambda>_. 0)\<rparr> = Some s \<and>
    is_json (Obj [(''thread_num'', Num 2), (''tasks_num'', Num 1), (''results'', Arr [Obj [(''start'', Num 5), (''end'', Num 9),
      (''tasks'', Obj [(''-1'', Arr [Obj [(''index'', Num 0), (''trace'', Obj [(''prev_trace'', Num 0),
        (''execution_start'', Num 1), (''execution_end'', Num 0)]), (''cpu'', Num 3)]])])]])]) s"
proof -
  define r where "r = \<lparr>Start = 5, Tasks = [new_TaskInfo 0 5 0 6 (-1) 3], End = 9\<rparr>"
  have group: "resultPerThread (Tasks r) = [(-1, Tasks r)]"
    by (simp add: r_def resultPerThread_def new_TaskInfo_def)
  have "iteration_json (thread_ids (\<lambda>m. m) (Tasks r)) r = Obj [(''start'', Num 5), (''end'', Num 9),
      (''tasks'', Obj [(''-1'', Arr [Obj [(''index'', Num 0), (''trace'', Obj [(''prev_trace'', Num 0),
        (''execution_start'', Num 1), (''execution_end'', Num 0)]), (''cpu'', Num 3)]])])]"
    unfolding thread_ids_def group
    by (simp add: r_def iteration_json_def thread_json_def task_json_def new_TaskInfo_def new_TaskTrace_def dec_int_def
      dec.simps digits_def)
  moreover have "\<And>i. i < length (Tasks r) \<Longrightarrow> unat (TaskIdx (Tasks r ! i)) = i"
    by (simp add: r_def new_TaskInfo_def)
  ultimately show ?thesis
    using ToJson_denotes [of "\<lparr>Iterations = [r], WroteTrace = (\<lambda>_. 0)\<rparr>" "\<lambda>m. m" 2]
    by (auto simp: r_def [symmetric]) (simp add: r_def)
qed

end
