(* ===== verification/Thread_Count.thy ===== *)
theory Thread_Count
  imports Decimal
begin

text \<open>
  src/include/num\_threads.h and src/include/thread\_index.h: the number of threads, which is read from the
  environment once, and the index of the calling thread, which each thread asks for once.  \<open>std::stoi\<close> is
  written out; the environment and the library's index are arguments.
\<close>

section \<open>Reading a number\<close>

text \<open>
  \<open>std::stoi\<close>: skips white space, takes an optional sign and as many digits as there are, and ignores the rest;
  without a digit, and outside the range of \<open>int\<close>, it throws.
\<close>

datatype stoi_error = Invalid_argument | Out_of_range

definition is_space :: "char \<Rightarrow> bool" where
  "is_space c \<longleftrightarrow> c \<in> {CHR '' '', CHR 0x09, CHR 0x0A, CHR 0x0B, CHR 0x0C, CHR 0x0D}"

definition read_sign :: "string \<Rightarrow> int \<times> string" where
  "read_sign s =
     (case s of
        [] \<Rightarrow> (1, [])
      | c # t \<Rightarrow> if c = CHR ''-'' then (- 1, t) else if c = CHR ''+'' then (1, t) else (1, s))"

definition stoi :: "string \<Rightarrow> stoi_error + int" where
  "stoi s =
     (let (sign, t) = read_sign (dropWhile is_space s);
          number = takeWhile is_digit t;
          v = sign * int (undec number)
      in if number = [] then Inl Invalid_argument
         else if v < - (2 ^ 31) \<or> 2 ^ 31 \<le> v then Inl Out_of_range
         else Inr v)"

lemma digit_no_space: "is_digit c \<Longrightarrow> \<not> is_space c \<and> c \<noteq> CHR ''-'' \<and> c \<noteq> CHR ''+''"
  by (auto simp: is_digit_def digits_def is_space_def)

lemma dec_Cons: "\<exists>c t. dec n = c # t \<and> is_digit c"
proof -
  have "dec n \<noteq> []" by (subst dec.simps) simp
  then obtain c t where "dec n = c # t" by (cases "dec n") auto
  then show ?thesis using dec_digits [of c n] by simp
qed

text \<open>What may follow a number: nothing, or something that does not begin with a digit.\<close>

definition ends_number :: "string \<Rightarrow> bool" where
  "ends_number s \<longleftrightarrow> (case s of [] \<Rightarrow> True | c # _ \<Rightarrow> \<not> is_digit c)"

lemma number_prefix: "ends_number s \<Longrightarrow> takeWhile is_digit (dec n @ s) = dec n"
proof -
  assume "ends_number s"
  moreover have "takeWhile is_digit (dec n) = dec n" using dec_digits [of _ n] by (simp add: takeWhile_eq_all_conv)
  ultimately show ?thesis using dec_digits [of _ n] by (cases s) (auto simp: ends_number_def takeWhile_append)
qed

lemma stoi_dec:
  assumes "set blanks \<subseteq> {c. is_space c}" "ends_number s"
  shows "stoi (blanks @ dec n @ s) = (if n < 2 ^ 31 then Inr (int n) else Inl Out_of_range)"
    "stoi (blanks @ CHR ''-'' # dec n @ s) = (if n \<le> 2 ^ 31 then Inr (- int n) else Inl Out_of_range)"
proof -
  obtain c t where dec: "dec n = c # t" "is_digit c" using dec_Cons by blast
  then have ne: "dec n \<noteq> []" by simp
  have skip: "dropWhile is_space (blanks @ x # xs) = x # xs" if "\<not> is_space x" for x xs
    using assms(1) that by (induction blanks) auto
  have minus: "\<not> is_space CHR ''-''" by (simp add: is_space_def)
  have "read_sign (dropWhile is_space (blanks @ dec n @ s)) = (1, dec n @ s)"
    using skip [of c "t @ s"] digit_no_space [OF dec(2)] by (simp add: dec(1) read_sign_def)
  then show "stoi (blanks @ dec n @ s) = (if n < 2 ^ 31 then Inr (int n) else Inl Out_of_range)"
    using number_prefix [OF assms(2), of n] ne by (simp add: stoi_def Let_def)
  have "read_sign (dropWhile is_space (blanks @ CHR ''-'' # dec n @ s)) = (- 1, dec n @ s)"
    using skip [OF minus, of "dec n @ s"] by (simp add: read_sign_def)
  then show "stoi (blanks @ CHR ''-'' # dec n @ s) = (if n \<le> 2 ^ 31 then Inr (- int n) else Inl Out_of_range)"
    using number_prefix [OF assms(2), of n] ne by (simp add: stoi_def Let_def)
qed

section \<open>The number of threads\<close>

definition read_threads :: "(string \<Rightarrow> string option) \<Rightarrow> stoi_error + int" where
  "read_threads getenv =
     (case getenv ''BENCH_NUM_THREADS'' of
        Some envThreads \<Rightarrow> stoi envThreads
      | None \<Rightarrow> (case getenv ''OMP_NUM_THREADS'' of Some envThreads \<Rightarrow> stoi envThreads | None \<Rightarrow> Inr 24))"

text \<open>
  A call, and the static variable \<open>result\<close> after it: it is initialised by the first call, and stays without a
  value when the initialisation throws.
\<close>

definition GetNumThreads :: "(string \<Rightarrow> string option) \<Rightarrow> int option \<Rightarrow> (stoi_error + int) \<times> int option" where
  "GetNumThreads getenv result =
     (case result of
        Some r \<Rightarrow> (Inr r, result)
      | None \<Rightarrow> (case read_threads getenv of Inl e \<Rightarrow> (Inl e, None) | Inr r \<Rightarrow> (Inr r, Some r)))"

text \<open>A sequence of calls, each with the environment of its moment.\<close>

fun thread_counts :: "(string \<Rightarrow> string option) list \<Rightarrow> int option \<Rightarrow> (stoi_error + int) list" where
  "thread_counts [] result = []"
| "thread_counts (env # envs) result =
     (case GetNumThreads env result of (r, result) \<Rightarrow> r # thread_counts envs result)"

lemma thread_counts_fixed: "thread_counts envs (Some r) = replicate (length envs) (Inr r)"
  by (induction envs) (simp_all add: GetNumThreads_def)

lemma thread_counts_first: "read_threads env = Inr r \<Longrightarrow> thread_counts (env # envs) None = Inr r # replicate (length envs) (Inr r)"
  by (simp add: GetNumThreads_def thread_counts_fixed)

lemma thread_counts_retry: "read_threads env = Inl e \<Longrightarrow> thread_counts (env # envs) None = Inl e # thread_counts envs None"
  by (simp add: GetNumThreads_def)

section \<open>The index of a thread\<close>

text \<open>\<open>asked\<close> is what the library answers to the thread's first call; the thread-local constant keeps it.\<close>

datatype library = Lib_TBB | Lib_OMP | Lib_SERIAL | Lib_EIGEN | Lib_TASKFLOW

definition GetThreadIndex :: "library \<Rightarrow> (library \<Rightarrow> int) \<Rightarrow> int option \<Rightarrow> int \<times> int option" where
  "GetThreadIndex lib asked index =
     (case index of
        Some i \<Rightarrow> (i, index)
      | None \<Rightarrow> (let i = (if lib = Lib_SERIAL then 0 else asked lib) in (i, Some i)))"

lemma GetThreadIndex_stays: "GetThreadIndex lib asked None = (i, index) \<Longrightarrow> GetThreadIndex lib asked' index = (i, index)"
  by (auto simp: GetThreadIndex_def Let_def)

section \<open>Property\<close>

text \<open>
  C38: A number printed in decimal, with blanks before it and anything but a digit behind it, is read back from
  \<open>BENCH_NUM_THREADS\<close>, whatever \<open>OMP_NUM_THREADS\<close> holds; a number no \<open>int\<close> can hold makes the call throw.  Every
  later call returns the number of the first call that did not throw, however the environment changes.
\<close>

theorem GetNumThreads_reads:
  assumes "set blanks \<subseteq> {c. is_space c}" "ends_number rest" "env ''BENCH_NUM_THREADS'' = Some (blanks @ dec n @ rest)"
  shows "thread_counts (env # envs) None =
    (if n < 2 ^ 31 then replicate (Suc (length envs)) (Inr (int n)) else Inl Out_of_range # thread_counts envs None)"
proof -
  have "read_threads env = (if n < 2 ^ 31 then Inr (int n) else Inl Out_of_range)"
    using stoi_dec(1) [OF assms(1,2)] assms(3) by (simp add: read_threads_def)
  then show ?thesis using thread_counts_first [of env "int n" envs] thread_counts_retry [of env Out_of_range envs] by simp
qed

theorem GetNumThreads_reads_witness:
  "thread_counts [[''BENCH_NUM_THREADS'' \<mapsto> '' 12 threads'', ''OMP_NUM_THREADS'' \<mapsto> ''x''], Map.empty] None = [Inr 12, Inr 12]"
proof -
  have blank: "set '' '' \<subseteq> {c. is_space c}" and rest: "ends_number '' threads''"
    by (simp_all add: is_space_def ends_number_def is_digit_def digits_def)
  have "[''BENCH_NUM_THREADS'' \<mapsto> '' 12 threads'', ''OMP_NUM_THREADS'' \<mapsto> ''x''] ''BENCH_NUM_THREADS''
      = Some ('' '' @ dec 12 @ '' threads'')"
    by (simp add: dec.simps digits_def)
  from GetNumThreads_reads [where env = "[''BENCH_NUM_THREADS'' \<mapsto> '' 12 threads'', ''OMP_NUM_THREADS'' \<mapsto> ''x'']"
      and n = 12 and envs = "[Map.empty]", OF blank rest this] show ?thesis by simp
qed

end
