(* ===== verification/Barrier_Loops.thy ===== *)
theory Barrier_Loops
  imports Spin_Sync
begin

text \<open>
  The parallel loops whose rounds wait for each other: \<open>Warmup\<close> of src/include/parallel\_for.h, \<open>RunOnce\<close> of
  src/timespan\_tuner/tuner.cpp and \<open>RunWithBarrier\<close> of src/scheduling\_dist/scheduling\_dist.cpp.  Every
  round reports itself and spins until all rounds have, so the loop ends only if each round gets a thread of
  its own.  The rounds are interleaved one atomic access at a time; \<open>who\<close> says which thread is given a round.
\<close>

section \<open>The rounds\<close>

datatype round_pc = Fresh | Entered | Spinning | Passed_round

record 's rounds_state =
  shared :: 's
  round_pcs :: "u64 \<Rightarrow> round_pc"

definition round_step :: "(u64 \<Rightarrow> u64 \<Rightarrow> 's \<Rightarrow> 's) \<Rightarrow> ('s \<Rightarrow> 's) \<Rightarrow> ('s \<Rightarrow> bool) \<Rightarrow> u64 \<Rightarrow> u64 \<Rightarrow> 's rounds_state \<Rightarrow> 's rounds_state" where
  "round_step enter report finished i now s =
     (case round_pcs s i of
        Fresh \<Rightarrow> s\<lparr>shared := enter i now (shared s), round_pcs := (round_pcs s)(i := Entered)\<rparr>
      | Entered \<Rightarrow> s\<lparr>shared := report (shared s), round_pcs := (round_pcs s)(i := Spinning)\<rparr>
      | Spinning \<Rightarrow> if finished (shared s) then s\<lparr>round_pcs := (round_pcs s)(i := Passed_round)\<rparr> else s
      | Passed_round \<Rightarrow> s)"

text \<open>
  A thread runs its rounds one after the other.  \<open>k\<close> counts the steps that are not a turn of a spinning
  loop.
\<close>

definition may_step :: "(u64 \<Rightarrow> nat) \<Rightarrow> u64 \<Rightarrow> u64 \<Rightarrow> 's rounds_state \<Rightarrow> bool" where
  "may_step who n i s \<longleftrightarrow> i < n \<and>
     (round_pcs s i = Fresh \<longrightarrow> (\<forall>j < n. who j = who i \<longrightarrow> round_pcs s j \<in> {Fresh, Passed_round}))"

inductive rounds_run ::
    "(u64 \<Rightarrow> u64 \<Rightarrow> 's \<Rightarrow> 's) \<Rightarrow> ('s \<Rightarrow> 's) \<Rightarrow> ('s \<Rightarrow> bool) \<Rightarrow> (u64 \<Rightarrow> nat) \<Rightarrow> u64 \<Rightarrow> 's \<Rightarrow> nat \<Rightarrow> 's rounds_state \<Rightarrow> bool"
  for enter report finished who n init where
  start: "rounds_run enter report finished who n init 0 \<lparr>shared = init, round_pcs = (\<lambda>_. Fresh)\<rparr>"
| step: "rounds_run enter report finished who n init k s \<Longrightarrow> may_step who n i s \<Longrightarrow>
    rounds_run enter report finished who n init
      (if round_pcs (round_step enter report finished i now s) i \<noteq> round_pcs s i then Suc k else k)
      (round_step enter report finished i now s)"

text \<open>\<open>Warmup\<close>: the shared state is the barrier.\<close>

definition Warmup_run :: "(u64 \<Rightarrow> nat) \<Rightarrow> u64 \<Rightarrow> nat \<Rightarrow> spin_barrier rounds_state \<Rightarrow> bool" where
  "Warmup_run who threadsNum =
     rounds_run (\<lambda>_ _ b. b) (Notify 1) Wait_done who threadsNum (SpinBarrier threadsNum)"

text \<open>
  \<open>RunOnce\<close>: the counter and the times, if they are wanted.  \<open>stray_write\<close> records a write outside the vector of
  the times, after which nothing can be said of the program.
\<close>

record run_once =
  reported :: u64
  times :: "u64 list option"
  stray_write :: bool

definition RunOnce_enter :: "u64 \<Rightarrow> u64 \<Rightarrow> u64 \<Rightarrow> run_once \<Rightarrow> run_once" where
  "RunOnce_enter start i now r =
     (case times r of
        None \<Rightarrow> r
      | Some ts \<Rightarrow>
          if unat i < length ts then r\<lparr>times := Some (ts[unat i := now - start])\<rparr> else r\<lparr>stray_write := True\<rparr>)"

definition RunOnce_report :: "run_once \<Rightarrow> run_once" where
  "RunOnce_report r = r\<lparr>reported := reported r + 1\<rparr>"

definition RunOnce_run :: "(u64 \<Rightarrow> nat) \<Rightarrow> u64 \<Rightarrow> u64 \<Rightarrow> u64 list option \<Rightarrow> nat \<Rightarrow> run_once rounds_state \<Rightarrow> bool" where
  "RunOnce_run who threadNum start ts =
     rounds_run (RunOnce_enter start) RunOnce_report (\<lambda>r. reported r = threadNum) who threadNum
       \<lparr>reported = 0, times = ts, stray_write = False\<rparr>"

text \<open>\<open>RunWithBarrier\<close>: the counter.\<close>

definition RunWithBarrier_run :: "(u64 \<Rightarrow> nat) \<Rightarrow> u64 \<Rightarrow> nat \<Rightarrow> u64 rounds_state \<Rightarrow> bool" where
  "RunWithBarrier_run who threadNum =
     rounds_run (\<lambda>_ _ r. r) (\<lambda>r. r + 1) (\<lambda>r. r = threadNum) who threadNum 0"

section \<open>What the rounds rely on\<close>

text \<open>\<open>reports\<close> is the number of reports the shared state has seen.\<close>

locale rendezvous =
  fixes enter :: "u64 \<Rightarrow> u64 \<Rightarrow> 's \<Rightarrow> 's"
    and report :: "'s \<Rightarrow> 's"
    and finished :: "'s \<Rightarrow> bool"
    and n :: u64
    and init :: 's
    and reports :: "'s \<Rightarrow> nat"
    and ok :: "'s \<Rightarrow> bool"
  assumes init_reports: "ok init \<and> reports init = 0"
    and enter_reports: "ok c \<Longrightarrow> ok (enter i now c) \<and> reports (enter i now c) = reports c"
    and report_reports: "ok c \<Longrightarrow> reports c < unat n \<Longrightarrow> ok (report c) \<and> reports (report c) = Suc (reports c)"
    and finished_reports: "ok c \<Longrightarrow> reports c \<le> unat n \<Longrightarrow> finished c \<longleftrightarrow> reports c = unat n"
begin

text \<open>The rounds that have reported, and the steps made.\<close>

definition reporters :: "'s rounds_state \<Rightarrow> u64 set" where
  "reporters s = {i. i < n \<and> round_pcs s i \<in> {Spinning, Passed_round}}"

definition pc_steps :: "round_pc \<Rightarrow> nat" where
  "pc_steps pc = (case pc of Fresh \<Rightarrow> 0 | Entered \<Rightarrow> 1 | Spinning \<Rightarrow> 2 | Passed_round \<Rightarrow> 3)"

definition rounds_inv :: "(u64 \<Rightarrow> nat) \<Rightarrow> nat \<Rightarrow> 's rounds_state \<Rightarrow> bool" where
  "rounds_inv who k s \<longleftrightarrow> ok (shared s) \<and> reports (shared s) = card (reporters s) \<and>
     ((\<exists>i < n. round_pcs s i = Passed_round) \<longrightarrow> card (reporters s) = unat n) \<and>
     k = (\<Sum>i | i < n. pc_steps (round_pcs s i)) \<and>
     ((\<exists>i < n. round_pcs s i = Passed_round) \<or>
       (\<forall>i < n. \<forall>j < n. i \<noteq> j \<longrightarrow> who i = who j \<longrightarrow> round_pcs s i = Fresh \<or> round_pcs s j = Fresh))"

lemma rounds_finite: "finite {i. i < n}" "card {i. i < n} = unat n"
proof -
  have "set (indices 0 n) = {i. i < n}" by (auto simp: set_indices)
  then show "card {i. i < n} = unat n" using distinct_card [OF distinct_indices [of 0 n]] by simp
qed simp

lemma reporters_sub: "reporters s \<subseteq> {i. i < n}"
  by (auto simp: reporters_def)

lemma reporters_finite: "finite (reporters s)" "card (reporters s) \<le> unat n"
  using card_mono [OF rounds_finite(1) reporters_sub [of s]] by (simp_all add: rounds_finite(2))

lemma all_reported: "card (reporters s) = unat n \<longleftrightarrow> (\<forall>i < n. round_pcs s i \<in> {Spinning, Passed_round})"
proof
  assume "card (reporters s) = unat n"
  then have "reporters s = {i. i < n}"
    by (intro card_subset_eq [OF rounds_finite(1) reporters_sub]) (simp only: rounds_finite(2))
  then show "\<forall>i < n. round_pcs s i \<in> {Spinning, Passed_round}" unfolding reporters_def by blast
next
  assume "\<forall>i < n. round_pcs s i \<in> {Spinning, Passed_round}"
  then have "reporters s = {i. i < n}" unfolding reporters_def by blast
  then show "card (reporters s) = unat n" by (simp only: rounds_finite(2))
qed

lemma sum_upd:
  assumes "i < n"
  shows "(\<Sum>j | j < n. pc_steps ((pcs(i := pc)) j)) + pc_steps (pcs i) = (\<Sum>j | j < n. pc_steps (pcs j)) + pc_steps pc"
proof -
  have "(\<Sum>j | j < n. g j) = g i + (\<Sum>j \<in> {j. j < n} - {i}. g j)" for g :: "u64 \<Rightarrow> nat"
    using assms rounds_finite(1) by (subst sum.remove [of _ i]) auto
  moreover have "(\<Sum>j \<in> {j. j < n} - {i}. pc_steps ((pcs(i := pc)) j)) = (\<Sum>j \<in> {j. j < n} - {i}. pc_steps (pcs j))"
    by (rule sum.cong) auto
  ultimately show ?thesis by simp
qed

lemma rounds_inv_step:
  assumes inv: "rounds_inv who k s" and may: "may_step who n i s"
  shows "rounds_inv who (if round_pcs (round_step enter report finished i now s) i \<noteq> round_pcs s i then Suc k else k)
    (round_step enter report finished i now s)"
proof -
  have i: "i < n" using may by (simp add: may_step_def)
  have ok: "ok (shared s)" and rep: "reports (shared s) = card (reporters s)"
    and passed: "(\<exists>j < n. round_pcs s j = Passed_round) \<Longrightarrow> card (reporters s) = unat n"
    and k: "k = (\<Sum>j | j < n. pc_steps (round_pcs s j))"
    and sep: "(\<exists>j < n. round_pcs s j = Passed_round) \<or>
       (\<forall>i < n. \<forall>j < n. i \<noteq> j \<longrightarrow> who i = who j \<longrightarrow> round_pcs s i = Fresh \<or> round_pcs s j = Fresh)"
    using inv by (auto simp: rounds_inv_def)
  note sum = sum_upd [OF i, of "round_pcs s"]
  show ?thesis
  proof (cases "round_pcs s i")
    case Fresh
    have none: "\<not> (\<exists>j < n. round_pcs s j = Passed_round)"
      using passed Fresh i all_reported [of s] by auto
    have "reporters (round_step enter report finished i now s) = reporters s"
      using Fresh by (auto simp: reporters_def round_step_def)
    moreover have "round_pcs s j = Fresh" if "j < n" "who j = who i" for j
      using may Fresh that none by (auto simp: may_step_def)
    ultimately show ?thesis
      using Fresh ok rep none sep k sum [of Entered] enter_reports [OF ok]
      by (auto simp: rounds_inv_def round_step_def pc_steps_def)
  next
    case Entered
    have none: "\<not> (\<exists>j < n. round_pcs s j = Passed_round)"
      using passed Entered i all_reported [of s] by auto
    have new: "reporters (round_step enter report finished i now s) = insert i (reporters s)" "i \<notin> reporters s"
      using Entered i by (auto simp: reporters_def round_step_def)
    then have card: "card (reporters (round_step enter report finished i now s)) = Suc (card (reporters s))"
      using reporters_finite(1) by simp
    then have "card (reporters s) < unat n"
      using reporters_finite(2) [of "round_step enter report finished i now s"] by simp
    then show ?thesis
      using Entered ok rep none sep k sum [of Spinning] report_reports [OF ok] card
      by (auto simp: rounds_inv_def round_step_def pc_steps_def)
  next
    case Spinning
    have "reporters (round_step enter report finished i now s) = reporters s"
      using Spinning by (auto simp: reporters_def round_step_def)
    moreover have "finished (shared s) \<longleftrightarrow> card (reporters s) = unat n"
      using finished_reports [OF ok] rep reporters_finite(2) [of s] by simp
    ultimately show ?thesis
      using Spinning ok rep passed sep k sum [of Passed_round] i inv
      by (auto simp: rounds_inv_def round_step_def pc_steps_def)
  next
    case Passed_round
    then show ?thesis using inv by (simp add: round_step_def)
  qed
qed

lemma run_rounds_inv: "rounds_run enter report finished who n init k s \<Longrightarrow> rounds_inv who k s"
proof (induction rule: rounds_run.induct)
  case start
  have "reporters \<lparr>shared = init, round_pcs = (\<lambda>_. Fresh)\<rparr> = {}" by (simp add: reporters_def)
  then show ?case using init_reports by (simp add: rounds_inv_def pc_steps_def)
next
  case (step k s i now)
  from rounds_inv_step [OF step(3,2)] show ?case .
qed

lemma rendezvous_waits:
  assumes "rounds_run enter report finished who n init k s" "i < n" "round_pcs s i = Passed_round" "j < n"
  shows "round_pcs s j \<in> {Spinning, Passed_round}"
  using run_rounds_inv [OF assms(1)] assms(2-4) all_reported [of s] unfolding rounds_inv_def by blast

lemma rendezvous_bound:
  assumes "rounds_run enter report finished who n init k s"
  shows "k \<le> 3 * unat n"
proof -
  have "(\<Sum>i | i < n. pc_steps (round_pcs s i)) \<le> (\<Sum>i | i < n. 3)"
    by (rule sum_mono) (simp add: pc_steps_def split: round_pc.split)
  then show ?thesis using run_rounds_inv [OF assms] rounds_finite(2) by (simp add: rounds_inv_def mult.commute)
qed

lemma rendezvous_progress:
  assumes run: "rounds_run enter report finished who n init k s" and inj: "inj_on who {i. i < n}"
    and "\<exists>i < n. round_pcs s i \<noteq> Passed_round"
  shows "\<exists>i now. may_step who n i s \<and> round_pcs (round_step enter report finished i now s) i \<noteq> round_pcs s i"
proof (cases "\<exists>i < n. round_pcs s i \<in> {Fresh, Entered}")
  case True
  then obtain i where i: "i < n" "round_pcs s i \<in> {Fresh, Entered}" by blast
  have "j = i" if "j < n" "who j = who i" for j using inj_onD [OF inj that(2)] that(1) i(1) by simp
  then have "may_step who n i s" using i by (auto simp: may_step_def)
  then show ?thesis using i(2) by (auto simp: round_step_def intro!: exI [of _ i])
next
  case False
  then have "\<forall>j < n. round_pcs s j \<in> {Spinning, Passed_round}" by (metis insertCI round_pc.exhaust)
  then have full: "card (reporters s) = unat n" by (simp add: all_reported)
  then have fin: "finished (shared s)" using run_rounds_inv [OF run] finished_reports by (simp add: rounds_inv_def)
  obtain i where i: "i < n" "round_pcs s i = Spinning"
    using assms(3) \<open>\<forall>j < n. _ j\<close> by blast
  then show ?thesis using fin by (auto simp: round_step_def may_step_def intro!: exI [of _ i])
qed

text \<open>With a thread for each round the loop can always be brought to its end.\<close>

lemma rendezvous_ends:
  assumes inj: "inj_on who {i. i < n}" and "rounds_run enter report finished who n init k s"
  shows "\<exists>k s. rounds_run enter report finished who n init k s \<and> (\<forall>i < n. round_pcs s i = Passed_round)"
  using assms(2)
proof (induction "3 * unat n - k" arbitrary: k s rule: less_induct)
  case less
  show ?case
  proof (cases "\<forall>i < n. round_pcs s i = Passed_round")
    case True
    then show ?thesis using less.prems by blast
  next
    case False
    then obtain i now where i: "may_step who n i s" "round_pcs (round_step enter report finished i now s) i \<noteq> round_pcs s i"
      using rendezvous_progress [OF less.prems inj] by blast
    from rounds_run.step [OF less.prems i(1), of now] i(2)
    have run: "rounds_run enter report finished who n init (Suc k) (round_step enter report finished i now s)" by simp
    then have "3 * unat n - Suc k < 3 * unat n - k" using rendezvous_bound [OF run] by simp
    from less.hyps [OF this run] show ?thesis .
  qed
qed

lemma rendezvous_shared_thread:
  assumes run: "rounds_run enter report finished who n init k s" and shared: "\<not> inj_on who {i. i < n}"
  shows "\<forall>i < n. round_pcs s i \<noteq> Passed_round"
  using run
proof (induction rule: rounds_run.induct)
  case (step k s a now)
  have inv: "rounds_inv who k s" by (rule run_rounds_inv [OF step(1)])
  obtain b c where bc: "b < n" "c < n" "b \<noteq> c" "who b = who c" using shared by (auto simp: inj_on_def)
  have "round_pcs s b = Fresh \<or> round_pcs s c = Fresh" using inv step.IH bc unfolding rounds_inv_def by blast
  then have "card (reporters s) \<noteq> unat n" unfolding all_reported using bc by force
  then have "\<not> finished (shared s)"
    using inv finished_reports [of "shared s"] reporters_finite(2) [of s] by (simp add: rounds_inv_def)
  then show ?case using step.IH by (simp add: round_step_def split: round_pc.split)
qed simp

end

section \<open>The three loops\<close>

lemma barrier_reports:
  assumes "remain (b :: spin_barrier) \<le> n" "unat n - unat (remain b) < unat n"
  shows "remain b - 1 \<le> n \<and> unat n - unat (remain b - 1) = Suc (unat n - unat (remain b))"
proof -
  have "1 \<le> unat (remain b)" using assms(2) by linarith
  then have "1 \<le> remain b" by (simp add: word_le_nat_alt)
  then have "unat (remain b - 1) = unat (remain b) - 1" using u64_sub [of 1 "remain b"] by simp
  then show ?thesis using assms \<open>1 \<le> unat (remain b)\<close> by (simp add: word_le_nat_alt) linarith
qed

interpretation warmup: rendezvous "\<lambda>_ _ b. b" "Notify 1" Wait_done n "SpinBarrier n"
    "\<lambda>b. unat n - unat (remain b)" "\<lambda>b. remain b \<le> n" for n
proof unfold_locales
  fix b :: spin_barrier
  assume b: "remain b \<le> n"
  show "remain (Notify 1 b) \<le> n \<and> unat n - unat (remain (Notify 1 b)) = Suc (unat n - unat (remain b))"
    if "unat n - unat (remain b) < unat n" using barrier_reports [OF b that] by (simp add: Notify_def)
  have "unat (remain b) \<le> unat n" using b by (simp add: word_le_nat_alt)
  then show "Wait_done b \<longleftrightarrow> unat n - unat (remain b) = unat n"
    unfolding Wait_done_def by (metis diff_diff_cancel diff_zero diff_self_eq_0 unat_eq_zero)
qed (simp_all add: SpinBarrier_def)

interpretation run_once: rendezvous "RunOnce_enter start" RunOnce_report "\<lambda>r. reported r = n" n
    "\<lparr>reported = 0, times = ts, stray_write = False\<rparr>" "\<lambda>r. unat (reported r)" "\<lambda>_. True" for n start ts
proof unfold_locales
  fix r :: run_once
  show "True \<and> unat (reported (RunOnce_report r)) = Suc (unat (reported r))" if "unat (reported r) < unat n"
    using u64_Suc [OF that] by (simp add: RunOnce_report_def)
qed (auto simp: RunOnce_enter_def word_unat_eq_iff split: option.split)

interpretation with_barrier: rendezvous "\<lambda>_ _ r. r" "\<lambda>r. r + 1" "\<lambda>r. r = n" n 0 unat "\<lambda>_. True" for n :: u64
  by unfold_locales (auto simp: u64_Suc word_unat_eq_iff)

text \<open>With a vector of one time per round, as the program passes it, no write is outside.\<close>

lemma RunOnce_writes_inside:
  assumes "RunOnce_run who n start (Some ts) k s" "length ts = unat n"
  shows "\<not> stray_write (shared s)"
proof -
  have "\<not> stray_write (shared s) \<and> (\<exists>us. times (shared s) = Some us \<and> length us = unat n)"
    using assms(1) unfolding RunOnce_run_def
  proof induction
    case (step k s i now)
    then have "unat i < unat n" by (simp add: may_step_def word_less_nat_alt)
    with step.IH show ?case
      by (auto simp: round_step_def RunOnce_enter_def RunOnce_report_def split: round_pc.split)
  qed (use assms(2) in simp)
  then show ?thesis by simp
qed

lemma Warmup_ends:
  assumes "inj_on who {i. i < n}"
  shows "\<exists>k s. Warmup_run who n k s \<and> (\<forall>i < n. round_pcs s i = Passed_round)"
  unfolding Warmup_run_def using warmup.rendezvous_ends [OF assms rounds_run.start] .

lemma Warmup_own_threads:
  assumes "Warmup_run who n k s" "\<forall>i < n. round_pcs s i = Passed_round"
  shows "inj_on who {i. i < n}"
proof (rule ccontr)
  assume shared: "\<not> inj_on who {i. i < n}"
  then obtain i where "i < n" by (auto simp: inj_on_def)
  then show False
    using warmup.rendezvous_shared_thread [OF assms(1) [unfolded Warmup_run_def] shared] assms(2) by auto
qed

text \<open>
  What the loops promise about every state they can reach: \<open>k\<close> steps have been made, not counting the turns
  of spinning loops.
\<close>

definition rendezvous_spec ::
    "(u64 \<Rightarrow> u64 \<Rightarrow> 's rounds_state \<Rightarrow> 's rounds_state) \<Rightarrow> (u64 \<Rightarrow> nat) \<Rightarrow> u64 \<Rightarrow> (nat \<Rightarrow> 's rounds_state \<Rightarrow> bool) \<Rightarrow> bool" where
  "rendezvous_spec stp who n run \<longleftrightarrow> (\<forall>k s. run k s \<longrightarrow> k \<le> 3 * unat n \<and>
     (\<forall>i < n. \<forall>j < n. round_pcs s i = Passed_round \<longrightarrow> round_pcs s j \<in> {Spinning, Passed_round}) \<and>
     (if inj_on who {i. i < n} then
        (\<forall>i < n. round_pcs s i = Passed_round) \<or> (\<exists>i now. may_step who n i s \<and> round_pcs (stp i now s) i \<noteq> round_pcs s i)
      else \<forall>i < n. round_pcs s i \<noteq> Passed_round))"

context rendezvous
begin

lemma rendezvous_all: "rendezvous_spec (round_step enter report finished) who n (rounds_run enter report finished who n init)"
  unfolding rendezvous_spec_def
  using rendezvous_bound rendezvous_waits rendezvous_progress rendezvous_shared_thread by metis

end

text \<open>
  C39: In \<open>Warmup\<close>, in the tuner's \<open>RunOnce\<close> and in \<open>RunWithBarrier\<close> no round ends before all have reported.  If
  every round has a thread of its own, the loop ends: it makes at most three steps per round, not counting the
  turns of spinning loops, and until it has ended some thread can make one.  If a thread is given two rounds,
  no round ever ends.
\<close>

theorem barrier_loops_end:
  "rendezvous_spec (round_step (\<lambda>_ _ b. b) (Notify 1) Wait_done) who n (Warmup_run who n) \<and>
   rendezvous_spec (round_step (RunOnce_enter start) RunOnce_report (\<lambda>r. reported r = n)) who n (RunOnce_run who n start ts) \<and>
   rendezvous_spec (round_step (\<lambda>_ _ r. r) (\<lambda>r. r + 1) (\<lambda>r. r = n)) who n (RunWithBarrier_run who n)"
  unfolding Warmup_run_def RunOnce_run_def RunWithBarrier_run_def
  using warmup.rendezvous_all run_once.rendezvous_all with_barrier.rendezvous_all by blast

end
