(* ===== verification/Scheduling_Dist.thy ===== *)
theory Scheduling_Dist
  imports Trace_Json Thread_Count Barrier_Loops
begin

text \<open>
  The programs src/scheduling\_dist/scheduling\_dist.cpp and src/trace\_spin/trace\_spin.cpp: they run a parallel
  loop a number of times, record every task and print the records.  What the scheduler does in an iteration
  (the calls that the rounds make, and the clock) is an argument, as in \<open>Iteration_Trace\<close>; the bodies of the
  loops only spin or wait for each other (\<open>Barrier_Loops\<close>) and leave no trace of their own.  Before the loops
  \<open>InitParallel\<close> of src/include/parallel\_for.h pins the threads and warms them up; a run of it is an argument
  as well, and the program goes on only if it has ended.
\<close>

section \<open>Initialisation\<close>

text \<open>
  How far a run of \<open>InitParallel\<close> gets: the barrier of \<open>EigenPinner\<close> in the modes that have one (those of Eigen but
  EIGEN\_RAPID), and the rounds of \<open>Warmup\<close> in the modes that call it (all but HPX and OMP\_RUNTIME, which have no
  barrier there).  The setting up of the libraries leaves nothing the programs see.
\<close>

record init_run =
  pinning :: "spin_barrier option"
  warming :: "spin_barrier rounds_state option"

text \<open>It has returned when the main thread has passed the pinner's barrier and every round of the warm-up has.\<close>

definition InitParallel :: "init_run \<Rightarrow> u64 \<Rightarrow> bool" where
  "InitParallel init threadsNum \<longleftrightarrow>
     (case pinning init of None \<Rightarrow> True | Some b \<Rightarrow> barrier_pcs b 0 = Passed) \<and>
     (case warming init of None \<Rightarrow> True | Some s \<Rightarrow> \<forall>i \<in> set (indices 0 threadsNum). round_pcs s i = Passed_round)"

text \<open>The states a run can be in; \<open>who\<close> gives each round of the warm-up its thread.\<close>

definition init_reached :: "(u64 \<Rightarrow> nat) \<Rightarrow> u64 \<Rightarrow> init_run \<Rightarrow> bool" where
  "init_reached who threadsNum init \<longleftrightarrow>
     (\<forall>b. pinning init = Some b \<longrightarrow> pinner_run threadsNum b) \<and>
     (\<forall>s. warming init = Some s \<longrightarrow> (\<exists>k. Warmup_run who threadsNum k s))"

lemma set_all: "(\<forall>i \<in> set (indices 0 n). P i) \<longleftrightarrow> (\<forall>i < n. P i)"
  by (auto simp: set_indices)

lemma InitParallel_needs:
  assumes "init_reached who n init" "InitParallel init n"
  shows "(pinning init \<noteq> None \<longrightarrow> n \<noteq> 0) \<and> (warming init \<noteq> None \<longrightarrow> inj_on who {i. i < n})"
proof (intro conjI impI)
  show "n \<noteq> 0" if "pinning init \<noteq> None"
    using that assms pinner_of_none unfolding init_reached_def InitParallel_def by auto
  show "inj_on who {i. i < n}" if w: "warming init \<noteq> None"
  proof -
    obtain s where s: "warming init = Some s" using w by blast
    then obtain k where "Warmup_run who n k s" using assms(1) by (auto simp: init_reached_def)
    moreover have "\<forall>i < n. round_pcs s i = Passed_round" using assms(2) s by (simp add: InitParallel_def set_all)
    ultimately show ?thesis by (rule Warmup_own_threads)
  qed
qed

text \<open>With a thread at all, and one for each round, it can end.\<close>

lemma InitParallel_ends:
  assumes "n \<noteq> 0" "inj_on who {i. i < n}"
  shows "\<exists>b s. init_reached who n \<lparr>pinning = Some b, warming = Some s\<rparr> \<and> InitParallel \<lparr>pinning = Some b, warming = Some s\<rparr> n"
proof -
  obtain b where "pinner_run n b" "barrier_pcs b 0 = Passed" using pinner_returns assms(1) by (auto simp: word_neq_0_conv)
  moreover obtain k s where "Warmup_run who n k s" "\<forall>i < n. round_pcs s i = Passed_round"
    using Warmup_ends [OF assms(2)] by blast
  ultimately show ?thesis by (auto simp: init_reached_def InitParallel_def set_all)
qed

section \<open>The programs\<close>

datatype measure_mode = BARRIER | SPIN | MULTITASK

record iteration_run =
  it_start :: u64
  it_calls :: "task_call list"
  it_end :: u64

definition traced_loop :: "(nat \<Rightarrow> int) \<Rightarrow> u64 \<Rightarrow> iteration_run \<Rightarrow> Tracer \<Rightarrow> Tracer option" where
  "traced_loop thread_index tasksCount it = RunIteration thread_index tasksCount (it_start it) (it_calls it) (it_end it)"

definition RunWithBarrier :: "(nat \<Rightarrow> int) \<Rightarrow> u64 \<Rightarrow> iteration_run \<Rightarrow> Tracer \<Rightarrow> Tracer option" where
  "RunWithBarrier thread_index threadNum = traced_loop thread_index threadNum"

text \<open>How often each task of \<open>RunWithSpin\<close> pauses, and the loop.\<close>

definition spinPerIter :: "u64 \<Rightarrow> u64" where
  "spinPerIter tasksPerThread = 100000000 div tasksPerThread"

definition RunWithSpin :: "(nat \<Rightarrow> int) \<Rightarrow> u64 \<Rightarrow> u64 \<Rightarrow> iteration_run \<Rightarrow> Tracer \<Rightarrow> Tracer option" where
  "RunWithSpin thread_index threadNum tasksPerThread =
     (let tasksCount = threadNum * tasksPerThread in traced_loop thread_index tasksCount)"

definition RunOnce :: "measure_mode \<Rightarrow> (nat \<Rightarrow> int) \<Rightarrow> u64 \<Rightarrow> iteration_run \<Rightarrow> Tracer \<Rightarrow> Tracer option" where
  "RunOnce mode thread_index threadNum =
     (case mode of
        BARRIER \<Rightarrow> RunWithBarrier thread_index threadNum
      | SPIN \<Rightarrow> RunWithSpin thread_index threadNum 1
      | MULTITASK \<Rightarrow> RunWithSpin thread_index threadNum 100)"

definition RunSpin :: "(nat \<Rightarrow> int) \<Rightarrow> u64 \<Rightarrow> iteration_run \<Rightarrow> Tracer \<Rightarrow> Tracer option" where
  "RunSpin thread_index threadNum = traced_loop thread_index threadNum"

text \<open>
  The program: the number of threads as an \<open>int\<close> from the environment, which is converted to \<open>size_t\<close>, the
  initialisation, the loop of \<open>iters\<close> iterations and the output.  \<open>Inl\<close> is an exception that ends the program,
  \<open>Inr None\<close> a run that does not get to the output.
\<close>

definition new_Tracer :: Tracer where
  "new_Tracer = \<lparr>Iterations = [], WroteTrace = (\<lambda>_. 0)\<rparr>"

definition traced_main ::
    "(u64 \<Rightarrow> iteration_run \<Rightarrow> Tracer \<Rightarrow> Tracer option) \<Rightarrow> nat \<Rightarrow> init_run \<Rightarrow> (string \<Rightarrow> string option)
      \<Rightarrow> ((int \<times> TaskInfo list) list \<Rightarrow> (int \<times> TaskInfo list) list) \<Rightarrow> (nat \<Rightarrow> iteration_run) \<Rightarrow> stoi_error + string option" where
  "traced_main run iters init getenv traverse its =
     (case fst (GetNumThreads getenv None) of
        Inl e \<Rightarrow> Inl e
      | Inr n \<Rightarrow>
          (let threadNum = of_int n
           in if \<not> InitParallel init threadNum then Inr None
              else Inr (Option.bind (foldM (\<lambda>i. run threadNum (its i)) [0..<iters] new_Tracer) (ToJson traverse threadNum))))"

definition scheduling_dist_main ::
    "measure_mode \<Rightarrow> (nat \<Rightarrow> int) \<Rightarrow> init_run \<Rightarrow> (string \<Rightarrow> string option)
      \<Rightarrow> ((int \<times> TaskInfo list) list \<Rightarrow> (int \<times> TaskInfo list) list) \<Rightarrow> (nat \<Rightarrow> iteration_run) \<Rightarrow> stoi_error + string option" where
  "scheduling_dist_main mode thread_index = traced_main (RunOnce mode thread_index) 10"

definition trace_spin_main ::
    "(nat \<Rightarrow> int) \<Rightarrow> init_run \<Rightarrow> (string \<Rightarrow> string option)
      \<Rightarrow> ((int \<times> TaskInfo list) list \<Rightarrow> (int \<times> TaskInfo list) list) \<Rightarrow> (nat \<Rightarrow> iteration_run) \<Rightarrow> stoi_error + string option" where
  "trace_spin_main thread_index = traced_main (RunSpin thread_index) 1024"

text \<open>The number of tasks of an iteration; the tasks of a thread pause as often as one long task does.\<close>

definition tasks_of :: "measure_mode \<Rightarrow> u64 \<Rightarrow> u64" where
  "tasks_of mode threadNum = (case mode of MULTITASK \<Rightarrow> threadNum * 100 | _ \<Rightarrow> threadNum)"

lemma RunOnce_loop: "RunOnce mode thread_index n = traced_loop thread_index (tasks_of mode n)"
  by (cases mode) (simp_all add: RunOnce_def RunWithBarrier_def RunWithSpin_def tasks_of_def)

lemma spin_total: "100 * spinPerIter 100 = spinPerIter 1"
  by (simp add: spinPerIter_def)

section \<open>The iterations\<close>

text \<open>What an iteration is: its rounds are those of one run of \<open>ParallelFor\<close>, in some order and overlapping.\<close>

definition scheduled :: "u64 \<Rightarrow> u64 \<Rightarrow> iteration_run \<Rightarrow> bool" where
  "scheduled threads cnt it \<longleftrightarrow>
     (\<exists>init m stack_empty xs. eigen_order init m stack_empty threads 1 0 cnt xs \<and> rounds xs (it_calls it))"

definition recorded_run :: "(nat \<Rightarrow> int) \<Rightarrow> u64 \<Rightarrow> iteration_run \<Rightarrow> IterationResult \<Rightarrow> bool" where
  "recorded_run thread_index cnt it r \<longleftrightarrow> Start r = it_start it \<and> End r = it_end it - it_start it \<and>
     length (Tasks r) = unat cnt \<and>
     (\<forall>i < cnt. \<exists>w0. recorded_as thread_index w0 (it_start it) (it_calls it) i (Tasks r ! unat i))"

lemma recorded_TaskIdx:
  assumes "recorded_run thread_index cnt it r" "i < length (Tasks r)"
  shows "unat (TaskIdx (Tasks r ! i)) = i"
proof -
  have small: "i < 2 ^ 64" and i: "i < unat cnt" using assms u64_bound [of cnt] by (simp_all add: recorded_run_def)
  then have u: "unat (of_nat i :: u64) = i" by (simp add: unat_of_nat)
  then have "(of_nat i :: u64) < cnt" using i by (simp add: word_less_nat_alt)
  then obtain w0 where "recorded_as thread_index w0 (it_start it) (it_calls it) (of_nat i) (Tasks r ! i)"
    using assms(1) u unfolding recorded_run_def by metis
  then have "TaskIdx (Tasks r ! i) = of_nat i" unfolding recorded_as_def by fastforce
  then show ?thesis by (simp only: u)
qed

lemma traced_loop_records:
  assumes "loop_ok threads 0 cnt 1" "scheduled threads cnt it"
  shows "\<exists>tr' r. traced_loop thread_index cnt it tr = Some tr' \<and> Iterations tr' = Iterations tr @ [r]
    \<and> recorded_run thread_index cnt it r"
  using assms(2) RunIteration_outcome [OF assms(1)] unfolding scheduled_def traced_loop_def recorded_run_def by metis

lemma traced_loops:
  assumes "loop_ok threads 0 cnt 1" "\<And>i. i \<in> set ks \<Longrightarrow> scheduled threads cnt (its i)"
  shows "\<exists>tr' rs. foldM (\<lambda>i. traced_loop thread_index cnt (its i)) ks tr = Some tr' \<and> Iterations tr' = Iterations tr @ rs
    \<and> list_all2 (\<lambda>i. recorded_run thread_index cnt (its i)) ks rs"
  using assms(2)
proof (induction ks arbitrary: tr)
  case (Cons i ks)
  from traced_loop_records [OF assms(1), of "its i" thread_index tr] Cons.prems obtain tr1 r where
    1: "traced_loop thread_index cnt (its i) tr = Some tr1" "Iterations tr1 = Iterations tr @ [r]"
      "recorded_run thread_index cnt (its i) r" by auto
  from Cons.IH [of tr1] Cons.prems obtain tr2 rs where
    2: "foldM (\<lambda>i. traced_loop thread_index cnt (its i)) ks tr1 = Some tr2" "Iterations tr2 = Iterations tr1 @ rs"
      "list_all2 (\<lambda>i. recorded_run thread_index cnt (its i)) ks rs" by auto
  show ?case by (rule exI [of _ tr2], rule exI [of _ "r # rs"]) (use 1 2 in simp)
qed simp

text \<open>The output of a program.\<close>

definition results_json :: "((int \<times> TaskInfo list) list \<Rightarrow> (int \<times> TaskInfo list) list) \<Rightarrow> u64 \<Rightarrow> u64 \<Rightarrow> IterationResult list \<Rightarrow> json" where
  "results_json traverse threadNum cnt rs = Obj [(''thread_num'', Num (uint threadNum)), (''tasks_num'', Num (uint cnt)),
     (''results'', Arr (map (\<lambda>r. iteration_json (thread_ids traverse (Tasks r)) r) rs))]"

lemma traced_main_output:
  assumes threads: "read_threads getenv = Inr n" and init: "InitParallel init (of_int n)" and ok: "loop_ok threads 0 cnt 1"
    and run: "run (of_int n) = traced_loop thread_index cnt" and iters: "0 < iters"
    and its: "\<And>i. i < iters \<Longrightarrow> scheduled threads cnt (its i)" and trav: "\<And>m. mset (traverse m) = mset m"
  shows "\<exists>s rs. traced_main run iters init getenv traverse its = Inr (Some s) \<and> length rs = iters \<and>
    (\<forall>k < iters. recorded_run thread_index cnt (its k) (rs ! k)) \<and> is_json (results_json traverse (of_int n) cnt rs) s"
proof -
  from traced_loops [OF ok, of "[0..<iters]" its thread_index new_Tracer] its obtain tr rs where
    fold: "foldM (\<lambda>i. traced_loop thread_index cnt (its i)) [0..<iters] new_Tracer = Some tr" "Iterations tr = rs"
    and rs: "list_all2 (\<lambda>i. recorded_run thread_index cnt (its i)) [0..<iters] rs"
    by (auto simp: new_Tracer_def)
  have len: "length rs = iters" using list_all2_lengthD [OF rs] by simp
  have rec: "recorded_run thread_index cnt (its k) (rs ! k)" if "k < iters" for k
    using list_all2_nthD [OF rs, of k] that by simp
  have idx: "unat (TaskIdx (Tasks r ! i)) = i" if "r \<in> set (Iterations tr)" "i < length (Tasks r)" for r i
    using that rec recorded_TaskIdx len unfolding fold(2) in_set_conv_nth by metis
  have ne: "Iterations tr \<noteq> []" using fold(2) len iters by auto
  have "length (Tasks (hd rs)) = unat cnt" using rec [OF iters] len iters by (cases rs) (auto simp: recorded_run_def)
  then have cnt: "int (length (Tasks (hd rs))) = uint cnt" by simp
  from ToJson_json [OF ne trav idx, of "of_int n"] obtain s where s: "ToJson traverse (of_int n) tr = Some s"
    "is_json (results_json traverse (of_int n) cnt rs) s"
    unfolding fold(2) cnt results_json_def by blast
  have "traced_main run iters init getenv traverse its = Inr (Some s)"
    using threads fold(1) s(1) init by (simp add: traced_main_def GetNumThreads_def run Let_def)
  then show ?thesis using len rec s(2) by blast
qed

section \<open>Property\<close>

text \<open>
  C37: Once \<open>InitParallel\<close> has returned, each of the two programs prints one JSON document: the number of threads, the
  number of tasks of an iteration, and 10 (in the second program 1024) results, of which the \<open>k\<close>-th holds every
  task of the \<open>k\<close>-th iteration once, at its index, with the thread, the processor and the times of its round,
  provided that the iterations run to their end and the number of tasks is below \<open>2 ^ 60\<close>.
  Until then they print nothing; in the modes that pin their threads \<open>InitParallel\<close> never returns if the number of
  threads is 0, and its warm-up returns only if every round got a thread of its own.
\<close>

theorem programs_print_results:
  assumes "read_threads getenv = Inr n" "\<And>m. mset (traverse m) = mset m" "init_reached who (of_int n) init"
  shows "(InitParallel init (of_int n) \<and> loop_ok threads 0 cnt 1 \<and> (\<forall>i < 1024. scheduled threads cnt (its i)) \<longrightarrow>
      (cnt = tasks_of mode (of_int n) \<longrightarrow>
        (\<exists>s rs. scheduling_dist_main mode thread_index init getenv traverse its = Inr (Some s) \<and> length rs = 10 \<and>
          (\<forall>k < 10. recorded_run thread_index cnt (its k) (rs ! k)) \<and> is_json (results_json traverse (of_int n) cnt rs) s)) \<and>
      (cnt = of_int n \<longrightarrow>
        (\<exists>s rs. trace_spin_main thread_index init getenv traverse its = Inr (Some s) \<and> length rs = 1024 \<and>
          (\<forall>k < 1024. recorded_run thread_index cnt (its k) (rs ! k)) \<and> is_json (results_json traverse (of_int n) cnt rs) s))) \<and>
    (\<not> InitParallel init (of_int n) \<longrightarrow> scheduling_dist_main mode thread_index init getenv traverse its = Inr None \<and>
      trace_spin_main thread_index init getenv traverse its = Inr None) \<and>
    (pinning init \<noteq> None \<and> n = 0 \<longrightarrow> \<not> InitParallel init (of_int n)) \<and>
    (warming init \<noteq> None \<and> InitParallel init (of_int n) \<longrightarrow> inj_on who {i. i < of_int n})"
proof (intro conjI impI; (elim conjE)?)
  note prints = traced_main_output [OF assms(1) _ _ _ _ _ assms(2)]
  show "\<exists>s rs. scheduling_dist_main mode thread_index init getenv traverse its = Inr (Some s) \<and> length rs = 10 \<and>
      (\<forall>k < 10. recorded_run thread_index cnt (its k) (rs ! k)) \<and> is_json (results_json traverse (of_int n) cnt rs) s"
    if "InitParallel init (of_int n)" "loop_ok threads 0 cnt 1" "\<forall>i < 1024. scheduled threads cnt (its i)"
      "cnt = tasks_of mode (of_int n)"
    unfolding scheduling_dist_main_def by (rule prints [OF that(1,2)]) (use that in \<open>simp_all add: RunOnce_loop\<close>)
  show "\<exists>s rs. trace_spin_main thread_index init getenv traverse its = Inr (Some s) \<and> length rs = 1024 \<and>
      (\<forall>k < 1024. recorded_run thread_index cnt (its k) (rs ! k)) \<and> is_json (results_json traverse (of_int n) cnt rs) s"
    if "InitParallel init (of_int n)" "loop_ok threads 0 cnt 1" "\<forall>i < 1024. scheduled threads cnt (its i)"
      "cnt = of_int n"
    unfolding trace_spin_main_def by (rule prints [OF that(1,2)]) (use that in \<open>simp_all add: RunSpin_def\<close>)
  show "scheduling_dist_main mode thread_index init getenv traverse its = Inr None"
    "trace_spin_main thread_index init getenv traverse its = Inr None" if "\<not> InitParallel init (of_int n)"
    using that assms(1)
    by (simp_all add: scheduling_dist_main_def trace_spin_main_def traced_main_def GetNumThreads_def Let_def)
  show "\<not> InitParallel init (of_int n)" if "pinning init \<noteq> None" "n = 0"
    using InitParallel_needs [OF assms(3)] that by auto
  show "inj_on who {i. i < of_int n}" if "warming init \<noteq> None" "InitParallel init (of_int n)"
    using InitParallel_needs [OF assms(3)] that by blast
qed

text \<open>
  Two threads, two tasks, and in each iteration the second task starts first; and no thread, where the program
  prints nothing.
\<close>

theorem programs_print_results_witness:
  "(\<exists>init s rs. pinning init \<noteq> None \<and> scheduling_dist_main SPIN (\<lambda>t. int t - 7) init [''OMP_NUM_THREADS'' \<mapsto> ''2''] (\<lambda>m. m)
        (\<lambda>_. \<lparr>it_start = 100, it_calls = two_calls, it_end = 170\<rparr>) = Inr (Some s)
      \<and> length rs = 10 \<and> is_json (results_json (\<lambda>m. m) 2 2 rs) s) \<and>
   scheduling_dist_main SPIN (\<lambda>t. int t - 7) \<lparr>pinning = Some (EigenPinner 0), warming = None\<rparr>
     [''BENCH_NUM_THREADS'' \<mapsto> ''0''] (\<lambda>m. m) (\<lambda>_. \<lparr>it_start = 100, it_calls = [], it_end = 170\<rparr>) = Inr None"
proof
  have two: "read_threads [''OMP_NUM_THREADS'' \<mapsto> ''2''] = Inr 2" by code_simp
  have "rounds [1, 0] two_calls" by (auto simp: rounds_def two_calls_def calls_of_def)
  then have it: "scheduled 2 2 \<lparr>it_start = 100, it_calls = two_calls, it_end = 170\<rparr>"
    using two_order unfolding scheduled_def by auto
  have "inj_on unat {i :: u64. i < 2}" by (auto simp: inj_on_def word_unat_eq_iff)
  from InitParallel_ends [OF _ this] obtain b s where
    init: "init_reached unat 2 \<lparr>pinning = Some b, warming = Some s\<rparr>" "InitParallel \<lparr>pinning = Some b, warming = Some s\<rparr> 2"
    by auto
  then have "init_reached unat (of_int 2) \<lparr>pinning = Some b, warming = Some s\<rparr>" by simp
  from programs_print_results [OF two _ this, of "\<lambda>m. m" 2 2 "\<lambda>_. \<lparr>it_start = 100, it_calls = two_calls, it_end = 170\<rparr>"
      SPIN "\<lambda>t. int t - 7", THEN conjunct1] two_ok it init(2)
  show "\<exists>init s rs. pinning init \<noteq> None \<and> scheduling_dist_main SPIN (\<lambda>t. int t - 7) init [''OMP_NUM_THREADS'' \<mapsto> ''2''] (\<lambda>m. m)
        (\<lambda>_. \<lparr>it_start = 100, it_calls = two_calls, it_end = 170\<rparr>) = Inr (Some s)
      \<and> length rs = 10 \<and> is_json (results_json (\<lambda>m. m) 2 2 rs) s"
    by (intro exI [of _ "\<lparr>pinning = Some b, warming = Some s\<rparr>"]) (auto simp: tasks_of_def)
  have zero: "read_threads [''BENCH_NUM_THREADS'' \<mapsto> ''0''] = Inr 0" by code_simp
  have "init_reached unat (of_int 0) \<lparr>pinning = Some (EigenPinner 0), warming = None\<rparr>"
    by (simp add: init_reached_def pinner_run.start)
  from programs_print_results [OF zero _ this, of "\<lambda>m. m"]
  show "scheduling_dist_main SPIN (\<lambda>t. int t - 7) \<lparr>pinning = Some (EigenPinner 0), warming = None\<rparr>
     [''BENCH_NUM_THREADS'' \<mapsto> ''0''] (\<lambda>m. m) (\<lambda>_. \<lparr>it_start = 100, it_calls = [], it_end = 170\<rparr>) = Inr None" by simp
qed

end
