(* ===== verification/Tuner.thy ===== *)
theory Tuner
  imports Loops Complex_Main
begin

text \<open>
  The evaluation of src/timespan\_tuner/tuner.cpp: \<open>main\<close> collects the times of all rounds and the largest
  time of every iteration, sorts them and prints averages, extremes and percentiles, each with a label.
  \<open>double\<close>s are rational numbers here, so rounding is not modelled, nor is how numbers are written; \<open>None\<close>
  stands for an exception or an access to an empty vector.
\<close>

section \<open>Collecting\<close>

record tuner_data =
  flat_results :: "u64 list"
  maximums :: "u64 list"
  total_sum :: rat
  sum_max :: rat

definition collect_value :: "u64 \<Rightarrow> u64 \<times> tuner_data \<Rightarrow> u64 \<times> tuner_data" where
  "collect_value v s =
     (let (mx, d) = s;
          d = d\<lparr>flat_results := flat_results d @ [v]\<rparr>;
          d = d\<lparr>total_sum := total_sum d + of_nat (unat v)\<rparr>
      in (max mx v, d))"

definition collect_row :: "u64 list \<Rightarrow> tuner_data \<Rightarrow> tuner_data option" where
  "collect_row r d =
     (if r = [] then None
      else let (mx, d) = fold collect_value r (hd r, d);
               d = d\<lparr>maximums := maximums d @ [mx]\<rparr>
           in Some (d\<lparr>sum_max := sum_max d + of_nat (unat mx)\<rparr>))"

definition collect :: "u64 list list \<Rightarrow> tuner_data option" where
  "collect results = foldM collect_row results \<lparr>flat_results = [], maximums = [], total_sum = 0, sum_max = 0\<rparr>"

section \<open>Evaluating\<close>

definition PercentileIndex :: "rat \<Rightarrow> u64 \<Rightarrow> u64" where
  "PercentileIndex pc sz = of_int \<lfloor>1 / 2 + of_nat (unat (sz - 1)) * pc\<rfloor>"

text \<open>The number of elements as a \<open>size\_t\<close>, and \<open>flat_results.at(PercentileIndex(pc, flat_results.size()))\<close>.\<close>

definition percentile :: "rat \<Rightarrow> u64 list \<Rightarrow> u64 option" where
  "percentile pc xs = Loops.at xs (PercentileIndex pc (of_nat (length xs)))"

text \<open>
  What is printed, after the line with the mode: for each line its title and the numbers with their labels,
  \<open>(total)\<close> for all times and \<open>(maximums)\<close> for the largest times of the iterations.
\<close>

datatype printed = Average rat | Time u64

type_synonym report_line = "string \<times> (printed \<times> string) list"

text \<open>The percentiles, in the order they are printed: the median, 0.95 and 0.99.\<close>

definition percentiles :: "u64 list \<Rightarrow> u64 list option" where
  "percentiles xs =
     Option.bind (percentile (1 / 2) xs) (\<lambda>median.
     Option.bind (percentile (95 / 100) xs) (\<lambda>p95.
     map_option (\<lambda>p99. [median, p95, p99]) (percentile (99 / 100) xs)))"

definition evaluate :: "tuner_data \<Rightarrow> report_line list option" where
  "evaluate d =
     (let d = d\<lparr>maximums := sort (maximums d)\<rparr>;
          d = d\<lparr>flat_results := sort (flat_results d)\<rparr>
      in if flat_results d = [] \<or> maximums d = [] then None
         else Option.bind (percentiles (flat_results d)) (\<lambda>total.
              map_option (\<lambda>maxs.
                  [(''Average: '', [(Average (total_sum d / of_nat (length (flat_results d))), ''(total)''),
                                    (Average (sum_max d / of_nat (length (maximums d))), ''(maximums)'')]),
                   (''Minimum: '', [(Time (hd (flat_results d)), ''(maximums)'')]),
                   (''Median: '', [(Time (total ! 0), ''(total)''), (Time (maxs ! 0), ''(maximums)'')]),
                   (''0.95 percentile: '', [(Time (total ! 1), ''(total)''), (Time (maxs ! 1), ''(maximums)'')]),
                   (''0.99 percentile: '', [(Time (total ! 2), ''(total)''), (Time (maxs ! 2), ''(maximums)'')]),
                   (''Maximum: '', [(Time (last (flat_results d)), ''(maximums)'')])])
                (percentiles (maximums d))))"

definition tuner_main :: "u64 list list \<Rightarrow> report_line list option" where
  "tuner_main results = Option.bind (collect results) evaluate"

section \<open>What is printed\<close>

lemma fold_collect_value:
  "fold collect_value r (mx, d) = (fold max r mx,
     d\<lparr>flat_results := flat_results d @ r, total_sum := total_sum d + (\<Sum>v \<leftarrow> r. of_nat (unat v))\<rparr>)"
  by (induction r arbitrary: mx d) (simp_all add: collect_value_def max.commute add.assoc)

lemma fold_max:
  assumes "r \<noteq> []"
  shows "fold max r (hd r) = Max (set r)"
proof -
  obtain a l where r: "r = a # l" using assms by (cases r) auto
  have "fold max r (hd r) = fold max l a" by (simp add: r)
  also have "\<dots> = Max (set (a # l))" by (rule Max.set_eq_fold [symmetric])
  finally show ?thesis by (simp only: r)
qed

lemma collect_rows:
  assumes "\<And>r. r \<in> set rs \<Longrightarrow> r \<noteq> []"
  shows "foldM collect_row rs d = Some (d\<lparr>flat_results := flat_results d @ concat rs,
    maximums := maximums d @ map (\<lambda>r. Max (set r)) rs,
    total_sum := total_sum d + (\<Sum>v \<leftarrow> concat rs. of_nat (unat v)),
    sum_max := sum_max d + (\<Sum>r \<leftarrow> rs. of_nat (unat (Max (set r))))\<rparr>)"
  using assms
  by (induction rs arbitrary: d) (simp_all add: collect_row_def fold_collect_value fold_max Let_def add.assoc)

text \<open>The position of a percentile in a list of \<open>n\<close> elements.\<close>

definition rank :: "rat \<Rightarrow> nat \<Rightarrow> nat" where
  "rank pc n = nat \<lfloor>1 / 2 + of_nat (n - 1) * pc\<rfloor>"

lemma rank_less:
  assumes "0 < n" "0 \<le> pc" "pc \<le> 1"
  shows "rank pc n < n"
proof -
  have "of_nat (n - 1) * pc \<le> (of_nat (n - 1) :: rat)" using assms(2,3) by (intro mult_left_le) simp_all
  then have "1 / 2 + of_nat (n - 1) * pc < of_nat (n - 1) + (1 :: rat)" by linarith
  then have "1 / 2 + of_nat (n - 1) * pc < of_int (int (n - 1) + 1)" by (simp only: of_int_add of_int_of_nat_eq of_int_1)
  then have "\<lfloor>1 / 2 + of_nat (n - 1) * pc\<rfloor> < int (n - 1) + 1" by (simp only: floor_less_iff)
  then show ?thesis unfolding rank_def using assms(1) by linarith
qed

lemma rank_mono: "p \<le> q \<Longrightarrow> rank p n \<le> rank q n"
  unfolding rank_def by (intro nat_mono floor_mono add_left_mono mult_left_mono) simp_all

lemma percentile_index:
  assumes "0 < n" "n < 2 ^ 64" "0 \<le> pc" "pc \<le> 1"
  shows "unat (PercentileIndex pc (of_nat n)) = rank pc n"
proof -
  have len: "unat (of_nat n :: u64) = n" using assms(2) by (simp add: unat_of_nat)
  then have "1 \<le> (of_nat n :: u64)" unfolding word_le_nat_alt using assms(1) by simp
  then have n: "unat (of_nat n - 1 :: u64) = n - 1" using u64_sub [of 1 "of_nat n"] len by simp
  have "0 \<le> \<lfloor>1 / 2 + of_nat (n - 1) * pc\<rfloor>" using assms(3) by (simp only: zero_le_floor) simp
  then have "(of_int \<lfloor>1 / 2 + of_nat (n - 1) * pc\<rfloor> :: u64) = of_nat (rank pc n)" by (simp only: rank_def of_nat_nat)
  then show ?thesis
    unfolding PercentileIndex_def n using rank_less [OF assms(1,3,4)] assms(2) by (simp add: unat_of_nat)
qed

text \<open>The reference: the element of the sorted list at the rounded position.\<close>

definition rounded_rank :: "rat \<Rightarrow> u64 list \<Rightarrow> u64" where
  "rounded_rank pc xs = sort xs ! rank pc (length xs)"

lemma percentile_sorted:
  assumes "xs \<noteq> []" "length xs < 2 ^ 64" "0 \<le> pc" "pc \<le> 1"
  shows "percentile pc (sort xs) = Some (rounded_rank pc xs)"
proof -
  have n: "0 < length xs" using assms(1) by simp
  then show ?thesis
    using percentile_index [OF n assms(2-4)] rank_less [OF n assms(3,4)]
    by (simp add: percentile_def Loops.at_def rounded_rank_def)
qed

lemma rounded_rank_mono:
  assumes "xs \<noteq> []" "0 \<le> p" "p \<le> q" "q \<le> 1"
  shows "rounded_rank p xs \<le> rounded_rank q xs"
  unfolding rounded_rank_def using assms rank_less [of "length xs" q] rank_mono [OF assms(3), of "length xs"]
  by (intro sorted_nth_mono) simp_all

lemma rounded_rank_mem: "xs \<noteq> [] \<Longrightarrow> 0 \<le> p \<Longrightarrow> p \<le> 1 \<Longrightarrow> rounded_rank p xs \<in> set xs"
  using rank_less [of "length xs" p] nth_mem [of "rank p (length xs)" "sort xs"] by (simp add: rounded_rank_def)

lemma sort_ends:
  fixes xs :: "u64 list"
  assumes "xs \<noteq> []"
  shows "hd (sort xs) = Min (set xs)" "last (sort xs) = Max (set xs)"
proof -
  have n: "0 < length xs" using assms by simp
  then have s: "sort xs \<noteq> []" by (metis length_sort list.size(3) less_numeral_extra(3))
  have mem: "hd (sort xs) \<in> set xs" "last (sort xs) \<in> set xs" using hd_in_set [OF s] last_in_set [OF s] by simp_all
  have "hd (sort xs) \<le> x \<and> x \<le> last (sort xs)" if x: "x \<in> set xs" for x
  proof -
    obtain k where k: "k < length xs" "sort xs ! k = x" 
      using x in_set_conv_nth [of x "sort xs"] unfolding set_sort length_sort by blast
    have "sort xs ! 0 \<le> sort xs ! k" "sort xs ! k \<le> sort xs ! (length xs - 1)"
      using k(1) by (intro sorted_nth_mono; simp)+
    then show ?thesis unfolding hd_conv_nth [OF s] last_conv_nth [OF s] length_sort k(2) by (rule conjI)
  qed
  then have le: "\<And>x. x \<in> set xs \<Longrightarrow> hd (sort xs) \<le> x" "\<And>x. x \<in> set xs \<Longrightarrow> x \<le> last (sort xs)" by simp_all
  show "hd (sort xs) = Min (set xs)" by (rule Min_eqI [symmetric]) (rule finite_set, erule le(1), rule mem(1))
  show "last (sort xs) = Max (set xs)" by (rule Max_eqI [symmetric]) (rule finite_set, erule le(2), rule mem(2))
qed

lemma percentiles_sorted:
  assumes "xs \<noteq> []" "length xs < 2 ^ 64"
  shows "percentiles (sort xs) = Some [rounded_rank (1 / 2) xs, rounded_rank (95 / 100) xs, rounded_rank (99 / 100) xs]"
  by (simp add: percentiles_def percentile_sorted [OF assms])

text \<open>The lines for all times \<open>ts\<close> and largest times \<open>ms\<close>.\<close>

definition report_of :: "u64 list \<Rightarrow> u64 list \<Rightarrow> report_line list" where
  "report_of ts ms =
     (let average = (\<lambda>xs. Average ((\<Sum>x \<leftarrow> xs. of_nat (unat x)) / of_nat (length xs)));
          both = (\<lambda>f. [(f ts, ''(total)''), (f ms, ''(maximums)'')])
      in [(''Average: '', both average),
          (''Minimum: '', [(Time (Min (set ts)), ''(maximums)'')]),
          (''Median: '', both (\<lambda>xs. Time (rounded_rank (1 / 2) xs))),
          (''0.95 percentile: '', both (\<lambda>xs. Time (rounded_rank (95 / 100) xs))),
          (''0.99 percentile: '', both (\<lambda>xs. Time (rounded_rank (99 / 100) xs))),
          (''Maximum: '', [(Time (Max (set ts)), ''(maximums)'')])])"

lemma evaluate_data:
  assumes "flat_results d = ts" "maximums d = ms" "ts \<noteq> []" "length ts < 2 ^ 64" "ms \<noteq> []" "length ms < 2 ^ 64"
    "total_sum d = (\<Sum>x \<leftarrow> ts. of_nat (unat x))" "sum_max d = (\<Sum>x \<leftarrow> ms. of_nat (unat x))"
  shows "evaluate d = Some (report_of ts ms)"
proof -
  have "sort ts \<noteq> []" "sort ms \<noteq> []" using assms(3,5) by (metis set_empty set_sort)+
  then show ?thesis
    by (simp add: evaluate_def report_of_def Let_def assms(1,2,7,8) sort_ends [OF assms(3)] percentiles_sorted [OF assms(3,4)]
      percentiles_sorted [OF assms(5,6)] )
qed

text \<open>The largest times against all times.\<close>

lemma extremes_of_maximums:
  assumes "results \<noteq> []" "\<And>r. r \<in> set results \<Longrightarrow> r \<noteq> []"
  shows "Min (set (concat results)) \<le> Min (set (map (\<lambda>r. Max (set r)) results))"
    "Max (set (concat results)) = Max (set (map (\<lambda>r. Max (set r)) results))"
proof -
  let ?ts = "concat results" and ?ms = "map (\<lambda>r. Max (set r)) results"
  have mem: "Max (set r) \<in> set r" if "r \<in> set results" for r using assms(2) [OF that] by simp
  then have sub: "set ?ms \<subseteq> set ?ts" by auto
  have ms: "set ?ms \<noteq> {}" using assms(1) by simp
  show "Min (set ?ts) \<le> Min (set ?ms)" by (rule Min_antimono [OF sub ms]) simp
  have "x \<le> Max (set ?ms)" if x: "x \<in> set ?ts" for x
  proof -
    obtain r where r: "r \<in> set results" "x \<in> set r" using x by auto
    then have "x \<le> Max (set r)" by simp
    also have "\<dots> \<le> Max (set ?ms)" using r(1) by simp
    finally show ?thesis .
  qed
  moreover have "set ?ts \<noteq> {}"
  proof
    assume "set ?ts = {}"
    then have "set ?ms \<subseteq> {}" using sub by (simp only:)
    then show False using ms by simp
  qed
  ultimately show "Max (set ?ts) = Max (set ?ms)"
    using Max_mono [OF sub ms] by (intro antisym) simp_all
qed

lemma percentiles_between:
  assumes "ts \<noteq> []"
  shows "sorted [Min (set ts), rounded_rank (1 / 2) ts, rounded_rank (95 / 100) ts, rounded_rank (99 / 100) ts, Max (set ts)]"
proof -
  have mono: "rounded_rank (1 / 2) ts \<le> rounded_rank (95 / 100) ts" "rounded_rank (95 / 100) ts \<le> rounded_rank (99 / 100) ts"
    by (rule rounded_rank_mono [OF assms]; simp)+
  have "rounded_rank (1 / 2) ts \<in> set ts" "rounded_rank (99 / 100) ts \<in> set ts"
    by (rule rounded_rank_mem [OF assms]; simp)+
  then have "Min (set ts) \<le> rounded_rank (1 / 2) ts" "rounded_rank (99 / 100) ts \<le> Max (set ts)" by simp_all
  with mono show ?thesis by (auto intro: order_trans)
qed

lemma length_rows: "(\<And>r. r \<in> set rs \<Longrightarrow> r \<noteq> []) \<Longrightarrow> length rs \<le> length (concat rs)"
proof (induction rs)
  case (Cons r rs)
  then have "r \<noteq> []" "length rs \<le> length (concat rs)" by simp_all
  then show ?case by (cases r) simp_all
qed simp

text \<open>
  C40: For a non-empty list of iterations with at least one thread, the tuner's evaluation raises no exception
  and prints these lines: the average of all times and that of the largest times of the iterations; the smallest of
  all times, though labelled as one of the largest times; for 0.5, 0.95 and 0.99 the elements of all times and of the
  largest times at the position \<open>(n - 1) * pc\<close>, rounded to the nearest integer, of the sorted list, which for all
  times increase and are between the smallest and the largest; and the largest of all times.  That one is also the
  largest of the largest times, as its label says, but the smallest printed may be below all of them.
\<close>

theorem tuner_statistics:
  assumes "results \<noteq> []" "\<And>r. r \<in> set results \<Longrightarrow> r \<noteq> []" "length (concat results) < 2 ^ 64"
  shows "let ts = concat results; ms = map (\<lambda>r. Max (set r)) results
     in tuner_main results = Some (report_of ts ms) \<and>
        sorted [Min (set ts), rounded_rank (1 / 2) ts, rounded_rank (95 / 100) ts, rounded_rank (99 / 100) ts, Max (set ts)] \<and>
        Min (set ts) \<le> Min (set ms) \<and> Max (set ts) = Max (set ms)"
proof -
  let ?ts = "concat results" and ?ms = "map (\<lambda>r. Max (set r)) results"
  have ts: "?ts \<noteq> []" "length ?ts < 2 ^ 64" using assms by (auto simp: neq_Nil_conv)
  have "length results \<le> length ?ts" by (rule length_rows) (rule assms(2))
  then have ms: "?ms \<noteq> []" "length ?ms < 2 ^ 64" using assms(1,3) by simp_all
  define d where "d = \<lparr>flat_results = ?ts, maximums = ?ms,
    total_sum = (\<Sum>t \<leftarrow> ?ts. of_nat (unat t)), sum_max = (\<Sum>t \<leftarrow> ?ms. of_nat (unat t))\<rparr>"
  have "collect results = Some d"
    using collect_rows [of results "\<lparr>flat_results = [], maximums = [], total_sum = 0, sum_max = 0\<rparr>", OF assms(2)]
    by (simp add: collect_def comp_def d_def)
  moreover have "flat_results d = ?ts" "maximums d = ?ms"
      "total_sum d = (\<Sum>t \<leftarrow> ?ts. of_nat (unat t))" "sum_max d = (\<Sum>t \<leftarrow> ?ms. of_nat (unat t))"
    by (simp_all add: d_def)
  note d = calculation this
  have "tuner_main results = Some (report_of ?ts ?ms)"
    using evaluate_data [OF d(2,3) ts ms d(4,5)] by (simp only: tuner_main_def d(1) Option.bind.simps)
  then show ?thesis
    using percentiles_between [OF ts(1)] extremes_of_maximums [OF assms(1,2)] unfolding Let_def by blast
qed

text \<open>The smallest time is 3, the smallest of the largest times is 5.\<close>

theorem tuner_statistics_witness:
  "\<exists>rep. tuner_main [[3, 5], [4, 9]] = Some rep \<and> rep ! 1 = (''Minimum: '', [(Time 3, ''(maximums)'')])
    \<and> rep ! 2 = (''Median: '', [(Time 5, ''(total)''), (Time 9, ''(maximums)'')])
    \<and> rep ! 5 = (''Maximum: '', [(Time 9, ''(maximums)'')]) \<and> Min (set (map (\<lambda>r. Max (set r)) [[3, 5], [4, 9 :: u64]])) = 5"
proof -
  have rows: "\<And>r. r \<in> set [[3, 5], [4, 9 :: u64]] \<Longrightarrow> r \<noteq> []" by auto
  have "tuner_main [[3, 5], [4, 9]] = Some (report_of [3, 5, 4, 9] [5, 9])"
    using tuner_statistics [of "[[3, 5], [4, 9]]", OF _ rows] by (simp add: Let_def)
  then show ?thesis by (simp add: report_of_def Let_def rounded_rank_def rank_def)
qed

end
