(* ===== verification/Run_Queue_Conc.thy ===== *)
theory Run_Queue_Conc
  imports Run_Queue
begin

text \<open>
  \<open>RunQueue\<close> of src/include/eigen/run\_queue.h under concurrent use: the owner of the queue works on its front
  without a lock, other threads (or the owner itself) on its back under the mutex.  Every atomic access and
  every access to an element's work item is one step; the steps of all threads are interleaved in any order,
  on sequentially consistent memory.  The operations refine those of a deque at one step of each operation.
  \<open>PopBackHalf\<close>, which the pool does not call, is not part of this theory.
\<close>

section \<open>Program points\<close>

text \<open>
  The arguments are the local variables: the item, the value loaded from \<open>front_\<close> or \<open>back_\<close>, and the item taken.
\<close>

datatype 'w rq_pc =
    Idle
  | Returned "'w deque_res"
  | PushFront_load 'w
  | PushFront_cas 'w u32
  | PushFront_front 'w u32
  | PushFront_work 'w u32
  | PushFront_ready 'w u32
  | PopFront_load
  | PopFront_cas u32
  | PopFront_work u32
  | PopFront_empty u32 'w
  | PopFront_front u32 'w
  | PushBack_lock 'w
  | PushBack_load 'w
  | PushBack_cas 'w u32
  | PushBack_back 'w u32
  | PushBack_work 'w u32
  | PushBack_ready 'w u32
  | PopBack_front
  | PopBack_back u32
  | PopBack_front1 u32 u32
  | PopBack_lock
  | PopBack_load
  | PopBack_cas u32
  | PopBack_work u32
  | PopBack_empty u32 'w
  | PopBack_back_store u32 'w
  | Unlock "'w deque_res"

record 'w conc_queue =
  queue :: "'w run_queue"
  mutex :: "nat option"
  rq_pcs :: "nat \<Rightarrow> 'w rq_pc"

text \<open>
  A step yields the shared variables, the next program point and, where the operation takes effect, the
  operation with its result.
\<close>

type_synonym 'w step_result = "'w run_queue \<times> 'w rq_pc \<times> ('w deque_op \<times> 'w deque_res) option"

section \<open>The operations on the front\<close>

fun front_step :: "u32 \<Rightarrow> 'w::zero run_queue \<Rightarrow> 'w rq_pc \<Rightarrow> 'w step_result" where
  "front_step kSize q (PushFront_load w) =
     (let front = rq_front q;
          s = el_state (rq_array q ! unat (front AND kMask kSize))
      in if s \<noteq> kEmpty then (q, Returned (Pushed False), Some (PushF w, Pushed False))
         else (q, PushFront_cas w front, None))"
| "front_step kSize q (PushFront_cas w front) =
     (case compare_exchange_state (unat (front AND kMask kSize)) kEmpty kBusy q of
        (False, q) \<Rightarrow> (q, Returned (Pushed False), Some (PushF w, Pushed False))
      | (True, q) \<Rightarrow> (q, PushFront_front w front, None))"
| "front_step kSize q (PushFront_front w front) =
     (q\<lparr>rq_front := front + 1 + push_bit 1 kSize\<rparr>, PushFront_work w front, None)"
| "front_step kSize q (PushFront_work w front) =
     (store_work (unat (front AND kMask kSize)) w q, PushFront_ready w front, None)"
| "front_step kSize q (PushFront_ready w front) =
     (store_state (unat (front AND kMask kSize)) kReady q, Returned (Pushed True), Some (PushF w, Pushed True))"
| "front_step kSize q PopFront_load =
     (let front = rq_front q;
          s = el_state (rq_array q ! unat ((front - 1) AND kMask kSize))
      in if s \<noteq> kReady then (q, Returned (Popped 0), Some (PopF, Popped 0))
         else (q, PopFront_cas front, None))"
| "front_step kSize q (PopFront_cas front) =
     (case compare_exchange_state (unat ((front - 1) AND kMask kSize)) kReady kBusy q of
        (False, q) \<Rightarrow> (q, Returned (Popped 0), Some (PopF, Popped 0))
      | (True, q) \<Rightarrow> (q, PopFront_work front,
          Some (PopF, Popped (el_w (rq_array q ! unat ((front - 1) AND kMask kSize))))))"
| "front_step kSize q (PopFront_work front) =
     (q, PopFront_empty front (el_w (rq_array q ! unat ((front - 1) AND kMask kSize))), None)"
| "front_step kSize q (PopFront_empty front w) =
     (store_state (unat ((front - 1) AND kMask kSize)) kEmpty q, PopFront_front front w, None)"
| "front_step kSize q (PopFront_front front w) =
     (q\<lparr>rq_front := ((front - 1) AND kMask2 kSize) OR (front AND NOT (kMask2 kSize))\<rparr>, Returned (Popped w), None)"
| "front_step kSize q pc = (q, pc, None)"

section \<open>The operations on the back, under the mutex\<close>

fun back_step :: "u32 \<Rightarrow> 'w::zero run_queue \<Rightarrow> 'w rq_pc \<Rightarrow> 'w step_result" where
  "back_step kSize q (PushBack_load w) =
     (let back = rq_back q;
          s = el_state (rq_array q ! unat ((back - 1) AND kMask kSize))
      in if s \<noteq> kEmpty then (q, Unlock (Pushed False), Some (PushB w, Pushed False))
         else (q, PushBack_cas w back, None))"
| "back_step kSize q (PushBack_cas w back) =
     (case compare_exchange_state (unat ((back - 1) AND kMask kSize)) kEmpty kBusy q of
        (False, q) \<Rightarrow> (q, Unlock (Pushed False), Some (PushB w, Pushed False))
      | (True, q) \<Rightarrow> (q, PushBack_back w back, None))"
| "back_step kSize q (PushBack_back w back) =
     (q\<lparr>rq_back := ((back - 1) AND kMask2 kSize) OR (back AND NOT (kMask2 kSize))\<rparr>, PushBack_work w back, None)"
| "back_step kSize q (PushBack_work w back) =
     (store_work (unat ((back - 1) AND kMask kSize)) w q, PushBack_ready w back, None)"
| "back_step kSize q (PushBack_ready w back) =
     (store_state (unat ((back - 1) AND kMask kSize)) kReady q, Unlock (Pushed True), Some (PushB w, Pushed True))"
| "back_step kSize q PopBack_load =
     (let back = rq_back q;
          s = el_state (rq_array q ! unat (back AND kMask kSize))
      in if s \<noteq> kReady then (q, Unlock (Popped 0), Some (PopB, Popped 0))
         else (q, PopBack_cas back, None))"
| "back_step kSize q (PopBack_cas back) =
     (case compare_exchange_state (unat (back AND kMask kSize)) kReady kBusy q of
        (False, q) \<Rightarrow> (q, Unlock (Popped 0), Some (PopB, Popped 0))
      | (True, q) \<Rightarrow> (q, PopBack_work back,
          Some (PopB, Popped (el_w (rq_array q ! unat (back AND kMask kSize))))))"
| "back_step kSize q (PopBack_work back) =
     (q, PopBack_empty back (el_w (rq_array q ! unat (back AND kMask kSize))), None)"
| "back_step kSize q (PopBack_empty back w) =
     (store_state (unat (back AND kMask kSize)) kEmpty q, PopBack_back_store back w, None)"
| "back_step kSize q (PopBack_back_store back w) =
     (q\<lparr>rq_back := back + 1 + push_bit 1 kSize\<rparr>, Unlock (Popped w), None)"
| "back_step kSize q pc = (q, pc, None)"

text \<open>\<open>Empty\<close> at the beginning of \<open>PopBack\<close>, without the mutex.\<close>

fun empty_step :: "u32 \<Rightarrow> 'w::zero run_queue \<Rightarrow> 'w rq_pc \<Rightarrow> 'w rq_pc" where
  "empty_step kSize q PopBack_front = PopBack_back (rq_front q)"
| "empty_step kSize q (PopBack_back front) = PopBack_front1 front (rq_back q)"
| "empty_step kSize q (PopBack_front1 front back) =
     (let front1 = rq_front q
      in if front \<noteq> front1 then PopBack_back front1
         else if (front XOR back) AND kMask2 kSize = 0 then Returned (Popped 0)
         else PopBack_lock)"
| "empty_step kSize q pc = pc"

fun front_pc :: "'w rq_pc \<Rightarrow> bool" where
  "front_pc (PushFront_load w) = True"
| "front_pc (PushFront_cas w f) = True"
| "front_pc (PushFront_front w f) = True"
| "front_pc (PushFront_work w f) = True"
| "front_pc (PushFront_ready w f) = True"
| "front_pc PopFront_load = True"
| "front_pc (PopFront_cas f) = True"
| "front_pc (PopFront_work f) = True"
| "front_pc (PopFront_empty f w) = True"
| "front_pc (PopFront_front f w) = True"
| "front_pc _ = False"

text \<open>The program points at which a thread holds the mutex.\<close>

fun locked_pc :: "'w rq_pc \<Rightarrow> bool" where
  "locked_pc (PushBack_load w) = True"
| "locked_pc (PushBack_cas w b) = True"
| "locked_pc (PushBack_back w b) = True"
| "locked_pc (PushBack_work w b) = True"
| "locked_pc (PushBack_ready w b) = True"
| "locked_pc PopBack_load = True"
| "locked_pc (PopBack_cas b) = True"
| "locked_pc (PopBack_work b) = True"
| "locked_pc (PopBack_empty b w) = True"
| "locked_pc (PopBack_back_store b w) = True"
| "locked_pc (Unlock r) = True"
| "locked_pc _ = False"

text \<open>A step of a thread; \<open>None\<close> when it waits for the mutex or is in no operation.\<close>

definition conc_step :: "u32 \<Rightarrow> nat \<Rightarrow> 'w::zero conc_queue \<Rightarrow> ('w conc_queue \<times> ('w deque_op \<times> 'w deque_res) option) option" where
  "conc_step kSize t s =
     (let goto = (\<lambda>pc. (rq_pcs s)(t := pc))
      in case rq_pcs s t of
           Idle \<Rightarrow> None
         | Returned r \<Rightarrow> None
         | PushBack_lock w \<Rightarrow> if mutex s \<noteq> None then None
             else Some (s\<lparr>mutex := Some t, rq_pcs := goto (PushBack_load w)\<rparr>, None)
         | PopBack_lock \<Rightarrow> if mutex s \<noteq> None then None
             else Some (s\<lparr>mutex := Some t, rq_pcs := goto PopBack_load\<rparr>, None)
         | Unlock r \<Rightarrow> Some (s\<lparr>mutex := None, rq_pcs := goto (Returned r)\<rparr>, None)
         | pc \<Rightarrow>
             if front_pc pc then
               case front_step kSize (queue s) pc of (q, pc, ev) \<Rightarrow> Some (s\<lparr>queue := q, rq_pcs := goto pc\<rparr>, ev)
             else if locked_pc pc then
               case back_step kSize (queue s) pc of (q, pc, ev) \<Rightarrow> Some (s\<lparr>queue := q, rq_pcs := goto pc\<rparr>, ev)
             else Some (s\<lparr>rq_pcs := goto (empty_step kSize (queue s) pc)\<rparr>, None))"

text \<open>The first program point of an operation.\<close>

fun call_pc :: "'w deque_op \<Rightarrow> 'w rq_pc" where
  "call_pc (PushF w) = PushFront_load w"
| "call_pc PopF = PopFront_load"
| "call_pc (PushB w) = PushBack_lock w"
| "call_pc PopB = PopBack_front"

text \<open>
  Runs.  Thread 0 is the owner and the only one that calls operations on the front.  \<open>evs\<close> lists the operations
  in the order they took effect, \<open>calls t\<close> is the last call of thread \<open>t\<close> and \<open>eff t\<close> its effect so far.
\<close>

definition eff_upd :: "nat \<Rightarrow> 'e option \<Rightarrow> (nat \<Rightarrow> 'e option) \<Rightarrow> nat \<Rightarrow> 'e option" where
  "eff_upd t ev eff = (case ev of None \<Rightarrow> eff | Some e \<Rightarrow> eff(t := Some e))"

inductive conc_run ::
    "u32 \<Rightarrow> 'w::zero conc_queue \<Rightarrow> (nat \<Rightarrow> 'w deque_op option) \<Rightarrow> ('w deque_op \<times> 'w deque_res) list \<Rightarrow>
     (nat \<Rightarrow> ('w deque_op \<times> 'w deque_res) option) \<Rightarrow> bool"
  for kSize where
  start: "RunQueue kSize = Some q \<Longrightarrow>
    conc_run kSize \<lparr>queue = q, mutex = None, rq_pcs = (\<lambda>_. Idle)\<rparr> (\<lambda>_. None) [] (\<lambda>_. None)"
| call: "conc_run kSize s calls evs eff \<Longrightarrow> rq_pcs s t = Idle \<or> rq_pcs s t = Returned r \<Longrightarrow>
    (t \<noteq> 0 \<longrightarrow> (\<forall>w. op \<noteq> PushF w) \<and> op \<noteq> PopF) \<Longrightarrow>
    conc_run kSize (s\<lparr>rq_pcs := (rq_pcs s)(t := call_pc op)\<rparr>) (calls(t := Some op)) evs (eff(t := None))"
| step: "conc_run kSize s calls evs eff \<Longrightarrow> conc_step kSize t s = Some (s', ev) \<Longrightarrow>
    conc_run kSize s' calls (evs @ (case ev of None \<Rightarrow> [] | Some e \<Rightarrow> [e])) (eff_upd t ev eff)"

section \<open>Rings of cells\<close>

text \<open>The array from position \<open>b\<close> on holds the cells \<open>cs\<close>; all other elements are empty.\<close>

definition ring_rel :: "nat \<Rightarrow> 'w elem list \<Rightarrow> nat \<Rightarrow> 'w elem list \<Rightarrow> bool" where
  "ring_rel K a b cs \<longleftrightarrow> length a = K \<and> length cs \<le> K \<and> (\<forall>j < length cs. a ! ((b + j) mod K) = cs ! j) \<and>
     (\<forall>j < K. length cs \<le> j \<longrightarrow> el_state (a ! ((b + j) mod K)) = kEmpty)"

lemma ring_write:
  assumes "length a = K" "i < K" "j < K"
  shows "a[(b + i) mod K := c] ! ((b + j) mod K) = (if i = j then c else a ! ((b + j) mod K))"
proof (cases "i = j")
  case True
  then show ?thesis using assms by simp
next
  case False
  then have "(b + i) mod K \<noteq> (b + j) mod K" using ring_inj [OF assms(2,3), of b] by simp
  then show ?thesis using False by simp
qed

lemma ring_relD:
  assumes "ring_rel K a b cs"
  shows "length a = K" "length cs \<le> K" "\<And>j. j < length cs \<Longrightarrow> a ! ((b + j) mod K) = cs ! j"
    "\<And>j. j < K \<Longrightarrow> length cs \<le> j \<Longrightarrow> el_state (a ! ((b + j) mod K)) = kEmpty"
  using assms by (auto simp: ring_rel_def)

lemma ring_relI:
  assumes "length a = K" "length cs \<le> K" "\<And>j. j < length cs \<Longrightarrow> a ! ((b + j) mod K) = cs ! j"
    "\<And>j. j < K \<Longrightarrow> length cs \<le> j \<Longrightarrow> el_state (a ! ((b + j) mod K)) = kEmpty"
  shows "ring_rel K a b cs"
  using assms by (auto simp: ring_rel_def)

lemma ring_rel_update:
  assumes "ring_rel K a b cs" "i < length cs"
  shows "ring_rel K (a[(b + i) mod K := c]) b (cs[i := c])"
proof -
  note D = ring_relD [OF assms(1)]
  have i: "i < K" using assms(2) D(2) by simp
  have "cs[i := c] ! j = (if i = j then c else cs ! j)" for j using assms(2) by (rule nth_list_update)
  then show ?thesis using D assms(2) by (intro ring_relI) (auto simp: ring_write [OF D(1) i])
qed

lemma ring_rel_append:
  assumes "ring_rel K a b cs" "length cs < K"
  shows "ring_rel K (a[(b + length cs) mod K := c]) b (cs @ [c])"
proof -
  note D = ring_relD [OF assms(1)]
  show ?thesis using D assms(2) by (intro ring_relI) (simp_all add: ring_write [OF D(1) assms(2)] nth_append)
qed

lemma ring_rel_drop_last:
  assumes "ring_rel K a b (cs @ [d])" "el_state c = kEmpty"
  shows "ring_rel K (a[(b + length cs) mod K := c]) b cs"
proof -
  note D = ring_relD [OF assms(1)]
  have i: "length cs < K" using D(2) by simp
  have "a ! ((b + j) mod K) = cs ! j" if "j < length cs" for j using D(3) [of j] that by (simp add: nth_append)
  then show ?thesis
    using D(1,4) i assms(2) by (intro ring_relI) (simp_all add: ring_write [OF D(1) i])
qed

lemma ring_rel_cong: "b mod K = b' mod K \<Longrightarrow> ring_rel K a b cs \<longleftrightarrow> ring_rel K a b' cs"
  by (simp add: ring_rel_def) (metis mod_add_left_eq)

lemma ring_rel_prepend:
  assumes "ring_rel K a b cs" "length cs < K"
  shows "ring_rel K (a[(b + (K - 1)) mod K := c]) (b + (K - 1)) (c # cs)"
proof -
  note D = ring_relD [OF assms(1)]
  have K: "0 < K" "0 < length a" using assms D(1) by simp_all
  have wr: "a[(b + (K - 1)) mod K := c] ! ((b + (K - 1) + j) mod K)
      = (if j = 0 then c else a ! ((b + (j - 1)) mod K))" if "j < K" for j
  proof (cases j)
    case 0
    then show ?thesis using K D(1) by simp
  next
    case (Suc i)
    then have "(b + (K - 1) + j) mod K = (b + i) mod K" using ring_shift [OF K(1)] by simp
    then show ?thesis using ring_write [OF D(1), of "K - 1" i b c] Suc that by simp
  qed
  show ?thesis
  proof (rule ring_relI)
    fix j assume "j < length (c # cs)"
    then show "a[(b + (K - 1)) mod K := c] ! ((b + (K - 1) + j) mod K) = (c # cs) ! j"
      using wr [of j] assms(2) D(3) [of "j - 1"] by (cases j) simp_all
  next
    fix j assume "j < K" "length (c # cs) \<le> j"
    then show "el_state (a[(b + (K - 1)) mod K := c] ! ((b + (K - 1) + j) mod K)) = kEmpty"
      using wr [of j] D(4) [of "j - 1"] by (cases j) simp_all
  qed (use D assms(2) in simp_all)
qed

lemma ring_rel_drop_first:
  assumes "ring_rel K a b (d # cs)" "el_state c = kEmpty"
  shows "ring_rel K (a[b mod K := c]) (Suc b) cs"
proof -
  note D = ring_relD [OF assms(1)]
  have K: "0 < K" using D(2) by simp
  have wr: "a[b mod K := c] ! ((Suc b + j) mod K) = (if Suc j = K then c else a ! ((b + Suc j) mod K))" if "j < K" for j
  proof (cases "Suc j = K")
    case True
    then have "(Suc b + j) mod K = b mod K" by (metis add_Suc_shift mod_add_self2)
    then show ?thesis using True D(1) K by simp
  next
    case False
    then show ?thesis using ring_write [OF D(1) K, of "Suc j" b c] that by simp
  qed
  show ?thesis
  proof (rule ring_relI)
    fix j assume "j < length cs"
    then show "a[b mod K := c] ! ((Suc b + j) mod K) = cs ! j" using wr [of j] D(2) D(3) [of "Suc j"] by simp
  next
    fix j assume "j < K" "length cs \<le> j"
    then show "el_state (a[b mod K := c] ! ((Suc b + j) mod K)) = kEmpty"
      using wr [of j] D(4) [of "Suc j"] assms(2) by simp
  qed (use D in simp_all)
qed

section \<open>The invariant\<close>

text \<open>
  The occupied cells, from the back to the front: the one a thread holding the mutex is working on, the ready
  ones, and the one the owner is working on.
\<close>

definition ready :: "'w \<Rightarrow> 'w elem" where
  "ready w = \<lparr>el_state = kReady, el_w = w\<rparr>"

definition busy :: "'w option \<Rightarrow> 'w elem list" where
  "busy x = (case x of None \<Rightarrow> [] | Some w \<Rightarrow> [\<lparr>el_state = kBusy, el_w = w\<rparr>])"

definition cells :: "'w option \<Rightarrow> 'w list \<Rightarrow> 'w option \<Rightarrow> 'w elem list" where
  "cells bt xs tp = busy bt @ map ready xs @ busy tp"

definition pos_is :: "u32 \<Rightarrow> u32 \<Rightarrow> nat \<Rightarrow> bool" where
  "pos_is kSize w p \<longleftrightarrow> rq_pos kSize w = p mod (2 * unat kSize)"

text \<open>The owner: \<open>e\<close> is the position behind the last ready cell, \<open>la\<close> the effect of its last call.\<close>

fun front_inv :: "u32 \<Rightarrow> u32 \<Rightarrow> nat \<Rightarrow> 'w option \<Rightarrow> ('w deque_op \<times> 'w deque_res) option \<Rightarrow> 'w rq_pc \<Rightarrow> bool" where
  "front_inv kSize front e tp la (PushFront_cas w f) \<longleftrightarrow> tp = None \<and> f = front \<and> pos_is kSize front e"
| "front_inv kSize front e tp la (PushFront_front w f) \<longleftrightarrow> tp \<noteq> None \<and> f = front \<and> pos_is kSize front e"
| "front_inv kSize front e tp la (PushFront_work w f) \<longleftrightarrow> tp \<noteq> None \<and> pos_is kSize f e \<and> pos_is kSize front (e + 1)"
| "front_inv kSize front e tp la (PushFront_ready w f) \<longleftrightarrow> tp = Some w \<and> pos_is kSize f e \<and> pos_is kSize front (e + 1)"
| "front_inv kSize front e tp la (PopFront_cas f) \<longleftrightarrow> tp = None \<and> f = front \<and> pos_is kSize front e"
| "front_inv kSize front e tp la (PopFront_work f) \<longleftrightarrow>
     (\<exists>y. tp = Some y \<and> la = Some (PopF, Popped y)) \<and> f = front \<and> pos_is kSize front (e + 1)"
| "front_inv kSize front e tp la (PopFront_empty f y) \<longleftrightarrow>
     tp = Some y \<and> la = Some (PopF, Popped y) \<and> f = front \<and> pos_is kSize front (e + 1)"
| "front_inv kSize front e tp la (PopFront_front f y) \<longleftrightarrow>
     tp = None \<and> la = Some (PopF, Popped y) \<and> f = front \<and> pos_is kSize front (e + 1)"
| "front_inv kSize front e tp la _ \<longleftrightarrow> tp = None \<and> pos_is kSize front e"

text \<open>The thread that holds the mutex: the cells begin at position \<open>b\<close>.\<close>

definition has :: "'w option \<Rightarrow> nat" where
  "has x = (if x = None then 0 else 1)"

fun back_inv :: "u32 \<Rightarrow> u32 \<Rightarrow> nat \<Rightarrow> 'w option \<Rightarrow> ('w deque_op \<times> 'w deque_res) option \<Rightarrow> 'w rq_pc \<Rightarrow> bool" where
  "back_inv kSize back b bt la (PushBack_cas w k) \<longleftrightarrow> bt = None \<and> k = back \<and> pos_is kSize back b"
| "back_inv kSize back b bt la (PushBack_back w k) \<longleftrightarrow> bt \<noteq> None \<and> k = back \<and> pos_is kSize back (b + 1)"
| "back_inv kSize back b bt la (PushBack_work w k) \<longleftrightarrow> bt \<noteq> None \<and> pos_is kSize k (b + 1) \<and> pos_is kSize back b"
| "back_inv kSize back b bt la (PushBack_ready w k) \<longleftrightarrow> bt = Some w \<and> pos_is kSize k (b + 1) \<and> pos_is kSize back b"
| "back_inv kSize back b bt la (PopBack_cas k) \<longleftrightarrow> bt = None \<and> k = back \<and> pos_is kSize back b"
| "back_inv kSize back b bt la (PopBack_work k) \<longleftrightarrow>
     (\<exists>y. bt = Some y \<and> la = Some (PopB, Popped y)) \<and> k = back \<and> pos_is kSize back b"
| "back_inv kSize back b bt la (PopBack_empty k y) \<longleftrightarrow>
     bt = Some y \<and> la = Some (PopB, Popped y) \<and> k = back \<and> pos_is kSize back b"
| "back_inv kSize back b bt la (PopBack_back_store k y) \<longleftrightarrow>
     bt = None \<and> la = Some (PopB, Popped y) \<and> k = back \<and> (\<exists>c. b = c + 1 \<and> pos_is kSize back c)"
| "back_inv kSize back b bt la (Unlock r) \<longleftrightarrow> bt = None \<and> pos_is kSize back b \<and> (\<exists>op. la = Some (op, r))"
| "back_inv kSize back b bt la _ \<longleftrightarrow> bt = None \<and> pos_is kSize back b"

text \<open>What an operation that takes effect does to the abstract deque, of which the front is the first element.\<close>

definition spec_step :: "nat \<Rightarrow> 'w::zero list \<Rightarrow> 'w deque_op \<times> 'w deque_res \<Rightarrow> 'w list option" where
  "spec_step cap xs e =
     (let (r, ys) = deque_step cap xs (fst e)
      in if r = snd e then Some ys
         else if snd e = Pushed False \<and> r = Pushed True \<and> cap \<le> length xs + 1 then Some xs
         else None)"

definition spec_effect :: "nat \<Rightarrow> 'w::zero list \<Rightarrow> ('w deque_op \<times> 'w deque_res) option \<Rightarrow> 'w list option" where
  "spec_effect cap xs ev = (case ev of None \<Rightarrow> Some xs | Some e \<Rightarrow> spec_step cap xs e)"

section \<open>The owner's steps\<close>

lemma length_cells: "length (cells bt xs tp) = has bt + length xs + has tp"
  by (simp add: cells_def busy_def has_def split: option.split)

lemma pos_is_idx:
  assumes "valid_kSize kSize" "pos_is kSize w p"
  shows "unat (w AND kMask kSize) = p mod unat kSize" "unat ((w - 1) AND kMask kSize) = (p + (unat kSize - 1)) mod unat kSize"
proof -
  show "unat (w AND kMask kSize) = p mod unat kSize"
    using assms by (simp only: rq_idx pos_is_def mod_double)
  have "(p mod (2 * unat kSize) + (unat kSize - 1)) mod unat kSize = (p mod (2 * unat kSize) mod unat kSize + (unat kSize - 1)) mod unat kSize"
    by (rule mod_add_left_eq [symmetric])
  also have "\<dots> = (p + (unat kSize - 1)) mod unat kSize" by (simp only: mod_double mod_add_left_eq)
  finally show "unat ((w - 1) AND kMask kSize) = (p + (unat kSize - 1)) mod unat kSize"
    using assms by (simp only: rq_idx_pred pos_is_def)
qed

lemma pos_is_push: "valid_kSize kSize \<Longrightarrow> pos_is kSize w p \<Longrightarrow> pos_is kSize (w + 1 + push_bit 1 kSize) (p + 1)"
  by (simp only: pos_is_def rq_pos_push mod_add_left_eq)

lemma pos_is_pop:
  assumes "valid_kSize kSize" "pos_is kSize w (p + 1)"
  shows "pos_is kSize (((w - 1) AND kMask2 kSize) OR (w AND NOT (kMask2 kSize))) p"
proof -
  have K: "0 < 2 * unat kSize" using rq_pos_less [OF assms(1), of 0] by simp
  have "(p + 1 + (2 * unat kSize - 1)) mod (2 * unat kSize) = p mod (2 * unat kSize)"
    using ring_shift [OF K, of p 0] by (simp add: ac_simps)
  then show ?thesis using assms by (simp only: pos_is_def rq_pos_pop mod_add_left_eq)
qed

lemma spec_simps:
  "cap \<le> length xs + 1 \<Longrightarrow> spec_step cap (rev xs) (PushF w, Pushed False) = Some (rev xs)"
  "length xs < cap \<Longrightarrow> spec_step cap (rev xs) (PushF w, Pushed True) = Some (rev (xs @ [w]))"
  "spec_step cap (rev []) (PopF, Popped 0) = Some (rev [])"
  "spec_step cap (rev (xs @ [w])) (PopF, Popped w) = Some (rev xs)"
  "cap \<le> length xs + 1 \<Longrightarrow> spec_step cap (rev xs) (PushB w, Pushed False) = Some (rev xs)"
  "length xs < cap \<Longrightarrow> spec_step cap (rev xs) (PushB w, Pushed True) = Some (rev (w # xs))"
  "spec_step cap (rev []) (PopB, Popped 0) = Some (rev [])"
  "spec_step cap (rev (w # xs)) (PopB, Popped w) = Some (rev xs)"
  by (simp_all add: spec_step_def)

lemma has_simps [simp]: "has None = 0" "has (Some w) = 1" "has x \<le> 1"
  by (simp_all add: has_def)

lemma busy_simps [simp]: "busy None = []" "busy (Some w) = [\<lparr>el_state = kBusy, el_w = w\<rparr>]" "length (busy x) = has x"
  by (simp_all add: busy_def has_def split: option.split)

lemma ready_simps [simp]: "el_state (ready w) = kReady" "el_w (ready w) = w"
  by (simp_all add: ready_def)

lemma cells_not_empty: "c \<in> set (cells bt xs tp) \<Longrightarrow> el_state c \<noteq> kEmpty"
  by (auto simp: cells_def busy_def split: option.splits)

text \<open>The slot behind the last cell is free unless all are occupied.\<close>

lemma push_front_slot:
  assumes "ring_rel K a b (cells bt xs None)" "0 < K"
  shows "el_state (a ! ((b + has bt + length xs) mod K)) = kEmpty \<longleftrightarrow> has bt + length xs < K"
proof -
  note D = ring_relD [OF assms(1)]
  have len: "length (cells bt xs None) = has bt + length xs" by (simp add: length_cells)
  show ?thesis
  proof (cases "has bt + length xs < K")
    case True
    then show ?thesis using D(4) [of "has bt + length xs"] len by (simp add: add.assoc)
  next
    case False
    then have eq: "has bt + length xs = K" using D(2) len by simp
    then have "a ! ((b + has bt + length xs) mod K) = cells bt xs None ! 0"
      using D(3) [of 0] len assms(2) by (simp add: add.assoc)
    moreover have "cells bt xs None ! 0 \<in> set (cells bt xs None)" using len eq assms(2) by (intro nth_mem) simp
    ultimately show ?thesis using cells_not_empty [of "cells bt xs None ! 0"] eq by simp
  qed
qed

text \<open>The last cell is ready unless there is no ready cell.\<close>

lemma pop_front_slot:
  assumes "ring_rel K a b (cells bt xs None)" "0 < K"
  shows "el_state (a ! ((b + has bt + length xs + (K - 1)) mod K)) = kReady \<longleftrightarrow> xs \<noteq> []"
    "xs = ys @ [y] \<Longrightarrow> (b + has bt + length xs + (K - 1)) mod K = (b + (has bt + length ys)) mod K"
    "xs = ys @ [y] \<Longrightarrow> a ! ((b + has bt + length xs + (K - 1)) mod K) = ready y"
proof -
  note D = ring_relD [OF assms(1)]
  have len: "length (cells bt xs None) = has bt + length xs" by (simp add: length_cells)
  show idx: "(b + has bt + length xs + (K - 1)) mod K = (b + (has bt + length ys)) mod K" if "xs = ys @ [y]" for ys y
    using ring_shift [OF assms(2), of "b" "has bt + length ys"] that by (simp add: ac_simps)
  show last: "a ! ((b + has bt + length xs + (K - 1)) mod K) = ready y" if xs: "xs = ys @ [y]" for ys y
  proof -
    have "cells bt xs None ! (has bt + length ys) = ready y" by (simp add: xs cells_def nth_append)
    then show ?thesis unfolding idx [OF xs] using D(3) [of "has bt + length ys"] len xs by simp
  qed
  show "el_state (a ! ((b + has bt + length xs + (K - 1)) mod K)) = kReady \<longleftrightarrow> xs \<noteq> []"
  proof (cases xs rule: rev_cases)
    case (snoc ys y)
    then show ?thesis using last [OF snoc] by simp
  next
    case Nil
    have "el_state (a ! ((b + has bt + (K - 1)) mod K)) \<noteq> kReady"
    proof (cases bt)
      case None
      then show ?thesis using D(4) [of "K - 1"] len assms(2) Nil by simp
    next
      case (Some w)
      have "(b + 1 + (K - 1)) mod K = b mod K" using assms(2) by (simp add: mod_add_self2)
      then have "a ! ((b + has bt + (K - 1)) mod K) = cells bt [] None ! 0"
        using D(3) [of 0] Some Nil by (simp add: cells_def)
      then show ?thesis by (simp add: Some cells_def)
    qed
    then show ?thesis using Nil by simp
  qed
qed

lemma store_arrays:
  assumes "i < length (rq_array q)"
  shows "rq_array (store_work i x q) = (rq_array q)[i := \<lparr>el_state = el_state (rq_array q ! i), el_w = x\<rparr>]"
    "rq_array (store_state i s q) = (rq_array q)[i := \<lparr>el_state = s, el_w = el_w (rq_array q ! i)\<rparr>]"
  by (rule rq_write [OF assms])+

definition ret_ok :: "'w::zero rq_pc \<Rightarrow> ('w deque_op \<times> 'w deque_res) option \<Rightarrow> bool" where
  "ret_ok pc la \<longleftrightarrow> (\<forall>r. pc = Returned r \<longrightarrow> (\<exists>op. la = Some (op, r)) \<or> la = None \<and> r = Popped 0)"

definition front_post ::
    "u32 \<Rightarrow> nat \<Rightarrow> 'w option \<Rightarrow> 'w list \<Rightarrow> ('w deque_op \<times> 'w deque_res) option \<Rightarrow> 'w::zero run_queue \<Rightarrow> 'w step_result \<Rightarrow> bool" where
  "front_post kSize b bt xs la q res \<longleftrightarrow> (case res of (q', pc', ev) \<Rightarrow> \<exists>xs' tp'.
     ring_rel (unat kSize) (rq_array q') b (cells bt xs' tp') \<and>
     front_inv kSize (rq_front q') (b + has bt + length xs') tp' (case ev of None \<Rightarrow> la | Some e \<Rightarrow> Some e) pc' \<and>
     rq_back q' = rq_back q \<and> spec_effect (unat kSize) (rev xs) ev = Some (rev xs') \<and>
     ret_ok pc' (case ev of None \<Rightarrow> la | Some e \<Rightarrow> Some e))"

lemma front_postI:
  assumes "ring_rel (unat kSize) (rq_array q') b (cells bt xs' tp')"
    "front_inv kSize (rq_front q') (b + has bt + length xs') tp' (case ev of None \<Rightarrow> la | Some e \<Rightarrow> Some e) pc'"
    "rq_back q' = rq_back q" "spec_effect (unat kSize) (rev xs) ev = Some (rev xs')"
    "ret_ok pc' (case ev of None \<Rightarrow> la | Some e \<Rightarrow> Some e)"
  shows "front_post kSize b bt xs la q (q', pc', ev)"
  using assms unfolding front_post_def by auto

lemma valid_pos: "valid_kSize kSize \<Longrightarrow> 0 < unat kSize"
  using rq_pos_less [of kSize 0] by simp

text \<open>Where the two ends of the ring are, for each kind of program point.\<close>

lemma front_PushFront_load:
  assumes valid: "valid_kSize kSize" and ring: "ring_rel (unat kSize) (rq_array q) b (cells bt xs tp)"
    and inv: "front_inv kSize (rq_front q) (b + has bt + length xs) tp la (PushFront_load w)"
  shows "front_post kSize b bt xs la q (front_step kSize q (PushFront_load w))"
proof -
  have tp: "tp = None" and pos: "pos_is kSize (rq_front q) (b + has bt + length xs)" using inv by simp_all
  note slot = push_front_slot [OF ring [unfolded tp] valid_pos [OF valid]]
  have len: "has bt + length xs \<le> unat kSize" using ring_relD(2) [OF ring] by (simp add: length_cells tp)
  show ?thesis
  proof (cases "has bt + length xs < unat kSize")
    case True
    then show ?thesis
      using slot ring tp pos by (auto simp: Let_def pos_is_idx(1) [OF valid pos] spec_effect_def ret_ok_def intro!: front_postI)
  next
    case False
    then have "unat kSize \<le> length xs + 1" using has_simps(3) [of bt] len by linarith
    with False show ?thesis
      using slot ring tp pos
      by (auto simp: Let_def pos_is_idx(1) [OF valid pos] spec_effect_def spec_simps ret_ok_def intro!: front_postI)
  qed
qed

lemma front_PushFront_cas:
  assumes valid: "valid_kSize kSize" and ring: "ring_rel (unat kSize) (rq_array q) b (cells bt xs tp)"
    and inv: "front_inv kSize (rq_front q) (b + has bt + length xs) tp la (PushFront_cas w f)"
  shows "front_post kSize b bt xs la q (front_step kSize q (PushFront_cas w f))"
proof -
  let ?i = "(b + has bt + length xs) mod unat kSize"
  have tp: "tp = None" and f: "f = rq_front q" and pos: "pos_is kSize (rq_front q) (b + has bt + length xs)" using inv by simp_all
  note slot = push_front_slot [OF ring [unfolded tp] valid_pos [OF valid]]
  have len: "has bt + length xs \<le> unat kSize" using ring_relD(2) [OF ring] by (simp add: length_cells tp)
  show ?thesis
  proof (cases "has bt + length xs < unat kSize")
    case True
    have i: "?i < length (rq_array q)" using ring_relD(1) [OF ring] valid_pos [OF valid] by simp
    have "ring_rel (unat kSize) ((rq_array q)[?i := \<lparr>el_state = kBusy, el_w = el_w (rq_array q ! ?i)\<rparr>]) b
        (cells bt xs (Some (el_w (rq_array q ! ?i))))"
      using ring_rel_append [OF ring [unfolded tp], of "\<lparr>el_state = kBusy, el_w = el_w (rq_array q ! ?i)\<rparr>"] True
      by (simp add: length_cells add.assoc) (simp add: cells_def)
    then show ?thesis
      using slot True pos f
      by (auto simp: Let_def pos_is_idx(1) [OF valid pos] compare_exchange_state_def store_arrays(2) [OF i] spec_effect_def
        ret_ok_def intro!: front_postI)
  next
    case False
    then have "unat kSize \<le> length xs + 1" using has_simps(3) [of bt] len by linarith
    with False show ?thesis
      using slot ring tp pos f
      by (auto simp: Let_def pos_is_idx(1) [OF valid pos] compare_exchange_state_def spec_effect_def spec_simps ret_ok_def
        intro!: front_postI)
  qed
qed

text \<open>The cell the owner is working on.\<close>

lemma top_cell:
  assumes ring: "ring_rel K a b (cells bt xs (Some y))"
  shows "(b + has bt + length xs) mod K < length a"
    "a ! ((b + has bt + length xs) mod K) = \<lparr>el_state = kBusy, el_w = y\<rparr>"
    "ring_rel K (a[(b + has bt + length xs) mod K := \<lparr>el_state = kBusy, el_w = w\<rparr>]) b (cells bt xs (Some w))"
    "ring_rel K (a[(b + has bt + length xs) mod K := \<lparr>el_state = kReady, el_w = w\<rparr>]) b (cells bt (xs @ [w]) None)"
    "ring_rel K (a[(b + has bt + length xs) mod K := \<lparr>el_state = kEmpty, el_w = w\<rparr>]) b (cells bt xs None)"
    "has bt + length xs < K"
proof -
  note D = ring_relD [OF ring]
  have len: "length (cells bt xs (Some y)) = Suc (has bt + length xs)" by (simp add: length_cells)
  then show lt: "has bt + length xs < K" using D(2) by simp
  have cell: "cells bt xs (Some y) ! (has bt + length xs) = \<lparr>el_state = kBusy, el_w = y\<rparr>"
    by (simp add: cells_def nth_append)
  show "(b + has bt + length xs) mod K < length a" using D(1) lt by simp
  show "a ! ((b + has bt + length xs) mod K) = \<lparr>el_state = kBusy, el_w = y\<rparr>"
    using D(3) [of "has bt + length xs"] len cell by (simp add: add.assoc)
  have upd: "(cells bt xs (Some y))[has bt + length xs := c] = busy bt @ map ready xs @ [c]" for c
    by (simp add: cells_def list_update_append)
  have "ring_rel K (a[(b + has bt + length xs) mod K := c]) b (busy bt @ map ready xs @ [c])" for c
    using ring_rel_update [OF ring, of "has bt + length xs" c] len upd by (simp add: add.assoc)
  then show "ring_rel K (a[(b + has bt + length xs) mod K := \<lparr>el_state = kBusy, el_w = w\<rparr>]) b (cells bt xs (Some w))"
    "ring_rel K (a[(b + has bt + length xs) mod K := \<lparr>el_state = kReady, el_w = w\<rparr>]) b (cells bt (xs @ [w]) None)"
    by (simp_all add: cells_def ready_def)
  show "ring_rel K (a[(b + has bt + length xs) mod K := \<lparr>el_state = kEmpty, el_w = w\<rparr>]) b (cells bt xs None)"
    using ring_rel_drop_last [of K a b "busy bt @ map ready xs" "\<lparr>el_state = kBusy, el_w = y\<rparr>"] ring
    by (simp add: cells_def add.assoc)
qed

lemma pos_is_idx_Suc:
  assumes "valid_kSize kSize" "pos_is kSize w (p + 1)"
  shows "unat ((w - 1) AND kMask kSize) = p mod unat kSize"
  using pos_is_idx(2) [OF assms] ring_shift [OF valid_pos [OF assms(1)], of p 0] by (simp add: ac_simps)

lemma front_PushFront_rest:
  assumes valid: "valid_kSize kSize" and ring: "ring_rel (unat kSize) (rq_array q) b (cells bt xs tp)"
    and inv: "front_inv kSize (rq_front q) (b + has bt + length xs) tp la pc"
    and pc: "pc = PushFront_front w f \<or> pc = PushFront_work w f \<or> pc = PushFront_ready w f"
  shows "front_post kSize b bt xs la q (front_step kSize q pc)"
proof -
  let ?i = "(b + has bt + length xs) mod unat kSize"
  obtain y where tp: "tp = Some y" using inv pc by (cases tp) auto
  note T = top_cell [OF ring [unfolded tp]]
  from pc show ?thesis
  proof (elim disjE)
    assume pc: "pc = PushFront_front w f"
    then have pos: "pos_is kSize (rq_front q) (b + has bt + length xs)" "f = rq_front q" using inv by simp_all
    then show ?thesis
      unfolding pc front_step.simps
      by (intro front_postI [of _ _ _ _ xs tp])
        (use ring pos_is_push [OF valid pos(1)] tp in \<open>simp_all add: spec_effect_def ret_ok_def\<close>)
  next
    assume pc: "pc = PushFront_work w f"
    then have pos: "pos_is kSize f (b + has bt + length xs)" "pos_is kSize (rq_front q) (b + has bt + length xs + 1)"
      using inv by simp_all
    have arr: "rq_array (store_work ?i w q) = (rq_array q)[?i := \<lparr>el_state = kBusy, el_w = w\<rparr>]"
      unfolding store_arrays(1) [OF T(1)] T(2) by simp
    show ?thesis
      unfolding pc front_step.simps pos_is_idx(1) [OF valid pos(1)]
      by (intro front_postI [of _ _ _ _ xs "Some w"])
        (use T(3) pos in \<open>simp_all add: arr spec_effect_def ret_ok_def\<close>)
  next
    assume pc: "pc = PushFront_ready w f"
    then have pos: "pos_is kSize f (b + has bt + length xs)" "pos_is kSize (rq_front q) (b + has bt + length xs + 1)" "y = w"
      using inv tp by simp_all
    have arr: "rq_array (store_state ?i kReady q) = (rq_array q)[?i := \<lparr>el_state = kReady, el_w = w\<rparr>]"
      unfolding store_arrays(2) [OF T(1)] T(2) by (simp add: pos(3))
    show ?thesis
      unfolding pc front_step.simps pos_is_idx(1) [OF valid pos(1)]
      by (intro front_postI [of _ _ _ _ "xs @ [w]" None])
        (use T(4) T(6) pos in \<open>simp_all add: arr spec_effect_def spec_simps ret_ok_def del: rev_append\<close>)
  qed
qed

lemma front_PopFront_start:
  assumes valid: "valid_kSize kSize" and ring: "ring_rel (unat kSize) (rq_array q) b (cells bt xs tp)"
    and inv: "front_inv kSize (rq_front q) (b + has bt + length xs) tp la pc"
    and pc: "pc = PopFront_load \<or> pc = PopFront_cas f"
  shows "front_post kSize b bt xs la q (front_step kSize q pc)"
proof -
  let ?i = "(b + has bt + length xs + (unat kSize - 1)) mod unat kSize"
  have tp: "tp = None" and pos: "pos_is kSize (rq_front q) (b + has bt + length xs)"
    and f: "pc = PopFront_cas f \<Longrightarrow> f = rq_front q" using inv pc by auto
  note slot = pop_front_slot [OF ring [unfolded tp] valid_pos [OF valid]]
  note idx = pos_is_idx(2) [OF valid pos]
  show ?thesis
  proof (cases xs rule: rev_cases)
    case Nil
    then show ?thesis
      using pc slot(1) ring tp pos f
      by (auto simp: Let_def idx compare_exchange_state_def spec_effect_def spec_simps ret_ok_def simp del: rev.simps(1)
        intro!: front_postI)
  next
    case (snoc ys y)
    have st: "rq_array q ! ?i = ready y" by (rule slot(3) [OF snoc])
    have i: "?i < length (rq_array q)" using ring_relD(1) [OF ring] valid_pos [OF valid] by simp
    have "ring_rel (unat kSize) ((rq_array q)[?i := \<lparr>el_state = kBusy, el_w = y\<rparr>]) b (cells bt ys (Some y))"
      using ring_rel_update [OF ring, of "has bt + length ys" "\<lparr>el_state = kBusy, el_w = y\<rparr>"] slot(2) [OF snoc]
      by (simp add: length_cells tp snoc) (simp add: cells_def list_update_append snoc)
    then have ring': "ring_rel (unat kSize) (rq_array (store_state ?i kBusy q)) b (cells bt ys (Some y))"
      unfolding store_arrays(2) [OF i] st by simp
    from pc show ?thesis
    proof (elim disjE)
      assume pc: "pc = PopFront_load"
      show ?thesis
        unfolding pc front_step.simps Let_def idx
        by (use st ring tp pos in \<open>auto simp: spec_effect_def ret_ok_def intro!: front_postI\<close>)
    next
      assume pc: "pc = PopFront_cas f"
      have step: "front_step kSize q pc = (store_state ?i kBusy q, PopFront_work f, Some (PopF, Popped y))"
        using st by (simp add: pc f [OF pc] idx compare_exchange_state_def)
      show ?thesis
        unfolding step
        by (intro front_postI [of _ _ _ _ ys "Some y"])
          (use ring' pos f [OF pc] in \<open>simp_all add: snoc spec_effect_def spec_simps(4) ret_ok_def del: rev_append\<close>)
    qed
  qed
qed

lemma front_PopFront_rest:
  assumes valid: "valid_kSize kSize" and ring: "ring_rel (unat kSize) (rq_array q) b (cells bt xs tp)"
    and inv: "front_inv kSize (rq_front q) (b + has bt + length xs) tp la pc"
    and pc: "pc = PopFront_work f \<or> pc = PopFront_empty f w \<or> pc = PopFront_front f w"
  shows "front_post kSize b bt xs la q (front_step kSize q pc)"
proof -
  let ?i = "(b + has bt + length xs) mod unat kSize"
  have pos: "pos_is kSize (rq_front q) (b + has bt + length xs + 1)" "f = rq_front q" using inv pc by auto
  note idx = pos_is_idx_Suc [OF valid pos(1)]
  from pc show ?thesis
  proof (elim disjE)
    assume pc: "pc = PopFront_work f"
    then obtain y where tp: "tp = Some y" "la = Some (PopF, Popped y)" using inv by auto
    note T = top_cell [OF ring [unfolded tp(1)]]
    show ?thesis
      unfolding pc front_step.simps pos(2) idx T(2)
      by (intro front_postI [of _ _ _ _ xs tp]) (use ring tp pos in \<open>simp_all add: spec_effect_def ret_ok_def\<close>)
  next
    assume pc: "pc = PopFront_empty f w"
    then have tp: "tp = Some w" "la = Some (PopF, Popped w)" using inv by auto
    note T = top_cell [OF ring [unfolded tp(1)]]
    show ?thesis
      unfolding pc front_step.simps pos(2) idx
      by (intro front_postI [of _ _ _ _ xs None])
        (use T(5) tp pos in \<open>simp_all add: store_arrays(2) [OF T(1)] spec_effect_def ret_ok_def\<close>)
  next
    assume pc: "pc = PopFront_front f w"
    then have tp: "tp = None" "la = Some (PopF, Popped w)" using inv by auto
    show ?thesis
      unfolding pc front_step.simps pos(2)
      by (intro front_postI [of _ _ _ _ xs None])
        (use ring tp pos_is_pop [OF valid pos(1)] in \<open>simp_all add: spec_effect_def ret_ok_def\<close>)
  qed
qed

lemma front_step_ok:
  assumes "valid_kSize kSize" "ring_rel (unat kSize) (rq_array q) b (cells bt xs tp)"
    "front_inv kSize (rq_front q) (b + has bt + length xs) tp la pc" "front_pc pc"
  shows "front_post kSize b bt xs la q (front_step kSize q pc)"
  using assms(4)
proof (cases pc)
  case (PushFront_load w)
  with assms(3) show ?thesis unfolding PushFront_load by (intro front_PushFront_load [OF assms(1,2)])
next
  case (PushFront_cas w f)
  with assms(3) show ?thesis unfolding PushFront_cas by (intro front_PushFront_cas [OF assms(1,2)])
qed (use front_PushFront_rest [OF assms(1-3)] front_PopFront_start [OF assms(1-3)] front_PopFront_rest [OF assms(1-3)] in auto)

section \<open>The steps under the mutex\<close>

lemma push_back_slot:
  assumes "ring_rel K a b (cells None xs tp)" "0 < K"
  shows "el_state (a ! ((b + (K - 1)) mod K)) = kEmpty \<longleftrightarrow> length xs + has tp < K"
proof -
  note D = ring_relD [OF assms(1)]
  have len: "length (cells None xs tp) = length xs + has tp" by (simp add: length_cells)
  show ?thesis
  proof (cases "length xs + has tp < K")
    case True
    then show ?thesis using D(4) [of "K - 1"] len assms(2) by simp
  next
    case False
    then have eq: "length (cells None xs tp) = K" using D(2) len by simp
    then have "cells None xs tp ! (K - 1) \<in> set (cells None xs tp)" using assms(2) by (intro nth_mem) simp
    then have "el_state (cells None xs tp ! (K - 1)) \<noteq> kEmpty" by (rule cells_not_empty)
    then show ?thesis using D(3) [of "K - 1"] eq len assms(2) by simp
  qed
qed

lemma pop_back_slot:
  assumes "ring_rel K a b (cells None xs tp)" "0 < K"
  shows "el_state (a ! (b mod K)) = kReady \<longleftrightarrow> xs \<noteq> []"
    "xs = y # ys \<Longrightarrow> a ! (b mod K) = ready y"
proof -
  note D = ring_relD [OF assms(1)]
  show first: "a ! (b mod K) = ready y" if "xs = y # ys" for y ys
    using D(3) [of 0] that by (simp add: cells_def)
  show "el_state (a ! (b mod K)) = kReady \<longleftrightarrow> xs \<noteq> []"
  proof (cases xs)
    case Nil
    show ?thesis
    proof (cases tp)
      case None
      then show ?thesis using D(4) [of 0] assms(2) Nil by (simp add: cells_def)
    next
      case (Some w)
      then show ?thesis using D(3) [of 0] Nil by (simp add: cells_def)
    qed
  next
    case (Cons y ys)
    then show ?thesis using first by simp
  qed
qed

text \<open>The cell the holder of the mutex is working on.\<close>

lemma bottom_cell:
  assumes ring: "ring_rel K a b (cells (Some y) xs tp)"
  shows "b mod K < length a" "a ! (b mod K) = \<lparr>el_state = kBusy, el_w = y\<rparr>"
    "ring_rel K (a[b mod K := \<lparr>el_state = kBusy, el_w = w\<rparr>]) b (cells (Some w) xs tp)"
    "ring_rel K (a[b mod K := \<lparr>el_state = kReady, el_w = w\<rparr>]) b (cells None (w # xs) tp)"
    "ring_rel K (a[b mod K := \<lparr>el_state = kEmpty, el_w = w\<rparr>]) (Suc b) (cells None xs tp)"
    "length xs + has tp < K"
proof -
  note D = ring_relD [OF ring]
  have len: "length (cells (Some y) xs tp) = Suc (length xs + has tp)" by (simp add: length_cells)
  then show lt: "length xs + has tp < K" using D(2) by simp
  show "b mod K < length a" using D(1) lt by simp
  show "a ! (b mod K) = \<lparr>el_state = kBusy, el_w = y\<rparr>" using D(3) [of 0] by (simp add: cells_def)
  have "ring_rel K (a[b mod K := c]) b (c # map ready xs @ busy tp)" for c
    using ring_rel_update [OF ring, of 0 c] by (simp add: cells_def)
  then show "ring_rel K (a[b mod K := \<lparr>el_state = kBusy, el_w = w\<rparr>]) b (cells (Some w) xs tp)"
    "ring_rel K (a[b mod K := \<lparr>el_state = kReady, el_w = w\<rparr>]) b (cells None (w # xs) tp)"
    by (simp_all add: cells_def ready_def)
  show "ring_rel K (a[b mod K := \<lparr>el_state = kEmpty, el_w = w\<rparr>]) (Suc b) (cells None xs tp)"
    using ring_rel_drop_first [of K a b "\<lparr>el_state = kBusy, el_w = y\<rparr>" "map ready xs @ busy tp"] ring
    by (simp add: cells_def)
qed

definition back_post ::
    "u32 \<Rightarrow> nat \<Rightarrow> 'w option \<Rightarrow> 'w list \<Rightarrow> 'w option \<Rightarrow> ('w deque_op \<times> 'w deque_res) option \<Rightarrow> 'w::zero run_queue \<Rightarrow> 'w step_result \<Rightarrow> bool" where
  "back_post kSize b bt xs tp la q res \<longleftrightarrow> (case res of (q', pc', ev) \<Rightarrow> \<exists>b' bt' xs'.
     ring_rel (unat kSize) (rq_array q') b' (cells bt' xs' tp) \<and>
     back_inv kSize (rq_back q') b' bt' (case ev of None \<Rightarrow> la | Some e \<Rightarrow> Some e) pc' \<and>
     rq_front q' = rq_front q \<and>
     (b' + has bt' + length xs') mod (2 * unat kSize) = (b + has bt + length xs) mod (2 * unat kSize) \<and>
     spec_effect (unat kSize) (rev xs) ev = Some (rev xs') \<and> locked_pc pc')"

lemma back_postI:
  assumes "ring_rel (unat kSize) (rq_array q') b' (cells bt' xs' tp)"
    "back_inv kSize (rq_back q') b' bt' (case ev of None \<Rightarrow> la | Some e \<Rightarrow> Some e) pc'"
    "rq_front q' = rq_front q"
    "(b' + has bt' + length xs') mod (2 * unat kSize) = (b + has bt + length xs) mod (2 * unat kSize)"
    "spec_effect (unat kSize) (rev xs) ev = Some (rev xs')" "locked_pc pc'"
  shows "back_post kSize b bt xs tp la q (q', pc', ev)"
  using assms unfolding back_post_def by auto

lemma back_PushBack_start:
  assumes valid: "valid_kSize kSize" and ring: "ring_rel (unat kSize) (rq_array q) b (cells bt xs tp)"
    and inv: "back_inv kSize (rq_back q) b bt la pc" and pc: "pc = PushBack_load w \<or> pc = PushBack_cas w k"
  shows "back_post kSize b bt xs tp la q (back_step kSize q pc)"
proof -
  let ?K = "unat kSize" and ?i = "(b + (unat kSize - 1)) mod unat kSize"
  have K: "0 < ?K" by (rule valid_pos [OF valid])
  have bt: "bt = None" and pos: "pos_is kSize (rq_back q) b" and k: "pc = PushBack_cas w k \<Longrightarrow> k = rq_back q"
    using inv pc by auto
  note slot = push_back_slot [OF ring [unfolded bt] K]
  note idx = pos_is_idx(2) [OF valid pos]
  have len: "length xs + has tp \<le> ?K" using ring_relD(2) [OF ring] by (simp add: length_cells bt)
  show ?thesis
  proof (cases "length xs + has tp < ?K")
    case False
    then have "?K \<le> length xs + 1" using has_simps(3) [of tp] len by linarith
    with False pc show ?thesis
      using slot ring bt pos k
      by (auto simp: Let_def idx compare_exchange_state_def spec_effect_def spec_simps intro!: back_postI)
  next
    case True
    from pc show ?thesis
    proof (elim disjE)
      assume pc: "pc = PushBack_load w"
      show ?thesis
        unfolding pc back_step.simps Let_def idx
        using slot True ring bt pos by (auto simp: spec_effect_def intro!: back_postI)
    next
      assume pc: "pc = PushBack_cas w k"
      let ?w = "el_w (rq_array q ! ?i)"
      have i: "?i < length (rq_array q)" using ring_relD(1) [OF ring] K by simp
      have "ring_rel ?K ((rq_array q)[?i := \<lparr>el_state = kBusy, el_w = ?w\<rparr>]) (b + (?K - 1)) (cells (Some ?w) xs tp)"
        using ring_rel_prepend [OF ring, of "\<lparr>el_state = kBusy, el_w = ?w\<rparr>"] True
        by (simp add: length_cells bt) (simp add: cells_def)
      moreover have "(b + (?K - 1)) mod ?K = (b + (2 * ?K - 1)) mod ?K"
      proof -
        have "b + (2 * ?K - 1) = b + (?K - 1) + ?K" using K by simp
        then show ?thesis by (simp only: mod_add_self2)
      qed
      ultimately have ring': "ring_rel ?K (rq_array (store_state ?i kBusy q)) (b + (2 * ?K - 1)) (cells (Some ?w) xs tp)"
        unfolding store_arrays(2) [OF i] using ring_rel_cong by blast
      have b': "b + (2 * ?K - 1) + 1 = b + 2 * ?K" using K by simp
      then have pos': "pos_is kSize (rq_back q) (b + (2 * ?K - 1) + 1)" using pos by (simp only: pos_is_def mod_add_self2)
      have mod: "(b + (2 * ?K - 1) + has (Some ?w) + length xs) mod (2 * ?K) = (b + has bt + length xs) mod (2 * ?K)"
      proof -
        have "b + (2 * ?K - 1) + has (Some ?w) + length xs = b + has bt + length xs + 2 * ?K" using b' by (simp add: bt)
        then show ?thesis by (simp only: mod_add_self2)
      qed
      have step: "back_step kSize q pc = (store_state ?i kBusy q, PushBack_back w k, None)"
        using slot True by (simp add: pc k [OF pc] idx compare_exchange_state_def)
      show ?thesis
        unfolding step
        by (rule back_postI [OF ring']) (use pos' mod k [OF pc] in \<open>simp_all add: spec_effect_def\<close>)
    qed
  qed
qed

lemma back_PushBack_rest:
  assumes valid: "valid_kSize kSize" and ring: "ring_rel (unat kSize) (rq_array q) b (cells bt xs tp)"
    and inv: "back_inv kSize (rq_back q) b bt la pc"
    and pc: "pc = PushBack_back w k \<or> pc = PushBack_work w k \<or> pc = PushBack_ready w k"
  shows "back_post kSize b bt xs tp la q (back_step kSize q pc)"
proof -
  let ?i = "b mod unat kSize"
  obtain y where bt: "bt = Some y" using inv pc by (cases bt) auto
  note T = bottom_cell [OF ring [unfolded bt]]
  from pc show ?thesis
  proof (elim disjE)
    assume pc: "pc = PushBack_back w k"
    then have pos: "pos_is kSize (rq_back q) (b + 1)" "k = rq_back q" using inv by simp_all
    show ?thesis
      unfolding pc back_step.simps pos(2)
      by (intro back_postI [of _ _ b bt xs]) (use ring pos_is_pop [OF valid pos(1)] pos(1) bt in \<open>simp_all add: spec_effect_def\<close>)
  next
    assume pc: "pc = PushBack_work w k"
    then have pos: "pos_is kSize k (b + 1)" "pos_is kSize (rq_back q) b" using inv by simp_all
    have arr: "rq_array (store_work ?i w q) = (rq_array q)[?i := \<lparr>el_state = kBusy, el_w = w\<rparr>]"
      unfolding store_arrays(1) [OF T(1)] T(2) by simp
    show ?thesis
      unfolding pc back_step.simps pos_is_idx_Suc [OF valid pos(1)]
      by (intro back_postI [of _ _ b "Some w" xs]) (use T(3) pos bt in \<open>simp_all add: arr spec_effect_def\<close>)
  next
    assume pc: "pc = PushBack_ready w k"
    then have pos: "pos_is kSize k (b + 1)" "pos_is kSize (rq_back q) b" "y = w" using inv bt by simp_all
    have arr: "rq_array (store_state ?i kReady q) = (rq_array q)[?i := \<lparr>el_state = kReady, el_w = w\<rparr>]"
      unfolding store_arrays(2) [OF T(1)] T(2) by (simp add: pos(3))
    have "length xs < unat kSize" using T(6) by simp
    then show ?thesis
      unfolding pc back_step.simps pos_is_idx_Suc [OF valid pos(1)]
      by (intro back_postI [of _ _ b None "w # xs"])
        (use T(4) pos bt in \<open>simp_all add: arr spec_effect_def spec_simps del: rev.simps\<close>)
  qed
qed

lemma back_PopBack_start:
  assumes valid: "valid_kSize kSize" and ring: "ring_rel (unat kSize) (rq_array q) b (cells bt xs tp)"
    and inv: "back_inv kSize (rq_back q) b bt la pc" and pc: "pc = PopBack_load \<or> pc = PopBack_cas k"
  shows "back_post kSize b bt xs tp la q (back_step kSize q pc)"
proof -
  let ?i = "b mod unat kSize"
  have bt: "bt = None" and pos: "pos_is kSize (rq_back q) b" and k: "pc = PopBack_cas k \<Longrightarrow> k = rq_back q"
    using inv pc by auto
  note slot = pop_back_slot [OF ring [unfolded bt] valid_pos [OF valid]]
  note idx = pos_is_idx(1) [OF valid pos]
  show ?thesis
  proof (cases xs)
    case Nil
    with pc show ?thesis
      using slot(1) ring bt pos k
      by (auto simp: Let_def idx compare_exchange_state_def spec_effect_def spec_simps simp del: rev.simps(1) intro!: back_postI)
  next
    case (Cons y ys)
    have st: "rq_array q ! ?i = ready y" by (rule slot(2) [OF Cons])
    have i: "?i < length (rq_array q)" using ring_relD(1) [OF ring] valid_pos [OF valid] by simp
    have "ring_rel (unat kSize) ((rq_array q)[?i := \<lparr>el_state = kBusy, el_w = y\<rparr>]) b (cells (Some y) ys tp)"
      using ring_rel_update [OF ring, of 0 "\<lparr>el_state = kBusy, el_w = y\<rparr>"]
      by (simp add: cells_def bt Cons)
    then have ring': "ring_rel (unat kSize) (rq_array (store_state ?i kBusy q)) b (cells (Some y) ys tp)"
      unfolding store_arrays(2) [OF i] st by simp
    from pc show ?thesis
    proof (elim disjE)
      assume pc: "pc = PopBack_load"
      show ?thesis
        unfolding pc back_step.simps Let_def idx
        using st ring bt pos by (auto simp: spec_effect_def intro!: back_postI)
    next
      assume pc: "pc = PopBack_cas k"
      have step: "back_step kSize q pc = (store_state ?i kBusy q, PopBack_work k, Some (PopB, Popped y))"
        using st by (simp add: pc k [OF pc] idx compare_exchange_state_def)
      show ?thesis
        unfolding step
        by (rule back_postI [OF ring'])
          (use pos k [OF pc] in \<open>simp_all add: Cons bt spec_effect_def spec_simps(8) del: rev.simps\<close>)
    qed
  qed
qed

lemma back_PopBack_rest:
  assumes valid: "valid_kSize kSize" and ring: "ring_rel (unat kSize) (rq_array q) b (cells bt xs tp)"
    and inv: "back_inv kSize (rq_back q) b bt la pc"
    and pc: "pc = PopBack_work k \<or> pc = PopBack_empty k w \<or> pc = PopBack_back_store k w"
  shows "back_post kSize b bt xs tp la q (back_step kSize q pc)"
proof -
  let ?i = "b mod unat kSize"
  from pc show ?thesis
  proof (elim disjE)
    assume pc: "pc = PopBack_work k"
    then obtain y where bt: "bt = Some y" "la = Some (PopB, Popped y)" "k = rq_back q" and pos: "pos_is kSize (rq_back q) b"
      using inv by auto
    note T = bottom_cell [OF ring [unfolded bt(1)]]
    show ?thesis
      unfolding pc back_step.simps bt(3) pos_is_idx(1) [OF valid pos] T(2)
      by (intro back_postI [of _ _ b bt xs]) (use ring bt pos in \<open>simp_all add: spec_effect_def\<close>)
  next
    assume pc: "pc = PopBack_empty k w"
    then have bt: "bt = Some w" "la = Some (PopB, Popped w)" "k = rq_back q" and pos: "pos_is kSize (rq_back q) b"
      using inv by auto
    note T = bottom_cell [OF ring [unfolded bt(1)]]
    show ?thesis
      unfolding pc back_step.simps bt(3) pos_is_idx(1) [OF valid pos]
      by (intro back_postI [of _ _ "Suc b" None xs])
        (use T(5) bt pos in \<open>simp_all add: store_arrays(2) [OF T(1)] spec_effect_def\<close>)
  next
    assume pc: "pc = PopBack_back_store k w"
    then obtain c where bt: "bt = None" "la = Some (PopB, Popped w)" "k = rq_back q" "b = c + 1"
        and pos: "pos_is kSize (rq_back q) c"
      using inv by auto
    show ?thesis
      unfolding pc back_step.simps bt(3)
      by (intro back_postI [of _ _ b None xs])
        (use ring bt pos_is_push [OF valid pos] in \<open>simp_all add: spec_effect_def\<close>)
  qed
qed

lemma back_step_ok:
  assumes "valid_kSize kSize" "ring_rel (unat kSize) (rq_array q) b (cells bt xs tp)"
    "back_inv kSize (rq_back q) b bt la pc" "locked_pc pc" "\<nexists>r. pc = Unlock r"
  shows "back_post kSize b bt xs tp la q (back_step kSize q pc)"
  using assms(4,5)
  by (cases pc)
    (use back_PushBack_start [OF assms(1-3)] back_PushBack_rest [OF assms(1-3)] back_PopBack_start [OF assms(1-3)]
      back_PopBack_rest [OF assms(1-3)] in auto)

section \<open>All threads\<close>

text \<open>The program points before the step at which an operation takes effect.\<close>

fun fresh_pc :: "'w rq_pc \<Rightarrow> bool" where
  "fresh_pc Idle = False"
| "fresh_pc (Returned r) = False"
| "fresh_pc (PopFront_work f) = False"
| "fresh_pc (PopFront_empty f w) = False"
| "fresh_pc (PopFront_front f w) = False"
| "fresh_pc (PopBack_work b) = False"
| "fresh_pc (PopBack_empty b w) = False"
| "fresh_pc (PopBack_back_store b w) = False"
| "fresh_pc (Unlock r) = False"
| "fresh_pc _ = True"

definition holder_inv :: "u32 \<Rightarrow> 'w::zero conc_queue \<Rightarrow> nat \<Rightarrow> 'w option \<Rightarrow> (nat \<Rightarrow> ('w deque_op \<times> 'w deque_res) option) \<Rightarrow> bool" where
  "holder_inv kSize s b bt eff \<longleftrightarrow> (case mutex s of
     None \<Rightarrow> bt = None \<and> pos_is kSize (rq_back (queue s)) b
   | Some t \<Rightarrow> back_inv kSize (rq_back (queue s)) b bt (eff t) (rq_pcs s t))"

definition conc_at ::
    "u32 \<Rightarrow> 'w::zero conc_queue \<Rightarrow> 'w list \<Rightarrow> (nat \<Rightarrow> ('w deque_op \<times> 'w deque_res) option) \<Rightarrow> nat \<Rightarrow> 'w option \<Rightarrow> 'w option \<Rightarrow> bool" where
  "conc_at kSize s xs eff b bt tp \<longleftrightarrow> valid_kSize kSize \<and>
     ring_rel (unat kSize) (rq_array (queue s)) b (cells bt xs tp) \<and>
     front_inv kSize (rq_front (queue s)) (b + has bt + length xs) tp (eff 0) (rq_pcs s 0) \<and>
     holder_inv kSize s b bt eff \<and>
     (\<forall>t. locked_pc (rq_pcs s t) \<longleftrightarrow> mutex s = Some t) \<and>
     (\<forall>t. t \<noteq> 0 \<longrightarrow> \<not> front_pc (rq_pcs s t)) \<and>
     (\<forall>t. ret_ok (rq_pcs s t) (eff t)) \<and> (\<forall>t. fresh_pc (rq_pcs s t) \<longrightarrow> eff t = None)"

definition conc_inv :: "u32 \<Rightarrow> 'w::zero conc_queue \<Rightarrow> 'w list \<Rightarrow> (nat \<Rightarrow> ('w deque_op \<times> 'w deque_res) option) \<Rightarrow> bool" where
  "conc_inv kSize s xs eff \<longleftrightarrow> (\<exists>b bt tp. conc_at kSize s xs eff b bt tp)"

lemma front_inv_idle: "\<not> front_pc pc \<Longrightarrow> front_inv kSize f e tp la pc \<longleftrightarrow> tp = None \<and> pos_is kSize f e"
  by (cases pc) auto

lemma back_inv_idle: "\<not> locked_pc pc \<Longrightarrow> back_inv kSize k b bt la pc \<longleftrightarrow> bt = None \<and> pos_is kSize k b"
  by (cases pc) auto

lemma pos_is_cong: "p mod (2 * unat kSize) = p' mod (2 * unat kSize) \<Longrightarrow> pos_is kSize w p \<longleftrightarrow> pos_is kSize w p'"
  "p mod (2 * unat kSize) = p' mod (2 * unat kSize) \<Longrightarrow> pos_is kSize w (p + 1) \<longleftrightarrow> pos_is kSize w (p' + 1)"
proof -
  show "pos_is kSize w p \<longleftrightarrow> pos_is kSize w p'" if "p mod (2 * unat kSize) = p' mod (2 * unat kSize)"
    using that by (simp add: pos_is_def)
  show "pos_is kSize w (p + 1) \<longleftrightarrow> pos_is kSize w (p' + 1)" if "p mod (2 * unat kSize) = p' mod (2 * unat kSize)"
    unfolding pos_is_def by (metis that mod_add_left_eq)
qed

lemma front_inv_cong:
  "e mod (2 * unat kSize) = e' mod (2 * unat kSize) \<Longrightarrow> front_inv kSize f e tp la pc \<longleftrightarrow> front_inv kSize f e' tp la pc"
  by (cases pc) (simp_all only: front_inv.simps pos_is_cong [of e kSize e'])

lemma front_step_pcs:
  "front_pc pc \<Longrightarrow> front_step kSize q pc = (q', pc', ev) \<Longrightarrow>
    \<not> locked_pc pc' \<and> (ev \<noteq> None \<longrightarrow> fresh_pc pc) \<and> (fresh_pc pc' \<longrightarrow> fresh_pc pc \<and> ev = None)"
  by (cases pc) (auto simp: Let_def compare_exchange_state_def split: if_splits)

lemma back_step_pcs:
  "locked_pc pc \<Longrightarrow> back_step kSize q pc = (q', pc', ev) \<Longrightarrow>
    \<not> front_pc pc' \<and> (\<forall>r. pc' \<noteq> Returned r) \<and> (ev \<noteq> None \<longrightarrow> fresh_pc pc) \<and> (fresh_pc pc' \<longrightarrow> fresh_pc pc \<and> ev = None)"
  by (cases pc) (auto simp: Let_def compare_exchange_state_def split: if_splits)

lemma front_not_locked: "front_pc pc \<Longrightarrow> \<not> locked_pc pc"
  by (cases pc) auto

lemma conc_atD:
  assumes "conc_at kSize s xs eff b bt tp"
  shows "valid_kSize kSize" "ring_rel (unat kSize) (rq_array (queue s)) b (cells bt xs tp)"
    "front_inv kSize (rq_front (queue s)) (b + has bt + length xs) tp (eff 0) (rq_pcs s 0)"
    "holder_inv kSize s b bt eff"
    "\<And>t. locked_pc (rq_pcs s t) \<longleftrightarrow> mutex s = Some t" "\<And>t. t \<noteq> 0 \<Longrightarrow> \<not> front_pc (rq_pcs s t)"
    "\<And>t. ret_ok (rq_pcs s t) (eff t)" "\<And>t. fresh_pc (rq_pcs s t) \<Longrightarrow> eff t = None"
  using assms unfolding conc_at_def by blast+

lemma conc_invI:
  assumes "valid_kSize kSize" "ring_rel (unat kSize) (rq_array (queue s)) b (cells bt xs tp)"
    "front_inv kSize (rq_front (queue s)) (b + has bt + length xs) tp (eff 0) (rq_pcs s 0)"
    "holder_inv kSize s b bt eff"
    "\<And>t. locked_pc (rq_pcs s t) \<longleftrightarrow> mutex s = Some t" "\<And>t. t \<noteq> 0 \<Longrightarrow> \<not> front_pc (rq_pcs s t)"
    "\<And>t. ret_ok (rq_pcs s t) (eff t)" "\<And>t. fresh_pc (rq_pcs s t) \<Longrightarrow> eff t = None"
  shows "conc_inv kSize s xs eff"
  using assms unfolding conc_inv_def conc_at_def by blast

lemma eff_upd_at: "eff_upd t ev eff t = (case ev of None \<Rightarrow> eff t | Some e \<Rightarrow> Some e)"
  "u \<noteq> t \<Longrightarrow> eff_upd t ev eff u = eff u"
  by (simp_all add: eff_upd_def split: option.split)

text \<open>The three kinds of steps that touch the queue or only read it.\<close>

lemma conc_front:
  assumes inv: "conc_inv kSize s xs eff" and pc: "front_pc (rq_pcs s t)"
    and step: "front_step kSize (queue s) (rq_pcs s t) = (q', pc', ev)"
  shows "\<exists>xs'. conc_inv kSize (s\<lparr>queue := q', rq_pcs := (rq_pcs s)(t := pc')\<rparr>) xs' (eff_upd t ev eff) \<and>
    spec_effect (unat kSize) (rev xs) ev = Some (rev xs')"
proof -
  obtain b bt tp where "conc_at kSize s xs eff b bt tp" using inv unfolding conc_inv_def by blast
  note I = conc_atD [OF this]
  have t: "t = 0" using I(6) pc by blast
  obtain xs' tp' where P: "ring_rel (unat kSize) (rq_array q') b (cells bt xs' tp')"
      "front_inv kSize (rq_front q') (b + has bt + length xs') tp' (eff_upd t ev eff t) pc'"
      "rq_back q' = rq_back (queue s)" "spec_effect (unat kSize) (rev xs) ev = Some (rev xs')"
      "ret_ok pc' (eff_upd t ev eff t)"
    using front_step_ok [OF I(1-3)] I(3) pc step
    unfolding t front_post_def eff_upd_at by auto
  note pcs = front_step_pcs [OF pc step]
  have m: "mutex s \<noteq> Some t" using I(5) [of t] front_not_locked [OF pc] by simp
  have "conc_inv kSize (s\<lparr>queue := q', rq_pcs := (rq_pcs s)(t := pc')\<rparr>) xs' (eff_upd t ev eff)"
  proof (rule conc_invI [OF I(1)])
    show "ring_rel (unat kSize) (rq_array (queue (s\<lparr>queue := q', rq_pcs := (rq_pcs s)(t := pc')\<rparr>))) b (cells bt xs' tp')"
      using P(1) by simp
    show "front_inv kSize (rq_front (queue (s\<lparr>queue := q', rq_pcs := (rq_pcs s)(t := pc')\<rparr>))) (b + has bt + length xs') tp'
        (eff_upd t ev eff 0) (rq_pcs (s\<lparr>queue := q', rq_pcs := (rq_pcs s)(t := pc')\<rparr>) 0)"
      using P(2) t by simp
    show "holder_inv kSize (s\<lparr>queue := q', rq_pcs := (rq_pcs s)(t := pc')\<rparr>) b bt (eff_upd t ev eff)"
      using I(4) m P(3) by (auto simp: holder_inv_def eff_upd_at split: option.splits)
  next
    fix u
    show "locked_pc (rq_pcs (s\<lparr>queue := q', rq_pcs := (rq_pcs s)(t := pc')\<rparr>) u)
        \<longleftrightarrow> mutex (s\<lparr>queue := q', rq_pcs := (rq_pcs s)(t := pc')\<rparr>) = Some u"
      using I(5) m pcs by simp
    show "\<not> front_pc (rq_pcs (s\<lparr>queue := q', rq_pcs := (rq_pcs s)(t := pc')\<rparr>) u)" if "u \<noteq> 0"
      using I(6) that t by simp
    show "ret_ok (rq_pcs (s\<lparr>queue := q', rq_pcs := (rq_pcs s)(t := pc')\<rparr>) u) (eff_upd t ev eff u)"
      using I(7) P(5) by (simp add: eff_upd_at)
    show "eff_upd t ev eff u = None" if "fresh_pc (rq_pcs (s\<lparr>queue := q', rq_pcs := (rq_pcs s)(t := pc')\<rparr>) u)"
      using that I(8) pcs by (cases "u = t") (auto simp: eff_upd_at)
  qed
  with P(4) show ?thesis by blast
qed

lemma conc_back:
  assumes inv: "conc_inv kSize s xs eff" and pc: "locked_pc (rq_pcs s t)" "\<nexists>r. rq_pcs s t = Unlock r"
    and step: "back_step kSize (queue s) (rq_pcs s t) = (q', pc', ev)"
  shows "\<exists>xs'. conc_inv kSize (s\<lparr>queue := q', rq_pcs := (rq_pcs s)(t := pc')\<rparr>) xs' (eff_upd t ev eff) \<and>
    spec_effect (unat kSize) (rev xs) ev = Some (rev xs')"
proof -
  obtain b bt tp where "conc_at kSize s xs eff b bt tp" using inv unfolding conc_inv_def by blast
  note I = conc_atD [OF this]
  have m: "mutex s = Some t" using I(5) pc(1) by blast
  then have "back_inv kSize (rq_back (queue s)) b bt (eff t) (rq_pcs s t)" using I(4) by (simp add: holder_inv_def)
  from back_step_ok [OF I(1,2) this pc] obtain b' bt' xs' where
    P: "ring_rel (unat kSize) (rq_array q') b' (cells bt' xs' tp)"
      "back_inv kSize (rq_back q') b' bt' (eff_upd t ev eff t) pc'" "rq_front q' = rq_front (queue s)"
      "(b' + has bt' + length xs') mod (2 * unat kSize) = (b + has bt + length xs) mod (2 * unat kSize)"
      "spec_effect (unat kSize) (rev xs) ev = Some (rev xs')" "locked_pc pc'"
    unfolding back_post_def step eff_upd_at by auto
  note pcs = back_step_pcs [OF pc(1) step]
  let ?s = "s\<lparr>queue := q', rq_pcs := (rq_pcs s)(t := pc')\<rparr>"
  have "front_inv kSize (rq_front q') (b' + has bt' + length xs') tp (eff_upd t ev eff 0) (rq_pcs ?s 0)"
  proof (cases "t = 0")
    case True
    then have "\<not> front_pc (rq_pcs s 0)" using pc(1) front_not_locked by blast
    then show ?thesis
      using I(3) pcs True
      unfolding front_inv_cong [OF P(4)] P(3) by (simp add: front_inv_idle)
  next
    case False
    then show ?thesis using I(3) unfolding front_inv_cong [OF P(4)] P(3) by (simp add: eff_upd_at)
  qed
  moreover have "ret_ok pc' (eff_upd t ev eff t)" using pcs by (simp add: ret_ok_def)
  ultimately have "conc_inv kSize ?s xs' (eff_upd t ev eff)"
    using I(5-8) m P pcs
    by (intro conc_invI [where b = b' and bt = bt' and tp = tp, OF I(1)])
      (auto simp: holder_inv_def eff_upd_at split: if_splits)
  with P(5) show ?thesis by blast
qed

text \<open>Calls, and steps that change no shared variable but the mutex.\<close>

lemma call_pcs: "\<not> locked_pc (call_pc op)" "fresh_pc (call_pc op)" "ret_ok (call_pc op) la"
  "front_pc (call_pc op) \<longleftrightarrow> (\<exists>w. op = PushF w) \<or> op = PopF"
  "tp = None \<and> pos_is kSize f e \<Longrightarrow> front_inv kSize f e tp None (call_pc op)"
  by (cases op; simp add: ret_ok_def)+

lemma conc_call:
  assumes inv: "conc_inv kSize s xs eff" and pc: "rq_pcs s t = Idle \<or> rq_pcs s t = Returned r"
    and op: "t \<noteq> 0 \<longrightarrow> (\<forall>w. op \<noteq> PushF w) \<and> op \<noteq> PopF"
  shows "conc_inv kSize (s\<lparr>rq_pcs := (rq_pcs s)(t := call_pc op)\<rparr>) xs (eff(t := None))"
proof -
  obtain b bt tp where "conc_at kSize s xs eff b bt tp" using inv unfolding conc_inv_def by blast
  note I = conc_atD [OF this]
  have idle: "\<not> front_pc (rq_pcs s t)" "\<not> locked_pc (rq_pcs s t)" using pc by auto
  have m: "mutex s \<noteq> Some t" using I(5) idle by simp
  have "front_inv kSize (rq_front (queue s)) (b + has bt + length xs) tp ((eff(t := None)) 0) (((rq_pcs s)(t := call_pc op)) 0)"
    using I(3) idle by (cases "t = 0") (auto simp: front_inv_idle intro!: call_pcs(5))
  moreover have "holder_inv kSize (s\<lparr>rq_pcs := (rq_pcs s)(t := call_pc op)\<rparr>) b bt (eff(t := None))"
    using I(4) m by (auto simp: holder_inv_def split: option.splits)
  ultimately show ?thesis
    using I(2,5-8) m op
    by (intro conc_invI [where b = b and bt = bt and tp = tp, OF I(1)]) (auto simp: call_pcs split: if_splits)
qed

lemma conc_lock:
  assumes inv: "conc_inv kSize s xs eff" and m: "mutex s = None"
    and pc: "rq_pcs s t = PushBack_lock w \<and> pc' = PushBack_load w \<or> rq_pcs s t = PopBack_lock \<and> pc' = PopBack_load"
  shows "conc_inv kSize (s\<lparr>mutex := Some t, rq_pcs := (rq_pcs s)(t := pc')\<rparr>) xs eff"
proof -
  obtain b bt tp where "conc_at kSize s xs eff b bt tp" using inv unfolding conc_inv_def by blast
  note I = conc_atD [OF this]
  have "front_inv kSize (rq_front (queue s)) (b + has bt + length xs) tp (eff 0) (((rq_pcs s)(t := pc')) 0)"
    using I(3) pc by (cases "t = 0") auto
  moreover have "holder_inv kSize (s\<lparr>mutex := Some t, rq_pcs := (rq_pcs s)(t := pc')\<rparr>) b bt eff"
    using I(4) m pc by (auto simp: holder_inv_def)
  moreover have "eff t = None" using I(8) [of t] pc by auto
  ultimately show ?thesis
    using I(2,5-8) m pc
    by (intro conc_invI [where b = b and bt = bt and tp = tp, OF I(1)]) (auto simp: ret_ok_def split: if_splits)
qed

lemma conc_unlock:
  assumes inv: "conc_inv kSize s xs eff" and pc: "rq_pcs s t = Unlock r"
  shows "conc_inv kSize (s\<lparr>mutex := None, rq_pcs := (rq_pcs s)(t := Returned r)\<rparr>) xs eff"
proof -
  obtain b bt tp where "conc_at kSize s xs eff b bt tp" using inv unfolding conc_inv_def by blast
  note I = conc_atD [OF this]
  have m: "mutex s = Some t" using I(5) [of t] pc by simp
  then have B: "back_inv kSize (rq_back (queue s)) b bt (eff t) (Unlock r)" using I(4) pc by (simp add: holder_inv_def)
  have "front_inv kSize (rq_front (queue s)) (b + has bt + length xs) tp (eff 0) (((rq_pcs s)(t := Returned r)) 0)"
    using I(3) pc by (cases "t = 0") auto
  moreover have "locked_pc (((rq_pcs s)(t := Returned r)) u) = False" for u
    using I(5) [of u] m by auto
  ultimately show ?thesis
    using I(2,6-8) B
    by (intro conc_invI [where b = b and bt = bt and tp = tp, OF I(1)]) (auto simp: holder_inv_def ret_ok_def split: if_splits)
qed

lemma conc_empty:
  assumes inv: "conc_inv kSize s xs eff" and pc: "rq_pcs s t = PopBack_front \<or> rq_pcs s t = PopBack_back f \<or> rq_pcs s t = PopBack_front1 f k"
  shows "conc_inv kSize (s\<lparr>rq_pcs := (rq_pcs s)(t := empty_step kSize (queue s) (rq_pcs s t))\<rparr>) xs eff"
proof -
  obtain b bt tp where "conc_at kSize s xs eff b bt tp" using inv unfolding conc_inv_def by blast
  note I = conc_atD [OF this]
  let ?pc = "empty_step kSize (queue s) (rq_pcs s t)"
  have new: "\<not> front_pc ?pc" "\<not> locked_pc ?pc" "?pc = Returned r \<Longrightarrow> r = Popped 0" for r
    using pc by (auto simp: Let_def split: if_splits)
  have idle: "\<not> front_pc (rq_pcs s t)" "\<not> locked_pc (rq_pcs s t)" "fresh_pc (rq_pcs s t)" using pc by auto
  have m: "mutex s \<noteq> Some t" using I(5) idle by simp
  have "front_inv kSize (rq_front (queue s)) (b + has bt + length xs) tp (eff 0) (((rq_pcs s)(t := ?pc)) 0)"
    using I(3) idle(1) new(1) by (cases "t = 0") (auto simp: front_inv_idle)
  moreover have "holder_inv kSize (s\<lparr>rq_pcs := (rq_pcs s)(t := ?pc)\<rparr>) b bt eff"
    using I(4) m by (auto simp: holder_inv_def split: option.splits)
  moreover have "ret_ok ?pc (eff t)" using new(3) I(8) [OF idle(3)] by (auto simp: ret_ok_def)
  ultimately show ?thesis
    using I(2,5-8) m new I(8) [OF idle(3)]
    by (intro conc_invI [where b = b and bt = bt and tp = tp, OF I(1)]) (auto split: if_splits)
qed

lemma conc_step_ok:
  assumes inv: "conc_inv kSize s xs eff" and step: "conc_step kSize t s = Some (s', ev)"
  shows "\<exists>xs'. conc_inv kSize s' xs' (eff_upd t ev eff) \<and> spec_effect (unat kSize) (rev xs) ev = Some (rev xs')"
proof -
  let ?goal = "\<exists>xs'. conc_inv kSize s' xs' (eff_upd t ev eff) \<and> spec_effect (unat kSize) (rev xs) ev = Some (rev xs')"
  have quiet: ?goal if "ev = None" "conc_inv kSize s' xs eff" using that by (auto simp: eff_upd_def spec_effect_def)
  have at_front: ?goal if "front_pc (rq_pcs s t)" "front_step kSize (queue s) (rq_pcs s t) = (q, pc, ev)"
      "s' = s\<lparr>queue := q, rq_pcs := (rq_pcs s)(t := pc)\<rparr>" for q pc
    using conc_front [OF inv that(1,2)] that(3) by simp
  have at_back: ?goal if "locked_pc (rq_pcs s t)" "\<nexists>r. rq_pcs s t = Unlock r" "back_step kSize (queue s) (rq_pcs s t) = (q, pc, ev)"
      "s' = s\<lparr>queue := q, rq_pcs := (rq_pcs s)(t := pc)\<rparr>" for q pc
    using conc_back [OF inv that(1-3)] that(4) by simp
  show ?thesis
  proof (cases "front_pc (rq_pcs s t)")
    case True
    obtain q pc e where fs: "front_step kSize (queue s) (rq_pcs s t) = (q, pc, e)" by (metis prod_cases3)
    have "conc_step kSize t s = Some (s\<lparr>queue := q, rq_pcs := (rq_pcs s)(t := pc)\<rparr>, e)"
      using True fs by (cases "rq_pcs s t") (simp_all add: conc_step_def del: front_step.simps)
    then show ?thesis using step fs by (intro at_front [OF True]) auto
  next
    case not_front: False
    show ?thesis
    proof (cases "locked_pc (rq_pcs s t)")
      case True
      show ?thesis
      proof (cases "\<exists>r. rq_pcs s t = Unlock r")
        case True
        then obtain r where r: "rq_pcs s t = Unlock r" by blast
        then show ?thesis using step conc_unlock [OF inv r] by (intro quiet) (auto simp: conc_step_def)
      next
        case False
        obtain q pc e where bs: "back_step kSize (queue s) (rq_pcs s t) = (q, pc, e)" by (metis prod_cases3)
        have "conc_step kSize t s = Some (s\<lparr>queue := q, rq_pcs := (rq_pcs s)(t := pc)\<rparr>, e)"
          using True False bs by (cases "rq_pcs s t") (simp_all add: conc_step_def del: back_step.simps)
        then show ?thesis using step bs by (intro at_back [OF True False]) auto
      qed
    next
      case False
      show ?thesis
      proof (cases "rq_pcs s t")
        case (PushBack_lock w)
        then show ?thesis
          using step conc_lock [OF inv, of t w] by (intro quiet) (auto simp: conc_step_def split: if_splits)
      next
        case PopBack_lock
        then show ?thesis
          using step conc_lock [OF inv, of t] by (intro quiet) (auto simp: conc_step_def split: if_splits)
      qed (use step not_front False conc_empty [OF inv, of t] in \<open>auto simp: conc_step_def eff_upd_def spec_effect_def simp del: empty_step.simps\<close>)
    qed
  qed
qed

section \<open>Runs\<close>

text \<open>The operations that took effect, replayed on the abstract deque.\<close>

fun replay :: "nat \<Rightarrow> 'w::zero list \<Rightarrow> ('w deque_op \<times> 'w deque_res) list \<Rightarrow> 'w list option" where
  "replay cap xs [] = Some xs"
| "replay cap xs (e # es) = (case spec_step cap xs e of None \<Rightarrow> None | Some ys \<Rightarrow> replay cap ys es)"

lemma replay_append: "replay cap xs es = Some ys \<Longrightarrow> replay cap xs (es @ fs) = replay cap ys fs"
  by (induction es arbitrary: xs) (auto split: option.splits)

lemma replay_effect:
  assumes "replay cap ys evs = Some xs" "spec_effect cap xs ev = Some zs"
  shows "replay cap ys (evs @ (case ev of None \<Rightarrow> [] | Some e \<Rightarrow> [e])) = Some zs"
  using assms(2) unfolding replay_append [OF assms(1)] by (auto simp: spec_effect_def split: option.splits)

lemma conc_start:
  assumes "RunQueue kSize = Some q"
  shows "conc_inv kSize \<lparr>queue = q, mutex = None, rq_pcs = (\<lambda>_. Idle)\<rparr> [] (\<lambda>_. None)"
proof -
  have v: "valid_kSize kSize" and q: "q = \<lparr>rq_front = 0, rq_back = 0,
      rq_array = replicate (unat kSize) \<lparr>el_state = kEmpty, el_w = 0\<rparr>\<rparr>"
    using assms by (auto simp: RunQueue_def valid_kSize_def split: if_splits)
  show ?thesis
    by (rule conc_invI [where b = 0 and bt = None and tp = None, OF v])
      (simp_all add: q ring_rel_def cells_def pos_is_def rq_pos_def holder_inv_def ret_ok_def valid_pos [OF v])
qed

lemma conc_run_inv:
  assumes "conc_run kSize s calls evs eff"
  shows "\<exists>xs. conc_inv kSize s xs eff \<and> replay (unat kSize) [] evs = Some (rev xs)"
  using assms
proof induction
  case (start q)
  from conc_start [OF this] show ?case by (intro exI [of _ "[]"]) simp
next
  case (call s calls evs eff t r op)
  from call.IH conc_call [OF _ call.hyps(2,3)] show ?case by blast
next
  case (step s calls evs eff t s' ev)
  then obtain xs where xs: "conc_inv kSize s xs eff" "replay (unat kSize) [] evs = Some (rev xs)" by blast
  from conc_step_ok [OF xs(1) step.hyps(2)] replay_effect [OF xs(2)] show ?case by blast
qed

text \<open>Each operation takes effect as the one that was called.\<close>

fun pc_op :: "'w rq_pc \<Rightarrow> 'w deque_op option" where
  "pc_op (PushFront_load w) = Some (PushF w)"
| "pc_op (PushFront_cas w f) = Some (PushF w)"
| "pc_op (PushFront_front w f) = Some (PushF w)"
| "pc_op (PushFront_work w f) = Some (PushF w)"
| "pc_op (PushFront_ready w f) = Some (PushF w)"
| "pc_op (PushBack_lock w) = Some (PushB w)"
| "pc_op (PushBack_load w) = Some (PushB w)"
| "pc_op (PushBack_cas w b) = Some (PushB w)"
| "pc_op (PushBack_back w b) = Some (PushB w)"
| "pc_op (PushBack_work w b) = Some (PushB w)"
| "pc_op (PushBack_ready w b) = Some (PushB w)"
| "pc_op Idle = None"
| "pc_op (Returned r) = None"
| "pc_op (Unlock r) = None"
| "pc_op pc = (if front_pc pc then Some PopF else Some PopB)"

definition op_ok :: "'w::zero conc_queue \<Rightarrow> (nat \<Rightarrow> 'w deque_op option) \<Rightarrow> (nat \<Rightarrow> ('w deque_op \<times> 'w deque_res) option) \<Rightarrow> bool" where
  "op_ok s calls eff \<longleftrightarrow> (\<forall>t. (\<forall>op. pc_op (rq_pcs s t) = Some op \<longrightarrow> calls t = Some op) \<and>
     (\<forall>op r. eff t = Some (op, r) \<longrightarrow> calls t = Some op) \<and>
     (\<forall>r. rq_pcs s t = Returned r \<and> eff t = None \<longrightarrow> r = Popped 0 \<and> calls t = Some PopB))"

lemma front_step_op:
  "front_pc pc \<Longrightarrow> front_step kSize q pc = (q', pc', ev) \<Longrightarrow>
    (\<forall>op. pc_op pc' = Some op \<longrightarrow> pc_op pc = Some op) \<and> (\<forall>op r. ev = Some (op, r) \<longrightarrow> pc_op pc = Some op)"
  by (cases pc) (auto simp: Let_def compare_exchange_state_def split: if_splits)

lemma back_step_op:
  "locked_pc pc \<Longrightarrow> back_step kSize q pc = (q', pc', ev) \<Longrightarrow>
    (\<forall>op. pc_op pc' = Some op \<longrightarrow> pc_op pc = Some op) \<and> (\<forall>op r. ev = Some (op, r) \<longrightarrow> pc_op pc = Some op)"
  by (cases pc) (auto simp: Let_def compare_exchange_state_def split: if_splits)

lemma empty_step_op:
  "pc = PopBack_front \<or> pc = PopBack_back f \<or> pc = PopBack_front1 f k \<Longrightarrow> pc_op pc = Some PopB \<and>
    (\<forall>op. pc_op (empty_step kSize q pc) = Some op \<longrightarrow> op = PopB)"
  by (auto simp: Let_def split: if_splits)

lemma conc_step_others: "conc_step kSize t s = Some (s', ev) \<Longrightarrow> u \<noteq> t \<Longrightarrow> rq_pcs s' u = rq_pcs s u"
  by (cases "rq_pcs s t")
    (auto simp: conc_step_def simp del: front_step.simps back_step.simps empty_step.simps split: if_splits prod.splits)

lemma conc_step_op:
  assumes "conc_step kSize t s = Some (s', ev)"
  shows "\<forall>op. pc_op (rq_pcs s' t) = Some op \<longrightarrow> pc_op (rq_pcs s t) = Some op"
    "\<forall>op r. ev = Some (op, r) \<longrightarrow> pc_op (rq_pcs s t) = Some op" "\<forall>u. u \<noteq> t \<longrightarrow> rq_pcs s' u = rq_pcs s u"
proof -
  have "(\<forall>op. pc_op (rq_pcs s' t) = Some op \<longrightarrow> pc_op (rq_pcs s t) = Some op) \<and>
      (\<forall>op r. ev = Some (op, r) \<longrightarrow> pc_op (rq_pcs s t) = Some op)"
    using assms front_step_op [of "rq_pcs s t" kSize "queue s"] back_step_op [of "rq_pcs s t" kSize "queue s"]
      empty_step_op [of "rq_pcs s t" _ _ kSize "queue s"]
    by (cases "rq_pcs s t")
      (auto simp: conc_step_def simp del: front_step.simps back_step.simps empty_step.simps split: if_splits prod.splits)
  then show "\<forall>op. pc_op (rq_pcs s' t) = Some op \<longrightarrow> pc_op (rq_pcs s t) = Some op"
    "\<forall>op r. ev = Some (op, r) \<longrightarrow> pc_op (rq_pcs s t) = Some op" by blast+
  show "\<forall>u. u \<noteq> t \<longrightarrow> rq_pcs s' u = rq_pcs s u" using conc_step_others [OF assms] by blast
qed

lemma step_fresh:
  "front_pc pc \<Longrightarrow> front_step kSize q pc = (q', pc', Some e) \<Longrightarrow> fresh_pc pc"
  "locked_pc pc \<Longrightarrow> back_step kSize q pc = (q', pc', Some e) \<Longrightarrow> fresh_pc pc"
  using front_step_pcs [of pc kSize q] back_step_pcs [of pc kSize q] by blast+

lemma conc_step_fresh:
  assumes "conc_step kSize t s = Some (s', Some e)"
  shows "fresh_pc (rq_pcs s t)"
  using assms step_fresh(1) [of "rq_pcs s t" kSize "queue s"] step_fresh(2) [of "rq_pcs s t" kSize "queue s"]
  by (cases "rq_pcs s t") (simp_all add: conc_step_def del: front_step.simps back_step.simps split: if_splits prod.splits)

lemma conc_step_returned:
  assumes "conc_inv kSize s xs eff" "conc_step kSize t s = Some (s', None)" "rq_pcs s' t = Returned r" "eff t = None"
  shows "pc_op (rq_pcs s t) = Some PopB"
proof -
  obtain b bt tp where "conc_at kSize s xs eff b bt tp" using assms(1) unfolding conc_inv_def by blast
  note I = conc_atD [OF this]
  have "rq_pcs s t \<noteq> PopFront_front f w" for f w
    using I(3) I(6) [of t] assms(4) by (cases "t = 0") auto
  moreover have "rq_pcs s t \<noteq> Unlock r'" for r'
    using I(4) I(5) [of t] assms(4) by (auto simp: holder_inv_def)
  ultimately show ?thesis
    using assms(2,3)
    by (cases "rq_pcs s t")
      (auto simp: conc_step_def Let_def compare_exchange_state_def split: if_splits prod.splits)
qed

lemma conc_run_op:
  assumes "conc_run kSize s calls evs eff"
  shows "op_ok s calls eff"
  using assms
proof induction
  case (start q)
  then show ?case by (simp add: op_ok_def)
next
  case (call s calls evs eff t r op)
  have "pc_op (call_pc op) = Some op" "\<And>r. call_pc op \<noteq> Returned r" by (cases op; simp)+
  with call.IH show ?case by (auto simp: op_ok_def)
next
  case (step s calls evs eff t s' ev)
  obtain xs where xs: "conc_inv kSize s xs eff" using conc_run_inv [OF step.hyps(1)] by blast
  then obtain xs' where "conc_inv kSize s' xs' (eff_upd t ev eff)" using conc_step_ok [OF xs step.hyps(2)] by blast
  then have ret: "ret_ok (rq_pcs s' t) (eff_upd t ev eff t)" unfolding conc_inv_def using conc_atD(7) by blast
  note pcs = conc_step_op [OF step.hyps(2)]
  have calls: "calls t = Some op" if "pc_op (rq_pcs s t) = Some op" for op using step.IH that by (simp add: op_ok_def)
  have popb: "calls t = Some PopB" if "rq_pcs s' t = Returned r" "eff_upd t ev eff t = None" for r
    using conc_step_returned [OF xs, of t s' r] step.hyps(2) that calls
    by (cases ev) (simp_all add: eff_upd_at)
  have "(\<forall>op. pc_op (rq_pcs s' u) = Some op \<longrightarrow> calls u = Some op) \<and>
     (\<forall>op r. eff_upd t ev eff u = Some (op, r) \<longrightarrow> calls u = Some op) \<and>
     (\<forall>r. rq_pcs s' u = Returned r \<and> eff_upd t ev eff u = None \<longrightarrow> r = Popped 0 \<and> calls u = Some PopB)" for u
  proof (cases "u = t")
    case True
    have "(\<forall>op r. eff_upd t ev eff t = Some (op, r) \<longrightarrow> calls t = Some op)"
      using pcs(2) calls step.IH by (auto simp: eff_upd_at op_ok_def split: option.splits)
    then show ?thesis using pcs(1) calls popb ret True by (auto simp: ret_ok_def)
  next
    case False
    then show ?thesis using step.IH pcs(3) by (simp add: eff_upd_at op_ok_def)
  qed
  then show ?case by (simp add: op_ok_def)
qed

text \<open>A consistent reading of the counters that says empty is right.\<close>

lemma front_pos_lag:
  assumes "front_inv kSize f e tp la pc"
  shows "\<exists>i \<le> 1. pos_is kSize f (e + i)"
proof (cases pc)
  case (PushFront_work w x)
  then show ?thesis using assms by (intro exI [of _ 1]) simp
next
  case (PushFront_ready w x)
  then show ?thesis using assms by (intro exI [of _ 1]) simp
next
  case (PopFront_work x)
  then show ?thesis using assms by (intro exI [of _ 1]) simp
next
  case (PopFront_empty x w)
  then show ?thesis using assms by (intro exI [of _ 1]) simp
next
  case (PopFront_front x w)
  then show ?thesis using assms by (intro exI [of _ 1]) simp
qed (use assms in \<open>auto intro!: exI [of _ 0]\<close>)

lemma back_pos_lag:
  assumes "back_inv kSize k b bt la pc"
  shows "\<exists>c i. b + has bt = c + i \<and> i \<le> 1 \<and> pos_is kSize k c"
proof (cases pc)
  case (PopBack_back_store x w)
  then obtain c where "bt = None" "b = c + 1" "pos_is kSize k c" using assms by auto
  then show ?thesis by - (rule exI [of _ c], rule exI [of _ 1], simp)
next
  case (PushBack_back w x)
  then show ?thesis using assms by - (rule exI [of _ "b + 1"], rule exI [of _ 0], auto simp: has_def)
qed (rule exI [of _ b], rule exI [of _ "has bt"], use assms in \<open>auto simp: has_def\<close>)+

lemma snapshot_empty:
  assumes "conc_inv kSize s xs eff" "rq_pos kSize (rq_front (queue s)) = rq_pos kSize (rq_back (queue s))"
  shows "xs = []"
proof -
  obtain b bt tp where "conc_at kSize s xs eff b bt tp" using assms(1) unfolding conc_inv_def by blast
  note I = conc_atD [OF this]
  obtain i where i: "i \<le> 1" "pos_is kSize (rq_front (queue s)) (b + has bt + length xs + i)"
    using front_pos_lag [OF I(3)] by blast
  obtain c j where c: "b + has bt = c + j" "j \<le> 1" "pos_is kSize (rq_back (queue s)) c"
  proof (cases "mutex s")
    case None
    then show thesis using I(4) that [of b 0] by (simp add: holder_inv_def)
  next
    case (Some t)
    then have "back_inv kSize (rq_back (queue s)) b bt (eff t) (rq_pcs s t)" using I(4) by (simp add: holder_inv_def)
    from back_pos_lag [OF this] that show thesis by blast
  qed
  have "length xs \<le> unat kSize" using ring_relD(2) [OF I(2)] by (simp add: length_cells)
  moreover have "2 < unat kSize" using I(1) by (simp add: valid_kSize_def word_less_nat_alt)
  ultimately have less: "j + length xs + i < 2 * unat kSize" using i(1) c(2) by simp
  have "(c + (j + length xs + i)) mod (2 * unat kSize) = (c + 0) mod (2 * unat kSize)"
    using i(2) c(1,3) assms(2) by (simp add: pos_is_def add.assoc)
  then have "j + length xs + i = 0"
    using less ring_inj [of "j + length xs + i" "2 * unat kSize" 0 c] by simp
  then show ?thesis by simp
qed

text \<open>The element whose work item the next step of a thread reads or writes.\<close>

fun accessed :: "u32 \<Rightarrow> 'w rq_pc \<Rightarrow> nat option" where
  "accessed kSize (PushFront_work w front) = Some (unat (front AND kMask kSize))"
| "accessed kSize (PopFront_work front) = Some (unat ((front - 1) AND kMask kSize))"
| "accessed kSize (PushBack_work w k) = Some (unat ((k - 1) AND kMask kSize))"
| "accessed kSize (PopBack_work k) = Some (unat (k AND kMask kSize))"
| "accessed kSize _ = None"

lemma accessed_pc: "accessed kSize pc = Some i \<Longrightarrow> front_pc pc \<or> locked_pc pc"
  by (cases pc) auto

lemma accessed_front:
  assumes "front_inv kSize f e tp la pc" "accessed kSize pc = Some i" "front_pc pc" "valid_kSize kSize"
  shows "has tp = 1 \<and> i = e mod unat kSize"
  using assms pos_is_idx(1) [OF assms(4)] pos_is_idx_Suc [OF assms(4)] by (cases pc) (auto simp: has_def)

lemma accessed_back:
  assumes "back_inv kSize k b bt la pc" "accessed kSize pc = Some i" "locked_pc pc" "valid_kSize kSize"
  shows "has bt = 1 \<and> i = b mod unat kSize"
  using assms pos_is_idx(1) [OF assms(4)] pos_is_idx_Suc [OF assms(4)] by (cases pc) (auto simp: has_def)

lemma accessed_apart:
  assumes inv: "conc_inv kSize s xs eff" and "t \<noteq> u"
    and acc: "accessed kSize (rq_pcs s t) = Some i" "accessed kSize (rq_pcs s u) = Some j" and front: "front_pc (rq_pcs s t)"
  shows "i \<noteq> j"
proof -
  obtain b bt tp where "conc_at kSize s xs eff b bt tp" using inv unfolding conc_inv_def by blast
  note I = conc_atD [OF this]
  have t: "t = 0" using I(6) front by blast
  have "\<not> front_pc (rq_pcs s u)" using I(6) [of u] assms(2) t by simp
  then have u: "locked_pc (rq_pcs s u)" using accessed_pc [OF acc(2)] by simp
  then have "mutex s = Some u" using I(5) [of u] by simp
  then have "back_inv kSize (rq_back (queue s)) b bt (eff u) (rq_pcs s u)" using I(4) by (simp add: holder_inv_def)
  from accessed_back [OF this acc(2) u I(1)] have j: "has bt = 1" "j = (b + 0) mod unat kSize" by simp_all
  from accessed_front [OF I(3)] acc(1) front t I(1)
  have i: "has tp = 1" "i = (b + (has bt + length xs)) mod unat kSize" by (simp_all add: add.assoc)
  have "has bt + length xs < unat kSize" using ring_relD(2) [OF I(2)] i(1) by (simp add: length_cells)
  then show ?thesis
    using ring_inj [of "has bt + length xs" "unat kSize" 0 b] valid_pos [OF I(1)] j i(2) by simp
qed

lemma no_shared_item:
  assumes inv: "conc_inv kSize s xs eff" and ne: "t \<noteq> u"
    and acc: "accessed kSize (rq_pcs s t) = Some i" "accessed kSize (rq_pcs s u) = Some j"
  shows "i \<noteq> j"
proof -
  obtain b bt tp where "conc_at kSize s xs eff b bt tp" using inv unfolding conc_inv_def by blast
  note I = conc_atD [OF this]
  have "\<not> (locked_pc (rq_pcs s t) \<and> locked_pc (rq_pcs s u))" using I(5) [of t] I(5) [of u] ne by auto
  then consider "front_pc (rq_pcs s t)" | "front_pc (rq_pcs s u)" using accessed_pc acc by blast
  then show ?thesis
  proof cases
    case 1
    then show ?thesis by (rule accessed_apart [OF inv ne acc])
  next
    case 2
    from accessed_apart [OF inv ne [symmetric] acc(2,1) this] show ?thesis by simp
  qed
qed

text \<open>With no operation in progress, the shared variables are those of a queue with these items.\<close>

lemma quiescent_items:
  assumes inv: "conc_inv kSize s xs eff" and idle: "\<And>t. rq_pcs s t = Idle \<or> (\<exists>r. rq_pcs s t = Returned r)"
  shows "rq_inv kSize (queue s) \<and> rq_items kSize (queue s) = rev xs"
proof -
  obtain b bt tp where "conc_at kSize s xs eff b bt tp" using inv unfolding conc_inv_def by blast
  note I = conc_atD [OF this]
  have no: "\<not> locked_pc (rq_pcs s t)" "\<not> front_pc (rq_pcs s t)" for t using idle [of t] by auto
  have "mutex s = None" using I(5) no(1) by (cases "mutex s") auto
  then have bt: "bt = None" "pos_is kSize (rq_back (queue s)) b" using I(4) by (simp_all add: holder_inv_def)
  have tp: "tp = None" "pos_is kSize (rq_front (queue s)) (b + length xs)"
    using I(3) no(2) [of 0] bt(1) by (simp_all add: front_inv_idle)
  note R = ring_relD [OF I(2) [unfolded bt tp]]
  have cells: "cells None xs None = map ready xs" by (simp add: cells_def)
  have el: "rq_array (queue s) ! ((b + j) mod unat kSize) = ready (xs ! j)" if "j < length xs" for j
    using R(3) [of j] that by (simp add: cells)
  have ok: "ring_ok (unat kSize) (rq_array (queue s)) b (length xs)"
    using R(1,2,4) el by (auto simp: ring_ok_def cells)
  have items: "ring_items (unat kSize) (rq_array (queue s)) b (length xs) = xs"
    by (rule nth_equalityI) (simp_all add: ring_items_def el)
  have b: "rq_pos kSize (rq_back (queue s)) mod unat kSize = b mod unat kSize"
    using bt(2) by (simp add: pos_is_def mod_double)
  have f: "rq_pos kSize (rq_front (queue s)) = (rq_pos kSize (rq_back (queue s)) + length xs) mod (2 * unat kSize)"
    using bt(2) tp(2) by (simp add: pos_is_def mod_add_left_eq)
  from rq_invI [OF I(1) ok b f] items show ?thesis by simp
qed

section \<open>Property\<close>

text \<open>
  C6: In every interleaving of the owner's and the other threads' operations, the queue behaves like a double-ended
  queue each operation of which takes effect at one step: the results of the operations that have taken effect are
  those of the abstract deque (a push may also be refused when no more than one place is left, taken by an operation in
  progress), every operation that has returned either took effect with the result it returned or is a \<open>PopBack\<close> whose
  \<open>Empty()\<close> sent it away, no operation takes effect twice, no two threads access the
  work item of the same element at a time, \<open>Empty()\<close> on a consistent reading of the two counters is
  right, and when no operation is in progress the array holds exactly the items of the deque.
\<close>

theorem concurrent_deque:
  assumes "conc_run kSize s calls evs eff"
  shows "\<exists>xs. replay (unat kSize) [] evs = Some xs
    \<and> (\<forall>t r. rq_pcs s t = Returned r \<longrightarrow>
        (\<exists>op. calls t = Some op \<and> eff t = Some (op, r)) \<or> calls t = Some PopB \<and> eff t = None \<and> r = Popped 0)
    \<and> (\<forall>t s' e. conc_step kSize t s = Some (s', Some e) \<longrightarrow> eff t = None \<and> calls t = Some (fst e))
    \<and> (\<forall>t u i. t \<noteq> u \<and> accessed kSize (rq_pcs s t) = Some i \<longrightarrow> accessed kSize (rq_pcs s u) \<noteq> Some i)
    \<and> (rq_pos kSize (rq_front (queue s)) = rq_pos kSize (rq_back (queue s)) \<longrightarrow> xs = [])
    \<and> ((\<forall>t. rq_pcs s t = Idle \<or> (\<exists>r. rq_pcs s t = Returned r)) \<longrightarrow>
        rq_inv kSize (queue s) \<and> rq_items kSize (queue s) = xs)"
proof -
  obtain xs where inv: "conc_inv kSize s xs eff" and replay: "replay (unat kSize) [] evs = Some (rev xs)"
    using conc_run_inv [OF assms] by blast
  have ok: "op_ok s calls eff" by (rule conc_run_op [OF assms])
  have ret: "ret_ok (rq_pcs s t) (eff t)" for t using inv conc_atD(7) unfolding conc_inv_def by blast
  have fresh: "eff t = None" if "fresh_pc (rq_pcs s t)" for t using inv conc_atD(8) that unfolding conc_inv_def by blast
  have "(\<exists>op. calls t = Some op \<and> eff t = Some (op, r)) \<or> calls t = Some PopB \<and> eff t = None \<and> r = Popped 0"
    if "rq_pcs s t = Returned r" for t r
    using that ok ret [of t] by (auto simp: op_ok_def ret_ok_def)
  moreover have "eff t = None \<and> calls t = Some (fst e)" if "conc_step kSize t s = Some (s', Some e)" for t s' e
    using conc_step_op(2) [OF that] conc_step_fresh [OF that] fresh ok by (cases e) (auto simp: op_ok_def)
  moreover have "accessed kSize (rq_pcs s u) \<noteq> Some i" if "t \<noteq> u \<and> accessed kSize (rq_pcs s t) = Some i" for t u i
    using no_shared_item [OF inv, of t u i i] that by blast
  ultimately show ?thesis
    using replay snapshot_empty [OF inv] quiescent_items [OF inv] by (intro exI [of _ "rev xs"]) auto
qed

section \<open>Witness\<close>

text \<open>Runs given by a list of moves: calls, and steps of a thread.\<close>

datatype 'w move = Call nat "'w deque_op" | Step nat

type_synonym 'w conc_config =
  "'w conc_queue \<times> (nat \<Rightarrow> 'w deque_op option) \<times> ('w deque_op \<times> 'w deque_res) list \<times> (nat \<Rightarrow> ('w deque_op \<times> 'w deque_res) option)"

fun drive_move :: "u32 \<Rightarrow> 'w::zero conc_config \<Rightarrow> 'w move \<Rightarrow> 'w conc_config option" where
  "drive_move kSize (s, calls, evs, eff) (Call t op) =
     (if (rq_pcs s t = Idle \<or> (case rq_pcs s t of Returned r \<Rightarrow> True | _ \<Rightarrow> False)) \<and>
         (t \<noteq> 0 \<longrightarrow> (case op of PushF w \<Rightarrow> False | PopF \<Rightarrow> False | _ \<Rightarrow> True))
      then Some (s\<lparr>rq_pcs := (rq_pcs s)(t := call_pc op)\<rparr>, calls(t := Some op), evs, eff(t := None)) else None)"
| "drive_move kSize (s, calls, evs, eff) (Step t) =
     (case conc_step kSize t s of None \<Rightarrow> None
      | Some (s', ev) \<Rightarrow> Some (s', calls, evs @ (case ev of None \<Rightarrow> [] | Some e \<Rightarrow> [e]), eff_upd t ev eff))"

fun drive :: "u32 \<Rightarrow> 'w::zero conc_config \<Rightarrow> 'w move list \<Rightarrow> 'w conc_config option" where
  "drive kSize c [] = Some c"
| "drive kSize c (m # ms) = (case drive_move kSize c m of None \<Rightarrow> None | Some c' \<Rightarrow> drive kSize c' ms)"

lemma drive_move_run:
  assumes "conc_run kSize s calls evs eff" "drive_move kSize (s, calls, evs, eff) m = Some (s', calls', evs', eff')"
  shows "conc_run kSize s' calls' evs' eff'"
proof (cases m)
  case (Call t op)
  then obtain r where "rq_pcs s t = Idle \<or> rq_pcs s t = Returned r"
    using assms(2) by (cases "rq_pcs s t") (auto split: if_splits)
  then show ?thesis
    using assms Call conc_run.call [OF assms(1), of t r op] by (auto split: if_splits deque_op.splits)
next
  case (Step t)
  then show ?thesis using assms(2) conc_run.step [OF assms(1), of t] by (auto split: option.splits)
qed

lemma drive_run:
  "conc_run kSize s calls evs eff \<Longrightarrow> drive kSize (s, calls, evs, eff) ms = Some (s', calls', evs', eff') \<Longrightarrow>
    conc_run kSize s' calls' evs' eff'"
proof (induction ms arbitrary: s calls evs eff)
  case (Cons m ms)
  then show ?case by (auto split: option.splits dest: drive_move_run)
qed simp

text \<open>The owner pushes an item; then it and another thread compete for it, and the other thread wins.\<close>

definition race_moves :: "u32 move list" where
  "race_moves = Call 0 (PushF 7) # replicate 5 (Step 0) @ Call 1 PopB # replicate 4 (Step 1) @
     [Call 0 PopF, Step 0, Step 1, Step 1, Step 0]"

theorem concurrent_deque_witness:
  "\<exists>s calls eff xs. conc_run 4 s calls [(PushF 7, Pushed True), (PopB, Popped 7), (PopF, Popped (0::u32))] eff \<and>
    rq_pcs s 0 = Returned (Popped 0) \<and> eff 0 = Some (PopF, Popped 0) \<and> eff 1 = Some (PopB, Popped 7) \<and>
    replay 4 [] [(PushF 7, Pushed True), (PopB, Popped 7), (PopF, Popped (0::u32))] = Some xs"
proof -
  define q0 :: "u32 run_queue" where
    "q0 = \<lparr>rq_front = 0, rq_back = 0, rq_array = replicate 4 \<lparr>el_state = kEmpty, el_w = 0\<rparr>\<rparr>"
  have q0: "RunQueue 4 = Some q0" by (simp add: RunQueue_def q0_def)
  have four: "unat (4::u32) = 4" by simp
  obtain s calls eff where
    d: "drive 4 (\<lparr>queue = q0, mutex = None, rq_pcs = (\<lambda>_. Idle)\<rparr>, (\<lambda>_. None), [], (\<lambda>_. None)) race_moves =
      Some (s, calls, [(PushF 7, Pushed True), (PopB, Popped 7), (PopF, Popped 0)], eff)"
    and pc: "rq_pcs s 0 = Returned (Popped 0)" and eff: "eff 0 = Some (PopF, Popped 0)" "eff 1 = Some (PopB, Popped 7)"
    by (simp add: q0_def race_moves_def numeral_eq_Suc conc_step_def kMask_def kMask2_def store_state_def store_work_def
        compare_exchange_state_def eff_upd_def)
  have run: "conc_run 4 s calls [(PushF 7, Pushed True), (PopB, Popped 7), (PopF, Popped 0)] eff"
    by (rule drive_run [OF conc_run.start [OF q0] d])
  from concurrent_deque [OF run] show ?thesis using run pc eff unfolding four by blast
qed

end
