(* ===== verification/Mpmc_Conc.thy ===== *)
theory Mpmc_Conc
  imports Mpmc_Queue
begin

text \<open>
  \<open>rigtorp::mpmc::Queue<T>\<close> of src/include/eigen/mpmc\_queue.h under concurrent use: any number of threads call
  the blocking and the non-blocking operations, and every atomic access, every round of a waiting loop and
  every access to a slot's storage is one step.  The steps of all threads are interleaved in any order on
  sequentially consistent memory.
\<close>

section \<open>Program points\<close>

text \<open>The arguments are the item, the ticket (\<open>head\<close> or \<open>tail\<close> as the code has it) and the item taken.\<close>

datatype 'a mq_pc =
    Idle
  | Returned "'a fifo_res"
  | Emplace_ticket 'a
  | Emplace_wait 'a u64
  | Try_push_load 'a
  | Try_push_turn 'a u64
  | Try_push_cas 'a u64
  | Try_push_reload 'a u64
  | Push_construct 'a u64
  | Push_turn 'a u64
  | Pop_ticket
  | Pop_wait u64
  | Try_pop_load
  | Try_pop_turn u64
  | Try_pop_cas u64
  | Try_pop_reload u64
  | Pop_move u64
  | Pop_turn u64 'a

datatype 'a mq_call = Push 'a | TryPush 'a | Pop | TryPop

text \<open>What a step shows of an operation: a ticket is taken, or the item of a ticket is handed out.\<close>

datatype 'a mq_event = Took_push 'a | Took_pop | Delivered nat 'a

fun mq_step :: "'a mpmc_queue \<Rightarrow> 'a mq_pc \<Rightarrow> 'a mpmc_queue \<times> 'a mq_pc \<times> 'a mq_event option" where
  "mq_step q (Emplace_ticket v) =
     (let head = mq_head q in (q\<lparr>mq_head := head + 1\<rparr>, Emplace_wait v head, Some (Took_push v)))"
| "mq_step q (Emplace_wait v head) =
     (if turn q head * 2 \<noteq> sl_turn (mq_slots q ! idx q head) then (q, Emplace_wait v head, None)
      else (q, Push_construct v head, None))"
| "mq_step q (Try_push_load v) = (q, Try_push_turn v (mq_head q), None)"
| "mq_step q (Try_push_turn v head) =
     (if turn q head * 2 = sl_turn (mq_slots q ! idx q head) then (q, Try_push_cas v head, None)
      else (q, Try_push_reload v head, None))"
| "mq_step q (Try_push_cas v head) =
     (case compare_exchange_head head (head + 1) q of
        (ok, q) \<Rightarrow> if ok then (q, Push_construct v head, Some (Took_push v))
                   else (q, Try_push_turn v (mq_head q), None))"
| "mq_step q (Try_push_reload v head) =
     (let prevHead = head; head = mq_head q
      in if head = prevHead then (q, Returned (Given False), None) else (q, Try_push_turn v head, None))"
| "mq_step q (Push_construct v head) = (construct_slot (idx q head) v q, Push_turn v head, None)"
| "mq_step q (Push_turn v head) =
     (store_turn (idx q head) (turn q head * 2 + 1) q, Returned (Given True), None)"
| "mq_step q Pop_ticket =
     (let tail = mq_tail q in (q\<lparr>mq_tail := tail + 1\<rparr>, Pop_wait tail, Some Took_pop))"
| "mq_step q (Pop_wait tail) =
     (if turn q tail * 2 + 1 \<noteq> sl_turn (mq_slots q ! idx q tail) then (q, Pop_wait tail, None)
      else (q, Pop_move tail, None))"
| "mq_step q Try_pop_load = (q, Try_pop_turn (mq_tail q), None)"
| "mq_step q (Try_pop_turn tail) =
     (if turn q tail * 2 + 1 = sl_turn (mq_slots q ! idx q tail) then (q, Try_pop_cas tail, None)
      else (q, Try_pop_reload tail, None))"
| "mq_step q (Try_pop_cas tail) =
     (case compare_exchange_tail tail (tail + 1) q of
        (ok, q) \<Rightarrow> if ok then (q, Pop_move tail, Some Took_pop)
                   else (q, Try_pop_turn (mq_tail q), None))"
| "mq_step q (Try_pop_reload tail) =
     (let prevTail = tail; tail = mq_tail q
      in if tail = prevTail then (q, Returned (Taken None), None) else (q, Try_pop_turn tail, None))"
| "mq_step q (Pop_move tail) = (q, Pop_turn tail (sl_storage (mq_slots q ! idx q tail)), None)"
| "mq_step q (Pop_turn tail w) =
     (store_turn (idx q tail) (turn q tail * 2 + 2) q, Returned (Taken (Some w)), Some (Delivered (unat tail) w))"
| "mq_step q pc = (q, pc, None)"

fun mq_entry :: "'a mq_call \<Rightarrow> 'a mq_pc" where
  "mq_entry (Push v) = Emplace_ticket v"
| "mq_entry (TryPush v) = Try_push_load v"
| "mq_entry Pop = Pop_ticket"
| "mq_entry TryPop = Try_pop_load"

section \<open>Runs\<close>

fun resting :: "'a mq_pc \<Rightarrow> bool" where
  "resting Idle = True"
| "resting (Returned r) = True"
| "resting _ = False"

text \<open>
  What an observer sees of a run: the items in the order their pushes took tickets, the number of tickets
  taken by pops, the items handed out by ticket, and of each thread the last call and its events.
\<close>

record 'a history =
  pushed :: "'a list"
  popping :: nat
  delivered :: "nat \<Rightarrow> 'a option"
  mq_calls :: "nat \<Rightarrow> 'a mq_call option"
  events :: "nat \<Rightarrow> 'a mq_event list"

definition new_history :: "'a history" where
  "new_history = \<lparr>pushed = [], popping = 0, delivered = (\<lambda>_. None), mq_calls = (\<lambda>_. None), events = (\<lambda>_. [])\<rparr>"

fun record_event :: "'a mq_event \<Rightarrow> 'a history \<Rightarrow> 'a history" where
  "record_event (Took_push v) h = h\<lparr>pushed := pushed h @ [v]\<rparr>"
| "record_event Took_pop h = h\<lparr>popping := popping h + 1\<rparr>"
| "record_event (Delivered n w) h = h\<lparr>delivered := (delivered h)(n \<mapsto> w)\<rparr>"

definition observe :: "nat \<Rightarrow> 'a mq_event option \<Rightarrow> 'a history \<Rightarrow> 'a history" where
  "observe t ev h = (case ev of None \<Rightarrow> h
     | Some e \<Rightarrow> (record_event e h)\<lparr>events := (events h)(t := events h t @ [e])\<rparr>)"

inductive mq_run :: "u64 \<Rightarrow> 'a::zero mpmc_queue \<Rightarrow> (nat \<Rightarrow> 'a mq_pc) \<Rightarrow> 'a history \<Rightarrow> bool" for capacity where
  start: "Queue aligned capacity = Inr q \<Longrightarrow> mq_run capacity q (\<lambda>_. Idle) new_history"
| call: "mq_run capacity q pcs h \<Longrightarrow> resting (pcs t) \<Longrightarrow>
    mq_run capacity q (pcs(t := mq_entry c))
      (h\<lparr>mq_calls := (mq_calls h)(t \<mapsto> c), events := (events h)(t := [])\<rparr>)"
| step: "mq_run capacity q pcs h \<Longrightarrow> \<not> resting (pcs t) \<Longrightarrow> mq_step q (pcs t) = (q', pc, ev) \<Longrightarrow>
    mq_run capacity q' (pcs(t := pc)) (observe t ev h)"

section \<open>Claims\<close>

text \<open>
  A ticket is a claim on a slot at one value of its turn: push ticket \<open>n\<close> claims slot \<open>n mod cap\<close> at turn
  \<open>2 * (n div cap)\<close>, pop ticket \<open>n\<close> the same slot at the next turn.  A claim is done when the turn has
  passed it.
\<close>

definition push_claim :: "nat \<Rightarrow> nat \<Rightarrow> nat \<times> nat" where
  "push_claim cap n = (n mod cap, 2 * (n div cap))"

definition pop_claim :: "nat \<Rightarrow> nat \<Rightarrow> nat \<times> nat" where
  "pop_claim cap n = (n mod cap, 2 * (n div cap) + 1)"

fun claim :: "nat \<Rightarrow> 'a mq_pc \<Rightarrow> (nat \<times> nat) option" where
  "claim cap (Emplace_wait v head) = Some (push_claim cap (unat head))"
| "claim cap (Push_construct v head) = Some (push_claim cap (unat head))"
| "claim cap (Push_turn v head) = Some (push_claim cap (unat head))"
| "claim cap (Pop_wait tail) = Some (pop_claim cap (unat tail))"
| "claim cap (Pop_move tail) = Some (pop_claim cap (unat tail))"
| "claim cap (Pop_turn tail w) = Some (pop_claim cap (unat tail))"
| "claim cap _ = None"

text \<open>The program points at which the slot's turn is the claimed one.\<close>

fun owns_slot :: "'a mq_pc \<Rightarrow> bool" where
  "owns_slot (Push_construct v head) = True"
| "owns_slot (Push_turn v head) = True"
| "owns_slot (Pop_move tail) = True"
| "owns_slot (Pop_turn tail w) = True"
| "owns_slot _ = False"

definition now :: "'a mpmc_queue \<Rightarrow> nat \<Rightarrow> nat" where
  "now q i = unat (sl_turn (mq_slots q ! i))"

definition is_done :: "'a mpmc_queue \<Rightarrow> nat \<times> nat \<Rightarrow> bool" where
  "is_done q c \<longleftrightarrow> snd c < now q (fst c)"

text \<open>The claims of the first \<open>H\<close> push tickets and the first \<open>T\<close> pop tickets.\<close>

definition issued :: "nat \<Rightarrow> nat \<Rightarrow> nat \<Rightarrow> nat \<times> nat \<Rightarrow> bool" where
  "issued cap H T c \<longleftrightarrow> (\<exists>n < H. c = push_claim cap n) \<or> (\<exists>n < T. c = pop_claim cap n)"

lemma double_not_Suc: "2 * (a::nat) \<noteq> Suc (2 * b)"
  by presburger

lemma claim_inj [simp]:
  "0 < cap \<Longrightarrow> push_claim cap m = push_claim cap n \<longleftrightarrow> m = n"
  "0 < cap \<Longrightarrow> pop_claim cap m = pop_claim cap n \<longleftrightarrow> m = n"
  "push_claim cap m \<noteq> pop_claim cap n" "pop_claim cap m \<noteq> push_claim cap n"
proof -
  have eq: "m = n" if "m mod cap = n mod cap" "m div cap = n div cap"
    using that by (metis div_mult_mod_eq)
  show "0 < cap \<Longrightarrow> push_claim cap m = push_claim cap n \<longleftrightarrow> m = n" "0 < cap \<Longrightarrow> pop_claim cap m = pop_claim cap n \<longleftrightarrow> m = n"
    using eq by (auto simp: push_claim_def pop_claim_def)
  show "push_claim cap m \<noteq> pop_claim cap n" "pop_claim cap m \<noteq> push_claim cap n"
    using double_not_Suc [of "m div cap" "n div cap"] double_not_Suc [of "n div cap" "m div cap"] by (auto simp: push_claim_def pop_claim_def)
qed

lemma issued_simps:
  assumes "0 < cap"
  shows "issued cap H T (push_claim cap n) \<longleftrightarrow> n < H" "issued cap H T (pop_claim cap n) \<longleftrightarrow> n < T"
    "issued cap (Suc H) T c \<longleftrightarrow> issued cap H T c \<or> c = push_claim cap H"
    "issued cap H (Suc T) c \<longleftrightarrow> issued cap H T c \<or> c = pop_claim cap T"
  using assms by (auto simp: issued_def less_Suc_eq)

lemma claim_fst: "0 < cap \<Longrightarrow> fst (push_claim cap n) < cap" "0 < cap \<Longrightarrow> fst (pop_claim cap n) < cap"
  "fst (pop_claim cap n) = fst (push_claim cap n)" "snd (pop_claim cap n) = Suc (snd (push_claim cap n))"
  by (simp_all add: push_claim_def pop_claim_def)

lemma done_order: "is_done q (pop_claim cap n) \<Longrightarrow> is_done q (push_claim cap n)"
  by (simp add: is_done_def claim_fst)

section \<open>Invariant\<close>

text \<open>\<open>P\<close> are the items by push ticket, \<open>T\<close> is the number of pop tickets, \<open>D\<close> the items handed out.\<close>

definition shared_ok :: "'a mpmc_queue \<Rightarrow> 'a list \<Rightarrow> nat \<Rightarrow> (nat \<Rightarrow> 'a option) \<Rightarrow> bool" where
  "shared_ok q P T D \<longleftrightarrow>
     (let cap = unat (mq_capacity q)
      in 0 < cap \<and> length (mq_slots q) = cap \<and> mq_head q = of_nat (length P) \<and> mq_tail q = of_nat T \<and>
         (\<forall>i < cap. \<forall>k < now q i. issued cap (length P) T (i, k)) \<and>
         (\<forall>n. is_done q (push_claim cap n) \<and> \<not> is_done q (pop_claim cap n) \<longrightarrow>
            sl_storage (mq_slots q ! (n mod cap)) = P ! n) \<and>
         (\<forall>n. D n = (if is_done q (pop_claim cap n) then Some (P ! n) else None)))"

text \<open>What holds of the local variables of one operation.\<close>

fun vars_ok :: "'a mpmc_queue \<Rightarrow> 'a list \<Rightarrow> nat \<Rightarrow> 'a mq_pc \<Rightarrow> bool" where
  "vars_ok q P T (Emplace_wait v head) \<longleftrightarrow> unat head < length P \<and> P ! unat head = v"
| "vars_ok q P T (Push_construct v head) \<longleftrightarrow> unat head < length P \<and> P ! unat head = v"
| "vars_ok q P T (Push_turn v head) \<longleftrightarrow> unat head < length P \<and> P ! unat head = v \<and>
     sl_storage (mq_slots q ! (unat head mod unat (mq_capacity q))) = v"
| "vars_ok q P T (Try_push_turn v head) \<longleftrightarrow> unat head \<le> length P"
| "vars_ok q P T (Try_push_reload v head) \<longleftrightarrow> unat head \<le> length P"
| "vars_ok q P T (Try_push_cas v head) \<longleftrightarrow> unat head \<le> length P \<and>
     (case push_claim (unat (mq_capacity q)) (unat head) of (i, k) \<Rightarrow> k \<le> now q i)"
| "vars_ok q P T (Pop_wait tail) \<longleftrightarrow> unat tail < T"
| "vars_ok q P T (Pop_move tail) \<longleftrightarrow> unat tail < T"
| "vars_ok q P T (Pop_turn tail w) \<longleftrightarrow> unat tail < T \<and> unat tail < length P \<and> w = P ! unat tail"
| "vars_ok q P T (Try_pop_turn tail) \<longleftrightarrow> unat tail \<le> T"
| "vars_ok q P T (Try_pop_reload tail) \<longleftrightarrow> unat tail \<le> T"
| "vars_ok q P T (Try_pop_cas tail) \<longleftrightarrow> unat tail \<le> T \<and>
     (case pop_claim (unat (mq_capacity q)) (unat tail) of (i, k) \<Rightarrow> k \<le> now q i)"
| "vars_ok q P T _ \<longleftrightarrow> True"

text \<open>The claim of an operation is not done; in the slot's turn, it is the claimed one.\<close>

definition claim_ok :: "'a mpmc_queue \<Rightarrow> 'a mq_pc \<Rightarrow> bool" where
  "claim_ok q pc \<longleftrightarrow> (\<forall>c. claim (unat (mq_capacity q)) pc = Some c \<longrightarrow>
     now q (fst c) \<le> snd c \<and> (owns_slot pc \<longrightarrow> now q (fst c) = snd c))"

definition claims_ok :: "nat \<Rightarrow> 'a mpmc_queue \<Rightarrow> nat \<Rightarrow> nat \<Rightarrow> (nat \<Rightarrow> 'a mq_pc) \<Rightarrow> bool" where
  "claims_ok cap q H T pcs \<longleftrightarrow>
     (\<forall>t u c. claim cap (pcs t) = Some c \<and> claim cap (pcs u) = Some c \<longrightarrow> t = u) \<and>
     (\<forall>c. issued cap H T c \<longrightarrow> is_done q c \<or> (\<exists>t. claim cap (pcs t) = Some c))"

definition mq_ok :: "'a mpmc_queue \<Rightarrow> (nat \<Rightarrow> 'a mq_pc) \<Rightarrow> 'a list \<Rightarrow> nat \<Rightarrow> (nat \<Rightarrow> 'a option) \<Rightarrow> bool" where
  "mq_ok q pcs P T D \<longleftrightarrow> shared_ok q P T D \<and> claims_ok (unat (mq_capacity q)) q (length P) T pcs \<and>
     (\<forall>t. vars_ok q P T (pcs t) \<and> claim_ok q (pcs t))"

lemma shared_okD:
  assumes "shared_ok q P T D"
  shows "0 < unat (mq_capacity q)" "length (mq_slots q) = unat (mq_capacity q)"
    "mq_head q = of_nat (length P)" "mq_tail q = of_nat T"
    "\<And>i k. i < unat (mq_capacity q) \<Longrightarrow> k < now q i \<Longrightarrow> issued (unat (mq_capacity q)) (length P) T (i, k)"
    "\<And>n. is_done q (push_claim (unat (mq_capacity q)) n) \<Longrightarrow> \<not> is_done q (pop_claim (unat (mq_capacity q)) n) \<Longrightarrow>
       sl_storage (mq_slots q ! (n mod unat (mq_capacity q))) = P ! n"
    "\<And>n. D n = (if is_done q (pop_claim (unat (mq_capacity q)) n) then Some (P ! n) else None)"
  using assms by (auto simp: shared_ok_def Let_def)

lemma shared_okI:
  assumes "0 < unat (mq_capacity q)" "length (mq_slots q) = unat (mq_capacity q)"
    "mq_head q = of_nat (length P)" "mq_tail q = of_nat T"
    "\<And>i k. i < unat (mq_capacity q) \<Longrightarrow> k < now q i \<Longrightarrow> issued (unat (mq_capacity q)) (length P) T (i, k)"
    "\<And>n. is_done q (push_claim (unat (mq_capacity q)) n) \<Longrightarrow> \<not> is_done q (pop_claim (unat (mq_capacity q)) n) \<Longrightarrow>
       sl_storage (mq_slots q ! (n mod unat (mq_capacity q))) = P ! n"
    "\<And>n. D n = (if is_done q (pop_claim (unat (mq_capacity q)) n) then Some (P ! n) else None)"
  shows "shared_ok q P T D"
  using assms unfolding shared_ok_def Let_def by blast

lemma done_issued:
  assumes "shared_ok q P T D" "is_done q c" "fst c < unat (mq_capacity q)"
  shows "issued (unat (mq_capacity q)) (length P) T c"
  using shared_okD(5) [OF assms(1), of "fst c" "snd c"] assms(2,3) by (simp add: is_done_def)

lemma done_ticket:
  assumes "shared_ok q P T D"
  shows "is_done q (push_claim (unat (mq_capacity q)) n) \<Longrightarrow> n < length P"
    "is_done q (pop_claim (unat (mq_capacity q)) n) \<Longrightarrow> n < T \<and> n < length P"
proof -
  note pos = shared_okD(1) [OF assms]
  show push: "is_done q (push_claim (unat (mq_capacity q)) n) \<Longrightarrow> n < length P"
    using done_issued [OF assms] claim_fst(1) [OF pos] issued_simps(1) [OF pos] by blast
  show "n < T \<and> n < length P" if "is_done q (pop_claim (unat (mq_capacity q)) n)"
    using done_issued [OF assms that] claim_fst(2) [OF pos] issued_simps(2) [OF pos] done_order [OF that]
      done_issued [OF assms, of "push_claim (unat (mq_capacity q)) n"] claim_fst(1) [OF pos] issued_simps(1) [OF pos]
    by blast
qed

text \<open>A step that changes only local variables and keeps the claim.\<close>

lemma claims_ok_cong:
  assumes "claims_ok cap q H T pcs" "claim cap pc = claim cap (pcs t)"
  shows "claims_ok cap q H T (pcs(t := pc))"
proof -
  have "claim cap ((pcs(t := pc)) u) = claim cap (pcs u)" for u using assms(2) by simp
  then show ?thesis using assms(1) by (simp add: claims_ok_def del: fun_upd_apply)
qed

lemma mq_local:
  assumes "mq_ok q pcs P T D" "claim (unat (mq_capacity q)) pc = claim (unat (mq_capacity q)) (pcs t)"
    "vars_ok q P T pc" "claim_ok q pc"
  shows "mq_ok q (pcs(t := pc)) P T D"
proof -
  have "claims_ok (unat (mq_capacity q)) q (length P) T (pcs(t := pc))"
    using assms(1,2) by (intro claims_ok_cong) (simp_all add: mq_ok_def)
  then show ?thesis using assms by (simp add: mq_ok_def)
qed

section \<open>Taking a ticket\<close>

lemma fresh_tickets:
  assumes "shared_ok q P T D"
  shows "\<not> is_done q (push_claim (unat (mq_capacity q)) (length P))" "\<not> is_done q (pop_claim (unat (mq_capacity q)) T)"
  using done_ticket [OF assms] by blast+

lemma held_issued:
  assumes "vars_ok q P T pc" "claim cap pc = Some c" "0 < cap"
  shows "issued cap (length P) T c"
  using assms by (cases pc) (auto simp: issued_simps)

lemma same_slots:
  assumes "mq_slots q' = mq_slots q"
  shows "now q' i = now q i" "is_done q' c = is_done q c"
  using assms by (simp_all add: now_def is_done_def)

lemma claim_ok_same: "mq_slots q' = mq_slots q \<Longrightarrow> mq_capacity q' = mq_capacity q \<Longrightarrow> claim_ok q' pc = claim_ok q pc"
proof -
  assume "mq_slots q' = mq_slots q" and cap: "mq_capacity q' = mq_capacity q"
  then have "now q' = now q" by (intro ext) (simp add: now_def)
  then show ?thesis by (simp add: claim_ok_def cap)
qed

lemma vars_ok_more:
  assumes "vars_ok q P T pc" "mq_slots q' = mq_slots q" "mq_capacity q' = mq_capacity q" "T \<le> T'"
  shows "vars_ok q' (P @ ys) T' pc"
proof -
  have app: "P ! n = (P @ ys) ! n" if "n < length P" for n using that by (simp add: nth_append)
  have T: "n < T \<Longrightarrow> n < T'" "n \<le> T \<Longrightarrow> n \<le> T'" for n using assms(4) by simp_all
  show ?thesis
    using assms(1) unfolding vars_ok.simps
    by (cases pc) (auto simp: assms(2,3) same_slots [OF assms(2)] nth_append dest: T)
qed

lemma claims_ok_take:
  assumes ok: "claims_ok cap q H T pcs" and none: "claim cap (pcs t) = None"
    and held: "\<And>u. claim cap (pcs u) \<noteq> Some c" and pc: "claim cap pc = Some c"
    and slots: "mq_slots q' = mq_slots q" and iss: "\<And>c'. issued cap H' T' c' \<longleftrightarrow> issued cap H T c' \<or> c' = c"
  shows "claims_ok cap q' H' T' (pcs(t := pc))"
proof -
  have "\<exists>u. claim cap ((pcs(t := pc)) u) = Some c'" if un: "issued cap H' T' c'" "\<not> is_done q c'" for c'
  proof (cases "c' = c")
    case True
    then show ?thesis using pc by (intro exI [of _ t]) simp
  next
    case False
    then have "issued cap H T c'" using un(1) iss [of c'] by simp
    moreover have "\<forall>c. issued cap H T c \<longrightarrow> is_done q c \<or> (\<exists>t. claim cap (pcs t) = Some c)"
      using ok unfolding claims_ok_def by (rule conjunct2)
    ultimately obtain u where "claim cap (pcs u) = Some c'" using un(2) by blast
    then show ?thesis using none by (intro exI [of _ u]) auto
  qed
  moreover have "u = u'" if "claim cap ((pcs(t := pc)) u) = Some c'" "claim cap ((pcs(t := pc)) u') = Some c'" for u u' c'
    using that ok held pc by (auto simp: claims_ok_def split: if_splits)
  ultimately show ?thesis unfolding claims_ok_def same_slots [OF slots] by blast
qed

lemma take_push:
  assumes inv: "mq_ok q pcs P T D" and none: "claim (unat (mq_capacity q)) (pcs t) = None"
    and q': "q' = q\<lparr>mq_head := mq_head q + 1\<rparr>"
    and pc: "claim (unat (mq_capacity q)) pc = Some (push_claim (unat (mq_capacity q)) (length P))"
      "vars_ok q' (P @ [v]) T pc" "claim_ok q' pc"
  shows "mq_ok q' (pcs(t := pc)) (P @ [v]) T D"
proof -
  let ?c = "unat (mq_capacity q)"
  have S: "shared_ok q P T D" and C: "claims_ok ?c q (length P) T pcs" and V: "\<And>u. vars_ok q P T (pcs u) \<and> claim_ok q (pcs u)"
    using inv by (auto simp: mq_ok_def)
  note D = shared_okD [OF S]
  have slots: "mq_slots q' = mq_slots q" "mq_capacity q' = mq_capacity q" by (simp_all add: q')
  have nth: "P ! n = (P @ [v]) ! n" if "is_done q (push_claim ?c n)" for n
    using done_ticket(1) [OF S that] by (simp add: nth_append)
  have "shared_ok q' (P @ [v]) T D"
    unfolding shared_ok_def Let_def slots same_slots [OF slots(1)]
    using D(1-6) nth done_order [of q ?c]
    by (auto simp: q' issued_simps D(7) [rule_format] dest: D(5))
  moreover have "claims_ok ?c q' (length (P @ [v])) T (pcs(t := pc))"
  proof (rule claims_ok_take [OF C none _ pc(1) slots(1)])
    show "claim ?c (pcs u) \<noteq> Some (push_claim ?c (length P))" for u
      using held_issued [of q P T "pcs u"] V D(1) issued_simps(1) [OF D(1)] by blast
  qed (use issued_simps(3) [OF D(1)] in simp)
  moreover have "vars_ok q' (P @ [v]) T ((pcs(t := pc)) u) \<and> claim_ok q' ((pcs(t := pc)) u)" for u
    using V [of u] pc(2,3) vars_ok_more [OF _ slots, of P T "pcs u"]
    by (simp add: claim_ok_same [OF slots])
  ultimately show ?thesis by (simp add: mq_ok_def slots)
qed

lemma take_pop:
  assumes inv: "mq_ok q pcs P T D" and none: "claim (unat (mq_capacity q)) (pcs t) = None"
    and q': "q' = q\<lparr>mq_tail := mq_tail q + 1\<rparr>"
    and pc: "claim (unat (mq_capacity q)) pc = Some (pop_claim (unat (mq_capacity q)) T)"
      "vars_ok q' P (Suc T) pc" "claim_ok q' pc"
  shows "mq_ok q' (pcs(t := pc)) P (Suc T) D"
proof -
  let ?c = "unat (mq_capacity q)"
  have S: "shared_ok q P T D" and C: "claims_ok ?c q (length P) T pcs" and V: "\<And>u. vars_ok q P T (pcs u) \<and> claim_ok q (pcs u)"
    using inv by (auto simp: mq_ok_def)
  note D = shared_okD [OF S]
  have slots: "mq_slots q' = mq_slots q" "mq_capacity q' = mq_capacity q" by (simp_all add: q')
  have "shared_ok q' P (Suc T) D"
    unfolding shared_ok_def Let_def slots same_slots [OF slots(1)]
    using D(1-6) by (auto simp: q' issued_simps D(7) [rule_format] dest: D(5))
  moreover have "claims_ok ?c q' (length P) (Suc T) (pcs(t := pc))"
  proof (rule claims_ok_take [OF C none _ pc(1) slots(1)])
    show "claim ?c (pcs u) \<noteq> Some (pop_claim ?c T)" for u
      using held_issued [of q P T "pcs u"] V D(1) issued_simps(2) [OF D(1)] by blast
  qed (use issued_simps(4) [OF D(1)] in simp)
  moreover have "vars_ok q' P (Suc T) ((pcs(t := pc)) u) \<and> claim_ok q' ((pcs(t := pc)) u)" for u
    using V [of u] pc(2,3) vars_ok_more [OF _ slots, of P T "pcs u" "Suc T" "[]"]
    by (simp add: claim_ok_same [OF slots])
  ultimately show ?thesis by (simp add: mq_ok_def slots)
qed

section \<open>Working on a slot\<close>

lemma ticket_claims:
  assumes "0 < unat (mq_capacity q)"
  shows "idx q x = fst (push_claim (unat (mq_capacity q)) (unat x))" "idx q x < unat (mq_capacity q)"
  using assms by (simp_all add: mq_idx push_claim_def)

lemma ticket_turns:
  fixes q :: "'a mpmc_queue"
  assumes "unat x \<le> 2 ^ 62"
  defines "k \<equiv> snd (push_claim (unat (mq_capacity q)) (unat x))"
  shows "turn q x * 2 = of_nat k" "turn q x * 2 + 1 = of_nat (k + 1)" "turn q x * 2 + 2 = of_nat (k + 2)" "k + 2 < 2 ^ 64"
proof -
  show k: "turn q x * 2 = of_nat k" by (simp add: mq_turn ticket_turn_def k_def push_claim_def)
  show "turn q x * 2 + 1 = of_nat (k + 1)" "turn q x * 2 + 2 = of_nat (k + 2)" unfolding k by simp_all
  have "unat x div unat (mq_capacity q) \<le> 2 ^ 62" using assms(1) div_le_dividend le_trans by blast
  then show "k + 2 < 2 ^ 64" by (simp add: k_def push_claim_def)
qed

lemma turn_reached:
  assumes "unat x \<le> 2 ^ 62" "0 < unat (mq_capacity q)"
  shows "turn q x * 2 = sl_turn (mq_slots q ! idx q x) \<longleftrightarrow>
      now q (fst (push_claim (unat (mq_capacity q)) (unat x))) = snd (push_claim (unat (mq_capacity q)) (unat x))"
    "turn q x * 2 + 1 = sl_turn (mq_slots q ! idx q x) \<longleftrightarrow>
      now q (fst (pop_claim (unat (mq_capacity q)) (unat x))) = snd (pop_claim (unat (mq_capacity q)) (unat x))"
proof -
  have eq: "(of_nat k = (w::u64)) \<longleftrightarrow> unat w = k" if "k < 2 ^ 64" for k w
    using that by (auto simp: unat_of_nat)
  note T = ticket_turns [OF assms(1), of q]
  show "turn q x * 2 = sl_turn (mq_slots q ! idx q x) \<longleftrightarrow>
      now q (fst (push_claim (unat (mq_capacity q)) (unat x))) = snd (push_claim (unat (mq_capacity q)) (unat x))"
    unfolding T(1) now_def ticket_claims(1) [OF assms(2)] by (rule eq) (use T(4) in simp)
  show "turn q x * 2 + 1 = sl_turn (mq_slots q ! idx q x) \<longleftrightarrow>
      now q (fst (pop_claim (unat (mq_capacity q)) (unat x))) = snd (pop_claim (unat (mq_capacity q)) (unat x))"
    unfolding T(2) now_def ticket_claims(1) [OF assms(2)] claim_fst(3,4) Suc_eq_plus1 by (rule eq) (use T(4) in simp)
qed

lemma slots_apart:
  assumes inv: "mq_ok q pcs P T D" and ne: "u \<noteq> t" and own: "owns_slot (pcs t)" "owns_slot (pcs u)"
    and claims: "claim (unat (mq_capacity q)) (pcs t) = Some c" "claim (unat (mq_capacity q)) (pcs u) = Some c'"
  shows "fst c \<noteq> fst c'"
proof
  assume same: "fst c = fst c'"
  have "now q (fst c) = snd c" "now q (fst c') = snd c'"
    using inv own claims by (simp_all add: mq_ok_def claim_ok_def)
  then have "c = c'" using same by (simp add: prod_eq_iff)
  then show False using inv claims ne unfolding mq_ok_def claims_ok_def by blast
qed

text \<open>A ready item is in a slot no operation owns for writing.\<close>

lemma ready_apart:
  assumes "is_done q (push_claim cap n)" "\<not> is_done q (pop_claim cap n)" "now q i = 2 * k"
  shows "n mod cap \<noteq> i"
proof
  assume "n mod cap = i"
  then have "now q i = Suc (2 * (n div cap))"
    using assms(1,2) by (simp add: is_done_def push_claim_def pop_claim_def)
  then show False using assms(3) double_not_Suc [of k "n div cap"] by simp
qed

lemma construct_step:
  assumes inv: "mq_ok q pcs P T D" and pc: "pcs t = Push_construct v x"
  shows "mq_ok (construct_slot (idx q x) v q) (pcs(t := Push_turn v x)) P T D"
proof -
  let ?c = "unat (mq_capacity q)" and ?i = "idx q x" and ?q = "construct_slot (idx q x) v q"
  have S: "shared_ok q P T D" and C: "claims_ok ?c q (length P) T pcs" and V: "\<And>u. vars_ok q P T (pcs u) \<and> claim_ok q (pcs u)"
    using inv by (auto simp: mq_ok_def)
  note D = shared_okD [OF S]
  note I = ticket_claims [OF D(1), of x]
  have own: "claim ?c (pcs t) = Some (push_claim ?c (unat x))" "owns_slot (pcs t)" by (simp_all add: pc)
  have k: "now q ?i = 2 * (unat x div ?c)" using V [of t] own by (simp add: claim_ok_def I(1) push_claim_def)
  have slots: "mq_slots ?q = (mq_slots q)[?i := \<lparr>sl_turn = sl_turn (mq_slots q ! ?i), sl_storage = v\<rparr>]"
    by (rule mq_slot_write) (simp add: D(2) I(2))
  have now: "now ?q j = now q j" for j using D(2) I(2) by (cases "j = ?i") (simp_all add: now_def slots)
  have d: "is_done ?q c \<longleftrightarrow> is_done q c" for c by (simp add: is_done_def now)
  have storage: "sl_storage (mq_slots ?q ! j) = (if j = ?i then v else sl_storage (mq_slots q ! j))" for j
    using D(2) I(2) by (simp add: slots nth_list_update)
  have "shared_ok ?q P T D"
  proof (rule shared_okI)
    show "sl_storage (mq_slots ?q ! (n mod unat (mq_capacity ?q))) = P ! n"
      if "is_done ?q (push_claim (unat (mq_capacity ?q)) n)" "\<not> is_done ?q (pop_claim (unat (mq_capacity ?q)) n)" for n
      using D(6) [of n] ready_apart [OF _ _ k, of ?c n] that by (simp add: d storage)
    show "D n = (if is_done ?q (pop_claim (unat (mq_capacity ?q)) n) then Some (P ! n) else None)" for n
      unfolding d mq_write_frame by (rule D(7))
  qed (use D(1-5) in \<open>simp_all add: now\<close>)
  moreover have "claims_ok ?c q (length P) T (pcs(t := Push_turn v x))"
    by (rule claims_ok_cong [OF C]) (simp add: pc)
  then have "claims_ok ?c ?q (length P) T (pcs(t := Push_turn v x))"
    unfolding claims_ok_def d .
  moreover have "vars_ok ?q P T ((pcs(t := Push_turn v x)) u) \<and> claim_ok ?q ((pcs(t := Push_turn v x)) u)" for u
  proof (cases "u = t")
    case True
    have "unat x < length P \<and> P ! unat x = v" using V [of t] by (simp add: pc)
    then show ?thesis using True k
      by (simp add: claim_ok_def push_claim_def mq_idx storage [unfolded mq_idx] now [unfolded mq_idx])
  next
    case False
    have "sl_storage (mq_slots ?q ! (unat y mod ?c)) = sl_storage (mq_slots q ! (unat y mod ?c))"
      if "pcs u = Push_turn v' y" for v' y
      using slots_apart [OF inv False own(2) _ own(1), of "push_claim ?c (unat y)"] that
      by (simp add: storage [unfolded mq_idx] push_claim_def mq_idx)
    then have "vars_ok ?q P T (pcs u)"
      using V [of u] by (cases "pcs u") (simp_all add: now split: prod.splits)
    then show ?thesis using V [of u] False by (simp add: claim_ok_def now)
  qed
  ultimately show ?thesis by (simp add: mq_ok_def)
qed

section \<open>Releasing a slot\<close>

lemma released:
  assumes "i < length (mq_slots q)" "now q i = k" "k + 1 < 2 ^ 64" "q' = store_turn i (of_nat (k + 1)) q"
  shows "now q' j = (if j = i then k + 1 else now q j)" "is_done q' c \<longleftrightarrow> is_done q c \<or> c = (i, k)"
    "sl_storage (mq_slots q' ! j) = sl_storage (mq_slots q ! j)"
proof -
  have slots: "mq_slots q' = (mq_slots q)[i := \<lparr>sl_turn = of_nat (k + 1), sl_storage = sl_storage (mq_slots q ! i)\<rparr>]"
    unfolding assms(4) by (rule mq_slot_write(2) [OF assms(1)])
  have "unat (of_nat (k + 1) :: u64) = k + 1" using assms(3) by (simp only: unat_of_nat) simp
  then show now: "now q' j = (if j = i then k + 1 else now q j)" for j
    using assms(1) unfolding now_def slots by (auto simp: nth_list_update)
  show "is_done q' c \<longleftrightarrow> is_done q c \<or> c = (i, k)"
    using assms(2) by (cases c) (auto simp: is_done_def now)
  show "sl_storage (mq_slots q' ! j) = sl_storage (mq_slots q ! j)"
    using assms(1) by (simp add: slots nth_list_update)
qed

lemma claims_ok_drop:
  assumes ok: "claims_ok cap q H T pcs" and c: "claim cap (pcs t) = Some c" and none: "claim cap pc = None"
    and d: "\<And>c'. is_done q' c' \<longleftrightarrow> is_done q c' \<or> c' = c"
  shows "claims_ok cap q' H T (pcs(t := pc))"
proof -
  have cover: "\<forall>c. issued cap H T c \<longrightarrow> is_done q c \<or> (\<exists>t. claim cap (pcs t) = Some c)"
    using ok unfolding claims_ok_def by (rule conjunct2)
  have "is_done q' c' \<or> (\<exists>u. claim cap ((pcs(t := pc)) u) = Some c')" if iss: "issued cap H T c'" for c'
  proof (cases "c' = c \<or> is_done q c'")
    case False
    then obtain u where u: "claim cap (pcs u) = Some c'" using cover iss by blast
    then have "u \<noteq> t" using False c by auto
    then show ?thesis using u by (intro disjI2 exI [of _ u]) simp
  qed (use d [of c'] in blast)
  moreover have "u = u'" if "claim cap ((pcs(t := pc)) u) = Some c'" "claim cap ((pcs(t := pc)) u') = Some c'" for u u' c'
    using that ok none unfolding claims_ok_def by (auto split: if_splits)
  ultimately show ?thesis unfolding claims_ok_def by blast
qed

lemma release_others:
  assumes inv: "mq_ok q pcs P T D" and own: "owns_slot (pcs t)" "claim (unat (mq_capacity q)) (pcs t) = Some (i, k)"
    and i: "i < length (mq_slots q)" and k: "k + 1 < 2 ^ 64" and q': "q' = store_turn i (of_nat (k + 1)) q" and ne: "u \<noteq> t"
  shows "vars_ok q' P T (pcs u) \<and> claim_ok q' (pcs u)"
proof -
  have V: "vars_ok q P T (pcs u)" "claim_ok q (pcs u)" and "claim_ok q (pcs t)" using inv by (auto simp: mq_ok_def)
  then have ki: "now q i = k" using own by (simp add: claim_ok_def)
  note R = released [OF i ki k q']
  have cap: "mq_capacity q' = mq_capacity q" by (simp add: q')
  have le: "now q j \<le> now q' j" for j using ki by (simp add: R(1))
  have "vars_ok q' P T (pcs u)"
    using V(1) by (cases "pcs u") (auto simp: cap R(3) intro: le_trans [OF _ le] split: prod.splits)
  moreover have "claim_ok q' (pcs u)"
    unfolding claim_ok_def cap
  proof (intro allI impI)
    fix c assume c: "claim (unat (mq_capacity q)) (pcs u) = Some c"
    then have "c \<noteq> (i, k)" using inv own(2) ne unfolding mq_ok_def claims_ok_def by blast
    moreover have "now q (fst c) \<le> snd c" "owns_slot (pcs u) \<Longrightarrow> now q (fst c) = snd c"
      using V(2) c by (simp_all add: claim_ok_def)
    moreover have "owns_slot (pcs u) \<Longrightarrow> fst c \<noteq> i" using slots_apart [OF inv ne own(1) _ own(2) c] by auto
    ultimately show "now q' (fst c) \<le> snd c \<and> (owns_slot (pcs u) \<longrightarrow> now q' (fst c) = snd c)"
      using ki by (cases c) (auto simp: R(1))
  qed
  ultimately show ?thesis ..
qed

lemma release_step:
  assumes inv: "mq_ok q pcs P T D" and own: "owns_slot (pcs t)" "claim (unat (mq_capacity q)) (pcs t) = Some (i, k)"
    and k: "k + 1 < 2 ^ 64" and q': "q' = store_turn i (of_nat (k + 1)) q" and pc: "pc = Returned r"
    and vals: "\<And>n. (i, k) = push_claim (unat (mq_capacity q)) n \<Longrightarrow>
        sl_storage (mq_slots q ! (n mod unat (mq_capacity q))) = P ! n"
    and D': "\<And>n. D' n = (if (i, k) = pop_claim (unat (mq_capacity q)) n then Some (P ! n) else D n)"
  shows "mq_ok q' (pcs(t := pc)) P T D'"
proof -
  let ?c = "unat (mq_capacity q)"
  have S: "shared_ok q P T D" and C: "claims_ok ?c q (length P) T pcs" and V: "\<And>u. vars_ok q P T (pcs u) \<and> claim_ok q (pcs u)"
    using inv by (auto simp: mq_ok_def)
  note D = shared_okD [OF S]
  have iss: "issued ?c (length P) T (i, k)" using held_issued [OF _ own(2) D(1)] V by blast
  then have i: "i < length (mq_slots q)"
    using claim_fst(1,2) [OF D(1)] unfolding D(2) issued_def by (metis fst_conv)
  have ki: "now q i = k" using V [of t] own by (simp add: claim_ok_def)
  note R = released [OF i ki k q']
  have cap: "mq_capacity q' = mq_capacity q" "mq_head q' = mq_head q" "mq_tail q' = mq_tail q"
    "length (mq_slots q') = length (mq_slots q)" by (simp_all add: q' store_turn_def)
  have "shared_ok q' P T D'"
  proof (rule shared_okI)
    show "issued (unat (mq_capacity q')) (length P) T (j, m)" if "j < unat (mq_capacity q')" "m < now q' j" for j m
    proof -
      have "is_done q' (j, m)" using that(2) by (simp add: is_done_def)
      then show ?thesis using R(2) iss done_issued [OF S, of "(j, m)"] that(1) by (auto simp: cap)
    qed
    show "sl_storage (mq_slots q' ! (n mod unat (mq_capacity q'))) = P ! n"
      if "is_done q' (push_claim (unat (mq_capacity q')) n)" "\<not> is_done q' (pop_claim (unat (mq_capacity q')) n)" for n
    proof (cases "is_done q (push_claim ?c n)")
      case True
      then show ?thesis using D(6) that(2) R(2) unfolding cap R(3) by blast
    next
      case False
      then have "(i, k) = push_claim ?c n" using that(1) R(2) unfolding cap by metis
      then show ?thesis using vals unfolding cap R(3) by blast
    qed
    show "D' n = (if is_done q' (pop_claim (unat (mq_capacity q')) n) then Some (P ! n) else None)" for n
      unfolding D' D(7) cap R(2) by auto
  qed (use D(1-4) cap in simp_all)
  moreover have "claims_ok ?c q' (length P) T (pcs(t := pc))"
    by (rule claims_ok_drop [OF C own(2)]) (simp_all add: pc R(2))
  moreover have "vars_ok q' P T ((pcs(t := pc)) u) \<and> claim_ok q' ((pcs(t := pc)) u)" for u
    using release_others [OF inv own i k q', of u] by (simp add: pc claim_ok_def)
  ultimately show ?thesis by (simp add: mq_ok_def cap)
qed

section \<open>Every step\<close>

abbreviation hist_ok :: "'a mpmc_queue \<Rightarrow> (nat \<Rightarrow> 'a mq_pc) \<Rightarrow> 'a history \<Rightarrow> bool" where
  "hist_ok q pcs h \<equiv> mq_ok q pcs (pushed h) (popping h) (delivered h)"

definition few_tickets :: "'a history \<Rightarrow> bool" where
  "few_tickets h \<longleftrightarrow> length (pushed h) \<le> 2 ^ 62 \<and> popping h \<le> 2 ^ 62"

lemma observe_simps [simp]:
  "observe t None h = h"
  "pushed (observe t (Some (Took_push v)) h) = pushed h @ [v]" "popping (observe t (Some (Took_push v)) h) = popping h"
  "delivered (observe t (Some (Took_push v)) h) = delivered h"
  "pushed (observe t (Some Took_pop) h) = pushed h" "popping (observe t (Some Took_pop) h) = Suc (popping h)"
  "delivered (observe t (Some Took_pop) h) = delivered h"
  "pushed (observe t (Some (Delivered n w)) h) = pushed h" "popping (observe t (Some (Delivered n w)) h) = popping h"
  "delivered (observe t (Some (Delivered n w)) h) = (delivered h)(n \<mapsto> w)"
  "mq_calls (observe t ev h) = mq_calls h"
  "events (observe t (Some e) h) = (events h)(t := events h t @ [e])"
  by (simp_all add: observe_def split: option.split) (cases "the ev"; auto split: option.split; cases e; simp)+

lemma few_before: "few_tickets (observe t ev h) \<Longrightarrow> few_tickets h"
  by (cases ev; simp; cases "the ev"; simp add: few_tickets_def)

lemma unat_ticket: "n \<le> 2 ^ 62 \<Longrightarrow> unat (of_nat n :: u64) = n"
  by (simp only: unat_of_nat) simp

lemma hist_okD:
  assumes "mq_ok q pcs P T D"
  shows "shared_ok q P T D" "vars_ok q P T (pcs t)" "claim_ok q (pcs t)"
  using assms by (auto simp: mq_ok_def)

text \<open>The rounds of the loops that wait for a slot's turn.\<close>

lemma turn_step_ok:
  assumes inv: "hist_ok q pcs h" and few: "few_tickets h"
    and pc: "pcs t = Emplace_wait v x \<or> pcs t = Pop_wait x \<or> pcs t = Try_push_turn v x \<or> pcs t = Try_pop_turn x"
  shows "\<exists>pc. mq_step q (pcs t) = (q, pc, None) \<and> hist_ok q (pcs(t := pc)) h"
proof -
  note I = hist_okD(1) [OF inv] hist_okD(2,3) [OF inv, of t]
  note pos = shared_okD(1) [OF I(1)]
  have x: "unat x \<le> 2 ^ 62" using I(2) pc few by (auto simp: few_tickets_def)
  note turn = turn_reached [OF x pos]
  have go: "hist_ok q (pcs(t := pc)) h"
    if "claim (unat (mq_capacity q)) pc = claim (unat (mq_capacity q)) (pcs t)"
      "vars_ok q (pushed h) (popping h) pc" "claim_ok q pc" for pc
    by (rule mq_local [OF inv that])
  from pc show ?thesis
  proof (elim disjE)
    assume t: "pcs t = Emplace_wait v x"
    show ?thesis
      by (cases "turn q x * 2 = sl_turn (mq_slots q ! idx q x)")
        (use I(2,3) t turn(1) in \<open>auto simp: claim_ok_def intro!: go\<close>)
  next
    assume t: "pcs t = Pop_wait x"
    show ?thesis
      by (cases "turn q x * 2 + 1 = sl_turn (mq_slots q ! idx q x)")
        (use I(2,3) t turn(2) in \<open>auto simp: claim_ok_def intro!: go\<close>)
  next
    assume t: "pcs t = Try_push_turn v x"
    show ?thesis
      by (cases "turn q x * 2 = sl_turn (mq_slots q ! idx q x)")
        (use I(2,3) t turn(1) in \<open>auto simp: claim_ok_def split: prod.splits intro!: go\<close>)
  next
    assume t: "pcs t = Try_pop_turn x"
    show ?thesis
      by (cases "turn q x * 2 + 1 = sl_turn (mq_slots q ! idx q x)")
        (use I(2,3) t turn(2) in \<open>auto simp: claim_ok_def split: prod.splits intro!: go\<close>)
  qed
qed

text \<open>Loads of the two counters.\<close>

lemma counters:
  assumes "hist_ok q pcs h" "few_tickets h"
  shows "unat (mq_head q) = length (pushed h)" "unat (mq_tail q) = popping h"
  using shared_okD(3,4) [OF hist_okD(1) [OF assms(1)]] assms(2) by (simp_all add: unat_ticket few_tickets_def)

lemma load_step_ok:
  assumes inv: "hist_ok q pcs h" and few: "few_tickets h"
    and pc: "pcs t = Try_push_load v \<or> pcs t = Try_pop_load \<or> pcs t = Try_push_reload v x \<or> pcs t = Try_pop_reload x"
  shows "\<exists>pc. mq_step q (pcs t) = (q, pc, None) \<and> hist_ok q (pcs(t := pc)) h"
proof -
  note N = counters [OF inv few]
  have go: "hist_ok q (pcs(t := pc)) h"
    if "claim (unat (mq_capacity q)) pc = None" "vars_ok q (pushed h) (popping h) pc" for pc
    using that pc by (intro mq_local [OF inv]) (auto simp: claim_ok_def)
  from pc show ?thesis by (elim disjE) (auto simp: N Let_def intro!: go)
qed

text \<open>The steps that take a ticket.\<close>

lemma push_ticket_ok:
  assumes inv: "hist_ok q pcs h" and few: "few_tickets (observe t (Some (Took_push v)) h)"
    and pc: "pcs t = Emplace_ticket v \<or> pcs t = Try_push_cas v x \<and> mq_head q = x"
  shows "\<exists>q' pc. mq_step q (pcs t) = (q', pc, Some (Took_push v)) \<and>
    hist_ok q' (pcs(t := pc)) (observe t (Some (Took_push v)) h)"
proof -
  note I = hist_okD(1) [OF inv] hist_okD(2,3) [OF inv, of t]
  let ?q = "q\<lparr>mq_head := mq_head q + 1\<rparr>" and ?c = "push_claim (unat (mq_capacity q)) (length (pushed h))"
  note head = counters(1) [OF inv few_before [OF few]]
  have le: "now q (fst ?c) \<le> snd ?c" using fresh_tickets(1) [OF I(1)] by (simp add: is_done_def)
  have now: "now ?q i = now q i" for i by (rule same_slots) simp
  have go: "mq_ok ?q (pcs(t := pc)) (pushed h @ [v]) (popping h) (delivered h)"
    if "claim (unat (mq_capacity q)) pc = Some ?c" "vars_ok ?q (pushed h @ [v]) (popping h) pc" "claim_ok ?q pc" for pc
  proof -
    have "claim (unat (mq_capacity q)) (pcs t) = None" using pc by auto
    from take_push [OF inv this refl that] show ?thesis by simp
  qed
  from pc show ?thesis
  proof (elim disjE conjE)
    assume "pcs t = Emplace_ticket v"
    then show ?thesis using le by (auto simp: Let_def head claim_ok_def now intro!: go)
  next
    assume cas: "pcs t = Try_push_cas v x" and x: "mq_head q = x"
    have "now q (fst ?c) = snd ?c" using I(2) le by (auto simp: cas x [symmetric] head split: prod.splits)
    then show ?thesis
      by (auto simp: cas x [symmetric] compare_exchange_head_def head claim_ok_def now intro!: go)
  qed
qed

lemma pop_ticket_ok:
  assumes inv: "hist_ok q pcs h" and few: "few_tickets (observe t (Some Took_pop) h)"
    and pc: "pcs t = Pop_ticket \<or> pcs t = Try_pop_cas x \<and> mq_tail q = x"
  shows "\<exists>q' pc. mq_step q (pcs t) = (q', pc, Some Took_pop) \<and>
    hist_ok q' (pcs(t := pc)) (observe t (Some Took_pop) h)"
proof -
  note I = hist_okD(1) [OF inv] hist_okD(2,3) [OF inv, of t]
  let ?q = "q\<lparr>mq_tail := mq_tail q + 1\<rparr>" and ?c = "pop_claim (unat (mq_capacity q)) (popping h)"
  note tail = counters(2) [OF inv few_before [OF few]]
  have le: "now q (fst ?c) \<le> snd ?c" using fresh_tickets(2) [OF I(1)] by (simp add: is_done_def)
  have now: "now ?q i = now q i" for i by (rule same_slots) simp
  have go: "mq_ok ?q (pcs(t := pc)) (pushed h) (Suc (popping h)) (delivered h)"
    if "claim (unat (mq_capacity q)) pc = Some ?c" "vars_ok ?q (pushed h) (Suc (popping h)) pc" "claim_ok ?q pc" for pc
  proof -
    have "claim (unat (mq_capacity q)) (pcs t) = None" using pc by auto
    from take_pop [OF inv this refl that] show ?thesis by simp
  qed
  from pc show ?thesis
  proof (elim disjE conjE)
    assume "pcs t = Pop_ticket"
    then show ?thesis using le by (auto simp: Let_def tail claim_ok_def now intro!: go)
  next
    assume cas: "pcs t = Try_pop_cas x" and x: "mq_tail q = x"
    have "now q (fst ?c) = snd ?c" using I(2) le by (auto simp: cas x [symmetric] tail split: prod.splits)
    then show ?thesis
      by (auto simp: cas x [symmetric] compare_exchange_tail_def tail claim_ok_def now intro!: go)
  qed
qed

lemma lost_cas_ok:
  assumes inv: "hist_ok q pcs h" and few: "few_tickets h"
    and pc: "pcs t = Try_push_cas v x \<and> mq_head q \<noteq> x \<or> pcs t = Try_pop_cas x \<and> mq_tail q \<noteq> x"
  shows "\<exists>pc. mq_step q (pcs t) = (q, pc, None) \<and> hist_ok q (pcs(t := pc)) h"
proof -
  note N = counters [OF inv few]
  have go: "hist_ok q (pcs(t := pc)) h"
    if "claim (unat (mq_capacity q)) pc = None" "vars_ok q (pushed h) (popping h) pc" for pc
    using that pc by (intro mq_local [OF inv]) (auto simp: claim_ok_def)
  from pc show ?thesis
    by (elim disjE conjE) (auto simp: N compare_exchange_head_def compare_exchange_tail_def intro!: go)
qed

text \<open>The steps on a slot the operation owns.\<close>

lemma move_step_ok:
  assumes inv: "hist_ok q pcs h" and pc: "pcs t = Pop_move x"
  shows "\<exists>pc. mq_step q (pcs t) = (q, pc, None) \<and> hist_ok q (pcs(t := pc)) h"
proof -
  note I = hist_okD(1) [OF inv] hist_okD(2,3) [OF inv, of t]
  note D = shared_okD [OF I(1)]
  let ?c = "unat (mq_capacity q)"
  have "now q (fst (pop_claim ?c (unat x))) = snd (pop_claim ?c (unat x))" using I(3) by (simp add: claim_ok_def pc)
  then have ready: "is_done q (push_claim ?c (unat x))" "\<not> is_done q (pop_claim ?c (unat x))"
    by (simp_all add: is_done_def claim_fst)
  have "hist_ok q (pcs(t := Pop_turn x (sl_storage (mq_slots q ! idx q x)))) h"
    using I(2,3) D(6) [OF ready] done_ticket(1) [OF I(1) ready(1)]
    by (intro mq_local [OF inv]) (simp_all add: pc mq_idx claim_ok_def)
  then show ?thesis by (simp add: pc)
qed

lemma push_release_ok:
  assumes inv: "hist_ok q pcs h" and few: "few_tickets h" and pc: "pcs t = Push_turn v x"
  shows "\<exists>q'. mq_step q (pcs t) = (q', Returned (Given True), None) \<and> hist_ok q' (pcs(t := Returned (Given True))) h"
proof -
  note I = hist_okD(1) [OF inv] hist_okD(2,3) [OF inv, of t]
  note D = shared_okD [OF I(1)]
  let ?c = "unat (mq_capacity q)"
  have x: "unat x \<le> 2 ^ 62" using I(2) few by (simp add: pc few_tickets_def)
  note T = ticket_turns [OF x, of q]
  have own: "owns_slot (pcs t)" "claim ?c (pcs t) = Some (idx q x, snd (push_claim ?c (unat x)))"
    by (simp_all add: pc ticket_claims(1) [OF D(1)])
  have "hist_ok (store_turn (idx q x) (turn q x * 2 + 1) q) (pcs(t := Returned (Given True))) h"
  proof (rule release_step [OF inv own _ _ refl])
    show "store_turn (idx q x) (turn q x * 2 + 1) q = store_turn (idx q x) (of_nat (snd (push_claim ?c (unat x)) + 1)) q"
      unfolding T(2) ..
    show "snd (push_claim ?c (unat x)) + 1 < 2 ^ 64" using T(4) by simp
    show "sl_storage (mq_slots q ! (n mod ?c)) = pushed h ! n"
      if "(idx q x, snd (push_claim ?c (unat x))) = push_claim ?c n" for n
    proof -
      have "push_claim ?c (unat x) = push_claim ?c n" using that by (simp add: ticket_claims(1) [OF D(1)])
      then have "n = unat x" using D(1) by simp
      then show ?thesis using I(2) by (simp add: pc)
    qed
    show "delivered h n = (if (idx q x, snd (push_claim ?c (unat x))) = pop_claim ?c n
        then Some (pushed h ! n) else delivered h n)" for n
      by (simp add: ticket_claims(1) [OF D(1)])
  qed
  then show ?thesis by (simp add: pc)
qed

lemma pop_release_ok:
  assumes inv: "hist_ok q pcs h" and few: "few_tickets h" and pc: "pcs t = Pop_turn x w"
  shows "\<exists>q'. mq_step q (pcs t) = (q', Returned (Taken (Some w)), Some (Delivered (unat x) w)) \<and>
    hist_ok q' (pcs(t := Returned (Taken (Some w)))) (observe t (Some (Delivered (unat x) w)) h)"
proof -
  note I = hist_okD(1) [OF inv] hist_okD(2,3) [OF inv, of t]
  note D = shared_okD [OF I(1)]
  let ?c = "unat (mq_capacity q)"
  have x: "unat x \<le> 2 ^ 62" using I(2) few by (simp add: pc few_tickets_def)
  note T = ticket_turns [OF x, of q]
  have own: "owns_slot (pcs t)" "claim ?c (pcs t) = Some (idx q x, snd (pop_claim ?c (unat x)))"
    by (simp_all add: pc ticket_claims(1) [OF D(1)] claim_fst(3) [symmetric])
  have claim: "(idx q x, snd (pop_claim ?c (unat x))) = pop_claim ?c (unat x)"
    by (simp add: ticket_claims(1) [OF D(1)] claim_fst(3) [symmetric])
  have "hist_ok (store_turn (idx q x) (turn q x * 2 + 2) q) (pcs(t := Returned (Taken (Some w))))
      (observe t (Some (Delivered (unat x) w)) h)"
    unfolding observe_simps
  proof (rule release_step [OF inv own _ _ refl])
    show "store_turn (idx q x) (turn q x * 2 + 2) q = store_turn (idx q x) (of_nat (snd (pop_claim ?c (unat x)) + 1)) q"
      unfolding T(3) claim_fst(4) by simp
    show "snd (pop_claim ?c (unat x)) + 1 < 2 ^ 64" using T(4) by (simp add: claim_fst(4))
  qed (use I(2) D(1) in \<open>auto simp: claim pc\<close>)
  then show ?thesis by (simp add: pc)
qed

lemma mq_step_ok:
  assumes inv: "hist_ok q pcs h" and run: "\<not> resting (pcs t)" and step: "mq_step q (pcs t) = (q', pc, ev)"
    and few: "few_tickets (observe t ev h)"
  shows "hist_ok q' (pcs(t := pc)) (observe t ev h)"
proof -
  note few0 = few_before [OF few]
  have quiet: ?thesis if "\<exists>pc. mq_step q (pcs t) = (q, pc, None) \<and> hist_ok q (pcs(t := pc)) h"
    using that step by auto
  show ?thesis
  proof (cases "pcs t")
    case (Emplace_ticket v)
    then have "ev = Some (Took_push v)" using step by (simp add: Let_def)
    with push_ticket_ok [OF inv, of t v] few Emplace_ticket step show ?thesis by auto
  next
    case (Try_push_cas v x)
    show ?thesis
    proof (cases "mq_head q = x")
      case True
      then have "ev = Some (Took_push v)" using step Try_push_cas by (simp add: compare_exchange_head_def)
      with push_ticket_ok [OF inv, of t v x] few Try_push_cas True step show ?thesis by auto
    next
      case False
      then show ?thesis using lost_cas_ok [OF inv few0, of t v x] Try_push_cas by (intro quiet) simp
    qed
  next
    case Pop_ticket
    then have "ev = Some Took_pop" using step by (simp add: Let_def)
    with pop_ticket_ok [OF inv, of t] few Pop_ticket step show ?thesis by auto
  next
    case (Try_pop_cas x)
    show ?thesis
    proof (cases "mq_tail q = x")
      case True
      then have "ev = Some Took_pop" using step Try_pop_cas by (simp add: compare_exchange_tail_def)
      with pop_ticket_ok [OF inv, of t x] few Try_pop_cas True step show ?thesis by auto
    next
      case False
      then show ?thesis using lost_cas_ok [OF inv few0, of t _ x] Try_pop_cas by (intro quiet) simp
    qed
  next
    case (Push_construct v x)
    then show ?thesis using construct_step [OF inv Push_construct] step by auto
  next
    case (Push_turn v x)
    then show ?thesis using push_release_ok [OF inv few0 Push_turn] step by auto
  next
    case (Pop_turn x w)
    then show ?thesis using pop_release_ok [OF inv few0 Pop_turn] step by auto
  next
    case (Pop_move x)
    then show ?thesis by (intro quiet move_step_ok [OF inv])
  qed (use run quiet turn_step_ok [OF inv few0, of t] load_step_ok [OF inv few0, of t] in auto)
qed

section \<open>Runs\<close>

lemma mq_step_capacity: "mq_step q pc = (q', pc', ev) \<Longrightarrow> mq_capacity q' = mq_capacity q"
  by (cases pc) (auto simp: Let_def compare_exchange_head_def compare_exchange_tail_def split: if_splits)

lemma Queue_hist_ok:
  assumes "Queue aligned capacity = Inr q"
  shows "hist_ok q (\<lambda>_. Idle) new_history" "mq_capacity q = capacity"
proof -
  have cap: "\<not> capacity < 1" and q: "q = \<lparr>mq_capacity = capacity,
      mq_slots = replicate (unat capacity) \<lparr>sl_turn = 0, sl_storage = 0\<rparr>, mq_head = 0, mq_tail = 0\<rparr>"
    using assms by (auto simp: Queue_def split: if_splits)
  show c: "mq_capacity q = capacity" by (simp add: q)
  have pos: "0 < unat capacity" using cap by (simp add: word_less_nat_alt)
  have now: "now q i = 0" if "i < unat capacity" for i using that by (simp add: now_def q)
  have none: "\<not> is_done q (push_claim (unat capacity) n)" "\<not> is_done q (pop_claim (unat capacity) n)" for n
    using now pos by (simp_all add: is_done_def push_claim_def pop_claim_def)
  have "shared_ok q [] 0 (\<lambda>_. None)"
    by (rule shared_okI) (use pos none now in \<open>simp_all add: c\<close>, simp_all add: q)
  moreover have "claims_ok (unat capacity) q 0 0 (\<lambda>_. Idle)" by (simp add: claims_ok_def issued_def)
  ultimately show "hist_ok q (\<lambda>_. Idle) new_history" by (simp add: mq_ok_def claim_ok_def new_history_def c)
qed

lemma mq_run_ok:
  assumes "mq_run capacity q pcs h" "few_tickets h"
  shows "hist_ok q pcs h" "mq_capacity q = capacity"
proof -
  from assms have "hist_ok q pcs h \<and> mq_capacity q = capacity"
  proof induction
    case (start aligned q)
    then show ?case using Queue_hist_ok by blast
  next
    case (call q pcs h t c)
    then have ok: "hist_ok q pcs h" "mq_capacity q = capacity" by (simp_all add: few_tickets_def)
    have "claim cap (pcs t) = None" for cap using call.hyps(2) by (cases "pcs t") simp_all
    then have "hist_ok q (pcs(t := mq_entry c)) h" by (intro mq_local [OF ok(1)]) (cases c; simp add: claim_ok_def)+
    then show ?case using ok(2) by (simp del: fun_upd_apply)
  next
    case (step q pcs h t q' pc ev)
    then have ok: "hist_ok q pcs h" "mq_capacity q = capacity" using few_before by blast+
    have "hist_ok q' (pcs(t := pc)) (observe t ev h)" by (rule mq_step_ok [OF ok(1)]) (rule step.hyps step.prems)+
    then show ?case using ok(2) mq_step_capacity [OF step.hyps(3)] by (simp del: fun_upd_apply)
  qed
  then show "hist_ok q pcs h" "mq_capacity q = capacity" by blast+
qed

text \<open>What a call has shown at each of its program points.\<close>

fun progress :: "'a mq_pc \<Rightarrow> 'a mq_call option \<Rightarrow> 'a mq_event list \<Rightarrow> bool" where
  "progress Idle c es \<longleftrightarrow> es = []"
| "progress (Returned (Given True)) c es \<longleftrightarrow> (\<exists>v. (c = Some (Push v) \<or> c = Some (TryPush v)) \<and> es = [Took_push v])"
| "progress (Returned (Given False)) c es \<longleftrightarrow> (\<exists>v. c = Some (TryPush v)) \<and> es = []"
| "progress (Returned (Taken None)) c es \<longleftrightarrow> c = Some TryPop \<and> es = []"
| "progress (Returned (Taken (Some w))) c es \<longleftrightarrow> (c = Some Pop \<or> c = Some TryPop) \<and> (\<exists>n. es = [Took_pop, Delivered n w])"
| "progress (Emplace_ticket v) c es \<longleftrightarrow> c = Some (Push v) \<and> es = []"
| "progress (Emplace_wait v x) c es \<longleftrightarrow> c = Some (Push v) \<and> es = [Took_push v]"
| "progress (Try_push_load v) c es \<longleftrightarrow> c = Some (TryPush v) \<and> es = []"
| "progress (Try_push_turn v x) c es \<longleftrightarrow> c = Some (TryPush v) \<and> es = []"
| "progress (Try_push_cas v x) c es \<longleftrightarrow> c = Some (TryPush v) \<and> es = []"
| "progress (Try_push_reload v x) c es \<longleftrightarrow> c = Some (TryPush v) \<and> es = []"
| "progress (Push_construct v x) c es \<longleftrightarrow> (c = Some (Push v) \<or> c = Some (TryPush v)) \<and> es = [Took_push v]"
| "progress (Push_turn v x) c es \<longleftrightarrow> (c = Some (Push v) \<or> c = Some (TryPush v)) \<and> es = [Took_push v]"
| "progress Pop_ticket c es \<longleftrightarrow> c = Some Pop \<and> es = []"
| "progress (Pop_wait x) c es \<longleftrightarrow> c = Some Pop \<and> es = [Took_pop]"
| "progress Try_pop_load c es \<longleftrightarrow> c = Some TryPop \<and> es = []"
| "progress (Try_pop_turn x) c es \<longleftrightarrow> c = Some TryPop \<and> es = []"
| "progress (Try_pop_cas x) c es \<longleftrightarrow> c = Some TryPop \<and> es = []"
| "progress (Try_pop_reload x) c es \<longleftrightarrow> c = Some TryPop \<and> es = []"
| "progress (Pop_move x) c es \<longleftrightarrow> (c = Some Pop \<or> c = Some TryPop) \<and> es = [Took_pop]"
| "progress (Pop_turn x w) c es \<longleftrightarrow> (c = Some Pop \<or> c = Some TryPop) \<and> es = [Took_pop]"

lemma progress_step:
  "progress pc c es \<Longrightarrow> \<not> resting pc \<Longrightarrow> mq_step q pc = (q', pc', ev) \<Longrightarrow>
    progress pc' c (es @ (case ev of None \<Rightarrow> [] | Some e \<Rightarrow> [e]))"
  by (cases pc) (auto simp: Let_def split: if_splits prod.splits)

lemma mq_run_progress:
  assumes "mq_run capacity q pcs h"
  shows "progress (pcs t) (mq_calls h t) (events h t)"
  using assms
proof (induction arbitrary: t)
  case (start aligned q)
  then show ?case by (simp add: new_history_def)
next
  case (call q pcs h u c)
  have "progress (mq_entry c) (Some c) []" by (cases c) simp_all
  with call.IH show ?case by simp
next
  case (step q pcs h u q' pc ev)
  show ?case
  proof (cases "t = u")
    case True
    with progress_step [OF step.IH [of u] step.hyps(2,3)] show ?thesis by (cases ev) simp_all
  next
    case False
    with step.IH [of t] show ?thesis by (cases ev) simp_all
  qed
qed

section \<open>What the invariant says\<close>

text \<open>The slot whose storage the next step of an operation reads or writes.\<close>

fun storage_access :: "'a mpmc_queue \<Rightarrow> 'a mq_pc \<Rightarrow> nat option" where
  "storage_access q (Push_construct v head) = Some (idx q head)"
| "storage_access q (Pop_move tail) = Some (idx q tail)"
| "storage_access q _ = None"

lemma storage_access_apart:
  assumes inv: "mq_ok q pcs P T D" and ne: "t \<noteq> u"
    and acc: "storage_access q (pcs t) = Some i" "storage_access q (pcs u) = Some j"
  shows "i \<noteq> j"
proof -
  note pos = shared_okD(1) [OF hist_okD(1) [OF inv]]
  have own: "owns_slot pc \<and> (\<exists>k. claim (unat (mq_capacity q)) pc = Some (l, k))" if "storage_access q pc = Some l" for pc l
    using that pos by (cases pc) (auto simp: mq_idx push_claim_def pop_claim_def)
  obtain k k' where "claim (unat (mq_capacity q)) (pcs t) = Some (i, k)" "claim (unat (mq_capacity q)) (pcs u) = Some (j, k')"
    using own acc by blast
  then show ?thesis using slots_apart [OF inv ne [symmetric]] own acc by fastforce
qed

lemma delivered_ok:
  assumes "mq_ok q pcs P T D" "D n = Some w"
  shows "n < T \<and> n < length P \<and> w = P ! n"
  using shared_okD(7) [OF hist_okD(1) [OF assms(1)], of n] done_ticket(2) [OF hist_okD(1) [OF assms(1)], of n] assms(2)
  by (auto split: if_splits)

text \<open>With no operation in progress every ticket is done.\<close>

lemma resting_done:
  assumes inv: "mq_ok q pcs P T D" and rest: "\<And>t. resting (pcs t)"
  shows "is_done q (push_claim (unat (mq_capacity q)) n) \<longleftrightarrow> n < length P"
    "is_done q (pop_claim (unat (mq_capacity q)) n) \<longleftrightarrow> n < T"
proof -
  let ?c = "unat (mq_capacity q)"
  note S = hist_okD(1) [OF inv]
  note pos = shared_okD(1) [OF S]
  have none: "claim ?c (pcs t) = None" for t using rest [of t] by (cases "pcs t") simp_all
  have "claims_ok ?c q (length P) T pcs" using inv by (simp add: mq_ok_def)
  then have "issued ?c (length P) T c \<longrightarrow> is_done q c" for c unfolding claims_ok_def none by blast
  then show "is_done q (push_claim ?c n) \<longleftrightarrow> n < length P" "is_done q (pop_claim ?c n) \<longleftrightarrow> n < T"
    using issued_simps(1,2) [OF pos] done_ticket [OF S] by blast+
qed

lemma resting_queue:
  assumes inv: "mq_ok q pcs P T D" and rest: "\<And>t. resting (pcs t)" and few: "length P < 2 ^ 62" "T \<le> 2 ^ 62"
  shows "T \<le> length P" "length P \<le> T + unat (mq_capacity q)" "mq_items q = drop T P"
    "unat (mq_capacity q) < 2 ^ 62 \<Longrightarrow> mq_inv q"
proof -
  let ?c = "unat (mq_capacity q)"
  note S = hist_okD(1) [OF inv]
  note D = shared_okD [OF S]
  note fin = resting_done [OF inv rest]
  show T: "T \<le> length P"
    using done_order [of q ?c "T - 1"] fin by (cases T) auto
  have next_turn: "push_claim ?c (n + ?c) = (fst (pop_claim ?c n), Suc (snd (pop_claim ?c n)))" for n
    using ticket_turn_next [OF D(1), of n] by (simp add: push_claim_def pop_claim_def ticket_turn_def)
  show H: "length P \<le> T + ?c"
  proof (rule ccontr)
    assume "\<not> ?thesis"
    then have "is_done q (push_claim ?c (T + ?c))" using fin(1) by simp
    then have "is_done q (pop_claim ?c T)" by (simp add: is_done_def next_turn)
    then show False using fin(2) by simp
  qed
  have head: "unat (mq_head q) = length P" "unat (mq_tail q) = T"
    using few D(3,4) by (simp_all add: unat_ticket)
  have items: "sl_storage (mq_slots q ! (n mod ?c)) = P ! n" if "T \<le> n" "n < length P" for n
    using D(6) [of n] fin that by simp
  show "mq_items q = drop T P"
    by (rule nth_equalityI) (use items in \<open>auto simp: mq_items_def head\<close>)
  have now: "now q (n mod ?c) = ticket_turn ?c n + (if n < length P then 1 else 0)" if "T \<le> n" "n < T + ?c" for n
  proof (cases "n < length P")
    case True
    then show ?thesis using fin [of n] that by (simp add: is_done_def push_claim_def pop_claim_def ticket_turn_def)
  next
    case False
    then have le: "now q (n mod ?c) \<le> 2 * (n div ?c)" using fin(1) [of n] by (simp add: is_done_def push_claim_def)
    have "2 * (n div ?c) \<le> now q (n mod ?c)"
    proof (cases "n < ?c")
      case False
      then have n: "n = (n - ?c) + ?c" by simp
      then have "n - ?c < T" using that by simp
      then have "is_done q (pop_claim ?c (n - ?c))" using fin(2) by simp
      then have "snd (push_claim ?c n) \<le> now q (fst (push_claim ?c n))"
        using next_turn [of "n - ?c"] n by (simp add: is_done_def)
      then show ?thesis by (simp add: push_claim_def)
    qed simp
    with le False show ?thesis by (simp add: ticket_turn_def)
  qed
  have turns: "sl_turn (mq_slots q ! (n mod ?c)) = of_nat (ticket_turn ?c n + (if n < length P then 1 else 0))"
    if "T \<le> n" "n < T + ?c" for n
    using arg_cong [OF now [OF that], of "of_nat :: nat \<Rightarrow> u64"] by (simp add: now_def)
  show "mq_inv q" if "?c < 2 ^ 62"
    unfolding mq_inv_def Let_def head using D(1,2) T H few(1) that turns by blast
qed

text \<open>When the waiting loops and the refusing tests see their slot's turn.\<close>

lemma undone_push:
  assumes inv: "mq_ok q pcs P T D" and under: "now q (fst (push_claim (unat (mq_capacity q)) n)) < snd (push_claim (unat (mq_capacity q)) n)"
  shows "unat (mq_capacity q) \<le> n \<and> D (n - unat (mq_capacity q)) = None"
proof -
  let ?c = "unat (mq_capacity q)"
  note S = hist_okD(1) [OF inv]
  note D = shared_okD [OF S]
  have c: "?c \<le> n" using under by (cases "n < ?c") (simp_all add: push_claim_def)
  then have "n = (n - ?c) + ?c" by simp
  then have "snd (push_claim ?c n) = Suc (snd (pop_claim ?c (n - ?c)))" "fst (push_claim ?c n) = fst (pop_claim ?c (n - ?c))"
    using ticket_turn_next [OF D(1), of "n - ?c"] by (simp_all add: push_claim_def pop_claim_def ticket_turn_def mod_if le_mod_geq [OF c])
  then have "\<not> is_done q (pop_claim ?c (n - ?c))" using under by (simp add: is_done_def)
  then show ?thesis using c by (simp add: D(7))
qed

lemma undone_pop:
  assumes inv: "mq_ok q pcs P T D" and under: "now q (fst (pop_claim (unat (mq_capacity q)) n)) < snd (pop_claim (unat (mq_capacity q)) n)"
  shows "length P \<le> n \<or> (\<exists>u. claim (unat (mq_capacity q)) (pcs u) = Some (push_claim (unat (mq_capacity q)) n))"
proof -
  let ?c = "unat (mq_capacity q)"
  note S = hist_okD(1) [OF inv]
  note pos = shared_okD(1) [OF S]
  have "\<not> is_done q (push_claim ?c n)" using under by (simp add: is_done_def claim_fst)
  moreover have "\<forall>c. issued ?c (length P) T c \<longrightarrow> is_done q c \<or> (\<exists>u. claim ?c (pcs u) = Some c)"
    using inv unfolding mq_ok_def claims_ok_def by blast
  ultimately show ?thesis using issued_simps(1) [OF pos, of "length P" T n] by (metis not_le)
qed

text \<open>The push ticket whose item an operation has not made available yet.\<close>

fun writing :: "'a mq_pc \<Rightarrow> nat option" where
  "writing (Emplace_wait v head) = Some (unat head)"
| "writing (Push_construct v head) = Some (unat head)"
| "writing (Push_turn v head) = Some (unat head)"
| "writing _ = None"

lemma writing_claim: "0 < cap \<Longrightarrow> claim cap pc = Some (push_claim cap n) \<longleftrightarrow> writing pc = Some n"
  by (cases pc) auto

text \<open>Which step a waiting loop or a test takes next.\<close>

lemma turn_at:
  assumes "hist_ok q pcs h" "few_tickets h" "unat x \<le> length (pushed h) \<or> unat x \<le> popping h"
  shows "turn q x * 2 = sl_turn (mq_slots q ! idx q x) \<longleftrightarrow>
      now q (fst (push_claim (unat (mq_capacity q)) (unat x))) = snd (push_claim (unat (mq_capacity q)) (unat x))"
    "turn q x * 2 + 1 = sl_turn (mq_slots q ! idx q x) \<longleftrightarrow>
      now q (fst (pop_claim (unat (mq_capacity q)) (unat x))) = snd (pop_claim (unat (mq_capacity q)) (unat x))"
proof -
  have "unat x \<le> 2 ^ 62" using assms(2,3) by (auto simp: few_tickets_def)
  note turn = turn_reached [OF this shared_okD(1) [OF hist_okD(1) [OF assms(1)]]]
  show "turn q x * 2 = sl_turn (mq_slots q ! idx q x) \<longleftrightarrow>
      now q (fst (push_claim (unat (mq_capacity q)) (unat x))) = snd (push_claim (unat (mq_capacity q)) (unat x))"
    by (rule turn(1))
  show "turn q x * 2 + 1 = sl_turn (mq_slots q ! idx q x) \<longleftrightarrow>
      now q (fst (pop_claim (unat (mq_capacity q)) (unat x))) = snd (pop_claim (unat (mq_capacity q)) (unat x))"
    by (rule turn(2))
qed

lemma emplace_proceeds:
  assumes inv: "hist_ok q pcs h" and few: "few_tickets h" and pc: "pcs t = Emplace_wait v x"
    and free: "unat x < unat (mq_capacity q) \<or> delivered h (unat x - unat (mq_capacity q)) \<noteq> None"
  shows "mq_step q (pcs t) = (q, Push_construct v x, None)"
proof -
  let ?c = "push_claim (unat (mq_capacity q)) (unat x)"
  have "now q (fst ?c) \<le> snd ?c" using hist_okD(3) [OF inv, of t] pc by (simp add: claim_ok_def)
  moreover have "\<not> now q (fst ?c) < snd ?c" using undone_push [OF inv, of "unat x"] free by auto
  ultimately show ?thesis using turn_at(1) [OF inv few, of x] hist_okD(2) [OF inv, of t] pc by simp
qed

lemma pop_proceeds:
  assumes inv: "hist_ok q pcs h" and few: "few_tickets h" and pc: "pcs t = Pop_wait x"
    and there: "unat x < length (pushed h)" "\<And>u. writing (pcs u) \<noteq> Some (unat x)"
  shows "mq_step q (pcs t) = (q, Pop_move x, None)"
proof -
  let ?c = "pop_claim (unat (mq_capacity q)) (unat x)"
  note pos = shared_okD(1) [OF hist_okD(1) [OF inv]]
  have "now q (fst ?c) \<le> snd ?c" using hist_okD(3) [OF inv, of t] pc by (simp add: claim_ok_def)
  moreover have "\<not> now q (fst ?c) < snd ?c"
    using undone_pop [OF inv, of "unat x"] there unfolding writing_claim [OF pos] by auto
  ultimately show ?thesis using turn_at(2) [OF inv few, of x] hist_okD(2) [OF inv, of t] pc by simp
qed

lemma try_push_refusal:
  assumes inv: "hist_ok q pcs h" and few: "few_tickets h" and pc: "pcs t = Try_push_turn v (mq_head q)"
    and step: "mq_step q (pcs t) = (q, Try_push_reload v (mq_head q), None)"
  shows "unat (mq_capacity q) \<le> length (pushed h) \<and> delivered h (length (pushed h) - unat (mq_capacity q)) = None"
proof -
  let ?c = "push_claim (unat (mq_capacity q)) (length (pushed h))"
  note N = counters [OF inv few]
  have "now q (fst ?c) \<noteq> snd ?c"
    using turn_at(1) [OF inv few, of "mq_head q"] pc step by (auto simp: N split: if_splits)
  moreover have "now q (fst ?c) \<le> snd ?c" using fresh_tickets(1) [OF hist_okD(1) [OF inv]] by (simp add: is_done_def)
  ultimately show ?thesis by (intro undone_push [OF inv]) simp
qed

lemma try_pop_refusal:
  assumes inv: "hist_ok q pcs h" and few: "few_tickets h" and pc: "pcs t = Try_pop_turn (mq_tail q)"
    and step: "mq_step q (pcs t) = (q, Try_pop_reload (mq_tail q), None)"
  shows "length (pushed h) \<le> popping h \<or> (\<exists>u. writing (pcs u) = Some (popping h))"
proof -
  let ?c = "pop_claim (unat (mq_capacity q)) (popping h)"
  note N = counters [OF inv few]
  note pos = shared_okD(1) [OF hist_okD(1) [OF inv]]
  have "now q (fst ?c) \<noteq> snd ?c"
    using turn_at(2) [OF inv few, of "mq_tail q"] pc step by (auto simp: N split: if_splits)
  moreover have "now q (fst ?c) \<le> snd ?c" using fresh_tickets(2) [OF hist_okD(1) [OF inv]] by (simp add: is_done_def)
  ultimately show ?thesis using undone_pop [OF inv, of "popping h"] unfolding writing_claim [OF pos] by simp
qed

lemma delivered_once:
  assumes inv: "hist_ok q pcs h" and run: "\<not> resting (pcs t)" and step: "mq_step q (pcs t) = (q', pc, Some (Delivered n w))"
  shows "delivered h n = None \<and> n < length (pushed h) \<and> w = pushed h ! n"
proof -
  note S = hist_okD(1) [OF inv]
  obtain x where pc: "pcs t = Pop_turn x w" "n = unat x"
    using run step by (cases "pcs t") (auto simp: Let_def split: if_splits prod.splits)
  have "\<not> is_done q (pop_claim (unat (mq_capacity q)) n)"
    using hist_okD(3) [OF inv, of t] pc by (simp add: claim_ok_def is_done_def)
  then show ?thesis using hist_okD(2) [OF inv, of t] pc by (simp add: shared_okD(7) [OF S])
qed

section \<open>Properties\<close>

text \<open>
  C9: In every interleaving of pushes and pops, blocking or not, by any number of threads, that takes at most
  \<open>2 ^ 62\<close> push tickets and as many pop tickets, the queue is first-in
  first-out by ticket: the item a pop takes is the one of the push with the same ticket, each ticket's item is handed
  out at most once, and at no time do two threads access the same slot's storage.  A call that returns true has taken one
  push ticket for its item, one that returns an item has taken one pop ticket and been handed the item, and one that
  refuses has done neither.  When no call is in progress, the queue holds exactly the items pushed and not popped,
  in order, in the state the calls run one at a time leave behind.
\<close>

theorem concurrent_mailbox:
  assumes "mq_run capacity q pcs h" "few_tickets h"
  shows "(\<forall>n w. delivered h n = Some w \<longrightarrow> n < popping h \<and> n < length (pushed h) \<and> w = pushed h ! n)
    \<and> (\<forall>t q' pc n w. \<not> resting (pcs t) \<and> mq_step q (pcs t) = (q', pc, Some (Delivered n w)) \<longrightarrow>
        delivered h n = None \<and> n < length (pushed h) \<and> w = pushed h ! n)
    \<and> (\<forall>t u i. t \<noteq> u \<and> storage_access q (pcs t) = Some i \<longrightarrow> storage_access q (pcs u) \<noteq> Some i)
    \<and> (\<forall>t. progress (pcs t) (mq_calls h t) (events h t))
    \<and> ((\<forall>t. resting (pcs t)) \<and> length (pushed h) < 2 ^ 62 \<and> unat capacity < 2 ^ 62 \<longrightarrow>
        mq_inv q \<and> mq_items q = drop (popping h) (pushed h) \<and> dom (delivered h) = {..<popping h})"
proof (intro conjI)
  note inv = mq_run_ok [OF assms]
  note S = hist_okD(1) [OF inv(1)]
  show "\<forall>n w. delivered h n = Some w \<longrightarrow> n < popping h \<and> n < length (pushed h) \<and> w = pushed h ! n"
    using delivered_ok [OF inv(1)] by blast
  show "\<forall>t q' pc n w. \<not> resting (pcs t) \<and> mq_step q (pcs t) = (q', pc, Some (Delivered n w)) \<longrightarrow>
        delivered h n = None \<and> n < length (pushed h) \<and> w = pushed h ! n"
    using delivered_once [OF inv(1)] by blast
  show "\<forall>t u i. t \<noteq> u \<and> storage_access q (pcs t) = Some i \<longrightarrow> storage_access q (pcs u) \<noteq> Some i"
    using storage_access_apart [OF inv(1)] by blast
  show "\<forall>t. progress (pcs t) (mq_calls h t) (events h t)" using mq_run_progress [OF assms(1)] by blast
  show "(\<forall>t. resting (pcs t)) \<and> length (pushed h) < 2 ^ 62 \<and> unat capacity < 2 ^ 62 \<longrightarrow>
        mq_inv q \<and> mq_items q = drop (popping h) (pushed h) \<and> dom (delivered h) = {..<popping h}"
    using resting_queue [OF inv(1)] resting_done(2) [OF inv(1)] assms(2) inv(2)
    by (auto simp: few_tickets_def shared_okD(7) [OF S] split: if_splits)
qed

text \<open>
  C10: A waiting call goes on as soon as it may: a push waits only until the item that was in its slot before has been
  handed out, a pop only until the push with its ticket has made its item available.  A call is refused only for
  cause: when \<open>try_push\<close> with the current head finds its slot taken, at least as many items as fit have been pushed
  and the one pushed that many tickets before the head has not been handed out (later ones may have been), and when
  \<open>try_pop\<close> with the current tail finds its slot not ready, the next item has not been pushed or is still being
  written.  At most \<open>2 ^ 62\<close> tickets of each kind have been taken.
\<close>

theorem mailbox_waits_for_cause:
  assumes "mq_run capacity q pcs h" "few_tickets h"
  shows "(\<forall>t v x. pcs t = Emplace_wait v x \<and> (unat x < unat capacity \<or> delivered h (unat x - unat capacity) \<noteq> None) \<longrightarrow>
        mq_step q (pcs t) = (q, Push_construct v x, None))
    \<and> (\<forall>t x. pcs t = Pop_wait x \<and> unat x < length (pushed h) \<and> (\<forall>u. writing (pcs u) \<noteq> Some (unat x)) \<longrightarrow>
        mq_step q (pcs t) = (q, Pop_move x, None))
    \<and> (\<forall>t v. pcs t = Try_push_turn v (mq_head q) \<and> mq_step q (pcs t) = (q, Try_push_reload v (mq_head q), None) \<longrightarrow>
        unat capacity \<le> length (pushed h) \<and> delivered h (length (pushed h) - unat capacity) = None)
    \<and> (\<forall>t. pcs t = Try_pop_turn (mq_tail q) \<and> mq_step q (pcs t) = (q, Try_pop_reload (mq_tail q), None) \<longrightarrow>
        length (pushed h) \<le> popping h \<or> (\<exists>u. writing (pcs u) = Some (popping h)))"
proof (intro conjI)
  note inv = mq_run_ok [OF assms]
  show "\<forall>t v x. pcs t = Emplace_wait v x \<and> (unat x < unat capacity \<or> delivered h (unat x - unat capacity) \<noteq> None) \<longrightarrow>
        mq_step q (pcs t) = (q, Push_construct v x, None)"
    using emplace_proceeds [OF inv(1) assms(2)] unfolding inv(2) by blast
  show "\<forall>t x. pcs t = Pop_wait x \<and> unat x < length (pushed h) \<and> (\<forall>u. writing (pcs u) \<noteq> Some (unat x)) \<longrightarrow>
        mq_step q (pcs t) = (q, Pop_move x, None)"
    using pop_proceeds [OF inv(1) assms(2)] by blast
  show "\<forall>t v. pcs t = Try_push_turn v (mq_head q) \<and> mq_step q (pcs t) = (q, Try_push_reload v (mq_head q), None) \<longrightarrow>
        unat capacity \<le> length (pushed h) \<and> delivered h (length (pushed h) - unat capacity) = None"
    using try_push_refusal [OF inv(1) assms(2)] unfolding inv(2) by blast
  show "\<forall>t. pcs t = Try_pop_turn (mq_tail q) \<and> mq_step q (pcs t) = (q, Try_pop_reload (mq_tail q), None) \<longrightarrow>
        length (pushed h) \<le> popping h \<or> (\<exists>u. writing (pcs u) = Some (popping h))"
    using try_pop_refusal [OF inv(1) assms(2)] by blast
qed

section \<open>Witnesses\<close>

text \<open>Runs given by a list of moves: calls, and steps of a thread.\<close>

datatype 'a mq_move = Call nat "'a mq_call" | Step nat

fun mq_do :: "'a mpmc_queue \<times> (nat \<Rightarrow> 'a mq_pc) \<times> 'a history \<Rightarrow> 'a mq_move \<Rightarrow>
    ('a mpmc_queue \<times> (nat \<Rightarrow> 'a mq_pc) \<times> 'a history) option" where
  "mq_do (q, pcs, h) (Call t c) =
     (if resting (pcs t)
      then Some (q, pcs(t := mq_entry c), h\<lparr>mq_calls := (mq_calls h)(t \<mapsto> c), events := (events h)(t := [])\<rparr>) else None)"
| "mq_do (q, pcs, h) (Step t) =
     (if resting (pcs t) then None
      else case mq_step q (pcs t) of (q', pc, ev) \<Rightarrow> Some (q', pcs(t := pc), observe t ev h))"

fun mq_moves where
  "mq_moves s [] = Some s"
| "mq_moves s (m # ms) = (case mq_do s m of None \<Rightarrow> None | Some s' \<Rightarrow> mq_moves s' ms)"

lemma mq_do_run:
  "mq_run capacity q pcs h \<Longrightarrow> mq_do (q, pcs, h) m = Some (q', pcs', h') \<Longrightarrow> mq_run capacity q' pcs' h'"
  by (cases m) (auto split: if_splits prod.splits intro: mq_run.call mq_run.step)

lemma mq_moves_run:
  "mq_run capacity q pcs h \<Longrightarrow> mq_moves (q, pcs, h) ms = Some (q', pcs', h') \<Longrightarrow> mq_run capacity q' pcs' h'"
proof (induction ms arbitrary: q pcs h)
  case (Cons m ms)
  then show ?case by (auto split: option.splits dest: mq_do_run)
qed simp

text \<open>
  Thread 1 calls \<open>pop\<close> on an empty queue and waits; thread 0 pushes an item.  In the first list thread 1 has not
  looked again, in the second it has taken the item, and a third thread's \<open>try_pop\<close> has been refused.
\<close>

definition waiting_moves :: "u64 mq_move list" where
  "waiting_moves = [Call 1 Pop, Step 1, Step 1, Call 0 (Push 7), Step 0, Step 0, Step 1, Step 0, Step 0]"

definition serving_moves :: "u64 mq_move list" where
  "serving_moves = waiting_moves @ [Step 1, Step 1, Call 2 TryPop, Step 2, Step 2, Step 1, Step 2]"

lemma mailbox2_start: "mq_run 2 mailbox2 (\<lambda>_. Idle) new_history"
  by (rule mq_run.start [OF mailbox2])

lemmas mailbox_eval = mailbox2_def new_history_def waiting_moves_def serving_moves_def observe_def construct_slot_def
  store_turn_def idx_def turn_def compare_exchange_head_def compare_exchange_tail_def

theorem concurrent_mailbox_witness:
  "\<exists>q pcs h. mq_run 2 q pcs h \<and> pushed h = [7::u64] \<and> delivered h 0 = Some 7 \<and>
    pcs 1 = Returned (Taken (Some 7)) \<and> pcs 2 = Returned (Taken None) \<and> mq_inv q \<and> mq_items q = []"
proof -
  obtain q pcs h where m: "mq_moves (mailbox2, (\<lambda>_. Idle), new_history) serving_moves = Some (q, pcs, h)"
    and h: "pushed h = [7]" "popping h = 1" "delivered h 0 = Some 7"
    and p: "pcs 1 = Returned (Taken (Some 7))" "pcs 2 = Returned (Taken None)" "\<forall>t. resting (pcs t)"
    by (simp add: mailbox_eval)
  note run = mq_moves_run [OF mailbox2_start m]
  have "few_tickets h" by (simp add: few_tickets_def h)
  from concurrent_mailbox [OF run this] have "mq_inv q \<and> mq_items q = []" using p(3) by (simp add: h)
  then show ?thesis using run h p by blast
qed

theorem mailbox_waits_for_cause_witness:
  "\<exists>q pcs h x. mq_run 2 q pcs h \<and> pcs 1 = Pop_wait x \<and> pushed h = [7::u64] \<and>
    mq_step q (pcs 1) = (q, Pop_move x, None)"
proof -
  obtain q pcs h where m: "mq_moves (mailbox2, (\<lambda>_. Idle), new_history) waiting_moves = Some (q, pcs, h)"
    and h: "pushed h = [7]" "popping h = 1" and p: "pcs 1 = Pop_wait 0" "\<forall>t. writing (pcs t) = None"
    by (simp add: mailbox_eval)
  note run = mq_moves_run [OF mailbox2_start m]
  have "few_tickets h" by (simp add: few_tickets_def h)
  from mailbox_waits_for_cause [OF run this] have "mq_step q (pcs 1) = (q, Pop_move 0, None)" using p by (simp add: h)
  then show ?thesis using run h(1) p(1) by blast
qed

end
