(* ===== verification/Parallel_Modes.thy ===== *)
theory Parallel_Modes
  imports Loop_Contract Trapper
begin

text \<open>
  \<open>ParallelFor\<close> of src/include/parallel\_for.h in the modes whose loops the repository itself runs: \<open>SERIAL\<close>, the
  \<open>EIGEN\<close> modes, \<open>TBB_RAPID\<close> on the trapped threads of rapid\_start.h, and the other \<open>TBB\<close> modes, in which the
  library cuts the range and the code runs the pieces.  How the library cuts is a parameter: any pieces that
  halving the range again and again can give.  In the \<open>OMP\<close>, \<open>TASKFLOW\<close> and \<open>HPX\<close> modes the library runs the
  loop itself and nothing is left to show.
\<close>

section \<open>Loops that run at once\<close>

text \<open>The orders in which loops that run on different threads can run their iterations.\<close>

fun interleavings :: "'a list list \<Rightarrow> 'a list set" where
  "interleavings [] = {[]}"
| "interleavings (xs # xss) = (\<Union>ys \<in> interleavings xss. shuffles xs ys)"

lemma concat_interleaving: "concat xss \<in> interleavings xss"
proof (induction xss)
  case (Cons xs xss)
  have append: "xs @ ys \<in> shuffles xs ys" for ys :: "'a list"
    by (induction xs) (simp_all add: Cons_in_shuffles_iff)
  have "xs @ concat xss \<in> shuffles xs (concat xss)" by (rule append)
  with Cons show ?case by auto
qed simp

lemma mset_interleaving: "xs \<in> interleavings xss \<Longrightarrow> mset xs = mset (concat xss)"
proof (induction xss arbitrary: xs)
  case (Cons ys xss)
  then obtain zs where zs: "zs \<in> interleavings xss" "xs \<in> shuffles ys zs" by auto
  have "mset xs = mset ys + mset zs" using zs(2) by (rule mset_shuffles)
  with Cons.IH [OF zs(1)] show ?case by simp
qed simp

text \<open>The loop \<open>for (i = from; i != to; ++i)\<close> over one piece of the range.\<close>

function block_loop :: "u64 \<Rightarrow> u64 \<Rightarrow> u64 list" where
  "block_loop i to = (if i \<noteq> to then i # block_loop (i + 1) to else [])"
  by pat_completeness auto
termination
proof (relation "measure (\<lambda>(i, to). unat (to - i))")
  fix i to :: u64
  assume "i \<noteq> to"
  then have ne: "to - i \<noteq> 0" by simp
  then have "0 < unat (to - i)" by (simp add: unat_gt_0)
  moreover have "unat (to - (i + 1)) = unat (to - i) - 1" using unat_minus_one [OF ne] by (simp only: diff_diff_eq)
  ultimately show "((i + 1, to), i, to) \<in> measure (\<lambda>(i, to). unat (to - i))" by simp
qed simp

declare block_loop.simps [simp del]

lemma block_loop_indices: "from \<le> to \<Longrightarrow> block_loop from to = indices from to"
proof (induction "from" to rule: block_loop.induct)
  case (1 i to)
  show ?case
  proof (cases "i = to")
    case True
    then show ?thesis by (subst block_loop.simps) (simp add: indices_Nil)
  next
    case False
    with 1(2) have lt: "i < to" by simp
    then have "i + 1 \<le> to" using u64_Suc [of i to] lt by (simp add: word_less_nat_alt word_le_nat_alt)
    then have "block_loop (i + 1) to = indices (i + 1) to" by (rule 1(1) [OF False])
    then show ?thesis unfolding block_loop.simps [of i to] indices_Cons [OF lt] using False by simp
  qed
qed

section \<open>The TBB modes\<close>

text \<open>The pieces of a range that splitting constructors can give: a range is kept or cut in two.\<close>

inductive range_split :: "u64 \<Rightarrow> u64 \<Rightarrow> (u64 \<times> u64) list \<Rightarrow> bool" where
  keep: "range_split from to [(from, to)]"
| cut: "from \<le> mid \<Longrightarrow> mid \<le> to \<Longrightarrow> range_split from mid xs \<Longrightarrow> range_split mid to ys \<Longrightarrow>
    range_split from to (xs @ ys)"

definition tbb_order :: "(u64 \<times> u64) list \<Rightarrow> u64 list \<Rightarrow> bool" where
  "tbb_order pieces xs \<longleftrightarrow> xs \<in> interleavings (map (\<lambda>(begin_at, end_at). block_loop begin_at end_at) pieces)"

lemma range_split_indices:
  assumes "range_split from to pieces" "from \<le> to"
  shows "concat (map (\<lambda>(begin_at, end_at). block_loop begin_at end_at) pieces) = indices from to"
  using assms
proof induction
  case (keep "from" to)
  then show ?case by (simp add: block_loop_indices)
next
  case (cut "from" mid to xs ys)
  then show ?case by (simp add: indices_append)
qed

section \<open>TBB\_RAPID\<close>

text \<open>\<open>size_t\<close> to \<open>int\<close> and back, as the implicit conversions of the call and of the lambda do it.\<close>

definition size_to_int :: "u64 \<Rightarrow> int" where
  "size_to_int x = sint (ucast x :: 32 word)"

definition int_to_size :: "int \<Rightarrow> u64" where
  "int_to_size x = of_int x"

text \<open>The loop the lambda runs over the part of one slot; \<open>int\<close> overflow is undefined and runs nothing here.\<close>

definition rapid_body :: "int \<Rightarrow> int \<Rightarrow> nat \<Rightarrow> u64 \<Rightarrow> u64 list" where
  "rapid_body my_start my_end slot msk =
     (case run my_start my_end slot msk of
        None \<Rightarrow> []
      | Some (from, to, _) \<Rightarrow> block_loop (int_to_size from) (int_to_size to))"

text \<open>
  The caller spreads the job \<open>f\<close> over the trapped threads of \<open>g0\<close>; the parts that have run when it returns are
  loops that ran at once.
\<close>

definition rapid_order :: "nat \<Rightarrow> rapid_start \<Rightarrow> u64 \<Rightarrow> u64 \<Rightarrow> u64 list \<Rightarrow> bool" where
  "rapid_order f g0 from to xs \<longleftrightarrow>
     (\<exists>t g new. (Trapper.step ^^ t) (spread_work f g0) g \<and> caller g = Idle \<and> runs g = runs g0 @ new \<and>
        xs \<in> interleavings (map (\<lambda>(job, slot, msk). rapid_body (size_to_int from) (size_to_int to) slot msk) new))"

lemma size_to_int: "unat x < 2 ^ 31 \<Longrightarrow> size_to_int x = int (unat x)"
proof -
  define n where "n = unat x"
  assume "unat x < 2 ^ 31"
  then have "n < 2 ^ 31" by (simp add: n_def)
  then have "signed_take_bit 31 (int n) = int n" by (intro signed_take_bit_int_eq_self) simp_all
  moreover have "uint x = int n" by (simp add: n_def)
  ultimately show ?thesis unfolding size_to_int_def signed_ucast_eq n_def [symmetric] by simp
qed

lemma int_to_size: "0 \<le> a \<Longrightarrow> a < 2 ^ 31 \<Longrightarrow> int_to_size a = of_nat (nat a)"
  by (simp add: int_to_size_def)

lemma unat_int_to_size: "0 \<le> a \<Longrightarrow> a < 2 ^ 31 \<Longrightarrow> unat (int_to_size a) = nat a"
proof -
  assume a: "0 \<le> a" "a < 2 ^ 31"
  then have "nat a < 2 ^ 64" by simp
  then show ?thesis unfolding int_to_size [OF a] by (simp only: unat_of_nat) simp
qed

lemma upto_nats: "0 \<le> a \<Longrightarrow> map int [nat a..<nat b] = [a..b - 1]"
proof (induction "nat b - nat a" arbitrary: a)
  case (Suc n)
  then have lt: "a < b" by simp
  have "nat (a + 1) = Suc (nat a)" using Suc.prems by simp
  moreover have "n = nat b - nat (a + 1)" using Suc.hyps(2) Suc.prems by simp
  then have "map int [nat (a + 1)..<nat b] = [a + 1..b - 1]" using Suc.prems by (intro Suc.hyps(1)) simp_all
  ultimately show ?case using lt Suc.prems by (simp add: upt_conv_Cons upto_rec1)
qed simp

lemma block_loop_ints:
  assumes "0 \<le> a" "a \<le> b" "b < 2 ^ 31"
  shows "block_loop (int_to_size a) (int_to_size b) = map int_to_size [a..b - 1]"
proof -
  have u: "unat (int_to_size a) = nat a" "unat (int_to_size b) = nat b" using assms by (simp_all add: unat_int_to_size)
  have "int_to_size a \<le> int_to_size b" using assms(2) by (simp add: word_le_nat_alt u nat_mono)
  then have "block_loop (int_to_size a) (int_to_size b) = map of_nat [nat a..<nat b]"
    by (simp add: block_loop_indices indices_def u)
  also have "\<dots> = map int_to_size (map int [nat a..<nat b])" by (simp add: int_to_size_def)
  finally show ?thesis using upto_nats [OF assms(1), of b] by simp
qed

lemma run_any:
  assumes "int_range my_start my_end"
  shows "\<exists>a b n. run my_start my_end slot msk = Some (a, b, n) \<and> my_start \<le> a \<and> a \<le> b \<and> b \<le> my_end"
proof -
  obtain p parts where pp: "run_part slot msk = (p, parts)" by fastforce
  have parts: "parts = 1 + int (length (slots_below msk 64))" using pp by (simp add: run_part_slot)
  have "0 \<le> p \<and> p < parts"
  proof (cases "slot \<in> set (slots_below msk 64)")
    case True
    then have "p \<in> set (map (\<lambda>slot. fst (run_part slot msk)) (0 # slots_below msk 64))" using pp by force
    then show ?thesis unfolding run_part_slots using parts by (auto simp del: upt_Suc)
  next
    case False
    then show ?thesis using pp by (simp add: run_part_slot)
  qed
  then have p: "0 < parts" "0 \<le> p" "p < parts" "p \<le> p + 1" "p + 1 \<le> parts" by simp_all
  have le: "my_start \<le> my_end" using assms by (simp add: int_range_def)
  have "my_start \<le> bound my_start my_end parts p" "bound my_start my_end parts (p + 1) \<le> my_end"
    using bound_mono [OF le p(1,2)] bound_mono [OF le p(1,5)] bound_ends [OF p(1)] by simp_all
  then show ?thesis
    using execute_ok [OF assms p(1-3)] bound_mono [OF le p(1,4)] by (simp add: run_def pp)
qed

lemma rapid_body_iterations:
  assumes "int_range my_start my_end" "0 \<le> my_start"
  shows "rapid_body my_start my_end slot msk = map int_to_size (iterations my_start my_end slot msk)"
proof -
  obtain a b n where r: "run my_start my_end slot msk = Some (a, b, n)" "my_start \<le> a" "a \<le> b" "b \<le> my_end"
    using run_any [OF assms(1)] by blast
  have "my_end < 2 ^ 31" using assms(1) by (simp add: int_range_def)
  then show ?thesis using r assms(2) by (simp add: rapid_body_def iterations_def block_loop_ints)
qed

lemma rapid_spread_returns:
  assumes g0: "settled g0" and range: "int_range my_start my_end" and steps: "(Trapper.step ^^ t) (spread_work f g0) g"
  shows "\<exists>t g. (Trapper.step ^^ t) (spread_work f g0) g \<and> caller g = Idle"
  using steps
proof (induction "9 + 6 * (slots g0 - 1) - t" arbitrary: t g rule: less_induct)
  case less
  note S = spread_work_ok [OF g0 range]
  show ?case
  proof (cases "caller g = Idle")
    case False
    then obtain g' where "Trapper.step g g'" using S(2) [OF less.prems] by blast
    then have more: "(Trapper.step ^^ Suc t) (spread_work f g0) g'" using less.prems by auto
    have "9 + 6 * (slots g0 - 1) - Suc t < 9 + 6 * (slots g0 - 1) - t" using S(1) [OF more] by simp
    then show ?thesis using more by (rule less.hyps)
  qed (use less.prems in blast)
qed

lemma rapid_order_ok:
  assumes g0: "settled g0" and le: "from \<le> to" and small: "unat to < 2 ^ 31"
  shows "rapid_order f g0 from to xs \<Longrightarrow> mset xs = mset (indices from to)" "\<exists>xs. rapid_order f g0 from to xs"
proof -
  let ?a = "size_to_int from" and ?b = "size_to_int to"
  define m n where "m = unat from" and "n = unat to"
  have mn: "m \<le> n" "n < 2 ^ 31" using le small by (simp_all add: m_def n_def word_le_nat_alt)
  then have a: "?a = int m" "?b = int n"
    using size_to_int [of "from"] size_to_int [of to] by (simp_all add: m_def n_def)
  have b: "?b < 2 ^ 31" using mn(2) unfolding a by simp
  have range: "int_range ?a ?b" "0 \<le> ?a" using mn by (simp_all add: a int_range_def)
  have conv: "int_to_size ?a = from" "int_to_size ?b = to" unfolding a by (simp_all add: m_def n_def int_to_size_def)
  have body: "concat (map (\<lambda>(job :: nat, slot, msk). rapid_body ?a ?b slot msk) new) =
      map int_to_size (concat (map (\<lambda>(job, slot, msk). iterations ?a ?b slot msk) new))" for new
    by (induction new) (auto simp: rapid_body_iterations [OF range])
  have ints: "map int_to_size [?a..?b - 1] = indices from to"
    using block_loop_ints [OF range(2) _ b] mn(1) block_loop_indices [OF le] unfolding conv by (simp add: a)
  show "mset xs = mset (indices from to)" if ord: "rapid_order f g0 from to xs"
  proof -
    obtain t g new where run: "(Trapper.step ^^ t) (spread_work f g0) g" "caller g = Idle" "runs g = runs g0 @ new"
      and xs: "xs \<in> interleavings (map (\<lambda>(job, slot, msk). rapid_body ?a ?b slot msk) new)"
      using ord unfolding rapid_order_def by blast
    have "mset (concat (map (\<lambda>(job, slot, msk). iterations ?a ?b slot msk) new)) = mset [?a..?b - 1]"
      using spread_work_ok(3) [OF g0 range(1) run(1,2)] run(3) by auto
    then have "mset (map int_to_size (concat (map (\<lambda>(job, slot, msk). iterations ?a ?b slot msk) new))) =
        mset (map int_to_size [?a..?b - 1])" by (simp only: mset_map)
    then show ?thesis using mset_interleaving [OF xs] unfolding body ints by simp
  qed
  obtain t g where run: "(Trapper.step ^^ t) (spread_work f g0) g" "caller g = Idle"
    using rapid_spread_returns [OF g0 range(1), of 0 f "spread_work f g0"] by auto
  then obtain new where "runs g = runs g0 @ new" using spread_work_ok(3) [OF g0 range(1) run] by blast
  then show "\<exists>xs. rapid_order f g0 from to xs"
    using run concat_interleaving unfolding rapid_order_def by blast
qed

section \<open>All modes\<close>

datatype loop_mode =
    Serial
  | Tbb "(u64 \<times> u64) list"
  | Tbb_rapid nat rapid_start
  | Eigen u64 mode bool u64

fun loop_order :: "loop_mode \<Rightarrow> u64 \<Rightarrow> u64 \<Rightarrow> u64 \<Rightarrow> u64 list \<Rightarrow> bool" where
  "loop_order Serial grainSize from to xs \<longleftrightarrow> xs = serial_loop from to"
| "loop_order (Tbb pieces) grainSize from to xs \<longleftrightarrow> tbb_order pieces xs"
| "loop_order (Tbb_rapid f g0) grainSize from to xs \<longleftrightarrow> rapid_order f g0 from to xs"
| "loop_order (Eigen now m stack_empty threads) grainSize from to xs \<longleftrightarrow>
     eigen_order now m stack_empty threads grainSize from to xs"

fun loop_fits :: "loop_mode \<Rightarrow> u64 \<Rightarrow> u64 \<Rightarrow> u64 \<Rightarrow> bool" where
  "loop_fits Serial grainSize from to \<longleftrightarrow> True"
| "loop_fits (Tbb pieces) grainSize from to \<longleftrightarrow> from \<le> to \<and> range_split from to pieces"
| "loop_fits (Tbb_rapid f g0) grainSize from to \<longleftrightarrow> settled g0 \<and> from \<le> to \<and> unat to < 2 ^ 31"
| "loop_fits (Eigen now m stack_empty threads) grainSize from to \<longleftrightarrow> loop_ok threads from to grainSize"

interpretation loops: parallel_loop "loop_fits mode grainSize" "loop_order mode grainSize" for mode grainSize
proof
  fix "from" to :: u64 and xs
  assume fits: "loop_fits mode grainSize from to"
  show "mset xs = mset (indices from to)" if "loop_order mode grainSize from to xs"
  proof (cases mode)
    case (Tbb pieces)
    then show ?thesis
      using that fits range_split_indices mset_interleaving by (fastforce simp: tbb_order_def)
  qed (use that fits serial.order_perm rapid_order_ok(1) eigen.order_perm in auto)
  show "\<exists>xs. loop_order mode grainSize from to xs"
  proof (cases mode)
    case (Tbb pieces)
    then show ?thesis using concat_interleaving by (auto simp: tbb_order_def)
  qed (use fits serial.order_exists rapid_order_ok(2) eigen.order_exists in auto)
qed

text \<open>
  The bounds of the range become \<open>int\<close>s on the way to \<open>parallel_ranges\<close>: a loop of \<open>2 ^ 32\<close> iterations
  runs none.
\<close>

lemma rapid_narrows:
  assumes "settled g0" "rapid_order f g0 0 (2 ^ 32) xs"
  shows "xs = []"
proof -
  have ints: "size_to_int 0 = 0" "size_to_int (2 ^ 32) = 0" by (simp_all add: size_to_int_def)
  obtain t g new where run: "(Trapper.step ^^ t) (spread_work f g0) g" "caller g = Idle" "runs g = runs g0 @ new"
    and xs: "xs \<in> interleavings (map (\<lambda>(job, slot, msk). rapid_body 0 0 slot msk) new)"
    using assms(2) unfolding rapid_order_def ints by blast
  have range: "int_range 0 0" by (simp add: int_range_def)
  have "mset (concat (map (\<lambda>(job, slot, msk). iterations 0 0 slot msk) new)) = mset [0..0 - 1]"
    using spread_work_ok(3) [OF assms(1) range run(1,2)] run(3) by auto
  then have "concat (map (\<lambda>(job, slot, msk). iterations 0 0 slot msk) new) = []" by simp
  then have "concat (map (\<lambda>(job :: nat, slot, msk). rapid_body 0 0 slot msk) new) = []"
    using rapid_body_iterations [OF range] by auto
  then have "mset xs = {#}" unfolding mset_interleaving [OF xs] by (simp only: mset.simps)
  then show ?thesis by simp
qed

section \<open>Property\<close>

text \<open>
  C12: \<open>ParallelFor\<close> can be run to its end in each of these modes on a range it can take, and in whatever order
  its threads run the iterations, each index of the range is run exactly once; so for loop bodies that commute
  with each other any two modes compute the same.  The ranges are all of them for \<open>SERIAL\<close>, those with
  \<open>from \<le> to\<close> for \<open>TBB\<close>, those that fit into an \<open>int\<close> for \<open>TBB_RAPID\<close>, and those of \<open>loop_ok\<close> for \<open>EIGEN\<close>.
\<close>

theorem modes_agree:
  assumes "loop_fits m1 grainSize from to" "loop_fits m2 grainSize from to" "commuting body from to"
  shows "(\<exists>xs. loop_order m1 grainSize from to xs)
    \<and> (\<forall>xs. loop_order m1 grainSize from to xs \<longrightarrow> distinct xs \<and> (\<forall>i. i \<in> set xs \<longleftrightarrow> from \<le> i \<and> i < to))
    \<and> (\<forall>xs ys. loop_order m1 grainSize from to xs \<and> loop_order m2 grainSize from to ys \<longrightarrow>
         fold body xs s = fold body ys s)"
  using loops.order_exists [OF assms(1)] loops.order_distinct [OF assms(1)] loops.order_set [OF assms(1)]
    loops.commuting_serial [OF assms(1) _ assms(3)] loops.commuting_serial [OF assms(2) _ assms(3)]
  by simp

theorem modes_agree_witness:
  "\<exists>g0 xs. loop_order (Tbb_rapid 7 g0) 1 0 2 xs \<and> set xs = {0, 1} \<and>
    fold (\<lambda>i (s :: u64). s + i) xs 5 = fold (\<lambda>i s. s + i) [1, 0] 5"
proof -
  obtain g0 where "Trapper.step\<^sup>*\<^sup>* (init 3 RapidStart) g0" "settled g0" using settled_reachable [of 3] by auto
  then have fits: "loop_fits (Tbb_rapid 7 g0) 1 0 2" by simp
  have eigen: "loop_fits (Eigen 205000 EIGEN_SHARING True 2) 1 0 2"
    "loop_order (Eigen 205000 EIGEN_SHARING True 2) 1 0 2 [1, 0]"
    using two_ok two_order by simp_all
  have "commuting (\<lambda>i (s :: u64). s + i) 0 2" by (simp add: commuting_def)
  note agree = modes_agree [OF fits eigen(1) this, of 5]
  then obtain xs where xs: "loop_order (Tbb_rapid 7 g0) 1 0 2 xs" by blast
  have "i \<in> set xs \<longleftrightarrow> i = 0 \<or> i = 1" for i :: u64
  proof -
    have "i < 2 \<longleftrightarrow> unat i = 0 \<or> unat i = 1" by (auto simp: word_less_nat_alt)
    then have "i < 2 \<longleftrightarrow> i = 0 \<or> i = 1" by (simp add: word_unat_eq_iff)
    then show ?thesis using agree xs by simp
  qed
  then have "set xs = {0, 1}" by auto
  then show ?thesis using agree xs eigen(2) by blast
qed

end
