(* ===== verification/Task_Store.thy ===== *)
theory Task_Store
  imports Run_Queue_Conc Mpmc_Conc
begin

text \<open>
  What the thread pool relies on in its queues when all its threads use them at once: no task is lost in a
  queue, none comes out twice, and while a call is in progress its task is in the hand of exactly one thread.
  The locale \<open>task_store\<close> states this; it is interpreted on the concurrent deque and on the concurrent mailbox.
\<close>

section \<open>The contract\<close>

datatype store_op = Put u64 | Get

datatype store_res = Stored bool | Got u64

text \<open>What a call has in hand when it begins, and when it has returned.\<close>

definition offered :: "store_op \<Rightarrow> u64 multiset" where
  "offered op = (case op of Put w \<Rightarrow> {#w#} | Get \<Rightarrow> {#})"

definition settled :: "store_op \<Rightarrow> store_res \<Rightarrow> u64 multiset \<Rightarrow> bool" where
  "settled op r M \<longleftrightarrow>
     (case op of
        Put w \<Rightarrow> \<exists>b. r = Stored b \<and> M = (if b then {#} else {#w#})
      | Get \<Rightarrow> \<exists>y. r = Got y \<and> M = (if y = 0 then {#} else {#y#}))"

text \<open>A sum in which one term changes.\<close>

lemma sum_change:
  fixes f g :: "nat \<Rightarrow> 'a :: comm_monoid_add"
  assumes "i < n" "\<And>j. j \<noteq> i \<Longrightarrow> g j = f j"
  shows "(\<Sum>j<n. g j) + f i = (\<Sum>j<n. f j) + g i"
proof -
  have "(\<Sum>j\<in>{..<n} - {i}. g j) = (\<Sum>j\<in>{..<n} - {i}. f j)" by (rule sum.cong) (simp_all add: assms(2))
  moreover have "(\<Sum>j<n. h j) = h i + (\<Sum>j\<in>{..<n} - {i}. h j)" for h :: "nat \<Rightarrow> 'a"
    by (rule sum.remove) (use assms(1) in simp_all)
  ultimately show ?thesis by (simp add: ac_simps)
qed

locale task_store =
  fixes ok :: "'c \<Rightarrow> bool"
    and few :: "'c \<Rightarrow> bool"
    and step :: "nat \<Rightarrow> 'c \<Rightarrow> 'c option"
    and call :: "nat \<Rightarrow> 'o \<Rightarrow> 'c \<Rightarrow> 'c"
    and may :: "nat \<Rightarrow> 'o \<Rightarrow> bool"
    and kind :: "'o \<Rightarrow> store_op"
    and rest :: "'c \<Rightarrow> nat \<Rightarrow> bool"
    and current :: "'c \<Rightarrow> nat \<Rightarrow> 'o option"
    and result :: "'c \<Rightarrow> nat \<Rightarrow> store_res option"
    and items :: "'c \<Rightarrow> u64 multiset"
    and held :: "'c \<Rightarrow> nat \<Rightarrow> u64 multiset"
  assumes call_own: "ok c \<Longrightarrow> rest c t \<Longrightarrow> may t op \<Longrightarrow> ok (call t op c) \<and> items (call t op c) = items c \<and>
      held (call t op c) t = offered (kind op) \<and> current (call t op c) t = Some op"
    and call_others: "u \<noteq> t \<Longrightarrow> held (call t op c) u = held c u \<and> current (call t op c) u = current c u \<and>
      rest (call t op c) u = rest c u"
    and call_few: "few (call t op c) = few c"
    and step_own: "ok c \<Longrightarrow> few c' \<Longrightarrow> step t c = Some c' \<Longrightarrow>
      ok c' \<and> items c' + held c' t = items c + held c t \<and> current c' = current c"
    and step_others: "ok c \<Longrightarrow> few c' \<Longrightarrow> step t c = Some c' \<Longrightarrow> u \<noteq> t \<Longrightarrow> held c' u = held c u \<and> rest c' u = rest c u"
    and step_few: "step t c = Some c' \<Longrightarrow> few c' \<Longrightarrow> few c"
    and result_ok: "ok c \<Longrightarrow> few c \<Longrightarrow> result c t = Some r \<Longrightarrow> current c t = Some op \<Longrightarrow>
      rest c t \<and> settled (kind op) r (held c t)"
    and active: "ok c \<Longrightarrow> current c t = Some op \<Longrightarrow> rest c t \<Longrightarrow> result c t \<noteq> None"
begin

text \<open>A family of stores, of which one is used.\<close>

lemma family_step:
  assumes "i < (n :: nat)" "ok (cs i)" "few c'" "step t (cs i) = Some c'"
  shows "(\<Sum>j<n. items ((cs(i := c')) j)) + held c' t = (\<Sum>j<n. items (cs j)) + held (cs i) t"
proof -
  have "items c' + held c' t = items (cs i) + held (cs i) t" using step_own [OF assms(2-4)] by blast
  then have "(\<Sum>j<n. items ((cs(i := c')) j)) + held c' t + items (cs i) = (\<Sum>j<n. items (cs j)) + held (cs i) t + items (cs i)"
    using sum_change [OF assms(1), of "\<lambda>j. items ((cs(i := c')) j)" "\<lambda>j. items (cs j)"]
    by (simp add: ac_simps)
  then show ?thesis by simp
qed

lemma family_call:
  assumes "ok (cs i)" "rest (cs i) t" "may t op"
  shows "(\<Sum>j<n. items ((cs(i := call t op (cs i))) j)) = (\<Sum>j<n. items (cs j))"
  by (rule sum.cong) (use call_own [OF assms] in auto)

end

section \<open>The deque\<close>

record deque_comp =
  dq_state :: "u64 conc_queue"
  dq_calls :: "nat \<Rightarrow> u64 deque_op option"
  dq_evs :: "(u64 deque_op \<times> u64 deque_res) list"
  dq_eff :: "nat \<Rightarrow> (u64 deque_op \<times> u64 deque_res) option"

definition new_deque :: "u32 \<Rightarrow> deque_comp option" where
  "new_deque kSize = map_option (\<lambda>q. \<lparr>dq_state = \<lparr>queue = q, mutex = None, rq_pcs = (\<lambda>_. rq_pc.Idle)\<rparr>,
     dq_calls = (\<lambda>_. None), dq_evs = [], dq_eff = (\<lambda>_. None)\<rparr>) (RunQueue kSize)"

definition dq_step :: "u32 \<Rightarrow> nat \<Rightarrow> deque_comp \<Rightarrow> deque_comp option" where
  "dq_step kSize t c =
     (case conc_step kSize t (dq_state c) of
        None \<Rightarrow> None
      | Some (s, ev) \<Rightarrow> Some (c\<lparr>dq_state := s, dq_evs := dq_evs c @ (case ev of None \<Rightarrow> [] | Some e \<Rightarrow> [e]),
          dq_eff := eff_upd t ev (dq_eff c)\<rparr>))"

definition dq_call :: "nat \<Rightarrow> u64 deque_op \<Rightarrow> deque_comp \<Rightarrow> deque_comp" where
  "dq_call t op c =
     c\<lparr>dq_state := (dq_state c)\<lparr>rq_pcs := (rq_pcs (dq_state c))(t := call_pc op)\<rparr>,
       dq_calls := (dq_calls c)(t := Some op), dq_eff := (dq_eff c)(t := None)\<rparr>"

definition dq_may :: "nat \<Rightarrow> u64 deque_op \<Rightarrow> bool" where
  "dq_may t op \<longleftrightarrow> proper_op op \<and> (t \<noteq> 0 \<longrightarrow> (\<forall>w. op \<noteq> PushF w) \<and> op \<noteq> PopF)"

definition dq_kind :: "u64 deque_op \<Rightarrow> store_op" where
  "dq_kind op = (case op of PushF w \<Rightarrow> Put w | PushB w \<Rightarrow> Put w | PopF \<Rightarrow> Get | PopB \<Rightarrow> Get)"

definition dq_rest :: "deque_comp \<Rightarrow> nat \<Rightarrow> bool" where
  "dq_rest c t \<longleftrightarrow> (case rq_pcs (dq_state c) t of rq_pc.Idle \<Rightarrow> True | rq_pc.Returned r \<Rightarrow> True | _ \<Rightarrow> False)"

definition dq_result :: "deque_comp \<Rightarrow> nat \<Rightarrow> store_res option" where
  "dq_result c t =
     (case rq_pcs (dq_state c) t of
        rq_pc.Returned r \<Rightarrow> Some (case r of Pushed b \<Rightarrow> Stored b | Popped y \<Rightarrow> Got y)
      | _ \<Rightarrow> None)"

fun fitting :: "u64 deque_op \<times> u64 deque_res \<Rightarrow> bool" where
  "fitting (PushF w, Pushed b) \<longleftrightarrow> True"
| "fitting (PushB w, Pushed b) \<longleftrightarrow> True"
| "fitting (PopF, Popped y) \<longleftrightarrow> True"
| "fitting (PopB, Popped y) \<longleftrightarrow> True"
| "fitting e \<longleftrightarrow> False"

definition dq_ok :: "u32 \<Rightarrow> deque_comp \<Rightarrow> bool" where
  "dq_ok kSize c \<longleftrightarrow> conc_run kSize (dq_state c) (dq_calls c) (dq_evs c) (dq_eff c) \<and>
     (\<forall>e \<in> set (dq_evs c). proper_op (fst e)) \<and> (\<forall>t op. dq_calls c t = Some op \<longrightarrow> proper_op op) \<and>
     (\<forall>t. dq_calls c t \<noteq> None \<longrightarrow> rq_pcs (dq_state c) t \<noteq> rq_pc.Idle) \<and>
     (\<forall>t e. dq_eff c t = Some e \<longrightarrow> fitting e)"

definition dq_content :: "u32 \<Rightarrow> deque_comp \<Rightarrow> u64 list" where
  "dq_content kSize c = (case replay (unat kSize) [] (dq_evs c) of None \<Rightarrow> [] | Some xs \<Rightarrow> xs)"

definition dq_items :: "u32 \<Rightarrow> deque_comp \<Rightarrow> u64 multiset" where
  "dq_items kSize c = mset (dq_content kSize c)"

definition deque_hand :: "u64 deque_op \<Rightarrow> (u64 deque_op \<times> u64 deque_res) option \<Rightarrow> u64 multiset" where
  "deque_hand op eff =
     (case eff of
        None \<Rightarrow> offered (dq_kind op)
      | Some (_, r) \<Rightarrow>
          (case dq_kind op of
             Put w \<Rightarrow> if r = Pushed True then {#} else {#w#}
           | Get \<Rightarrow> (case r of Popped y \<Rightarrow> if y = 0 then {#} else {#y#} | _ \<Rightarrow> {#})))"

definition dq_held :: "deque_comp \<Rightarrow> nat \<Rightarrow> u64 multiset" where
  "dq_held c t = (case dq_calls c t of None \<Rightarrow> {#} | Some op \<Rightarrow> deque_hand op (dq_eff c t))"

lemma spec_step_hand:
  assumes "spec_step cap xs (op, r) = Some ys" "0 \<notin> set xs" "proper_op op"
  shows "mset ys + deque_hand op (Some (op, r)) = mset xs + offered (dq_kind op)" "0 \<notin> set ys"
proof -
  obtain r' zs where d: "deque_step cap xs op = (r', zs)" by fastforce
  have last: "mset xs = add_mset (last xs) (mset (butlast xs))" if "xs \<noteq> []"
    using that by (metis append_butlast_last_id mset.simps(2) mset_append union_mset_add_mset_right
        add.right_neutral mset.simps(1))
  have nz: "last xs \<noteq> 0" if "xs \<noteq> []" using that assms(2) last_in_set by metis
  show "mset ys + deque_hand op (Some (op, r)) = mset xs + offered (dq_kind op)"
    using assms d nz
    by (cases op) (auto simp: spec_step_def deque_hand_def offered_def dq_kind_def last split: if_splits list.splits)
  show "0 \<notin> set ys"
    using assms d by (cases op) (auto simp: spec_step_def split: if_splits list.splits dest: in_set_butlastD)
qed

lemma replay_no_null:
  "replay cap xs evs = Some (ys :: u64 list) \<Longrightarrow> 0 \<notin> set xs \<Longrightarrow> \<forall>e \<in> set evs. proper_op (fst e) \<Longrightarrow> 0 \<notin> set ys"
proof (induction evs arbitrary: xs)
  case (Cons e evs)
  obtain op r where e: "e = (op, r)" by fastforce
  obtain zs where zs: "spec_step cap xs (op, r) = Some zs" "replay cap zs evs = Some ys"
    using Cons.prems(1) e by (auto split: option.splits)
  have "0 \<notin> set zs" by (rule spec_step_hand(2) [OF zs(1)]) (use Cons.prems e in auto)
  then show ?case using Cons.IH [OF zs(2)] Cons.prems(3) by simp
qed simp

lemma dq_okD:
  assumes "dq_ok kSize c"
  shows "conc_run kSize (dq_state c) (dq_calls c) (dq_evs c) (dq_eff c)"
    "replay (unat kSize) [] (dq_evs c) = Some (dq_content kSize c)" "0 \<notin> set (dq_content kSize c)"
    "\<And>t op. dq_calls c t = Some op \<Longrightarrow> proper_op op"
proof -
  show run: "conc_run kSize (dq_state c) (dq_calls c) (dq_evs c) (dq_eff c)" using assms by (simp add: dq_ok_def)
  from conc_run_inv [OF run] show rep: "replay (unat kSize) [] (dq_evs c) = Some (dq_content kSize c)"
    by (auto simp: dq_content_def)
  show "0 \<notin> set (dq_content kSize c)" by (rule replay_no_null [OF rep]) (use assms in \<open>simp_all add: dq_ok_def\<close>)
  show "\<And>t op. dq_calls c t = Some op \<Longrightarrow> proper_op op" using assms by (simp add: dq_ok_def)
qed

lemma dq_rest_pc:
  "dq_rest c t \<Longrightarrow> rq_pcs (dq_state c) t = rq_pc.Idle \<or> (\<exists>r. rq_pcs (dq_state c) t = rq_pc.Returned r)"
  by (auto simp: dq_rest_def split: rq_pc.splits)

lemma dq_call_ok:
  assumes "dq_ok kSize c" "dq_rest c t" "dq_may t op"
  shows "dq_ok kSize (dq_call t op c)"
proof -
  obtain r where "rq_pcs (dq_state c) t = rq_pc.Idle \<or> rq_pcs (dq_state c) t = rq_pc.Returned r"
    using dq_rest_pc [OF assms(2)] by blast
  from conc_run.call [OF dq_okD(1) [OF assms(1)] this, of op] assms
  show ?thesis by (cases op) (auto simp: dq_ok_def dq_call_def dq_may_def)
qed

lemma front_step_fitting:
  "front_pc pc \<Longrightarrow> front_step kSize q pc = (q', pc', ev) \<Longrightarrow> pc' \<noteq> rq_pc.Idle \<and> (\<forall>e. ev = Some e \<longrightarrow> fitting e)"
  by (cases pc) (auto simp: Let_def compare_exchange_state_def split: if_splits)

lemma back_step_fitting:
  "locked_pc pc \<Longrightarrow> back_step kSize q pc = (q', pc', ev) \<Longrightarrow> pc' \<noteq> rq_pc.Idle \<and> (\<forall>e. ev = Some e \<longrightarrow> fitting e)"
  by (cases pc) (auto simp: Let_def compare_exchange_state_def split: if_splits)

lemma empty_step_busy: "pc \<noteq> rq_pc.Idle \<Longrightarrow> empty_step kSize q pc \<noteq> rq_pc.Idle"
  by (cases pc) (simp_all add: Let_def)

text \<open>A step never ends a call without a result, and its effect fits the operation.\<close>

lemma conc_step_fitting:
  assumes "conc_step kSize t s = Some (s', ev)"
  shows "rq_pcs s' t \<noteq> rq_pc.Idle \<and> (\<forall>e. ev = Some e \<longrightarrow> fitting e)"
  using assms front_step_fitting [of "rq_pcs s t" kSize "queue s"] back_step_fitting [of "rq_pcs s t" kSize "queue s"]
    empty_step_busy [of "rq_pcs s t" kSize "queue s"]
  by (cases "rq_pcs s t")
    (auto simp: conc_step_def simp del: front_step.simps back_step.simps empty_step.simps split: if_splits prod.splits)

lemma dq_step_ok:
  assumes ok: "dq_ok kSize c" and step: "dq_step kSize t c = Some c'"
  shows "dq_ok kSize c'" "dq_items kSize c' + dq_held c' t = dq_items kSize c + dq_held c t" "dq_calls c' = dq_calls c"
proof -
  note D = dq_okD [OF ok]
  obtain s ev where st: "conc_step kSize t (dq_state c) = Some (s, ev)"
    and c': "c' = c\<lparr>dq_state := s, dq_evs := dq_evs c @ (case ev of None \<Rightarrow> [] | Some e \<Rightarrow> [e]), dq_eff := eff_upd t ev (dq_eff c)\<rparr>"
    using step by (auto simp: dq_step_def split: option.splits)
  note run = conc_run.step [OF D(1) st]
  show "dq_calls c' = dq_calls c" by (simp add: c')
  have call: "dq_calls c t = Some op \<and> dq_eff c t = None" if "ev = Some (op, r)" for op r
  proof -
    obtain xs where "conc_inv kSize (dq_state c) xs (dq_eff c)" using conc_run_inv [OF D(1)] by blast
    then have "dq_eff c t = None"
      using conc_atD(8) conc_step_fresh st that unfolding conc_inv_def by blast
    moreover have "pc_op (rq_pcs (dq_state c) t) = Some op" using conc_step_op(2) [OF st] that by blast
    ultimately show ?thesis using conc_run_op [OF D(1)] by (simp add: op_ok_def)
  qed
  have proper: "proper_op (fst e)" if "ev = Some e" for e
    using call [of "fst e" "snd e"] that D(4) by (metis prod.collapse)
  have busy: "rq_pcs s u \<noteq> rq_pc.Idle" if "dq_calls c u \<noteq> None" for u
    using conc_step_fitting [OF st] conc_step_op(3) [OF st] ok that by (cases "u = t") (auto simp: dq_ok_def)
  have fits: "fitting e" if "eff_upd t ev (dq_eff c) u = Some e" for u e
    using that conc_step_fitting [OF st] ok
    by (cases ev; cases "u = t"; cases e) (auto simp: dq_ok_def eff_upd_def)
  show ok': "dq_ok kSize c'"
    using run ok proper busy fits by (auto simp: dq_ok_def c' split: option.splits)
  show "dq_items kSize c' + dq_held c' t = dq_items kSize c + dq_held c t"
  proof (cases ev)
    case None
    then show ?thesis by (simp add: c' dq_items_def dq_content_def dq_held_def eff_upd_def split: option.split)
  next
    case (Some e)
    obtain op r where e: "e = (op, r)" by fastforce
    note called = call [OF Some [unfolded e]]
    have "replay (unat kSize) [] (dq_evs c @ [(op, r)]) = Some (dq_content kSize c')"
      using dq_okD(2) [OF ok'] Some e by (simp add: c')
    then have "spec_step (unat kSize) (dq_content kSize c) (op, r) = Some (dq_content kSize c')"
      unfolding replay_append [OF D(2)] by (simp split: option.splits)
    moreover have "proper_op op" using called D(4) by blast
    ultimately show ?thesis
      using spec_step_hand(1) [OF _ D(3), of _ op r] called Some e by (simp add: c' dq_items_def dq_held_def eff_upd_def deque_hand_def)
  qed
qed

lemma dq_step_others:
  assumes "dq_step kSize t c = Some c'" "u \<noteq> t"
  shows "dq_held c' u = dq_held c u \<and> dq_rest c' u = dq_rest c u"
proof -
  obtain s ev where "conc_step kSize t (dq_state c) = Some (s, ev)" and c': "dq_state c' = s" "dq_calls c' = dq_calls c"
      "dq_eff c' = eff_upd t ev (dq_eff c)"
    using assms(1) by (auto simp: dq_step_def split: option.splits)
  then have "rq_pcs s u = rq_pcs (dq_state c) u" using conc_step_op(3) assms(2) by blast
  then show ?thesis by (simp only: dq_held_def dq_rest_def c' eff_upd_at(2) [OF assms(2)] simp_thms)
qed

lemma dq_result_ok:
  assumes ok: "dq_ok kSize c" and r: "dq_result c t = Some r" and op: "dq_calls c t = Some op"
  shows "dq_rest c t \<and> settled (dq_kind op) r (dq_held c t)"
proof -
  obtain x where x: "rq_pcs (dq_state c) t = rq_pc.Returned x" "r = (case x of Pushed b \<Rightarrow> Stored b | Popped y \<Rightarrow> Got y)"
    using r by (auto simp: dq_result_def split: rq_pc.splits)
  obtain xs where inv: "conc_inv kSize (dq_state c) xs (dq_eff c)" using conc_run_inv [OF dq_okD(1) [OF ok]] by blast
  have "ret_ok (rq_pcs (dq_state c) t) (dq_eff c t)" using inv conc_atD(7) unfolding conc_inv_def by blast
  moreover have "op_ok (dq_state c) (dq_calls c) (dq_eff c)" by (rule conc_run_op [OF dq_okD(1) [OF ok]])
  ultimately have "dq_eff c t = Some (op, x) \<or> dq_eff c t = None \<and> x = Popped 0 \<and> op = PopB"
    using x(1) op unfolding ret_ok_def op_ok_def by (metis option.inject)
  moreover have "\<forall>e. dq_eff c t = Some e \<longrightarrow> fitting e" using ok by (simp add: dq_ok_def)
  ultimately show ?thesis
    using x op
    by (cases op; cases x) (auto simp: settled_def dq_held_def dq_rest_def deque_hand_def dq_kind_def offered_def)
qed

text \<open>A new deque; a deque nobody is using; waiting for the mutex.\<close>

lemma new_deque_ok:
  assumes "new_deque kSize = Some c"
  shows "dq_ok kSize c" "dq_items kSize c = {#}" "dq_rest c t"
proof -
  obtain q where "RunQueue kSize = Some q" and c: "c = \<lparr>dq_state = \<lparr>queue = q, mutex = None, rq_pcs = (\<lambda>_. rq_pc.Idle)\<rparr>,
     dq_calls = (\<lambda>_. None), dq_evs = [], dq_eff = (\<lambda>_. None)\<rparr>"
    using assms by (auto simp: new_deque_def)
  from conc_run.start [OF this(1)] show "dq_ok kSize c" by (simp add: dq_ok_def c)
  show "dq_items kSize c = {#}" "dq_rest c t" by (simp_all add: c dq_items_def dq_content_def dq_rest_def)
qed

lemma deque_at_rest:
  assumes "dq_ok kSize c" "\<forall>t. dq_rest c t"
  shows "mset (rq_items kSize (queue (dq_state c))) = dq_items kSize c"
proof -
  have idle: "rq_pcs (dq_state c) t = rq_pc.Idle \<or> (\<exists>r. rq_pcs (dq_state c) t = rq_pc.Returned r)" for t
    using assms(2) by (intro dq_rest_pc) blast
  obtain xs where inv: "conc_inv kSize (dq_state c) xs (dq_eff c)" and rep: "replay (unat kSize) [] (dq_evs c) = Some (rev xs)"
    using conc_run_inv [OF dq_okD(1) [OF assms(1)]] by blast
  then have "rq_items kSize (queue (dq_state c)) = dq_content kSize c"
    using quiescent_items [OF inv idle] by (simp add: dq_content_def)
  then show ?thesis by (simp add: dq_items_def)
qed

lemma mutex_holder:
  assumes ok: "dq_ok kSize c" and wait: "dq_step kSize t c = None" and "\<not> dq_rest c t"
  shows "\<exists>u. dq_step kSize u c \<noteq> None"
proof -
  have none: "conc_step kSize t (dq_state c) = None" using wait by (auto simp: dq_step_def split: option.splits)
  have "rq_pcs (dq_state c) t = PopBack_lock \<or> (\<exists>w. rq_pcs (dq_state c) t = PushBack_lock w)"
    using none assms(3) by (auto simp: conc_step_def dq_rest_def Let_def split: rq_pc.splits if_splits prod.splits)
  then obtain u where u: "mutex (dq_state c) = Some u" using none by (auto simp: conc_step_def split: if_splits)
  obtain xs where "conc_inv kSize (dq_state c) xs (dq_eff c)" using conc_run_inv [OF dq_okD(1) [OF ok]] by blast
  then have "locked_pc (rq_pcs (dq_state c) u)" using u conc_atD(5) unfolding conc_inv_def by blast
  then have "conc_step kSize u (dq_state c) \<noteq> None"
    by (cases "rq_pcs (dq_state c) u") (simp_all add: conc_step_def Let_def split: prod.split)
  then show ?thesis by (auto simp: dq_step_def split: option.split)
qed

interpretation deques: task_store "dq_ok kSize" "\<lambda>_. True" "dq_step kSize" dq_call dq_may dq_kind dq_rest dq_calls dq_result
    "dq_items kSize" dq_held
  for kSize
proof unfold_locales
  fix c c' :: deque_comp and t u :: nat and op r
  show "dq_ok kSize (dq_call t op c) \<and> dq_items kSize (dq_call t op c) = dq_items kSize c \<and>
      dq_held (dq_call t op c) t = offered (dq_kind op) \<and> dq_calls (dq_call t op c) t = Some op"
    if "dq_ok kSize c" "dq_rest c t" "dq_may t op"
    using dq_call_ok [OF that] by (simp add: dq_call_def dq_items_def dq_content_def dq_held_def deque_hand_def)
  show "dq_held (dq_call t op c) u = dq_held c u \<and> dq_calls (dq_call t op c) u = dq_calls c u \<and>
      dq_rest (dq_call t op c) u = dq_rest c u" if "u \<noteq> t"
    using that by (simp add: dq_call_def dq_held_def dq_rest_def split: option.split)
  show "dq_ok kSize c' \<and> dq_items kSize c' + dq_held c' t = dq_items kSize c + dq_held c t \<and> dq_calls c' = dq_calls c"
    if "dq_ok kSize c" "dq_step kSize t c = Some c'"
    using dq_step_ok [OF that] by blast
  show "dq_held c' u = dq_held c u \<and> dq_rest c' u = dq_rest c u" if "dq_step kSize t c = Some c'" "u \<noteq> t"
    by (rule dq_step_others [OF that])
  show "dq_rest c t \<and> settled (dq_kind op) r (dq_held c t)"
    if "dq_ok kSize c" "dq_result c t = Some r" "dq_calls c t = Some op"
    by (rule dq_result_ok [OF that])
  show "dq_result c t \<noteq> None" if "dq_ok kSize c" "dq_calls c t = Some op" "dq_rest c t"
    using that by (auto simp: dq_ok_def dq_rest_def dq_result_def split: rq_pc.splits)
qed simp_all

section \<open>The mailbox\<close>

record mail_comp =
  mb_queue :: "u64 mpmc_queue"
  mb_pcs :: "nat \<Rightarrow> u64 mq_pc"
  mb_hist :: "u64 history"

definition new_mailbox :: "u64 \<Rightarrow> mail_comp option" where
  "new_mailbox capacity =
     (case Queue True capacity of
        Inl e \<Rightarrow> None
      | Inr q \<Rightarrow> Some \<lparr>mb_queue = q, mb_pcs = (\<lambda>_. mq_pc.Idle), mb_hist = new_history\<rparr>)"

definition mb_step :: "nat \<Rightarrow> mail_comp \<Rightarrow> mail_comp option" where
  "mb_step t c =
     (if resting (mb_pcs c t) then None
      else case mq_step (mb_queue c) (mb_pcs c t) of
             (q, pc, ev) \<Rightarrow> Some \<lparr>mb_queue = q, mb_pcs = (mb_pcs c)(t := pc), mb_hist = observe t ev (mb_hist c)\<rparr>)"

definition mb_call :: "nat \<Rightarrow> u64 mq_call \<Rightarrow> mail_comp \<Rightarrow> mail_comp" where
  "mb_call t op c =
     c\<lparr>mb_pcs := (mb_pcs c)(t := mq_entry op),
       mb_hist := (mb_hist c)\<lparr>mq_calls := (mq_calls (mb_hist c))(t \<mapsto> op), events := (events (mb_hist c))(t := [])\<rparr>\<rparr>"

definition mb_may :: "nat \<Rightarrow> u64 mq_call \<Rightarrow> bool" where
  "mb_may t op \<longleftrightarrow> (case op of TryPush w \<Rightarrow> w \<noteq> 0 | TryPop \<Rightarrow> True | _ \<Rightarrow> False)"

definition mb_kind :: "u64 mq_call \<Rightarrow> store_op" where
  "mb_kind op = (case op of Push w \<Rightarrow> Put w | TryPush w \<Rightarrow> Put w | Pop \<Rightarrow> Get | TryPop \<Rightarrow> Get)"

definition mb_rest :: "mail_comp \<Rightarrow> nat \<Rightarrow> bool" where
  "mb_rest c t = resting (mb_pcs c t)"

definition mb_current :: "mail_comp \<Rightarrow> nat \<Rightarrow> u64 mq_call option" where
  "mb_current c = mq_calls (mb_hist c)"

definition mb_result :: "mail_comp \<Rightarrow> nat \<Rightarrow> store_res option" where
  "mb_result c t =
     (case mb_pcs c t of
        mq_pc.Returned r \<Rightarrow>
          Some (case r of Given b \<Rightarrow> Stored b | Taken y \<Rightarrow> Got (case y of None \<Rightarrow> 0 | Some w \<Rightarrow> w))
      | _ \<Rightarrow> None)"

definition mb_few :: "mail_comp \<Rightarrow> bool" where
  "mb_few c \<longleftrightarrow> few_tickets (mb_hist c) \<and> length (pushed (mb_hist c)) < 2 ^ 62"

definition mb_ok :: "u64 \<Rightarrow> mail_comp \<Rightarrow> bool" where
  "mb_ok capacity c \<longleftrightarrow> mq_run capacity (mb_queue c) (mb_pcs c) (mb_hist c) \<and>
     (\<forall>t op. mb_current c t = Some op \<longrightarrow> mb_may t op) \<and>
     popping (mb_hist c) \<le> length (pushed (mb_hist c)) \<and> 0 \<notin> set (pushed (mb_hist c)) \<and>
     (\<forall>t. mb_pcs c t \<noteq> mq_pc.Returned (Taken (Some 0))) \<and>
     (\<forall>t. mb_current c t \<noteq> None \<longrightarrow> mb_pcs c t \<noteq> mq_pc.Idle)"

definition mb_content :: "mail_comp \<Rightarrow> u64 list" where
  "mb_content c = drop (popping (mb_hist c)) (pushed (mb_hist c))"

definition mb_items :: "mail_comp \<Rightarrow> u64 multiset" where
  "mb_items c = mset (mb_content c)"

text \<open>The task of a pop is the one of its ticket.\<close>

fun popped_item :: "u64 list \<Rightarrow> u64 mq_pc \<Rightarrow> u64 multiset" where
  "popped_item P (Pop_move x) = {#P ! unat x#}"
| "popped_item P (Pop_turn x w) = {#w#}"
| "popped_item P (mq_pc.Returned (Taken (Some w))) = {#w#}"
| "popped_item P pc = {#}"

definition mb_held :: "mail_comp \<Rightarrow> nat \<Rightarrow> u64 multiset" where
  "mb_held c t =
     (case mb_current c t of
        None \<Rightarrow> {#}
      | Some op \<Rightarrow>
          (case mb_kind op of
             Put w \<Rightarrow> if events (mb_hist c) t = [] then {#w#} else {#}
           | Get \<Rightarrow> popped_item (pushed (mb_hist c)) (mb_pcs c t)))"

lemma mb_okD:
  assumes "mb_ok capacity c"
  shows "mq_run capacity (mb_queue c) (mb_pcs c) (mb_hist c)" "\<And>t op. mb_current c t = Some op \<Longrightarrow> mb_may t op"
    "popping (mb_hist c) \<le> length (pushed (mb_hist c))" "0 \<notin> set (pushed (mb_hist c))"
    "\<And>t. progress (mb_pcs c t) (mb_current c t) (events (mb_hist c) t)"
    "\<And>t. mb_pcs c t \<noteq> mq_pc.Returned (Taken (Some 0))" "\<And>t. mb_current c t \<noteq> None \<longrightarrow> mb_pcs c t \<noteq> mq_pc.Idle"
  using assms mq_run_progress by (auto simp: mb_ok_def mb_current_def)

lemma mb_call_ok:
  assumes "mb_ok capacity c" "mb_rest c t" "mb_may t op"
  shows "mb_ok capacity (mb_call t op c) \<and> mb_items (mb_call t op c) = mb_items c \<and>
    mb_held (mb_call t op c) t = offered (mb_kind op) \<and> mb_current (mb_call t op c) t = Some op"
proof -
  have "popped_item P (mq_entry op) = {#}" for P by (cases op) simp_all
  moreover have "mb_ok capacity (mb_call t op c)"
    using mq_run.call [OF mb_okD(1) [OF assms(1)], of t op] assms
    by (cases op) (auto simp: mb_ok_def mb_call_def mb_rest_def mb_current_def mb_may_def)
  ultimately show ?thesis
    by (simp add: mb_call_def mb_items_def mb_content_def mb_held_def mb_current_def offered_def split: store_op.split)
qed

text \<open>A pop gets its ticket only when the item of that ticket has been pushed.\<close>

lemma pop_ticket_pushed:
  assumes inv: "hist_ok q pcs h" and few: "few_tickets h" and pc: "pcs t = Try_pop_cas x" and x: "mq_tail q = x"
  shows "popping h < length (pushed h) \<and> unat x = popping h"
proof -
  note S = hist_okD(1) [OF inv]
  note pos = shared_okD(1) [OF S]
  let ?c = "unat (mq_capacity q)"
  have ux: "unat x = popping h" using counters(2) [OF inv few] x by simp
  then have "snd (pop_claim ?c (popping h)) \<le> now q (fst (pop_claim ?c (popping h)))"
    using hist_okD(2) [OF inv, of t] pc by (auto split: prod.splits)
  then have "is_done q (push_claim ?c (popping h))" by (simp add: is_done_def claim_fst(3,4))
  then show ?thesis using done_ticket(1) [OF S] ux by blast
qed

text \<open>The steps that take no ticket leave each hand as it is.\<close>

lemma quiet_popped_item:
  assumes "mq_step q pc = (q', pc', ev)" "ev = None \<or> (\<exists>n w. ev = Some (Delivered n w))" "\<not> resting pc"
    "\<And>x w. pc' = Pop_turn x w \<Longrightarrow> w = P ! unat x"
  shows "popped_item P pc' = popped_item P pc \<or> (\<exists>x. pc = Pop_wait x)"
  using assms by (cases pc) (auto simp: Let_def split: if_splits prod.splits)

lemma mq_step_busy: "mq_step q pc = (q', pc', ev) \<Longrightarrow> \<not> resting pc \<Longrightarrow> pc' \<noteq> mq_pc.Idle"
  by (cases pc) (auto simp: Let_def split: if_splits prod.splits)

lemma pushed_grows: "length (pushed h) \<le> length (pushed (observe t ev h))"
  by (cases ev; simp; cases "the ev"; simp)

lemma mb_step_ok:
  assumes ok: "mb_ok capacity c" and few: "mb_few c'" and step: "mb_step t c = Some c'"
  shows "mb_ok capacity c' \<and> mb_items c' + mb_held c' t = mb_items c + mb_held c t \<and> mb_current c' = mb_current c"
proof -
  let ?q = "mb_queue c" and ?pcs = "mb_pcs c" and ?h = "mb_hist c"
  obtain q pc ev where st: "\<not> resting (?pcs t)" "mq_step ?q (?pcs t) = (q, pc, ev)"
    and c': "c' = \<lparr>mb_queue = q, mb_pcs = ?pcs(t := pc), mb_hist = observe t ev ?h\<rparr>"
    using step by (auto simp: mb_step_def split: if_splits prod.splits)
  note D = mb_okD [OF ok]
  have few': "few_tickets (observe t ev ?h)" using few by (simp add: mb_few_def c')
  note few0 = few_before [OF few']
  note inv = mq_run_ok(1) [OF D(1) few0]
  note run' = mq_run.step [OF D(1) st]
  note inv' = mq_run_ok(1) [OF run' few']
  have cur: "mb_current c' = mb_current c" by (simp add: c' mb_current_def)
  have prog: "progress (?pcs t) (mb_current c t) (events ?h t)" using D(5) .
  have may: "mb_may t op" if "mb_current c t = Some op" for op using D(2) that .
  have task: "(?pcs(t := pc)) u \<noteq> mq_pc.Returned (Taken (Some 0))" for u
  proof (cases "u = t \<and> (\<exists>x w. ?pcs t = Pop_turn x w)")
    case True
    then obtain x w where "?pcs t = Pop_turn x w" by blast
    moreover from this hist_okD(2) [OF inv, of t] have "w \<in> set (pushed ?h)" by simp
    ultimately show ?thesis using True st(2) D(4) by auto
  next
    case False
    then show ?thesis using D(6) st by (cases "?pcs t") (auto simp: Let_def split: if_splits prod.splits)
  qed
  have busy: "(?pcs(t := pc)) u \<noteq> mq_pc.Idle" if "mb_current c u \<noteq> None" for u
    using that D(7) mq_step_busy [OF st(2,1)] by auto
  have stored: "w = pushed (observe t ev ?h) ! unat x" if "pc = Pop_turn x w" for x w
    using hist_okD(2) [OF inv', of t] that by simp
  consider (push) v x where "?pcs t = Try_push_cas v x" "ev = Some (Took_push v)" "mb_current c t = Some (TryPush v)"
      "events ?h t = []"
    | (pop) x where "?pcs t = Try_pop_cas x" "ev = Some Took_pop" "pc = Pop_move x" "mq_tail ?q = x" "mb_current c t = Some TryPop"
    | (quiet) "ev = None \<or> (\<exists>n w. ev = Some (Delivered n w))" "\<And>x. ?pcs t \<noteq> Pop_wait x"
  proof (cases "?pcs t")
    case (Try_push_cas v x)
    then show thesis using st(2) prog that(1,3) by (auto simp: compare_exchange_head_def split: if_splits)
  next
    case (Try_pop_cas x)
    then show thesis using st(2) prog that(2,3) by (auto simp: compare_exchange_tail_def split: if_splits)
  qed (use st prog may that(3) in \<open>auto simp: mb_may_def Let_def split: if_splits\<close>)
  then show ?thesis
  proof cases
    case push
    have "v \<noteq> 0" using may [OF push(3)] by (simp add: mb_may_def)
    then have "mb_ok capacity c'"
      using run' D(1-4) cur task busy by (auto simp: mb_ok_def c' push(2) mb_current_def)
    then show ?thesis using push cur D(3)
      by (simp add: mb_items_def mb_content_def mb_held_def mb_kind_def) (simp add: c' push(2))
  next
    case pop
    from pop_ticket_pushed [OF inv few0 pop(1,4)] have x: "popping ?h < length (pushed ?h)" "unat x = popping ?h" by blast+
    then have "drop (popping ?h) (pushed ?h) = pushed ?h ! unat x # drop (Suc (popping ?h)) (pushed ?h)"
      by (simp add: Cons_nth_drop_Suc)
    moreover have "mb_ok capacity c'"
      using run' D(1-4) cur task busy x(1) by (auto simp: mb_ok_def c' pop(2) mb_current_def)
    ultimately show ?thesis using pop cur
      by (simp add: mb_items_def mb_content_def mb_held_def mb_kind_def) (simp add: c' pop)
  next
    case quiet
    have h: "pushed (observe t ev ?h) = pushed ?h" "popping (observe t ev ?h) = popping ?h" using quiet(1) by auto
    have "mb_ok capacity c'"
      using run' D(1-4) cur task busy h by (auto simp: mb_ok_def c' mb_current_def)
    moreover have item: "popped_item (pushed ?h) pc = popped_item (pushed ?h) (?pcs t)"
      using quiet_popped_item [OF st(2) quiet(1) st(1), of "pushed ?h"] stored h quiet(2) by auto
    moreover have "events (observe t ev ?h) t = [] \<longleftrightarrow> events ?h t = []" if "mb_current c t = Some (TryPush w)" for w
      using quiet(1) prog that st by (cases "?pcs t") (auto simp: Let_def split: if_splits prod.splits)
    then have "mb_held c' t = mb_held c t"
      using item may cur h
      by (auto simp: mb_held_def mb_kind_def mb_may_def c' split: option.splits mq_call.splits)
    ultimately show ?thesis using cur h by (simp add: mb_items_def mb_content_def) (simp add: c')
  qed
qed

lemma mb_step_others:
  assumes ok: "mb_ok capacity c" and few: "mb_few c'" and step: "mb_step t c = Some c'" and "u \<noteq> t"
  shows "mb_held c' u = mb_held c u \<and> mb_rest c' u = mb_rest c u"
proof -
  obtain q pc ev where c': "c' = \<lparr>mb_queue = q, mb_pcs = (mb_pcs c)(t := pc), mb_hist = observe t ev (mb_hist c)\<rparr>"
    using step by (auto simp: mb_step_def split: if_splits prod.splits)
  note D = mb_okD [OF ok]
  have few0: "few_tickets (mb_hist c)" using few few_before [of t ev "mb_hist c"] by (simp add: mb_few_def c')
  note vars = hist_okD(2) [OF mq_run_ok(1) [OF D(1) few0], of u]
  obtain vs where vs: "pushed (observe t ev (mb_hist c)) = pushed (mb_hist c) @ vs"
    by (cases ev; simp) (cases "the ev"; simp)
  have "popped_item (pushed (mb_hist c) @ vs) (mb_pcs c u) = popped_item (pushed (mb_hist c)) (mb_pcs c u)"
    using vars D(3) by (cases "(pushed (mb_hist c), mb_pcs c u)" rule: popped_item.cases) (auto simp: nth_append)
  moreover have "events (observe t ev (mb_hist c)) u = events (mb_hist c) u" using assms(4) by (cases ev) simp_all
  ultimately show ?thesis
    using assms(4) vs by (simp add: mb_held_def mb_rest_def mb_current_def c' split: option.split store_op.split)
qed

lemma mb_result_ok:
  assumes ok: "mb_ok capacity c" and r: "mb_result c t = Some r" and op: "mb_current c t = Some op"
  shows "mb_rest c t \<and> settled (mb_kind op) r (mb_held c t)"
proof -
  note D = mb_okD [OF ok]
  obtain x where x: "mb_pcs c t = mq_pc.Returned x"
    "r = (case x of Given b \<Rightarrow> Stored b | Taken y \<Rightarrow> Got (case y of None \<Rightarrow> 0 | Some w \<Rightarrow> w))"
    using r by (auto simp: mb_result_def split: mq_pc.splits)
  have prog: "progress (mq_pc.Returned x) (Some op) (events (mb_hist c) t)" using D(5) [of t] x(1) op by simp
  have may: "mb_may t op" using D(2) op .
  show ?thesis
  proof (cases x)
    case (Given b)
    then show ?thesis using prog may x op
      by (cases b) (auto simp: settled_def mb_held_def mb_rest_def mb_kind_def mb_may_def)
  next
    case (Taken y)
    then show ?thesis using prog may x op D(6) [of t]
      by (cases y) (auto simp: settled_def mb_held_def mb_rest_def mb_kind_def mb_may_def)
  qed
qed

lemma new_mailbox_ok:
  assumes "new_mailbox capacity = Some c"
  shows "mb_ok capacity c" "mb_items c = {#}" "mb_rest c t"
proof -
  obtain q where "Queue True capacity = Inr q" and c: "c = \<lparr>mb_queue = q, mb_pcs = (\<lambda>_. mq_pc.Idle), mb_hist = new_history\<rparr>"
    using assms by (auto simp: new_mailbox_def split: sum.splits)
  from mq_run.start [OF this(1)] show "mb_ok capacity c" by (simp add: mb_ok_def mb_current_def c new_history_def)
  show "mb_items c = {#}" "mb_rest c t" by (simp_all add: c mb_items_def mb_content_def mb_rest_def new_history_def)
qed

lemma mailbox_at_rest:
  assumes "mb_ok capacity c" "mb_few c" "\<forall>t. mb_rest c t" "unat capacity < 2 ^ 62"
  shows "mset (mq_items (mb_queue c)) = mb_items c"
proof -
  note D = mb_okD [OF assms(1)]
  have few: "few_tickets (mb_hist c)" using assms(2) by (simp add: mb_few_def)
  note inv = mq_run_ok [OF D(1) few]
  have "\<forall>t. resting (mb_pcs c t)" using assms(3) by (simp add: mb_rest_def)
  then have "mq_items (mb_queue c) = mb_content c"
    using resting_queue [OF inv(1)] assms(2,4) few inv(2) by (simp add: mb_content_def few_tickets_def mb_few_def)
  then show ?thesis by (simp add: mb_items_def)
qed

interpretation mails: task_store "mb_ok capacity" mb_few mb_step mb_call mb_may mb_kind mb_rest mb_current mb_result
    mb_items mb_held
  for capacity
proof unfold_locales
  fix c c' :: mail_comp and t u :: nat and op r
  show "mb_ok capacity (mb_call t op c) \<and> mb_items (mb_call t op c) = mb_items c \<and>
      mb_held (mb_call t op c) t = offered (mb_kind op) \<and> mb_current (mb_call t op c) t = Some op"
    if "mb_ok capacity c" "mb_rest c t" "mb_may t op"
    by (rule mb_call_ok [OF that])
  show "mb_held (mb_call t op c) u = mb_held c u \<and> mb_current (mb_call t op c) u = mb_current c u \<and>
      mb_rest (mb_call t op c) u = mb_rest c u" if "u \<noteq> t"
    using that by (simp add: mb_call_def mb_held_def mb_current_def mb_rest_def split: option.split store_op.split)
  show "mb_few (mb_call t op c) = mb_few c" by (simp add: mb_few_def mb_call_def few_tickets_def)
  show "mb_ok capacity c' \<and> mb_items c' + mb_held c' t = mb_items c + mb_held c t \<and> mb_current c' = mb_current c"
    if "mb_ok capacity c" "mb_few c'" "mb_step t c = Some c'"
    by (rule mb_step_ok [OF that])
  show "mb_held c' u = mb_held c u \<and> mb_rest c' u = mb_rest c u"
    if "mb_ok capacity c" "mb_few c'" "mb_step t c = Some c'" "u \<noteq> t"
    by (rule mb_step_others [OF that])
  show "mb_few c" if step: "mb_step t c = Some c'" and few: "mb_few c'"
  proof -
    obtain q pc ev where c': "c' = \<lparr>mb_queue = q, mb_pcs = (mb_pcs c)(t := pc), mb_hist = observe t ev (mb_hist c)\<rparr>"
      using step by (auto simp: mb_step_def split: if_splits prod.splits)
    show ?thesis
      using few few_before [of t ev "mb_hist c"] pushed_grows [of "mb_hist c" t ev] by (simp add: mb_few_def c')
  qed
  show "mb_rest c t \<and> settled (mb_kind op) r (mb_held c t)"
    if "mb_ok capacity c" "mb_few c" "mb_result c t = Some r" "mb_current c t = Some op"
    by (rule mb_result_ok [OF that(1,3,4)])
  show "mb_result c t \<noteq> None" if "mb_ok capacity c" "mb_current c t = Some op" "mb_rest c t"
    using that mb_okD(7) [OF that(1), of t] by (auto simp: mb_rest_def mb_result_def split: mq_pc.splits)
qed

end
