(* ===== verification/Pool_Conc.thy ===== *)
theory Pool_Conc
  imports Task_Store Thread_Pool
begin

text \<open>
  All threads of the pool of src/include/eigen/nonblocking\_thread\_pool.h at once, together with threads outside it.
  A step of a thread is one access to shared memory: a step of the call on a deque or a mailbox it is in
  (Run\_Queue\_Conc, Mpmc\_Conc), or one access to a run-next slot, a steal partition or a flag.  The body of a task
  and the code outside the pool may at any time submit a task, enter the worker loop, cancel the pool, set steal
  partitions or return.
\<close>

section \<open>The state\<close>

record pool_config =
  workers :: nat
  all_threads :: nat
  deque_size :: u32
  mailbox_size :: u64

text \<open>The variables of \<open>WorkerLoop\<close>, and where it is.\<close>

record loop_vars =
  lv_external :: bool
  lv_once :: bool
  lv_can_steal :: bool
  lv_processed :: bool
  lv_all_empty :: bool

datatype loop_pc =
    Reset_load | Reset_cas | Loop_test
  | Runnext_load | Runnext_cas u64 | Pop_local | Pop_mail
  | Local_start | Global_start
  | Victim_mail bool u32 u32 "u32 list" | Victim_back bool u32 u32 "u32 list"
  | Idle_load | Idle_cas | Test_done | Running

text \<open>
  The calls a thread is in, innermost first: the body of a task, \<open>ExecuteTask\<close> about to enter it, \<open>PushTask\<close> of a task
  on a worker, \<open>Cancel\<close>, \<open>SetStealPartitions\<close> and \<open>WorkerLoop\<close>.
\<close>

datatype frame =
    Body u64
  | Execute u64
  | Pushing u64 nat bool
  | Cancelling
  | Partitioning "(nat \<times> u32 \<times> u32) list"
  | Looping loop_vars loop_pc

text \<open>\<open>entered\<close> lists the tasks whose body has been entered, \<open>submitted\<close> those handed to the pool.\<close>

record conc_pool =
  deques :: "nat \<Rightarrow> deque_comp"
  mails :: "nat \<Rightarrow> mail_comp"
  next_slots :: "nat \<Rightarrow> u64"
  partitions :: "nat \<Rightarrow> u32"
  rands :: "nat \<Rightarrow> u64"
  cancel_flag :: bool
  done_flag :: bool
  stacks :: "nat \<Rightarrow> frame list"
  answers :: "nat \<Rightarrow> bool"
  entered :: "u64 list"
  submitted :: "u64 multiset"

section \<open>Calls on the queues\<close>

datatype queue_call = On_deque nat "u64 deque_op" | On_mail nat "u64 mq_call" | No_call

fun call_of :: "nat \<Rightarrow> frame list \<Rightarrow> queue_call" where
  "call_of t (Pushing w i local # fs) = (if local then On_deque i (PushF w) else On_mail i (TryPush w))"
| "call_of t (Looping v Pop_local # fs) = On_deque t PopF"
| "call_of t (Looping v Pop_mail # fs) = On_mail t TryPop"
| "call_of t (Looping v (Victim_mail g s l (x # xs)) # fs) = On_mail (unat (s + x)) TryPop"
| "call_of t (Looping v (Victim_back g s l (x # xs)) # fs) = On_deque (unat (s + x)) PopB"
| "call_of t fs = No_call"

text \<open>The owner of a deque is its thread 0 (see Run\_Queue\_Conc).\<close>

definition tid :: "nat \<Rightarrow> nat \<Rightarrow> nat" where
  "tid i t = (if t = i then 0 else if t = 0 then i else t)"

text \<open>A thread goes on with the frames \<open>fs\<close>; if they start with a call on a queue, it begins the call.\<close>

definition enter :: "nat \<Rightarrow> frame list \<Rightarrow> conc_pool \<Rightarrow> conc_pool" where
  "enter t fs st =
     (let st = st\<lparr>stacks := (stacks st)(t := fs)\<rparr>
      in case call_of t fs of
           On_deque i op \<Rightarrow> st\<lparr>deques := (deques st)(i := dq_call (tid i t) op (deques st i))\<rparr>
         | On_mail i op \<Rightarrow> st\<lparr>mails := (mails st)(i := mb_call t op (mails st i))\<rparr>
         | No_call \<Rightarrow> st)"

section \<open>The worker loop\<close>

text \<open>The end of the loop body when no task was found.\<close>

definition nothing_pc :: "loop_vars \<Rightarrow> loop_pc" where
  "nothing_pc v = (if lv_external v then Idle_load else Test_done)"

text \<open>\<open>Steal\<close> turns to its next victim; \<open>None\<close> where its assertion fails.\<close>

fun steal_next :: "loop_vars \<Rightarrow> bool \<Rightarrow> u32 \<Rightarrow> u32 \<Rightarrow> u32 list \<Rightarrow> loop_pc option" where
  "steal_next v global start limit [] = Some (if global then nothing_pc v else Global_start)"
| "steal_next v global start limit (victim # vs) =
     (if start + victim < limit then Some (Victim_mail global start limit (victim # vs)) else None)"

definition start_steal :: "loop_vars \<Rightarrow> bool \<Rightarrow> u32 \<Rightarrow> u32 \<Rightarrow> u64 \<Rightarrow> (loop_pc \<times> u64) option" where
  "start_steal v global start limit state =
     (let sz = (ucast (limit - start) :: u64);
          (r, state) = Rand state;
          coprimes = ComputeCoprimes (int (unat sz));
          inc = coprimes ! unat (reduce r (of_nat (length coprimes)))
      in map_option (\<lambda>pc. (pc, state)) (steal_next v global start limit (victims (unat sz) inc sz (reduce r sz))))"

text \<open>Where the loop goes when a queue gave it nothing.\<close>

fun not_found :: "loop_vars \<Rightarrow> loop_pc \<Rightarrow> loop_pc option" where
  "not_found v Pop_local = Some Pop_mail"
| "not_found v Pop_mail = Some (if \<not> lv_external v \<or> lv_can_steal v then Local_start else nothing_pc v)"
| "not_found v (Victim_mail global start limit (x # xs)) =
     (if lv_all_empty v then Some (Victim_back global start limit (x # xs)) else steal_next v global start limit xs)"
| "not_found v (Victim_back global start limit (x # xs)) = steal_next v global start limit xs"
| "not_found v pc = None"

text \<open>A call on a queue has returned.\<close>

fun after_call :: "store_res \<Rightarrow> frame list \<Rightarrow> frame list option" where
  "after_call (Stored ok) (Pushing w i local # fs) = Some (if ok then fs else Execute w # fs)"
| "after_call (Got y) (Looping v pc # fs) =
     (if y \<noteq> 0 then Some (Execute y # Looping v Running # fs)
      else map_option (\<lambda>pc. Looping v pc # fs) (not_found v pc))"
| "after_call r fs = None"

definition leave_loop :: "nat \<Rightarrow> loop_vars \<Rightarrow> frame list \<Rightarrow> conc_pool \<Rightarrow> conc_pool" where
  "leave_loop t v fs st = enter t fs (st\<lparr>answers := (answers st)(t := lv_processed v)\<rparr>)"

definition end_of_body :: "nat \<Rightarrow> loop_vars \<Rightarrow> frame list \<Rightarrow> conc_pool \<Rightarrow> conc_pool" where
  "end_of_body t v fs st = (if lv_once v then leave_loop t v fs st else enter t (Looping v Loop_test # fs) st)"

fun loop_step :: "pool_config \<Rightarrow> nat \<Rightarrow> loop_vars \<Rightarrow> loop_pc \<Rightarrow> frame list \<Rightarrow> conc_pool \<Rightarrow> conc_pool option" where
  "loop_step cfg t v Reset_load fs st =
     Some (enter t (Looping v (if next_slots st t = IDLE then Reset_cas else Loop_test) # fs) st)"
| "loop_step cfg t v Reset_cas fs st =
     Some (enter t (Looping v Loop_test # fs)
       (if next_slots st t = IDLE then st\<lparr>next_slots := (next_slots st)(t := 0)\<rparr> else st))"
| "loop_step cfg t v Loop_test fs st =
     Some (if cancel_flag st then leave_loop t v fs st else enter t (Looping v Runnext_load # fs) st)"
| "loop_step cfg t v Runnext_load fs st =
     Some (enter t (Looping v (if next_slots st t \<noteq> 0 then Runnext_cas (next_slots st t) else Pop_local) # fs) st)"
| "loop_step cfg t v (Runnext_cas p) fs st =
     Some (if next_slots st t = p
           then enter t (if p \<noteq> 0 \<and> p \<noteq> IDLE then Execute p # Looping v Running # fs else Looping v Pop_local # fs)
                  (st\<lparr>next_slots := (next_slots st)(t := 0)\<rparr>)
           else enter t (Looping v Pop_local # fs) st)"
| "loop_step cfg t v Local_start fs st =
     (let p = partitions st t
      in if EncodePartition 0 (of_nat (workers cfg)) = p then Some (enter t (Looping v Global_start # fs) st)
         else
           let (start, limit) = DecodePartition p
           in if AssertBounds (int (workers cfg)) (sint start) (sint limit)
              then map_option (\<lambda>(pc, r). enter t (Looping v pc # fs) (st\<lparr>rands := (rands st)(t := r)\<rparr>))
                     (start_steal v False start limit (rands st t))
              else None)"
| "loop_step cfg t v Global_start fs st =
     map_option (\<lambda>(pc, r). enter t (Looping v pc # fs) (st\<lparr>rands := (rands st)(t := r)\<rparr>))
       (start_steal v True 0 (of_nat (workers cfg)) (rands st t))"
| "loop_step cfg t v Idle_load fs st =
     Some (if next_slots st t = 0 then enter t (Looping v Idle_cas # fs) st
           else if next_slots st t = IDLE then leave_loop t v fs st
           else enter t (Looping v Test_done # fs) st)"
| "loop_step cfg t v Idle_cas fs st =
     Some (if next_slots st t = 0 then leave_loop t v fs (st\<lparr>next_slots := (next_slots st)(t := IDLE)\<rparr>)
           else enter t (Looping v Test_done # fs) st)"
| "loop_step cfg t v Test_done fs st =
     Some (if done_flag st then leave_loop t v fs st else end_of_body t (v\<lparr>lv_all_empty := True\<rparr>) fs st)"
| "loop_step cfg t v Running fs st = Some (end_of_body t (v\<lparr>lv_processed := True, lv_all_empty := False\<rparr>) fs st)"
| "loop_step cfg t v pc fs st = None"

section \<open>Steps of a thread inside the pool\<close>

fun inner_step :: "pool_config \<Rightarrow> nat \<Rightarrow> frame list \<Rightarrow> conc_pool \<Rightarrow> conc_pool option" where
  "inner_step cfg t (Execute w # fs) st = Some (enter t (Body w # fs) (st\<lparr>entered := entered st @ [w]\<rparr>))"
| "inner_step cfg t (Cancelling # fs) st = Some (enter t fs (st\<lparr>done_flag := True\<rparr>))"
| "inner_step cfg t (Partitioning [] # fs) st = Some (enter t fs st)"
| "inner_step cfg t (Partitioning ((i, start, limit) # ps) # fs) st =
     (if AssertBounds (int (workers cfg)) (sint start) (sint limit)
      then Some (enter t (Partitioning ps # fs)
             (st\<lparr>partitions := (partitions st)(i := EncodePartition start limit)\<rparr>)) else None)"
| "inner_step cfg t (Looping v pc # fs) st = loop_step cfg t v pc fs st"
| "inner_step cfg t fs st = None"

definition pool_step :: "pool_config \<Rightarrow> nat \<Rightarrow> conc_pool \<Rightarrow> conc_pool option" where
  "pool_step cfg t st =
     (case call_of t (stacks st t) of
        On_deque i op \<Rightarrow>
          (case dq_result (deques st i) (tid i t) of
             Some r \<Rightarrow> map_option (\<lambda>fs. enter t fs st) (after_call r (stacks st t))
           | None \<Rightarrow> map_option (\<lambda>c. st\<lparr>deques := (deques st)(i := c)\<rparr>) (dq_step (deque_size cfg) (tid i t) (deques st i)))
      | On_mail i op \<Rightarrow>
          (case mb_result (mails st i) t of
             Some r \<Rightarrow> map_option (\<lambda>fs. enter t fs st) (after_call r (stacks st t))
           | None \<Rightarrow> map_option (\<lambda>c. st\<lparr>mails := (mails st)(i := c)\<rparr>) (mb_step t (mails st i)))
      | No_call \<Rightarrow> inner_step cfg t (stacks st t) st)"

section \<open>What task bodies and the code outside the pool do\<close>

datatype user_action =
    Schedule_task u64 int int
  | Run_on u64 u64
  | Enter_loop bool bool
  | Cancel_pool
  | Begin_destructor
  | Set_partitions "(u32 \<times> u32) list"
  | Return

definition user_code :: "pool_config \<Rightarrow> nat \<Rightarrow> frame list \<Rightarrow> bool" where
  "user_code cfg t fs \<longleftrightarrow>
     (case fs of [] \<Rightarrow> t = 0 \<or> workers cfg \<le> t | Body w # _ \<Rightarrow> True | _ \<Rightarrow> False)"

text \<open>
  A thread outside the pool has \<open>thread_id\<close> \<open>-1\<close>, as one that is in no pool has: the program has only one pool,
  and a worker of a second one, whose \<open>thread_id\<close> may be that of a worker here, is not a caller of this model.

  \<open>ScheduleWithHint\<close> (\<open>Schedule\<close> with the whole range), \<open>RunOnThread\<close>, \<open>JoinMainThread\<close> and \<open>TryExecuteSomething\<close> (with
  \<open>once\<close>; whether it may steal is the state of the stack), \<open>Cancel\<close>, the first store of the destructor,
  \<open>SetStealPartitions\<close>, and returning from the body of a task.  The threads below \<open>workers\<close> are those of the pool.
\<close>

fun user_step :: "pool_config \<Rightarrow> nat \<Rightarrow> user_action \<Rightarrow> conc_pool \<Rightarrow> conc_pool option" where
  "user_step cfg t (Schedule_task w start limit) st =
     (if t < workers cfg
      then Some (enter t (Pushing w t True # stacks st t) (st\<lparr>submitted := submitted st + {#w#}\<rparr>))
      else if \<not> (start < limit \<and> limit \<le> int (workers cfg)) then None
      else
        let num_queues = limit - start;
            (r, state) = Rand (rands st t);
            rnd = sint (r mod of_int num_queues)
        in if \<not> start + rnd < limit then None
           else Some (enter t (Pushing w (nat (start + rnd)) (start + rnd = - 1) # stacks st t)
                        (st\<lparr>rands := (rands st)(t := state), submitted := submitted st + {#w#}\<rparr>)))"
| "user_step cfg t (Run_on w threadIndex) st =
     (let i = threadIndex mod of_nat (workers cfg)
      in Some (enter t (Pushing w (unat i) (i = (if t < workers cfg then of_nat t else - 1)) # stacks st t)
                 (st\<lparr>submitted := submitted st + {#w#}\<rparr>)))"
| "user_step cfg t (Enter_loop once can_steal) st =
     (if t < workers cfg
      then Some (enter t (Looping \<lparr>lv_external = True, lv_once = once, lv_can_steal = can_steal, lv_processed = False,
             lv_all_empty = False\<rparr> Reset_load # stacks st t) st)
      else Some (st\<lparr>answers := (answers st)(t := False)\<rparr>))"
| "user_step cfg t Cancel_pool st = Some (enter t (Cancelling # stacks st t) (st\<lparr>cancel_flag := True\<rparr>))"
| "user_step cfg t Begin_destructor st = Some (st\<lparr>done_flag := True\<rparr>)"
| "user_step cfg t (Set_partitions ps) st =
     (if length ps = workers cfg then Some (enter t (Partitioning (zip [0..<length ps] ps) # stacks st t) st) else None)"
| "user_step cfg t Return st =
     (case stacks st t of Body w # fs \<Rightarrow> Some (enter t fs st) | _ \<Rightarrow> None)"

text \<open>The pool after its constructor: the workers other than the first one are in their loops.\<close>

definition start_pool :: "pool_config \<Rightarrow> (nat \<Rightarrow> u64) \<Rightarrow> (nat \<Rightarrow> bool) \<Rightarrow> conc_pool option" where
  "start_pool cfg seeds half_full =
     (if \<not> (0 < workers cfg \<and> int (workers cfg) < kMaxThreads \<and> workers cfg \<le> all_threads cfg) then None
      else case (new_deque (deque_size cfg), new_mailbox (mailbox_size cfg)) of
        (Some d, Some m) \<Rightarrow>
          Some \<lparr>deques = (\<lambda>_. d), mails = (\<lambda>_. m), next_slots = (\<lambda>_. 0),
            partitions = (\<lambda>_. EncodePartition 0 (of_nat (workers cfg))), rands = seeds,
            cancel_flag = False, done_flag = False,
            stacks = (\<lambda>t. if 0 < t \<and> t < workers cfg
              then [Looping \<lparr>lv_external = False, lv_once = False, lv_can_steal = half_full t, lv_processed = False,
                     lv_all_empty = False\<rparr> Reset_load] else []),
            answers = (\<lambda>_. False), entered = [], submitted = {#}\<rparr>
      | _ \<Rightarrow> None)"

datatype pool_move = Advance nat | Act nat user_action

text \<open>
  What the pool requires of its callers: tasks are real, the range of a hint does not start below zero, and the
  partitions have the bounds the assertions ask for.
\<close>

fun proper_action :: "pool_config \<Rightarrow> user_action \<Rightarrow> bool" where
  "proper_action cfg (Schedule_task w start limit) \<longleftrightarrow>
     is_task w \<and> 0 \<le> start \<and> start < limit \<and> limit \<le> int (workers cfg)"
| "proper_action cfg (Run_on w i) \<longleftrightarrow> is_task w"
| "proper_action cfg (Set_partitions ps) \<longleftrightarrow> length ps = workers cfg \<and> (\<forall>p \<in> set ps. in_bounds (int (workers cfg)) p)"
| "proper_action cfg a \<longleftrightarrow> True"

fun make_move :: "pool_config \<Rightarrow> pool_move \<Rightarrow> conc_pool \<Rightarrow> conc_pool option" where
  "make_move cfg (Advance t) st = (if t < all_threads cfg then pool_step cfg t st else None)"
| "make_move cfg (Act t a) st =
     (if t < all_threads cfg \<and> user_code cfg t (stacks st t) \<and> proper_action cfg a then user_step cfg t a st else None)"

inductive pool_run :: "pool_config \<Rightarrow> conc_pool \<Rightarrow> bool" for cfg where
  start: "start_pool cfg seeds half_full = Some st \<Longrightarrow> pool_run cfg st"
| move: "pool_run cfg st \<Longrightarrow> make_move cfg m st = Some st' \<Longrightarrow> pool_run cfg st'"

section \<open>The tasks in the queues and in the hands of threads\<close>

definition waiting_tasks :: "pool_config \<Rightarrow> conc_pool \<Rightarrow> u64 multiset" where
  "waiting_tasks cfg st =
     (\<Sum>i<workers cfg. dq_items (deque_size cfg) (deques st i)) + (\<Sum>i<workers cfg. mb_items (mails st i))"

fun carried :: "frame list \<Rightarrow> u64 multiset" where
  "carried (Execute w # fs) = {#w#}"
| "carried fs = {#}"

definition hand :: "conc_pool \<Rightarrow> nat \<Rightarrow> u64 multiset" where
  "hand st t =
     (case call_of t (stacks st t) of
        On_deque i op \<Rightarrow> dq_held (deques st i) (tid i t)
      | On_mail i op \<Rightarrow> mb_held (mails st i) t
      | No_call \<Rightarrow> carried (stacks st t))"

text \<open>What a thread has in hand when it goes on with the frames \<open>fs\<close>.\<close>

definition fresh_hand :: "nat \<Rightarrow> frame list \<Rightarrow> u64 multiset" where
  "fresh_hand t fs =
     (case call_of t fs of
        On_deque i op \<Rightarrow> offered (dq_kind op) | On_mail i op \<Rightarrow> offered (mb_kind op) | No_call \<Rightarrow> carried fs)"

section \<open>The invariant\<close>

definition queues_ok :: "pool_config \<Rightarrow> conc_pool \<Rightarrow> bool" where
  "queues_ok cfg st \<longleftrightarrow>
     (\<forall>i<workers cfg. dq_ok (deque_size cfg) (deques st i) \<and> mb_ok (mailbox_size cfg) (mails st i))"

text \<open>Only the innermost frame is active.\<close>

definition victims_ok :: "pool_config \<Rightarrow> u32 \<Rightarrow> u32 \<Rightarrow> u32 list \<Rightarrow> bool" where
  "victims_ok cfg start limit xs \<longleftrightarrow>
     unat limit \<le> workers cfg \<and> (\<forall>x \<in> set xs. unat start + unat x < unat limit)"

fun pc_ok :: "pool_config \<Rightarrow> loop_pc \<Rightarrow> bool" where
  "pc_ok cfg (Runnext_cas p) \<longleftrightarrow> p = IDLE"
| "pc_ok cfg (Victim_mail g s l xs) \<longleftrightarrow> xs \<noteq> [] \<and> victims_ok cfg s l xs"
| "pc_ok cfg (Victim_back g s l xs) \<longleftrightarrow> xs \<noteq> [] \<and> victims_ok cfg s l xs"
| "pc_ok cfg pc \<longleftrightarrow> True"

fun frame_ok :: "pool_config \<Rightarrow> nat \<Rightarrow> frame \<Rightarrow> bool" where
  "frame_ok cfg t (Pushing w i local) \<longleftrightarrow> is_task w \<and> i < workers cfg \<and> (local \<longrightarrow> i = t)"
| "frame_ok cfg t (Looping v pc) \<longleftrightarrow> t < workers cfg \<and> pc_ok cfg pc"
| "frame_ok cfg t (Partitioning ps) \<longleftrightarrow> (\<forall>p \<in> set ps. in_bounds (int (workers cfg)) (snd p))"
| "frame_ok cfg t f \<longleftrightarrow> True"

fun suspended :: "pool_config \<Rightarrow> nat \<Rightarrow> frame \<Rightarrow> bool" where
  "suspended cfg t (Body w) \<longleftrightarrow> True"
| "suspended cfg t (Looping v pc) \<longleftrightarrow> t < workers cfg \<and> pc = Running"
| "suspended cfg t f \<longleftrightarrow> False"

definition frames_ok :: "pool_config \<Rightarrow> nat \<Rightarrow> frame list \<Rightarrow> bool" where
  "frames_ok cfg t fs \<longleftrightarrow>
     (case fs of [] \<Rightarrow> True | f # gs \<Rightarrow> frame_ok cfg t f \<and> (\<forall>g \<in> set gs. suspended cfg t g))"

text \<open>The queues a thread is not in a call on; the call it is in.\<close>

definition rests :: "pool_config \<Rightarrow> conc_pool \<Rightarrow> nat \<Rightarrow> bool" where
  "rests cfg st t \<longleftrightarrow> (\<forall>i<workers cfg. dq_rest (deques st i) (tid i t) \<and> mb_rest (mails st i) t)"

definition calls_ok :: "pool_config \<Rightarrow> conc_pool \<Rightarrow> nat \<Rightarrow> queue_call \<Rightarrow> bool" where
  "calls_ok cfg st t c \<longleftrightarrow>
     (\<forall>i<workers cfg. ((\<exists>op. c = On_deque i op) \<or> dq_rest (deques st i) (tid i t)) \<and>
        ((\<exists>op. c = On_mail i op) \<or> mb_rest (mails st i) t)) \<and>
     (case c of
        On_deque i op \<Rightarrow> dq_calls (deques st i) (tid i t) = Some op
      | On_mail i op \<Rightarrow> mb_current (mails st i) t = Some op
      | No_call \<Rightarrow> True)"

definition thread_ok :: "pool_config \<Rightarrow> conc_pool \<Rightarrow> nat \<Rightarrow> bool" where
  "thread_ok cfg st t \<longleftrightarrow> frames_ok cfg t (stacks st t) \<and> calls_ok cfg st t (call_of t (stacks st t))"

definition balanced :: "pool_config \<Rightarrow> conc_pool \<Rightarrow> bool" where
  "balanced cfg st \<longleftrightarrow>
     waiting_tasks cfg st + (\<Sum>t<all_threads cfg. hand st t) + mset (entered st) = submitted st"

definition words_ok :: "pool_config \<Rightarrow> conc_pool \<Rightarrow> bool" where
  "words_ok cfg st \<longleftrightarrow> (\<forall>i. (next_slots st i = 0 \<or> next_slots st i = IDLE) \<and>
     partition_ok (int (workers cfg)) (partitions st i))"

definition conc_pool_inv :: "pool_config \<Rightarrow> conc_pool \<Rightarrow> bool" where
  "conc_pool_inv cfg st \<longleftrightarrow> 0 < workers cfg \<and> int (workers cfg) < kMaxThreads \<and> queues_ok cfg st \<and>
     (\<forall>t. thread_ok cfg st t) \<and> (\<forall>t \<ge> all_threads cfg. stacks st t = []) \<and> words_ok cfg st \<and> balanced cfg st"

definition pool_few :: "pool_config \<Rightarrow> conc_pool \<Rightarrow> bool" where
  "pool_few cfg st \<longleftrightarrow> (\<forall>i<workers cfg. mb_few (mails st i))"

section \<open>Calls\<close>

lemma tid_simps [simp]: "tid i i = 0" "tid i (tid i t) = t" "tid i u = tid i t \<longleftrightarrow> u = t" "tid i t = 0 \<longleftrightarrow> t = i"
  by (auto simp: tid_def)

lemma frames_ok_Cons:
  "frames_ok cfg t (f # fs) \<longleftrightarrow> frame_ok cfg t f \<and> (\<forall>f \<in> set fs. suspended cfg t f)"
  by (simp add: frames_ok_def)

lemma suspended_frame: "suspended cfg t f \<Longrightarrow> frame_ok cfg t f"
  by (cases f) auto

lemma suspended_frames: "\<forall>f \<in> set fs. suspended cfg t f \<Longrightarrow> frames_ok cfg t fs"
  by (cases fs) (auto simp: frames_ok_def suspended_frame)

lemma suspended_hand: "\<forall>f \<in> set fs. suspended cfg t f \<Longrightarrow> fresh_hand t fs = {#}"
proof (cases fs)
  case (Cons f gs)
  then show "\<forall>f \<in> set fs. suspended cfg t f \<Longrightarrow> ?thesis" by (cases f) (auto simp: fresh_hand_def)
qed (simp add: fresh_hand_def)

lemma pushing_may: "is_task w \<Longrightarrow> dq_may 0 (PushF w) \<and> mb_may t (TryPush w)"
  by (simp add: dq_may_def mb_may_def is_task_def)

lemma call_of_cases:
  obtains "call_of t fs = No_call"
  | w i local gs where "fs = Pushing w i local # gs"
  | v gs where "fs = Looping v Pop_local # gs"
  | v gs where "fs = Looping v Pop_mail # gs"
  | v global s l x xs gs where "fs = Looping v (Victim_mail global s l (x # xs)) # gs"
  | v global s l x xs gs where "fs = Looping v (Victim_back global s l (x # xs)) # gs"
proof (cases fs)
  case (Cons f gs)
  then show thesis using that
  proof (cases f)
    case (Looping v pc)
    then show thesis using that Cons
    proof (cases pc)
      case (Victim_mail g s l xs)
      then show thesis using that Cons Looping by (cases xs) auto
    next
      case (Victim_back g s l xs)
      then show thesis using that Cons Looping by (cases xs) auto
    qed auto
  qed auto
qed (use that in auto)

lemma victims_ok_index:
  assumes "victims_ok cfg s l (y # ys)"
  shows "unat (s + y) = unat s + unat y" "s + y < l"
proof -
  have less: "unat s + unat y < unat l" using assms by (simp add: victims_ok_def)
  moreover have "unat l < 4294967296" using unsigned_less [of l] by simp
  ultimately have "unat s + unat y < 4294967296" by (rule less_trans)
  then show i: "unat (s + y) = unat s + unat y" by (simp add: unat_word_ariths)
  show "s + y < l" using less by (simp add: word_less_nat_alt i)
qed

lemma call_of_ok:
  assumes "frames_ok cfg t fs"
  shows "call_of t fs = On_deque i op \<Longrightarrow> i < workers cfg \<and> dq_may (tid i t) op"
    "call_of t fs = On_mail i mop \<Longrightarrow> i < workers cfg \<and> mb_may t mop"
proof -
  note [simp] = frames_ok_Cons dq_may_def mb_may_def is_task_def
  have less: "unat (s + y) < workers cfg" if "victims_ok cfg s l (y # ys)" for s y l ys
    using that victims_ok_index [OF that] by (simp add: victims_ok_def)
  show "call_of t fs = On_deque i op \<Longrightarrow> i < workers cfg \<and> dq_may (tid i t) op"
    using assms less by (cases t fs rule: call_of_cases) (auto split: if_splits)
  show "call_of t fs = On_mail i mop \<Longrightarrow> i < workers cfg \<and> mb_may t mop"
    using assms less by (cases t fs rule: call_of_cases) (auto split: if_splits)
qed

lemma enter_simps [simp]:
  "stacks (enter t fs st) = (stacks st)(t := fs)" "next_slots (enter t fs st) = next_slots st"
  "entered (enter t fs st) = entered st" "submitted (enter t fs st) = submitted st"
  "partitions (enter t fs st) = partitions st"
  by (simp_all add: enter_def Let_def split: queue_call.split)

lemma enter_few: "pool_few cfg (enter t fs st) = pool_few cfg st"
  by (auto simp: enter_def Let_def pool_few_def mails.call_few split: queue_call.split)

text \<open>Beginning a call touches only what the thread has in hand.\<close>

lemma enter_own:
  assumes ok: "queues_ok cfg st" and rest: "rests cfg st t" and frames: "frames_ok cfg t fs"
  shows "queues_ok cfg (enter t fs st)" "waiting_tasks cfg (enter t fs st) = waiting_tasks cfg st"
    "hand (enter t fs st) t = fresh_hand t fs" "thread_ok cfg (enter t fs st) t"
proof -
  have all: "queues_ok cfg (enter t fs st) \<and> waiting_tasks cfg (enter t fs st) = waiting_tasks cfg st \<and>
      hand (enter t fs st) t = fresh_hand t fs \<and> calls_ok cfg (enter t fs st) t (call_of t fs)"
  proof (cases "call_of t fs")
    case (On_deque i op)
    from call_of_ok(1) [OF frames this] have i: "i < workers cfg" and may: "dq_may (tid i t) op" by blast+
    have q: "dq_ok (deque_size cfg) (deques st i)" "dq_rest (deques st i) (tid i t)"
      using ok rest i by (auto simp: queues_ok_def rests_def)
    note call = deques.call_own [OF q may] deques.family_call [where cs = "deques st", OF q may]
    show ?thesis
      using ok rest call On_deque
      by (auto simp: queues_ok_def rests_def waiting_tasks_def hand_def fresh_hand_def calls_ok_def enter_def)
  next
    case (On_mail i op)
    from call_of_ok(2) [OF frames this] have i: "i < workers cfg" and may: "mb_may t op" by blast+
    have q: "mb_ok (mailbox_size cfg) (mails st i)" "mb_rest (mails st i) t"
      using ok rest i by (auto simp: queues_ok_def rests_def)
    note call = mails.call_own [OF q may] mails.family_call [where cs = "mails st", OF q may]
    show ?thesis
      using ok rest call On_mail
      by (auto simp: queues_ok_def rests_def waiting_tasks_def hand_def fresh_hand_def calls_ok_def enter_def)
  next
    case No_call
    then show ?thesis
      using ok rest by (simp add: queues_ok_def rests_def waiting_tasks_def hand_def fresh_hand_def calls_ok_def enter_def)
  qed
  then show "queues_ok cfg (enter t fs st)" "waiting_tasks cfg (enter t fs st) = waiting_tasks cfg st"
    "hand (enter t fs st) t = fresh_hand t fs" "thread_ok cfg (enter t fs st) t"
    using frames by (simp_all add: thread_ok_def)
qed

lemma enter_others:
  assumes "u \<noteq> t"
  shows "hand (enter t fs st) u = hand st u" "thread_ok cfg (enter t fs st) u = thread_ok cfg st u"
proof -
  have d: "dq_held (deques (enter t fs st) i) (tid i u) = dq_held (deques st i) (tid i u) \<and>
      dq_calls (deques (enter t fs st) i) (tid i u) = dq_calls (deques st i) (tid i u) \<and>
      dq_rest (deques (enter t fs st) i) (tid i u) = dq_rest (deques st i) (tid i u)" for i
    using deques.call_others [of "tid i u" "tid i t"] assms by (simp add: enter_def Let_def split: queue_call.split)
  have m: "mb_held (mails (enter t fs st) i) u = mb_held (mails st i) u \<and>
      mb_current (mails (enter t fs st) i) u = mb_current (mails st i) u \<and>
      mb_rest (mails (enter t fs st) i) u = mb_rest (mails st i) u" for i
    using mails.call_others [of u t] assms by (simp add: enter_def Let_def split: queue_call.split)
  show "hand (enter t fs st) u = hand st u" "thread_ok cfg (enter t fs st) u = thread_ok cfg st u"
    using assms d m by (simp_all add: hand_def thread_ok_def calls_ok_def split: queue_call.split)
qed

section \<open>Steps keep the invariant\<close>

definition same_queues :: "conc_pool \<Rightarrow> conc_pool \<Rightarrow> bool" where
  "same_queues st st' \<longleftrightarrow> deques st' = deques st \<and> mails st' = mails st \<and> stacks st' = stacks st"

lemma same_queuesD:
  assumes "same_queues st st'"
  shows "queues_ok cfg st' = queues_ok cfg st" "waiting_tasks cfg st' = waiting_tasks cfg st" "hand st' = hand st"
    "rests cfg st' = rests cfg st" "thread_ok cfg st' = thread_ok cfg st"
  using assms
  by (simp_all add: fun_eq_iff same_queues_def queues_ok_def waiting_tasks_def hand_def rests_def
      thread_ok_def calls_ok_def split: queue_call.split)

lemma balance_step:
  assumes bal: "balanced cfg st" and t: "t < all_threads cfg" and others: "\<And>u. u \<noteq> t \<Longrightarrow> hand st' u = hand st u"
    and own: "waiting_tasks cfg st' + hand st' t + mset (entered st') + submitted st =
      waiting_tasks cfg st + hand st t + mset (entered st) + submitted st'"
  shows "balanced cfg st'"
proof -
  let ?S = "\<Sum>u<all_threads cfg. hand st u" and ?S' = "\<Sum>u<all_threads cfg. hand st' u"
  let ?rest = "waiting_tasks cfg st' + mset (entered st') + submitted st"
  have sum: "?S' + hand st t = ?S + hand st' t"
    by (rule sum_change [OF t]) (simp add: others)
  have "waiting_tasks cfg st' + ?S' + mset (entered st') + (submitted st + hand st t) = (?S' + hand st t) + ?rest"
    by (simp add: ac_simps)
  also have "\<dots> = (waiting_tasks cfg st' + hand st' t + mset (entered st') + submitted st) + ?S"
    unfolding sum by (simp add: ac_simps)
  also have "\<dots> = submitted st' + (waiting_tasks cfg st + ?S + mset (entered st) + hand st t)"
    unfolding own by (simp add: ac_simps)
  finally show ?thesis unfolding bal [unfolded balanced_def] unfolding balanced_def by (simp only: add_right_cancel)
qed

lemma conc_pool_invD:
  assumes "conc_pool_inv cfg st"
  shows "0 < workers cfg" "int (workers cfg) < kMaxThreads" "queues_ok cfg st" "thread_ok cfg st t"
    "frames_ok cfg t (stacks st t)" "words_ok cfg st" "balanced cfg st" "all_threads cfg \<le> u \<Longrightarrow> stacks st u = []"
  using assms by (auto simp: conc_pool_inv_def thread_ok_def)

lemma no_call_rests: "thread_ok cfg st t \<Longrightarrow> call_of t (stacks st t) = No_call \<Longrightarrow> rests cfg st t"
  by (simp add: thread_ok_def calls_ok_def rests_def)

lemma enter_inv:
  assumes inv: "conc_pool_inv cfg st" and t: "t < all_threads cfg" and rest: "rests cfg st t"
    and frames: "frames_ok cfg t fs" and same: "same_queues st st1" and words: "words_ok cfg st1"
    and bal: "mset (entered st1) + fresh_hand t fs + submitted st = mset (entered st) + hand st t + submitted st1"
  shows "conc_pool_inv cfg (enter t fs st1)"
proof -
  note D = conc_pool_invD [OF inv]
  note S = same_queuesD [OF same]
  have own: "queues_ok cfg st1" "rests cfg st1 t" using D(3) rest by (simp_all add: S)
  note E = enter_own [OF own frames]
  have threads: "thread_ok cfg (enter t fs st1) u" for u
    using E(4) D(4) by (cases "u = t") (simp_all add: enter_others(2) S)
  have "balanced cfg (enter t fs st1)"
    by (rule balance_step [OF D(7) t]) (use bal in \<open>simp_all add: enter_others(1) E(2,3) S ac_simps\<close>)
  moreover have "stacks (enter t fs st1) u = []" if "all_threads cfg \<le> u" for u
    using D(8) [OF that] t that same by (simp add: same_queues_def)
  ultimately show ?thesis
    using D(1,2) E(1) threads words by (simp add: conc_pool_inv_def words_ok_def)
qed

text \<open>A step of the call in progress.\<close>

lemma deque_step_inv:
  assumes inv: "conc_pool_inv cfg st" and t: "t < all_threads cfg" and call: "call_of t (stacks st t) = On_deque i op"
    and step: "dq_step (deque_size cfg) (tid i t) (deques st i) = Some c"
  shows "conc_pool_inv cfg (st\<lparr>deques := (deques st)(i := c)\<rparr>)" (is "conc_pool_inv cfg ?st")
proof -
  note D = conc_pool_invD [OF inv]
  have i: "i < workers cfg" using call_of_ok(1) [OF D(5) call] by blast
  have ok: "dq_ok (deque_size cfg) (deques st i)" using D(3) i by (simp add: queues_ok_def)
  note own = deques.step_own [OF ok TrueI step] and others = deques.step_others [OF ok TrueI step]
  have hands: "hand ?st u = hand st u" if "u \<noteq> t" for u
    using others [of "tid i u"] that by (simp add: hand_def split: queue_call.split)
  have "thread_ok cfg ?st u" for u
    using D(4) [of u] own others [of "tid i u"] call
    by (cases "u = t") (auto simp: thread_ok_def calls_ok_def split: queue_call.splits)
  moreover have "waiting_tasks cfg ?st + hand ?st t = waiting_tasks cfg st + hand st t"
    using deques.family_step [where cs = "deques st", OF i ok TrueI step] call by (simp add: waiting_tasks_def hand_def ac_simps)
  then have "balanced cfg ?st" by (intro balance_step [OF D(7) t hands]) simp_all
  ultimately show ?thesis
    using D(1-3,6,8) own by (auto simp: conc_pool_inv_def queues_ok_def words_ok_def)
qed

lemma mail_step_inv:
  assumes inv: "conc_pool_inv cfg st" and t: "t < all_threads cfg" and call: "call_of t (stacks st t) = On_mail i op"
    and step: "mb_step t (mails st i) = Some c" and few: "mb_few c"
  shows "conc_pool_inv cfg (st\<lparr>mails := (mails st)(i := c)\<rparr>)" (is "conc_pool_inv cfg ?st")
proof -
  note D = conc_pool_invD [OF inv]
  have i: "i < workers cfg" using call_of_ok(2) [OF D(5) call] by blast
  have ok: "mb_ok (mailbox_size cfg) (mails st i)" using D(3) i by (simp add: queues_ok_def)
  note own = mails.step_own [OF ok few step] and others = mails.step_others [OF ok few step]
  have hands: "hand ?st u = hand st u" if "u \<noteq> t" for u
    using others [of u] that by (simp add: hand_def split: queue_call.split)
  have "thread_ok cfg ?st u" for u
    using D(4) [of u] own others [of u] call
    by (cases "u = t") (auto simp: thread_ok_def calls_ok_def split: queue_call.splits)
  moreover have "waiting_tasks cfg ?st + hand ?st t = waiting_tasks cfg st + hand st t"
    using mails.family_step [where cs = "mails st", OF i ok few step] call by (simp add: waiting_tasks_def hand_def ac_simps)
  then have "balanced cfg ?st" by (intro balance_step [OF D(7) t hands]) simp_all
  ultimately show ?thesis
    using D(1-3,6,8) own by (auto simp: conc_pool_inv_def queues_ok_def words_ok_def)
qed

text \<open>The end of a call on a queue.\<close>

lemma loop_hand: "fresh_hand t (Looping v pc # gs) = {#}"
proof (cases t "Looping v pc # gs" rule: call_of_cases)
qed (auto simp: fresh_hand_def offered_def dq_kind_def mb_kind_def)

lemma steal_next_ok:
  assumes "victims_ok cfg s l xs"
  shows "\<exists>pc. steal_next v g s l xs = Some pc \<and> pc_ok cfg pc"
proof (cases xs)
  case Nil
  then show ?thesis by (simp add: nothing_pc_def)
next
  case (Cons y ys)
  then show ?thesis using assms victims_ok_index [of cfg s l y ys] by simp
qed

lemma not_found_ok:
  assumes "pc_ok cfg pc" "call_of t (Looping v pc # gs) \<noteq> No_call"
  shows "\<exists>pc'. not_found v pc = Some pc' \<and> pc_ok cfg pc'"
proof (cases t "Looping v pc # gs" rule: call_of_cases)
  case (5 u global s l x xs hs)
  have "victims_ok cfg s l xs" using assms(1) 5 by (simp add: victims_ok_def)
  then show ?thesis using assms(1) 5 steal_next_ok [of cfg s l xs v global] by simp
next
  case (6 u global s l x xs hs)
  have "victims_ok cfg s l xs" using assms(1) 6 by (simp add: victims_ok_def)
  then show ?thesis using 6 steal_next_ok [of cfg s l xs v global] by simp
qed (use assms(2) in \<open>auto simp: nothing_pc_def\<close>)

definition call_kind :: "queue_call \<Rightarrow> store_op option" where
  "call_kind c = (case c of On_deque i op \<Rightarrow> Some (dq_kind op) | On_mail i op \<Rightarrow> Some (mb_kind op) | No_call \<Rightarrow> None)"

lemma after_call_ok:
  assumes frames: "frames_ok cfg t fs" and kind: "call_kind (call_of t fs) = Some k" and settled: "settled k r M"
  shows "\<exists>gs. after_call r fs = Some gs \<and> frames_ok cfg t gs \<and> fresh_hand t gs = M"
proof (cases fs)
  case Nil
  then show ?thesis using kind by (simp add: call_kind_def)
next
  case (Cons f gs)
  note fs = frames [unfolded Cons frames_ok_Cons]
  show ?thesis
  proof (cases f)
    case (Pushing w i local)
    then have k: "k = Put w" using kind Cons by (auto simp: call_kind_def dq_kind_def mb_kind_def split: if_splits)
    then obtain b where r: "r = Stored b" and "M = (if b then {#} else {#w#})" using settled by (auto simp: settled_def)
    then show ?thesis
      using Cons Pushing r fs suspended_frames [of gs cfg t] suspended_hand [of gs cfg t]
      by (auto simp: frames_ok_Cons fresh_hand_def)
  next
    case (Looping v pc)
    have k: "k = Get"
      using kind unfolding Cons Looping
      by (cases t "Looping v pc # gs" rule: call_of_cases) (auto simp: call_kind_def dq_kind_def mb_kind_def)
    then obtain y where r: "r = Got y" and M: "M = (if y = 0 then {#} else {#y#})"
      using settled by (auto simp: settled_def)
    have "call_of t (Looping v pc # gs) \<noteq> No_call" using kind Cons Looping by (auto simp: call_kind_def)
    from not_found_ok [OF _ this, of cfg] fs Looping
    obtain pc' where "not_found v pc = Some pc'" "pc_ok cfg pc'" by auto
    then show ?thesis
      using Cons Looping fs r M by (auto simp: frames_ok_Cons loop_hand) (simp add: fresh_hand_def)
  qed (use kind Cons in \<open>simp_all add: call_kind_def\<close>)
qed

section \<open>The other steps\<close>

lemma start_steal_ok:
  assumes "unat start < unat limit" "unat limit \<le> workers cfg" "int (workers cfg) < kMaxThreads"
  shows "\<exists>pc st'. start_steal v g start limit st = Some (pc, st') \<and> pc_ok cfg pc"
proof -
  obtain r st' where rand: "Rand st = (r, st')" by fastforce
  let ?n = "unat limit - unat start" and ?sz = "ucast (limit - start) :: u64"
  let ?cs = "ComputeCoprimes (int ?n)"
  have lim: "unat limit < 65536" using assms by (simp add: kMaxThreads_def kMaxPartitionBits_def)
  note V = steal_victims [OF assms(1) lim]
  have "victims_ok cfg start limit (victims ?n (?cs ! unat (reduce r (of_nat (length ?cs)))) ?sz (reduce r ?sz))"
    using assms(1,2) V(2) [of r] by (auto simp: victims_ok_def)
  from steal_next_ok [OF this, of v g] show ?thesis
    using V(1) by (auto simp: start_steal_def Let_def rand simp del: of_nat_unat)
qed

text \<open>Partitions are in bounds, so the assertion of \<open>LocalSteal\<close> holds.\<close>

lemma partition_decoded:
  assumes "partition_ok (int n) p" "int n < kMaxThreads"
  shows "\<exists>start limit. DecodePartition p = (start, limit) \<and> AssertBounds (int n) (sint start) (sint limit) \<and>
    unat start < unat limit \<and> unat limit \<le> n"
proof -
  obtain start limit where p: "p = EncodePartition start limit" and b: "unat start < unat limit" "unat limit \<le> n"
    using assms(1) by (auto simp: partition_ok_def AssertBounds_def simp del: of_nat_unat)
  have "n < 65536" using assms(2) by (simp add: kMaxThreads_def kMaxPartitionBits_def)
  then have u: "unat start < 65536" "unat limit < 65536" using b by linarith+
  then have "DecodePartition p = (start, limit)" unfolding p by (intro decode_encode) simp_all
  moreover have "sint start = int (unat start)" "sint limit = int (unat limit)" using u by (intro sint_small; simp)+
  ultimately show ?thesis using b by (simp add: AssertBounds_def del: of_nat_unat)
qed

text \<open>Going on without a change of what is in hand.\<close>

lemma goto_inv:
  assumes "conc_pool_inv cfg st" "t < all_threads cfg" "call_of t (stacks st t) = No_call" "frames_ok cfg t fs"
    and "same_queues st st1" "words_ok cfg st1" "fresh_hand t fs = carried (stacks st t)"
    and "entered st1 = entered st" "submitted st1 = submitted st"
  shows "conc_pool_inv cfg (enter t fs st1)"
proof (rule enter_inv [OF assms(1,2) _ assms(4-6)])
  show "rests cfg st t" using no_call_rests conc_pool_invD(4) assms(1,3) by blast
  show "mset (entered st1) + fresh_hand t fs + submitted st = mset (entered st) + hand st t + submitted st1"
    using assms(3,7-9) by (simp add: hand_def)
qed

lemma loop_step_ok:
  assumes inv: "conc_pool_inv cfg st" and t: "t < all_threads cfg" and top: "stacks st t = Looping v pc # fs"
    and call: "call_of t (stacks st t) = No_call"
  shows "\<exists>st'. loop_step cfg t v pc fs st = Some st' \<and> conc_pool_inv cfg st' \<and> pool_few cfg st' = pool_few cfg st"
proof -
  note D = conc_pool_invD [OF inv]
  have frames: "t < workers cfg" "pc_ok cfg pc" and susp: "\<forall>f \<in> set fs. suspended cfg t f"
    using D(5) [of t] top by (simp_all add: frames_ok_Cons)
  have words: "words_ok cfg st" by (rule D(6))
  have loop: "conc_pool_inv cfg (enter t (Looping v' pc' # fs) st1)"
    if "pc_ok cfg pc'" "same_queues st st1" "words_ok cfg st1" "entered st1 = entered st" "submitted st1 = submitted st"
    for v' pc' st1
    by (rule goto_inv [OF inv t call]) (use that frames susp top in \<open>simp_all add: frames_ok_Cons loop_hand\<close>)
  have leave: "conc_pool_inv cfg (leave_loop t v' fs st1)"
    if "same_queues st st1" "words_ok cfg st1" "entered st1 = entered st" "submitted st1 = submitted st" for v' st1
    unfolding leave_loop_def
    by (rule goto_inv [OF inv t call])
      (use that susp top in \<open>simp_all add: suspended_frames suspended_hand same_queues_def words_ok_def\<close>)
  have ended: "conc_pool_inv cfg (end_of_body t v' fs st)" for v'
    using loop [of Loop_test st v'] leave [of st v'] words by (simp add: end_of_body_def same_queues_def)
  have few: "pool_few cfg (leave_loop t v' fs st1) = pool_few cfg st" "pool_few cfg (enter t gs st1) = pool_few cfg st"
    "pool_few cfg (end_of_body t v' fs st1) = pool_few cfg st"
    if "same_queues st st1" for v' gs st1
    using that by (auto simp: leave_loop_def end_of_body_def enter_few) (auto simp: pool_few_def same_queues_def)
  have same: "same_queues st st" "same_queues st (st\<lparr>next_slots := x\<rparr>)" "same_queues st (st\<lparr>rands := y\<rparr>)" for x y
    by (simp_all add: same_queues_def)
  have idle: "words_ok cfg (st\<lparr>next_slots := (next_slots st)(t := x)\<rparr>)" if "x = 0 \<or> x = IDLE" for x
    using words that by (auto simp: words_ok_def)
  have rand: "words_ok cfg (st\<lparr>rands := y\<rparr>)" for y using words by (simp add: words_ok_def)
  have slot: "next_slots st t = 0 \<or> next_slots st t = IDLE" using words by (simp add: words_ok_def)
  note [simp] = few same idle rand words
  have steal: "\<exists>pc' r'. start_steal v g s l (rands st t) = Some (pc', r') \<and> pc_ok cfg pc'"
    if "unat s < unat l" "unat l \<le> workers cfg" for g s l
    using start_steal_ok [OF that D(2)] .
  show ?thesis
  proof (cases pc)
    case Local_start
    obtain s l where dec: "DecodePartition (partitions st t) = (s, l)" "AssertBounds (int (workers cfg)) (sint s) (sint l)"
      "unat s < unat l" "unat l \<le> workers cfg"
      using partition_decoded [OF _ D(2)] words unfolding words_ok_def by blast
    from steal [OF dec(3,4), of False] show ?thesis using Local_start dec(1,2) by (auto simp: Let_def intro!: loop)
  next
    case Global_start
    have "workers cfg < 65536" using D(2) by (simp add: kMaxThreads_def kMaxPartitionBits_def)
    then have "unat (of_nat (workers cfg) :: u32) = workers cfg" by (simp add: unat_of_nat)
    then have "unat (0 :: u32) < unat (of_nat (workers cfg) :: u32)" "unat (of_nat (workers cfg) :: u32) \<le> workers cfg"
      using D(1) by simp_all
    from steal [OF this, of True] show ?thesis using Global_start by (auto intro!: loop)
  next
    case (Runnext_cas p)
    then show ?thesis using frames(2) by (auto intro!: loop)
  next
    case (Victim_mail g s l xs)
    then show ?thesis using frames(2) call top by (cases xs) simp_all
  next
    case (Victim_back g s l xs)
    then show ?thesis using frames(2) call top by (cases xs) simp_all
  qed (use call top slot in \<open>auto intro!: loop leave ended\<close>)
qed

lemma same_queues_few: "same_queues st st1 \<Longrightarrow> pool_few cfg st1 = pool_few cfg st"
  by (simp add: pool_few_def same_queues_def)

lemma small_workers: "int (workers cfg) < kMaxThreads \<Longrightarrow> workers cfg < 65536"
  by (simp add: kMaxThreads_def kMaxPartitionBits_def)

lemma inner_step_ok:
  assumes inv: "conc_pool_inv cfg st" and t: "t < all_threads cfg" and top: "stacks st t = f # fs"
    and call: "call_of t (stacks st t) = No_call" and pool: "\<forall>w. f \<noteq> Body w"
  shows "\<exists>st'. inner_step cfg t (f # fs) st = Some st' \<and> conc_pool_inv cfg st' \<and> pool_few cfg st' = pool_few cfg st"
proof -
  note D = conc_pool_invD [OF inv]
  have frame: "frame_ok cfg t f" and susp: "\<forall>f \<in> set fs. suspended cfg t f"
    using D(5) [of t] top by (simp_all add: frames_ok_Cons)
  have on: "conc_pool_inv cfg (enter t gs st1) \<and> pool_few cfg (enter t gs st1) = pool_few cfg st"
    if "frames_ok cfg t gs" "same_queues st st1" "words_ok cfg st1" "fresh_hand t gs = carried (f # fs)"
      "entered st1 = entered st" "submitted st1 = submitted st" for gs st1
    using goto_inv [OF inv t call] that top same_queues_few by (simp add: enter_few)
  show ?thesis
  proof (cases f)
    case (Execute w)
    have "conc_pool_inv cfg (enter t (Body w # fs) (st\<lparr>entered := entered st @ [w]\<rparr>))"
    proof (rule enter_inv [OF inv t no_call_rests [OF D(4) call]])
      show "mset (entered (st\<lparr>entered := entered st @ [w]\<rparr>)) + fresh_hand t (Body w # fs) + submitted st =
          mset (entered st) + hand st t + submitted (st\<lparr>entered := entered st @ [w]\<rparr>)"
        using call top Execute by (simp add: hand_def fresh_hand_def)
    qed (use susp D(6) in \<open>simp_all add: frames_ok_Cons same_queues_def words_ok_def\<close>)
    moreover have "pool_few cfg (enter t (Body w # fs) (st\<lparr>entered := entered st @ [w]\<rparr>)) = pool_few cfg st"
      using same_queues_few [of st "st\<lparr>entered := entered st @ [w]\<rparr>"] by (simp add: enter_few same_queues_def)
    ultimately show ?thesis using Execute by simp
  next
    case Cancelling
    then show ?thesis
      using on [of fs "st\<lparr>done_flag := True\<rparr>"] susp D(6)
      by (simp add: suspended_frames suspended_hand same_queues_def words_ok_def)
  next
    case (Partitioning ps)
    show ?thesis
    proof (cases ps)
      case Nil
      then show ?thesis
        using on [of fs st] Partitioning susp D(6) by (simp add: suspended_frames suspended_hand same_queues_def)
    next
      case (Cons p qs)
      obtain i s l where p: "p = (i, s, l)" by (cases p)
      let ?st = "st\<lparr>partitions := (partitions st)(i := EncodePartition s l)\<rparr>"
      have b: "in_bounds (int (workers cfg)) (s, l)" using frame Partitioning Cons p by simp
      then have "partition_ok (int (workers cfg)) (EncodePartition s l)"
        using in_boundsD(3) small_workers [OF D(2)] by simp
      then have "words_ok cfg ?st" using D(6) by (simp add: words_ok_def)
      moreover have "frames_ok cfg t (Partitioning qs # fs)" using frame Partitioning Cons susp by (simp add: frames_ok_Cons)
      ultimately show ?thesis
        using on [of "Partitioning qs # fs" ?st] Partitioning Cons p b
        by (simp add: fresh_hand_def same_queues_def in_bounds_def)
    qed
  next
    case (Looping v pc)
    then show ?thesis using loop_step_ok [OF inv t _ call] top by simp
  qed (use pool call top in \<open>auto split: if_splits\<close>)
qed

text \<open>A call on a queue returns.\<close>

lemma returned_ok:
  assumes inv: "conc_pool_inv cfg st" and t: "t < all_threads cfg" and rest: "rests cfg st t"
    and kind: "call_kind (call_of t (stacks st t)) = Some k" and settled: "settled k r (hand st t)"
  shows "\<exists>st'. map_option (\<lambda>fs. enter t fs st) (after_call r (stacks st t)) = Some st' \<and> conc_pool_inv cfg st' \<and>
    pool_few cfg st' = pool_few cfg st"
proof -
  note D = conc_pool_invD [OF inv]
  obtain gs where gs: "after_call r (stacks st t) = Some gs" "frames_ok cfg t gs" "fresh_hand t gs = hand st t"
    using after_call_ok [OF D(5) kind settled] by blast
  have "conc_pool_inv cfg (enter t gs st)"
    by (rule enter_inv [OF inv t rest gs(2)]) (use gs(3) D(6) in \<open>simp_all add: same_queues_def\<close>)
  then show ?thesis using gs(1) by (simp add: enter_few)
qed

lemma deque_returned:
  assumes inv: "conc_pool_inv cfg st" and t: "t < all_threads cfg" and call: "call_of t (stacks st t) = On_deque i op"
    and r: "dq_result (deques st i) (tid i t) = Some r"
  shows "\<exists>st'. map_option (\<lambda>fs. enter t fs st) (after_call r (stacks st t)) = Some st' \<and> conc_pool_inv cfg st' \<and>
    pool_few cfg st' = pool_few cfg st"
proof -
  note D = conc_pool_invD [OF inv]
  have i: "i < workers cfg" using call_of_ok(1) [OF D(5) call] by blast
  have calls: "calls_ok cfg st t (On_deque i op)" using D(4) [of t] call by (simp add: thread_ok_def)
  have "dq_ok (deque_size cfg) (deques st i)" using D(3) i by (simp add: queues_ok_def)
  from deques.result_ok [OF this TrueI r, of op] calls
  have "dq_rest (deques st i) (tid i t)" "settled (dq_kind op) r (hand st t)"
    using call by (simp_all add: calls_ok_def hand_def)
  then show ?thesis
    using returned_ok [OF inv t, of "dq_kind op" r] calls call
    by (simp add: rests_def calls_ok_def call_kind_def) (metis queue_call.inject(1))
qed

lemma mail_returned:
  assumes inv: "conc_pool_inv cfg st" and t: "t < all_threads cfg" and call: "call_of t (stacks st t) = On_mail i op"
    and r: "mb_result (mails st i) t = Some r" and few: "pool_few cfg st"
  shows "\<exists>st'. map_option (\<lambda>fs. enter t fs st) (after_call r (stacks st t)) = Some st' \<and> conc_pool_inv cfg st' \<and>
    pool_few cfg st' = pool_few cfg st"
proof -
  note D = conc_pool_invD [OF inv]
  have i: "i < workers cfg" using call_of_ok(2) [OF D(5) call] by blast
  have calls: "calls_ok cfg st t (On_mail i op)" using D(4) [of t] call by (simp add: thread_ok_def)
  have "mb_ok (mailbox_size cfg) (mails st i)" "mb_few (mails st i)"
    using D(3) i few by (simp_all add: queues_ok_def pool_few_def)
  from mails.result_ok [OF this r, of op] calls
  have "mb_rest (mails st i) t" "settled (mb_kind op) r (hand st t)"
    using call by (simp_all add: calls_ok_def hand_def)
  then show ?thesis
    using returned_ok [OF inv t, of "mb_kind op" r] calls call
    by (simp add: rests_def calls_ok_def call_kind_def) (metis queue_call.inject(2))
qed

text \<open>A thread inside the pool can always step, except where it waits for the mutex of a deque.\<close>

definition awaits_mutex :: "pool_config \<Rightarrow> conc_pool \<Rightarrow> nat \<Rightarrow> bool" where
  "awaits_mutex cfg st t \<longleftrightarrow>
     (\<exists>i op. call_of t (stacks st t) = On_deque i op \<and> dq_result (deques st i) (tid i t) = None \<and>
        dq_step (deque_size cfg) (tid i t) (deques st i) = None)"

definition in_pool_code :: "conc_pool \<Rightarrow> nat \<Rightarrow> bool" where
  "in_pool_code st t \<longleftrightarrow> (case stacks st t of [] \<Rightarrow> False | Body w # _ \<Rightarrow> False | _ \<Rightarrow> True)"

lemma mail_steps:
  assumes inv: "conc_pool_inv cfg st" and call: "call_of t (stacks st t) = On_mail i op"
    and r: "mb_result (mails st i) t = None"
  shows "mb_step t (mails st i) \<noteq> None"
proof -
  note D = conc_pool_invD [OF inv]
  have i: "i < workers cfg" using call_of_ok(2) [OF D(5) call] by blast
  have "mb_current (mails st i) t = Some op" using D(4) [of t] call by (simp add: thread_ok_def calls_ok_def)
  moreover have "mb_ok (mailbox_size cfg) (mails st i)" using D(3) i by (simp add: queues_ok_def)
  ultimately have "\<not> mb_rest (mails st i) t" using mails.active r by blast
  then show ?thesis by (simp add: mb_rest_def mb_step_def split: prod.split)
qed

lemma pool_step_ok:
  assumes inv: "conc_pool_inv cfg st" and t: "t < all_threads cfg" and few: "pool_few cfg st"
    and "in_pool_code st t" "\<not> awaits_mutex cfg st t"
  shows "\<exists>st'. pool_step cfg t st = Some st' \<and> (pool_few cfg st' \<longrightarrow> conc_pool_inv cfg st')"
proof (cases "call_of t (stacks st t)")
  case (On_deque i op)
  show ?thesis
  proof (cases "dq_result (deques st i) (tid i t)")
    case None
    then obtain c where "dq_step (deque_size cfg) (tid i t) (deques st i) = Some c"
      using assms(5) On_deque by (auto simp: awaits_mutex_def)
    then show ?thesis using On_deque None deque_step_inv [OF inv t On_deque] by (simp add: pool_step_def)
  next
    case (Some r)
    then show ?thesis using deque_returned [OF inv t On_deque Some] On_deque by (auto simp: pool_step_def)
  qed
next
  case (On_mail i op)
  have i: "i < workers cfg" using call_of_ok(2) [OF conc_pool_invD(5) [OF inv] On_mail] by blast
  show ?thesis
  proof (cases "mb_result (mails st i) t")
    case None
    then obtain c where c: "mb_step t (mails st i) = Some c" using mail_steps [OF inv On_mail] by auto
    have "mb_few c" if "pool_few cfg (st\<lparr>mails := (mails st)(i := c)\<rparr>)" using that i by (auto simp: pool_few_def)
    then show ?thesis using On_mail None c mail_step_inv [OF inv t On_mail c] by (simp add: pool_step_def)
  next
    case (Some r)
    then show ?thesis using mail_returned [OF inv t On_mail Some few] On_mail by (auto simp: pool_step_def)
  qed
next
  case No_call
  obtain f fs where "stacks st t = f # fs" "\<forall>w. f \<noteq> Body w"
    using assms(4) by (auto simp: in_pool_code_def split: list.splits frame.splits)
  from inner_step_ok [OF inv t this(1) No_call this(2)] this(1) show ?thesis
    using No_call by (auto simp: pool_step_def)
qed

lemma outside_no_call: "\<not> in_pool_code st t \<Longrightarrow> call_of t (stacks st t) = No_call"
  by (auto simp: in_pool_code_def split: list.splits frame.splits)

lemma outside_steps: "\<not> in_pool_code st t \<Longrightarrow> pool_step cfg t st = None"
  by (auto simp: in_pool_code_def pool_step_def split: list.splits frame.splits)

text \<open>The number of tickets drawn from the mailboxes only grows.\<close>

lemma few_updates [simp]:
  "pool_few cfg (st\<lparr>next_slots := a\<rparr>) = pool_few cfg st" "pool_few cfg (st\<lparr>rands := b\<rparr>) = pool_few cfg st"
  "pool_few cfg (st\<lparr>answers := c\<rparr>) = pool_few cfg st" "pool_few cfg (st\<lparr>entered := d\<rparr>) = pool_few cfg st"
  "pool_few cfg (st\<lparr>done_flag := e\<rparr>) = pool_few cfg st" "pool_few cfg (st\<lparr>cancel_flag := e\<rparr>) = pool_few cfg st"
  "pool_few cfg (st\<lparr>partitions := f\<rparr>) = pool_few cfg st" "pool_few cfg (st\<lparr>submitted := g\<rparr>) = pool_few cfg st"
  "pool_few cfg (st\<lparr>rands := b, submitted := g\<rparr>) = pool_few cfg st"
  by (simp_all add: pool_few_def)

lemma loop_step_few: "loop_step cfg t v pc fs st = Some st' \<Longrightarrow> pool_few cfg st' = pool_few cfg st"
  by (cases pc) (auto simp: enter_few leave_loop_def end_of_body_def Let_def split: if_splits prod.splits)

lemma inner_step_few: "inner_step cfg t fs st = Some st' \<Longrightarrow> pool_few cfg st' = pool_few cfg st"
  by (cases "(cfg, t, fs, st)" rule: inner_step.cases) (auto simp: enter_few loop_step_few split: if_splits)

lemma pool_step_few:
  assumes "pool_step cfg t st = Some st'" "pool_few cfg st'"
  shows "pool_few cfg st"
proof (cases "call_of t (stacks st t)")
  case (On_deque i op)
  then show ?thesis
    using assms by (auto simp: pool_step_def enter_few split: option.splits) (auto simp: pool_few_def)
next
  case (On_mail i op)
  show ?thesis
  proof (cases "mb_result (mails st i) t")
    case None
    then obtain c where c: "mb_step t (mails st i) = Some c" "st' = st\<lparr>mails := (mails st)(i := c)\<rparr>"
      using assms On_mail by (auto simp: pool_step_def)
    have "mb_few (mails st j)" if "j < workers cfg" for j
      using assms(2) that mails.step_few [OF c(1)] by (cases "j = i") (auto simp: c(2) pool_few_def)
    then show ?thesis by (simp add: pool_few_def)
  next
    case (Some r)
    then show ?thesis using assms On_mail by (auto simp: pool_step_def enter_few)
  qed
next
  case No_call
  then show ?thesis using assms inner_step_few by (auto simp: pool_step_def)
qed

lemma user_step_few: "user_step cfg t a st = Some st' \<Longrightarrow> pool_few cfg st' = pool_few cfg st"
  by (cases a) (auto simp: enter_few Let_def split: if_splits prod.splits list.splits frame.splits)

text \<open>What task bodies and the code outside the pool may do is always possible, and keeps the invariant.\<close>

lemma user_step_ok:
  assumes inv: "conc_pool_inv cfg st" and t: "t < all_threads cfg" and user: "user_code cfg t (stacks st t)"
    and proper: "proper_action cfg a" and body: "a = Return \<longrightarrow> stacks st t \<noteq> []"
  shows "\<exists>st'. user_step cfg t a st = Some st' \<and> conc_pool_inv cfg st'"
proof -
  note D = conc_pool_invD [OF inv]
  have "\<forall>f \<in> set (stacks st t). suspended cfg t f"
    using user D(5) [of t] by (cases "stacks st t") (auto simp: user_code_def frames_ok_Cons split: frame.splits)
  moreover have call: "call_of t (stacks st t) = No_call" and carry: "carried (stacks st t) = {#}"
    using user by (auto simp: user_code_def split: list.splits frame.splits)
  note rest = no_call_rests [OF D(4) call]
  have n: "workers cfg < 65536" by (rule small_workers [OF D(2)])
  have hand: "hand st t = {#}" using call carry by (simp add: hand_def)
  ultimately have frames: "frames_ok cfg t (f # stacks st t)" if "frame_ok cfg t f" for f
    using that by (simp add: frames_ok_Cons)
  have push: "conc_pool_inv cfg (enter t (Pushing w i local # stacks st t) (st\<lparr>submitted := submitted st + {#w#}\<rparr>))"
    "conc_pool_inv cfg (enter t (Pushing w i local # stacks st t) (st\<lparr>rands := r, submitted := submitted st + {#w#}\<rparr>))"
    if "is_task w" "i < workers cfg" "local \<longrightarrow> i = t" for w i local r
    by (rule enter_inv [OF inv t rest frames];
        use that D(6) hand in \<open>simp add: same_queues_def words_ok_def fresh_hand_def offered_def dq_kind_def mb_kind_def\<close>)+
  have plain: "conc_pool_inv cfg st1" if "same_queues st st1" "words_ok cfg st1" "entered st1 = entered st"
      "submitted st1 = submitted st" for st1
    using that inv same_queuesD [OF that(1)] by (simp add: conc_pool_inv_def balanced_def) (simp add: same_queues_def)
  show ?thesis
  proof (cases a)
    case (Schedule_task w start limit)
    obtain r state where rand: "Rand (rands st t) = (r, state)" by fastforce
    let ?rnd = "sint (r mod of_int (limit - start) :: u32)"
    have p: "is_task w" "0 \<le> start" "start < limit" "limit \<le> int (workers cfg)"
      using proper Schedule_task by simp_all
    then have rnd: "0 \<le> ?rnd" "?rnd < limit - start" using rnd_range [of "limit - start" r] n by simp_all
    then have "nat (start + ?rnd) < workers cfg" "start + ?rnd \<noteq> - 1" "start + ?rnd < limit" using p by linarith+
    then show ?thesis using push p rand Schedule_task by (auto simp: Let_def)
  next
    case (Run_on w threadIndex)
    let ?i = "threadIndex mod of_nat (workers cfg) :: u64"
    have u: "unat (of_nat m :: u64) = m" if "m < 65536" for m using that by (simp add: unat_of_nat)
    have i: "unat ?i < workers cfg" using u [OF n] D(1) by (simp add: unat_mod)
    have "?i = (if t < workers cfg then of_nat t else - 1) \<longrightarrow> unat ?i = t"
    proof (cases "t < workers cfg")
      case True
      then show ?thesis using u [of t] n by auto
    next
      case False
      have "?i \<noteq> - 1"
      proof
        assume "?i = - 1"
        then show False using i n by (simp add: unsigned_minus_1_eq_mask mask_eq_exp_minus_1)
      qed
      then show ?thesis using False by simp
    qed
    then show ?thesis using push(1) i proper Run_on by (simp add: Let_def)
  next
    case (Enter_loop once can_steal)
    show ?thesis
    proof (cases "t < workers cfg")
      case True
      then show ?thesis
        using Enter_loop D(6) carry
        by (auto intro!: goto_inv [OF inv t call] frames simp: same_queues_def loop_hand)
    next
      case False
      then show ?thesis using Enter_loop D(6) by (auto intro!: plain simp: same_queues_def words_ok_def)
    qed
  next
    case Cancel_pool
    then show ?thesis
      using D(6) carry
      by (auto intro!: goto_inv [OF inv t call] frames simp: same_queues_def words_ok_def fresh_hand_def)
  next
    case Begin_destructor
    then show ?thesis using D(6) by (auto intro!: plain simp: same_queues_def words_ok_def)
  next
    case (Set_partitions ps)
    then have "\<forall>p \<in> set (zip [0..<length ps] ps). in_bounds (int (workers cfg)) (snd p)"
      using proper set_zip_rightD by fastforce
    then have "conc_pool_inv cfg (enter t (Partitioning (zip [0..<length ps] ps) # stacks st t) st)"
      using D(6) carry by (intro goto_inv [OF inv t call] frames) (simp_all add: same_queues_def fresh_hand_def)
    then show ?thesis using Set_partitions proper by simp
  next
    case Return
    then obtain w fs where top: "stacks st t = Body w # fs"
      using user body by (auto simp: user_code_def split: list.splits frame.splits)
    then have "\<forall>f \<in> set fs. suspended cfg t f" using D(5) [of t] by (simp add: frames_ok_Cons)
    then show ?thesis
      using Return top D(6)
      by (auto intro!: goto_inv [OF inv t call] simp: same_queues_def suspended_frames suspended_hand)
  qed
qed

section \<open>Runs\<close>

lemma start_ok:
  assumes "start_pool cfg seeds half_full = Some st"
  shows "conc_pool_inv cfg st"
proof -
  have n: "0 < workers cfg" "int (workers cfg) < kMaxThreads" "workers cfg \<le> all_threads cfg"
    using assms by (auto simp: start_pool_def split: if_splits)
  obtain d m where d: "new_deque (deque_size cfg) = Some d" and m: "new_mailbox (mailbox_size cfg) = Some m"
    and st: "deques st = (\<lambda>_. d)" "mails st = (\<lambda>_. m)" "next_slots st = (\<lambda>_. 0)" "entered st = []" "submitted st = {#}"
      "partitions st = (\<lambda>_. EncodePartition 0 (of_nat (workers cfg)))"
      "\<forall>t. stacks st t = [] \<or> t < workers cfg \<and> (\<exists>v. stacks st t = [Looping v Reset_load])"
    using assms by (auto simp: start_pool_def split: if_splits option.splits)
  have top: "call_of t (stacks st t) = No_call \<and> carried (stacks st t) = {#} \<and> frames_ok cfg t (stacks st t)" for t
    using st(7) [rule_format, of t] by (auto simp: frames_ok_def)
  have "unat (of_nat (workers cfg) :: u32) = workers cfg" using small_workers [OF n(2)] by (simp add: unat_of_nat)
  then have "partition_ok (int (workers cfg)) (EncodePartition 0 (of_nat (workers cfg)))"
    unfolding partition_ok_def AssertBounds_def using n(1)
    by (intro exI [of _ 0] exI [of _ "of_nat (workers cfg)"]) (simp del: of_nat_unat)
  moreover have "stacks st t = []" if "all_threads cfg \<le> t" for t using st(7) n(3) that by fastforce
  ultimately show ?thesis
    using n(1,2) st top new_deque_ok [OF d] new_mailbox_ok [OF m]
    by (simp add: conc_pool_inv_def queues_ok_def thread_ok_def calls_ok_def words_ok_def balanced_def hand_def
        waiting_tasks_def)
qed

lemma pool_run_inv:
  assumes "pool_run cfg st" "pool_few cfg st"
  shows "conc_pool_inv cfg st"
  using assms
proof (induction rule: pool_run.induct)
  case (start seeds half_full st)
  then show ?case using start_ok by blast
next
  case (move st m st')
  show ?case
  proof (cases m)
    case (Advance t)
    then have step: "t < all_threads cfg" "pool_step cfg t st = Some st'"
      using move.hyps(2) by (auto split: if_splits)
    have few: "pool_few cfg st" by (rule pool_step_few [OF step(2) move.prems])
    note inv = move.IH [OF this]
    have "in_pool_code st t" using outside_steps step(2) by fastforce
    moreover have "\<not> awaits_mutex cfg st t" using step(2) by (auto simp: awaits_mutex_def pool_step_def)
    ultimately show ?thesis using pool_step_ok [OF inv step(1) few] step(2) move.prems by auto
  next
    case (Act t a)
    then have step: "t < all_threads cfg" "user_code cfg t (stacks st t)" "proper_action cfg a"
      "user_step cfg t a st = Some st'" using move.hyps(2) by (auto split: if_splits)
    have "a = Return \<longrightarrow> stacks st t \<noteq> []" using step(4) by auto
    moreover have "pool_few cfg st" using user_step_few [OF step(4)] move.prems by simp
    ultimately show ?thesis using user_step_ok [OF move.IH step(1-3)] step(4) by auto
  qed
qed

section \<open>The tasks in hand\<close>

lemma hand_size:
  "size (hand st t) \<le> 1" "\<not> in_pool_code st t \<Longrightarrow> hand st t = {#}"
proof -
  have "size (dq_held c u) \<le> 1" for c u
    by (auto simp: dq_held_def deque_hand_def offered_def split: option.split store_op.split deque_res.split)
  moreover have "size (popped_item P pc) \<le> 1" for P pc by (cases "(P, pc)" rule: popped_item.cases) auto
  then have "size (mb_held c u) \<le> 1" for c u
    by (auto simp: mb_held_def split: option.split store_op.split)
  moreover have "size (carried fs) \<le> 1" for fs by (cases fs rule: carried.cases) auto
  ultimately show "size (hand st t) \<le> 1" by (simp add: hand_def split: queue_call.split)
  show "\<not> in_pool_code st t \<Longrightarrow> hand st t = {#}"
    by (auto simp: hand_def in_pool_code_def split: list.splits frame.splits)
qed

lemma hands_size: "size (\<Sum>t<(n :: nat). hand st t) \<le> card {t. t < n \<and> in_pool_code st t}"
proof (induction n)
  case (Suc n)
  have split: "{t. t < Suc n \<and> in_pool_code st t} = {t. t < n \<and> in_pool_code st t} \<union> (if in_pool_code st n then {n} else {})"
    by (auto simp: less_Suc_eq)
  have "card {t. t < Suc n \<and> in_pool_code st t} = card {t. t < n \<and> in_pool_code st t} + (if in_pool_code st n then 1 else 0)"
    unfolding split by simp
  then show ?case using Suc.IH hand_size [of st n] by auto
qed simp

text \<open>When no thread is inside the pool, the queues hold what is waiting.\<close>

lemma quiet_pool:
  assumes inv: "conc_pool_inv cfg st" and few: "pool_few cfg st" and cap: "unat (mailbox_size cfg) < 2 ^ 62"
    and quiet: "\<forall>t < all_threads cfg. \<not> in_pool_code st t"
  shows "waiting_tasks cfg st = (\<Sum>i<workers cfg. mset (rq_items (deque_size cfg) (queue (dq_state (deques st i)))) +
    mset (mq_items (mb_queue (mails st i))))"
proof -
  note D = conc_pool_invD [OF inv]
  have rest: "rests cfg st t" for t
  proof (cases "t < all_threads cfg")
    case True
    then have "call_of t (stacks st t) = No_call" using quiet outside_no_call by blast
    then show ?thesis by (rule no_call_rests [OF D(4)])
  next
    case False
    then have "call_of t (stacks st t) = No_call" using D(8) by simp
    then show ?thesis by (rule no_call_rests [OF D(4)])
  qed
  have "mset (rq_items (deque_size cfg) (queue (dq_state (deques st i)))) = dq_items (deque_size cfg) (deques st i) \<and>
      mset (mq_items (mb_queue (mails st i))) = mb_items (mails st i)" if i: "i < workers cfg" for i
  proof
    have "dq_rest (deques st i) (tid i (tid i u))" for u using rest [of "tid i u"] i unfolding rests_def by blast
    then have "dq_rest (deques st i) u" for u by simp
    then show "mset (rq_items (deque_size cfg) (queue (dq_state (deques st i)))) = dq_items (deque_size cfg) (deques st i)"
      using D(3) i by (intro deque_at_rest) (simp_all add: queues_ok_def)
    have "mb_rest (mails st i) u" for u using rest [of u] i by (simp add: rests_def)
    then show "mset (mq_items (mb_queue (mails st i))) = mb_items (mails st i)"
      using D(3) i few cap by (intro mailbox_at_rest) (simp_all add: queues_ok_def pool_few_def)
  qed
  then show ?thesis by (simp add: waiting_tasks_def sum.distrib)
qed

section \<open>The properties\<close>

text \<open>
  C15: However the threads interleave, no task is lost and none is executed more often than it was submitted: the tasks
  whose bodies have been entered, those waiting in the queues, and at most one more for each thread that is
  inside the pool are exactly the submitted ones.  The run-next slots only ever hold the null pointer or \<open>IDLE\<close>.  When no
  thread is inside the pool, every submitted task has been entered or is in a deque or a mailbox.
\<close>

theorem pool_conserves_tasks:
  assumes "pool_run cfg st" "pool_few cfg st" "unat (mailbox_size cfg) < 2 ^ 62"
  shows "(\<exists>H. mset (entered st) + waiting_tasks cfg st + H = submitted st \<and>
      size H \<le> card {t. t < all_threads cfg \<and> in_pool_code st t})
    \<and> (\<forall>i. next_slots st i = 0 \<or> next_slots st i = IDLE)
    \<and> ((\<forall>t < all_threads cfg. \<not> in_pool_code st t) \<longrightarrow>
        submitted st = mset (entered st) +
          (\<Sum>i<workers cfg. mset (rq_items (deque_size cfg) (queue (dq_state (deques st i)))) +
             mset (mq_items (mb_queue (mails st i)))))"
proof -
  note inv = pool_run_inv [OF assms(1,2)]
  note D = conc_pool_invD [OF inv]
  have bal: "mset (entered st) + waiting_tasks cfg st + (\<Sum>t<all_threads cfg. hand st t) = submitted st"
    using D(7) by (simp add: balanced_def ac_simps)
  have "submitted st = mset (entered st) + waiting_tasks cfg st" if "\<forall>t < all_threads cfg. \<not> in_pool_code st t"
    using bal hand_size(2) that by simp
  then have "(\<forall>t < all_threads cfg. \<not> in_pool_code st t) \<longrightarrow>
      submitted st = mset (entered st) +
        (\<Sum>i<workers cfg. mset (rq_items (deque_size cfg) (queue (dq_state (deques st i)))) + mset (mq_items (mb_queue (mails st i))))"
    using quiet_pool [OF inv assms(2,3)] by simp
  moreover have "\<forall>i. next_slots st i = 0 \<or> next_slots st i = IDLE" using D(6) by (simp add: words_ok_def)
  ultimately show ?thesis using bal hands_size by blast
qed

lemma deque_waiter_can_go_on:
  assumes inv: "conc_pool_inv cfg st" and wait: "awaits_mutex cfg st t"
  shows "\<exists>u < all_threads cfg. in_pool_code st u \<and> pool_step cfg u st \<noteq> None"
proof -
  note D = conc_pool_invD [OF inv]
  obtain i op where call: "call_of t (stacks st t) = On_deque i op"
    and w: "dq_result (deques st i) (tid i t) = None" "dq_step (deque_size cfg) (tid i t) (deques st i) = None"
    using wait by (auto simp: awaits_mutex_def)
  have i: "i < workers cfg" using call_of_ok(1) [OF D(5) call] by blast
  have ok: "dq_ok (deque_size cfg) (deques st i)" using D(3) i by (simp add: queues_ok_def)
  have "dq_calls (deques st i) (tid i t) = Some op" using D(4) [of t] call by (simp add: thread_ok_def calls_ok_def)
  then have "\<not> dq_rest (deques st i) (tid i t)" using deques.active [OF ok] w(1) by blast
  from mutex_holder [OF ok w(2) this] obtain h where h: "dq_step (deque_size cfg) h (deques st i) \<noteq> None" by blast
  define u where "u = tid i h"
  then have hu: "h = tid i u" by simp
  have "\<not> dq_rest (deques st i) h"
    using h dq_rest_pc [of "deques st i" h] by (auto simp: dq_step_def conc_step_def)
  then obtain op' where u: "call_of u (stacks st u) = On_deque i op'"
    using D(4) [of u] i hu by (auto simp: thread_ok_def calls_ok_def)
  have res: "dq_result (deques st i) h = None"
    using \<open>\<not> dq_rest (deques st i) h\<close> by (simp add: dq_rest_def dq_result_def split: rq_pc.splits)
  have "pool_step cfg u st \<noteq> None" using u h res unfolding hu by (simp add: pool_step_def)
  moreover have "in_pool_code st u" using outside_no_call u by force
  moreover have "u < all_threads cfg" using D(8) [of u] u by fastforce
  ultimately show ?thesis by blast
qed

text \<open>
  C16: No thread is ever stuck inside the pool: none of the pool's assertions fails, and a thread that is inside it can
  take its next step, unless it waits for the mutex of a deque, and then a thread that is inside the pool can take
  one.  Whatever the body of a task or the code outside the pool may ask of it, it can.
\<close>

theorem pool_threads_go_on:
  assumes "pool_run cfg st" "pool_few cfg st" "t < all_threads cfg"
  shows "(in_pool_code st t \<and> \<not> awaits_mutex cfg st t \<longrightarrow> pool_step cfg t st \<noteq> None)
    \<and> (awaits_mutex cfg st t \<longrightarrow> (\<exists>u < all_threads cfg. in_pool_code st u \<and> pool_step cfg u st \<noteq> None))
    \<and> (\<forall>a. user_code cfg t (stacks st t) \<and> proper_action cfg a \<and> (a = Return \<longrightarrow> stacks st t \<noteq> []) \<longrightarrow>
        user_step cfg t a st \<noteq> None)"
proof -
  note inv = pool_run_inv [OF assms(1,2)]
  show ?thesis
    using pool_step_ok [OF inv assms(3,2)] deque_waiter_can_go_on [OF inv] user_step_ok [OF inv assms(3)] by blast
qed

section \<open>Witnesses\<close>

fun pool_moves :: "pool_config \<Rightarrow> conc_pool \<Rightarrow> pool_move list \<Rightarrow> conc_pool option" where
  "pool_moves cfg st [] = Some st"
| "pool_moves cfg st (m # ms) = Option.bind (make_move cfg m st) (\<lambda>st. pool_moves cfg st ms)"

lemma pool_moves_run: "pool_run cfg st \<Longrightarrow> pool_moves cfg st ms = Some st' \<Longrightarrow> pool_run cfg st'"
  by (induction ms arbitrary: st) (auto simp: bind_eq_Some_conv intro: pool_run.move)

text \<open>
  A pool of two workers and a thread outside it, with small queues: the outside thread submits a task, which comes to
  the mailbox of worker 0; worker 1 finds its own queues empty, steals the task and enters its body.
\<close>

definition small_pool :: pool_config where
  "small_pool = \<lparr>workers = 2, all_threads = 3, deque_size = 4, mailbox_size = 2\<rparr>"

definition small_moves :: "pool_move list" where
  "small_moves = Act 2 (Schedule_task 48 0 2) # replicate 6 (Advance 2) @ replicate 17 (Advance 1)"

definition small_start :: conc_pool where
  "small_start =
    \<lparr>deques = (\<lambda>_. \<lparr>dq_state = \<lparr>queue = \<lparr>rq_front = 0, rq_back = 0, rq_array = replicate 4 \<lparr>el_state = kEmpty, el_w = 0\<rparr>\<rparr>,
        mutex = None, rq_pcs = (\<lambda>_. rq_pc.Idle)\<rparr>, dq_calls = (\<lambda>_. None), dq_evs = [], dq_eff = (\<lambda>_. None)\<rparr>),
     mails = (\<lambda>_. \<lparr>mb_queue = mailbox2, mb_pcs = (\<lambda>_. mq_pc.Idle), mb_hist = new_history\<rparr>),
     next_slots = (\<lambda>_. 0), partitions = (\<lambda>_. EncodePartition 0 2), rands = (\<lambda>_. 0),
     cancel_flag = False, done_flag = False,
     stacks = (\<lambda>t. if 0 < t \<and> t < 2
       then [Looping \<lparr>lv_external = False, lv_once = False, lv_can_steal = False, lv_processed = False,
              lv_all_empty = False\<rparr> Reset_load] else []),
     answers = (\<lambda>_. False), entered = [], submitted = {#}\<rparr>"

lemma small_started: "start_pool small_pool (\<lambda>_. 0) (\<lambda>_. False) = Some small_start"
  by (simp add: start_pool_def small_pool_def kMaxThreads_def kMaxPartitionBits_def new_deque_def new_mailbox_def
      small_start_def mailbox2 RunQueue_def)

lemma small_task: "is_task 48"
  by (simp add: is_task_def IDLE_def)

lemma small_rand: "Rand 0 = (0, 0xda3e39cb94b95bdb)"
  by (simp add: Rand_def)

lemma small_steal: "start_steal v True 0 2 0 = Some (Victim_mail True 0 2 [0, 1], 0xda3e39cb94b95bdb)"
proof -
  have "ComputeCoprimes 2 = [1]" "victims 2 1 2 0 = [0, 1]" by code_simp+
  then show ?thesis by (simp add: start_steal_def small_rand reduce_def Let_def)
qed

lemma small_moves_list:
  "small_moves = [Act 2 (Schedule_task 48 0 2), Advance 2, Advance 2, Advance 2, Advance 2, Advance 2, Advance 2, 
     Advance 1, Advance 1, Advance 1, Advance 1, Advance 1, Advance 1, Advance 1, Advance 1, Advance 1,
     Advance 1, Advance 1, Advance 1, Advance 1, Advance 1, Advance 1, Advance 1, Advance 1]"
  by (simp add: small_moves_def numeral_eq_Suc)

lemmas small_eval = small_pool_def small_start_def mailbox2_def user_code_def small_task IDLE_def
  enter_def pool_step_def tid_def small_rand small_steal
  mb_call_def mb_step_def mb_result_def observe_def construct_slot_def store_turn_def idx_def turn_def
  compare_exchange_head_def compare_exchange_tail_def new_history_def
  dq_call_def dq_step_def dq_result_def conc_step_def kMask_def kMask2_def store_state_def store_work_def
  compare_exchange_state_def eff_upd_def

lemma small_run:
  "\<exists>st. pool_run small_pool st \<and> entered st = [] \<and> submitted st = {#48#} \<and> pool_few small_pool st \<and>
    (\<exists>v. stacks st 1 = [Execute 48, Looping v Running]) \<and> stacks st 0 = [] \<and> stacks st 2 = []"
proof -
  have "\<exists>st. pool_moves small_pool small_start small_moves = Some st \<and> entered st = [] \<and> submitted st = {#48#} \<and>
      (\<exists>v. stacks st 1 = [Execute 48, Looping v Running]) \<and> stacks st 0 = [] \<and> stacks st 2 = [] \<and>
      length (pushed (mb_hist (mails st 0))) \<le> 1 \<and> popping (mb_hist (mails st 0)) \<le> 1 \<and>
      length (pushed (mb_hist (mails st 1))) \<le> 1 \<and> popping (mb_hist (mails st 1)) \<le> 1"
    by (simp add: small_moves_list small_eval)
  then obtain st where m: "pool_moves small_pool small_start small_moves = Some st"
    and st: "entered st = []" "submitted st = {#48#}" "\<exists>v. stacks st 1 = [Execute 48, Looping v Running]"
      "stacks st 0 = []" "stacks st 2 = []"
      "length (pushed (mb_hist (mails st 0))) \<le> 1" "popping (mb_hist (mails st 0)) \<le> 1"
      "length (pushed (mb_hist (mails st 1))) \<le> 1" "popping (mb_hist (mails st 1)) \<le> 1" by blast
  have "pool_few small_pool st"
    using st(6-9) by (auto simp: pool_few_def small_pool_def mb_few_def few_tickets_def less_2_cases_iff)
  then show ?thesis using pool_moves_run [OF pool_run.start [OF small_started] m] st(1-5) by blast
qed

theorem pool_conserves_tasks_witness:
  "\<exists>st. pool_run small_pool st \<and> submitted st = {#48#} \<and> entered st = [48] \<and> waiting_tasks small_pool st = {#} \<and>
    (next_slots st 0 = 0 \<or> next_slots st 0 = IDLE)"
proof -
  obtain st v where st: "pool_run small_pool st" "entered st = []" "submitted st = {#48#}" "pool_few small_pool st"
      "stacks st 1 = [Execute 48, Looping v Running]"
    using small_run by blast
  define st' where "st' = enter 1 [Body 48, Looping v Running] (st\<lparr>entered := entered st @ [48]\<rparr>)"
  have "make_move small_pool (Advance 1) st = Some st'"
    using st(5) by (simp add: st'_def pool_step_def small_pool_def)
  with st(1) have run: "pool_run small_pool st'" by (rule pool_run.move)
  have st': "entered st' = [48]" "submitted st' = {#48#}" "pool_few small_pool st'"
    using st by (simp_all add: st'_def enter_few)
  have "unat (mailbox_size small_pool) < 2 ^ 62" by (simp add: small_pool_def)
  note T = pool_conserves_tasks [OF run st'(3) this]
  obtain H where "mset (entered st') + waiting_tasks small_pool st' + H = submitted st'" using T by blast
  then have "waiting_tasks small_pool st' = {#}" using st'(1,2) by simp
  then show ?thesis using T run st' by blast
qed

theorem pool_threads_go_on_witness:
  "\<exists>st. pool_run small_pool st \<and> in_pool_code st 1 \<and> pool_step small_pool 1 st \<noteq> None \<and>
    user_step small_pool 2 (Run_on 64 1) st \<noteq> None"
proof -
  obtain st v where st: "pool_run small_pool st" "pool_few small_pool st" "stacks st 1 = [Execute 48, Looping v Running]"
    "stacks st 2 = []"
    using small_run by blast
  have "in_pool_code st 1" "\<not> awaits_mutex small_pool st 1" using st(3) by (simp_all add: in_pool_code_def awaits_mutex_def)
  moreover have "1 < all_threads small_pool" "2 < all_threads small_pool" by (simp_all add: small_pool_def)
  moreover have "user_code small_pool 2 (stacks st 2)" "proper_action small_pool (Run_on 64 1)"
    using st(4) by (simp_all add: user_code_def small_pool_def is_task_def IDLE_def)
  ultimately show ?thesis
    using st(1) pool_threads_go_on [OF st(1,2), of 1] pool_threads_go_on [OF st(1,2), of 2] by blast
qed

end
