(* ===== verification/Pool_Flush.thy ===== *)
theory Pool_Flush
  imports Mpmc_Conc
begin

text \<open>
  The mailbox loop of \<open>ThreadData::Flush\<close> of src/include/eigen/nonblocking\_thread\_pool.h, which the destructor of
  a cancelled pool runs before it joins the workers: the destroying thread empties the mailbox while the workers,
  which are still running, push into it and steal from it.  Every load of \<open>empty()\<close> and every atomic access of
  \<open>pop\<close> is one step of the destroying thread, and the steps and calls of all other threads on the mailbox come in
  between in any order.
\<close>

section \<open>The loop\<close>

text \<open>
  Where the destroying thread is: before the two loads of \<open>size()\<close>, between them with the value of \<open>head_\<close>
  (the language leaves their order open; here \<open>head_\<close> is loaded first), inside \<open>pop\<close>, or behind the loop.
\<close>

datatype flush_pc = At_head | At_tail u64 | In_pop | Mailbox_done

type_synonym 'a flush_state = "'a mpmc_queue \<times> (nat \<Rightarrow> 'a mq_pc) \<times> 'a history \<times> flush_pc"

text \<open>One step of the destroying thread \<open>d\<close>.\<close>

fun Flush_step :: "nat \<Rightarrow> 'a flush_state \<Rightarrow> 'a flush_state" where
  "Flush_step d (q, pcs, h, At_head) = (q, pcs, h, At_tail (mq_head q))"
| "Flush_step d (q, pcs, h, At_tail head) =
     (if sint (head - mq_tail q) \<le> 0 then (q, pcs, h, Mailbox_done)
      else (q, pcs(d := mq_entry Pop), h\<lparr>mq_calls := (mq_calls h)(d \<mapsto> Pop), events := (events h)(d := [])\<rparr>, In_pop))"
| "Flush_step d (q, pcs, h, In_pop) =
     (if resting (pcs d) then (q, pcs, h, At_head)
      else case mq_step q (pcs d) of (q', pc, ev) \<Rightarrow> (q', pcs(d := pc), observe d ev h, In_pop))"
| "Flush_step d (q, pcs, h, Mailbox_done) = (q, pcs, h, Mailbox_done)"

fun mover :: "'a mq_move \<Rightarrow> nat" where
  "mover (Call t c) = t"
| "mover (Step t) = t"

inductive flush_next :: "nat \<Rightarrow> 'a flush_state \<Rightarrow> 'a flush_state \<Rightarrow> bool" for d where
  destroyer: "flush_next d s (Flush_step d s)"
| others: "mover m \<noteq> d \<Longrightarrow> mq_do (q, pcs, h) m = Some (q', pcs', h') \<Longrightarrow> flush_next d (q, pcs, h, f) (q', pcs', h', f)"

text \<open>The calls of the destroying thread are as any thread's.\<close>

definition flush_ok :: "u64 \<Rightarrow> nat \<Rightarrow> 'a::zero flush_state \<Rightarrow> bool" where
  "flush_ok capacity d s = (case s of (q, pcs, h, f) \<Rightarrow> mq_run capacity q pcs h \<and> (f \<noteq> In_pop \<longrightarrow> resting (pcs d)))"

lemma Flush_step_ok: "flush_ok capacity d s \<Longrightarrow> flush_ok capacity d (Flush_step d s)"
proof (cases "(d, s)" rule: Flush_step.cases)
  case (2 d' q pcs h head)
  then show "flush_ok capacity d s \<Longrightarrow> ?thesis"
    using mq_run.call [of capacity q pcs h d Pop] by (auto simp: flush_ok_def)
next
  case (3 d' q pcs h)
  then show "flush_ok capacity d s \<Longrightarrow> ?thesis"
    using mq_run.step [of capacity q pcs h d] by (auto simp: flush_ok_def split: prod.splits)
qed (auto simp: flush_ok_def)

lemma flush_next_ok: "flush_next d s s' \<Longrightarrow> flush_ok capacity d s \<Longrightarrow> flush_ok capacity d s'"
proof (induction rule: flush_next.induct)
  case (others m q pcs h q' pcs' h' f)
  have "pcs' d = pcs d" using others.hyps by (cases m) (auto split: if_splits prod.splits)
  then show ?case using others by (auto simp: flush_ok_def dest: mq_do_run)
qed (rule Flush_step_ok)

text \<open>Tickets are only added.\<close>

definition pushes :: "'a flush_state \<Rightarrow> nat" where
  "pushes s = (case s of (q, pcs, h, f) \<Rightarrow> length (pushed h))"

definition pops :: "'a flush_state \<Rightarrow> nat" where
  "pops s = (case s of (q, pcs, h, f) \<Rightarrow> popping h)"

lemma observe_more: "length (pushed h) \<le> length (pushed (observe t ev h))" "popping h \<le> popping (observe t ev h)"
  by (cases ev; simp; cases "the ev"; simp)+

lemma mq_do_more:
  "mq_do (q, pcs, h) m = Some (q', pcs', h') \<Longrightarrow> length (pushed h) \<le> length (pushed h') \<and> popping h \<le> popping h'"
  by (cases m) (auto simp: observe_more split: if_splits prod.splits)

lemma flush_next_more: "flush_next d s s' \<Longrightarrow> pushes s \<le> pushes s' \<and> pops s \<le> pops s'"
proof (induction rule: flush_next.induct)
  case (destroyer s)
  show ?case
    by (cases "(d, s)" rule: Flush_step.cases) (auto simp: pushes_def pops_def observe_more split: prod.splits)
qed (auto simp: pushes_def pops_def dest: mq_do_more)

section \<open>Waiting\<close>

text \<open>The destroying thread waits in \<open>pop\<close> for a push ticket nobody has taken.\<close>

definition stranded :: "nat \<Rightarrow> 'a flush_state \<Rightarrow> bool" where
  "stranded d s = (case s of (q, pcs, h, f) \<Rightarrow> f = In_pop \<and> (\<exists>x. pcs d = Pop_wait x \<and> length (pushed h) \<le> unat x))"

lemma pop_waits:
  assumes inv: "hist_ok q pcs h" and few: "few_tickets h" and pc: "pcs t = Pop_wait x"
    and none: "length (pushed h) \<le> unat x"
  shows "mq_step q (Pop_wait x) = (q, Pop_wait x, None)"
proof -
  let ?c = "unat (mq_capacity q)"
  note S = hist_okD(1) [OF inv]
  have "unat x < popping h" using hist_okD(2) [OF inv, of t] by (simp add: pc)
  moreover have "now q (fst (pop_claim ?c (unat x))) \<noteq> snd (pop_claim ?c (unat x))"
    using done_ticket(1) [OF S, of "unat x"] none by (auto simp: is_done_def claim_fst)
  ultimately show ?thesis using turn_at(2) [OF inv few, of x] by simp
qed

lemma stranded_step:
  assumes next': "flush_next d s s'" and ok: "flush_ok capacity d s" and st: "stranded d s"
    and few: "pops s \<le> 2 ^ 62" "pushes s \<le> 2 ^ 62" and same: "pushes s' = pushes s"
  shows "stranded d s'"
  using next'
proof cases
  case destroyer
  obtain q pcs h x where s: "s = (q, pcs, h, In_pop)" "pcs d = Pop_wait x" "length (pushed h) \<le> unat x"
    using st by (auto simp: stranded_def)
  have "few_tickets h" using few by (simp add: s few_tickets_def pops_def pushes_def)
  then have "mq_step q (Pop_wait x) = (q, Pop_wait x, None)"
    using pop_waits [OF mq_run_ok(1), of capacity q pcs h d x] s(2,3) ok by (simp add: flush_ok_def s(1) del: mq_step.simps)
  then show ?thesis using s by (simp add: destroyer stranded_def del: mq_step.simps)
next
  case (others m q pcs h q' pcs' h' f)
  have "pcs' d = pcs d" using others(3,4) by (cases m) (auto split: if_splits prod.splits)
  then show ?thesis using st same by (auto simp: others(1,2) stranded_def pushes_def)
qed

lemma stranded_stays:
  assumes "(flush_next d)\<^sup>*\<^sup>* s s'" "flush_ok capacity d s" "stranded d s"
    "pops s' \<le> 2 ^ 62" "pushes s' = pushes s" "pushes s \<le> 2 ^ 62"
  shows "stranded d s'"
proof -
  from assms(1,4,5) have "flush_ok capacity d s' \<and> stranded d s'"
  proof induction
    case base
    then show ?case using assms(2,3) by simp
  next
    case (step s' s'')
    note more = flush_next_more [OF step.hyps(2)]
    have "pushes s \<le> pushes s'"
      using step.hyps(1) by induction (use flush_next_more le_trans in blast)+
    then have "pushes s' = pushes s" "pops s' \<le> 2 ^ 62" using more step.prems by simp_all
    with step.IH have IH: "flush_ok capacity d s'" "stranded d s'" by simp_all
    then show ?case
      using flush_next_ok [OF step.hyps(2)] stranded_step [OF step.hyps(2) IH] \<open>pushes s' = pushes s\<close>
        \<open>pops s' \<le> 2 ^ 62\<close> step.prems(2) assms(6) by simp
  qed
  then show ?thesis by simp
qed

section \<open>The race\<close>

text \<open>A list of steps; \<open>None\<close> is one of the destroying thread.\<close>

fun flush_moves :: "nat \<Rightarrow> 'a flush_state \<Rightarrow> 'a mq_move option list \<Rightarrow> 'a flush_state option" where
  "flush_moves d s [] = Some s"
| "flush_moves d s (None # ms) = flush_moves d (Flush_step d s) ms"
| "flush_moves d (q, pcs, h, f) (Some m # ms) =
     (if mover m = d then None
      else case mq_do (q, pcs, h) m of None \<Rightarrow> None | Some (q', pcs', h') \<Rightarrow> flush_moves d (q', pcs', h', f) ms)"

lemma flush_moves_run: "flush_moves d s ms = Some s' \<Longrightarrow> (flush_next d)\<^sup>*\<^sup>* s s'"
proof (induction d s ms rule: flush_moves.induct)
  case (2 d s ms)
  then show ?case using flush_next.destroyer [of d s] by (auto intro: converse_rtranclp_into_rtranclp)
next
  case (3 d q pcs h f m ms)
  then obtain q1 pcs1 h1 where "mover m \<noteq> d" "mq_do (q, pcs, h) m = Some (q1, pcs1, h1)"
    "flush_moves d (q1, pcs1, h1, f) ms = Some s'" by (auto split: if_splits option.splits)
  with 3 show ?case using flush_next.others [of m d q pcs h q1 pcs1 h1 f] by (auto intro: converse_rtranclp_into_rtranclp)
qed simp

text \<open>A worker \<open>t\<close> pushes a task; the destroying thread sees it, \<open>t\<close> takes it back, and the destroying thread pops.\<close>

definition one_push :: "nat \<Rightarrow> 'a \<Rightarrow> 'a mq_move list" where
  "one_push t v = [Call t (TryPush v), Step t, Step t, Step t, Step t, Step t]"

definition race :: "nat \<Rightarrow> 'a mq_move option list" where
  "race t = [None, None, Some (Call t TryPop), Some (Step t), Some (Step t), Some (Step t), Some (Step t), Some (Step t), None]"

lemma race_happens:
  fixes v :: "'a::zero"
  assumes "Queue aligned capacity = Inr (q0 :: 'a mpmc_queue)" "t \<noteq> d"
  shows "\<exists>(q1 :: 'a mpmc_queue) pcs1 h1 q2 pcs2 h2. mq_run capacity q1 pcs1 h1 \<and> (\<forall>u. resting (pcs1 u))
    \<and> pushed h1 = [v] \<and> popping h1 = 0 \<and> (flush_next d)\<^sup>*\<^sup>* (q1, pcs1, h1, At_head) (q2, pcs2, h2, In_pop)
    \<and> mq_calls h2 t = Some TryPop \<and> pcs2 t = Returned (Taken (Some v)) \<and> stranded d (q2, pcs2, h2, In_pop) \<and> pushed h2 = [v]"
proof -
  have cap: "0 < unat capacity" and q0: "q0 = \<lparr>mq_capacity = capacity,
      mq_slots = replicate (unat capacity) \<lparr>sl_turn = 0, sl_storage = 0\<rparr>, mq_head = 0, mq_tail = 0\<rparr>"
    using assms(1) by (auto simp: Queue_def word_less_nat_alt split: if_splits)
  note eval = new_history_def observe_def construct_slot_def store_turn_def idx_def turn_def
    compare_exchange_head_def compare_exchange_tail_def
  obtain q1 pcs1 h1 where m: "mq_moves (q0, (\<lambda>_. Idle), new_history) (one_push t v) = Some (q1, pcs1, h1)"
    and s1: "\<forall>u. resting (pcs1 u)" "pushed h1 = [v]" "popping h1 = 0"
      "mq_capacity q1 = capacity" "mq_head q1 = 1" "mq_tail q1 = 0" "length (mq_slots q1) = unat capacity" "mq_slots q1 ! 0 = \<lparr>sl_turn = 1, sl_storage = v\<rparr>"
    using cap by (simp add: eval one_push_def q0)
  have run: "mq_run capacity q1 pcs1 h1" by (rule mq_moves_run [OF mq_run.start [OF assms(1)] m])
  obtain q2 pcs2 h2 where r: "flush_moves d (q1, pcs1, h1, At_head) (race t) = Some (q2, pcs2, h2, In_pop)"
    and s: "mq_calls h2 t = Some TryPop" "pcs2 t = Returned (Taken (Some v))" "stranded d (q2, pcs2, h2, In_pop)" "pushed h2 = [v]"
    using cap s1 assms(2) by (simp add: eval race_def stranded_def)
  from run s1 flush_moves_run [OF r] s show ?thesis by blast
qed

section \<open>The property\<close>

text \<open>
  C19: The destructor of a cancelled pool can wait for ever.  It flushes the mailboxes before it joins the
  workers: from a mailbox holding one task there is an interleaving in which the destroying thread sees the
  mailbox not empty, a worker takes the task with \<open>try_pop\<close>, and the destroying thread's \<open>pop\<close> takes the ticket
  after it.  From then on, whatever the threads do, the destroying thread stays in the waiting loop of \<open>pop\<close>
  as long as no push takes a ticket (and at most \<open>2 ^ 62\<close> tickets are taken by pops).
\<close>

theorem Flush_can_wait_for_ever:
  fixes v :: "'a::zero"
  assumes "Queue aligned capacity = Inr (q0 :: 'a mpmc_queue)" "t \<noteq> d"
  shows "\<exists>(q :: 'a mpmc_queue) pcs h q' pcs' h'. mq_run capacity q pcs h \<and> (\<forall>u. resting (pcs u))
    \<and> pushed h = [v] \<and> popping h = 0 \<and> (flush_next d)\<^sup>*\<^sup>* (q, pcs, h, At_head) (q', pcs', h', In_pop)
    \<and> mq_calls h' t = Some TryPop \<and> pcs' t = Returned (Taken (Some v)) \<and> stranded d (q', pcs', h', In_pop)
    \<and> (\<forall>s. (flush_next d)\<^sup>*\<^sup>* (q', pcs', h', In_pop) s \<and> pushes s = 1 \<and> pops s \<le> 2 ^ 62 \<longrightarrow> stranded d s)"
proof -
  obtain q :: "'a mpmc_queue" and pcs h q' pcs' h' where r: "mq_run capacity q pcs h" "\<forall>u. resting (pcs u)" "pushed h = [v]"
    "popping h = 0" "(flush_next d)\<^sup>*\<^sup>* (q, pcs, h, At_head) (q', pcs', h', In_pop)"
    "mq_calls h' t = Some TryPop" "pcs' t = Returned (Taken (Some v))" "stranded d (q', pcs', h', In_pop)" and p: "pushed h' = [v]"
    using race_happens [OF assms, of v] by blast
  have "flush_ok capacity d (q, pcs, h, At_head)" using r(1,2) by (simp add: flush_ok_def)
  with r(5) have "flush_ok capacity d (q', pcs', h', In_pop)" by induction (use flush_next_ok in blast)+
  moreover have "pushes (q', pcs', h', In_pop) = 1" by (simp add: pushes_def p)
  ultimately have "stranded d s" if "(flush_next d)\<^sup>*\<^sup>* (q', pcs', h', In_pop) s" "pushes s = 1" "pops s \<le> 2 ^ 62" for s
    using stranded_stays [OF that(1)] r(8) that(2,3) by simp
  with r show ?thesis by blast
qed

text \<open>A mailbox of two slots, emptied by thread 0 while thread 1 steals.\<close>

theorem Flush_can_wait_for_ever_witness:
  "\<exists>q pcs h q' pcs' h'. mq_run 2 q pcs h \<and> pushed h = [48 :: u64] \<and> popping h = 0
    \<and> (flush_next 0)\<^sup>*\<^sup>* (q, pcs, h, At_head) (q', pcs', h', In_pop) \<and> pcs' 1 = Returned (Taken (Some 48))
    \<and> stranded 0 (q', pcs', h', In_pop)"
proof -
  have "(1 :: nat) \<noteq> 0" by simp
  from Flush_can_wait_for_ever [OF mailbox2 this, of 48] show ?thesis by blast
qed

end
