(* ===== verification/Spec2Isabelle.thy ===== *)
theory Spec2Isabelle
  imports Loop_Contract Eigen_Pool Sparse_Kinds Dense_Kernels Scan
    Intrusive_Ptr Max_Size_Vector Aligned_Memory Trapper Parallel_Do Spin_Sync Affinity
    Tracing Scheduling_Dist Barrier_Loops Tuner Run_Queue_Conc Mpmc_Conc Parallel_Modes
    Pool_Conc Pool_Flush
begin

text \<open>
  A model of a microbenchmark for composable parallel schedulers: a work-stealing thread pool taken
  from Eigen, a partitioner that turns \<open>ParallelFor\<close> into tasks on that pool, and the kernels the
  benchmarks run in parallel loops.  All sources named below are under src/include.

  \<^bold>\<open>The parts and how they interact.\<close>  \<open>ParallelFor(from, to, f)\<close> (parallel\_for.h) calls the
  partitioner (timespan\_partitioner.h).  Its task first hands the parts of the range to the threads
  (\<open>DistributeWork\<close>), then splits or runs what it has kept; a tree of reference-counted nodes
  (intrusive\_ptr.h) tells the caller when all tasks have ended, and until then the caller executes
  other tasks of the pool.  Tasks are handed over through \<open>EigenPoolWrapper\<close> (eigen\_pool.h) to the
  thread pool (eigen/nonblocking\_thread\_pool.h).  Each worker of the pool has a deque
  (eigen/run\_queue.h), a mailbox (eigen/mpmc\_queue.h) and a single slot for the next task; an idle
  worker steals from the others.  The kernels (benchmarks/spmv.h, benchmarks/scan.h) are loops over
  \<open>ParallelFor\<close>.

  \<^bold>\<open>The theories, from the bottom.\<close>

  \<^item> \<open>Prelude\<close>: facts about 64-bit words and lists that the components share, and their collections.
  \<^item> \<open>Deque_Spec\<close>, \<open>Fifo_Spec\<close>: what a bounded deque and a bounded queue promise, as locales with the
    histories of operations their clients see; interpreted on the two queues below.
  \<^item> \<open>Run_Queue\<close>: class \<open>RunQueue\<close>.  The two packed counters are 32-bit words, the slots a list; every
    operation is a function from the queue to its result and the new queue.  The operations refine
    those of a list, the size estimates of the code are the length, \<open>PopBackHalf\<close> takes half.
  \<^item> \<open>Run_Queue_Conc\<close>: its four push and pop operations called by several threads at once, one atomic access
    per step; every operation takes effect at one of its steps, as an operation of the abstract deque.
  \<^item> \<open>Mpmc_Queue\<close>: class \<open>Queue\<close> of turns and slots, which refines a first-in-first-out queue.
  \<^item> \<open>Mpmc_Conc\<close>: its pushes and pops, blocking or not, called by any number of threads at once, one atomic
    access per step: items are handed out in the order of the tickets, and waits and refusals have their cause.
  \<^item> \<open>Partitioner\<close>: \<open>Task\<close>, \<open>DistributeWork\<close> and \<open>operator()\<close>, the latter as the steps of one task with
    the pool and the clock as inputs: the parts of a distribution partition the range, sizes differ
    by at most one.
  \<^item> \<open>Task_Nodes\<close>: \<open>TaskNode\<close> on \<open>intrusive_ref_counter\<close>, in a store of nodes where using a deleted
    node is an error, and the thread-local \<open>TaskStack\<close>.
  \<^item> \<open>Parallel_For\<close>: one \<open>ParallelFor\<close> with all its tasks interleaved, as a step relation; every
    iteration is executed exactly once, no deleted node is used, every run ends.
  \<^item> \<open>Loop_Contract\<close>: the locale of parallel loops, interpreted on the partitioner, and the serial loop
    as its reference.
  \<^item> \<open>Parallel_Modes\<close>: \<open>ParallelFor\<close> in the \<open>SERIAL\<close>, \<open>TBB\<close>, \<open>TBB_RAPID\<close> and \<open>EIGEN\<close> modes, each a
    provider of that contract, so that they compute the same.
  \<^item> \<open>Parallel_Do\<close>: \<open>ParallelDo\<close> and its task as interleaved steps on the node store.
  \<^item> \<open>Intrusive_Ptr\<close>: \<open>IntrusivePtr\<close>, whose pointers a client creates, assigns and destroys: the counter of a
    node is the number of pointers to it.
  \<^item> \<open>Max_Size_Vector\<close>, \<open>Aligned_Memory\<close>: eigen/max\_size\_vector.h as a bounded list and the aligned
    allocation of eigen/memory.h.
  \<^item> \<open>Pool_Arith\<close>: partitions as packed 32-bit words, coprimes, the random generator and the walk of a
    thief over the victims.
  \<^item> \<open>Proxy_Task\<close>: the task that sits in two queues at once and runs once.
  \<^item> \<open>Thread_Pool\<close>: \<open>ThreadData\<close> and \<open>ThreadPoolTempl\<close>: construction, submission, stealing, flushing.
  \<^item> \<open>Worker_Loop\<close>: the worker's loop with \<open>JoinMainThread\<close> and \<open>TryExecuteSomething\<close>; what they execute is a
    chain of executions (\<open>task_run\<close>) from the tasks queued at the call to those queued at its end.
  \<^item> \<open>Task_Store\<close>: what the pool relies on in its queues when all threads use them at once, as a locale
    interpreted on the concurrent deque and the concurrent mailbox.
  \<^item> \<open>Pool_Conc\<close>: the pool with all its threads and threads outside it at once: submission, the worker
    loops, stealing, cancelling and the partitions, one access to shared memory per step.  No task is lost or
    executed twice, no assertion fails, and no thread is stuck inside the pool.
  \<^item> \<open>Pool_Flush\<close>: how the destructor of a cancelled pool empties a mailbox while the workers still steal from
    it, as interleaved steps; it can wait for ever.
  \<^item> \<open>Eigen_Pool\<close>: the destructor of the pool without other threads, and \<open>EigenPoolWrapper\<close>, whose
    \<open>run_on_thread\<close> brings the pool and the proxy task together.
  \<^item> \<open>Rapid_Start\<close>, \<open>Trapper\<close>: rapid\_start.h, the parts of a range and the protocol between the caller
    and the trapped threads.
  \<^item> \<open>Spin_Sync\<close>, \<open>Affinity\<close>: the spin lock, the barrier and the pinning of the pool's threads
    (spin\_lock.h, poor\_barrier.h, eigen\_pinner.h, util.h).
  \<^item> \<open>Barrier_Loops\<close>, \<open>Tuner\<close>: the loops whose rounds wait for each other (parallel\_for.h,
    timespan\_tuner/tuner.cpp, scheduling\_dist/scheduling\_dist.cpp) and the tuner's statistics.
  \<^item> \<open>Decimal\<close>, \<open>Json\<close>: numbers as streams print them, and the grammar of JSON as an inductive relation.
  \<^item> \<open>Tracing\<close>: the counters of tracing.h and what is written of them.
  \<^item> \<open>Iteration_Trace\<close>, \<open>Trace_Json\<close>: the \<open>Tracer\<close> of trace.h, what it records of a parallel loop and
    the JSON document it prints.
  \<^item> \<open>Thread_Count\<close>: the number of threads, read from the environment once (num\_threads.h), and the index of a
    thread (thread\_index.h).
  \<^item> \<open>Scheduling_Dist\<close>: the programs scheduling\_dist.cpp and trace\_spin.cpp, composed of the two above and the
    tracer, and \<open>InitParallel\<close> (parallel\_for.h), which pins and warms up the threads before their loops.
  \<^item> \<open>Loops\<close>, \<open>Spmv\<close>, \<open>Sparse_Builder\<close>, \<open>Sparse_Kinds\<close>, \<open>Dense_Kernels\<close>, \<open>Scan\<close>: the kernels and the
    generators of their matrices.  A parallel loop is
    a list of its rounds in an order the partitioner can run them in (the contract above); rounds
    that write disjoint places commute, so that the result does not depend on the order.

  \<^bold>\<open>Machine integers.\<close>  Counters, indices and sizes are words of the code's width and wrap around.
  Where the code uses \<open>int\<close>, overflow is undefined and the model returns no value there.

  \<^bold>\<open>Termination and fuel.\<close>  Loops with a measure are total functions.  \<open>try_push\<close> and
  \<open>try_pop\<close> and the worker's loop may not end in the code; they are partial functions whose value is
  \<open>None\<close> when they do not return, and the properties state that they return.

  \<^bold>\<open>What is not modelled, and why.\<close>  Memory is sequentially consistent.  The components whose theories speak
  of steps (\<open>Run_Queue_Conc\<close>, \<open>Mpmc_Conc\<close>, \<open>Parallel_For\<close>, \<open>Parallel_Do\<close>, \<open>Proxy_Task\<close>, \<open>Trapper\<close>, \<open>Spin_Sync\<close>,
  \<open>Barrier_Loops\<close>, \<open>Pool_Conc\<close>, \<open>Pool_Flush\<close>) interleave them in any order; the other operations run one at a time,
  among them the destructor of the pool as a whole, whose joins of the threads are left out.  The program has one
  pool; a worker of a second pool does not call into the modelled one.  Thread creation, the random device, the clock and the processor's affinity are parameters or left out.  The OpenMP,
  Taskflow and HPX variants of \<open>ParallelFor\<close> hand the loop to a library, and how TBB cuts a range is a parameter.  Floating-point
  rounding is not modelled: the kernels are over any semiring or monoid.  The programs under benchmarks, the
  tests and the build files only call what is modelled.
\<close>

end
